(* ===== verification/SE_Prelude.thy ===== *)
theory SE_Prelude
  imports Main "HOL-Library.Word" "HOL-Library.AList"
begin

text \<open>
  Shared vocabulary of the development: the machine integer types the sources use, the
  pieces of the C++ standard library the components call (\<open>std::lower_bound\<close>, the
  unordered maps), and the generic list, map and word lemmas the component proofs rest on.

  An unordered map is an association list with distinct keys. The list order stands for the
  unspecified iteration order of the container: no theorem of the development depends on it.
\<close>

unbundle bit_operations_syntax

type_synonym u8 = "8 word"
type_synonym u16 = "16 word"
type_synonym u32 = "32 word"
type_synonym u64 = "64 word"

text \<open>A \<open>std::wstring\<close> on Windows is a sequence of 16-bit units, a \<open>std::string\<close> of bytes.\<close>

type_synonym wstring = "16 word list"

named_theorems umap_simps \<open>lookup after the operations of an unordered map\<close>

section \<open>Binary search: \<open>std::lower_bound\<close>\<close>

text \<open>
  The standard algorithm on a random access range: \<open>first\<close> and \<open>len\<close> delimit what is left
  to search, \<open>p\<close> is the comparison with the value already fixed.
\<close>

function lower_bound_from :: "('a \<Rightarrow> bool) \<Rightarrow> 'a list \<Rightarrow> nat \<Rightarrow> nat \<Rightarrow> nat" where
  "lower_bound_from p xs first len =
     (if len = 0 then first
      else let half = len div 2; middle = first + half
           in if p (xs ! middle) then lower_bound_from p xs (middle + 1) (len - half - 1)
              else lower_bound_from p xs first half)"
  by pat_completeness auto
termination
  by (relation "measure (\<lambda>(p, xs, first, len). len)") auto

declare lower_bound_from.simps [simp del]

definition lower_bound :: "('a \<Rightarrow> bool) \<Rightarrow> 'a list \<Rightarrow> nat" where
  "lower_bound p xs = lower_bound_from p xs 0 (length xs)"

definition partitioned :: "('a \<Rightarrow> bool) \<Rightarrow> 'a list \<Rightarrow> bool" where
  "partitioned p xs \<longleftrightarrow> (\<forall>i j. i \<le> j \<longrightarrow> j < length xs \<longrightarrow> p (xs ! j) \<longrightarrow> p (xs ! i))"

lemma lower_bound_from_split:
  assumes "partitioned p xs" and "first + len \<le> length xs"
    and "\<forall>i < first. p (xs ! i)"
    and "\<forall>i. first + len \<le> i \<longrightarrow> i < length xs \<longrightarrow> \<not> p (xs ! i)"
  shows "lower_bound_from p xs first len \<le> length xs \<and>
    (\<forall>i < lower_bound_from p xs first len. p (xs ! i)) \<and>
    (\<forall>i. lower_bound_from p xs first len \<le> i \<longrightarrow> i < length xs \<longrightarrow> \<not> p (xs ! i))"
  using assms
proof (induction p xs first len rule: lower_bound_from.induct)
  case (1 p xs first len)
  show ?case
  proof (cases "len = 0")
    case True
    with "1.prems" show ?thesis by (simp add: lower_bound_from.simps [of p xs first 0])
  next
    case False
    define half where "half = len div 2"
    have half: "first + half < length xs" "half < len"
      using False "1.prems"(2) unfolding half_def by auto
    show ?thesis
    proof (cases "p (xs ! (first + half))")
      case True
      have "\<forall>i < first + half + 1. p (xs ! i)"
        using "1.prems"(1) True half(1) by (auto simp: partitioned_def less_Suc_eq_le)
      moreover have "first + half + 1 + (len - half - 1) = first + len" using half by simp
      ultimately have "lower_bound_from p xs (first + half + 1) (len - half - 1) \<le> length xs \<and>
          (\<forall>i < lower_bound_from p xs (first + half + 1) (len - half - 1). p (xs ! i)) \<and>
          (\<forall>i. lower_bound_from p xs (first + half + 1) (len - half - 1) \<le> i \<longrightarrow>
             i < length xs \<longrightarrow> \<not> p (xs ! i))"
        using "1.IH"(1) [OF False half_def refl] "1.prems" True by metis
      with False True show ?thesis
        by (simp add: lower_bound_from.simps [of p xs first len] half_def Let_def)
    next
      case F: False
      have "\<forall>i. first + half \<le> i \<longrightarrow> i < length xs \<longrightarrow> \<not> p (xs ! i)"
        using "1.prems"(1) F by (auto simp: partitioned_def)
      moreover have "first + half \<le> length xs" using half by simp
      ultimately have "lower_bound_from p xs first half \<le> length xs \<and>
          (\<forall>i < lower_bound_from p xs first half. p (xs ! i)) \<and>
          (\<forall>i. lower_bound_from p xs first half \<le> i \<longrightarrow> i < length xs \<longrightarrow> \<not> p (xs ! i))"
        using "1.IH"(2) [OF False half_def refl] "1.prems" F by metis
      with False F show ?thesis
        by (simp add: lower_bound_from.simps [of p xs first len] half_def Let_def)
    qed
  qed
qed

lemma lower_bound_split:
  assumes "partitioned p xs"
  shows "lower_bound p xs \<le> length xs" and "i < lower_bound p xs \<Longrightarrow> p (xs ! i)"
    and "lower_bound p xs \<le> i \<Longrightarrow> i < length xs \<Longrightarrow> \<not> p (xs ! i)"
  using lower_bound_from_split [OF assms, of 0 "length xs"] by (auto simp: lower_bound_def)

lemma lower_bound_takeWhile:
  assumes "partitioned p xs"
  shows "lower_bound p xs = length (takeWhile p xs)"
proof (rule ccontr)
  let ?t = "length (takeWhile p xs)"
  assume "lower_bound p xs \<noteq> ?t"
  then consider "lower_bound p xs < ?t" | "?t < lower_bound p xs" by linarith
  then show False
  proof cases
    case 1
    then have "p (xs ! lower_bound p xs)"
      by (metis nth_mem set_takeWhileD takeWhile_nth)
    moreover have "lower_bound p xs < length xs"
      using 1 length_takeWhile_le [of p xs] by simp
    ultimately show False using lower_bound_split(3) [OF assms] by blast
  next
    case 2
    then have "?t < length xs" using lower_bound_split(1) [OF assms] by simp
    then have "\<not> p (xs ! ?t)" by (rule nth_length_takeWhile)
    with 2 show False using lower_bound_split(2) [OF assms] by blast
  qed
qed

section \<open>Unordered maps\<close>

text \<open>
  \<open>find\<close>, \<open>operator[]\<close> assignment, \<open>emplace\<close> (which keeps an existing entry) and
  \<open>erase\<close> of \<open>std::unordered_map\<close> and of \<open>robin_hood::unordered_map\<close>.
\<close>

type_synonym ('k, 'v) umap = "('k \<times> 'v) list"

definition um_find :: "('k, 'v) umap \<Rightarrow> 'k \<Rightarrow> 'v option" where
  "um_find m k = map_of m k"

definition um_put :: "'k \<Rightarrow> 'v \<Rightarrow> ('k, 'v) umap \<Rightarrow> ('k, 'v) umap" where
  "um_put k v m = AList.update k v m"

definition um_emplace :: "'k \<Rightarrow> 'v \<Rightarrow> ('k, 'v) umap \<Rightarrow> ('k, 'v) umap" where
  "um_emplace k v m = (case um_find m k of None \<Rightarrow> um_put k v m | Some _ \<Rightarrow> m)"

definition um_erase :: "'k \<Rightarrow> ('k, 'v) umap \<Rightarrow> ('k, 'v) umap" where
  "um_erase k m = AList.delete k m"

definition um_keys :: "('k, 'v) umap \<Rightarrow> 'k list" where
  "um_keys m = map fst m"

definition um_ok :: "('k, 'v) umap \<Rightarrow> bool" where
  "um_ok m \<longleftrightarrow> distinct (map fst m)"

lemma um_find_Nil [umap_simps, simp]: "um_find [] k = None"
  by (simp add: um_find_def)

lemma um_find_put [umap_simps]: "um_find (um_put k v m) j = (if j = k then Some v else um_find m j)"
  by (simp add: um_find_def um_put_def update_conv')

lemma um_find_emplace [umap_simps]:
  "um_find (um_emplace k v m) j =
     (if j = k \<and> um_find m k = None then Some v else um_find m j)"
  by (auto simp: um_emplace_def um_find_put split: option.splits)

lemma um_find_erase [umap_simps]: "um_find (um_erase k m) j = (if j = k then None else um_find m j)"
  by (simp add: um_find_def um_erase_def delete_conv')

lemma um_ok_Nil [simp]: "um_ok []"
  by (simp add: um_ok_def)

lemma um_ok_put [simp]: "um_ok m \<Longrightarrow> um_ok (um_put k v m)"
  by (simp add: um_ok_def um_put_def distinct_update)

lemma um_ok_emplace [simp]: "um_ok m \<Longrightarrow> um_ok (um_emplace k v m)"
  by (simp add: um_emplace_def split: option.splits)

lemma um_ok_erase [simp]: "um_ok m \<Longrightarrow> um_ok (um_erase k m)"
  by (simp add: um_ok_def um_erase_def distinct_delete)

lemma um_find_Some_iff: "um_ok m \<Longrightarrow> um_find m k = Some v \<longleftrightarrow> (k, v) \<in> set m"
  by (simp add: um_ok_def um_find_def map_of_eq_Some_iff)

lemma um_find_None_iff: "um_find m k = None \<longleftrightarrow> k \<notin> fst ` set m"
  by (simp add: um_find_def map_of_eq_None_iff)

lemma length_um_put_new: "um_find m k = None \<Longrightarrow> length (um_put k v m) = Suc (length m)"
proof (induction m)
  case Nil
  then show ?case by (simp add: um_put_def)
next
  case (Cons a m)
  then show ?case by (cases a) (auto simp: um_put_def um_find_def split: if_splits)
qed

section \<open>Steps that may throw\<close>

text \<open>A loop whose body may throw: \<open>None\<close> is the exception.\<close>

fun fold_opt :: "('a \<Rightarrow> 's \<Rightarrow> 's option) \<Rightarrow> 'a list \<Rightarrow> 's \<Rightarrow> 's option" where
  "fold_opt f [] s = Some s"
| "fold_opt f (x # xs) s = (case f x s of None \<Rightarrow> None | Some s' \<Rightarrow> fold_opt f xs s')"

lemma fold_opt_append:
  "fold_opt f (xs @ ys) s = (case fold_opt f xs s of None \<Rightarrow> None | Some s' \<Rightarrow> fold_opt f ys s')"
  by (induction xs arbitrary: s) (auto split: option.splits)

lemma fold_opt_Some: "fold_opt (\<lambda>x s. Some (f x s)) xs s = Some (fold f xs s)"
  by (induction xs arbitrary: s) auto

text \<open>A loop that keeps an invariant under which its body does not throw.\<close>

lemma fold_opt_invar:
  assumes "P s" and "\<And>x s. x \<in> set xs \<Longrightarrow> P s \<Longrightarrow> \<exists>s'. f x s = Some s' \<and> P s'"
  shows "\<exists>s'. fold_opt f xs s = Some s' \<and> P s'"
  using assms
proof (induction xs arbitrary: s)
  case (Cons x xs)
  then obtain s' where "f x s = Some s'" "P s'" by fastforce
  with Cons.IH [of s'] Cons.prems(2) show ?case by simp
qed simp

section \<open>Vectors\<close>

lemma nth_update_if: "xs[i := x] ! j = (if i = j \<and> i < length xs then x else xs ! j)"
  by (cases "i < length xs") (auto simp: nth_list_update list_update_beyond)

section \<open>Words\<close>

lemma unat_of_nat_u32: "n < 2 ^ 32 \<Longrightarrow> unat (of_nat n :: u32) = n"
  by (simp add: unsigned_of_nat take_bit_nat_eq_self)

lemma unat_u32_bound: "unat (x :: u32) < 2 ^ 32"
  using unsigned_less [of x] by simp

lemma unat_ucast_u16: "unat (ucast (x :: u32) :: u16) = unat x mod 65536"
  by (simp add: unsigned_ucast_eq take_bit_eq_mod)

lemma upt_32: "[0..<32] = [
    0, 1, 2, 3, 4, 5, 6, 7, 8, 9, 10, 11, 12, 13, 14, 15, 16, 17, 18, 19, 20, 21, 22, 23, 24,
    25, 26, 27, 28, 29, 30, 31]"
  by code_simp

lemma word32_eqI: "(\<forall>k \<in> set [0..<32]. bit (x :: u32) k = bit y k) \<Longrightarrow> x = y"
  by (intro bit_word_eqI) simp

text \<open>A property of every byte, checked on the 256 values.\<close>

lemma all_bytes:
  assumes "list_all P (map of_nat [0..<256])"
  shows "P (c :: u8)"
proof -
  have "unat c < 256" using unsigned_less [of c, where 'a = nat] by simp
  then have "of_nat (unat c) \<in> set (map of_nat [0..<256] :: u8 list)" by (simp del: of_nat_unat)
  then show ?thesis using assms by (simp add: list_all_iff del: set_map set_upt)
qed

end
