(* ===== verification/BatchQueue.thy ===== *)
theory BatchQueue
  imports SE_Prelude "HOL-Library.Sublist"
begin

text \<open>
  The two shared objects of the full rebuild (\<open>src/src/Index/Batch\<close>): the bounded queue of a
  lane (\<open>BoundedByteQueue.h\<close>) and the pool of available workers
  (\<open>class AvailableWorkers\<close> of \<open>BatchIndexBuilder.cpp\<close>). Every method holds the object's
  mutex, so it is one step; a wait on a condition variable is the result \<open>PushWaits\<close>,
  \<open>PopWaits\<close> or \<open>AcquireWaits\<close>, after which the caller tries again.

  Sizes are natural numbers: the invariant bounds \<open>queuedBytes_\<close> by the capacity, so no
  addition of the code leaves the range of \<open>size_t\<close>. The locale \<open>lane\<close> is what the
  readers and indexers rely on; \<open>bq\<close> is its interpretation on the queue.
\<close>

section \<open>The interface of a lane\<close>

datatype 'q push_result = PushThrows | PushWaits | PushRefused | Pushed 'q

datatype ('a, 'q) pop_result = PopWaits | PopEnd | Popped 'a 'q

locale lane =
  fixes invar :: "'q \<Rightarrow> bool" and items :: "'q \<Rightarrow> 'a list"
    and accepts :: "'q \<Rightarrow> nat \<Rightarrow> bool" and is_open :: "'q \<Rightarrow> bool" and cancelled :: "'q \<Rightarrow> bool"
    and push :: "'a \<Rightarrow> nat \<Rightarrow> 'q \<Rightarrow> 'q push_result" and pop :: "'q \<Rightarrow> ('a, 'q) pop_result"
    and close :: "'q \<Rightarrow> 'q" and cancel :: "'q \<Rightarrow> 'q"
  assumes push_items: "invar q \<Longrightarrow> push x n q = Pushed q' \<Longrightarrow>
      invar q' \<and> items q' = items q @ [x] \<and> is_open q \<and> is_open q' \<and> cancelled q' = cancelled q"
    and push_empty: "invar q \<Longrightarrow> is_open q \<Longrightarrow> items q = [] \<Longrightarrow> accepts q n \<Longrightarrow> \<exists>q'. push x n q = Pushed q'"
    and push_closed: "invar q \<Longrightarrow> \<not> is_open q \<Longrightarrow> accepts q n \<Longrightarrow> push x n q = PushRefused"
    and pop_items: "invar q \<Longrightarrow> pop q = Popped x q' \<Longrightarrow>
      invar q' \<and> items q = x # items q' \<and> is_open q' = is_open q \<and> cancelled q' = cancelled q \<and> \<not> cancelled q"
    and pop_some: "invar q \<Longrightarrow> \<not> cancelled q \<Longrightarrow> items q \<noteq> [] \<Longrightarrow> \<exists>x q'. pop q = Popped x q'"
    and pop_end: "invar q \<Longrightarrow> pop q = PopEnd \<longleftrightarrow> cancelled q \<or> \<not> is_open q \<and> items q = []"
    and close_laws: "invar q \<Longrightarrow> invar (close q) \<and> items (close q) = items q \<and> \<not> is_open (close q) \<and>
      cancelled (close q) = cancelled q"
    and cancel_laws: "invar q \<Longrightarrow> invar (cancel q) \<and> items (cancel q) = [] \<and> \<not> is_open (cancel q) \<and>
      cancelled (cancel q)"
begin

text \<open>Any number of consumer steps: the items come out in the order they are in.\<close>

fun pop_all :: "nat \<Rightarrow> 'q \<Rightarrow> 'a list \<times> 'q" where
  "pop_all 0 q = ([], q)"
| "pop_all (Suc n) q = (case pop q of Popped x q' \<Rightarrow> (let (xs, r) = pop_all n q' in (x # xs, r)) | _ \<Rightarrow> ([], q))"

lemma pop_all_prefix:
  assumes "invar q"
  shows "invar (snd (pop_all n q)) \<and> items q = fst (pop_all n q) @ items (snd (pop_all n q))"
  using assms
proof (induction n arbitrary: q)
  case (Suc n)
  show ?case
  proof (cases "pop q")
    case (Popped x q')
    with pop_items [OF Suc.prems Popped] Suc.IH [of q'] show ?thesis by (simp add: case_prod_beta)
  qed (use Suc.prems in simp_all)
qed simp

text \<open>A closed lane is drained: after as many pops as it holds items, the consumer sees its end.\<close>

lemma closed_lane_drains:
  assumes "invar q" and "\<not> is_open q" and "\<not> cancelled q"
  shows "fst (pop_all (length (items q)) q) = items q \<and> pop (snd (pop_all (length (items q)) q)) = PopEnd"
  using assms
proof (induction "items q" arbitrary: q)
  case Nil
  then show ?case using pop_end [of q] by (simp flip: Nil(1))
next
  case (Cons x xs)
  obtain y q' where p: "pop q = Popped y q'" using pop_some [of q] Cons by fastforce
  with pop_items [OF Cons.prems(1) p] Cons.hyps(2) have q': "invar q'" "items q' = xs" "y = x"
    "\<not> is_open q'" "\<not> cancelled q'" using Cons.prems by auto
  have "fst (pop_all (length xs) q') = xs \<and> pop (snd (pop_all (length xs) q')) = PopEnd"
    using Cons.hyps(1) [of q'] q' by simp
  then show ?case using p q' by (simp add: case_prod_beta flip: Cons.hyps(2))
qed

end

section \<open>\<open>BoundedByteQueue\<close>\<close>

record 'a byte_queue =
  q_capacityBytes :: nat
  q_queue :: "('a \<times> nat) list"
  q_queuedBytes :: nat
  q_closed :: bool
  q_cancelled :: bool

definition bq_new :: "nat \<Rightarrow> 'a byte_queue" where
  "bq_new capacityBytes =
     \<lparr>q_capacityBytes = (if capacityBytes = 0 then 1 else capacityBytes), q_queue = [], q_queuedBytes = 0,
      q_closed = False, q_cancelled = False\<rparr>"

definition bq_push :: "'a \<Rightarrow> nat \<Rightarrow> 'a byte_queue \<Rightarrow> 'a byte_queue push_result" where
  "bq_push item weightBytes q =
     (let weight = (if weightBytes = 0 then 1 else weightBytes)
      in if weight > q_capacityBytes q then PushThrows
         else if \<not> (q_cancelled q \<or> q_closed q \<or>
                     (q_queuedBytes q \<le> q_capacityBytes q \<and> weight \<le> q_capacityBytes q - q_queuedBytes q))
         then PushWaits
         else if q_cancelled q \<or> q_closed q then PushRefused
         else Pushed (q\<lparr>q_queue := q_queue q @ [(item, weight)], q_queuedBytes := q_queuedBytes q + weight\<rparr>))"

definition bq_pop :: "'a byte_queue \<Rightarrow> ('a, 'a byte_queue) pop_result" where
  "bq_pop q =
     (if \<not> (q_cancelled q \<or> q_closed q \<or> q_queue q \<noteq> []) then PopWaits
      else if q_cancelled q then PopEnd
      else case q_queue q of
             [] \<Rightarrow> PopEnd
           | (v, weight) # rest \<Rightarrow>
               Popped v (q\<lparr>q_queue := rest, q_queuedBytes := q_queuedBytes q - weight\<rparr>))"

definition bq_close :: "'a byte_queue \<Rightarrow> 'a byte_queue" where
  "bq_close q = q\<lparr>q_closed := True\<rparr>"

definition bq_cancel :: "'a byte_queue \<Rightarrow> 'a byte_queue" where
  "bq_cancel q = q\<lparr>q_cancelled := True, q_queue := [], q_queuedBytes := 0\<rparr>"

definition bq_invar :: "'a byte_queue \<Rightarrow> bool" where
  "bq_invar q \<longleftrightarrow> 0 < q_capacityBytes q \<and> q_queuedBytes q = sum_list (map snd (q_queue q)) \<and>
     q_queuedBytes q \<le> q_capacityBytes q \<and> (\<forall>e \<in> set (q_queue q). 0 < snd e)"

definition bq_items :: "'a byte_queue \<Rightarrow> 'a list" where
  "bq_items q = map fst (q_queue q)"

definition bq_accepts :: "'a byte_queue \<Rightarrow> nat \<Rightarrow> bool" where
  "bq_accepts q n \<longleftrightarrow> n \<le> q_capacityBytes q"

definition bq_open :: "'a byte_queue \<Rightarrow> bool" where
  "bq_open q \<longleftrightarrow> \<not> q_closed q \<and> \<not> q_cancelled q"

lemma bq_invar_new [simp]: "bq_invar (bq_new n)" "bq_items (bq_new n) = []" "bq_open (bq_new n)"
    "\<not> q_cancelled (bq_new n)" "q_capacityBytes (bq_new n) = (if n = 0 then 1 else n)"
  by (simp_all add: bq_invar_def bq_new_def bq_items_def bq_open_def)

lemma bq_push_Pushed:
  assumes "bq_push x n q = Pushed q'"
  shows "q' = q\<lparr>q_queue := q_queue q @ [(x, if n = 0 then 1 else n)],
      q_queuedBytes := q_queuedBytes q + (if n = 0 then 1 else n)\<rparr>"
    and "bq_open q" and "q_queuedBytes q + (if n = 0 then 1 else n) \<le> q_capacityBytes q"
  using assms by (auto simp: bq_push_def bq_open_def Let_def split: if_splits)

lemma bq_pop_Popped:
  assumes "bq_pop q = Popped x q'"
  obtains w rest where "q_queue q = (x, w) # rest" "\<not> q_cancelled q"
    "q' = q\<lparr>q_queue := rest, q_queuedBytes := q_queuedBytes q - w\<rparr>"
  using assms by (auto simp: bq_pop_def split: if_splits list.splits prod.splits)

lemma bq_capacity [simp]:
  "bq_push x n q = Pushed q' \<Longrightarrow> q_capacityBytes q' = q_capacityBytes q"
  "bq_pop q = Popped x q' \<Longrightarrow> q_capacityBytes q' = q_capacityBytes q"
  "q_capacityBytes (bq_close q) = q_capacityBytes q"
  "q_capacityBytes (bq_cancel q) = q_capacityBytes q"
  by (auto dest!: bq_push_Pushed(1) elim!: bq_pop_Popped simp: bq_close_def bq_cancel_def)

lemma bq_push_items:
  assumes inv: "bq_invar q" and p: "bq_push x n q = Pushed q'"
  shows "bq_invar q' \<and> bq_items q' = bq_items q @ [x] \<and> bq_open q \<and> bq_open q' \<and> q_cancelled q' = q_cancelled q"
proof -
  define w :: nat where "w = (if n = 0 then 1 else n)"
  have q': "q' = q\<lparr>q_queue := q_queue q @ [(x, w)], q_queuedBytes := q_queuedBytes q + w\<rparr>"
    unfolding w_def by (rule bq_push_Pushed(1) [OF p])
  have w: "0 < w" "q_queuedBytes q + w \<le> q_capacityBytes q" and o: "bq_open q"
    using bq_push_Pushed(2,3) [OF p] by (simp_all add: w_def)
  from inv have "bq_invar q'" unfolding bq_invar_def q' using w by auto
  with o show ?thesis by (simp add: q' bq_items_def bq_open_def)
qed

lemma bq_push_empty:
  assumes "bq_invar q" and "bq_open q" and "bq_items q = []" and "bq_accepts q n"
  shows "\<exists>q'. bq_push x n q = Pushed q'"
proof -
  define w :: nat where "w = (if n = 0 then 1 else n)"
  have "q_queuedBytes q = 0" "0 < q_capacityBytes q" using assms(1,3) by (simp_all add: bq_invar_def bq_items_def)
  moreover have "w \<le> q_capacityBytes q" using assms(4) calculation(2) by (simp add: w_def bq_accepts_def)
  ultimately have "bq_push x n q = Pushed (q\<lparr>q_queue := q_queue q @ [(x, w)], q_queuedBytes := q_queuedBytes q + w\<rparr>)"
    using assms(2) unfolding bq_push_def w_def [symmetric] Let_def by (simp add: bq_open_def)
  then show ?thesis ..
qed

lemma bq_push_closed:
  assumes "bq_invar q" and "\<not> bq_open q" and "bq_accepts q n"
  shows "bq_push x n q = PushRefused"
proof -
  define w :: nat where "w = (if n = 0 then 1 else n)"
  have "(w > q_capacityBytes q) = False" using assms(1,3) by (simp add: w_def bq_invar_def bq_accepts_def)
  moreover have "(q_cancelled q \<or> q_closed q) = True" and "(q_cancelled q \<or> q_closed q \<or> b) = True" for b
    using assms(2) by (auto simp: bq_open_def)
  ultimately show ?thesis
    unfolding bq_push_def Let_def w_def [symmetric] by (simp only: if_True if_False simp_thms)
qed

lemma bq_pop_items:
  assumes inv: "bq_invar q" and p: "bq_pop q = Popped x q'"
  shows "bq_invar q' \<and> bq_items q = x # bq_items q' \<and> bq_open q' = bq_open q \<and> q_cancelled q' = q_cancelled q \<and>
    \<not> q_cancelled q"
proof -
  obtain w rest where q: "q_queue q = (x, w) # rest" "\<not> q_cancelled q"
    and q': "q' = q\<lparr>q_queue := rest, q_queuedBytes := q_queuedBytes q - w\<rparr>"
    by (rule bq_pop_Popped [OF p])
  from inv q have "bq_invar q'" unfolding bq_invar_def q' by auto
  with q show ?thesis by (simp add: q' bq_items_def bq_open_def)
qed

lemma bq_pop_some:
  assumes "\<not> q_cancelled q" and "bq_items q \<noteq> []"
  shows "\<exists>x q'. bq_pop q = Popped x q'"
proof -
  obtain e rest where "q_queue q = e # rest" using assms(2) by (cases "q_queue q") (simp_all add: bq_items_def)
  then have "bq_pop q = Popped (fst e) (q\<lparr>q_queue := rest, q_queuedBytes := q_queuedBytes q - snd e\<rparr>)"
    using assms(1) by (simp add: bq_pop_def case_prod_beta)
  then show ?thesis by blast
qed

lemma bq_pop_end: "bq_pop q = PopEnd \<longleftrightarrow> q_cancelled q \<or> \<not> bq_open q \<and> bq_items q = []"
  by (cases "q_queue q") (simp_all add: bq_pop_def bq_open_def bq_items_def case_prod_beta)

interpretation bq: lane bq_invar bq_items bq_accepts bq_open q_cancelled bq_push bq_pop bq_close bq_cancel
  by (unfold_locales;
      (rule bq_push_items bq_push_empty bq_push_closed bq_pop_items bq_pop_some bq_pop_end; assumption)?;
      simp add: bq_invar_def bq_items_def bq_open_def bq_close_def bq_cancel_def)

section \<open>Any use of a queue\<close>

datatype 'a queue_op = OpPush 'a nat | OpPop | OpClose | OpCancel

text \<open>The queue, the items it took and the items it gave out, oldest first.\<close>

fun queue_step :: "'a queue_op \<Rightarrow> 'a byte_queue \<times> 'a list \<times> 'a list \<Rightarrow> 'a byte_queue \<times> 'a list \<times> 'a list" where
  "queue_step (OpPush x n) (q, acc, del) =
     (case bq_push x n q of Pushed q' \<Rightarrow> (q', acc @ [x], del) | _ \<Rightarrow> (q, acc, del))"
| "queue_step OpPop (q, acc, del) = (case bq_pop q of Popped x q' \<Rightarrow> (q', acc, del @ [x]) | _ \<Rightarrow> (q, acc, del))"
| "queue_step OpClose (q, acc, del) = (bq_close q, acc, del)"
| "queue_step OpCancel (q, acc, del) = (bq_cancel q, acc, del)"

definition queue_good :: "'a byte_queue \<times> 'a list \<times> 'a list \<Rightarrow> bool" where
  "queue_good = (\<lambda>(q, acc, del). bq_invar q \<and> (if q_cancelled q then prefix del acc else acc = del @ bq_items q))"

lemma queue_good_step: "queue_good c \<Longrightarrow> queue_good (queue_step op c)"
proof (cases c)
  case (fields q acc del)
  assume g: "queue_good c"
  then have inv: "bq_invar q" by (simp add: queue_good_def fields)
  show ?thesis
  proof (cases op)
    case (OpPush x n)
    then show ?thesis using g bq.push_items [OF inv, of x n] bq_push_Pushed(2) [of x n q]
      by (auto simp: fields queue_good_def bq_open_def split: push_result.splits)
  next
    case OpPop
    then show ?thesis using g bq.pop_items [OF inv]
      by (auto simp: fields queue_good_def split: pop_result.splits)
  next
    case OpClose
    then show ?thesis using g bq.close_laws [OF inv] by (simp add: fields queue_good_def)
  next
    case OpCancel
    then show ?thesis using g bq.cancel_laws [OF inv] by (auto simp: fields queue_good_def split: if_splits)
  qed
qed

text \<open>C27: Whatever readers and indexers do with a lane, its byte count is the weight of what it
  holds and never exceeds the capacity, what comes out is what went in, in the same order,
  and unless the lane is cancelled nothing is lost: everything taken was given out or is
  still queued.\<close>

theorem queue_is_bounded_fifo:
  assumes "fold queue_step ops (bq_new capacityBytes, [], []) = (q, acc, del)"
  shows "q_queuedBytes q = sum_list (map snd (q_queue q)) \<and> q_queuedBytes q \<le> q_capacityBytes q \<and>
    prefix del acc \<and> (\<not> q_cancelled q \<longrightarrow> acc = del @ map fst (q_queue q))"
proof -
  have "queue_good c \<Longrightarrow> queue_good (fold queue_step ops c)" for c :: "'a byte_queue \<times> 'a list \<times> 'a list"
    by (induction ops arbitrary: c) (auto simp: queue_good_step)
  from this [of "(bq_new capacityBytes, [], [])"] assms have "queue_good (q, acc, del)"
    by (simp add: queue_good_def)
  then show ?thesis by (auto simp: queue_good_def bq_invar_def bq_items_def split: if_splits)
qed

lemma queue_is_bounded_fifo_witness:
  "fold queue_step [OpPush ''a'' 2, OpPush ''b'' 1, OpPop, OpPush ''c'' 3, OpClose] (bq_new 3, [], []) =
     (\<lparr>q_capacityBytes = 3, q_queue = [(''b'', 1)], q_queuedBytes = 1, q_closed = True, q_cancelled = False\<rparr>,
      [''a'', ''b''], [''a'']) \<and> prefix [''a''] [''a'', ''b'']"
proof -
  let ?q = "\<lparr>q_capacityBytes = 3, q_queue = [(''b'', 1)], q_queuedBytes = 1, q_closed = True, q_cancelled = False\<rparr>"
  have run: "fold queue_step [OpPush ''a'' 2, OpPush ''b'' 1, OpPop, OpPush ''c'' 3, OpClose] (bq_new 3, [], []) =
     (?q, [''a'', ''b''], [''a''])"
    by (simp add: bq_new_def bq_push_def bq_pop_def bq_close_def)
  from queue_is_bounded_fifo [OF run] run show ?thesis by simp
qed

section \<open>\<open>AvailableWorkers\<close>\<close>

record available_workers =
  aw_workers :: "nat list"
  aw_cancelled :: bool

datatype acquire_result = AcquireWaits | AcquireNone | Acquired nat available_workers

definition aw_new :: "nat \<Rightarrow> available_workers" where
  "aw_new count = \<lparr>aw_workers = [0..<count], aw_cancelled = False\<rparr>"

definition aw_acquire :: "available_workers \<Rightarrow> acquire_result" where
  "aw_acquire a =
     (if \<not> (aw_cancelled a \<or> aw_workers a \<noteq> []) then AcquireWaits
      else if aw_cancelled a then AcquireNone
      else Acquired (hd (aw_workers a)) (a\<lparr>aw_workers := tl (aw_workers a)\<rparr>))"

definition aw_release :: "nat \<Rightarrow> available_workers \<Rightarrow> available_workers" where
  "aw_release worker a = (if aw_cancelled a then a else a\<lparr>aw_workers := aw_workers a @ [worker]\<rparr>)"

definition aw_cancel :: "available_workers \<Rightarrow> available_workers" where
  "aw_cancel a = a\<lparr>aw_cancelled := True\<rparr>"

lemma aw_acquire_cases:
  assumes "aw_acquire a = Acquired w a'"
  shows "aw_workers a = w # aw_workers a'" "\<not> aw_cancelled a" "\<not> aw_cancelled a'"
  using assms by (auto simp: aw_acquire_def split: if_splits)

lemma aw_acquire_some: "\<not> aw_cancelled a \<Longrightarrow> aw_workers a \<noteq> [] \<Longrightarrow> \<exists>w a'. aw_acquire a = Acquired w a'"
  by (simp add: aw_acquire_def)

end
