(* ===== verification/PostingList.thy ===== *)
theory PostingList
  imports SE_Prelude
begin

text \<open>
  The posting list of a word (\<open>src/src/Index/PostingList.h\<close>): a vector of \<open>(fileId, cnt)\<close>
  pairs kept sorted by file id, searched with \<open>std::lower_bound\<close>. The counter is 16 bits
  wide and the increment \<open>list[fileId] += count\<close> takes a 32-bit count, so it wraps.

  The lemmas show that the vector stays strictly sorted, that every operation refines the
  corresponding operation on the finite map \<open>pl_map\<close>, and the exact wrap-around of the
  counter. The locale \<open>counting_map\<close> is the interface the index uses the list through.
\<close>

section \<open>The interface: a map of counters\<close>

locale counting_map =
  fixes invar :: "'m \<Rightarrow> bool"
    and empty :: "'m"
    and lookup :: "'m \<Rightarrow> 'k \<Rightarrow> 'v option"
    and incr :: "'m \<Rightarrow> 'k \<Rightarrow> 'c \<Rightarrow> 'm"
    and erase :: "'m \<Rightarrow> 'k \<Rightarrow> 'm"
    and plus :: "'v option \<Rightarrow> 'c \<Rightarrow> 'v"
  assumes invar_empty: "invar empty"
    and lookup_empty: "lookup empty k = None"
    and invar_incr: "invar m \<Longrightarrow> invar (incr m k c)"
    and lookup_incr: "invar m \<Longrightarrow>
      lookup (incr m k c) j = (if j = k then Some (plus (lookup m k) c) else lookup m j)"
    and invar_erase: "invar m \<Longrightarrow> invar (erase m k)"
    and lookup_erase: "invar m \<Longrightarrow> lookup (erase m k) j = (if j = k then None else lookup m j)"
begin

definition incr_all :: "'m \<Rightarrow> ('k \<times> 'c) list \<Rightarrow> 'm" where
  "incr_all m kcs = foldl (\<lambda>m (k, c). incr m k c) m kcs"

lemma incr_all_Nil [simp]: "incr_all m [] = m"
  by (simp add: incr_all_def)

lemma incr_all_Cons [simp]: "incr_all m (kc # kcs) = incr_all (incr m (fst kc) (snd kc)) kcs"
  by (simp add: incr_all_def split: prod.splits)

lemma invar_incr_all: "invar m \<Longrightarrow> invar (incr_all m kcs)"
  by (induction kcs arbitrary: m) (auto simp: invar_incr)

lemma lookup_incr_all_frame:
  "invar m \<Longrightarrow> j \<notin> fst ` set kcs \<Longrightarrow> lookup (incr_all m kcs) j = lookup m j"
  by (induction kcs arbitrary: m) (auto simp: invar_incr lookup_incr)

lemma lookup_incr_all_single:
  assumes "invar m" and "distinct (map fst kcs)" and "(k, c) \<in> set kcs"
  shows "lookup (incr_all m kcs) k = Some (plus (lookup m k) c)"
  using assms
proof (induction kcs arbitrary: m)
  case Nil
  then show ?case by simp
next
  case (Cons kc kcs)
  show ?case
  proof (cases "kc = (k, c)")
    case True
    with Cons.prems have "k \<notin> fst ` set kcs" by auto
    then have "lookup (incr_all (incr m k c) kcs) k = lookup (incr m k c) k"
      by (rule lookup_incr_all_frame [OF invar_incr [OF Cons.prems(1)]])
    with True Cons.prems(1) show ?thesis by (simp add: lookup_incr)
  next
    case False
    with Cons.prems have "(k, c) \<in> set kcs" and "fst kc \<noteq> k" by (auto simp: image_iff)
    with Cons.prems Cons.IH [OF invar_incr [OF Cons.prems(1)]] show ?thesis
      by (simp add: lookup_incr)
  qed
qed

lemma erase_then_incr: "invar m \<Longrightarrow> lookup (incr (erase m k) k c) k = Some (plus None c)"
  by (simp add: lookup_incr lookup_erase invar_erase)

lemma erase_idem: "invar m \<Longrightarrow> lookup (erase (erase m k) k) = lookup (erase m k)"
  by (auto simp: lookup_erase invar_erase)

end

section \<open>The vector and its operations\<close>

record posting =
  p_fileId :: u32
  p_cnt :: u16

type_synonym posting_list = "posting list"

definition pl_lower :: "posting_list \<Rightarrow> u32 \<Rightarrow> nat" where
  "pl_lower data fileId = lower_bound (\<lambda>p. p_fileId p < fileId) data"

definition pl_find :: "posting_list \<Rightarrow> u32 \<Rightarrow> u16 option" where
  "pl_find data fileId =
     (let it = pl_lower data fileId
      in if it < length data \<and> p_fileId (data ! it) = fileId
         then Some (p_cnt (data ! it)) else None)"

text \<open>\<open>operator[]\<close> returns a reference: the vector after the insertion and the position.\<close>

definition pl_index :: "posting_list \<Rightarrow> u32 \<Rightarrow> posting_list \<times> nat" where
  "pl_index data fileId =
     (let it = pl_lower data fileId
      in if it < length data \<and> p_fileId (data ! it) = fileId then (data, it)
         else (take it data @ \<lparr>p_fileId = fileId, p_cnt = 0\<rparr> # drop it data, it))"

text \<open>
  \<open>list[fileId] += count\<close>: the 16-bit counter is converted to 32 bits for the addition and
  the sum is truncated back.
\<close>

definition cnt_plus :: "u16 \<Rightarrow> u32 \<Rightarrow> u16" where
  "cnt_plus c n = ucast (ucast c + n :: u32)"

definition pl_add :: "posting_list \<Rightarrow> u32 \<Rightarrow> u32 \<Rightarrow> posting_list" where
  "pl_add data fileId count =
     (let (d, it) = pl_index data fileId
      in d[it := (d ! it)\<lparr>p_cnt := cnt_plus (p_cnt (d ! it)) count\<rparr>])"

definition pl_erase :: "posting_list \<Rightarrow> u32 \<Rightarrow> posting_list" where
  "pl_erase data fileId =
     (let it = pl_lower data fileId
      in if it < length data \<and> p_fileId (data ! it) = fileId
         then take it data @ drop (Suc it) data else data)"

definition pl_appendSorted :: "posting_list \<Rightarrow> u32 \<Rightarrow> u16 \<Rightarrow> posting_list" where
  "pl_appendSorted data fileId c = data @ [\<lparr>p_fileId = fileId, p_cnt = c\<rparr>]"

definition pl_assignSortedUnique :: "posting_list \<Rightarrow> posting_list" where
  "pl_assignSortedUnique postings = postings"

section \<open>Sortedness and the map it represents\<close>

definition pl_invar :: "posting_list \<Rightarrow> bool" where
  "pl_invar data \<longleftrightarrow> sorted_wrt (<) (map p_fileId data)"

definition pl_map :: "posting_list \<Rightarrow> u32 \<rightharpoonup> u16" where
  "pl_map data = map_of (map (\<lambda>p. (p_fileId p, p_cnt p)) data)"

lemma pl_invar_Nil [simp]: "pl_invar []"
  by (simp add: pl_invar_def)

lemma pl_invar_append:
  "pl_invar (xs @ ys) \<longleftrightarrow> pl_invar xs \<and> pl_invar ys \<and>
     (\<forall>x \<in> set xs. \<forall>y \<in> set ys. p_fileId x < p_fileId y)"
  by (auto simp: pl_invar_def sorted_wrt_append)

lemma pl_invar_Cons:
  "pl_invar (x # ys) \<longleftrightarrow> pl_invar ys \<and> (\<forall>y \<in> set ys. p_fileId x < p_fileId y)"
  by (auto simp: pl_invar_def)

lemma pl_map_append: "pl_map (xs @ ys) = pl_map ys ++ pl_map xs"
  by (simp add: pl_map_def)

lemma pl_map_Nil [simp]: "pl_map [] = Map.empty"
  by (simp add: pl_map_def)

lemma pl_map_Cons: "pl_map (x # xs) = (pl_map xs)(p_fileId x \<mapsto> p_cnt x)"
  by (simp add: pl_map_def)

lemma pl_map_None: "pl_map data f = None \<longleftrightarrow> f \<notin> p_fileId ` set data"
  by (simp add: pl_map_def map_of_eq_None_iff image_image)

lemma pl_map_dom: "dom (pl_map data) = p_fileId ` set data"
  by (auto simp: pl_map_def dom_map_of_conv_image_fst image_image)

lemma pl_split:
  assumes "pl_invar data"
  obtains (absent) l r where "data = l @ r" "pl_lower data f = length l"
      "\<forall>p \<in> set l. p_fileId p < f" "\<forall>p \<in> set r. f < p_fileId p"
  | (present) l x r where "data = l @ x # r" "pl_lower data f = length l"
      "\<forall>p \<in> set l. p_fileId p < f" "\<forall>p \<in> set r. f < p_fileId p" "p_fileId x = f"
proof -
  let ?P = "\<lambda>p. p_fileId p < f"
  let ?l = "takeWhile ?P data" and ?r = "dropWhile ?P data"
  have nth: "p_fileId (data ! i) < p_fileId (data ! j)" if "i < j" "j < length data" for i j
    using assms that by (simp add: pl_invar_def sorted_wrt_iff_nth_less)
  have "partitioned ?P data"
    unfolding partitioned_def using nth by (metis le_neq_implies_less less_trans)
  then have low: "pl_lower data f = length ?l"
    by (simp add: pl_lower_def lower_bound_takeWhile)
  have eq: "data = ?l @ ?r" by simp
  have l: "\<forall>p \<in> set ?l. p_fileId p < f" by (auto dest: set_takeWhileD)
  show thesis
  proof (cases ?r)
    case Nil
    with eq have "data = ?l @ []" by metis
    then show thesis using low l by (intro absent [of ?l "[]"]) simp_all
  next
    case (Cons x r)
    have nx: "\<not> p_fileId x < f"
      using hd_dropWhile [of ?P data] Cons by simp
    have eq': "data = ?l @ x # r" using eq Cons by metis
    then have gt: "\<forall>p \<in> set r. p_fileId x < p_fileId p"
      using assms pl_invar_append pl_invar_Cons by metis
    show thesis
    proof (cases "p_fileId x = f")
      case True
      with gt show thesis by (intro present [OF eq' low l]) simp_all
    next
      case False
      with nx gt have "\<forall>p \<in> set (x # r). f < p_fileId p"
        using order.strict_trans by auto
      then show thesis by (rule absent [OF eq' low l])
    qed
  qed
qed

lemma pl_map_split_absent:
  assumes "\<forall>p \<in> set l. p_fileId p < f" and "\<forall>p \<in> set r. f < p_fileId p"
  shows "pl_map l f = None" and "pl_map r f = None"
  using assms by (auto simp: pl_map_None)

section \<open>Each operation against the map\<close>

lemma pl_find_map: "pl_invar data \<Longrightarrow> pl_find data f = pl_map data f"
  by (erule pl_split [of _ f])
    (auto simp: pl_find_def Let_def pl_map_append pl_map_Cons pl_map_split_absent nth_append
      map_add_def split: option.splits)

lemma pl_add_split:
  assumes "pl_invar data"
  obtains (absent) l r where "data = l @ r" "pl_map data f = None"
      "\<forall>p \<in> set l. p_fileId p < f" "\<forall>p \<in> set r. f < p_fileId p"
      "pl_add data f n = l @ \<lparr>p_fileId = f, p_cnt = cnt_plus 0 n\<rparr> # r"
  | (present) l x r where "data = l @ x # r" "pl_map data f = Some (p_cnt x)"
      "\<forall>p \<in> set l. p_fileId p < f" "\<forall>p \<in> set r. f < p_fileId p" "p_fileId x = f"
      "pl_add data f n = l @ x\<lparr>p_cnt := cnt_plus (p_cnt x) n\<rparr> # r"
  using assms
proof (cases rule: pl_split [of data f])
  case (absent l r)
  moreover have "pl_map data f = None"
    using absent by (simp add: pl_map_append pl_map_split_absent map_add_def)
  moreover from absent have "\<not> (length l < length data \<and> p_fileId (data ! length l) = f)"
    by (auto simp: nth_append)
  ultimately show thesis
    by (intro that(1) [of l r]) (auto simp: pl_add_def pl_index_def Let_def)
next
  case (present l x r)
  then show thesis
    by (intro that(2) [of l x r])
      (auto simp: pl_add_def pl_index_def Let_def pl_map_append pl_map_Cons
        pl_map_split_absent map_add_def split: option.splits)
qed

lemma pl_invar_add: "pl_invar data \<Longrightarrow> pl_invar (pl_add data f n)"
  by (rule pl_add_split [of data f n], assumption)
    (auto simp: pl_invar_append pl_invar_Cons intro: less_trans)

lemma pl_map_add:
  assumes "pl_invar data"
  shows "pl_map (pl_add data f n) =
    (pl_map data)(f \<mapsto> cnt_plus (case pl_map data f of None \<Rightarrow> 0 | Some c \<Rightarrow> c) n)"
  using assms
  by (cases rule: pl_add_split [of data f n])
    (auto simp: pl_map_append pl_map_Cons pl_map_split_absent fun_eq_iff map_add_def
      split: option.splits)

lemma pl_erase_split:
  assumes "pl_invar data"
  obtains (absent) "pl_map data f = None" "pl_erase data f = data"
  | (present) l x r where "data = l @ x # r" "\<forall>p \<in> set l. p_fileId p < f"
      "\<forall>p \<in> set r. f < p_fileId p" "p_fileId x = f" "pl_erase data f = l @ r"
  using assms
proof (cases rule: pl_split [of data f])
  case (absent l r)
  then show thesis
    by (intro that(1))
      (auto simp: pl_erase_def Let_def nth_append pl_map_append pl_map_split_absent map_add_def)
next
  case (present l x r)
  then show thesis
    by (intro that(2) [of l x r]) (auto simp: pl_erase_def Let_def)
qed

lemma pl_invar_erase: "pl_invar data \<Longrightarrow> pl_invar (pl_erase data f)"
  by (rule pl_erase_split [of data f], assumption) (auto simp: pl_invar_append pl_invar_Cons)

lemma pl_map_erase: "pl_invar data \<Longrightarrow> pl_map (pl_erase data f) = (pl_map data)(f := None)"
  by (erule pl_erase_split [of _ f])
    (auto simp: pl_map_append pl_map_Cons pl_map_split_absent fun_eq_iff map_add_def
      split: option.splits)

lemma pl_map_appendSorted:
  assumes "pl_invar data" and "\<forall>p \<in> set data. p_fileId p < f"
  shows "pl_invar (pl_appendSorted data f c)"
    and "pl_map (pl_appendSorted data f c) = (pl_map data)(f \<mapsto> c)"
proof -
  show "pl_invar (pl_appendSorted data f c)"
    using assms by (simp add: pl_appendSorted_def pl_invar_append pl_invar_Cons)
  have "pl_map data f = None" using assms(2) by (auto simp: pl_map_None)
  then show "pl_map (pl_appendSorted data f c) = (pl_map data)(f \<mapsto> c)"
    by (auto simp: pl_appendSorted_def pl_map_append pl_map_Cons fun_eq_iff map_add_def
        split: option.splits)
qed

lemma pl_empty_iff: "data = [] \<longleftrightarrow> pl_map data = Map.empty"
  by (auto simp: fun_eq_iff pl_map_None neq_Nil_conv pl_map_Cons)

lemma length_pl: "pl_invar data \<Longrightarrow> length data = card (dom (pl_map data))"
  by (metis card_image distinct_card distinct_map pl_map_dom pl_invar_def length_map set_map
      strict_sorted_iff)

lemma pl_invar_distinct: "pl_invar data \<Longrightarrow> distinct (map p_fileId data)"
  by (simp add: pl_invar_def strict_sorted_iff)

lemma pl_mem_map: "pl_invar data \<Longrightarrow> p \<in> set data \<Longrightarrow> pl_map data (p_fileId p) = Some (p_cnt p)"
  unfolding pl_map_def
  by (rule map_of_is_SomeI) (auto dest: pl_invar_distinct simp: comp_def)

section \<open>The posting list implements the interface\<close>

definition cnt_plus_opt :: "u16 option \<Rightarrow> u32 \<Rightarrow> u16" where
  "cnt_plus_opt oc n = cnt_plus (case oc of None \<Rightarrow> 0 | Some c \<Rightarrow> c) n"

interpretation pl: counting_map pl_invar "[]" pl_find pl_add pl_erase cnt_plus_opt
  by unfold_locales
    (auto simp: pl_find_map pl_invar_add pl_invar_erase pl_map_add pl_map_erase cnt_plus_opt_def)

section \<open>The counter\<close>

lemma unat_cnt_plus: "unat (cnt_plus c n) = (unat c + unat n) mod 65536"
proof -
  have "unat (cnt_plus c n) = (unat c + unat n) mod 2 ^ 32 mod 65536"
    by (simp add: cnt_plus_def unsigned_ucast_eq take_bit_eq_mod unat_word_ariths mod_add_left_eq)
  also have "\<dots> = (unat c + unat n) mod 65536"
    by (rule mod_mod_cancel) simp
  finally show ?thesis .
qed

lemma cnt_plus_exact:
  "unat c + unat n < 65536 \<Longrightarrow> unat (cnt_plus c n) = unat c + unat n"
  by (simp add: unat_cnt_plus)

end
