(* ===== verification/Tokenizer.thy ===== *)
theory Tokenizer
  imports SE_Prelude
begin

text \<open>
  Tokenisation of OEM866 files: \<open>src/src/Index/simd_tokenizer.cpp\<close> (scalar and AVX2
  versions with the carried-over tail), \<open>src/src/Index/OEMFastTokenizer.cpp\<close>
  (normalisation, and the older table-driven tokenizer), and the block-wise file reading loop
  of \<open>InvertedIndex::fileIndexing\<close>. \<open>ispunct\<close> depends on the C locale the application sets,
  so it is an argument everywhere; the upper-case table and \<open>firstOEM\<close> come from
  \<open>OEMCase\<close> and are arguments too.

  The lemmas relate both implementations to a one-character-at-a-time lexer, show that
  cutting a file into buffers does not change the tokens when the last buffer is flagged,
  and say exactly what the file loop loses when it is not.
\<close>

section \<open>Delimiters and trimming\<close>

definition is_delim_char_scalar :: "char \<Rightarrow> bool" where
  "is_delim_char_scalar c \<longleftrightarrow>
     c = CHR '' '' \<or> c = CHR 0x09 \<or> c = CHR 0x0A \<or> c = CHR 0x0D \<or> c = CHR 0x0C \<or>
     c = CHR 0x0B \<or> c = CHR 0x00"

definition substr :: "string \<Rightarrow> nat \<Rightarrow> nat \<Rightarrow> string" where
  "substr s pos n = take n (drop pos s)"

function trim_front :: "(char \<Rightarrow> bool) \<Rightarrow> string \<Rightarrow> nat \<Rightarrow> nat \<Rightarrow> nat" where
  "trim_front p s b e = (if b < e \<and> p (s ! b) then trim_front p s (b + 1) e else b)"
  by pat_completeness auto
termination
  by (relation "measure (\<lambda>(p, s, b, e). e - b)") auto

function trim_back :: "(char \<Rightarrow> bool) \<Rightarrow> string \<Rightarrow> nat \<Rightarrow> nat \<Rightarrow> nat" where
  "trim_back p s b e = (if b < e \<and> p (s ! (e - 1)) then trim_back p s b (e - 1) else e)"
  by pat_completeness auto
termination
  by (relation "measure (\<lambda>(p, s, b, e). e)") auto

declare trim_front.simps [simp del] trim_back.simps [simp del]

definition trim_punct :: "(char \<Rightarrow> bool) \<Rightarrow> string \<Rightarrow> string" where
  "trim_punct ispunct sv =
     (let b = trim_front ispunct sv 0 (length sv);
          e = trim_back ispunct sv b (length sv)
      in substr sv b (e - b))"

definition emit_token_if_not_empty :: "(char \<Rightarrow> bool) \<Rightarrow> string \<Rightarrow> string list" where
  "emit_token_if_not_empty ispunct view =
     (let cleaned = trim_punct ispunct view in if cleaned \<noteq> [] then [cleaned] else [])"

section \<open>The buffer tokenizers\<close>

record tok_state =
  in_token :: bool
  token_start :: nat
  carry :: string
  tok_out :: "string list"

text \<open>The body of the per-character loop, which the scalar loop, the AVX2 block loop and the
  AVX2 tail repeat.\<close>

definition tok_char ::
  "(char \<Rightarrow> bool) \<Rightarrow> string \<Rightarrow> bool \<Rightarrow> nat \<Rightarrow> tok_state \<Rightarrow> tok_state" where
  "tok_char ispunct data delim pos st =
     (if delim then
        (if in_token st then
           (if carry st \<noteq> [] then
              let c = carry st @ substr data (token_start st) (pos - token_start st)
              in st\<lparr>tok_out := tok_out st @ emit_token_if_not_empty ispunct c,
                    carry := [], in_token := False\<rparr>
            else
              st\<lparr>tok_out := tok_out st @ emit_token_if_not_empty ispunct
                    (substr data (token_start st) (pos - token_start st)),
                 in_token := False\<rparr>)
         else st)
      else (if \<not> in_token st then st\<lparr>token_start := pos, in_token := True\<rparr> else st))"

definition tok_finish ::
  "(char \<Rightarrow> bool) \<Rightarrow> string \<Rightarrow> bool \<Rightarrow> tok_state \<Rightarrow> string list \<times> string" where
  "tok_finish ispunct data isLastChunk st =
     (let len = length data;
          c = (if in_token st then
                 (if carry st \<noteq> []
                  then carry st @ substr data (token_start st) (len - token_start st)
                  else substr data (token_start st) (len - token_start st))
               else carry st)
      in if isLastChunk \<and> c \<noteq> []
         then (tok_out st @ emit_token_if_not_empty ispunct c, [])
         else (tok_out st, c))"

definition tok_init :: "string \<Rightarrow> tok_state" where
  "tok_init c = \<lparr>in_token = (c \<noteq> []), token_start = 0, carry = c, tok_out = []\<rparr>"

definition tok_scalar_at ::
  "(char \<Rightarrow> bool) \<Rightarrow> string \<Rightarrow> nat \<Rightarrow> tok_state \<Rightarrow> tok_state" where
  "tok_scalar_at ispunct data i st =
     tok_char ispunct data (is_delim_char_scalar (data ! i)) i st"

definition tokenize_scalar ::
  "(char \<Rightarrow> bool) \<Rightarrow> string \<Rightarrow> bool \<Rightarrow> string \<Rightarrow> string list \<times> string" where
  "tokenize_scalar ispunct data isLastChunk c =
     tok_finish ispunct data isLastChunk
       (fold (tok_scalar_at ispunct data) [0..<length data] (tok_init c))"

text \<open>
  One AVX2 round compares 32 bytes with the seven delimiters at once and gathers the
  results into a 32-bit mask, of which bit \<open>b\<close> belongs to byte \<open>i + b\<close>.
\<close>

definition avx2_mask :: "string \<Rightarrow> nat \<Rightarrow> u32" where
  "avx2_mask data i =
     horner_sum of_bool 2
       (map (\<lambda>c. (c = CHR 0x00 \<or> (c = CHR '' '' \<or> c = CHR 0x09)) \<or>
                 ((c = CHR 0x0A \<or> c = CHR 0x0D) \<or> (c = CHR 0x0C \<or> c = CHR 0x0B)))
         (substr data i 32))"

definition avx2_block ::
  "(char \<Rightarrow> bool) \<Rightarrow> string \<Rightarrow> nat \<Rightarrow> tok_state \<Rightarrow> tok_state" where
  "avx2_block ispunct data i st =
     (let mask = avx2_mask data i
      in fold (\<lambda>b. tok_char ispunct data (drop_bit b mask AND 1 = 1) (i + b)) [0..<32] st)"

function avx2_blocks ::
  "(char \<Rightarrow> bool) \<Rightarrow> string \<Rightarrow> nat \<Rightarrow> tok_state \<Rightarrow> nat \<times> tok_state" where
  "avx2_blocks ispunct data i st =
     (if i + 32 \<le> length data
      then avx2_blocks ispunct data (i + 32) (avx2_block ispunct data i st)
      else (i, st))"
  by pat_completeness auto
termination
  by (relation "measure (\<lambda>(p, data, i, st). length data - i)") auto

declare avx2_blocks.simps [simp del]

definition tokenize_avx2 ::
  "(char \<Rightarrow> bool) \<Rightarrow> string \<Rightarrow> bool \<Rightarrow> string \<Rightarrow> string list \<times> string" where
  "tokenize_avx2 ispunct data isLastChunk c =
     (let (i, st) = avx2_blocks ispunct data 0 (tok_init c)
      in tok_finish ispunct data isLastChunk
           (fold (tok_scalar_at ispunct data) [i..<length data] st))"

text \<open>\<open>avx2\<close> stands for the preprocessor test on \<open>__AVX2__\<close>.\<close>

definition tokenize_oem866_buffer ::
  "bool \<Rightarrow> (char \<Rightarrow> bool) \<Rightarrow> string \<Rightarrow> bool \<Rightarrow> string \<Rightarrow> string list \<times> string" where
  "tokenize_oem866_buffer avx2 ispunct data isLastChunk c =
     (if avx2 then tokenize_avx2 ispunct data isLastChunk c
      else tokenize_scalar ispunct data isLastChunk c)"

section \<open>Normalisation\<close>

definition normalizeToken ::
  "(char \<Rightarrow> char) \<Rightarrow> char \<Rightarrow> (char \<Rightarrow> bool) \<Rightarrow> string \<Rightarrow> string" where
  "normalizeToken getUpperCharOem firstOEM ispunct s =
     (if s = [] then s
      else let p = map getUpperCharOem s; n = length s;
               cut = (\<lambda>c. c \<noteq> firstOEM \<and> ispunct c);
               start = trim_front cut p 0 n;
               e = trim_back cut p start n
           in if start \<noteq> 0 \<or> e \<noteq> n then substr p start (e - start) else p)"

section \<open>Reading a file in blocks\<close>

text \<open>
  \<open>std::ifstream::read\<close> asks for \<open>n\<close> bytes; \<open>eof()\<close> holds afterwards exactly when fewer
  than \<open>n\<close> were left. The loop stops at the first read that returns nothing.
\<close>

definition BUF_SIZE :: nat where
  "BUF_SIZE = 64 * 1024"

function read_blocks :: "nat \<Rightarrow> string \<Rightarrow> (string \<times> bool) list" where
  "read_blocks n bytes =
     (if bytes = [] \<or> n = 0 then []
      else (take n bytes, length bytes < n) # read_blocks n (drop n bytes))"
  by pat_completeness auto
termination
  by (relation "measure (\<lambda>(n, bytes). length bytes)") auto

declare read_blocks.simps [simp del]

fun tokenize_blocks ::
  "bool \<Rightarrow> (char \<Rightarrow> bool) \<Rightarrow> (string \<times> bool) list \<Rightarrow> string \<Rightarrow> string list \<times> string" where
  "tokenize_blocks avx2 ispunct [] c = ([], c)"
| "tokenize_blocks avx2 ispunct ((data, isLastChunk) # bs) c =
     (let (out, c') = tokenize_oem866_buffer avx2 ispunct data isLastChunk c;
          (out', c'') = tokenize_blocks avx2 ispunct bs c'
      in (out @ out', c''))"

definition file_tokens :: "bool \<Rightarrow> (char \<Rightarrow> bool) \<Rightarrow> string \<Rightarrow> string list" where
  "file_tokens avx2 ispunct bytes =
     fst (tokenize_blocks avx2 ispunct (read_blocks BUF_SIZE bytes) [])"

definition file_words ::
  "bool \<Rightarrow> (char \<Rightarrow> char) \<Rightarrow> char \<Rightarrow> (char \<Rightarrow> bool) \<Rightarrow> string \<Rightarrow> string list" where
  "file_words avx2 upper firstOEM ispunct bytes =
     filter (\<lambda>w. w \<noteq> []) (map (normalizeToken upper firstOEM ispunct) (file_tokens avx2 ispunct bytes))"

definition count_word :: "string \<Rightarrow> (string, nat) umap \<Rightarrow> (string, nat) umap" where
  "count_word w freq = um_put w (case um_find freq w of None \<Rightarrow> 1 | Some n \<Rightarrow> Suc n) freq"

definition freqWordFile :: "string list \<Rightarrow> (string, nat) umap" where
  "freqWordFile ws = fold count_word ws []"

section \<open>The older table-driven tokenizer\<close>

definition isWordChar :: "char \<Rightarrow> bool" where
  "isWordChar ch = (let c = of_char ch :: nat
     in (48 \<le> c \<and> c \<le> 57) \<or> (65 \<le> c \<and> c \<le> 90) \<or> (97 \<le> c \<and> c \<le> 122) \<or> (128 \<le> c \<and> c < 256))"

definition tb_char :: "string \<Rightarrow> nat \<Rightarrow> tok_state \<Rightarrow> tok_state" where
  "tb_char data i st =
     (if isWordChar (data ! i) then
        (if \<not> in_token st then st\<lparr>in_token := True, token_start := i\<rparr> else st)
      else if in_token st then
        (if carry st = [] then
           st\<lparr>tok_out := tok_out st @ [substr data (token_start st) (i - token_start st)],
              in_token := False\<rparr>
         else
           let c = carry st @ substr data (token_start st) (i - token_start st)
           in st\<lparr>tok_out := tok_out st @ [c], carry := [], in_token := False\<rparr>)
      else st)"

definition tokenizeBuffer :: "string \<Rightarrow> string \<Rightarrow> string list \<times> string" where
  "tokenizeBuffer data c =
     (let st = fold (tb_char data) [0..<length data]
                 \<lparr>in_token = False, token_start = 0, carry = c, tok_out = []\<rparr>
      in if in_token st
         then (tok_out st, carry st @ substr data (token_start st) (length data - token_start st))
         else (tok_out st, carry st))"

section \<open>Trimming\<close>

lemma trim_front_takeWhile:
  "b \<le> length s \<Longrightarrow> trim_front p s b (length s) = b + length (takeWhile p (drop b s))"
proof (induction p s b "length s" rule: trim_front.induct)
  case (1 p s b)
  show ?case
  proof (cases "b < length s \<and> p (s ! b)")
    case True
    then have "drop b s = s ! b # drop (b + 1) s" by (simp add: Cons_nth_drop_Suc)
    with True "1.hyps" show ?thesis by (simp add: trim_front.simps [of p s b "length s"])
  next
    case False
    then have "takeWhile p (drop b s) = []"
      using "1.prems" by (cases "b < length s") (auto simp: Cons_nth_drop_Suc [symmetric])
    with False show ?thesis by (auto simp: trim_front.simps [of p s b "length s"])
  qed
qed

lemma trim_back_props:
  "b \<le> e \<Longrightarrow> e \<le> length s \<Longrightarrow>
   b \<le> trim_back p s b e \<and> trim_back p s b e \<le> e \<and>
   substr s b (trim_back p s b e - b) = rev (dropWhile p (rev (substr s b (e - b))))"
proof (induction p s b e rule: trim_back.induct)
  case (1 p s b e)
  show ?case
  proof (cases "b < e")
    case True
    then obtain e' where e: "e = Suc e'" and "b \<le> e'" by (cases e) auto
    with "1.prems" have sub: "substr s b (Suc e' - b) = substr s b (e' - b) @ [s ! e']"
      by (simp add: substr_def Suc_diff_le take_Suc_conv_app_nth)
    show ?thesis
    proof (cases "p (s ! e')")
      case pc: True
      with "1.IH" "1.prems" True e \<open>b \<le> e'\<close> show ?thesis
        by (simp add: trim_back.simps [of p s b "Suc e'"] sub)
    next
      case False
      with True e sub show ?thesis by (simp add: trim_back.simps [of p s b "Suc e'"])
    qed
  next
    case False
    then have "trim_back p s b e = e" by (simp add: trim_back.simps [of p s b e])
    with False "1.prems" show ?thesis by (simp add: substr_def)
  qed
qed

lemma substr_full: "substr s b (length s - b) = drop b s"
  by (simp add: substr_def)

lemma trim_loops_spec:
  assumes "b = trim_front p s 0 (length s)"
  shows "substr s b (trim_back p s b (length s) - b) = rev (dropWhile p (rev (dropWhile p s)))"
proof -
  have b: "b = length (takeWhile p s)" using assms trim_front_takeWhile [of 0 s p] by simp
  then have "b \<le> length s" by (simp add: length_takeWhile_le)
  with trim_back_props [of b "length s" s p] b show ?thesis
    by (simp add: substr_full dropWhile_eq_drop)
qed

lemma trim_punct_spec: "trim_punct p s = rev (dropWhile p (rev (dropWhile p s)))"
  using trim_loops_spec [of _ p s] by (simp add: trim_punct_def Let_def)

lemma trim_punct_Nil [simp]: "trim_punct p [] = []"
  by (simp add: trim_punct_spec)

lemma emit_Nil [simp]: "emit_token_if_not_empty p [] = []"
  by (simp add: emit_token_if_not_empty_def)

lemma emit_not_Nil: "t \<in> set (emit_token_if_not_empty p v) \<Longrightarrow> t \<noteq> []"
  by (auto simp: emit_token_if_not_empty_def Let_def split: if_splits)

lemma normalizeToken_spec:
  "normalizeToken up fo p s =
     (let q = \<lambda>c. c \<noteq> fo \<and> p c in rev (dropWhile q (rev (dropWhile q (map up s)))))"
proof (cases "s = []")
  case True
  then show ?thesis by (simp add: normalizeToken_def)
next
  case False
  define q where "q = (\<lambda>c. c \<noteq> fo \<and> p c)"
  let ?m = "map up s"
  define b where "b = trim_front q ?m 0 (length ?m)"
  define e where "e = trim_back q ?m b (length ?m)"
  have spec: "substr ?m b (e - b) = rev (dropWhile q (rev (dropWhile q ?m)))"
    using trim_loops_spec [OF b_def] by (simp add: e_def)
  moreover have "b = 0 \<Longrightarrow> e = length s \<Longrightarrow> substr ?m b (e - b) = ?m"
    by (simp add: substr_def)
  ultimately show ?thesis
    using False by (simp add: normalizeToken_def Let_def flip: q_def b_def e_def) (auto simp: b_def e_def)
qed

section \<open>The one-character lexer and maximal runs\<close>

definition lex_char ::
  "(char \<Rightarrow> bool) \<Rightarrow> char \<Rightarrow> string \<times> string list \<Rightarrow> string \<times> string list" where
  "lex_char ispunct c = (\<lambda>(pend, out).
     if is_delim_char_scalar c then ([], out @ emit_token_if_not_empty ispunct pend)
     else (pend @ [c], out))"

definition lex_text :: "(char \<Rightarrow> bool) \<Rightarrow> string \<Rightarrow> string \<times> string list \<Rightarrow> string \<times> string list" where
  "lex_text ispunct s = fold (lex_char ispunct) s"

function runs :: "string \<Rightarrow> string list" where
  "runs s =
     (let s' = dropWhile is_delim_char_scalar s
      in if s' = [] then []
         else takeWhile (\<lambda>c. \<not> is_delim_char_scalar c) s' #
              runs (dropWhile (\<lambda>c. \<not> is_delim_char_scalar c) s'))"
  by pat_completeness auto
termination
proof (relation "measure length")
  fix s x :: string
  assume x: "x = dropWhile is_delim_char_scalar s" and ne: "x \<noteq> []"
  then have "\<not> is_delim_char_scalar (hd x)" using hd_dropWhile by blast
  with ne have "length (dropWhile (\<lambda>c. \<not> is_delim_char_scalar c) x) < length x"
    by (cases x) (auto simp: le_imp_less_Suc length_dropWhile_le)
  also have "length x \<le> length s" using x by (simp add: length_dropWhile_le)
  finally show "(dropWhile (\<lambda>c. \<not> is_delim_char_scalar c) x, s) \<in> measure length" by simp
qed simp

declare runs.simps [simp del]

text \<open>The reference: the maximal delimiter-free runs of the text, trimmed, empty ones dropped.\<close>

definition tokens_of :: "(char \<Rightarrow> bool) \<Rightarrow> string \<Rightarrow> string list" where
  "tokens_of ispunct s = filter (\<lambda>t. t \<noteq> []) (map (trim_punct ispunct) (runs s))"

lemma runs_Nil [simp]: "runs [] = []"
  by (simp add: runs.simps)

lemma runs_delim_Cons: "is_delim_char_scalar c \<Longrightarrow> runs (c # s) = runs s"
  by (subst (1 2) runs.simps) simp

lemma runs_pend:
  assumes "\<forall>c \<in> set pend. \<not> is_delim_char_scalar c"
  shows "runs pend = (if pend = [] then [] else [pend])"
    and "is_delim_char_scalar d \<Longrightarrow> runs (pend @ d # s) = (if pend = [] then [] else [pend]) @ runs s"
proof -
  have tw: "takeWhile (\<lambda>c. \<not> is_delim_char_scalar c) pend = pend"
    and dw: "dropWhile (\<lambda>c. \<not> is_delim_char_scalar c) pend = []"
    using assms by (auto simp: takeWhile_eq_all_conv)
  have hd: "dropWhile is_delim_char_scalar (pend @ t) = pend @ t" if "pend \<noteq> []" for t
    using assms that by (cases pend) auto
  show "runs pend = (if pend = [] then [] else [pend])"
    using hd [of "[]"] by (cases "pend = []") (simp_all add: runs.simps [of pend] tw dw)
  assume d: "is_delim_char_scalar d"
  have "runs (pend @ d # s) = pend # runs (d # s)" if "pend \<noteq> []"
    using that hd [OF that, of "d # s"] assms d
    by (simp add: runs.simps [of "pend @ d # s"] takeWhile_append2 dropWhile_append2)
  then show "runs (pend @ d # s) = (if pend = [] then [] else [pend]) @ runs s"
    using d by (auto simp: runs_delim_Cons)
qed

lemma emit_runs: "tokens_of p s = concat (map (emit_token_if_not_empty p) (runs s))"
proof -
  have "filter (\<lambda>t. t \<noteq> []) (map (trim_punct p) rs) = concat (map (emit_token_if_not_empty p) rs)" for rs
    by (induction rs) (auto simp: emit_token_if_not_empty_def)
  then show ?thesis by (simp add: tokens_of_def)
qed

lemma lex_pend:
  "\<forall>c \<in> set pend. \<not> is_delim_char_scalar c \<Longrightarrow>
   \<forall>c \<in> set (fst (lex_text p s (pend, out))). \<not> is_delim_char_scalar c"
proof (induction s arbitrary: pend out)
  case Nil
  then show ?case by (simp add: lex_text_def)
next
  case (Cons c s)
  show ?case
  proof (cases "is_delim_char_scalar c")
    case True
    with Cons.IH [of "[]" "out @ emit_token_if_not_empty p pend"] show ?thesis
      by (simp add: lex_text_def lex_char_def)
  next
    case False
    with Cons.IH [of "pend @ [c]" out] Cons.prems show ?thesis
      by (simp add: lex_text_def lex_char_def)
  qed
qed

lemma lex_runs:
  "\<forall>c \<in> set pend. \<not> is_delim_char_scalar c \<Longrightarrow> lex_text p s (pend, out) = (pend', out') \<Longrightarrow>
   out' @ emit_token_if_not_empty p pend' = out @ tokens_of p (pend @ s)"
proof (induction s arbitrary: pend out)
  case Nil
  then show ?case by (simp add: lex_text_def emit_runs runs_pend(1))
next
  case (Cons c s)
  show ?case
  proof (cases "is_delim_char_scalar c")
    case True
    with Cons.prems have "lex_text p s ([], out @ emit_token_if_not_empty p pend) = (pend', out')"
      by (simp add: lex_text_def lex_char_def)
    from Cons.IH [OF _ this] True Cons.prems(1) show ?thesis
      by (simp add: emit_runs runs_pend(2))
  next
    case False
    with Cons.prems have "lex_text p s (pend @ [c], out) = (pend', out')"
      by (simp add: lex_text_def lex_char_def)
    from Cons.IH [OF _ this] False Cons.prems(1) show ?thesis by simp
  qed
qed

lemma lex_append: "lex_text p (s @ t) po = lex_text p t (lex_text p s po)"
  by (simp add: lex_text_def)

lemma lex_out: "lex_text p s (pend, out) = (fst (lex_text p s (pend, [])), out @ snd (lex_text p s (pend, [])))"
proof (induction s arbitrary: pend out)
  case Nil
  then show ?case by (simp add: lex_text_def)
next
  case (Cons c s)
  let ?e = "emit_token_if_not_empty p pend"
  show ?case
    using Cons.IH [of "[]" "out @ ?e"] Cons.IH [of "[]" ?e] Cons.IH [of "pend @ [c]" out]
    by (simp add: lex_text_def lex_char_def)
qed

section \<open>The buffer loops simulate the lexer\<close>

definition tok_rel :: "string \<Rightarrow> nat \<Rightarrow> tok_state \<Rightarrow> string \<times> string list \<Rightarrow> bool" where
  "tok_rel data i st = (\<lambda>(pend, out). tok_out st = out \<and>
     (if in_token st
      then token_start st \<le> i \<and> pend \<noteq> [] \<and>
           pend = carry st @ substr data (token_start st) (i - token_start st)
      else pend = [] \<and> carry st = []))"

lemma substr_Suc:
  "a \<le> i \<Longrightarrow> i < length data \<Longrightarrow> substr data a (Suc i - a) = substr data a (i - a) @ [data ! i]"
  by (simp add: substr_def Suc_diff_le take_Suc_conv_app_nth)

lemma tok_rel_step:
  assumes "tok_rel data i st po" and "i < length data"
  shows "tok_rel data (Suc i) (tok_char p data (is_delim_char_scalar (data ! i)) i st)
    (lex_char p (data ! i) po)"
  using assms substr_Suc [of i i data] substr_Suc [of "token_start st" i data]
  by (cases po) (auto simp: tok_rel_def lex_char_def tok_char_def Let_def substr_def)

lemma tok_rel_range:
  assumes "tok_rel data i st po" and "i \<le> j" and "j \<le> length data"
  shows "tok_rel data j (fold (tok_scalar_at p data) [i..<j] st) (lex_text p (substr data i (j - i)) po)"
  using assms(2,3)
proof (induction j rule: dec_induct)
  case base
  with assms(1) show ?case by (simp add: lex_text_def substr_def)
next
  case (step k)
  then have "tok_rel data k (fold (tok_scalar_at p data) [i..<k] st)
      (lex_text p (substr data i (k - i)) po)" by simp
  from tok_rel_step [OF this, of p] step show ?case
    by (simp add: lex_text_def tok_scalar_at_def [of p data k] substr_Suc)
qed

lemma tok_rel_init: "tok_rel data 0 (tok_init c) (c, [])"
  by (simp add: tok_rel_def tok_init_def substr_def)

lemma tok_finish_rel:
  assumes "tok_rel data (length data) st (pend, out)"
  shows "tok_finish p data isLast st =
    (if isLast then (out @ emit_token_if_not_empty p pend, []) else (out, pend))"
  using assms by (auto simp: tok_finish_def tok_rel_def Let_def split: if_splits)

lemma tokenize_scalar_lex:
  "tokenize_scalar p data isLast c =
     (let (pend, out) = lex_text p data (c, [])
      in if isLast then (out @ emit_token_if_not_empty p pend, []) else (out, pend))"
proof -
  have "tok_rel data (length data) (fold (tok_scalar_at p data) [0..<length data] (tok_init c))
      (lex_text p data (c, []))"
    using tok_rel_range [OF tok_rel_init, of "length data" data p c] by (simp add: substr_def)
  then show ?thesis
    by (cases "lex_text p data (c, [])") (simp add: tokenize_scalar_def tok_finish_rel)
qed

subsection \<open>AVX2\<close>

lemma avx2_mask_bit:
  assumes "i + 32 \<le> length data" and "b < 32"
  shows "drop_bit b (avx2_mask data i) AND 1 = 1 \<longleftrightarrow> is_delim_char_scalar (data ! (i + b))"
proof -
  have "drop_bit b (avx2_mask data i) AND 1 = 1 \<longleftrightarrow> bit (avx2_mask data i) b"
    by (simp add: and_one_eq bit_iff_odd_drop_bit odd_iff_mod_2_eq_one)
  also have "\<dots> \<longleftrightarrow> is_delim_char_scalar (data ! (i + b))"
    using assms by (simp add: avx2_mask_def bit_horner_sum_bit_word_iff substr_def
        is_delim_char_scalar_def) blast
  finally show ?thesis .
qed

lemma avx2_block_scalar:
  assumes "i + 32 \<le> length data"
  shows "avx2_block p data i st = fold (tok_scalar_at p data) [i..<i + 32] st"
proof -
  have "fold (\<lambda>b. tok_char p data (drop_bit b (avx2_mask data i) AND 1 = 1) (i + b)) [0..<32] st =
      fold (\<lambda>b. tok_scalar_at p data (i + b)) [0..<32] st"
    by (rule fold_cong) (simp_all add: fun_eq_iff tok_scalar_at_def avx2_mask_bit [OF assms])
  also have "\<dots> = fold (tok_scalar_at p data) (map ((+) i) [0..<32]) st"
    by (simp add: fold_map comp_def)
  also have "map ((+) i) [0..<32] = [i..<i + 32]"
    by (rule nth_equalityI) simp_all
  finally show ?thesis by (simp add: avx2_block_def Let_def)
qed

lemma avx2_blocks_scalar:
  "i \<le> length data \<Longrightarrow> avx2_blocks p data i st = (j, st') \<Longrightarrow>
   fold (tok_scalar_at p data) [j..<length data] st' =
   fold (tok_scalar_at p data) [i..<length data] st"
proof (induction p data i st rule: avx2_blocks.induct)
  case (1 p data i st)
  show ?case
  proof (cases "i + 32 \<le> length data")
    case True
    with "1.prems" "1.IH" have "fold (tok_scalar_at p data) [j..<length data] st' =
        fold (tok_scalar_at p data) [i + 32..<length data] (avx2_block p data i st)"
      by (simp add: avx2_blocks.simps [of p data i])
    also have "\<dots> = fold (tok_scalar_at p data) ([i..<i + 32] @ [i + 32..<length data]) st"
      by (simp add: avx2_block_scalar [OF True])
    also have "[i..<i + 32] @ [i + 32..<length data] = [i..<length data]"
      using True upt_add_eq_append [of i "i + 32" "length data - (i + 32)"] by simp
    finally show ?thesis .
  next
    case False
    with "1.prems" show ?thesis by (simp add: avx2_blocks.simps [of p data i])
  qed
qed

lemma tokenize_avx2_scalar: "tokenize_avx2 p data isLast c = tokenize_scalar p data isLast c"
  using avx2_blocks_scalar [of 0 data p "tok_init c"]
  by (cases "avx2_blocks p data 0 (tok_init c)") (simp add: tokenize_avx2_def tokenize_scalar_def)

section \<open>Buffers and files\<close>

lemma tokenize_buffer_lex:
  "tokenize_oem866_buffer avx2 p data isLast c =
     (let (pend, out) = lex_text p data (c, [])
      in if isLast then (out @ emit_token_if_not_empty p pend, []) else (out, pend))"
  by (simp add: tokenize_oem866_buffer_def tokenize_avx2_scalar tokenize_scalar_lex)

lemma tokenize_blocks_lex:
  assumes "\<forall>b \<in> set bs. \<not> snd b"
  shows "tokenize_blocks avx2 p bs c = (snd (lex_text p (concat (map fst bs)) (c, [])),
    fst (lex_text p (concat (map fst bs)) (c, [])))"
  using assms
proof (induction bs arbitrary: c)
  case Nil
  then show ?case by (simp add: lex_text_def)
next
  case (Cons b bs)
  obtain data l where b: "b = (data, l)" by (cases b)
  obtain pend out where l: "lex_text p data (c, []) = (pend, out)" by (cases "lex_text p data (c, [])")
  have "lex_text p (data @ concat (map fst bs)) (c, []) = lex_text p (concat (map fst bs)) (pend, out)"
    by (simp add: lex_append l)
  also have "\<dots> = (fst (lex_text p (concat (map fst bs)) (pend, [])),
      out @ snd (lex_text p (concat (map fst bs)) (pend, [])))" by (rule lex_out)
  finally show ?case
    using Cons b l by (simp add: tokenize_buffer_lex)
qed

lemma tokenize_blocks_flagged:
  assumes "\<forall>b \<in> set bs. \<not> snd b" and "\<forall>ch \<in> set c. \<not> is_delim_char_scalar ch"
  shows "tokenize_blocks avx2 p (bs @ [(data, True)]) c =
    (tokens_of p (c @ concat (map fst bs) @ data), [])"
proof -
  have app: "tokenize_blocks avx2 p (bs @ [(data, True)]) c =
      (let (out, c') = tokenize_blocks avx2 p bs c;
           (out', c'') = tokenize_oem866_buffer avx2 p data True c' in (out @ out', c''))"
    by (induction bs arbitrary: c) (auto split: prod.splits)
  let ?t = "concat (map fst bs)"
  obtain pend out where l: "lex_text p ?t (c, []) = (pend, out)" by (cases "lex_text p ?t (c, [])")
  obtain pend' out' where l': "lex_text p data (pend, []) = (pend', out')" by (cases "lex_text p data (pend, [])")
  have "lex_text p (?t @ data) (c, []) = (pend', out @ out')"
    using l l' lex_out [of p data pend out] by (simp add: lex_append)
  from lex_runs [OF assms(2) this] show ?thesis
    using app l l' tokenize_blocks_lex [OF assms(1), of avx2 p c] by (simp add: tokenize_buffer_lex)
qed

lemma read_blocks_short:
  assumes "0 < n" and "length bytes mod n \<noteq> 0"
  shows "\<exists>bs data. read_blocks n bytes = bs @ [(data, True)] \<and> (\<forall>b \<in> set bs. \<not> snd b) \<and>
    concat (map fst bs) @ data = bytes"
  using assms
proof (induction n bytes rule: read_blocks.induct)
  case (1 n bytes)
  show ?case
  proof (cases "length bytes < n")
    case True
    have "bytes \<noteq> []" using "1.prems" by auto
    with True "1.prems"(1) have "read_blocks n bytes = [] @ [(bytes, True)]"
      by (simp add: read_blocks.simps [of n bytes] read_blocks.simps [of n "[]"])
    then show ?thesis by fastforce
  next
    case False
    then have "length (drop n bytes) mod n \<noteq> 0" using "1.prems" le_mod_geq [of n "length bytes"] by simp
    moreover have "\<not> (bytes = [] \<or> n = 0)" using "1.prems" by auto
    ultimately obtain bs data where r: "read_blocks n (drop n bytes) = bs @ [(data, True)]"
        "\<forall>b \<in> set bs. \<not> snd b" "concat (map fst bs) @ data = drop n bytes"
      using "1.IH" "1.prems" by blast
    then have "read_blocks n bytes = ((take n bytes, False) # bs) @ [(data, True)]"
      using False \<open>\<not> (bytes = [] \<or> n = 0)\<close> by (simp add: read_blocks.simps [of n bytes])
    moreover have "concat (map fst ((take n bytes, False) # bs)) @ data = bytes"
      using r(3) by simp
    ultimately show ?thesis using r(2) by (metis set_ConsD snd_conv)
  qed
qed

lemma read_blocks_exact:
  assumes "0 < n" and "length bytes mod n = 0"
  shows "(\<forall>b \<in> set (read_blocks n bytes). \<not> snd b) \<and> concat (map fst (read_blocks n bytes)) = bytes"
  using assms
proof (induction n bytes rule: read_blocks.induct)
  case (1 n bytes)
  show ?case
  proof (cases "bytes = []")
    case True
    then show ?thesis by (simp add: read_blocks.simps)
  next
    case False
    then have "\<not> length bytes < n" using "1.prems" by auto
    moreover from this have "length (drop n bytes) mod n = 0" using "1.prems" le_mod_geq [of n "length bytes"] by simp
    moreover have "\<not> (bytes = [] \<or> n = 0)" using False "1.prems" by auto
    ultimately show ?thesis using "1.IH" "1.prems" by (simp add: read_blocks.simps [of n bytes])
  qed
qed

definition trailing_run :: "string \<Rightarrow> string" where
  "trailing_run s = rev (takeWhile (\<lambda>c. \<not> is_delim_char_scalar c) (rev s))"

lemma lex_trailing: "fst (lex_text p s ([], [])) = trailing_run s"
proof (induction s rule: rev_induct)
  case Nil
  then show ?case by (simp add: lex_text_def trailing_run_def)
next
  case (snoc c s)
  then show ?case
    by (cases "lex_text p s ([], [])") (simp add: lex_append lex_text_def [of p "[c]"] lex_char_def trailing_run_def)
qed

lemma BUF_SIZE_pos: "0 < BUF_SIZE"
  by (simp add: BUF_SIZE_def)

lemma count_word_find:
  "um_find (count_word w freq) v =
     (if v = w then Some (Suc (case um_find freq w of None \<Rightarrow> 0 | Some n \<Rightarrow> n)) else um_find freq v)"
  by (simp add: count_word_def um_find_put split: option.splits)

lemma fold_count_word:
  "um_find (fold count_word ws freq) w =
     (if w \<in> set ws then Some ((case um_find freq w of None \<Rightarrow> 0 | Some n \<Rightarrow> n) + count_list ws w)
      else um_find freq w)"
proof (induction ws arbitrary: freq)
  case Nil
  then show ?case by simp
next
  case (Cons v ws)
  then show ?case by (auto simp: count_word_find split: option.splits)
qed

lemma um_ok_freq: "um_ok (freqWordFile ws)"
proof -
  have "um_ok freq \<Longrightarrow> um_ok (fold count_word ws freq)" for freq
    by (induction ws arbitrary: freq) (auto simp: count_word_def)
  then show ?thesis by (simp add: freqWordFile_def)
qed

lemma file_tokens_split:
  "file_tokens avx2 ispunct bytes @
     (if length bytes mod BUF_SIZE = 0
      then emit_token_if_not_empty ispunct (trailing_run bytes) else []) =
   tokens_of ispunct bytes"
proof (cases "length bytes mod BUF_SIZE = 0")
  case True
  from read_blocks_exact [OF BUF_SIZE_pos True]
  have nl: "\<forall>b \<in> set (read_blocks BUF_SIZE bytes). \<not> snd b"
    and cc: "concat (map fst (read_blocks BUF_SIZE bytes)) = bytes" by auto
  obtain pend out where l: "lex_text ispunct bytes ([], []) = (pend, out)"
    by (cases "lex_text ispunct bytes ([], [])")
  from tokenize_blocks_lex [OF nl, of avx2 ispunct "[]"] have "file_tokens avx2 ispunct bytes = out"
    by (simp add: file_tokens_def cc l)
  with True lex_runs [OF _ l] lex_trailing [of ispunct bytes] l show ?thesis by simp
next
  case False
  from read_blocks_short [OF BUF_SIZE_pos False] obtain bs data where
    "read_blocks BUF_SIZE bytes = bs @ [(data, True)]" "\<forall>b \<in> set bs. \<not> snd b"
    "concat (map fst bs) @ data = bytes" by auto
  with False tokenize_blocks_flagged [of bs "[]" avx2 ispunct data] show ?thesis
    by (simp add: file_tokens_def)
qed

lemma trailing_run_nodelim: "(\<forall>c \<in> set s. \<not> is_delim_char_scalar c) \<Longrightarrow> trailing_run s = s"
  by (simp add: trailing_run_def takeWhile_eq_all_conv [THEN iffD2])

section \<open>Properties\<close>

text \<open>C37: the AVX2 tokenizer and the scalar tokenizer emit the same tokens and leave the same
  carried-over tail, for every buffer, tail, flag and locale.\<close>

theorem tokenize_avx2_equals_scalar:
  "tokenize_avx2 ispunct data isLastChunk c = tokenize_scalar ispunct data isLastChunk c"
  by (rule tokenize_avx2_scalar)

text \<open>cutting a text into buffers in any way does not change its tokens: when exactly the
  last buffer is flagged as last, the tokens emitted over all buffers are the maximal
  delimiter-free runs of the whole text, trimmed of punctuation, without the empty ones,
  and no tail is left over.\<close>

theorem tokenize_blocks_independent_of_cut:
  assumes "\<forall>b \<in> set bs. \<not> snd b"
  shows "tokenize_blocks avx2 ispunct (bs @ [(data, True)]) [] =
    (tokens_of ispunct (concat (map fst bs) @ data), [])"
  using tokenize_blocks_flagged [OF assms, of "[]"] by simp

lemma tokenize_blocks_independent_of_cut_witness:
  "tokenize_blocks True (\<lambda>c. c = CHR ''='') ([(''CO'', False), (''DE = '', False)] @ [(''17'', True)]) [] =
     (tokens_of (\<lambda>c. c = CHR ''='') ''CODE = 17'', [])"
  using tokenize_blocks_independent_of_cut [of "[(''CO'', False), (''DE = '', False)]" True
      "\<lambda>c. c = CHR ''=''" "''17''"]
  by simp

text \<open>the tokens \<open>fileIndexing\<close> extracts from a file are the reference tokens of its
  contents, except that when the size is a multiple of the 64 KiB buffer the token that
  ends at the end of the file is lost, because the read that fills the last buffer does not
  set the end-of-file flag.\<close>

theorem file_tokens_exact:
  "file_tokens avx2 ispunct bytes @
     (if length bytes mod BUF_SIZE = 0
      then emit_token_if_not_empty ispunct (trailing_run bytes) else []) =
   tokens_of ispunct bytes"
  by (rule file_tokens_split)

text \<open>a file that consists of one word of exactly 65536 letters is indexed under no word at
  all, although the reference tokenisation of its contents has that word.\<close>

theorem file_of_one_buffer_loses_its_word:
  "file_words avx2 id (CHR 0x00) (\<lambda>c. False) (replicate 65536 (CHR ''A'')) = [] \<and>
   tokens_of (\<lambda>c. False) (replicate 65536 (CHR ''A'')) = [replicate 65536 (CHR ''A'')]"
proof -
  define w where "w = replicate 65536 (CHR ''A'')"
  have nd: "\<forall>c \<in> set w. \<not> is_delim_char_scalar c"
    by (auto simp: w_def is_delim_char_scalar_def)
  have len: "length w mod BUF_SIZE = 0" by (simp add: w_def BUF_SIZE_def)
  have ne: "w \<noteq> []" by (simp add: w_def)
  have tok: "tokens_of (\<lambda>c. False) w = [w]"
    using nd ne by (simp add: tokens_of_def runs_pend(1) trim_punct_spec)
  have "emit_token_if_not_empty (\<lambda>c. False) w = [w]"
    using ne by (simp add: emit_token_if_not_empty_def trim_punct_spec)
  with file_tokens_split [of avx2 "\<lambda>c. False" w] tok nd len
  have "file_tokens avx2 (\<lambda>c. False) w = []" by (simp add: trailing_run_nodelim)
  with tok show ?thesis unfolding w_def [symmetric] by (simp add: file_words_def)
qed

text \<open>The frequency dictionary built from the words of a file gives every word its number of
  occurrences and holds no other word.\<close>

theorem freqWordFile_counts:
  "um_find (freqWordFile ws) w = (if w \<in> set ws then Some (count_list ws w) else None)"
  by (simp add: freqWordFile_def fold_count_word)

text \<open>The table-driven tokenizer joins a carried-over word with the next word when the buffer
  boundary falls on the end of a word.\<close>

lemma tokenizeBuffer_joins_words:
  "fst (tokenizeBuffer '' CD '' (snd (tokenizeBuffer ''AB'' []))) = [''ABCD'']"
  by code_simp

end
