(* ===== verification/DocPaths.thy ===== *)
theory DocPaths
  imports SE_Prelude
begin

text \<open>
  The document table (\<open>src/src/Index/DocPaths.h\<close>, \<open>DocPaths.cpp\<close>): \<open>path2info\<close> maps a path
  to its metadata and id, \<open>id2path\<close> maps an id back to the key (\<open>None\<close> for a null pointer).
  A file that disappears keeps its entry and is only marked deleted.

  The file system is an argument: \<open>stat p\<close> is the modification time and the size of \<open>p\<close>, or
  \<open>None\<close> when \<open>last_write_time\<close> or \<open>file_size\<close> throws. A throwing call leaves the entries
  already updated in place, so the operations return the state beside the outcome.
\<close>

type_synonym ticks = "64 word"

record file_info =
  fi_mtime :: ticks
  fi_fsize :: u64
  fi_id :: u32
  fi_deleted :: bool

record doc_paths =
  path2info :: "(wstring, file_info) umap"
  id2path :: "wstring option list"

record update_pack =
  up_added :: "u32 list"
  up_updated :: "u32 list"
  up_removed :: "u32 list"

record raw_row =
  rr_id :: u32
  rr_path :: wstring
  rr_mtimeTicks :: ticks
  rr_fsize :: u64
  rr_deleted :: bool

definition dp_empty :: doc_paths where
  "dp_empty = \<lparr>path2info = [], id2path = []\<rparr>"

definition nextId :: "doc_paths \<Rightarrow> u32" where
  "nextId dp = of_nat (length (id2path dp))"

definition dp_size :: "doc_paths \<Rightarrow> nat" where
  "dp_size dp = length (path2info dp)"

section \<open>Point operations\<close>

text \<open>The entry for a path that is not in the table: the next id, with the key appended.\<close>

definition dp_insert :: "wstring \<Rightarrow> ticks \<Rightarrow> u64 \<Rightarrow> doc_paths \<Rightarrow> doc_paths \<times> u32" where
  "dp_insert p mtime fsize dp =
     (let i = nextId dp
      in (dp\<lparr>path2info := um_put p \<lparr>fi_mtime = mtime, fi_fsize = fsize, fi_id = i, fi_deleted = False\<rparr>
               (path2info dp),
             id2path := id2path dp @ [Some p]\<rparr>, i))"

definition dp_set_info :: "wstring \<Rightarrow> file_info \<Rightarrow> doc_paths \<Rightarrow> doc_paths" where
  "dp_set_info p info dp = dp\<lparr>path2info := um_put p info (path2info dp)\<rparr>"

definition dp_upsert ::
  "wstring \<Rightarrow> ticks \<Rightarrow> u64 \<Rightarrow> doc_paths \<Rightarrow> doc_paths \<times> u32 \<times> bool" where
  "dp_upsert p mtime fsize dp =
     (case um_find (path2info dp) p of
        None \<Rightarrow> (let (dp', i) = dp_insert p mtime fsize dp in (dp', i, True))
      | Some info \<Rightarrow>
          if fi_deleted info then
            (dp_set_info p (info\<lparr>fi_deleted := False, fi_mtime := mtime, fi_fsize := fsize\<rparr>) dp,
             fi_id info, True)
          else if fi_mtime info \<noteq> mtime \<or> fi_fsize info \<noteq> fsize then
            (dp_set_info p (info\<lparr>fi_mtime := mtime, fi_fsize := fsize\<rparr>) dp, fi_id info, True)
          else (dp, fi_id info, False))"

definition dp_tryGetId :: "doc_paths \<Rightarrow> wstring \<Rightarrow> u32 option" where
  "dp_tryGetId dp p = map_option fi_id (um_find (path2info dp) p)"

text \<open>The guard \<open>id >= id2path.size() || id2path[id] == nullptr\<close> of the id-based operations.\<close>

definition dp_key :: "doc_paths \<Rightarrow> u32 \<Rightarrow> wstring option" where
  "dp_key dp i = (if unat i < length (id2path dp) then id2path dp ! unat i else None)"

definition dp_pathById :: "doc_paths \<Rightarrow> u32 \<Rightarrow> wstring" where
  "dp_pathById dp i = (case id2path dp ! unat i of None \<Rightarrow> [] | Some p \<Rightarrow> p)"

text \<open>\<open>needUpdate\<close> uses \<open>path2info.at\<close>, which throws (\<open>None\<close>) when the key is missing.\<close>

definition dp_needUpdate :: "doc_paths \<Rightarrow> u32 \<Rightarrow> ticks \<Rightarrow> u64 \<Rightarrow> bool option" where
  "dp_needUpdate dp i newTime newSize =
     (case dp_key dp i of
        None \<Rightarrow> Some True
      | Some p \<Rightarrow> map_option (\<lambda>info. fi_mtime info \<noteq> newTime \<or> fi_fsize info \<noteq> newSize)
                   (um_find (path2info dp) p))"

definition dp_markRemoved :: "u32 \<Rightarrow> doc_paths \<Rightarrow> doc_paths" where
  "dp_markRemoved i dp =
     (case dp_key dp i of
        None \<Rightarrow> dp
      | Some p \<Rightarrow>
          (case um_find (path2info dp) p of
             None \<Rightarrow> dp
           | Some info \<Rightarrow> dp_set_info p (info\<lparr>fi_deleted := True\<rparr>) dp))"

definition dp_isDeleted :: "doc_paths \<Rightarrow> u32 \<Rightarrow> bool" where
  "dp_isDeleted dp i =
     (case dp_key dp i of
        None \<Rightarrow> False
      | Some p \<Rightarrow> (case um_find (path2info dp) p of None \<Rightarrow> False | Some info \<Rightarrow> fi_deleted info))"

definition dp_getInfo :: "doc_paths \<Rightarrow> u32 \<Rightarrow> (ticks \<times> u64) option" where
  "dp_getInfo dp i =
     (case dp_key dp i of
        None \<Rightarrow> None
      | Some p \<Rightarrow> map_option (\<lambda>info. (fi_mtime info, fi_fsize info)) (um_find (path2info dp) p))"

section \<open>The full rescan\<close>

type_synonym stat_fn = "wstring \<Rightarrow> (ticks \<times> u64) option"

definition gu_visit ::
  "wstring \<Rightarrow> ticks \<Rightarrow> u64 \<Rightarrow> doc_paths \<times> update_pack \<Rightarrow> doc_paths \<times> update_pack" where
  "gu_visit p mtime fsize = (\<lambda>(dp, pack).
     (case um_find (path2info dp) p of
        None \<Rightarrow> (let (dp', i) = dp_insert p mtime fsize dp
                 in (dp', pack\<lparr>up_added := up_added pack @ [i]\<rparr>))
      | Some info \<Rightarrow>
          if fi_deleted info then
            (dp_set_info p (info\<lparr>fi_deleted := False, fi_mtime := mtime, fi_fsize := fsize\<rparr>) dp,
             pack\<lparr>up_updated := up_updated pack @ [fi_id info]\<rparr>)
          else if fi_mtime info \<noteq> mtime \<or> fi_fsize info \<noteq> fsize then
            (dp_set_info p (info\<lparr>fi_mtime := mtime, fi_fsize := fsize\<rparr>) dp,
             pack\<lparr>up_updated := up_updated pack @ [fi_id info]\<rparr>)
          else (dp, pack)))"

fun gu_scan ::
  "stat_fn \<Rightarrow> wstring list \<Rightarrow> doc_paths \<times> update_pack \<Rightarrow> (doc_paths \<times> update_pack) \<times> bool" where
  "gu_scan stat [] s = (s, True)"
| "gu_scan stat (p # ps) s =
     (case stat p of
        None \<Rightarrow> (s, False)
      | Some (mtime, fsize) \<Rightarrow> gu_scan stat ps (gu_visit p mtime fsize s))"

definition gu_gone :: "wstring list \<Rightarrow> wstring \<times> file_info \<Rightarrow> bool" where
  "gu_gone seen = (\<lambda>(p, info). \<not> fi_deleted info \<and> p \<notin> set seen)"

definition gu_sweep :: "wstring list \<Rightarrow> doc_paths \<times> update_pack \<Rightarrow> doc_paths \<times> update_pack" where
  "gu_sweep seen = (\<lambda>(dp, pack).
     (dp\<lparr>path2info := map (\<lambda>e. if gu_gone seen e then (fst e, (snd e)\<lparr>fi_deleted := True\<rparr>) else e)
            (path2info dp)\<rparr>,
      pack\<lparr>up_removed := up_removed pack @ map (fi_id \<circ> snd) (filter (gu_gone seen) (path2info dp))\<rparr>))"

definition dp_getUpdate ::
  "stat_fn \<Rightarrow> wstring list \<Rightarrow> doc_paths \<Rightarrow> doc_paths \<times> update_pack option" where
  "dp_getUpdate stat paths dp =
     (case gu_scan stat paths (dp, \<lparr>up_added = [], up_updated = [], up_removed = []\<rparr>) of
        (s, False) \<Rightarrow> (fst s, None)
      | (s, True) \<Rightarrow> (let (dp', pack) = gu_sweep paths s in (dp', Some pack)))"

section \<open>Export and import\<close>

definition row_of :: "wstring \<times> file_info \<Rightarrow> raw_row" where
  "row_of = (\<lambda>(p, info). \<lparr>rr_id = fi_id info, rr_path = p, rr_mtimeTicks = fi_mtime info,
     rr_fsize = fi_fsize info, rr_deleted = fi_deleted info\<rparr>)"

definition dp_exportRows :: "doc_paths \<Rightarrow> raw_row list" where
  "dp_exportRows dp = map row_of (path2info dp)"

definition rebuild_row :: "raw_row \<Rightarrow> doc_paths \<Rightarrow> doc_paths" where
  "rebuild_row r dp =
     (let ids = (if unat (rr_id r) \<ge> length (id2path dp)
                 then id2path dp @ replicate (unat (rr_id r) + 1 - length (id2path dp)) None
                 else id2path dp)
      in \<lparr>path2info = um_emplace (rr_path r)
             \<lparr>fi_mtime = rr_mtimeTicks r, fi_fsize = rr_fsize r, fi_id = rr_id r,
              fi_deleted = rr_deleted r\<rparr> (path2info dp),
          id2path = ids[unat (rr_id r) := Some (rr_path r)]\<rparr>)"

definition dp_rebuildFromRows :: "raw_row list \<Rightarrow> doc_paths" where
  "dp_rebuildFromRows rows =
     (if rows = [] then dp_empty
      else let maxId = fold (\<lambda>r m. if rr_id r > m then rr_id r else m) rows 0
           in fold rebuild_row rows
                \<lparr>path2info = [], id2path = replicate (unat maxId + 1) None\<rparr>)"

definition dp_rebuildId2Path :: "nat \<Rightarrow> (wstring, file_info) umap \<Rightarrow> wstring option list" where
  "dp_rebuildId2Path minimumSize p2i =
     (let requiredSize = fold (\<lambda>(p, info) n. if unat (fi_id info) + 1 > n then unat (fi_id info) + 1 else n)
            p2i minimumSize
      in fold (\<lambda>(p, info) ids. ids[unat (fi_id info) := Some p]) p2i (replicate requiredSize None))"

definition dp_copy :: "doc_paths \<Rightarrow> doc_paths" where
  "dp_copy other = \<lparr>path2info = path2info other,
     id2path = dp_rebuildId2Path (length (id2path other)) (path2info other)\<rparr>"

section \<open>The invariant\<close>

definition dp_invar :: "doc_paths \<Rightarrow> bool" where
  "dp_invar dp \<longleftrightarrow> um_ok (path2info dp) \<and> length (id2path dp) \<le> 2 ^ 32 \<and>
     (\<forall>p i. dp_key dp i = Some p \<longleftrightarrow>
        (\<exists>info. um_find (path2info dp) p = Some info \<and> fi_id info = i))"

lemma dp_invarD:
  assumes "dp_invar dp"
  shows "um_find (path2info dp) p = Some info \<Longrightarrow> dp_key dp (fi_id info) = Some p"
    and "dp_key dp i = Some p \<Longrightarrow> \<exists>info. um_find (path2info dp) p = Some info \<and> fi_id info = i"
    and "um_ok (path2info dp)" and "length (id2path dp) \<le> 2 ^ 32"
  using assms by (auto simp: dp_invar_def)

lemma dp_invar_inj:
  "dp_invar dp \<Longrightarrow> um_find (path2info dp) p = Some a \<Longrightarrow> um_find (path2info dp) q = Some b \<Longrightarrow>
   fi_id a = fi_id b \<Longrightarrow> p = q"
  using dp_invarD(1) by (metis option.inject)

lemma dp_invar_empty: "dp_invar dp_empty"
  by (simp add: dp_invar_def dp_empty_def dp_key_def)

lemma dp_key_set_info [simp]: "dp_key (dp_set_info p info dp) i = dp_key dp i"
  by (simp add: dp_key_def dp_set_info_def)

lemma id2path_set_info [simp]: "id2path (dp_set_info p info dp) = id2path dp"
  by (simp add: dp_set_info_def)

lemma find_set_info [simp]:
  "um_find (path2info (dp_set_info p info dp)) q =
     (if q = p then Some info else um_find (path2info dp) q)"
  by (simp add: dp_set_info_def um_find_put)

lemma dp_invar_set_info:
  assumes "dp_invar dp" and "um_find (path2info dp) p = Some info" and "fi_id info' = fi_id info"
  shows "dp_invar (dp_set_info p info' dp)"
proof -
  have "um_ok (path2info (dp_set_info p info' dp))"
    using dp_invarD(3) [OF assms(1)] by (simp add: dp_set_info_def)
  then show ?thesis
    using assms unfolding dp_invar_def by (auto split: if_splits)
qed

lemma dp_insert_find:
  "dp_insert p mtime fsize dp = (dp', i) \<Longrightarrow>
   i = nextId dp \<and> id2path dp' = id2path dp @ [Some p] \<and>
   um_find (path2info dp') q = (if q = p
     then Some \<lparr>fi_mtime = mtime, fi_fsize = fsize, fi_id = i, fi_deleted = False\<rparr>
     else um_find (path2info dp) q)"
  by (auto simp: dp_insert_def Let_def um_find_put)

lemma dp_invar_insert:
  assumes inv: "dp_invar dp" and new: "um_find (path2info dp) p = None"
    and room: "length (id2path dp) < 2 ^ 32" and ins: "dp_insert p mtime fsize dp = (dp', i)"
  shows "dp_invar dp'" and "unat i = length (id2path dp)"
proof -
  have i: "i = nextId dp" and ids: "id2path dp' = id2path dp @ [Some p]"
    and fnd: "\<And>q. um_find (path2info dp') q = (if q = p
      then Some \<lparr>fi_mtime = mtime, fi_fsize = fsize, fi_id = i, fi_deleted = False\<rparr>
      else um_find (path2info dp) q)"
    using dp_insert_find [OF ins] by auto
  show un: "unat i = length (id2path dp)"
    using room by (simp add: i nextId_def unat_of_nat_u32)
  have ok: "um_ok (path2info dp')"
    using ins dp_invarD(3) [OF inv] by (auto simp: dp_insert_def Let_def)
  have key: "dp_key dp' j = (if j = i then Some p else dp_key dp j)" for j
    using un by (auto simp: dp_key_def ids nth_append word_unat_eq_iff less_Suc_eq)
  have fresh: "um_find (path2info dp) q = Some info \<Longrightarrow> fi_id info \<noteq> i" for q info
    using dp_invarD(1) [OF inv, of q info] un by (auto simp: dp_key_def split: if_splits)
  have "dp_key dp' j = Some q \<longleftrightarrow> (\<exists>info. um_find (path2info dp') q = Some info \<and> fi_id info = j)" for q j
  proof (cases "q = p")
    case True
    have "dp_key dp j \<noteq> Some p" using dp_invarD(2) [OF inv, of j p] new by auto
    with True show ?thesis by (auto simp: key fnd)
  next
    case False
    then show ?thesis
      using inv fresh [of q] unfolding dp_invar_def by (auto simp: key fnd)
  qed
  with ok room show "dp_invar dp'" by (simp add: dp_invar_def ids)
qed

section \<open>Point updates\<close>

definition stored :: "file_info \<Rightarrow> ticks \<Rightarrow> u64 \<Rightarrow> file_info" where
  "stored info mtime fsize = info\<lparr>fi_mtime := mtime, fi_fsize := fsize, fi_deleted := False\<rparr>"

lemma stored_same:
  "\<not> fi_deleted info \<Longrightarrow> fi_mtime info = m \<Longrightarrow> fi_fsize info = z \<Longrightarrow> stored info m z = info"
  by (cases info) (simp add: stored_def)

lemma stored_fields [simp]:
  "fi_id (stored info m z) = fi_id info" "fi_mtime (stored info m z) = m"
  "fi_fsize (stored info m z) = z" "\<not> fi_deleted (stored info m z)"
  by (simp_all add: stored_def)

lemma dp_upsert_old:
  assumes "um_find (path2info dp) p = Some info"
  shows "dp_upsert p m z dp =
    (if fi_deleted info \<or> fi_mtime info \<noteq> m \<or> fi_fsize info \<noteq> z
     then (dp_set_info p (stored info m z) dp, fi_id info, True) else (dp, fi_id info, False))"
  using assms by (cases info) (auto simp: dp_upsert_def stored_def)

lemma dp_upsert_new:
  assumes "um_find (path2info dp) p = None"
  shows "dp_upsert p m z dp = (fst (dp_insert p m z dp), nextId dp, True)"
  using assms by (simp add: dp_upsert_def dp_insert_def Let_def)

lemma dp_upsert_invar:
  assumes "dp_invar dp" and "length (id2path dp) < 2 ^ 32" and "dp_upsert p m z dp = (dp', i, ch)"
  shows "dp_invar dp'"
proof (cases "um_find (path2info dp) p")
  case None
  with assms dp_invar_insert(1) [OF assms(1) None assms(2), of m z] show ?thesis
    by (cases "dp_insert p m z dp") (simp add: dp_upsert_new)
next
  case (Some info)
  with assms dp_invar_set_info [OF assms(1) Some, of "stored info m z"] show ?thesis
    by (auto simp: dp_upsert_old [OF Some] split: if_splits)
qed

lemma dp_upsert_find:
  assumes "dp_upsert p m z dp = (dp', i, ch)"
  shows "um_find (path2info dp') q =
    (if q = p then Some \<lparr>fi_mtime = m, fi_fsize = z, fi_id = i, fi_deleted = False\<rparr>
     else um_find (path2info dp) q)"
proof (cases "um_find (path2info dp) p")
  case None
  obtain d j where ins: "dp_insert p m z dp = (d, j)" by (cases "dp_insert p m z dp")
  with assms None dp_insert_find [OF ins, of q] show ?thesis by (simp add: dp_upsert_new)
next
  case (Some info)
  have "stored info m z = \<lparr>fi_mtime = m, fi_fsize = z, fi_id = fi_id info, fi_deleted = False\<rparr>"
    by (cases info) (simp add: stored_def)
  with assms Some stored_same [of info m z] show ?thesis
    by (auto simp: dp_upsert_old [OF Some] split: if_splits)
qed

lemma gu_visit_upsert:
  "gu_visit p m z (dp, pack) =
     (let (dp', i, ch) = dp_upsert p m z dp
      in (dp', case um_find (path2info dp) p of
                 None \<Rightarrow> pack\<lparr>up_added := up_added pack @ [i]\<rparr>
               | Some _ \<Rightarrow> if ch then pack\<lparr>up_updated := up_updated pack @ [i]\<rparr> else pack))"
  by (auto simp: gu_visit_def dp_upsert_def split: option.splits prod.splits)

lemma dp_upsert_length:
  "dp_upsert p m z dp = (dp', i, ch) \<Longrightarrow>
   length (id2path dp) \<le> length (id2path dp') \<and> length (id2path dp') \<le> Suc (length (id2path dp))"
  by (cases "um_find (path2info dp) p")
    (auto simp: dp_upsert_old dp_upsert_new dp_insert_def Let_def split: if_splits)

section \<open>The rescan\<close>

definition outdated :: "stat_fn \<Rightarrow> wstring \<Rightarrow> file_info \<Rightarrow> bool" where
  "outdated stat q info \<longleftrightarrow> fi_deleted info \<or> stat q \<noteq> Some (fi_mtime info, fi_fsize info)"

definition scan_inv ::
  "stat_fn \<Rightarrow> doc_paths \<Rightarrow> wstring list \<Rightarrow> doc_paths \<times> update_pack \<Rightarrow> bool" where
  "scan_inv stat dp0 dn = (\<lambda>(dp, pack).
     dp_invar dp \<and> length (id2path dp) \<le> length (id2path dp0) + length dn \<and>
     (\<forall>q. q \<notin> set dn \<longrightarrow> um_find (path2info dp) q = um_find (path2info dp0) q) \<and>
     (\<forall>q \<in> set dn. \<exists>info m z. stat q = Some (m, z) \<and> um_find (path2info dp) q = Some info \<and>
        fi_mtime info = m \<and> fi_fsize info = z \<and> \<not> fi_deleted info \<and>
        (\<forall>old. um_find (path2info dp0) q = Some old \<longrightarrow> fi_id info = fi_id old)) \<and>
     set (up_added pack) = {fi_id info | q info. q \<in> set dn \<and> um_find (path2info dp0) q = None \<and>
        um_find (path2info dp) q = Some info} \<and>
     set (up_updated pack) = {fi_id info | q info. q \<in> set dn \<and>
        um_find (path2info dp0) q = Some info \<and> outdated stat q info} \<and>
     up_removed pack = [])"

lemma scan_inv_Nil:
  "dp_invar dp \<Longrightarrow> scan_inv stat dp [] (dp, \<lparr>up_added = [], up_updated = [], up_removed = []\<rparr>)"
  by (auto simp: scan_inv_def)

lemma scan_inv_step:
  assumes inv: "scan_inv stat dp0 dn (dp, pack)" and st: "stat p = Some (m, z)"
    and room: "length (id2path dp0) + length dn < 2 ^ 32"
  shows "scan_inv stat dp0 (dn @ [p]) (gu_visit p m z (dp, pack))"
proof -
  obtain dp' i ch where up: "dp_upsert p m z dp = (dp', i, ch)" by (cases "dp_upsert p m z dp")
  define pack' where "pack' = (case um_find (path2info dp) p of
      None \<Rightarrow> pack\<lparr>up_added := up_added pack @ [i]\<rparr>
    | Some _ \<Rightarrow> if ch then pack\<lparr>up_updated := up_updated pack @ [i]\<rparr> else pack)"
  have gu: "gu_visit p m z (dp, pack) = (dp', pack')"
    by (simp add: gu_visit_upsert up pack'_def)
  note fnd = dp_upsert_find [OF up]
  have len: "length (id2path dp) < 2 ^ 32" using inv room by (simp add: scan_inv_def)
  have inv': "dp_invar dp'" using inv dp_upsert_invar [OF _ len up] by (simp add: scan_inv_def)
  have len': "length (id2path dp') \<le> length (id2path dp0) + length (dn @ [p])"
    using inv dp_upsert_length [OF up] by (simp add: scan_inv_def)
  have frame: "\<forall>q. q \<notin> set dn \<longrightarrow> um_find (path2info dp) q = um_find (path2info dp0) q"
    and dn: "\<forall>q \<in> set dn. \<exists>info m z. stat q = Some (m, z) \<and> um_find (path2info dp) q = Some info \<and>
        fi_mtime info = m \<and> fi_fsize info = z \<and> \<not> fi_deleted info \<and>
        (\<forall>old. um_find (path2info dp0) q = Some old \<longrightarrow> fi_id info = fi_id old)"
    and add: "set (up_added pack) = {fi_id info | q info. q \<in> set dn \<and>
        um_find (path2info dp0) q = None \<and> um_find (path2info dp) q = Some info}"
    and upd: "set (up_updated pack) = {fi_id info | q info. q \<in> set dn \<and>
        um_find (path2info dp0) q = Some info \<and> outdated stat q info}"
    and rm: "up_removed pack = []"
    using inv by (auto simp: scan_inv_def)
  show ?thesis
  proof (cases "um_find (path2info dp) p")
    case None
    then have pd: "p \<notin> set dn" using dn by fastforce
    with None frame have p0: "um_find (path2info dp0) p = None" by simp
    have packs: "up_added pack' = up_added pack @ [i]" "up_updated pack' = up_updated pack"
      using None by (simp_all add: pack'_def)
    have "set (up_added pack') = {fi_id info | q info. q \<in> set (dn @ [p]) \<and>
        um_find (path2info dp0) q = None \<and> um_find (path2info dp') q = Some info}"
      using add p0 pd by (auto simp: packs fnd)
    moreover have "set (up_updated pack') = {fi_id info | q info. q \<in> set (dn @ [p]) \<and>
        um_find (path2info dp0) q = Some info \<and> outdated stat q info}"
      using upd p0 by (auto simp: packs)
    ultimately show ?thesis
      using inv' len' frame dn rm st p0 None unfolding gu scan_inv_def
      by (auto simp: fnd pack'_def)
  next
    case (Some info)
    have i: "i = fi_id info" and ch: "ch \<longleftrightarrow> fi_deleted info \<or> fi_mtime info \<noteq> m \<or> fi_fsize info \<noteq> z"
      using up by (auto simp: dp_upsert_old [OF Some] split: if_splits)
    have chd: "ch \<Longrightarrow> p \<notin> set dn" using ch dn Some st by fastforce
    have old: "\<forall>o'. um_find (path2info dp0) p = Some o' \<longrightarrow> fi_id info = fi_id o'"
      using dn frame Some by (cases "p \<in> set dn") fastforce+
    have out: "ch \<longleftrightarrow> p \<notin> set dn \<and> outdated stat p info"
      using ch st chd dn Some by (auto simp: outdated_def)
    have packs: "up_added pack' = up_added pack"
        "set (up_updated pack') = set (up_updated pack) \<union> (if ch then {i} else {})"
      using Some by (auto simp: pack'_def)
    have add': "set (up_added pack') = {fi_id x | q x. q \<in> set (dn @ [p]) \<and>
        um_find (path2info dp0) q = None \<and> um_find (path2info dp') q = Some x}"
    proof -
      have ids: "(\<exists>x. um_find (path2info dp') q = Some x \<and> j = fi_id x) \<longleftrightarrow>
          (\<exists>x. um_find (path2info dp) q = Some x \<and> j = fi_id x)" for q j
        using Some i by (simp add: fnd)
      have "um_find (path2info dp0) p = None \<Longrightarrow> p \<in> set dn" using frame Some by force
      then have "q \<in> set (dn @ [p]) \<and> um_find (path2info dp0) q = None \<longleftrightarrow>
          q \<in> set dn \<and> um_find (path2info dp0) q = None" for q by auto
      with ids show ?thesis unfolding packs(1) add by (auto simp del: set_append) blast+
    qed
    have upd': "set (up_updated pack') = {fi_id x | q x. q \<in> set (dn @ [p]) \<and>
        um_find (path2info dp0) q = Some x \<and> outdated stat q x}"
    proof (cases "p \<in> set dn")
      case True
      then show ?thesis using upd chd by (auto simp: packs)
    next
      case False
      with frame Some have "um_find (path2info dp0) p = Some info" by simp
      then show ?thesis using upd out False i by (auto simp: packs)
    qed
    have rm': "up_removed pack' = []" using rm Some by (simp add: pack'_def)
    show ?thesis
      using inv' len' frame dn rm' st old add' upd' i unfolding gu scan_inv_def
      by (auto simp: fnd)
  qed
qed

lemma gu_scan_inv:
  assumes "scan_inv stat dp0 dn s" and "gu_scan stat ps s = (s', ok)"
    and "length (id2path dp0) + length dn + length ps \<le> 2 ^ 32"
  shows "\<exists>k \<le> length ps. scan_inv stat dp0 (dn @ take k ps) s' \<and> (ok \<longrightarrow> k = length ps) \<and>
    (\<not> ok \<longrightarrow> k < length ps \<and> stat (ps ! k) = None)"
  using assms
proof (induction ps arbitrary: dn s)
  case Nil
  then show ?case by auto
next
  case (Cons p ps)
  show ?case
  proof (cases "stat p")
    case None
    with Cons.prems show ?thesis by (intro exI [of _ 0]) auto
  next
    case (Some mz)
    obtain m z where mz: "mz = (m, z)" by (cases mz)
    have "scan_inv stat dp0 (dn @ [p]) (gu_visit p m z s)"
      using scan_inv_step [of stat dp0 dn "fst s" "snd s" p m z] Cons.prems Some mz by simp
    from Cons.IH [OF this] Cons.prems Some mz obtain k where
      "k \<le> length ps" "scan_inv stat dp0 ((dn @ [p]) @ take k ps) s'" "ok \<longrightarrow> k = length ps"
      "\<not> ok \<longrightarrow> k < length ps \<and> stat (ps ! k) = None"
      by auto
    then show ?thesis by (intro exI [of _ "Suc k"]) auto
  qed
qed

lemma sweep_find:
  assumes "gu_sweep seen (dp, pack) = (dp', pack')"
  shows "um_find (path2info dp') q =
      map_option (\<lambda>info. if q \<notin> set seen then info\<lparr>fi_deleted := True\<rparr> else info)
        (um_find (path2info dp) q)"
    and "id2path dp' = id2path dp" and "up_added pack' = up_added pack"
    and "up_updated pack' = up_updated pack"
    and "um_ok (path2info dp) \<Longrightarrow> um_ok (path2info dp')"
    and "um_ok (path2info dp) \<Longrightarrow> set (up_removed pack') = set (up_removed pack) \<union>
      {fi_id info | q info. um_find (path2info dp) q = Some info \<and> \<not> fi_deleted info \<and> q \<notin> set seen}"
proof -
  have same: "\<not> gu_gone seen (p, info) \<Longrightarrow> p \<notin> set seen \<Longrightarrow> info\<lparr>fi_deleted := True\<rparr> = info" for p info
    by (cases info) (simp add: gu_gone_def)
  have "map_of (map (\<lambda>e. if gu_gone seen e then (fst e, (snd e)\<lparr>fi_deleted := True\<rparr>) else e) l) q =
      map_option (\<lambda>info. if q \<notin> set seen then info\<lparr>fi_deleted := True\<rparr> else info) (map_of l q)" for l
    using same by (induction l) (auto simp: gu_gone_def)
  then show "um_find (path2info dp') q =
      map_option (\<lambda>info. if q \<notin> set seen then info\<lparr>fi_deleted := True\<rparr> else info)
        (um_find (path2info dp) q)"
    using assms by (auto simp: gu_sweep_def um_find_def)
  show "id2path dp' = id2path dp" "up_added pack' = up_added pack" "up_updated pack' = up_updated pack"
    using assms by (auto simp: gu_sweep_def)
  have "map fst (map (\<lambda>e. if gu_gone seen e then (fst e, (snd e)\<lparr>fi_deleted := True\<rparr>) else e) l) = map fst l" for l
    by (induction l) auto
  then show "um_ok (path2info dp) \<Longrightarrow> um_ok (path2info dp')"
    using assms by (auto simp: gu_sweep_def um_ok_def simp del: map_map)
  assume "um_ok (path2info dp)"
  then show "set (up_removed pack') = set (up_removed pack) \<union>
      {fi_id info | q info. um_find (path2info dp) q = Some info \<and> \<not> fi_deleted info \<and> q \<notin> set seen}"
    using assms by (auto simp: gu_sweep_def um_find_Some_iff gu_gone_def image_iff) blast+
qed

lemma dp_getUpdate_scanned:
  assumes "dp_invar dp" and "length (id2path dp) + length paths \<le> 2 ^ 32"
    and "dp_getUpdate stat paths dp = (dp', r)"
  shows "\<exists>k dp1 pack1. k \<le> length paths \<and> scan_inv stat dp (take k paths) (dp1, pack1) \<and>
    (case r of None \<Rightarrow> dp' = dp1 \<and> k < length paths \<and> stat (paths ! k) = None
     | Some pack \<Rightarrow> k = length paths \<and> gu_sweep paths (dp1, pack1) = (dp', pack))"
proof -
  let ?s0 = "(dp, \<lparr>up_added = [], up_updated = [], up_removed = []\<rparr>)"
  obtain dp1 pack1 ok where g: "gu_scan stat paths ?s0 = ((dp1, pack1), ok)"
    by (cases "gu_scan stat paths ?s0") auto
  from gu_scan_inv [OF scan_inv_Nil [OF assms(1)] g] assms(2) obtain k where
    "k \<le> length paths" "scan_inv stat dp (take k paths) (dp1, pack1)"
    "ok \<longrightarrow> k = length paths" "\<not> ok \<longrightarrow> k < length paths \<and> stat (paths ! k) = None" by auto
  with g assms(3) show ?thesis
    by (intro exI [of _ k] exI [of _ dp1] exI [of _ pack1])
      (auto simp: dp_getUpdate_def split: bool.splits prod.splits)
qed

lemma dp_key_same: "id2path dp' = id2path dp \<Longrightarrow> dp_key dp' = dp_key dp"
  by (simp add: dp_key_def fun_eq_iff)

lemma dp_getUpdate_invar:
  assumes "dp_invar dp" and "length (id2path dp) + length paths \<le> 2 ^ 32"
    and "dp_getUpdate stat paths dp = (dp', r)"
  shows "dp_invar dp'"
proof -
  obtain k dp1 pack1 where sc: "scan_inv stat dp (take k paths) (dp1, pack1)" and
    r: "case r of None \<Rightarrow> dp' = dp1 \<and> k < length paths \<and> stat (paths ! k) = None
      | Some pack \<Rightarrow> k = length paths \<and> gu_sweep paths (dp1, pack1) = (dp', pack)"
    using dp_getUpdate_scanned [OF assms] by auto
  have inv1: "dp_invar dp1" using sc by (simp add: scan_inv_def)
  show ?thesis
  proof (cases r)
    case None
    with r inv1 show ?thesis by simp
  next
    case (Some pack)
    with r have sw: "gu_sweep paths (dp1, pack1) = (dp', pack)" by simp
    have "(\<exists>info. um_find (path2info dp') p = Some info \<and> fi_id info = i) \<longleftrightarrow>
        (\<exists>info. um_find (path2info dp1) p = Some info \<and> fi_id info = i)" for p i
      unfolding sweep_find(1) [OF sw, of p] by (cases "um_find (path2info dp1) p") auto
    with inv1 show ?thesis
      using sweep_find(2,5) [OF sw] dp_key_same [OF sweep_find(2) [OF sw]]
      unfolding dp_invar_def by simp
  qed
qed

lemma dp_getUpdate_result:
  assumes "dp_invar dp" and "length (id2path dp) + length paths \<le> 2 ^ 32"
    and "dp_getUpdate stat paths dp = (dp', Some pack)"
  shows "set (up_added pack) = {fi_id info | q info. q \<in> set paths \<and>
        um_find (path2info dp) q = None \<and> um_find (path2info dp') q = Some info}"
    and "set (up_updated pack) = {fi_id info | q info. q \<in> set paths \<and>
        um_find (path2info dp) q = Some info \<and> outdated stat q info}"
    and "set (up_removed pack) = {fi_id info | q info. q \<notin> set paths \<and>
        um_find (path2info dp) q = Some info \<and> \<not> fi_deleted info}"
    and "q \<in> set paths \<Longrightarrow> \<exists>info m z. stat q = Some (m, z) \<and> um_find (path2info dp') q = Some info \<and>
        fi_mtime info = m \<and> fi_fsize info = z \<and> \<not> fi_deleted info \<and>
        (\<forall>old. um_find (path2info dp) q = Some old \<longrightarrow> fi_id info = fi_id old)"
    and "q \<notin> set paths \<Longrightarrow> um_find (path2info dp') q =
        map_option (\<lambda>info. info\<lparr>fi_deleted := True\<rparr>) (um_find (path2info dp) q)"
proof -
  obtain dp1 pack1 where sc: "scan_inv stat dp paths (dp1, pack1)"
    and sw: "gu_sweep paths (dp1, pack1) = (dp', pack)"
    using dp_getUpdate_scanned [OF assms] by auto
  have inv1: "um_ok (path2info dp1)" using sc by (simp add: scan_inv_def dp_invar_def)
  have in': "q \<in> set paths \<Longrightarrow> um_find (path2info dp') q = um_find (path2info dp1) q" for q
    unfolding sweep_find(1) [OF sw, of q] by (cases "um_find (path2info dp1) q") auto
  show "set (up_added pack) = {fi_id info | q info. q \<in> set paths \<and>
        um_find (path2info dp) q = None \<and> um_find (path2info dp') q = Some info}"
  proof -
    have a: "set (up_added pack1) = {fi_id info | q info. q \<in> set paths \<and>
        um_find (path2info dp) q = None \<and> um_find (path2info dp1) q = Some info}"
      using sc by (simp add: scan_inv_def)
    show ?thesis unfolding sweep_find(3) [OF sw] a by (rule Collect_cong) (metis in')
  qed
  show "set (up_updated pack) = {fi_id info | q info. q \<in> set paths \<and>
        um_find (path2info dp) q = Some info \<and> outdated stat q info}"
    using sc unfolding sweep_find(4) [OF sw] scan_inv_def by simp
  show "set (up_removed pack) = {fi_id info | q info. q \<notin> set paths \<and>
        um_find (path2info dp) q = Some info \<and> \<not> fi_deleted info}"
  proof -
    have "up_removed pack1 = []" "\<forall>q. q \<notin> set paths \<longrightarrow>
        um_find (path2info dp1) q = um_find (path2info dp) q"
      using sc by (simp_all add: scan_inv_def)
    then show ?thesis unfolding sweep_find(6) [OF sw inv1] by fastforce
  qed
  show "\<exists>info m z. stat q = Some (m, z) \<and> um_find (path2info dp') q = Some info \<and>
        fi_mtime info = m \<and> fi_fsize info = z \<and> \<not> fi_deleted info \<and>
        (\<forall>old. um_find (path2info dp) q = Some old \<longrightarrow> fi_id info = fi_id old)"
    if "q \<in> set paths"
    using sc that in' [OF that] by (auto simp: scan_inv_def)
  show "um_find (path2info dp') q =
        map_option (\<lambda>info. info\<lparr>fi_deleted := True\<rparr>) (um_find (path2info dp) q)"
    if "q \<notin> set paths"
    using sc that unfolding sweep_find(1) [OF sw, of q] by (simp add: scan_inv_def)
qed

section \<open>Export and import\<close>

lemma dp_key_rebuild_row:
  "dp_key (rebuild_row r dp) i = (if i = rr_id r then Some (rr_path r) else dp_key dp i)"
  by (auto simp: rebuild_row_def dp_key_def Let_def nth_list_update nth_append word_unat_eq_iff)

lemma find_rebuild_row:
  "um_find (path2info (rebuild_row (row_of (p, info)) dp)) q =
     (if q = p \<and> um_find (path2info dp) p = None then Some info else um_find (path2info dp) q)"
  by (cases info) (simp add: rebuild_row_def row_of_def Let_def um_find_emplace)

lemma rebuild_rows:
  assumes "distinct (map fst l)" and "distinct (map (fi_id \<circ> snd) l)"
    and "\<forall>p \<in> fst ` set l. um_find (path2info dp) p = None"
  shows "um_find (path2info (fold rebuild_row (map row_of l) dp)) q =
      (case map_of l q of None \<Rightarrow> um_find (path2info dp) q | Some info \<Rightarrow> Some info) \<and>
    (\<forall>(p, info) \<in> set l. dp_key (fold rebuild_row (map row_of l) dp) (fi_id info) = Some p) \<and>
    (\<forall>i. i \<notin> (fi_id \<circ> snd) ` set l \<longrightarrow>
       dp_key (fold rebuild_row (map row_of l) dp) i = dp_key dp i)"
  using assms
proof (induction l arbitrary: dp)
  case Nil
  then show ?case by simp
next
  case (Cons e l)
  obtain p info where e: "e = (p, info)" by (cases e)
  let ?d = "rebuild_row (row_of e) dp"
  have "\<forall>k \<in> fst ` set l. um_find (path2info ?d) k = None"
    using Cons.prems unfolding e by (auto simp: find_rebuild_row)
  from Cons.IH [OF _ _ this] Cons.prems
  have IH: "um_find (path2info (fold rebuild_row (map row_of l) ?d)) q =
      (case map_of l q of None \<Rightarrow> um_find (path2info ?d) q | Some i \<Rightarrow> Some i)"
    "\<forall>(p, i) \<in> set l. dp_key (fold rebuild_row (map row_of l) ?d) (fi_id i) = Some p"
    "\<forall>i. i \<notin> (fi_id \<circ> snd) ` set l \<longrightarrow> dp_key (fold rebuild_row (map row_of l) ?d) i = dp_key ?d i"
    by auto
  have key: "dp_key ?d i = (if i = fi_id info then Some p else dp_key dp i)" for i
    unfolding dp_key_rebuild_row by (simp add: e row_of_def)
  have "map_of l p = None" using Cons.prems(1) by (simp add: e map_of_eq_None_iff)
  then have "um_find (path2info (fold rebuild_row (map row_of l) ?d)) q =
      (case map_of (e # l) q of None \<Rightarrow> um_find (path2info dp) q | Some i \<Rightarrow> Some i)"
    using IH(1) Cons.prems(3) unfolding e find_rebuild_row by (auto split: option.splits)
  moreover have "fi_id info \<notin> (fi_id \<circ> snd) ` set l" using Cons.prems(2) by (simp add: e)
  ultimately show ?case using IH(2,3) key by (simp add: e)
qed

lemma dp_invar_ids_distinct:
  assumes "dp_invar dp"
  shows "distinct (map (fi_id \<circ> snd) (path2info dp))"
proof -
  have ok: "um_ok (path2info dp)" by (rule dp_invarD(3) [OF assms])
  have "inj_on (fi_id \<circ> snd) (set (path2info dp))"
  proof (rule inj_onI)
    fix x y assume x: "x \<in> set (path2info dp)" and y: "y \<in> set (path2info dp)"
      and eq: "(fi_id \<circ> snd) x = (fi_id \<circ> snd) y"
    then have "um_find (path2info dp) (fst x) = Some (snd x)" "um_find (path2info dp) (fst y) = Some (snd y)"
      by (simp_all add: um_find_Some_iff [OF ok])
    with eq dp_invar_inj [OF assms] show "x = y" by (metis comp_apply option.inject prod.expand)
  qed
  with ok show ?thesis by (simp add: um_ok_def distinct_map)
qed

lemma dp_rebuild_find:
  assumes "dp_invar dp"
  shows "um_find (path2info (dp_rebuildFromRows (dp_exportRows dp))) q = um_find (path2info dp) q"
    and "dp_key (dp_rebuildFromRows (dp_exportRows dp)) i = dp_key dp i"
proof -
  let ?l = "path2info dp"
  define m where "m = unat (fold (\<lambda>r m. if rr_id r > m then rr_id r else m) (map row_of ?l) 0) + 1"
  define dp0 where "dp0 = \<lparr>path2info = ([] :: (wstring, file_info) umap), id2path = replicate m None\<rparr>"
  have ok: "um_ok ?l" by (rule dp_invarD(3) [OF assms])
  have dk: "dp_key dp0 i = None" for i by (simp add: dp0_def dp_key_def)
  have fold_eq: "dp_rebuildFromRows (dp_exportRows dp) = fold rebuild_row (map row_of ?l) dp0"
    if "?l \<noteq> []"
    using that by (simp add: dp_rebuildFromRows_def dp_exportRows_def Let_def dp0_def m_def)
  note rr = rebuild_rows [OF _ dp_invar_ids_distinct [OF assms], of dp0]
  have key_in: "dp_key dp i = Some p \<longleftrightarrow> (\<exists>info. (p, info) \<in> set ?l \<and> fi_id info = i)" for p i
    using assms ok by (simp add: dp_invar_def um_find_Some_iff)
  show "um_find (path2info (dp_rebuildFromRows (dp_exportRows dp))) q = um_find ?l q"
  proof (cases "?l = []")
    case True
    then show ?thesis by (simp add: dp_rebuildFromRows_def dp_exportRows_def dp_empty_def)
  next
    case False
    with rr [of q] fold_eq ok show ?thesis
      by (auto simp: um_ok_def dp0_def um_find_def split: option.splits)
  qed
  show "dp_key (dp_rebuildFromRows (dp_exportRows dp)) i = dp_key dp i"
  proof (cases "?l = []")
    case True
    have "dp_key dp i = None" using key_in [of i] True by (cases "dp_key dp i") auto
    with True show ?thesis
      by (simp add: dp_rebuildFromRows_def dp_exportRows_def dp_empty_def dp_key_def)
  next
    case False
    let ?r = "fold rebuild_row (map row_of ?l) dp0"
    from rr [of q] ok have a: "\<forall>(p, info) \<in> set ?l. dp_key ?r (fi_id info) = Some p"
      and b: "\<forall>i. i \<notin> (fi_id \<circ> snd) ` set ?l \<longrightarrow> dp_key ?r i = dp_key dp0 i"
      by (auto simp: um_ok_def dp0_def)
    show ?thesis
    proof (cases "dp_key dp i")
      case None
      then have "i \<notin> (fi_id \<circ> snd) ` set ?l" using key_in [of i] by force
      with b None dk fold_eq [OF False] show ?thesis by simp
    next
      case (Some p)
      with key_in [of i p] a fold_eq [OF False] show ?thesis by auto
    qed
  qed
qed

section \<open>Properties\<close>

text \<open>C36: a rescan that reads every file succeeds in keeping the table consistent and classifies
  every file exactly: the new paths are reported as added, the known ones that had been
  marked deleted or whose time or size changed as updated, the known live ones that are not
  in the scan as removed; afterwards exactly the scanned files are live, with the metadata
  just read, no entry is dropped and no id changes.\<close>

theorem dp_getUpdate_classifies:
  assumes "dp_invar dp" and "length (id2path dp) + length paths \<le> 2 ^ 32"
    and "dp_getUpdate stat paths dp = (dp', Some pack)"
  shows "dp_invar dp' \<and>
    set (up_added pack) = {fi_id info | q info. q \<in> set paths \<and>
        um_find (path2info dp) q = None \<and> um_find (path2info dp') q = Some info} \<and>
    set (up_updated pack) = {fi_id info | q info. q \<in> set paths \<and>
        um_find (path2info dp) q = Some info \<and> outdated stat q info} \<and>
    set (up_removed pack) = {fi_id info | q info. q \<notin> set paths \<and>
        um_find (path2info dp) q = Some info \<and> \<not> fi_deleted info} \<and>
    (\<forall>q \<in> set paths. \<exists>info. um_find (path2info dp') q = Some info \<and>
        stat q = Some (fi_mtime info, fi_fsize info) \<and> \<not> fi_deleted info \<and>
        (\<forall>old. um_find (path2info dp) q = Some old \<longrightarrow> fi_id info = fi_id old)) \<and>
    (\<forall>q. q \<notin> set paths \<longrightarrow> um_find (path2info dp') q =
        map_option (\<lambda>info. info\<lparr>fi_deleted := True\<rparr>) (um_find (path2info dp) q))"
proof (intro conjI)
  show "dp_invar dp'" by (rule dp_getUpdate_invar [OF assms])
  show "\<forall>q \<in> set paths. \<exists>info. um_find (path2info dp') q = Some info \<and>
        stat q = Some (fi_mtime info, fi_fsize info) \<and> \<not> fi_deleted info \<and>
        (\<forall>old. um_find (path2info dp) q = Some old \<longrightarrow> fi_id info = fi_id old)"
    using dp_getUpdate_result(4) [OF assms] by metis
  show "\<forall>q. q \<notin> set paths \<longrightarrow> um_find (path2info dp') q =
        map_option (\<lambda>info. info\<lparr>fi_deleted := True\<rparr>) (um_find (path2info dp) q)"
    using dp_getUpdate_result(5) [OF assms] by blast
qed (rule dp_getUpdate_result(1-3) [OF assms])+

definition ex_stat :: stat_fn where
  "ex_stat p = (if p = [1] then Some (5, 6) else if p = [2] then Some (7, 8) else None)"

lemma dp_getUpdate_classifies_witness:
  "dp_invar dp_empty \<and> length (id2path dp_empty) + length [[1], [2]] \<le> 2 ^ 32 \<and>
   dp_invar (fst (dp_getUpdate ex_stat [[1], [2]] dp_empty))"
proof -
  have len: "length (id2path dp_empty) + length [[1 :: 16 word], [2]] \<le> 2 ^ 32"
    by (simp add: dp_empty_def)
  have "\<exists>pack. dp_getUpdate ex_stat [[1], [2]] dp_empty =
      (fst (dp_getUpdate ex_stat [[1], [2]] dp_empty), Some pack)"
    by (simp add: dp_getUpdate_def ex_stat_def split: prod.splits)
  then obtain pack where "dp_getUpdate ex_stat [[1], [2]] dp_empty =
      (fst (dp_getUpdate ex_stat [[1], [2]] dp_empty), Some pack)" by blast
  from dp_getUpdate_classifies [OF dp_invar_empty len this] len show ?thesis
    by (simp add: dp_invar_empty)
qed

text \<open>when a rescan fails because one file cannot be read any more, the files it had visited
  before that point are recorded with their new metadata although no caller learns of them:
  a later rescan that finds such a file unchanged reports it neither as added nor as
  updated, so it is not indexed.\<close>

theorem failed_rescan_hides_changes:
  assumes "dp_invar dp" and "length (id2path dp) + length paths \<le> 2 ^ 32"
    and failed: "dp_getUpdate stat paths dp = (dp1, None)"
    and j: "j < length paths" "\<forall>i \<le> j. stat (paths ! i) \<noteq> None"
    and "length (id2path dp1) + length paths' \<le> 2 ^ 32"
    and again: "dp_getUpdate stat' paths' dp1 = (dp2, Some pack)"
    and "paths ! j \<in> set paths'" and same: "stat' (paths ! j) = stat (paths ! j)"
  shows "\<exists>info. um_find (path2info dp2) (paths ! j) = Some info \<and>
    fi_id info \<notin> set (up_added pack) \<and> fi_id info \<notin> set (up_updated pack)"
proof -
  let ?p = "paths ! j"
  obtain k pack1 where k: "k < length paths" "stat (paths ! k) = None"
    and sc: "scan_inv stat dp (take k paths) (dp1, pack1)"
    using dp_getUpdate_scanned [OF assms(1,2) failed] by auto
  have "j < k" using j(2) k(2) by (meson leI)
  then have "?p \<in> set (take k paths)" using k(1) by (auto simp: in_set_conv_nth)
  with sc obtain o1 where o1: "um_find (path2info dp1) ?p = Some o1" "\<not> outdated stat' ?p o1"
    using same by (fastforce simp: scan_inv_def outdated_def)
  have inv1: "dp_invar dp1" using sc by (simp add: scan_inv_def)
  have inv2: "dp_invar dp2" by (rule dp_getUpdate_invar [OF inv1 assms(6) again])
  note res = dp_getUpdate_result [OF inv1 assms(6) again]
  from res(4) [OF assms(8)] o1(1) obtain info where
    info: "um_find (path2info dp2) ?p = Some info" "fi_id info = fi_id o1" by auto
  have "fi_id info \<notin> set (up_added pack)"
  proof
    assume "fi_id info \<in> set (up_added pack)"
    then obtain q x where "fi_id info = fi_id x" "um_find (path2info dp1) q = None"
      "um_find (path2info dp2) q = Some x" unfolding res(1) by blast
    moreover from this have "?p = q" using dp_invar_inj [OF inv2 info(1)] by blast
    ultimately show False using o1(1) by simp
  qed
  moreover have "fi_id info \<notin> set (up_updated pack)"
  proof
    assume "fi_id info \<in> set (up_updated pack)"
    then obtain q x where x: "fi_id o1 = fi_id x" "um_find (path2info dp1) q = Some x"
      "outdated stat' q x" unfolding res(2) using info(2) by auto
    moreover from this have "?p = q" using dp_invar_inj [OF inv1 o1(1)] by blast
    ultimately show False using o1 by simp
  qed
  ultimately show ?thesis using info(1) by blast
qed

lemma failed_rescan_hides_changes_witness:
  "\<exists>dp1 dp2 pack info. dp_getUpdate ex_stat [[1], [3]] dp_empty = (dp1, None) \<and>
     dp_getUpdate ex_stat [[1]] dp1 = (dp2, Some pack) \<and>
     um_find (path2info dp2) [1] = Some info \<and> fi_id info \<notin> set (up_added pack)"
proof -
  let ?d = "fst (dp_insert [1] 5 6 dp_empty)"
  have len: "length (id2path dp_empty) + length [[1 :: 16 word], [3]] \<le> 2 ^ 32"
      "length (id2path ?d) + length [[1 :: 16 word]] \<le> 2 ^ 32"
    by (simp_all add: dp_empty_def dp_insert_def Let_def)
  have f: "dp_getUpdate ex_stat [[1], [3]] dp_empty = (?d, None)"
    by (simp add: dp_getUpdate_def ex_stat_def gu_visit_def dp_empty_def dp_insert_def Let_def)
  have "\<exists>dp2 pack. dp_getUpdate ex_stat [[1]] ?d = (dp2, Some pack)"
    by (simp add: dp_getUpdate_def ex_stat_def split: prod.splits)
  then obtain dp2 pack where a: "dp_getUpdate ex_stat [[1]] ?d = (dp2, Some pack)" by blast
  have "\<forall>i \<le> 0. ex_stat ([[1], [3]] ! i) \<noteq> None" by (simp add: ex_stat_def)
  from failed_rescan_hides_changes [OF dp_invar_empty len(1) f _ this len(2) a] f a
  show ?thesis by auto
qed

text \<open>a point update keeps the table consistent, gives a new path the next free id and a known
  path its old id, stores the given metadata and clears the deletion mark, touches no other
  path, and reports a change exactly when the path was new, marked deleted or outdated.\<close>

theorem dp_upsert_correct:
  assumes "dp_invar dp" and "length (id2path dp) < 2 ^ 32" and "dp_upsert p m z dp = (dp', i, changed)"
  shows "dp_invar dp' \<and>
    (\<forall>q. um_find (path2info dp') q =
      (if q = p then Some \<lparr>fi_mtime = m, fi_fsize = z, fi_id = i, fi_deleted = False\<rparr>
       else um_find (path2info dp) q)) \<and>
    (case um_find (path2info dp) p of
       None \<Rightarrow> changed \<and> unat i = length (id2path dp)
     | Some info \<Rightarrow> i = fi_id info \<and>
         (changed \<longleftrightarrow> fi_deleted info \<or> fi_mtime info \<noteq> m \<or> fi_fsize info \<noteq> z))"
  using dp_upsert_invar [OF assms] dp_upsert_find [OF assms(3)] assms(2,3)
  by (auto simp: dp_upsert_new dp_upsert_old nextId_def unat_of_nat_u32 split: option.splits if_splits)

lemma dp_upsert_correct_witness:
  "dp_invar dp_empty \<and> length (id2path dp_empty) < 2 ^ 32 \<and>
   dp_invar (fst (dp_upsert [1] 5 6 dp_empty))"
proof -
  have len: "length (id2path dp_empty) < 2 ^ 32" by (simp add: dp_empty_def)
  obtain d i c where "dp_upsert [1] 5 6 dp_empty = (d, i, c)" by (cases "dp_upsert [1] 5 6 dp_empty")
  from dp_upsert_correct [OF dp_invar_empty len this] len this show ?thesis
    by (simp add: dp_invar_empty)
qed

text \<open>exporting the rows of a consistent table and rebuilding the table from them restores
  every path's entry and every id's path.\<close>

theorem dp_rows_roundtrip:
  assumes "dp_invar dp"
  shows "um_find (path2info (dp_rebuildFromRows (dp_exportRows dp))) = um_find (path2info dp) \<and>
    dp_key (dp_rebuildFromRows (dp_exportRows dp)) = dp_key dp"
  using dp_rebuild_find [OF assms] by auto

lemma dp_rows_roundtrip_witness:
  "dp_invar (fst (dp_upsert [1] 5 6 dp_empty)) \<and>
   dp_key (dp_rebuildFromRows (dp_exportRows (fst (dp_upsert [1] 5 6 dp_empty)))) 0 = Some [1]"
proof -
  have len: "length (id2path dp_empty) < 2 ^ 32" by (simp add: dp_empty_def)
  have inv: "dp_invar (fst (dp_upsert [1] 5 6 dp_empty))"
    using dp_upsert_invar [OF dp_invar_empty len, of "[1]" 5 6] by (metis prod.collapse)
  have "dp_key (fst (dp_upsert [1] 5 6 dp_empty)) 0 = Some [1]"
    by (simp add: dp_upsert_def dp_empty_def dp_insert_def Let_def dp_key_def)
  with dp_rows_roundtrip [OF inv] inv show ?thesis by simp
qed

lemma dp_markRemoved_find:
  assumes "dp_invar dp"
  shows "dp_invar (dp_markRemoved i dp)"
    and "um_find (path2info (dp_markRemoved i dp)) q =
      map_option (\<lambda>info. if fi_id info = i then info\<lparr>fi_deleted := True\<rparr> else info)
        (um_find (path2info dp) q)"
proof -
  show "dp_invar (dp_markRemoved i dp)"
    using assms dp_invar_set_info [OF assms]
    by (auto simp: dp_markRemoved_def split: option.splits)
  show "um_find (path2info (dp_markRemoved i dp)) q =
      map_option (\<lambda>info. if fi_id info = i then info\<lparr>fi_deleted := True\<rparr> else info)
        (um_find (path2info dp) q)"
  proof (cases "dp_key dp i")
    case None
    then show ?thesis
      using dp_invarD(1) [OF assms, of q] by (cases "um_find (path2info dp) q") (auto simp: dp_markRemoved_def)
  next
    case (Some p)
    then obtain info where i: "um_find (path2info dp) p = Some info" "fi_id info = i"
      using dp_invarD(2) [OF assms] by blast
    have eq: "dp_markRemoved i dp = dp_set_info p (info\<lparr>fi_deleted := True\<rparr>) dp"
      using Some i by (simp add: dp_markRemoved_def)
    show ?thesis
    proof (cases "um_find (path2info dp) q")
      case None
      with i show ?thesis by (auto simp: eq)
    next
      case x: (Some x)
      show ?thesis
      proof (cases "q = p")
        case True
        with x i have "x = info" by simp
        with True i show ?thesis by (simp add: eq)
      next
        case False
        have "fi_id x \<noteq> i"
        proof
          assume "fi_id x = i"
          then have "fi_id x = fi_id info" using i(2) by simp
          from dp_invar_inj [OF assms x i(1) this] False show False by simp
        qed
        with False x show ?thesis by (simp add: eq)
      qed
    qed
  qed
qed

end
