(* ===== verification/BatchPipeline.thy ===== *)
theory BatchPipeline
  imports BatchQueue PostingList Tokenizer DocPaths
begin

text \<open>
  The threads of the full rebuild (\<open>BatchIndexBuilder::build\<close> in
  \<open>src/src/Index/Batch/BatchIndexBuilder.cpp\<close>): reader threads take files by number, bind each
  file to a free worker and push it as a sequence of blocks into that worker's lane; one
  indexer thread per lane tokenizes the blocks and commits the counters of a finished file to
  its own dictionary.

  A step is one critical section (of a lane, of the pool of workers, of the error list) with
  the thread-local work next to it. What the file system says of the file of each job is a
  parameter (\<open>file_view\<close>), and any thread may die of an exception of its environment at any
  moment (\<open>FatalResource\<close>). The failure to start a thread and the log lines are not modelled.
\<close>

section \<open>Blocks and documents\<close>

definition kReadBlockSize :: nat where
  "kReadBlockSize = 64 * 1024"

datatype block_kind = BStart | BData | BComplete | BAbort

record file_block =
  fb_kind :: block_kind
  fb_fileId :: u32
  fb_isLastChunk :: bool
  fb_data :: string

record document_acc =
  da_fileId :: u32
  da_frequencies :: "(string, nat) umap"
  da_carry :: string

type_synonym local_dict = "(string, posting list) umap"

text \<open>What the tokenizer depends on: the instruction set and the locale.\<close>

record tok_env =
  te_avx2 :: bool
  te_upper :: "char \<Rightarrow> char"
  te_firstOEM :: char
  te_ispunct :: "char \<Rightarrow> bool"

definition on_token :: "tok_env \<Rightarrow> string \<Rightarrow> (string, nat) umap \<Rightarrow> (string, nat) umap" where
  "on_token env token frequencies =
     (let word = normalizeToken (te_upper env) (te_firstOEM env) (te_ispunct env) token
      in if word \<noteq> [] then count_word word frequencies else frequencies)"

definition tokenizeBlock :: "tok_env \<Rightarrow> file_block \<Rightarrow> document_acc \<Rightarrow> document_acc" where
  "tokenizeBlock env block document =
     (let (tokens, c) = tokenize_oem866_buffer (te_avx2 env) (te_ispunct env) (fb_data block)
            (fb_isLastChunk block) (da_carry document)
      in document\<lparr>da_frequencies := fold (on_token env) tokens (da_frequencies document), da_carry := c\<rparr>)"

definition bounded_count :: "nat \<Rightarrow> u16" where
  "bounded_count count = of_nat (min count 65535)"

definition push_posting :: "u32 \<Rightarrow> string \<times> nat \<Rightarrow> local_dict \<Rightarrow> local_dict" where
  "push_posting fileId = (\<lambda>(word, count) dictionary.
     um_put word ((case um_find dictionary word of None \<Rightarrow> [] | Some ps \<Rightarrow> ps) @
                  [\<lparr>p_fileId = fileId, p_cnt = bounded_count count\<rparr>]) dictionary)"

definition commitDocument :: "document_acc \<Rightarrow> local_dict \<Rightarrow> local_dict" where
  "commitDocument document dictionary = fold (push_posting (da_fileId document)) (da_frequencies document) dictionary"

section \<open>Options\<close>

record batch_options =
  bo_readerThreads :: nat
  bo_indexerThreads :: nat
  bo_queueMemoryBytes :: nat

text \<open>\<open>detected\<close> is \<open>std::thread::hardware_concurrency()\<close>.\<close>

definition resolveIndexerThreads :: "nat \<Rightarrow> nat \<Rightarrow> nat" where
  "resolveIndexerThreads detected configuredThreads =
     (if configuredThreads \<noteq> 0 then configuredThreads else if detected = 0 then 1 else detected)"

definition BatchIndexBuilder :: "nat \<Rightarrow> batch_options \<Rightarrow> batch_options" where
  "BatchIndexBuilder detected o0 =
     (let indexers = resolveIndexerThreads detected (bo_indexerThreads o0)
      in \<lparr>bo_readerThreads = max 1 (bo_readerThreads o0), bo_indexerThreads = indexers,
          bo_queueMemoryBytes = max indexers (max 1 (bo_queueMemoryBytes o0))\<rparr>)"

definition laneCapacity :: "batch_options \<Rightarrow> nat" where
  "laneCapacity opts = max 1 (bo_queueMemoryBytes opts div bo_indexerThreads opts)"

definition payloadSize :: "batch_options \<Rightarrow> nat" where
  "payloadSize opts = min kReadBlockSize (laneCapacity opts)"

section \<open>What a reader does with a file\<close>

text \<open>
  \<open>MetaFails\<close>: \<open>last_write_time\<close> or \<open>file_size\<close> throws. \<open>OpenFails\<close>: the stream does not
  open. \<open>Reads\<close>: the file has these bytes; with \<open>Some k\<close> the read after \<open>k\<close> reads fails.
\<close>

datatype file_view =
    MetaFails string
  | OpenFails "ticks \<times> u64"
  | Reads "ticks \<times> u64" string "nat option"

datatype reader_action = ASend file_block | ACount nat | AError string

definition ctl_block :: "block_kind \<Rightarrow> u32 \<Rightarrow> file_block" where
  "ctl_block kind fileId = \<lparr>fb_kind = kind, fb_fileId = fileId, fb_isLastChunk = False, fb_data = []\<rparr>"

definition data_block :: "u32 \<Rightarrow> bool \<Rightarrow> string \<Rightarrow> file_block" where
  "data_block fileId isLast bytes = \<lparr>fb_kind = BData, fb_fileId = fileId, fb_isLastChunk = isLast, fb_data = bytes\<rparr>"

text \<open>The payload loop over one read: parts of at most \<open>payload\<close> bytes, the last one flagged
  when the read is the last.\<close>

function split_read :: "nat \<Rightarrow> u32 \<Rightarrow> bool \<Rightarrow> string \<Rightarrow> file_block list" where
  "split_read payload fileId isLastRead bytes =
     (if bytes = [] \<or> payload = 0 then []
      else data_block fileId (isLastRead \<and> length bytes \<le> payload) (take payload bytes) #
           split_read payload fileId isLastRead (drop payload bytes))"
  by pat_completeness auto
termination
  by (relation "measure (\<lambda>(payload, fileId, isLastRead, bytes). length bytes)") auto

declare split_read.simps [simp del]

text \<open>The read loop: the reads of \<open>kReadBlockSize\<close> bytes with their end-of-file flags.\<close>

definition read_failed :: "u32 \<Rightarrow> reader_action list" where
  "read_failed fileId = [AError ''file read failed'', ASend (ctl_block BAbort fileId)]"

fun read_loop :: "nat \<Rightarrow> u32 \<Rightarrow> (string \<times> bool) list \<Rightarrow> nat option \<Rightarrow> reader_action list" where
  "read_loop payload fileId [] k =
     (if k = Some 0 then read_failed fileId else [ASend (ctl_block BComplete fileId)])"
| "read_loop payload fileId ((bytes, isLastRead) # reads) k =
     (if k = Some 0 then read_failed fileId
      else ACount (length bytes) # map ASend (split_read payload fileId isLastRead bytes) @
        (if isLastRead then [ASend (ctl_block BComplete fileId)]
         else read_loop payload fileId reads (map_option (\<lambda>n. n - 1) k)))"

definition file_actions :: "nat \<Rightarrow> u32 \<Rightarrow> string \<Rightarrow> nat option \<Rightarrow> reader_action list" where
  "file_actions payload fileId bytes k =
     ASend (ctl_block BStart fileId) # read_loop payload fileId (read_blocks kReadBlockSize bytes) k"

text \<open>The weight the lane charges for a block.\<close>

definition block_weight :: "file_block \<Rightarrow> nat" where
  "block_weight b = (if fb_kind b = BData then length (fb_data b) else 1)"

section \<open>The state\<close>

datatype reader_pc = RdIdle | RdOpened nat | RdSending nat nat "reader_action list" | RdDone

datatype indexer_pc = IxPop "document_acc option" | IxHave "document_acc option" file_block | IxDone

datatype fatal =
    FatalOverlap | FatalOrphanData | FatalOrphanCompletion | FatalOrphanAbort | FatalInside
  | FatalLength | FatalResource

record pipeline =
  bp_nextJob :: nat
  bp_readersRemaining :: nat
  bp_workers :: available_workers
  bp_lanes :: "file_block byte_queue list"
  bp_readers :: "reader_pc list"
  bp_indexers :: "indexer_pc list"
  bp_localDictionaries :: "local_dict list"
  bp_documentMetadata :: "(ticks \<times> u64) list"
  bp_fileErrors :: "(u32 \<times> wstring \<times> string) list"
  bp_fatalError :: "fatal option"
  bp_indexedFiles :: nat
  bp_bytesRead :: u64

definition bp_init :: "batch_options \<Rightarrow> nat \<Rightarrow> pipeline" where
  "bp_init opts n =
     \<lparr>bp_nextJob = 0, bp_readersRemaining = bo_readerThreads opts,
      bp_workers = aw_new (bo_indexerThreads opts),
      bp_lanes = replicate (bo_indexerThreads opts) (bq_new (laneCapacity opts)),
      bp_readers = replicate (bo_readerThreads opts) RdIdle,
      bp_indexers = replicate (bo_indexerThreads opts) (IxPop None),
      bp_localDictionaries = replicate (bo_indexerThreads opts) [],
      bp_documentMetadata = replicate n (0, 0), bp_fileErrors = [], bp_fatalError = None,
      bp_indexedFiles = 0, bp_bytesRead = 0\<rparr>"

definition setFatal :: "fatal \<Rightarrow> pipeline \<Rightarrow> pipeline" where
  "setFatal e s = s\<lparr>bp_fatalError := (case bp_fatalError s of None \<Rightarrow> Some e | Some e0 \<Rightarrow> Some e0),
     bp_workers := aw_cancel (bp_workers s), bp_lanes := map bq_cancel (bp_lanes s)\<rparr>"

definition addFileError :: "u32 \<Rightarrow> wstring \<Rightarrow> string \<Rightarrow> pipeline \<Rightarrow> pipeline" where
  "addFileError fileId path message s = s\<lparr>bp_fileErrors := bp_fileErrors s @ [(fileId, path, message)]\<rparr>"

text \<open>The end of a reader thread; the last one closes the lanes.\<close>

definition reader_exit :: "nat \<Rightarrow> pipeline \<Rightarrow> pipeline" where
  "reader_exit r s =
     (let s' = s\<lparr>bp_readers := (bp_readers s)[r := RdDone], bp_readersRemaining := bp_readersRemaining s - 1\<rparr>
      in if bp_readersRemaining s = 1 then s'\<lparr>bp_lanes := map bq_close (bp_lanes s')\<rparr> else s')"

section \<open>Reader steps\<close>

text \<open>\<open>None\<close>: the thread waits on a condition variable, or has ended.\<close>

definition set_reader :: "nat \<Rightarrow> reader_pc \<Rightarrow> pipeline \<Rightarrow> pipeline" where
  "set_reader r pc s = s\<lparr>bp_readers := (bp_readers s)[r := pc]\<rparr>"

definition take_job :: "(wstring \<times> file_view) list \<Rightarrow> nat \<Rightarrow> pipeline \<Rightarrow> pipeline" where
  "take_job fs r s0 =
     (let j = bp_nextJob s0; s = s0\<lparr>bp_nextJob := j + 1\<rparr>; fileId = of_nat j :: u32
      in if j \<ge> length fs then reader_exit r s
         else case snd (fs ! j) of
             MetaFails message \<Rightarrow> addFileError fileId (fst (fs ! j)) message s
           | OpenFails meta \<Rightarrow> addFileError fileId (fst (fs ! j)) ''file not found''
               (s\<lparr>bp_documentMetadata := (bp_documentMetadata s)[j := meta]\<rparr>)
           | Reads meta bytes k \<Rightarrow>
               set_reader r (RdOpened j) (s\<lparr>bp_documentMetadata := (bp_documentMetadata s)[j := meta]\<rparr>))"

definition job_actions :: "batch_options \<Rightarrow> (wstring \<times> file_view) list \<Rightarrow> nat \<Rightarrow> reader_action list" where
  "job_actions opts fs j =
     (case snd (fs ! j) of Reads meta bytes k \<Rightarrow> file_actions (payloadSize opts) (of_nat j) bytes k | _ \<Rightarrow> [])"

definition acquire_worker ::
  "batch_options \<Rightarrow> (wstring \<times> file_view) list \<Rightarrow> nat \<Rightarrow> nat \<Rightarrow> pipeline \<Rightarrow> pipeline option" where
  "acquire_worker opts fs r j s =
     (case aw_acquire (bp_workers s) of
        AcquireWaits \<Rightarrow> None
      | AcquireNone \<Rightarrow> Some (reader_exit r s)
      | Acquired w a \<Rightarrow> Some (set_reader r (RdSending j w (job_actions opts fs j)) (s\<lparr>bp_workers := a\<rparr>)))"

definition after_action :: "nat \<Rightarrow> nat \<Rightarrow> reader_action list \<Rightarrow> reader_pc" where
  "after_action j w rest = (if rest = [] then RdIdle else RdSending j w rest)"

definition do_action ::
  "(wstring \<times> file_view) list \<Rightarrow> nat \<Rightarrow> nat \<Rightarrow> nat \<Rightarrow> reader_action \<Rightarrow> reader_action list \<Rightarrow> pipeline \<Rightarrow> pipeline option" where
  "do_action fs r j w a rest s =
     (case a of
        ACount n \<Rightarrow> Some (set_reader r (after_action j w rest) (s\<lparr>bp_bytesRead := bp_bytesRead s + of_nat n\<rparr>))
      | AError message \<Rightarrow>
          Some (set_reader r (after_action j w rest) (addFileError (of_nat j) (fst (fs ! j)) message s))
      | ASend b \<Rightarrow>
          (case bq_push b (block_weight b) (bp_lanes s ! w) of
             PushThrows \<Rightarrow> Some (reader_exit r (setFatal FatalLength s))
           | PushWaits \<Rightarrow> None
           | PushRefused \<Rightarrow> Some (reader_exit r s)
           | Pushed q \<Rightarrow>
               Some (set_reader r (after_action j w rest) (s\<lparr>bp_lanes := (bp_lanes s)[w := q]\<rparr>))))"

definition reader_step ::
  "batch_options \<Rightarrow> (wstring \<times> file_view) list \<Rightarrow> nat \<Rightarrow> pipeline \<Rightarrow> pipeline option" where
  "reader_step opts fs r s =
     (case bp_readers s ! r of
        RdDone \<Rightarrow> None
      | RdIdle \<Rightarrow> Some (take_job fs r s)
      | RdOpened j \<Rightarrow> acquire_worker opts fs r j s
      | RdSending j w [] \<Rightarrow> Some (set_reader r RdIdle s)
      | RdSending j w (a # rest) \<Rightarrow> do_action fs r j w a rest s)"

section \<open>Indexer steps\<close>

definition set_indexer :: "nat \<Rightarrow> indexer_pc \<Rightarrow> pipeline \<Rightarrow> pipeline" where
  "set_indexer w pc s = s\<lparr>bp_indexers := (bp_indexers s)[w := pc]\<rparr>"

definition orphan :: "document_acc option \<Rightarrow> file_block \<Rightarrow> bool" where
  "orphan document block = (case document of None \<Rightarrow> True | Some d \<Rightarrow> da_fileId d \<noteq> fb_fileId block)"

definition handle_block ::
  "tok_env \<Rightarrow> nat \<Rightarrow> document_acc option \<Rightarrow> file_block \<Rightarrow> pipeline \<Rightarrow> pipeline" where
  "handle_block env w document block s =
     (case fb_kind block of
        BStart \<Rightarrow>
          (if document \<noteq> None then set_indexer w IxDone (setFatal FatalOverlap s)
           else set_indexer w (IxPop (Some \<lparr>da_fileId = fb_fileId block, da_frequencies = [], da_carry = []\<rparr>)) s)
      | BData \<Rightarrow>
          (if orphan document block then set_indexer w IxDone (setFatal FatalOrphanData s)
           else set_indexer w (IxPop (Some (tokenizeBlock env block (the document)))) s)
      | BComplete \<Rightarrow>
          (if orphan document block then set_indexer w IxDone (setFatal FatalOrphanCompletion s)
           else set_indexer w (IxPop None)
             (s\<lparr>bp_localDictionaries := (bp_localDictionaries s)[w := commitDocument (the document) (bp_localDictionaries s ! w)],
                bp_indexedFiles := bp_indexedFiles s + 1,
                bp_workers := aw_release w (bp_workers s)\<rparr>))
      | BAbort \<Rightarrow>
          (if orphan document block then set_indexer w IxDone (setFatal FatalOrphanAbort s)
           else set_indexer w (IxPop None) (s\<lparr>bp_workers := aw_release w (bp_workers s)\<rparr>)))"

definition pop_block :: "nat \<Rightarrow> document_acc option \<Rightarrow> pipeline \<Rightarrow> pipeline option" where
  "pop_block w document s =
     (case bq_pop (bp_lanes s ! w) of
        PopWaits \<Rightarrow> None
      | PopEnd \<Rightarrow> Some (set_indexer w IxDone (if document \<noteq> None then setFatal FatalInside s else s))
      | Popped b q \<Rightarrow> Some (set_indexer w (IxHave document b) (s\<lparr>bp_lanes := (bp_lanes s)[w := q]\<rparr>)))"

definition indexer_step :: "tok_env \<Rightarrow> nat \<Rightarrow> pipeline \<Rightarrow> pipeline option" where
  "indexer_step env w s =
     (case bp_indexers s ! w of
        IxDone \<Rightarrow> None
      | IxPop document \<Rightarrow> pop_block w document s
      | IxHave document block \<Rightarrow> Some (handle_block env w document block s))"

section \<open>The interleaving\<close>

inductive bp_step ::
  "tok_env \<Rightarrow> batch_options \<Rightarrow> (wstring \<times> file_view) list \<Rightarrow> pipeline \<Rightarrow> pipeline \<Rightarrow> bool"
  for env opts fs where
  reader: "r < length (bp_readers s) \<Longrightarrow> reader_step opts fs r s = Some s' \<Longrightarrow> bp_step env opts fs s s'"
| indexer: "w < length (bp_indexers s) \<Longrightarrow> indexer_step env w s = Some s' \<Longrightarrow> bp_step env opts fs s s'"
| reader_throws: "r < length (bp_readers s) \<Longrightarrow> bp_readers s ! r \<noteq> RdDone \<Longrightarrow>
    bp_step env opts fs s (reader_exit r (setFatal FatalResource s))"
| indexer_throws: "w < length (bp_indexers s) \<Longrightarrow> bp_indexers s ! w \<noteq> IxDone \<Longrightarrow>
    bp_step env opts fs s (set_indexer w IxDone (setFatal FatalResource s))"

inductive bp_reach ::
  "tok_env \<Rightarrow> batch_options \<Rightarrow> (wstring \<times> file_view) list \<Rightarrow> pipeline \<Rightarrow> bool"
  for env opts fs where
  init: "bp_reach env opts fs (bp_init opts (length fs))"
| step: "bp_reach env opts fs s \<Longrightarrow> bp_step env opts fs s s' \<Longrightarrow> bp_reach env opts fs s'"

definition bp_joined :: "pipeline \<Rightarrow> bool" where
  "bp_joined s \<longleftrightarrow> (\<forall>pc \<in> set (bp_readers s). pc = RdDone) \<and> (\<forall>pc \<in> set (bp_indexers s). pc = IxDone)"

section \<open>The blocks of one file\<close>

definition action_blocks :: "reader_action list \<Rightarrow> file_block list" where
  "action_blocks acts = concat (map (\<lambda>a. case a of ASend b \<Rightarrow> [b] | _ \<Rightarrow> []) acts)"

definition has_error :: "reader_action list \<Rightarrow> bool" where
  "has_error acts \<longleftrightarrow> (\<exists>a \<in> set acts. case a of AError m \<Rightarrow> True | _ \<Rightarrow> False)"

lemma action_blocks_simps [simp]:
  "action_blocks [] = []"
  "action_blocks (ASend b # acts) = b # action_blocks acts"
  "action_blocks (ACount n # acts) = action_blocks acts"
  "action_blocks (AError m # acts) = action_blocks acts"
  "action_blocks (xs @ ys) = action_blocks xs @ action_blocks ys"
  "action_blocks (map ASend bs) = bs"
  by (simp_all add: action_blocks_def) (induction bs; simp)

lemma has_error_simps [simp]:
  "\<not> has_error []"
  "has_error (ASend b # acts) = has_error acts"
  "has_error (ACount n # acts) = has_error acts"
  "has_error (AError m # acts)"
  "has_error (xs @ ys) \<longleftrightarrow> has_error xs \<or> has_error ys"
  "\<not> has_error (map ASend bs)"
  by (auto simp: has_error_def)

lemma split_read_parts:
  assumes "0 < payload"
  shows "concat (map fb_data (split_read payload f l bytes)) = bytes \<and>
    (\<forall>b \<in> set (split_read payload f l bytes). fb_kind b = BData \<and> fb_fileId b = f \<and>
       0 < length (fb_data b) \<and> length (fb_data b) \<le> payload)"
  using assms
proof (induction payload f l bytes rule: split_read.induct)
  case (1 payload f l bytes)
  show ?case
  proof (cases "bytes = []")
    case True
    then show ?thesis by (simp add: split_read.simps)
  next
    case False
    then have eq: "split_read payload f l bytes =
        data_block f (l \<and> length bytes \<le> payload) (take payload bytes) # split_read payload f l (drop payload bytes)"
      using "1.prems" by (subst split_read.simps) simp
    have "\<not> (bytes = [] \<or> payload = 0)" using False "1.prems" by simp
    from "1.IH" [OF this "1.prems"] show ?thesis
      unfolding eq using False "1.prems" by (auto simp: data_block_def)
  qed
qed

text \<open>The shape of a file's blocks: the data blocks and one closing block.\<close>

definition last_sends :: "reader_action list \<Rightarrow> bool" where
  "last_sends acts \<longleftrightarrow> acts \<noteq> [] \<and> action_blocks [last acts] \<noteq> []"

definition loop_shape :: "nat \<Rightarrow> u32 \<Rightarrow> reader_action list \<Rightarrow> bool" where
  "loop_shape payload f acts \<longleftrightarrow>
     (\<exists>datas. action_blocks acts = datas @ [ctl_block (if has_error acts then BAbort else BComplete) f] \<and>
        (\<forall>b \<in> set datas. fb_kind b = BData \<and> fb_fileId b = f \<and> length (fb_data b) \<le> payload)) \<and>
     last_sends acts \<and> (\<forall>pre m rest. acts = pre @ AError m # rest \<longrightarrow> \<not> has_error rest)"

lemma loop_shape_prepend:
  assumes sh: "loop_shape payload f acts"
    and bs: "\<forall>b \<in> set bs. fb_kind b = BData \<and> fb_fileId b = f \<and> length (fb_data b) \<le> payload"
  shows "loop_shape payload f (ACount n # map ASend bs @ acts)"
proof -
  let ?new = "ACount n # map ASend bs @ acts"
  from sh obtain datas where d: "action_blocks acts = datas @ [ctl_block (if has_error acts then BAbort else BComplete) f]"
    "\<forall>b \<in> set datas. fb_kind b = BData \<and> fb_fileId b = f \<and> length (fb_data b) \<le> payload"
    and l: "last_sends acts" and u: "\<forall>pre m rest. acts = pre @ AError m # rest \<longrightarrow> \<not> has_error rest"
    unfolding loop_shape_def by blast
  have "\<not> has_error rest" if "?new = pre @ AError m # rest" for pre m rest
  proof -
    have "\<exists>pre'. acts = pre' @ AError m # rest" if "map ASend bs @ acts = pre @ AError m # rest" for bs pre
      using that
    proof (induction bs arbitrary: pre)
      case (Cons b bs)
      then show ?case by (cases pre) auto
    qed auto
    note this = this [of bs "tl pre"]
    moreover have "map ASend bs @ acts = tl pre @ AError m # rest" using that by (cases pre) auto
    ultimately show ?thesis using u by blast
  qed
  moreover have "action_blocks ?new = (bs @ datas) @ [ctl_block (if has_error ?new then BAbort else BComplete) f]"
    using d(1) by simp
  moreover have "last_sends ?new" using l by (auto simp: last_sends_def)
  ultimately show ?thesis using d(2) bs unfolding loop_shape_def
    by (intro conjI exI [of _ "bs @ datas"]) auto
qed

lemma loop_shape_end [simp]: "loop_shape payload f [ASend (ctl_block BComplete f)]"
  by (auto simp: loop_shape_def last_sends_def Cons_eq_append_conv)

lemma loop_shape_failed [simp]: "loop_shape payload f (read_failed f)"
  by (auto simp: loop_shape_def last_sends_def Cons_eq_append_conv read_failed_def)

lemma read_loop_shape:
  assumes "0 < payload"
  shows "loop_shape payload f (read_loop payload f reads k)"
proof (induction payload f reads k rule: read_loop.induct)
  case (2 payload f bytes isLastRead reads k)
  have "\<forall>b \<in> set (split_read payload f isLastRead bytes). fb_kind b = BData \<and> fb_fileId b = f \<and>
      length (fb_data b) \<le> payload" for payload
    using split_read_parts [of payload f isLastRead bytes] by (cases "payload = 0") (auto simp: split_read.simps)
  then show ?case using "2.IH" by (auto intro!: loop_shape_prepend)
qed simp

section \<open>The document an indexer builds\<close>

definition fresh_document :: "u32 \<Rightarrow> document_acc" where
  "fresh_document f = \<lparr>da_fileId = f, da_frequencies = [], da_carry = []\<rparr>"

text \<open>What a sequence of blocks makes of the indexer's document.\<close>

definition feed_block :: "tok_env \<Rightarrow> file_block \<Rightarrow> document_acc option \<Rightarrow> document_acc option" where
  "feed_block env b document =
     (case fb_kind b of
        BStart \<Rightarrow> Some (fresh_document (fb_fileId b))
      | BData \<Rightarrow> map_option (tokenizeBlock env b) document
      | _ \<Rightarrow> None)"

definition feed :: "tok_env \<Rightarrow> file_block list \<Rightarrow> document_acc option" where
  "feed env bs = fold (feed_block env) bs None"

definition jblocks :: "batch_options \<Rightarrow> (wstring \<times> file_view) list \<Rightarrow> nat \<Rightarrow> file_block list" where
  "jblocks opts fs j = action_blocks (job_actions opts fs j)"

definition is_reads :: "(wstring \<times> file_view) list \<Rightarrow> nat \<Rightarrow> bool" where
  "is_reads fs j = (case snd (fs ! j) of Reads meta bytes k \<Rightarrow> True | _ \<Rightarrow> False)"

text \<open>The files that end in a dictionary; all others end in the error list.\<close>

definition job_good :: "batch_options \<Rightarrow> (wstring \<times> file_view) list \<Rightarrow> nat \<Rightarrow> bool" where
  "job_good opts fs j \<longleftrightarrow> is_reads fs j \<and> \<not> has_error (job_actions opts fs j)"

definition job_doc :: "tok_env \<Rightarrow> batch_options \<Rightarrow> (wstring \<times> file_view) list \<Rightarrow> nat \<Rightarrow> document_acc" where
  "job_doc env opts fs j = the (feed env (butlast (jblocks opts fs j)))"

lemma feed_Nil [simp]: "feed env [] = None"
  by (simp add: feed_def)

lemma feed_snoc [simp]: "feed env (bs @ [b]) = feed_block env b (feed env bs)"
  by (simp add: feed_def)

lemma payloadSize_pos: "0 < payloadSize opts"
  by (simp add: payloadSize_def kReadBlockSize_def laneCapacity_def)

lemma job_actions_shape:
  assumes "is_reads fs j"
  obtains acts where "job_actions opts fs j = ASend (ctl_block BStart (of_nat j)) # acts"
    "loop_shape (payloadSize opts) (of_nat j) acts"
  using assms read_loop_shape [OF payloadSize_pos]
  by (auto simp: is_reads_def job_actions_def file_actions_def split: file_view.splits)

lemma jblocks_shape:
  assumes "is_reads fs j"
  obtains datas where "jblocks opts fs j = ctl_block BStart (of_nat j) # datas @
      [ctl_block (if job_good opts fs j then BComplete else BAbort) (of_nat j)]"
    "\<forall>b \<in> set datas. fb_kind b = BData \<and> fb_fileId b = of_nat j \<and> length (fb_data b) \<le> payloadSize opts"
proof -
  obtain acts where a: "job_actions opts fs j = ASend (ctl_block BStart (of_nat j)) # acts"
    and l: "loop_shape (payloadSize opts) (of_nat j) acts" using job_actions_shape [OF assms] .
  have "has_error acts \<longleftrightarrow> \<not> job_good opts fs j" using assms by (simp add: job_good_def a)
  with l that show ?thesis by (auto simp: loop_shape_def jblocks_def a split: if_splits)
qed

lemma da_fileId_tokenizeBlock [simp]: "da_fileId (tokenizeBlock env b d) = da_fileId d"
  by (simp add: tokenizeBlock_def case_prod_beta)

lemma feed_datas:
  assumes "\<forall>b \<in> set datas. fb_kind b = BData"
  shows "feed env (ctl_block BStart f # datas) = Some (fold (tokenizeBlock env) datas (fresh_document f))"
  using assms by (induction datas rule: rev_induct)
    (simp_all add: feed_def feed_block_def ctl_block_def)

lemma da_fileId_fold [simp]: "da_fileId (fold (tokenizeBlock env) datas d) = da_fileId d"
  by (induction datas arbitrary: d) auto

text \<open>Where an indexer can be in the blocks of one file: before the first one, before a data
  block with the document open, or before the closing block.\<close>

lemma jblocks_position:
  assumes "is_reads fs j" and "jblocks opts fs j = pr @ b # rest"
  obtains (start) "fb_kind b = BStart" "fb_fileId b = of_nat j" "pr = []" "rest \<noteq> []"
  | (data) d where "fb_kind b = BData" "feed env pr = Some d" "da_fileId d = fb_fileId b" "rest \<noteq> []"
  | (fin) d where "fb_kind b = (if job_good opts fs j then BComplete else BAbort)"
      "feed env pr = Some d" "da_fileId d = fb_fileId b" "rest = []" "d = job_doc env opts fs j"
proof -
  obtain datas where jb: "jblocks opts fs j = ctl_block BStart (of_nat j) # datas @
      [ctl_block (if job_good opts fs j then BComplete else BAbort) (of_nat j)]"
    and ds: "\<forall>b \<in> set datas. fb_kind b = BData \<and> fb_fileId b = of_nat j \<and> length (fb_data b) \<le> payloadSize opts"
    using jblocks_shape [OF assms(1)] .
  show thesis
  proof (cases pr)
    case Nil
    with jb assms(2) show thesis by (intro start) (auto simp: ctl_block_def)
  next
    case (Cons x pr')
    with jb assms(2) have x: "x = ctl_block BStart (of_nat j)"
      and eq: "datas @ [ctl_block (if job_good opts fs j then BComplete else BAbort) (of_nat j)] = pr' @ b # rest" by auto
    show thesis
    proof (cases rest rule: rev_cases)
      case Nil
      with eq have "pr' = datas" "b = ctl_block (if job_good opts fs j then BComplete else BAbort) (of_nat j)" by auto
      with Nil x Cons ds jb show thesis
        using feed_datas [of datas env "of_nat j"] by (intro fin) (auto simp: ctl_block_def fresh_document_def job_doc_def)
    next
      case (snoc rest' y)
      with eq have d: "datas = pr' @ b # rest'" by simp
      with ds feed_datas [of pr' env "of_nat j"] x Cons snoc show thesis
        by (intro data) (auto simp: fresh_document_def)
    qed
  qed
qed

lemma jblocks_weight:
  assumes "is_reads fs j" and "b \<in> set (jblocks opts fs j)"
  shows "block_weight b \<le> laneCapacity opts"
proof -
  have "payloadSize opts \<le> laneCapacity opts" "0 < laneCapacity opts" by (simp_all add: payloadSize_def laneCapacity_def)
  moreover obtain datas where "jblocks opts fs j = ctl_block BStart (of_nat j) # datas @
      [ctl_block (if job_good opts fs j then BComplete else BAbort) (of_nat j)]"
    "\<forall>b \<in> set datas. fb_kind b = BData \<and> fb_fileId b = of_nat j \<and> length (fb_data b) \<le> payloadSize opts"
    using jblocks_shape [OF assms(1)] .
  ultimately show ?thesis using assms(2) by (fastforce simp: block_weight_def ctl_block_def split: if_splits)
qed

end
