(* ===== verification/BatchRun.thy ===== *)
theory BatchRun
  imports BatchPipeline "HOL-Library.Multiset"
begin

text \<open>
  What the threads of the full rebuild achieve, for every interleaving: each file is bound to
  one worker at a time and its blocks reach that worker's indexer complete and in order, so
  the indexer's own checks never fail; when all threads have ended without a fatal error,
  every readable file was committed exactly once and every other file reported exactly once;
  and every run ends, because a measure decreases with every step and an unfinished pipeline
  always has a step.

  \<open>bp_frame\<close> holds in every reachable state. While no thread has failed, \<open>bp_control\<close> relates
  workers, lanes and readers, \<open>bp_commits\<close> and \<open>bp_reports\<close> account for the files. Their
  auxiliary arguments are the file a worker is bound to, the actions its reader has left, and
  the files each worker has committed.
\<close>

section \<open>Sums over threads\<close>

lemma sum_upd:
  fixes f :: "'a \<Rightarrow> 'b :: cancel_comm_monoid_add"
  assumes "w < (k :: nat)"
  shows "(\<Sum>v<k. f ((g(w := x)) v)) + f (g w) = (\<Sum>v<k. f (g v)) + f x"
proof -
  have "(\<Sum>v<k. f ((g(w := x)) v)) = f x + (\<Sum>v\<in>{..<k} - {w}. f (g v))"
    using assms by (subst sum.remove [of _ w]) (auto intro!: sum.cong)
  moreover have "(\<Sum>v<k. f (g v)) = f (g w) + (\<Sum>v\<in>{..<k} - {w}. f (g v))"
    using assms by (subst sum.remove [of _ w]) auto
  ultimately show ?thesis by (simp add: ac_simps)
qed

lemma sum_list_upd:
  fixes f :: "'a \<Rightarrow> 'b :: cancel_comm_monoid_add"
  assumes "w < length xs"
  shows "(\<Sum>v<length xs. f (xs[w := x] ! v)) + f (xs ! w) = (\<Sum>v<length xs. f (xs ! v)) + f x"
proof -
  have "(\<Sum>v<length xs. f (xs[w := x] ! v)) = (\<Sum>v<length xs. f (((\<lambda>v. xs ! v)(w := x)) v))"
    using assms by (intro sum.cong) (auto simp: nth_list_update)
  with sum_upd [OF assms, of f "\<lambda>v. xs ! v" x] show ?thesis by simp
qed

section \<open>The frame\<close>

definition reader_frame :: "batch_options \<Rightarrow> (wstring \<times> file_view) list \<Rightarrow> reader_pc \<Rightarrow> bool" where
  "reader_frame opts fs pc =
     (case pc of
        RdOpened j \<Rightarrow> j < length fs \<and> is_reads fs j
      | RdSending j w rest \<Rightarrow> j < length fs \<and> is_reads fs j \<and> w < bo_indexerThreads opts \<and> rest \<noteq> [] \<and>
          (\<exists>pre. job_actions opts fs j = pre @ rest)
      | _ \<Rightarrow> True)"

definition running :: "reader_pc \<Rightarrow> nat" where
  "running pc = (if pc = RdDone then 0 else 1)"

definition lanes_ok :: "nat \<Rightarrow> bool \<Rightarrow> file_block byte_queue list \<Rightarrow> bool" where
  "lanes_ok capacity c lanes \<longleftrightarrow>
     (\<forall>q \<in> set lanes. bq_invar q \<and> q_capacityBytes q = capacity \<and> (q_cancelled q \<longleftrightarrow> c))"

definition bp_frame :: "batch_options \<Rightarrow> (wstring \<times> file_view) list \<Rightarrow> pipeline \<Rightarrow> bool" where
  "bp_frame opts fs s \<longleftrightarrow>
     length (bp_lanes s) = bo_indexerThreads opts \<and> length (bp_indexers s) = bo_indexerThreads opts \<and>
     length (bp_localDictionaries s) = bo_indexerThreads opts \<and>
     length (bp_readers s) = bo_readerThreads opts \<and> length (bp_documentMetadata s) = length fs \<and>
     lanes_ok (laneCapacity opts) (bp_fatalError s \<noteq> None) (bp_lanes s) \<and>
     (aw_cancelled (bp_workers s) \<longleftrightarrow> bp_fatalError s \<noteq> None) \<and>
     set (aw_workers (bp_workers s)) \<subseteq> {..<bo_indexerThreads opts} \<and>
     list_all (reader_frame opts fs) (bp_readers s) \<and>
     bp_readersRemaining s = (\<Sum>r<bo_readerThreads opts. running (bp_readers s ! r))"

lemma list_all_update: "list_all P xs \<Longrightarrow> P y \<Longrightarrow> list_all P (xs[i := y])"
  unfolding list_all_iff using set_update_subset_insert [of xs i y] by blast

lemma lanes_ok_update:
  "lanes_ok cap c lanes \<Longrightarrow> bq_invar q \<Longrightarrow> q_capacityBytes q = cap \<Longrightarrow> q_cancelled q = c \<Longrightarrow> lanes_ok cap c (lanes[w := q])"
  unfolding lanes_ok_def using set_update_subset_insert [of lanes w q] by blast

lemma lanes_ok_cancel: "lanes_ok cap c lanes \<Longrightarrow> lanes_ok cap True (map bq_cancel lanes)"
  unfolding lanes_ok_def using bq.cancel_laws by auto

lemma lanes_ok_close: "lanes_ok cap c lanes \<Longrightarrow> lanes_ok cap c (map bq_close lanes)"
  unfolding lanes_ok_def using bq.close_laws by auto

lemma bp_frame_init:
  assumes "0 < bo_indexerThreads opts"
  shows "bp_frame opts fs (bp_init opts (length fs))"
proof -
  have "lanes_ok (laneCapacity opts) False (replicate k (bq_new (laneCapacity opts)))" for k
    by (simp add: lanes_ok_def laneCapacity_def)
  moreover have "list_all (reader_frame opts fs) (replicate k RdIdle)" for k
    by (simp add: list_all_iff reader_frame_def)
  ultimately show ?thesis
    by (auto simp: bp_frame_def bp_init_def aw_new_def running_def)
qed

lemma setFatal_fatal [simp]: "bp_fatalError (setFatal e s) \<noteq> None"
  by (simp add: setFatal_def split: option.splits)

lemma bp_frame_setFatal:
  assumes "bp_frame opts fs s"
  shows "bp_frame opts fs (setFatal e s)"
proof -
  have "lanes_ok (laneCapacity opts) True (map bq_cancel (bp_lanes s))"
    using assms by (auto simp: bp_frame_def intro: lanes_ok_cancel)
  moreover have "bp_fatalError (setFatal e s) \<noteq> None" by simp
  ultimately show ?thesis
    using assms unfolding bp_frame_def by (simp add: setFatal_def aw_cancel_def)
qed

lemma bp_frame_addFileError: "bp_frame opts fs s \<Longrightarrow> bp_frame opts fs (addFileError f p m s)"
  by (simp add: bp_frame_def addFileError_def)

lemma bp_frame_set_indexer: "bp_frame opts fs s \<Longrightarrow> bp_frame opts fs (set_indexer w pc s)"
  by (simp add: bp_frame_def set_indexer_def)

lemma remaining_update:
  assumes "bp_frame opts fs s" and "r < length (bp_readers s)"
  shows "(\<Sum>v<bo_readerThreads opts. running ((bp_readers s)[r := pc] ! v)) + running (bp_readers s ! r) =
    bp_readersRemaining s + running pc"
  using assms sum_list_upd [OF assms(2), of running pc] by (simp add: bp_frame_def)

lemma bp_frame_set_reader:
  assumes "bp_frame opts fs s" and "r < length (bp_readers s)" and "bp_readers s ! r \<noteq> RdDone"
    and "reader_frame opts fs pc" and "pc \<noteq> RdDone"
  shows "bp_frame opts fs (set_reader r pc s)"
proof -
  have "(\<Sum>v<bo_readerThreads opts. running ((bp_readers s)[r := pc] ! v)) = bp_readersRemaining s"
    using remaining_update [OF assms(1,2), of pc] assms(3,5) by (simp add: running_def)
  then show ?thesis using assms unfolding bp_frame_def by (simp add: set_reader_def list_all_update)
qed

lemma bp_frame_reader_exit:
  assumes "bp_frame opts fs s" and "r < length (bp_readers s)" and "bp_readers s ! r \<noteq> RdDone"
  shows "bp_frame opts fs (reader_exit r s)"
proof -
  have "(\<Sum>v<bo_readerThreads opts. running ((bp_readers s)[r := RdDone] ! v)) = bp_readersRemaining s - 1"
    using remaining_update [OF assms(1,2), of RdDone] assms(3) by (simp add: running_def)
  moreover have "reader_frame opts fs RdDone" by (simp add: reader_frame_def)
  ultimately show ?thesis using assms unfolding bp_frame_def
    by (simp add: reader_exit_def Let_def list_all_update lanes_ok_close)
qed

lemma bp_frame_set_lane:
  assumes "bp_frame opts fs s" and "bq_invar q" and "q_capacityBytes q = laneCapacity opts"
    and "q_cancelled q \<longleftrightarrow> bp_fatalError s \<noteq> None"
  shows "bp_frame opts fs (s\<lparr>bp_lanes := (bp_lanes s)[w := q]\<rparr>)"
  using assms by (simp add: bp_frame_def lanes_ok_update)

lemma bp_frame_lane:
  assumes "bp_frame opts fs s" and "w < bo_indexerThreads opts"
  shows "bq_invar (bp_lanes s ! w)" "q_capacityBytes (bp_lanes s ! w) = laneCapacity opts"
    "q_cancelled (bp_lanes s ! w) \<longleftrightarrow> bp_fatalError s \<noteq> None"
  using assms by (simp_all add: bp_frame_def lanes_ok_def)

lemma bp_frame_reader:
  "bp_frame opts fs s \<Longrightarrow> r < length (bp_readers s) \<Longrightarrow> reader_frame opts fs (bp_readers s ! r)"
  by (simp add: bp_frame_def list_all_length)

lemma fatal_kept [simp]:
  "bp_fatalError (reader_exit r s) = bp_fatalError s"
  "bp_fatalError (set_reader r pc s) = bp_fatalError s"
  "bp_fatalError (set_indexer w ic s) = bp_fatalError s"
  "bp_fatalError (addFileError f p m s) = bp_fatalError s"
  by (simp_all add: reader_exit_def set_reader_def set_indexer_def addFileError_def Let_def)

lemma fields_kept [simp]:
  "bp_readers (setFatal e s) = bp_readers s" "bp_indexers (setFatal e s) = bp_indexers s"
  "bp_readers (set_indexer w ic s) = bp_readers s" "bp_readers (addFileError f p m s) = bp_readers s"
  "bp_indexers (set_reader r pc s) = bp_indexers s" "bp_indexers (addFileError f p m s) = bp_indexers s"
  "bp_lanes (set_indexer w ic s) = bp_lanes s" "bp_lanes (set_reader r pc s) = bp_lanes s"
  "bp_lanes (addFileError f p m s) = bp_lanes s"
  "bp_workers (set_indexer w ic s) = bp_workers s" "bp_workers (set_reader r pc s) = bp_workers s"
  "bp_workers (addFileError f p m s) = bp_workers s"
  "bp_indexers (reader_exit r s) = bp_indexers s" "bp_workers (reader_exit r s) = bp_workers s"
  by (simp_all add: setFatal_def set_indexer_def set_reader_def addFileError_def reader_exit_def Let_def)

lemma take_job_frame:
  assumes fr: "bp_frame opts fs s" and r: "r < length (bp_readers s)" and pc: "bp_readers s ! r = RdIdle"
  shows "bp_frame opts fs (take_job fs r s)"
proof -
  let ?s = "s\<lparr>bp_nextJob := bp_nextJob s + 1\<rparr>"
  have fr': "bp_frame opts fs ?s" using fr by (simp add: bp_frame_def)
  have meta: "bp_frame opts fs (?s\<lparr>bp_documentMetadata := (bp_documentMetadata s)[j := m]\<rparr>)" for j m
    using fr by (simp add: bp_frame_def)
  show ?thesis
  proof (cases "bp_nextJob s \<ge> length fs")
    case True
    with bp_frame_reader_exit [OF fr', of r] r pc show ?thesis by (simp add: take_job_def Let_def)
  next
    case False
    then have *: "reader_frame opts fs (RdOpened (bp_nextJob s))" if "snd (fs ! bp_nextJob s) = Reads m b k" for m b k
      using that by (simp add: reader_frame_def is_reads_def)
    show ?thesis
    proof (cases "snd (fs ! bp_nextJob s)")
      case (Reads m b k)
      with False * [OF Reads] bp_frame_set_reader [OF meta, of r] r pc show ?thesis by (simp add: take_job_def Let_def)
    qed (use False fr' meta in \<open>simp_all add: take_job_def Let_def bp_frame_addFileError\<close>)
  qed
qed

lemma acquire_frame:
  assumes fr: "bp_frame opts fs s" and r: "r < length (bp_readers s)" and pc: "bp_readers s ! r = RdOpened j"
    and st: "acquire_worker opts fs r j s = Some s'"
  shows "bp_frame opts fs s'"
proof (cases "aw_acquire (bp_workers s)")
  case (Acquired w a)
  have j: "j < length fs" "is_reads fs j" using bp_frame_reader [OF fr r] pc by (simp_all add: reader_frame_def)
  have w: "aw_workers (bp_workers s) = w # aw_workers a" "\<not> aw_cancelled (bp_workers s)" "\<not> aw_cancelled a"
    using aw_acquire_cases [OF Acquired] by auto
  then have fr': "bp_frame opts fs (s\<lparr>bp_workers := a\<rparr>)" using fr unfolding bp_frame_def by simp
  have "w < bo_indexerThreads opts" using fr w(1) by (simp add: bp_frame_def)
  moreover have "job_actions opts fs j \<noteq> []" using job_actions_shape [OF j(2), of opts] by fastforce
  ultimately have "reader_frame opts fs (RdSending j w (job_actions opts fs j))"
    using j by (simp add: reader_frame_def)
  with bp_frame_set_reader [OF fr', of r] r pc st Acquired show ?thesis by (auto simp: acquire_worker_def)
next
  case AcquireNone
  with st bp_frame_reader_exit [OF fr r] pc show ?thesis by (auto simp: acquire_worker_def)
qed (use st in \<open>simp add: acquire_worker_def\<close>)

lemma after_action_frame:
  "reader_frame opts fs (RdSending j w (a # rest)) \<Longrightarrow> reader_frame opts fs (after_action j w rest)"
  "after_action j w rest \<noteq> RdDone"
  by (auto simp: reader_frame_def after_action_def)

lemma do_action_frame:
  assumes fr: "bp_frame opts fs s" and r: "r < length (bp_readers s)"
    and pc: "bp_readers s ! r = RdSending j w (a # rest)" and st: "do_action fs r j w a rest s = Some s'"
  shows "bp_frame opts fs s'"
proof -
  have rf: "reader_frame opts fs (RdSending j w (a # rest))" using bp_frame_reader [OF fr r] pc by simp
  then have w: "w < bo_indexerThreads opts" by (simp add: reader_frame_def)
  note aa = after_action_frame(1) [OF rf] after_action_frame(2) [of j w rest]
  show ?thesis
  proof (cases a)
    case (ACount n)
    have "bp_frame opts fs (s\<lparr>bp_bytesRead := b\<rparr>)" for b using fr by (simp add: bp_frame_def)
    from bp_frame_set_reader [OF this _ _ aa, of r] r pc st ACount show ?thesis by (auto simp: do_action_def)
  next
    case (AError m)
    from bp_frame_set_reader [OF bp_frame_addFileError [OF fr] _ _ aa, of r] r pc st AError
    show ?thesis by (auto simp: do_action_def)
  next
    case (ASend b)
    show ?thesis
    proof (cases "bq_push b (block_weight b) (bp_lanes s ! w)")
      case PushThrows
      with st ASend bp_frame_reader_exit [OF bp_frame_setFatal [OF fr], of r] r pc show ?thesis
        by (auto simp: do_action_def)
    next
      case PushRefused
      with st ASend bp_frame_reader_exit [OF fr r] pc show ?thesis by (auto simp: do_action_def)
    next
      case (Pushed q)
      have "bp_frame opts fs (s\<lparr>bp_lanes := (bp_lanes s)[w := q]\<rparr>)"
        using bq.push_items [OF bp_frame_lane(1) [OF fr w] Pushed] bp_frame_lane(2,3) [OF fr w] Pushed
        by (intro bp_frame_set_lane [OF fr]) simp_all
      from bp_frame_set_reader [OF this _ _ aa, of r] r pc st ASend Pushed show ?thesis by (auto simp: do_action_def)
    qed (use st ASend in \<open>simp add: do_action_def\<close>)
  qed
qed

lemma indexer_frame:
  assumes fr: "bp_frame opts fs s" and w: "w < length (bp_indexers s)" and st: "indexer_step env w s = Some s'"
  shows "bp_frame opts fs s'"
proof (cases "bp_indexers s ! w")
  case (IxPop document)
  have w': "w < bo_indexerThreads opts" using fr w by (simp add: bp_frame_def)
  show ?thesis
  proof (cases "bq_pop (bp_lanes s ! w)")
    case (Popped b q)
    have "bp_frame opts fs (s\<lparr>bp_lanes := (bp_lanes s)[w := q]\<rparr>)"
      using bq.pop_items [OF bp_frame_lane(1) [OF fr w'] Popped] bp_frame_lane(2,3) [OF fr w'] Popped
      by (intro bp_frame_set_lane [OF fr]) simp_all
    with st IxPop Popped show ?thesis
      by (auto simp: indexer_step_def pop_block_def bp_frame_set_indexer)
  qed (use st IxPop fr in \<open>auto simp: indexer_step_def pop_block_def intro!: bp_frame_set_indexer bp_frame_setFatal\<close>)
next
  case (IxHave document block)
  have "bp_frame opts fs (s\<lparr>bp_workers := aw_release w (bp_workers s)\<rparr>)"
    using fr w by (auto simp: bp_frame_def aw_release_def)
  moreover have "bp_frame opts fs (s\<lparr>bp_localDictionaries := (bp_localDictionaries s)[w := d],
      bp_indexedFiles := i, bp_workers := aw_release w (bp_workers s)\<rparr>)" for d i
    using fr w by (auto simp: bp_frame_def aw_release_def)
  ultimately have "bp_frame opts fs (handle_block env w document block s)"
    using fr by (auto simp: handle_block_def intro!: bp_frame_set_indexer bp_frame_setFatal split: block_kind.splits)
  with st IxHave show ?thesis by (simp add: indexer_step_def)
qed (use st in \<open>simp add: indexer_step_def\<close>)

lemma bp_frame_step:
  assumes "bp_step env opts fs s s'" and fr: "bp_frame opts fs s"
  shows "bp_frame opts fs s'"
  using assms(1)
proof cases
  case (reader r)
  have "bp_frame opts fs (set_reader r RdIdle s)" if "bp_readers s ! r \<noteq> RdDone"
    using bp_frame_set_reader [OF fr reader(1) that] by (simp add: reader_frame_def)
  with reader take_job_frame [OF fr reader(1)] acquire_frame [OF fr reader(1)] do_action_frame [OF fr reader(1)]
  show ?thesis by (auto simp: reader_step_def split: reader_pc.splits list.splits)
next
  case (indexer w)
  with fr show ?thesis by (rule_tac indexer_frame)
next
  case (reader_throws r)
  with bp_frame_reader_exit [OF bp_frame_setFatal [OF fr], of r] show ?thesis by simp
next
  case (indexer_throws w)
  with fr show ?thesis by (simp add: bp_frame_set_indexer bp_frame_setFatal)
qed

lemma bp_reach_frame: "bp_reach env opts fs s \<Longrightarrow> 0 < bo_indexerThreads opts \<Longrightarrow> bp_frame opts fs s"
  by (induction rule: bp_reach.induct) (auto intro: bp_frame_init bp_frame_step)

section \<open>Steps of a pipeline in which no thread has failed\<close>

text \<open>The steps after which there is still no fatal error, and the state each leads to.\<close>

lemma bp_step_cases:
  assumes st: "bp_step env opts fs s s'" and fr: "bp_frame opts fs s" and ok: "bp_fatalError s' = None"
  obtains (exit) r where "r < bo_readerThreads opts" "bp_readers s ! r = RdIdle" "length fs \<le> bp_nextJob s"
      "s' = reader_exit r (s\<lparr>bp_nextJob := bp_nextJob s + 1\<rparr>)"
  | (unreadable) r m message where "r < bo_readerThreads opts" "bp_readers s ! r = RdIdle"
      "bp_nextJob s < length fs" "\<not> is_reads fs (bp_nextJob s)"
      "(snd (fs ! bp_nextJob s) = MetaFails message \<and> m = bp_documentMetadata s) \<or>
       (\<exists>meta. snd (fs ! bp_nextJob s) = OpenFails meta \<and> message = ''file not found'' \<and>
          m = (bp_documentMetadata s)[bp_nextJob s := meta])"
      "s' = addFileError (of_nat (bp_nextJob s)) (fst (fs ! bp_nextJob s)) message
         (s\<lparr>bp_nextJob := bp_nextJob s + 1, bp_documentMetadata := m\<rparr>)"
  | (opened) r meta bytes k where "r < bo_readerThreads opts" "bp_readers s ! r = RdIdle"
      "bp_nextJob s < length fs" "snd (fs ! bp_nextJob s) = Reads meta bytes k"
      "s' = set_reader r (RdOpened (bp_nextJob s)) (s\<lparr>bp_nextJob := bp_nextJob s + 1,
         bp_documentMetadata := (bp_documentMetadata s)[bp_nextJob s := meta]\<rparr>)"
  | (acquired) r j w a where "r < bo_readerThreads opts" "bp_readers s ! r = RdOpened j"
      "aw_workers (bp_workers s) = w # aw_workers a" "\<not> aw_cancelled a"
      "s' = set_reader r (RdSending j w (job_actions opts fs j)) (s\<lparr>bp_workers := a\<rparr>)"
  | (counted) r j w n rest where "r < bo_readerThreads opts" "bp_readers s ! r = RdSending j w (ACount n # rest)"
      "s' = set_reader r (after_action j w rest) (s\<lparr>bp_bytesRead := bp_bytesRead s + of_nat n\<rparr>)"
  | (reported) r j w m rest where "r < bo_readerThreads opts" "bp_readers s ! r = RdSending j w (AError m # rest)"
      "s' = set_reader r (after_action j w rest) (addFileError (of_nat j) (fst (fs ! j)) m s)"
  | (pushed) r j w b rest q where "r < bo_readerThreads opts" "bp_readers s ! r = RdSending j w (ASend b # rest)"
      "bq_push b (block_weight b) (bp_lanes s ! w) = Pushed q"
      "s' = set_reader r (after_action j w rest) (s\<lparr>bp_lanes := (bp_lanes s)[w := q]\<rparr>)"
  | (refused) r j w b rest where "r < bo_readerThreads opts" "bp_readers s ! r = RdSending j w (ASend b # rest)"
      "bq_push b (block_weight b) (bp_lanes s ! w) = PushRefused" "s' = reader_exit r s"
  | (popped) w doc b q where "w < bo_indexerThreads opts" "bp_indexers s ! w = IxPop doc"
      "bq_pop (bp_lanes s ! w) = Popped b q"
      "s' = set_indexer w (IxHave doc b) (s\<lparr>bp_lanes := (bp_lanes s)[w := q]\<rparr>)"
  | (ended) w where "w < bo_indexerThreads opts" "bp_indexers s ! w = IxPop None"
      "bq_pop (bp_lanes s ! w) = PopEnd" "s' = set_indexer w IxDone s"
  | (handled) w doc b where "w < bo_indexerThreads opts" "bp_indexers s ! w = IxHave doc b"
      "s' = handle_block env w doc b s"
  using st
proof cases
  case (reader r)
  have r: "r < bo_readerThreads opts" using reader(1) fr by (simp add: bp_frame_def)
  show thesis
  proof (cases "bp_readers s ! r")
    case RdIdle
    then have s': "s' = take_job fs r s" using reader(2) by (simp add: reader_step_def)
    show thesis
    proof (cases "length fs \<le> bp_nextJob s")
      case True
      with r RdIdle s' show thesis by (intro exit) (simp_all add: take_job_def Let_def)
    next
      case False
      show thesis
      proof (cases "snd (fs ! bp_nextJob s)")
        case (Reads meta bytes k)
        with False r RdIdle s' show thesis by (intro opened) (simp_all add: take_job_def Let_def)
      next
        case (MetaFails m)
        with False r RdIdle s' show thesis
          by (intro unreadable [of r m "bp_documentMetadata s"]) (simp_all add: take_job_def Let_def is_reads_def)
      next
        case (OpenFails meta)
        with False r RdIdle s' show thesis
          by (intro unreadable [of r "''file not found''" "(bp_documentMetadata s)[bp_nextJob s := meta]"])
            (simp_all add: take_job_def Let_def is_reads_def)
      qed
    qed
  next
    case (RdOpened j)
    then have st': "acquire_worker opts fs r j s = Some s'" using reader(2) by (simp add: reader_step_def)
    show thesis
    proof (cases "aw_acquire (bp_workers s)")
      case (Acquired w a)
      with st' aw_acquire_cases [OF Acquired] r RdOpened show thesis
        by (intro acquired [of r j w a]) (simp_all add: acquire_worker_def)
    next
      case AcquireNone
      with st' ok have "bp_fatalError s = None" by (auto simp: acquire_worker_def)
      with AcquireNone fr show thesis by (auto simp: bp_frame_def aw_acquire_def split: if_splits)
    qed (use st' in \<open>simp add: acquire_worker_def\<close>)
  next
    case (RdSending j w acts)
    then have "acts \<noteq> []" using bp_frame_reader [OF fr reader(1)] by (simp add: reader_frame_def)
    then obtain a rest where acts: "acts = a # rest" by (cases acts) auto
    with RdSending have st': "do_action fs r j w a rest s = Some s'" using reader(2) by (simp add: reader_step_def)
    show thesis
    proof (cases a)
      case (ASend b)
      show thesis
      proof (cases "bq_push b (block_weight b) (bp_lanes s ! w)")
        case PushThrows
        with st' ASend ok show thesis by (auto simp: do_action_def)
      qed (use st' ASend r RdSending acts refused pushed in \<open>auto simp: do_action_def\<close>)
    qed (use st' r RdSending acts counted reported in \<open>auto simp: do_action_def\<close>)
  qed (use reader in \<open>simp add: reader_step_def\<close>)
next
  case (indexer w)
  have w: "w < bo_indexerThreads opts" using indexer(1) fr by (simp add: bp_frame_def)
  show thesis
  proof (cases "bp_indexers s ! w")
    case (IxPop doc)
    then have st': "pop_block w doc s = Some s'" using indexer(2) by (simp add: indexer_step_def)
    show thesis
    proof (cases "bq_pop (bp_lanes s ! w)")
      case PopEnd
      with st' ok have "doc = None" by (auto simp: pop_block_def split: if_splits)
      with st' PopEnd have "s' = set_indexer w IxDone s" by (auto simp: pop_block_def)
      with PopEnd w IxPop \<open>doc = None\<close> show thesis by (intro ended) simp_all
    qed (use st' w IxPop popped in \<open>auto simp: pop_block_def\<close>)
  next
    case (IxHave doc b)
    with indexer(2) have "s' = handle_block env w doc b s" by (auto simp: indexer_step_def)
    with IxHave w show thesis by (intro handled)
  qed (use indexer in \<open>simp add: indexer_step_def\<close>)
qed (use ok in auto)

section \<open>Readers, workers and lanes\<close>

definition holders :: "(nat \<Rightarrow> nat option) \<Rightarrow> (nat \<Rightarrow> reader_action list) \<Rightarrow> reader_pc list \<Rightarrow> bool" where
  "holders cur rem readers \<longleftrightarrow>
     (\<forall>r < length readers. \<forall>j w rest. readers ! r = RdSending j w rest \<longrightarrow> rest \<noteq> [] \<and> cur w = Some j \<and> rem w = rest) \<and>
     (\<forall>w. rem w \<noteq> [] \<longrightarrow> (\<exists>r < length readers. \<exists>j. readers ! r = RdSending j w (rem w))) \<and>
     (\<forall>r < length readers. \<forall>r' < length readers. \<forall>j w rest j' rest'.
        readers ! r = RdSending j w rest \<longrightarrow> readers ! r' = RdSending j' w rest' \<longrightarrow> r = r')"

definition sending :: "reader_pc \<Rightarrow> bool" where
  "sending pc = (case pc of RdSending j w rest \<Rightarrow> True | _ \<Rightarrow> False)"

lemma sending_simps [simp]: "\<not> sending RdIdle" "\<not> sending RdDone" "\<not> sending (RdOpened j)" "sending (RdSending j w rest)"
  by (simp_all add: sending_def)

lemma holders_some: "holders cur rem readers \<Longrightarrow> rem w \<noteq> [] \<Longrightarrow>
    \<exists>r < length readers. \<exists>j. readers ! r = RdSending j w (rem w)"
  by (simp add: holders_def)

lemma holders_at: "holders cur rem readers \<Longrightarrow> r < length readers \<Longrightarrow> readers ! r = RdSending j w rest \<Longrightarrow>
    rest \<noteq> [] \<and> cur w = Some j \<and> rem w = rest"
  by (simp add: holders_def)

lemma holders_quiet:
  assumes h: "holders cur rem readers" and r: "r < length readers" "\<not> sending (readers ! r)" "\<not> sending pc"
  shows "holders cur rem (readers[r := pc])"
proof -
  have eq: "readers[r := pc] ! r' = RdSending j w rest \<longleftrightarrow> readers ! r' = RdSending j w rest"
    if "r' < length readers" for r' j w rest using r by (auto simp: nth_list_update)
  show ?thesis using h unfolding holders_def length_list_update by (simp add: eq cong: conj_cong)
qed

lemma holders_acquire:
  assumes h: "holders cur rem readers" and r: "r < length readers" "\<not> sending (readers ! r)"
    and w: "cur w = None" and acts: "acts \<noteq> []"
  shows "holders (cur(w := Some j)) (rem(w := acts)) (readers[r := RdSending j w acts])"
proof -
  have other: "v \<noteq> w" if "r' < length readers" "readers ! r' = RdSending i v rest" for r' i v rest
    using h that w unfolding holders_def by fastforce
  have eq: "readers[r := RdSending j w acts] ! r' = RdSending i v rest \<longleftrightarrow>
      (if r' = r then i = j \<and> v = w \<and> rest = acts else readers ! r' = RdSending i v rest)"
    if "r' < length readers" for r' i v rest using r that by (auto simp: nth_list_update)
  show ?thesis unfolding holders_def length_list_update
  proof (intro conjI allI impI)
    fix r' i v rest
    assume "r' < length readers" "readers[r := RdSending j w acts] ! r' = RdSending i v rest"
    then show "rest \<noteq> []" "(cur(w := Some j)) v = Some i" "(rem(w := acts)) v = rest"
      using h acts other [of r' i v rest] by (auto simp: eq holders_def split: if_splits)
  next
    fix v assume v: "(rem(w := acts)) v \<noteq> []"
    show "\<exists>r' < length readers. \<exists>i. readers[r := RdSending j w acts] ! r' = RdSending i v ((rem(w := acts)) v)"
    proof (cases "v = w")
      case True
      then show ?thesis using r(1) by (intro exI [of _ r]) simp
    next
      case False
      with v obtain r' i where r': "r' < length readers" "readers ! r' = RdSending i v (rem v)"
        using holders_some [OF h, of v] by auto
      then have "r' \<noteq> r" using r(2) by auto
      with r' False show ?thesis by (intro exI [of _ r']) (auto simp: nth_list_update)
    qed
  next
    fix r1 r2 i v rest i' rest'
    assume "r1 < length readers" "r2 < length readers" and "readers[r := RdSending j w acts] ! r1 = RdSending i v rest"
      "readers[r := RdSending j w acts] ! r2 = RdSending i' v rest'"
    then have a1: "if r1 = r then v = w else readers ! r1 = RdSending i v rest"
      and a2: "if r2 = r then v = w else readers ! r2 = RdSending i' v rest'"
      by (auto simp: eq split: if_splits)
    have old: "r1 = r2" if "readers ! r1 = RdSending i v rest" "readers ! r2 = RdSending i' v rest'"
      using h that \<open>r1 < length readers\<close> \<open>r2 < length readers\<close> unfolding holders_def by blast
    show "r1 = r2"
    proof (cases "r1 = r \<or> r2 = r")
      case True
      with a1 a2 other [of r1 i v rest, OF \<open>r1 < length readers\<close>] other [of r2 i' v rest', OF \<open>r2 < length readers\<close>] show ?thesis by (auto split: if_splits)
    next
      case False
      with a1 a2 old show ?thesis by simp
    qed
  qed
qed

lemma holders_advance:
  assumes h: "holders cur rem readers" and r: "r < length readers" "readers ! r = RdSending j w (a # rest)"
  shows "holders cur (rem(w := rest)) (readers[r := after_action j w rest])"
proof -
  have cw: "cur w = Some j" "rem w = a # rest" using h r unfolding holders_def by auto
  have other: "v \<noteq> w" if "r' < length readers" "r' \<noteq> r" "readers ! r' = RdSending i v rst" for r' i v rst
    using h that r unfolding holders_def by blast
  have eq: "readers[r := after_action j w rest] ! r' = RdSending i v rst \<longleftrightarrow>
      (if r' = r then rest \<noteq> [] \<and> i = j \<and> v = w \<and> rst = rest else readers ! r' = RdSending i v rst)"
    if "r' < length readers" for r' i v rst using r that by (auto simp: nth_list_update after_action_def)
  show ?thesis unfolding holders_def length_list_update
  proof (intro conjI allI impI)
    fix r' i v rst
    assume "r' < length readers" "readers[r := after_action j w rest] ! r' = RdSending i v rst"
    then show "rst \<noteq> []" "cur v = Some i" "(rem(w := rest)) v = rst"
      using h cw other [of r' i v rst] by (auto simp: eq holders_def split: if_splits)
  next
    fix v assume v: "(rem(w := rest)) v \<noteq> []"
    show "\<exists>r' < length readers. \<exists>i. readers[r := after_action j w rest] ! r' = RdSending i v ((rem(w := rest)) v)"
    proof (cases "v = w")
      case True
      with v r show ?thesis by (intro exI [of _ r]) (simp add: after_action_def)
    next
      case False
      with v obtain r' i where r': "r' < length readers" "readers ! r' = RdSending i v (rem v)"
        using holders_some [OF h, of v] by auto
      then have "r' \<noteq> r" using r(2) False by auto
      with r' False show ?thesis by (intro exI [of _ r']) (auto simp: nth_list_update)
    qed
  next
    fix r1 r2 i v rst i' rst'
    assume "r1 < length readers" "r2 < length readers" and "readers[r := after_action j w rest] ! r1 = RdSending i v rst"
      "readers[r := after_action j w rest] ! r2 = RdSending i' v rst'"
    then have a1: "if r1 = r then v = w else readers ! r1 = RdSending i v rst"
      and a2: "if r2 = r then v = w else readers ! r2 = RdSending i' v rst'"
      by (auto simp: eq split: if_splits)
    have old: "r1 = r2" if "readers ! r1 = RdSending i v rst" "readers ! r2 = RdSending i' v rst'"
      using h that \<open>r1 < length readers\<close> \<open>r2 < length readers\<close> unfolding holders_def by blast
    show "r1 = r2"
    proof (cases "r1 = r \<or> r2 = r")
      case True
      with a1 a2 other [of r1 i v rst, OF \<open>r1 < length readers\<close>] other [of r2 i' v rst', OF \<open>r2 < length readers\<close>] show ?thesis by (auto split: if_splits)
    next
      case False
      with a1 a2 old show ?thesis by simp
    qed
  qed
qed

lemma holders_release:
  assumes "holders cur rem readers" and "rem w = []"
  shows "holders (cur(w := None)) rem readers"
proof -
  have "v \<noteq> w" if "r < length readers" "readers ! r = RdSending i v rest" for r i v rest
    using assms that unfolding holders_def by blast
  with assms(1) show ?thesis unfolding holders_def by simp
qed

text \<open>What an indexer has in hand: its document, and the block it has taken.\<close>

definition ix_view :: "indexer_pc \<Rightarrow> (document_acc option \<times> file_block list) option" where
  "ix_view pc = (case pc of IxPop d \<Rightarrow> Some (d, []) | IxHave d b \<Rightarrow> Some (d, [b]) | IxDone \<Rightarrow> None)"

text \<open>A bound worker: its indexer has processed the blocks \<open>pr\<close> of the file, and the block in
  hand, the lane and the reader's remaining actions hold the others, in order.\<close>

definition bound_ok ::
  "tok_env \<Rightarrow> batch_options \<Rightarrow> (wstring \<times> file_view) list \<Rightarrow> nat \<Rightarrow> reader_action list \<Rightarrow> indexer_pc \<Rightarrow>
   file_block list \<Rightarrow> bool" where
  "bound_ok env opts fs j rest pc queued \<longleftrightarrow> j < length fs \<and> is_reads fs j \<and>
     (\<exists>hand pr pre. ix_view pc = Some (feed env pr, hand) \<and> job_actions opts fs j = pre @ rest \<and>
        action_blocks pre = pr @ hand @ queued \<and> hand @ queued @ action_blocks rest \<noteq> [])"

definition free_ok :: "reader_action list \<Rightarrow> indexer_pc \<Rightarrow> file_block list \<Rightarrow> bool" where
  "free_ok rest pc queued \<longleftrightarrow> rest = [] \<and> (pc = IxPop None \<or> pc = IxDone) \<and> queued = []"

definition worker_ok ::
  "tok_env \<Rightarrow> batch_options \<Rightarrow> (wstring \<times> file_view) list \<Rightarrow> nat option \<Rightarrow> reader_action list \<Rightarrow> indexer_pc \<Rightarrow>
   file_block list \<Rightarrow> bool" where
  "worker_ok env opts fs job rest pc queued =
     (case job of None \<Rightarrow> free_ok rest pc queued | Some j \<Rightarrow> bound_ok env opts fs j rest pc queued)"

definition bp_control ::
  "tok_env \<Rightarrow> batch_options \<Rightarrow> (wstring \<times> file_view) list \<Rightarrow> (nat \<Rightarrow> nat option) \<Rightarrow> (nat \<Rightarrow> reader_action list) \<Rightarrow>
   pipeline \<Rightarrow> bool" where
  "bp_control env opts fs cur rem s \<longleftrightarrow>
     distinct (aw_workers (bp_workers s)) \<and>
     set (aw_workers (bp_workers s)) = {w. w < bo_indexerThreads opts \<and> cur w = None} \<and>
     holders cur rem (bp_readers s) \<and>
     (\<forall>w < bo_indexerThreads opts.
        worker_ok env opts fs (cur w) (rem w) (bp_indexers s ! w) (bq_items (bp_lanes s ! w)) \<and>
        (q_closed (bp_lanes s ! w) \<longleftrightarrow> bp_readersRemaining s = 0) \<and>
        (bp_indexers s ! w = IxDone \<longrightarrow> bp_readersRemaining s = 0))"

lemma remaining_pos:
  assumes "bp_frame opts fs s" and "r < bo_readerThreads opts" and "bp_readers s ! r \<noteq> RdDone"
  shows "0 < bp_readersRemaining s"
proof -
  have "running (bp_readers s ! r) \<le> (\<Sum>v<bo_readerThreads opts. running (bp_readers s ! v))"
    using assms(2) by (intro member_le_sum) auto
  with assms(1,3) show ?thesis by (simp add: bp_frame_def running_def)
qed

lemma control_init:
  "0 < bo_readerThreads opts \<Longrightarrow> bp_control env opts fs (\<lambda>w. None) (\<lambda>w. []) (bp_init opts (length fs))"
  by (auto simp: bp_control_def bp_init_def aw_new_def holders_def worker_ok_def free_ok_def bq_new_def bq_items_def)

lemma control_quiet:
  assumes c: "bp_control env opts fs cur rem s" and r: "r < length (bp_readers s)"
    and pc: "\<not> sending (bp_readers s ! r)" "\<not> sending pc"
    and s': "bp_workers s' = bp_workers s" "bp_lanes s' = bp_lanes s" "bp_indexers s' = bp_indexers s"
      "bp_readersRemaining s' = bp_readersRemaining s" "bp_readers s' = (bp_readers s)[r := pc]"
  shows "bp_control env opts fs cur rem s'"
  using c holders_quiet [OF _ r pc, of cur rem] unfolding bp_control_def s' by blast

lemma control_exit:
  assumes c: "bp_control env opts fs cur rem s" and fr: "bp_frame opts fs s"
    and r: "r < bo_readerThreads opts" "bp_readers s ! r = RdIdle"
  shows "bp_control env opts fs cur rem (reader_exit r s)"
proof -
  have len: "r < length (bp_readers s)" "length (bp_lanes s) = bo_indexerThreads opts"
    using fr r(1) by (simp_all add: bp_frame_def)
  have pos: "0 < bp_readersRemaining s" using remaining_pos [OF fr r(1)] r(2) by simp
  have h: "holders cur rem ((bp_readers s)[r := RdDone])"
    using c r(2) len(1) by (intro holders_quiet) (simp_all add: bp_control_def)
  have q: "bq_items (bq_close q) = bq_items q" "q_closed (bq_close q)" for q :: "file_block byte_queue"
    by (simp_all add: bq_close_def bq_items_def)
  show ?thesis
  proof (cases "bp_readersRemaining s = 1")
    case True
    with c h len(2) q show ?thesis by (simp add: bp_control_def reader_exit_def Let_def)
  next
    case False
    with pos have "bp_readersRemaining s - 1 \<noteq> 0" by simp
    with False c h pos show ?thesis by (simp add: bp_control_def reader_exit_def Let_def)
  qed
qed

lemma control_acquired:
  assumes c: "bp_control env opts fs cur rem s" and fr: "bp_frame opts fs s"
    and r: "r < bo_readerThreads opts" "bp_readers s ! r = RdOpened j" and a: "aw_workers (bp_workers s) = w # aw_workers a"
  shows "cur w = None \<and> w < bo_indexerThreads opts \<and>
    bp_control env opts fs (cur(w := Some j)) (rem(w := job_actions opts fs j))
      (set_reader r (RdSending j w (job_actions opts fs j)) (s\<lparr>bp_workers := a\<rparr>))"
proof -
  have len: "r < length (bp_readers s)" using fr r(1) by (simp add: bp_frame_def)
  have j: "j < length fs" "is_reads fs j" using bp_frame_reader [OF fr len] r(2) by (simp_all add: reader_frame_def)
  have ws: "distinct (w # aw_workers a)" "set (w # aw_workers a) = {v. v < bo_indexerThreads opts \<and> cur v = None}"
    using c a by (simp_all add: bp_control_def)
  then have w: "w < bo_indexerThreads opts" "cur w = None" by auto
  have set_a: "set (aw_workers a) = {v. v < bo_indexerThreads opts \<and> (cur(w := Some j)) v = None}"
    using ws by (auto simp: set_eq_iff)
  obtain acts where acts: "job_actions opts fs j = ASend (ctl_block BStart (of_nat j)) # acts"
    using job_actions_shape [OF j(2)] by blast
  have rem: "0 < bp_readersRemaining s" using remaining_pos [OF fr r(1)] r(2) by simp
  then have pc: "bp_indexers s ! w = IxPop None" "bq_items (bp_lanes s ! w) = []"
    using c w by (auto simp: bp_control_def worker_ok_def free_ok_def)
  have "bound_ok env opts fs j (job_actions opts fs j) (IxPop None) []"
    unfolding bound_ok_def using j acts by (intro conjI exI [of _ "[]"]) (simp_all add: ix_view_def)
  moreover have "holders (cur(w := Some j)) (rem(w := job_actions opts fs j))
      ((bp_readers s)[r := RdSending j w (job_actions opts fs j)])"
    using c w len r(2) acts by (intro holders_acquire) (simp_all add: bp_control_def)
  ultimately have "bp_control env opts fs (cur(w := Some j)) (rem(w := job_actions opts fs j))
      (set_reader r (RdSending j w (job_actions opts fs j)) (s\<lparr>bp_workers := a\<rparr>))"
    using c ws(1) set_a pc unfolding bp_control_def by (simp add: set_reader_def worker_ok_def)
  with w show ?thesis by simp
qed

lemma bound_ok_advance:
  assumes "bound_ok env opts fs j (a # rest) pc queued"
  shows "action_blocks [a] = [] \<Longrightarrow> bound_ok env opts fs j rest pc queued"
    and "a = ASend b \<Longrightarrow> bound_ok env opts fs j rest pc (queued @ [b])"
proof -
  from assms obtain hand pr pre where b: "j < length fs" "is_reads fs j" "ix_view pc = Some (feed env pr, hand)"
    "job_actions opts fs j = pre @ a # rest" "action_blocks pre = pr @ hand @ queued"
    "hand @ queued @ action_blocks (a # rest) \<noteq> []" unfolding bound_ok_def by blast
  have "action_blocks (a # rest) = action_blocks [a] @ action_blocks rest" using action_blocks_simps(5) [of "[a]" rest] by simp
  with b show "action_blocks [a] = [] \<Longrightarrow> bound_ok env opts fs j rest pc queued"
    unfolding bound_ok_def by (intro conjI exI [of _ hand] exI [of _ pr] exI [of _ "pre @ [a]"]) simp_all
  from b show "a = ASend b \<Longrightarrow> bound_ok env opts fs j rest pc (queued @ [b])"
    unfolding bound_ok_def by (intro conjI exI [of _ hand] exI [of _ pr] exI [of _ "pre @ [a]"]) simp_all
qed

lemma control_advance:
  assumes c: "bp_control env opts fs cur rem s" and fr: "bp_frame opts fs s"
    and r: "r < bo_readerThreads opts" "bp_readers s ! r = RdSending j w (a # rest)"
    and q: "(action_blocks [a] = [] \<and> lanes = bp_lanes s) \<or>
      (\<exists>b q. a = ASend b \<and> bq_push b (block_weight b) (bp_lanes s ! w) = Pushed q \<and> lanes = (bp_lanes s)[w := q])"
    and s': "bp_workers s' = bp_workers s" "bp_lanes s' = lanes" "bp_indexers s' = bp_indexers s"
      "bp_readersRemaining s' = bp_readersRemaining s" "bp_readers s' = (bp_readers s)[r := after_action j w rest]"
  shows "bp_control env opts fs cur (rem(w := rest)) s'"
proof -
  have len: "r < length (bp_readers s)" using fr r(1) by (simp add: bp_frame_def)
  have w: "w < bo_indexerThreads opts" using bp_frame_reader [OF fr len] r(2) by (simp add: reader_frame_def)
  have h: "holders cur rem (bp_readers s)" using c by (simp add: bp_control_def)
  have cw: "cur w = Some j" "rem w = a # rest" using holders_at [OF h len r(2)] by auto
  have bo: "bound_ok env opts fs j (a # rest) (bp_indexers s ! w) (bq_items (bp_lanes s ! w))"
    using c w cw by (auto simp: bp_control_def worker_ok_def)
  have closed: "q_closed (bp_lanes s ! w) \<longleftrightarrow> bp_readersRemaining s = 0" using c w by (simp add: bp_control_def)
  have lane: "bound_ok env opts fs j rest (bp_indexers s ! w) (bq_items (lanes ! w)) \<and>
      (q_closed (lanes ! w) \<longleftrightarrow> bp_readersRemaining s = 0)"
    using q
  proof (elim disjE conjE exE)
    assume "action_blocks [a] = []" "lanes = bp_lanes s"
    with bound_ok_advance(1) [OF bo] closed show ?thesis by simp
  next
    fix b q assume q: "a = ASend b" "bq_push b (block_weight b) (bp_lanes s ! w) = Pushed q" "lanes = (bp_lanes s)[w := q]"
    have "length (bp_lanes s) = bo_indexerThreads opts" using fr by (simp add: bp_frame_def)
    moreover have "bq_items q = bq_items (bp_lanes s ! w) @ [b]" "q_closed q = q_closed (bp_lanes s ! w)"
      using bq.push_items [OF bp_frame_lane(1) [OF fr w] q(2)] bq_push_Pushed(1) [OF q(2)] by simp_all
    ultimately show ?thesis using bound_ok_advance(2) [OF bo q(1)] closed w q(3) by simp
  qed
  have others: "lanes ! v = bp_lanes s ! v" if "v \<noteq> w" for v using q that by auto
  show ?thesis unfolding bp_control_def s'
  proof (intro conjI allI impI)
    show "holders cur (rem(w := rest)) ((bp_readers s)[r := after_action j w rest])" by (rule holders_advance [OF h len r(2)])
    fix v assume v: "v < bo_indexerThreads opts"
    show "worker_ok env opts fs (cur v) ((rem(w := rest)) v) (bp_indexers s ! v) (bq_items (lanes ! v))"
      using lane others [of v] c v cw(1) by (cases "v = w") (auto simp: bp_control_def worker_ok_def)
    show "q_closed (lanes ! v) \<longleftrightarrow> bp_readersRemaining s = 0"
      using lane others [of v] c v by (cases "v = w") (auto simp: bp_control_def)
    show "bp_readersRemaining s = 0" if "bp_indexers s ! v = IxDone" using c v that by (simp add: bp_control_def)
  qed (use c in \<open>simp_all add: bp_control_def\<close>)
qed

lemma control_worker:
  assumes "bp_control env opts fs cur rem s" and "w < bo_indexerThreads opts"
  shows "worker_ok env opts fs (cur w) (rem w) (bp_indexers s ! w) (bq_items (bp_lanes s ! w))"
    and "q_closed (bp_lanes s ! w) \<longleftrightarrow> bp_readersRemaining s = 0"
    and "bp_indexers s ! w = IxDone \<Longrightarrow> bp_readersRemaining s = 0"
  using assms by (simp_all add: bp_control_def)

text \<open>A reader that still has actions for a worker is running, so the worker's lane is open.\<close>

lemma remaining_actions_open:
  assumes c: "bp_control env opts fs cur rem s" and fr: "bp_frame opts fs s" and w: "rem w \<noteq> []"
  shows "0 < bp_readersRemaining s"
proof -
  have "holders cur rem (bp_readers s)" using c by (simp add: bp_control_def)
  from holders_some [OF this w] obtain r j where "r < length (bp_readers s)" "bp_readers s ! r = RdSending j w (rem w)" by blast
  with remaining_pos [OF fr, of r] fr show ?thesis by (simp add: bp_frame_def)
qed

text \<open>An indexer that finds its lane closed and empty is not inside a document.\<close>

lemma end_of_lane:
  assumes c: "bp_control env opts fs cur rem s" and fr: "bp_frame opts fs s" and ok: "bp_fatalError s = None"
    and w: "w < bo_indexerThreads opts" "bp_indexers s ! w = IxPop doc" and p: "bq_pop (bp_lanes s ! w) = PopEnd"
  shows "cur w = None \<and> doc = None \<and> bp_readersRemaining s = 0"
proof -
  have lane: "\<not> bq_open (bp_lanes s ! w)" "bq_items (bp_lanes s ! w) = []" "\<not> q_cancelled (bp_lanes s ! w)"
    using bq.pop_end [OF bp_frame_lane(1) [OF fr w(1)]] p bp_frame_lane(3) [OF fr w(1)] ok by auto
  then have z: "bp_readersRemaining s = 0" using control_worker(2) [OF c w(1)] by (simp add: bq_open_def)
  have "cur w = None"
  proof (rule ccontr)
    assume "cur w \<noteq> None"
    then obtain j where "cur w = Some j" by auto
    then have "bound_ok env opts fs j (rem w) (IxPop doc) []" using control_worker(1) [OF c w(1)] w(2) lane by (simp add: worker_ok_def)
    then have "rem w \<noteq> []" by (auto simp: bound_ok_def ix_view_def)
    with remaining_actions_open [OF c fr] z show False by fastforce
  qed
  then show ?thesis using z control_worker(1) [OF c w(1)] w(2) by (simp add: worker_ok_def free_ok_def)
qed

lemma control_indexer:
  assumes c: "bp_control env opts fs cur rem s" and w: "w < length (bp_indexers s)" "w < bo_indexerThreads opts"
    and ok: "worker_ok env opts fs job (rem w) pc (bq_items (lanes ! w))"
    and closed: "q_closed (lanes ! w) = q_closed (bp_lanes s ! w)" and others: "\<And>v. v \<noteq> w \<Longrightarrow> lanes ! v = bp_lanes s ! v"
    and ended: "pc = IxDone \<Longrightarrow> bp_readersRemaining s = 0"
    and job: "job = cur w \<and> ws = aw_workers (bp_workers s) \<or> job = None \<and> rem w = [] \<and> cur w \<noteq> None \<and> ws = aw_workers (bp_workers s) @ [w]"
    and s': "aw_workers (bp_workers s') = ws" "bp_lanes s' = lanes" "bp_indexers s' = (bp_indexers s)[w := pc]"
      "bp_readersRemaining s' = bp_readersRemaining s" "bp_readers s' = bp_readers s"
  shows "bp_control env opts fs (cur(w := job)) rem s'"
proof -
  have h: "holders cur rem (bp_readers s)" using c by (simp add: bp_control_def)
  have "holders (cur(w := job)) rem (bp_readers s)"
    using job
  proof (elim disjE conjE)
    assume "job = cur w"
    with h show ?thesis by simp
  next
    assume "job = None" "rem w = []"
    with holders_release [OF h] show ?thesis by simp
  qed
  moreover have "distinct ws \<and> set ws = {v. v < bo_indexerThreads opts \<and> (cur(w := job)) v = None}"
    using c job w(2) by (auto simp: bp_control_def)
  moreover have "worker_ok env opts fs ((cur(w := job)) v) (rem v) ((bp_indexers s)[w := pc] ! v) (bq_items (lanes ! v)) \<and>
      (q_closed (lanes ! v) \<longleftrightarrow> bp_readersRemaining s = 0) \<and>
      ((bp_indexers s)[w := pc] ! v = IxDone \<longrightarrow> bp_readersRemaining s = 0)" if v: "v < bo_indexerThreads opts" for v
    using control_worker [OF c v] ok closed others [of v] ended w by (cases "v = w") auto
  ultimately show ?thesis unfolding bp_control_def s' by blast
qed

lemma control_popped:
  assumes c: "bp_control env opts fs cur rem s" and fr: "bp_frame opts fs s"
    and w: "w < bo_indexerThreads opts" "bp_indexers s ! w = IxPop doc" and p: "bq_pop (bp_lanes s ! w) = Popped b q"
  shows "bp_control env opts fs cur rem (set_indexer w (IxHave doc b) (s\<lparr>bp_lanes := (bp_lanes s)[w := q]\<rparr>))"
proof -
  have len: "w < length (bp_indexers s)" "w < length (bp_lanes s)" using fr w(1) by (simp_all add: bp_frame_def)
  have it: "bq_items (bp_lanes s ! w) = b # bq_items q" "q_closed q = q_closed (bp_lanes s ! w)"
    using bq.pop_items [OF bp_frame_lane(1) [OF fr w(1)] p] p by (auto elim: bq_pop_Popped)
  have ok: "worker_ok env opts fs (cur w) (rem w) (IxPop doc) (b # bq_items q)" using control_worker(1) [OF c w(1)] it w(2) by simp
  then obtain j where j: "cur w = Some j" by (cases "cur w") (simp_all add: worker_ok_def free_ok_def)
  with ok have "bound_ok env opts fs j (rem w) (IxHave doc b) (bq_items q)"
    by (auto simp: worker_ok_def bound_ok_def ix_view_def)
  then have "worker_ok env opts fs (cur w) (rem w) (IxHave doc b) (bq_items ((bp_lanes s)[w := q] ! w))"
    using j len by (simp add: worker_ok_def)
  from control_indexer [OF c len(1) w(1) this, of "aw_workers (bp_workers s)"] show ?thesis
    using it(2) len by (simp add: set_indexer_def)
qed

lemma control_ended:
  assumes c: "bp_control env opts fs cur rem s" and fr: "bp_frame opts fs s" and ok: "bp_fatalError s = None"
    and w: "w < bo_indexerThreads opts" "bp_indexers s ! w = IxPop None" and p: "bq_pop (bp_lanes s ! w) = PopEnd"
  shows "bp_control env opts fs cur rem (set_indexer w IxDone s)"
proof -
  have len: "w < length (bp_indexers s)" using fr w(1) by (simp add: bp_frame_def)
  have e: "cur w = None" "bp_readersRemaining s = 0" using end_of_lane [OF c fr ok w p] by auto
  then have "worker_ok env opts fs (cur w) (rem w) IxDone (bq_items (bp_lanes s ! w))"
    using control_worker(1) [OF c w(1)] by (simp add: worker_ok_def free_ok_def)
  from control_indexer [OF c len w(1) this, of "aw_workers (bp_workers s)"] show ?thesis
    using e by (simp add: set_indexer_def fun_upd_idem)
qed

text \<open>The block an indexer has taken is the next one of its file, and its handling succeeds.\<close>

lemma handled_position:
  assumes c: "bp_control env opts fs cur rem s" and w: "w < bo_indexerThreads opts" "bp_indexers s ! w = IxHave doc b"
  obtains j pr rest where "cur w = Some j" "j < length fs" "is_reads fs j" "doc = feed env pr"
    "jblocks opts fs j = pr @ b # rest" "rest = bq_items (bp_lanes s ! w) @ action_blocks (rem w)"
    "\<exists>pre. job_actions opts fs j = pre @ rem w \<and> action_blocks pre = pr @ b # bq_items (bp_lanes s ! w)"
proof -
  have "worker_ok env opts fs (cur w) (rem w) (IxHave doc b) (bq_items (bp_lanes s ! w))"
    using control_worker(1) [OF c w(1)] w(2) by simp
  moreover from this obtain j where j: "cur w = Some j" by (cases "cur w") (simp_all add: worker_ok_def free_ok_def)
  ultimately obtain pr pre where "j < length fs" "is_reads fs j" "doc = feed env pr" "job_actions opts fs j = pre @ rem w"
    "action_blocks pre = pr @ b # bq_items (bp_lanes s ! w)"
    by (auto simp: worker_ok_def bound_ok_def ix_view_def)
  with j that show thesis by (simp add: jblocks_def)
qed

lemma last_rem_sends:
  assumes "is_reads fs j" and "job_actions opts fs j = pre @ rest" and "action_blocks rest = []"
  shows "rest = []"
proof (rule ccontr)
  assume ne: "rest \<noteq> []"
  obtain acts where acts: "job_actions opts fs j = ASend (ctl_block BStart (of_nat j)) # acts"
    "loop_shape (payloadSize opts) (of_nat j) acts" using job_actions_shape [OF assms(1)] .
  then have "last_sends acts" by (simp add: loop_shape_def)
  then have "action_blocks [last (job_actions opts fs j)] \<noteq> []" using acts(1) by (simp add: last_sends_def)
  then have "action_blocks [last rest] \<noteq> []" using assms(2) ne by simp
  moreover have "action_blocks rest = action_blocks (butlast rest) @ action_blocks [last rest]"
    using action_blocks_simps(5) [of "butlast rest" "[last rest]"] ne by simp
  ultimately show False using assms(3) by simp
qed

lemma aw_release_workers: "\<not> aw_cancelled a \<Longrightarrow> aw_workers (aw_release w a) = aw_workers a @ [w]"
  by (simp add: aw_release_def)

lemma not_orphan: "doc = Some d \<Longrightarrow> da_fileId d = fb_fileId b \<Longrightarrow> \<not> orphan doc b"
  by (simp add: orphan_def)

lemma control_handled:
  assumes c: "bp_control env opts fs cur rem s" and fr: "bp_frame opts fs s" and ok: "bp_fatalError s = None"
    and w: "w < bo_indexerThreads opts" "bp_indexers s ! w = IxHave doc b"
  obtains (inside) d where "handle_block env w doc b s = set_indexer w (IxPop (Some d)) s"
      "bp_control env opts fs cur rem (handle_block env w doc b s)"
  | (committed) j where "cur w = Some j" "job_good opts fs j"
      "handle_block env w doc b s = set_indexer w (IxPop None)
         (s\<lparr>bp_localDictionaries := (bp_localDictionaries s)[w := commitDocument (job_doc env opts fs j) (bp_localDictionaries s ! w)],
            bp_indexedFiles := bp_indexedFiles s + 1, bp_workers := aw_release w (bp_workers s)\<rparr>)"
      "bp_control env opts fs (cur(w := None)) rem (handle_block env w doc b s)"
  | (aborted) j where "cur w = Some j" "\<not> job_good opts fs j"
      "handle_block env w doc b s = set_indexer w (IxPop None) (s\<lparr>bp_workers := aw_release w (bp_workers s)\<rparr>)"
      "bp_control env opts fs (cur(w := None)) rem (handle_block env w doc b s)"
proof -
  have len: "w < length (bp_indexers s)" using fr w(1) by (simp add: bp_frame_def)
  have nc: "\<not> aw_cancelled (bp_workers s)" using fr ok by (simp add: bp_frame_def)
  obtain j pr rest where j: "cur w = Some j" "j < length fs" "is_reads fs j" "doc = feed env pr"
    and jb: "jblocks opts fs j = pr @ b # rest" and rest: "rest = bq_items (bp_lanes s ! w) @ action_blocks (rem w)"
    and pre: "\<exists>pre. job_actions opts fs j = pre @ rem w \<and> action_blocks pre = pr @ b # bq_items (bp_lanes s ! w)"
    using handled_position [OF c w] by blast
  have inside_ok: "worker_ok env opts fs (cur w) (rem w) (IxPop (feed env (pr @ [b]))) (bq_items (bp_lanes s ! w))" if "rest \<noteq> []"
  proof -
    from pre obtain pre where "job_actions opts fs j = pre @ rem w" "action_blocks pre = (pr @ [b]) @ [] @ bq_items (bp_lanes s ! w)" by auto
    then have "bound_ok env opts fs j (rem w) (IxPop (feed env (pr @ [b]))) (bq_items (bp_lanes s ! w))"
      unfolding bound_ok_def using j that rest
      by (intro conjI exI [of _ "[]"] exI [of _ "pr @ [b]"] exI [of _ pre]) (simp_all add: ix_view_def)
    with j(1) show ?thesis by (simp add: worker_ok_def)
  qed
  note stay = control_indexer [OF c len w(1) inside_ok, of "aw_workers (bp_workers s)"]
  have free: "bp_control env opts fs (cur(w := None)) rem s'" if "rest = []" and s': "aw_workers (bp_workers s') = aw_workers (bp_workers s) @ [w]"
      "bp_lanes s' = bp_lanes s" "bp_indexers s' = (bp_indexers s)[w := IxPop None]"
      "bp_readersRemaining s' = bp_readersRemaining s" "bp_readers s' = bp_readers s" for s'
  proof -
    have e: "bq_items (bp_lanes s ! w) = []" "action_blocks (rem w) = []" using that(1) rest by auto
    then have "rem w = []" using pre last_rem_sends [OF j(3)] by blast
    with e have "worker_ok env opts fs None (rem w) (IxPop None) (bq_items (bp_lanes s ! w))"
      by (simp add: worker_ok_def free_ok_def)
    from control_indexer [OF c len w(1) this, of "aw_workers (bp_workers s) @ [w]" s'] show ?thesis
      using s' j(1) \<open>rem w = []\<close> by simp
  qed
  from j(3) jb show thesis
  proof (cases rule: jblocks_position [where env = env])
    case start
    then have "handle_block env w doc b s = set_indexer w (IxPop (Some (fresh_document (fb_fileId b)))) s"
      using j(4) by (simp add: handle_block_def fresh_document_def)
    with start stay show thesis
      by (intro inside) (simp_all add: set_indexer_def feed_def feed_block_def)
  next
    case (data d)
    then have "handle_block env w doc b s = set_indexer w (IxPop (Some (tokenizeBlock env b d))) s"
      using j(4) not_orphan [of doc d b] by (simp add: handle_block_def)
    with data stay j(4) show thesis by (intro inside) (simp_all add: set_indexer_def feed_block_def)
  next
    case (fin d)
    have no: "\<not> orphan doc b" using fin j(4) not_orphan [of doc d b] by simp
    show thesis
    proof (cases "job_good opts fs j")
      case True
      with fin no j(4) have h: "handle_block env w doc b s = set_indexer w (IxPop None)
         (s\<lparr>bp_localDictionaries := (bp_localDictionaries s)[w := commitDocument (job_doc env opts fs j) (bp_localDictionaries s ! w)],
            bp_indexedFiles := bp_indexedFiles s + 1, bp_workers := aw_release w (bp_workers s)\<rparr>)"
        by (simp add: handle_block_def)
      show thesis
        by (rule committed [OF j(1) True h], rule free [OF fin(4)]) (simp_all add: h set_indexer_def aw_release_workers nc)
    next
      case False
      with fin no j(4) have h: "handle_block env w doc b s = set_indexer w (IxPop None) (s\<lparr>bp_workers := aw_release w (bp_workers s)\<rparr>)"
        by (simp add: handle_block_def)
      show thesis
        by (rule aborted [OF j(1) False h], rule free [OF fin(4)]) (simp_all add: h set_indexer_def aw_release_workers nc)
    qed
  qed
qed

section \<open>Accounting for the files\<close>

definition taken :: "(wstring \<times> file_view) list \<Rightarrow> pipeline \<Rightarrow> nat" where
  "taken fs s = min (bp_nextJob s) (length fs)"

definition good_job :: "batch_options \<Rightarrow> (wstring \<times> file_view) list \<Rightarrow> nat \<Rightarrow> nat multiset" where
  "good_job opts fs j = (if job_good opts fs j then {#j#} else {#})"

definition opened_job :: "batch_options \<Rightarrow> (wstring \<times> file_view) list \<Rightarrow> reader_pc \<Rightarrow> nat multiset" where
  "opened_job opts fs pc = (case pc of RdOpened j \<Rightarrow> good_job opts fs j | _ \<Rightarrow> {#})"

definition bound_job :: "batch_options \<Rightarrow> (wstring \<times> file_view) list \<Rightarrow> nat option \<Rightarrow> nat multiset" where
  "bound_job opts fs job = (case job of Some j \<Rightarrow> good_job opts fs j | None \<Rightarrow> {#})"

text \<open>Every readable file taken so far is committed, waits for a worker, or is bound to one.\<close>

definition bp_commits ::
  "tok_env \<Rightarrow> batch_options \<Rightarrow> (wstring \<times> file_view) list \<Rightarrow> (nat \<Rightarrow> nat option) \<Rightarrow> (nat \<Rightarrow> nat list) \<Rightarrow> pipeline \<Rightarrow> bool" where
  "bp_commits env opts fs cur logs s \<longleftrightarrow>
     (\<forall>w < bo_indexerThreads opts. bp_localDictionaries s ! w = fold (\<lambda>j. commitDocument (job_doc env opts fs j)) (logs w) []) \<and>
     (\<Sum>w<bo_indexerThreads opts. mset (logs w)) + (\<Sum>r<bo_readerThreads opts. opened_job opts fs (bp_readers s ! r)) +
       (\<Sum>w<bo_indexerThreads opts. bound_job opts fs (cur w)) = (\<Sum>j<taken fs s. good_job opts fs j) \<and>
     bp_indexedFiles s = (\<Sum>w<bo_indexerThreads opts. length (logs w))"

text \<open>Every other file taken so far is reported, or its reader is still to report it.\<close>

definition bad_job :: "batch_options \<Rightarrow> (wstring \<times> file_view) list \<Rightarrow> nat \<Rightarrow> nat multiset" where
  "bad_job opts fs j = (if job_good opts fs j then {#} else {#j#})"

definition unreported :: "batch_options \<Rightarrow> (wstring \<times> file_view) list \<Rightarrow> reader_pc \<Rightarrow> nat multiset" where
  "unreported opts fs pc =
     (case pc of RdOpened j \<Rightarrow> bad_job opts fs j
       | RdSending j w rest \<Rightarrow> (if has_error rest then {#j#} else {#})
       | _ \<Rightarrow> {#})"

definition bp_reports :: "batch_options \<Rightarrow> (wstring \<times> file_view) list \<Rightarrow> pipeline \<Rightarrow> bool" where
  "bp_reports opts fs s \<longleftrightarrow>
     mset (map (unat \<circ> fst) (bp_fileErrors s)) + (\<Sum>r<bo_readerThreads opts. unreported opts fs (bp_readers s ! r)) =
       (\<Sum>j<taken fs s. bad_job opts fs j) \<and>
     (\<forall>(f, p, m) \<in> set (bp_fileErrors s). p = fst (fs ! unat f))"

definition view_meta :: "file_view \<Rightarrow> (ticks \<times> u64) option" where
  "view_meta v = (case v of MetaFails m \<Rightarrow> None | OpenFails meta \<Rightarrow> Some meta | Reads meta b k \<Rightarrow> Some meta)"

definition bp_metadata :: "(wstring \<times> file_view) list \<Rightarrow> pipeline \<Rightarrow> bool" where
  "bp_metadata fs s \<longleftrightarrow> length (bp_documentMetadata s) = length fs \<and>
     (\<forall>j < taken fs s. \<forall>m. view_meta (snd (fs ! j)) = Some m \<longrightarrow> bp_documentMetadata s ! j = m)"

lemma reader_sum:
  fixes f :: "reader_pc \<Rightarrow> nat multiset"
  assumes "bp_frame opts fs s" and "r < bo_readerThreads opts"
  shows "(\<Sum>v<bo_readerThreads opts. f ((bp_readers s)[r := pc] ! v)) + f (bp_readers s ! r) =
    (\<Sum>v<bo_readerThreads opts. f (bp_readers s ! v)) + f pc"
  using sum_list_upd [of r "bp_readers s" f pc] assms by (simp add: bp_frame_def)

lemma reader_sum_same:
  fixes f :: "reader_pc \<Rightarrow> nat multiset"
  assumes "bp_frame opts fs s" and "r < bo_readerThreads opts" and "f pc = f (bp_readers s ! r)"
  shows "(\<Sum>v<bo_readerThreads opts. f ((bp_readers s)[r := pc] ! v)) = (\<Sum>v<bo_readerThreads opts. f (bp_readers s ! v))"
  using reader_sum [OF assms(1,2), of f pc] assms(3) by simp

lemma taken_next: "bp_nextJob s < length fs \<Longrightarrow> bp_nextJob s' = bp_nextJob s + 1 \<Longrightarrow>
    (\<Sum>j<taken fs s'. f j) = (\<Sum>j<taken fs s. f j) + f (bp_nextJob s)" for f :: "nat \<Rightarrow> nat multiset"
  by (simp add: taken_def min_def)

lemma commits_same:
  assumes "bp_commits env opts fs cur logs s"
    and "bp_localDictionaries s' = bp_localDictionaries s" "bp_indexedFiles s' = bp_indexedFiles s" "taken fs s' = taken fs s"
    and "(\<Sum>v<bo_readerThreads opts. opened_job opts fs (bp_readers s' ! v)) =
      (\<Sum>v<bo_readerThreads opts. opened_job opts fs (bp_readers s ! v))"
  shows "bp_commits env opts fs cur logs s'"
  using assms by (simp add: bp_commits_def)

lemma bound_job_upd:
  fixes cur :: "nat \<Rightarrow> nat option"
  shows "w < k \<Longrightarrow> (\<Sum>v<k. bound_job opts fs ((cur(w := x)) v)) + bound_job opts fs (cur w) =
     (\<Sum>v<k. bound_job opts fs (cur v)) + bound_job opts fs x"
  by (rule sum_upd [where f = "bound_job opts fs" and g = cur])

lemma commits_committed:
  assumes c: "bp_commits env opts fs cur logs s" and fr: "bp_frame opts fs s" and w: "w < bo_indexerThreads opts"
    and j: "cur w = Some j" "job_good opts fs j"
    and s': "bp_localDictionaries s' =
        (bp_localDictionaries s)[w := commitDocument (job_doc env opts fs j) (bp_localDictionaries s ! w)]"
      "bp_indexedFiles s' = bp_indexedFiles s + 1" "taken fs s' = taken fs s" "bp_readers s' = bp_readers s"
  shows "bp_commits env opts fs (cur(w := None)) (logs(w := logs w @ [j])) s'"
proof -
  have "w < length (bp_localDictionaries s)" using fr w by (simp add: bp_frame_def)
  then have "\<forall>v < bo_indexerThreads opts. bp_localDictionaries s' ! v =
      fold (\<lambda>j. commitDocument (job_doc env opts fs j)) ((logs(w := logs w @ [j])) v) []"
    using c by (auto simp: bp_commits_def s' nth_list_update)
  moreover have "(\<Sum>v<bo_indexerThreads opts. mset ((logs(w := logs w @ [j])) v)) =
      (\<Sum>v<bo_indexerThreads opts. mset (logs v)) + {#j#}"
    using sum_upd [OF w, of mset logs "logs w @ [j]"] by (simp add: ac_simps)
  moreover have "(\<Sum>v<bo_indexerThreads opts. length ((logs(w := logs w @ [j])) v)) =
      (\<Sum>v<bo_indexerThreads opts. length (logs v)) + 1"
    using sum_upd [OF w, of length logs "logs w @ [j]"] by simp
  moreover have "(\<Sum>v<bo_indexerThreads opts. bound_job opts fs (cur v)) =
      (\<Sum>v<bo_indexerThreads opts. bound_job opts fs ((cur(w := None)) v)) + {#j#}"
    using bound_job_upd [OF w, of opts fs cur None] j by (simp add: bound_job_def good_job_def)
  ultimately show ?thesis using c unfolding bp_commits_def s' by (simp add: ac_simps del: fun_upd_apply)
qed

lemma commits_bound:
  assumes c: "bp_commits env opts fs cur logs s" and fr: "bp_frame opts fs s" and w: "w < bo_indexerThreads opts"
    and r: "r < bo_readerThreads opts" "bp_readers s ! r = RdOpened j" and cw: "cur w = None"
    and s': "bp_localDictionaries s' = bp_localDictionaries s" "bp_indexedFiles s' = bp_indexedFiles s"
      "taken fs s' = taken fs s" "bp_readers s' = (bp_readers s)[r := RdSending j w acts]"
  shows "bp_commits env opts fs (cur(w := Some j)) logs s'"
proof -
  have "(\<Sum>v<bo_readerThreads opts. opened_job opts fs (bp_readers s ! v)) =
      (\<Sum>v<bo_readerThreads opts. opened_job opts fs (bp_readers s' ! v)) + good_job opts fs j"
    using reader_sum [OF fr r(1), of "opened_job opts fs" "RdSending j w acts"] r(2) s'(4) by (simp add: opened_job_def)
  moreover have "(\<Sum>v<bo_indexerThreads opts. bound_job opts fs ((cur(w := Some j)) v)) =
      (\<Sum>v<bo_indexerThreads opts. bound_job opts fs (cur v)) + good_job opts fs j"
    using bound_job_upd [OF w, of opts fs cur "Some j"] cw by (simp add: bound_job_def)
  ultimately show ?thesis using c unfolding bp_commits_def s'(1-3) by (simp add: ac_simps del: fun_upd_apply)
qed

lemma commits_opened:
  assumes c: "bp_commits env opts fs cur logs s" and fr: "bp_frame opts fs s"
    and r: "r < bo_readerThreads opts" "bp_readers s ! r = RdIdle" and n: "bp_nextJob s < length fs"
    and pc: "opened_job opts fs pc = good_job opts fs (bp_nextJob s)"
    and s': "bp_localDictionaries s' = bp_localDictionaries s" "bp_indexedFiles s' = bp_indexedFiles s"
      "bp_nextJob s' = bp_nextJob s + 1" "bp_readers s' = (bp_readers s)[r := pc]"
  shows "bp_commits env opts fs cur logs s'"
proof -
  have "(\<Sum>v<bo_readerThreads opts. opened_job opts fs (bp_readers s' ! v)) =
      (\<Sum>v<bo_readerThreads opts. opened_job opts fs (bp_readers s ! v)) + good_job opts fs (bp_nextJob s)"
    using reader_sum [OF fr r(1), of "opened_job opts fs" pc] r(2) s'(4) pc by (simp add: opened_job_def)
  moreover have "(\<Sum>j<taken fs s'. good_job opts fs j) = (\<Sum>j<taken fs s. good_job opts fs j) + good_job opts fs (bp_nextJob s)"
    by (rule taken_next [OF n s'(3)])
  ultimately show ?thesis using c unfolding bp_commits_def s'(1,2) by (simp add: ac_simps)
qed

lemma reports_same:
  assumes "bp_reports opts fs s" and "bp_fileErrors s' = bp_fileErrors s" "taken fs s' = taken fs s"
    and "(\<Sum>v<bo_readerThreads opts. unreported opts fs (bp_readers s' ! v)) =
      (\<Sum>v<bo_readerThreads opts. unreported opts fs (bp_readers s ! v))"
  shows "bp_reports opts fs s'"
  using assms by (simp add: bp_reports_def)

lemma reports_opened:
  assumes c: "bp_reports opts fs s" and fr: "bp_frame opts fs s"
    and r: "r < bo_readerThreads opts" "bp_readers s ! r = RdIdle" and n: "bp_nextJob s < length fs"
    and s': "bp_fileErrors s' = bp_fileErrors s" "bp_nextJob s' = bp_nextJob s + 1"
      "bp_readers s' = (bp_readers s)[r := RdOpened (bp_nextJob s)]"
  shows "bp_reports opts fs s'"
proof -
  have "(\<Sum>v<bo_readerThreads opts. unreported opts fs (bp_readers s' ! v)) =
      (\<Sum>v<bo_readerThreads opts. unreported opts fs (bp_readers s ! v)) + bad_job opts fs (bp_nextJob s)"
    using reader_sum [OF fr r(1), of "unreported opts fs" "RdOpened (bp_nextJob s)"] r(2) s'(3) by (simp add: unreported_def)
  moreover have "(\<Sum>j<taken fs s'. bad_job opts fs j) = (\<Sum>j<taken fs s. bad_job opts fs j) + bad_job opts fs (bp_nextJob s)"
    by (rule taken_next [OF n s'(2)])
  ultimately show ?thesis using c unfolding bp_reports_def s'(1) by (simp add: ac_simps)
qed

lemma reports_unreadable:
  assumes c: "bp_reports opts fs s" and n: "bp_nextJob s < length fs" "length fs < 2 ^ 32"
    and bad: "\<not> is_reads fs (bp_nextJob s)"
    and s': "bp_fileErrors s' = bp_fileErrors s @ [(of_nat (bp_nextJob s), fst (fs ! bp_nextJob s), m)]"
      "bp_nextJob s' = bp_nextJob s + 1" "bp_readers s' = bp_readers s"
  shows "bp_reports opts fs s'"
proof -
  have u: "unat (of_nat (bp_nextJob s) :: u32) = bp_nextJob s" using n by (intro unat_of_nat_u32) simp
  have "(\<Sum>j<taken fs s'. bad_job opts fs j) = (\<Sum>j<taken fs s. bad_job opts fs j) + {#bp_nextJob s#}"
    using taken_next [OF n(1) s'(2), of "bad_job opts fs"] bad by (simp add: bad_job_def job_good_def)
  with c u show ?thesis unfolding bp_reports_def s'(1,3) by (auto simp: ac_simps)
qed

lemma reports_reported:
  assumes c: "bp_reports opts fs s" and fr: "bp_frame opts fs s" and n: "length fs < 2 ^ 32"
    and r: "r < bo_readerThreads opts" "bp_readers s ! r = RdSending j w (AError m # rest)"
    and s': "bp_fileErrors s' = bp_fileErrors s @ [(of_nat j, fst (fs ! j), m)]"
      "taken fs s' = taken fs s" "bp_readers s' = (bp_readers s)[r := after_action j w rest]"
  shows "bp_reports opts fs s'"
proof -
  have "reader_frame opts fs (RdSending j w (AError m # rest))" using bp_frame_reader [OF fr, of r] fr r by (simp add: bp_frame_def)
  then obtain pre where j: "j < length fs" "is_reads fs j" "job_actions opts fs j = pre @ AError m # rest"
    by (auto simp: reader_frame_def)
  obtain acts where acts: "job_actions opts fs j = ASend (ctl_block BStart (of_nat j)) # acts"
    "loop_shape (payloadSize opts) (of_nat j) acts" using job_actions_shape [OF j(2)] .
  have "\<not> has_error rest"
  proof (cases pre)
    case Nil
    with j(3) acts(1) show ?thesis by simp
  next
    case (Cons x pre')
    with j(3) acts(1) have "acts = pre' @ AError m # rest" by simp
    with acts(2) show ?thesis unfolding loop_shape_def by blast
  qed
  then have "unreported opts fs (after_action j w rest) = {#}" by (simp add: unreported_def after_action_def)
  then have "(\<Sum>v<bo_readerThreads opts. unreported opts fs (bp_readers s ! v)) =
      (\<Sum>v<bo_readerThreads opts. unreported opts fs (bp_readers s' ! v)) + {#j#}"
    using reader_sum [OF fr r(1), of "unreported opts fs" "after_action j w rest"] r(2) s'(3) by (simp add: unreported_def)
  moreover have "unat (of_nat j :: u32) = j" using j(1) n by (intro unat_of_nat_u32) simp
  ultimately show ?thesis using c unfolding bp_reports_def s'(1,2) by (auto simp: ac_simps)
qed

lemma after_action_parts:
  "opened_job opts fs (after_action j w rest) = {#}"
  "unreported opts fs (after_action j w rest) = (if has_error rest then {#j#} else {#})"
  by (auto simp: after_action_def opened_job_def unreported_def)

section \<open>The invariant of a pipeline in which no thread has failed\<close>

definition bp_sound ::
  "tok_env \<Rightarrow> batch_options \<Rightarrow> (wstring \<times> file_view) list \<Rightarrow> (nat \<Rightarrow> nat option) \<Rightarrow> (nat \<Rightarrow> reader_action list) \<Rightarrow>
   (nat \<Rightarrow> nat list) \<Rightarrow> pipeline \<Rightarrow> bool" where
  "bp_sound env opts fs cur rem logs s \<longleftrightarrow>
     bp_control env opts fs cur rem s \<and> bp_commits env opts fs cur logs s \<and> bp_reports opts fs s \<and> bp_metadata fs s \<and>
     ((\<exists>pc \<in> set (bp_readers s). pc = RdDone) \<longrightarrow> length fs \<le> bp_nextJob s)"

lemma bp_sound_init:
  assumes "0 < bo_readerThreads opts"
  shows "bp_sound env opts fs (\<lambda>w. None) (\<lambda>w. []) (\<lambda>w. []) (bp_init opts (length fs))"
proof -
  have "bp_commits env opts fs (\<lambda>w. None) (\<lambda>w. []) (bp_init opts (length fs))"
    by (simp add: bp_commits_def bp_init_def opened_job_def bound_job_def taken_def)
  moreover have "bp_reports opts fs (bp_init opts (length fs))"
    by (simp add: bp_reports_def bp_init_def unreported_def taken_def)
  moreover have "bp_metadata fs (bp_init opts (length fs))" by (simp add: bp_metadata_def bp_init_def taken_def)
  ultimately show ?thesis using control_init [OF assms] by (auto simp: bp_sound_def bp_init_def)
qed

lemma reader_simps [simp]:
  "bp_nextJob (reader_exit r s) = bp_nextJob s" "bp_fileErrors (reader_exit r s) = bp_fileErrors s"
  "bp_localDictionaries (reader_exit r s) = bp_localDictionaries s" "bp_indexedFiles (reader_exit r s) = bp_indexedFiles s"
  "bp_documentMetadata (reader_exit r s) = bp_documentMetadata s" "bp_readers (reader_exit r s) = (bp_readers s)[r := RdDone]"
  "bp_nextJob (set_reader r pc s) = bp_nextJob s" "bp_fileErrors (set_reader r pc s) = bp_fileErrors s"
  "bp_localDictionaries (set_reader r pc s) = bp_localDictionaries s" "bp_indexedFiles (set_reader r pc s) = bp_indexedFiles s"
  "bp_documentMetadata (set_reader r pc s) = bp_documentMetadata s" "bp_readers (set_reader r pc s) = (bp_readers s)[r := pc]"
  "bp_readersRemaining (set_reader r pc s) = bp_readersRemaining s"
  by (simp_all add: reader_exit_def set_reader_def Let_def)

lemma indexer_simps [simp]:
  "bp_nextJob (set_indexer w ic s) = bp_nextJob s" "bp_fileErrors (set_indexer w ic s) = bp_fileErrors s"
  "bp_localDictionaries (set_indexer w ic s) = bp_localDictionaries s" "bp_indexedFiles (set_indexer w ic s) = bp_indexedFiles s"
  "bp_documentMetadata (set_indexer w ic s) = bp_documentMetadata s" "bp_readersRemaining (set_indexer w ic s) = bp_readersRemaining s"
  "bp_indexers (set_indexer w ic s) = (bp_indexers s)[w := ic]"
  by (simp_all add: set_indexer_def)

lemma error_simps [simp]:
  "bp_nextJob (addFileError f p m s) = bp_nextJob s" "bp_fileErrors (addFileError f p m s) = bp_fileErrors s @ [(f, p, m)]"
  "bp_localDictionaries (addFileError f p m s) = bp_localDictionaries s" "bp_indexedFiles (addFileError f p m s) = bp_indexedFiles s"
  "bp_documentMetadata (addFileError f p m s) = bp_documentMetadata s" "bp_readersRemaining (addFileError f p m s) = bp_readersRemaining s"
  by (simp_all add: addFileError_def)

lemma metadata_same:
  "bp_metadata fs s \<Longrightarrow> bp_documentMetadata s' = bp_documentMetadata s \<Longrightarrow> taken fs s' = taken fs s \<Longrightarrow> bp_metadata fs s'"
  by (simp add: bp_metadata_def)

lemma metadata_next:
  assumes m: "bp_metadata fs s" and n: "bp_nextJob s < length fs" "bp_nextJob s' = bp_nextJob s + 1"
    and v: "view_meta (snd (fs ! bp_nextJob s)) = None \<and> bp_documentMetadata s' = bp_documentMetadata s \<or>
      (\<exists>x. view_meta (snd (fs ! bp_nextJob s)) = Some x \<and> bp_documentMetadata s' = (bp_documentMetadata s)[bp_nextJob s := x])"
  shows "bp_metadata fs s'"
proof -
  have t: "taken fs s = bp_nextJob s" "taken fs s' = Suc (bp_nextJob s)" using n by (simp_all add: taken_def)
  have len: "length (bp_documentMetadata s) = length fs" using m by (simp add: bp_metadata_def)
  have old: "bp_documentMetadata s ! j = x" if "j < bp_nextJob s" "view_meta (snd (fs ! j)) = Some x" for j x
    using m that unfolding bp_metadata_def t(1) by blast
  have "bp_documentMetadata s' ! j = x" if j: "j < Suc (bp_nextJob s)" "view_meta (snd (fs ! j)) = Some x" for j x
  proof (cases "j = bp_nextJob s")
    case True
    with v j(2) have "bp_documentMetadata s' = (bp_documentMetadata s)[j := x]" by auto
    with True n(1) len show ?thesis by simp
  next
    case False
    then have "bp_documentMetadata s' ! j = bp_documentMetadata s ! j" using v by auto
    with False j old show ?thesis by simp
  qed
  moreover have "length (bp_documentMetadata s') = length fs" using v len by auto
  ultimately show ?thesis unfolding bp_metadata_def t(2) by blast
qed

lemma done_update:
  assumes "(\<exists>pc \<in> set (xs[i := x]). pc = RdDone)" and "x \<noteq> RdDone"
  shows "\<exists>pc \<in> set xs. pc = RdDone"
  using assms set_update_subset_insert [of xs i x] by blast

text \<open>The job of a step of a reader that neither takes nor loses a file.\<close>

lemma sound_reader_same:
  assumes so: "bp_sound env opts fs cur rem logs s" and fr: "bp_frame opts fs s"
    and r: "r < bo_readerThreads opts" "bp_readers s' = (bp_readers s)[r := pc]" "pc \<noteq> RdDone"
    and pc: "opened_job opts fs pc = opened_job opts fs (bp_readers s ! r)"
      "unreported opts fs pc = unreported opts fs (bp_readers s ! r)"
    and s': "bp_localDictionaries s' = bp_localDictionaries s" "bp_indexedFiles s' = bp_indexedFiles s"
      "bp_nextJob s' = bp_nextJob s" "bp_fileErrors s' = bp_fileErrors s" "bp_documentMetadata s' = bp_documentMetadata s"
    and c: "bp_control env opts fs cur rem' s'"
  shows "bp_sound env opts fs cur rem' logs s'"
proof -
  have t: "taken fs s' = taken fs s" by (simp add: taken_def s')
  have p: "bp_commits env opts fs cur logs s" "bp_reports opts fs s" "bp_metadata fs s"
    using so unfolding bp_sound_def by blast+
  have "bp_commits env opts fs cur logs s'"
    by (rule commits_same [OF p(1) s'(1,2) t])
      (unfold r(2), rule reader_sum_same [where f = "opened_job opts fs", OF fr r(1) pc(1)])
  moreover have "bp_reports opts fs s'"
    by (rule reports_same [OF p(2) s'(4) t])
      (unfold r(2), rule reader_sum_same [where f = "unreported opts fs", OF fr r(1) pc(2)])
  moreover have "bp_metadata fs s'" by (rule metadata_same [OF p(3) s'(5) t])
  moreover have "length fs \<le> bp_nextJob s'" if "\<exists>x \<in> set (bp_readers s'). x = RdDone"
    using so done_update [OF that [unfolded r(2)] r(3)] unfolding bp_sound_def s'(3) by blast
  ultimately show ?thesis using c unfolding bp_sound_def by blast
qed

lemma sound_indexer_same:
  assumes so: "bp_sound env opts fs cur rem logs s"
    and s': "bp_localDictionaries s' = bp_localDictionaries s" "bp_indexedFiles s' = bp_indexedFiles s" "bp_readers s' = bp_readers s"
      "bp_nextJob s' = bp_nextJob s" "bp_fileErrors s' = bp_fileErrors s" "bp_documentMetadata s' = bp_documentMetadata s"
    and c: "bp_control env opts fs cur' rem s'"
    and cur': "(\<Sum>w<bo_indexerThreads opts. bound_job opts fs (cur' w)) = (\<Sum>w<bo_indexerThreads opts. bound_job opts fs (cur w))"
  shows "bp_sound env opts fs cur' rem logs s'"
  using so c cur' by (simp add: bp_sound_def bp_commits_def bp_reports_def bp_metadata_def taken_def s')

lemma open_not_refused:
  assumes "bq_open q"
  shows "bq_push x n q \<noteq> PushRefused"
proof -
  have o: "(q_cancelled q \<or> q_closed q) = False" using assms by (simp add: bq_open_def)
  have "(if A then PushThrows else if B then PushWaits else Pushed y) \<noteq> PushRefused" for A B and y :: "'a byte_queue"
    by simp
  then show ?thesis unfolding bq_push_def Let_def o if_False by blast
qed

lemma sound_done:
  assumes so: "bp_sound env opts fs cur rem logs s" and r: "bp_readers s' = (bp_readers s)[r := pc]" "pc \<noteq> RdDone"
    and n: "bp_nextJob s' = bp_nextJob s" and d: "\<exists>x \<in> set (bp_readers s'). x = RdDone"
  shows "length fs \<le> bp_nextJob s'"
proof -
  have "\<exists>x \<in> set (bp_readers s). x = RdDone" using d unfolding r(1) by (rule done_update [OF _ r(2)])
  with so n show ?thesis unfolding bp_sound_def by simp
qed

lemma sound_exit:
  assumes so: "bp_sound env opts fs cur rem logs s" and fr: "bp_frame opts fs s"
    and r: "r < bo_readerThreads opts" "bp_readers s ! r = RdIdle" and n: "length fs \<le> bp_nextJob s"
  shows "bp_sound env opts fs cur rem logs (reader_exit r (s\<lparr>bp_nextJob := bp_nextJob s + 1\<rparr>))"
proof -
  let ?s = "s\<lparr>bp_nextJob := bp_nextJob s + 1\<rparr>"
  have p: "bp_control env opts fs cur rem s" "bp_commits env opts fs cur logs s" "bp_reports opts fs s" "bp_metadata fs s"
    using so unfolding bp_sound_def by blast+
  have t: "taken fs (reader_exit r ?s) = taken fs s" using n by (simp add: taken_def)
  have fr': "bp_frame opts fs ?s" using fr by (simp add: bp_frame_def)
  have "bp_control env opts fs cur rem ?s" using p(1) by (simp add: bp_control_def)
  from control_exit [OF this fr', of r] have c: "bp_control env opts fs cur rem (reader_exit r ?s)" using r by simp
  have readers: "bp_readers (reader_exit r ?s) = (bp_readers s)[r := RdDone]" by simp
  have "bp_commits env opts fs cur logs (reader_exit r ?s)"
  proof (rule commits_same [OF p(2) _ _ t])
    show "(\<Sum>v<bo_readerThreads opts. opened_job opts fs (bp_readers (reader_exit r ?s) ! v)) =
        (\<Sum>v<bo_readerThreads opts. opened_job opts fs (bp_readers s ! v))"
      unfolding readers by (rule reader_sum_same [where f = "opened_job opts fs", OF fr r(1)]) (simp add: r(2) opened_job_def)
  qed simp_all
  moreover have "bp_reports opts fs (reader_exit r ?s)"
  proof (rule reports_same [OF p(3) _ t])
    show "(\<Sum>v<bo_readerThreads opts. unreported opts fs (bp_readers (reader_exit r ?s) ! v)) =
        (\<Sum>v<bo_readerThreads opts. unreported opts fs (bp_readers s ! v))"
      unfolding readers by (rule reader_sum_same [where f = "unreported opts fs", OF fr r(1)]) (simp add: r(2) unreported_def)
  qed simp
  moreover have "bp_metadata fs (reader_exit r ?s)" by (rule metadata_same [OF p(4) _ t]) simp
  ultimately show ?thesis using c n by (simp add: bp_sound_def)
qed

lemma sound_take:
  assumes so: "bp_sound env opts fs cur rem logs s" and fr: "bp_frame opts fs s" and len: "length fs < 2 ^ 32"
    and n: "bp_nextJob s < length fs"
    and c: "bp_control env opts fs cur rem s'" and co: "bp_commits env opts fs cur logs s'" and re: "bp_reports opts fs s'"
    and s': "bp_nextJob s' = bp_nextJob s + 1" "bp_readers s' = (bp_readers s)[r := pc]" "pc \<noteq> RdDone"
    and m: "view_meta (snd (fs ! bp_nextJob s)) = None \<and> bp_documentMetadata s' = bp_documentMetadata s \<or>
      (\<exists>x. view_meta (snd (fs ! bp_nextJob s)) = Some x \<and> bp_documentMetadata s' = (bp_documentMetadata s)[bp_nextJob s := x])"
  shows "bp_sound env opts fs cur rem logs s'"
proof -
  have "bp_metadata fs s'" using so by (intro metadata_next [OF _ n s'(1) m]) (simp add: bp_sound_def)
  moreover have "\<not> (\<exists>x \<in> set (bp_readers s'). x = RdDone)"
    using so n done_update [of "bp_readers s" r pc] s'(2,3) unfolding bp_sound_def by auto
  ultimately show ?thesis using c co re unfolding bp_sound_def by blast
qed

lemma bp_sound_step:
  assumes st: "bp_step env opts fs s s'" and so: "bp_sound env opts fs cur rem logs s" and fr: "bp_frame opts fs s"
    and len: "length fs < 2 ^ 32" and ok: "bp_fatalError s = None" "bp_fatalError s' = None"
  shows "\<exists>cur' rem' logs'. bp_sound env opts fs cur' rem' logs' s'"
proof -
  have c: "bp_control env opts fs cur rem s" and co: "bp_commits env opts fs cur logs s"
    and re: "bp_reports opts fs s" and me: "bp_metadata fs s" using so unfolding bp_sound_def by blast+
  have readers: "length (bp_readers s) = bo_readerThreads opts" using fr by (simp add: bp_frame_def)
  from st fr ok(2) show ?thesis
  proof (cases rule: bp_step_cases)
    case (exit r)
    with sound_exit [OF so fr] show ?thesis by blast
  next
    case (unreadable r m message)
    have same: "(bp_readers s)[r := RdIdle] = bp_readers s" by (metis unreadable(2) list_update_id)
    have "bp_control env opts fs cur rem s'" using c by (simp add: bp_control_def unreadable(6))
    moreover have "bp_commits env opts fs cur logs s'"
      by (rule commits_opened [OF co fr unreadable(1,2,3), of RdIdle])
        (use unreadable(4) in \<open>simp_all add: same unreadable(6) opened_job_def good_job_def job_good_def\<close>)
    moreover have "bp_reports opts fs s'"
      by (rule reports_unreadable [OF re unreadable(3) len unreadable(4), of _ message]) (simp_all add: unreadable(6))
    ultimately have "bp_sound env opts fs cur rem logs s'"
      by (rule sound_take [OF so fr len unreadable(3), where r = r and pc = RdIdle])
        (use unreadable(5) in \<open>auto simp: same unreadable(6) view_meta_def\<close>)
    then show ?thesis by blast
  next
    case (opened r meta bytes k)
    have "bp_control env opts fs cur rem s'"
      by (rule control_quiet [OF c, of r "RdOpened (bp_nextJob s)"]) (use opened(1,2) readers in \<open>simp_all add: opened(5)\<close>)
    moreover have "bp_commits env opts fs cur logs s'"
      by (rule commits_opened [OF co fr opened(1,2,3), of "RdOpened (bp_nextJob s)"]) (simp_all add: opened(5) opened_job_def)
    moreover have "bp_reports opts fs s'"
      by (rule reports_opened [OF re fr opened(1,2,3)]) (simp_all add: opened(5))
    ultimately have "bp_sound env opts fs cur rem logs s'"
      by (rule sound_take [OF so fr len opened(3), where r = r and pc = "RdOpened (bp_nextJob s)"])
        (simp_all add: opened(4,5) view_meta_def)
    then show ?thesis by blast
  next
    case (acquired r j w a)
    from control_acquired [OF c fr acquired(1,2,3)] acquired(5) have w: "cur w = None" "w < bo_indexerThreads opts"
      and c': "bp_control env opts fs (cur(w := Some j)) (rem(w := job_actions opts fs j)) s'" by simp_all
    have j: "is_reads fs j" using bp_frame_reader [OF fr, of r] acquired(1,2) readers by (simp add: reader_frame_def)
    have t: "taken fs s' = taken fs s" by (simp add: taken_def acquired(5))
    have "bp_commits env opts fs (cur(w := Some j)) logs s'"
      by (rule commits_bound [OF co fr w(2) acquired(1,2) w(1) _ _ t, of "job_actions opts fs j"]) (simp_all add: acquired(5))
    moreover have "bp_reports opts fs s'"
    proof (rule reports_same [OF re _ t])
      have "unreported opts fs (RdSending j w (job_actions opts fs j)) = unreported opts fs (bp_readers s ! r)"
        using j by (simp add: acquired(2) unreported_def bad_job_def job_good_def)
      from reader_sum_same [where f = "unreported opts fs", OF fr acquired(1) this]
      show "(\<Sum>v<bo_readerThreads opts. unreported opts fs (bp_readers s' ! v)) =
          (\<Sum>v<bo_readerThreads opts. unreported opts fs (bp_readers s ! v))" by (simp add: acquired(5))
    qed (simp add: acquired(5))
    moreover have "bp_metadata fs s'" by (rule metadata_same [OF me _ t]) (simp add: acquired(5))
    moreover have "length fs \<le> bp_nextJob s'" if "\<exists>x \<in> set (bp_readers s'). x = RdDone"
      by (rule sound_done [OF so _ _ _ that, of r "RdSending j w (job_actions opts fs j)"]) (simp_all add: acquired(5))
    ultimately show ?thesis using c' unfolding bp_sound_def by blast
  next
    case (counted r j w n rest)
    have "bp_control env opts fs cur (rem(w := rest)) s'"
      by (rule control_advance [OF c fr counted(1,2), of "bp_lanes s"]) (simp_all add: counted(3))
    then have "bp_sound env opts fs cur (rem(w := rest)) logs s'"
      by (intro sound_reader_same [OF so fr counted(1) _ after_action_frame(2) [of j w rest]])
        (simp_all add: counted(2,3) after_action_parts, simp_all add: opened_job_def unreported_def)
    then show ?thesis by blast
  next
    case (reported r j w m rest)
    have c': "bp_control env opts fs cur (rem(w := rest)) s'"
      by (rule control_advance [OF c fr reported(1,2), of "bp_lanes s"]) (simp_all add: reported(3))
    have t: "taken fs s' = taken fs s" by (simp add: taken_def reported(3))
    have "bp_commits env opts fs cur logs s'"
    proof (rule commits_same [OF co _ _ t])
      have "opened_job opts fs (after_action j w rest) = opened_job opts fs (bp_readers s ! r)"
        by (simp add: reported(2) after_action_parts) (simp add: opened_job_def)
      from reader_sum_same [where f = "opened_job opts fs", OF fr reported(1) this]
      show "(\<Sum>v<bo_readerThreads opts. opened_job opts fs (bp_readers s' ! v)) =
          (\<Sum>v<bo_readerThreads opts. opened_job opts fs (bp_readers s ! v))" by (simp add: reported(3))
    qed (simp_all add: reported(3))
    moreover have "bp_reports opts fs s'"
      by (rule reports_reported [OF re fr len reported(1,2) _ t]) (simp_all add: reported(3))
    moreover have "bp_metadata fs s'" by (rule metadata_same [OF me _ t]) (simp add: reported(3))
    moreover have "length fs \<le> bp_nextJob s'" if "\<exists>x \<in> set (bp_readers s'). x = RdDone"
      by (rule sound_done [OF so _ after_action_frame(2) [of j w rest] _ that]) (simp_all add: reported(3))
    ultimately show ?thesis using c' unfolding bp_sound_def by blast
  next
    case (pushed r j w b rest q)
    have "bp_control env opts fs cur (rem(w := rest)) s'"
      by (rule control_advance [OF c fr pushed(1,2), of "(bp_lanes s)[w := q]"]) (use pushed(3) in \<open>simp_all add: pushed(4)\<close>)
    then have "bp_sound env opts fs cur (rem(w := rest)) logs s'"
      by (intro sound_reader_same [OF so fr pushed(1) _ after_action_frame(2) [of j w rest]])
        (simp_all add: pushed(2,4) after_action_parts, simp_all add: opened_job_def unreported_def)
    then show ?thesis by blast
  next
    case (refused r j w b rest)
    have w: "w < bo_indexerThreads opts" using bp_frame_reader [OF fr, of r] refused(1,2) readers by (simp add: reader_frame_def)
    have "0 < bp_readersRemaining s" using remaining_pos [OF fr refused(1)] refused(2) by simp
    then have "bq_open (bp_lanes s ! w)" using control_worker(2) [OF c w] bp_frame_lane(3) [OF fr w] ok(1) by (simp add: bq_open_def)
    from open_not_refused [OF this] refused(3) show ?thesis by simp
  next
    case (popped w doc b q)
    have "bp_control env opts fs cur rem s'" using control_popped [OF c fr popped(1-3)] popped(4) by simp
    then have "bp_sound env opts fs cur rem logs s'"
      by (intro sound_indexer_same [OF so]) (simp_all add: popped(4))
    then show ?thesis by blast
  next
    case (ended w)
    have "bp_control env opts fs cur rem s'" using control_ended [OF c fr ok(1) ended(1-3)] ended(4) by simp
    then have "bp_sound env opts fs cur rem logs s'"
      by (intro sound_indexer_same [OF so]) (simp_all add: ended(4))
    then show ?thesis by blast
  next
    case (handled w doc b)
    from c fr ok(1) handled(1,2) show ?thesis
    proof (cases rule: control_handled)
      case (inside d)
      have "bp_sound env opts fs cur rem logs s'"
        unfolding handled(3) by (intro sound_indexer_same [OF so _ _ _ _ _ _ inside(2)]) (simp_all add: inside(1))
      then show ?thesis by blast
    next
      case (committed j)
      have "bp_commits env opts fs (cur(w := None)) (logs(w := logs w @ [j])) s'"
        by (rule commits_committed [OF co fr handled(1) committed(1,2)]) (simp_all add: handled(3) committed(3) taken_def)
      moreover have "bp_reports opts fs s'" "bp_metadata fs s'" using re me
        by (simp_all add: bp_reports_def bp_metadata_def taken_def handled(3) committed(3))
      moreover have "length fs \<le> bp_nextJob s'" if "\<exists>x \<in> set (bp_readers s'). x = RdDone"
        using so that by (simp add: bp_sound_def handled(3) committed(3))
      ultimately show ?thesis using committed(4) unfolding bp_sound_def handled(3) by blast
    next
      case (aborted j)
      have "(\<Sum>v<bo_indexerThreads opts. bound_job opts fs ((cur(w := None)) v)) = (\<Sum>v<bo_indexerThreads opts. bound_job opts fs (cur v))"
        using bound_job_upd [OF handled(1), of opts fs cur None] aborted(1,2) by (simp add: bound_job_def good_job_def)
      then have "bp_sound env opts fs (cur(w := None)) rem logs s'"
        unfolding handled(3) by (intro sound_indexer_same [OF so _ _ _ _ _ _ aborted(4)]) (simp_all add: aborted(3))
      then show ?thesis by blast
    qed
  qed
qed

end
