(* ===== verification/BatchTermination.thy ===== *)
theory BatchTermination
  imports BatchRun
begin

text \<open>
  The theorems on the threads of the full rebuild: no indexer ever finds its blocks out of
  order, what a joined pipeline has committed and reported, and its termination: every step
  lowers the measure \<open>bp_work\<close>, and while a thread is left some thread can step without an
  exception of its environment, so no lane, worker or thread is waited for in vain.
\<close>

section \<open>Reachable states\<close>

lemma handle_block_fatal:
  assumes "bp_control env opts fs cur rem s" "bp_frame opts fs s" "bp_fatalError s = None"
    "w < bo_indexerThreads opts" "bp_indexers s ! w = IxHave doc b"
  shows "bp_fatalError (handle_block env w doc b s) = None"
  using assms by (cases rule: control_handled) (simp_all add: assms(3))

lemma push_accepted:
  assumes fr: "bp_frame opts fs s" and r: "r < length (bp_readers s)" "bp_readers s ! r = RdSending j w (ASend b # rest)"
  shows "w < bo_indexerThreads opts \<and> bq_accepts (bp_lanes s ! w) (block_weight b)"
proof -
  from bp_frame_reader [OF fr r(1)] r(2) obtain pre where j: "is_reads fs j" "w < bo_indexerThreads opts"
    "job_actions opts fs j = pre @ ASend b # rest" by (auto simp: reader_frame_def)
  then have "b \<in> set (jblocks opts fs j)" by (simp add: jblocks_def)
  with jblocks_weight [OF j(1)] bp_frame_lane(2) [OF fr j(2)] j(2) show ?thesis by (simp add: bq_accepts_def)
qed

lemma accepted_not_throws:
  assumes "bq_invar q" and "bq_accepts q n"
  shows "bq_push x n q \<noteq> PushThrows"
proof -
  define w :: nat where "w = (if n = 0 then 1 else n)"
  have o: "(w > q_capacityBytes q) = False" using assms by (simp add: w_def bq_accepts_def bq_invar_def)
  have "(if B then PushWaits else if C then PushRefused else Pushed y) \<noteq> PushThrows" for B C and y :: "'a byte_queue"
    by simp
  then show ?thesis unfolding bq_push_def Let_def w_def [symmetric] o if_False by blast
qed

text \<open>Only an exception of the environment stops a pipeline that is in order.\<close>

lemma reader_step_fatal:
  assumes fr: "bp_frame opts fs s" and ok: "bp_fatalError s = None"
    and r: "r < length (bp_readers s)" and st: "reader_step opts fs r s = Some s'"
  shows "bp_fatalError s' = None"
proof (cases "bp_readers s ! r")
  case (RdSending j w acts)
  then obtain a rest where acts: "acts = a # rest" using bp_frame_reader [OF fr r] by (cases acts) (simp_all add: reader_frame_def)
  show ?thesis
  proof (cases a)
    case (ASend b)
    then have "w < bo_indexerThreads opts" "bq_accepts (bp_lanes s ! w) (block_weight b)"
      using RdSending acts push_accepted [OF fr r] by auto
    from accepted_not_throws [OF bp_frame_lane(1) [OF fr this(1)] this(2)]
    have "bq_push b (block_weight b) (bp_lanes s ! w) \<noteq> PushThrows" .
    with st RdSending acts ASend ok show ?thesis
      by (auto simp: reader_step_def do_action_def split: push_result.splits)
  qed (use st RdSending acts ok in \<open>auto simp: reader_step_def do_action_def\<close>)
qed (use st ok in \<open>auto simp: reader_step_def take_job_def acquire_worker_def Let_def
       split: file_view.splits acquire_result.splits if_splits\<close>)

lemma indexer_step_fatal:
  assumes c: "bp_control env opts fs cur rem s" and fr: "bp_frame opts fs s" and ok: "bp_fatalError s = None"
    and w: "w < length (bp_indexers s)" and st: "indexer_step env w s = Some s'"
  shows "bp_fatalError s' = None"
proof -
  have w': "w < bo_indexerThreads opts" using w fr by (simp add: bp_frame_def)
  show ?thesis
  proof (cases "bp_indexers s ! w")
    case (IxPop doc)
    with end_of_lane [OF c fr ok w' IxPop] st ok show ?thesis
      by (auto simp: indexer_step_def pop_block_def split: pop_result.splits if_splits)
  next
    case (IxHave doc b)
    with handle_block_fatal [OF c fr ok w' IxHave] st show ?thesis by (auto simp: indexer_step_def)
  qed (use st in \<open>simp add: indexer_step_def\<close>)
qed

lemma fatal_step:
  assumes st: "bp_step env opts fs s s'" and c: "bp_control env opts fs cur rem s" and fr: "bp_frame opts fs s"
    and ok: "bp_fatalError s = None"
  shows "bp_fatalError s' = None \<or> bp_fatalError s' = Some FatalResource"
  using st
proof cases
  case (reader r)
  with reader_step_fatal [OF fr ok] show ?thesis by blast
next
  case (indexer w)
  with indexer_step_fatal [OF c fr ok] show ?thesis by blast
qed (use ok in \<open>auto simp: setFatal_def reader_exit_def set_indexer_def Let_def\<close>)

lemma setFatal_keeps: "bp_fatalError s = Some e \<Longrightarrow> bp_fatalError (setFatal e' s) = Some e"
  by (simp add: setFatal_def)

lemma fatal_step_keeps:
  assumes "bp_step env opts fs s s'" and e: "bp_fatalError s = Some e"
  shows "bp_fatalError s' = Some e"
  using assms(1)
proof cases
  case (reader r)
  then show ?thesis using e
    by (auto simp: reader_step_def take_job_def acquire_worker_def do_action_def Let_def setFatal_keeps
        split: reader_pc.splits list.splits reader_action.splits push_result.splits file_view.splits
          acquire_result.splits if_splits)
next
  case (indexer w)
  then show ?thesis using e
    by (auto simp: indexer_step_def pop_block_def handle_block_def setFatal_keeps
        split: indexer_pc.splits pop_result.splits block_kind.splits if_splits)
qed (use e in \<open>simp_all add: setFatal_keeps\<close>)

text \<open>What holds in every reachable state.\<close>

lemma reach_sound:
  assumes re: "bp_reach env opts fs s" and o: "0 < bo_readerThreads opts" "0 < bo_indexerThreads opts"
    and len: "length fs < 2 ^ 32"
  shows "(bp_fatalError s = None \<longrightarrow> (\<exists>cur rem logs. bp_sound env opts fs cur rem logs s)) \<and>
    (bp_fatalError s = None \<or> bp_fatalError s = Some FatalResource)"
  using re
proof (induction rule: bp_reach.induct)
  case init
  have "bp_fatalError (bp_init opts (length fs)) = None" by (simp add: bp_init_def)
  with bp_sound_init [OF o(1)] show ?case by blast
next
  case (step s s')
  have fr: "bp_frame opts fs s" by (rule bp_reach_frame [OF step.hyps(1) o(2)])
  show ?case
  proof (cases "bp_fatalError s")
    case None
    with step.IH obtain cur rem logs where so: "bp_sound env opts fs cur rem logs s" by blast
    then have "bp_control env opts fs cur rem s" unfolding bp_sound_def by blast
    from fatal_step [OF step.hyps(2) this fr None] bp_sound_step [OF step.hyps(2) so fr len None] show ?thesis by blast
  next
    case (Some e)
    with step.IH fatal_step_keeps [OF step.hyps(2) Some] show ?thesis by simp
  qed
qed

section \<open>Progress\<close>

lemma pop_ready:
  assumes "bq_invar q" and "q_cancelled q \<or> bq_items q \<noteq> [] \<or> q_closed q"
  shows "bq_pop q \<noteq> PopWaits"
  using assms bq.pop_end [OF assms(1)] bq.pop_some [OF assms(1)] by (force simp: bq_open_def)

lemma indexer_ready:
  assumes fr: "bp_frame opts fs s" and w: "w < bo_indexerThreads opts" "bp_indexers s ! w \<noteq> IxDone"
    and q: "\<And>doc. bp_indexers s ! w = IxPop doc \<Longrightarrow>
      q_cancelled (bp_lanes s ! w) \<or> bq_items (bp_lanes s ! w) \<noteq> [] \<or> q_closed (bp_lanes s ! w)"
  shows "indexer_step env w s \<noteq> None"
proof (cases "bp_indexers s ! w")
  case (IxPop doc)
  with pop_ready [OF bp_frame_lane(1) [OF fr w(1)] q] show ?thesis
    by (simp add: indexer_step_def pop_block_def split: pop_result.splits)
qed (use w(2) in \<open>simp_all add: indexer_step_def\<close>)

lemma sending_ready:
  assumes fr: "bp_frame opts fs s" and r: "r < length (bp_readers s)" "bp_readers s ! r = RdSending j w acts"
    and q: "q_cancelled (bp_lanes s ! w) \<or> bq_items (bp_lanes s ! w) = []"
  shows "reader_step opts fs r s \<noteq> None"
proof (cases acts)
  case (Cons a rest)
  have "bq_push b (block_weight b) (bp_lanes s ! w) \<noteq> PushWaits" if a: "a = ASend b" for b
  proof -
    have acc: "w < bo_indexerThreads opts" "bq_accepts (bp_lanes s ! w) (block_weight b)"
      using push_accepted [OF fr r(1)] r(2) Cons a by auto
    note inv = bp_frame_lane(1) [OF fr acc(1)]
    show ?thesis
      using bq.push_closed [OF inv _ acc(2), of b] bq.push_empty [OF inv _ _ acc(2), of b] q
      by (cases "bq_open (bp_lanes s ! w)") (auto simp: bq_open_def)
  qed
  with r(2) Cons show ?thesis
    by (auto simp: reader_step_def do_action_def split: reader_action.splits push_result.splits)
qed (use r(2) in \<open>simp add: reader_step_def\<close>)

lemma progress_fatal:
  assumes fr: "bp_frame opts fs s" and f: "bp_fatalError s \<noteq> None" and j: "\<not> bp_joined s"
  shows "(\<exists>r < length (bp_readers s). reader_step opts fs r s \<noteq> None) \<or>
    (\<exists>w < length (bp_indexers s). indexer_step env w s \<noteq> None)"
proof -
  from j consider r where "r < length (bp_readers s)" "bp_readers s ! r \<noteq> RdDone"
    | w where "w < length (bp_indexers s)" "bp_indexers s ! w \<noteq> IxDone"
    by (auto simp: bp_joined_def in_set_conv_nth)
  then show ?thesis
  proof cases
    case (1 r)
    have "reader_step opts fs r s \<noteq> None"
    proof (cases "bp_readers s ! r")
      case (RdOpened i)
      moreover have "aw_cancelled (bp_workers s)" using fr f by (simp add: bp_frame_def)
      ultimately show ?thesis by (simp add: reader_step_def acquire_worker_def aw_acquire_def)
    next
      case (RdSending i w acts)
      then have "w < bo_indexerThreads opts" using bp_frame_reader [OF fr 1(1)] by (simp add: reader_frame_def)
      with bp_frame_lane(3) [OF fr] f sending_ready [OF fr 1(1) RdSending] show ?thesis by simp
    qed (use 1(2) in \<open>simp_all add: reader_step_def\<close>)
    with 1(1) show ?thesis by blast
  next
    case (2 w)
    then have w: "w < bo_indexerThreads opts" using fr by (simp add: bp_frame_def)
    from indexer_ready [OF fr w 2(2)] bp_frame_lane(3) [OF fr w] f 2(1) show ?thesis by blast
  qed
qed

lemma progress_normal:
  assumes c: "bp_control env opts fs cur rem s" and fr: "bp_frame opts fs s"
    and o: "0 < bo_indexerThreads opts" and j: "\<not> bp_joined s" and ok: "bp_fatalError s = None"
  shows "(\<exists>r < length (bp_readers s). reader_step opts fs r s \<noteq> None) \<or>
    (\<exists>w < length (bp_indexers s). indexer_step env w s \<noteq> None)"
proof (rule ccontr)
  assume "\<not> ?thesis"
  then have nr: "\<And>r. r < length (bp_readers s) \<Longrightarrow> reader_step opts fs r s = None"
    and ni: "\<And>w. w < length (bp_indexers s) \<Longrightarrow> indexer_step env w s = None" by auto
  have len: "length (bp_readers s) = bo_readerThreads opts" "length (bp_indexers s) = bo_indexerThreads opts"
    using fr by (simp_all add: bp_frame_def)
  have h: "holders cur rem (bp_readers s)" using c by (simp add: bp_control_def)
  have idle: "bp_indexers s ! w = IxDone \<or>
      (\<exists>doc. bp_indexers s ! w = IxPop doc) \<and> bq_items (bp_lanes s ! w) = [] \<and> \<not> q_closed (bp_lanes s ! w)"
    if w: "w < bo_indexerThreads opts" for w
  proof (cases "bp_indexers s ! w")
    case (IxPop doc)
    then have "bp_indexers s ! w \<noteq> IxDone" by simp
    from indexer_ready [where env = env, OF fr w this] ni [of w] w len(2) IxPop show ?thesis by auto
  qed (use ni [of w] w len(2) in \<open>simp_all add: indexer_step_def\<close>)
  have no_sender: "bp_readers s ! r \<noteq> RdSending i w acts" if r: "r < length (bp_readers s)" for r i w acts
  proof
    assume s: "bp_readers s ! r = RdSending i w acts"
    then have w: "w < bo_indexerThreads opts" using bp_frame_reader [OF fr r] by (simp add: reader_frame_def)
    have "0 < bp_readersRemaining s" using remaining_pos [OF fr, of r] r len s by simp
    with idle [OF w] control_worker(3) [OF c w] have "bq_items (bp_lanes s ! w) = []" by auto
    with sending_ready [OF fr r s] nr [OF r] show False by simp
  qed
  have rem: "rem w = []" for w using holders_some [OF h, of w] no_sender by blast
  have free: "cur w = None" if w: "w < bo_indexerThreads opts" for w
  proof (rule ccontr)
    assume "cur w \<noteq> None"
    then obtain i where "cur w = Some i" by auto
    with control_worker(1) [OF c w] idle [OF w] rem [of w] show False
      by (auto simp: worker_ok_def bound_ok_def ix_view_def)
  qed
  have all_done: "bp_readers s ! r = RdDone" if r: "r < length (bp_readers s)" for r
  proof (cases "bp_readers s ! r")
    case (RdOpened i)
    have "0 \<in> set (aw_workers (bp_workers s))" using c o free by (simp add: bp_control_def)
    then have "aw_workers (bp_workers s) \<noteq> []" by auto
    with RdOpened nr [OF r] show ?thesis
      by (auto simp: reader_step_def acquire_worker_def aw_acquire_def split: if_splits)
  qed (use nr [OF r] no_sender [OF r] in \<open>simp_all add: reader_step_def\<close>)
  then have "bp_readersRemaining s = 0" using fr len(1) by (simp add: bp_frame_def running_def)
  then have "bp_indexers s ! w = IxDone" if "w < bo_indexerThreads opts" for w
    using idle [OF that] control_worker(2) [OF c that] by auto
  with all_done len j show False by (auto simp: bp_joined_def in_set_conv_nth)
qed

lemma progress:
  assumes re: "bp_reach env opts fs s" and o: "0 < bo_readerThreads opts" "0 < bo_indexerThreads opts"
    and len: "length fs < 2 ^ 32" and j: "\<not> bp_joined s"
  shows "(\<exists>r < length (bp_readers s). reader_step opts fs r s \<noteq> None) \<or>
    (\<exists>w < length (bp_indexers s). indexer_step env w s \<noteq> None)"
proof (cases "bp_fatalError s = None")
  case True
  with reach_sound [OF re o len] obtain cur rem where "bp_control env opts fs cur rem s" unfolding bp_sound_def by blast
  from progress_normal [OF this bp_reach_frame [OF re o(2)] o(2) j True] show ?thesis .
next
  case False
  from progress_fatal [OF bp_reach_frame [OF re o(2)] this j] show ?thesis .
qed

section \<open>The measure\<close>

definition reader_work :: "batch_options \<Rightarrow> (wstring \<times> file_view) list \<Rightarrow> reader_pc \<Rightarrow> nat" where
  "reader_work opts fs pc =
     (case pc of RdDone \<Rightarrow> 0 | RdIdle \<Rightarrow> 1
       | RdOpened j \<Rightarrow> 3 * length (job_actions opts fs j) + 2
       | RdSending j w rest \<Rightarrow> 3 * length rest + 1)"

definition indexer_work :: "indexer_pc \<Rightarrow> nat" where
  "indexer_work pc = (case pc of IxDone \<Rightarrow> 0 | IxPop d \<Rightarrow> 1 | IxHave d b \<Rightarrow> 2)"

definition lane_work :: "file_block byte_queue \<Rightarrow> nat" where
  "lane_work q = 2 * length (bq_items q)"

definition job_work :: "batch_options \<Rightarrow> (wstring \<times> file_view) list \<Rightarrow> pipeline \<Rightarrow> nat" where
  "job_work opts fs s = (\<Sum>j\<in>{bp_nextJob s..<length fs}. 3 * length (job_actions opts fs j) + 3)"

definition bp_work :: "batch_options \<Rightarrow> (wstring \<times> file_view) list \<Rightarrow> pipeline \<Rightarrow> nat" where
  "bp_work opts fs s = job_work opts fs s + sum_list (map (reader_work opts fs) (bp_readers s)) +
     sum_list (map indexer_work (bp_indexers s)) + sum_list (map lane_work (bp_lanes s))"

lemma sum_list_map_update:
  "i < length xs \<Longrightarrow> sum_list (map f (xs[i := x])) + f (xs ! i) = sum_list (map f xs) + (f x :: nat)"
  by (induction xs arbitrary: i) (auto simp: nth_Cons split: nat.splits)

lemma lane_work_simps [simp]: "lane_work (bq_cancel q) = 0" "lane_work (bq_close q) = lane_work q"
  by (simp_all add: lane_work_def bq_cancel_def bq_close_def bq_items_def)

lemma work_setFatal: "bp_work opts fs (setFatal e s) \<le> bp_work opts fs s"
  by (simp add: bp_work_def job_work_def setFatal_def comp_def)

lemma work_exit:
  assumes "r < length (bp_readers s)" and "bp_readers s ! r \<noteq> RdDone"
  shows "bp_work opts fs (reader_exit r s) < bp_work opts fs s"
proof -
  have "sum_list (map (reader_work opts fs) ((bp_readers s)[r := RdDone])) + reader_work opts fs (bp_readers s ! r) =
      sum_list (map (reader_work opts fs) (bp_readers s))"
    using sum_list_map_update [OF assms(1), of "reader_work opts fs" RdDone] by (simp add: reader_work_def)
  moreover have "0 < reader_work opts fs (bp_readers s ! r)" using assms(2) by (simp add: reader_work_def split: reader_pc.splits)
  ultimately show ?thesis
    by (simp add: bp_work_def job_work_def reader_exit_def Let_def comp_def)
qed

lemma work_set_reader:
  assumes "r < length (bp_readers s)"
  shows "bp_work opts fs (set_reader r pc s) + reader_work opts fs (bp_readers s ! r) = bp_work opts fs s + reader_work opts fs pc"
  using sum_list_map_update [OF assms, of "reader_work opts fs" pc] by (simp add: bp_work_def job_work_def set_reader_def)

lemma work_set_indexer:
  assumes "w < length (bp_indexers s)"
  shows "bp_work opts fs (set_indexer w pc s) + indexer_work (bp_indexers s ! w) = bp_work opts fs s + indexer_work pc"
  using sum_list_map_update [OF assms, of indexer_work pc] by (simp add: bp_work_def job_work_def set_indexer_def)

lemma work_set_lane:
  assumes "w < length (bp_lanes s)"
  shows "bp_work opts fs (s\<lparr>bp_lanes := (bp_lanes s)[w := q]\<rparr>) + lane_work (bp_lanes s ! w) = bp_work opts fs s + lane_work q"
  using sum_list_map_update [OF assms, of lane_work q] by (simp add: bp_work_def job_work_def)

lemma reader_work_after_action: "reader_work opts fs (after_action j w rest) \<le> 3 * length rest + 1"
  by (simp add: after_action_def reader_work_def)

lemma work_take:
  assumes r: "r < length (bp_readers s)" "bp_readers s ! r = RdIdle"
  shows "bp_work opts fs (take_job fs r s) < bp_work opts fs s"
proof (cases "length fs \<le> bp_nextJob s")
  case True
  have "bp_work opts fs (s\<lparr>bp_nextJob := bp_nextJob s + 1\<rparr>) \<le> bp_work opts fs s" using True by (simp add: bp_work_def job_work_def)
  with work_exit [of r "s\<lparr>bp_nextJob := bp_nextJob s + 1\<rparr>" opts fs] r True show ?thesis by (simp add: take_job_def Let_def)
next
  case False
  let ?j = "bp_nextJob s"
  have "{?j..<length fs} = insert ?j {Suc ?j..<length fs}" using False by auto
  then have jw: "job_work opts fs s = 3 * length (job_actions opts fs ?j) + 3 + (\<Sum>j\<in>{Suc ?j..<length fs}. 3 * length (job_actions opts fs j) + 3)"
    by (simp add: job_work_def)
  have w: "bp_work opts fs (s\<lparr>bp_nextJob := ?j + 1, bp_documentMetadata := m\<rparr>) + 3 * length (job_actions opts fs ?j) + 3 = bp_work opts fs s" for m
    using jw by (simp add: bp_work_def job_work_def)
  show ?thesis
  proof (cases "snd (fs ! ?j)")
    case (Reads meta bytes k)
    have "bp_work opts fs (take_job fs r s) + 1 = bp_work opts fs (s\<lparr>bp_nextJob := ?j + 1, bp_documentMetadata := (bp_documentMetadata s)[?j := meta]\<rparr>) +
        3 * length (job_actions opts fs ?j) + 2"
      using work_set_reader [of r "s\<lparr>bp_nextJob := ?j + 1, bp_documentMetadata := (bp_documentMetadata s)[?j := meta]\<rparr>" opts fs "RdOpened ?j"] r False Reads
      by (simp add: take_job_def Let_def reader_work_def)
    with w [of "(bp_documentMetadata s)[?j := meta]"] show ?thesis by simp
  next
    case (MetaFails m)
    then have "bp_work opts fs (take_job fs r s) = bp_work opts fs (s\<lparr>bp_nextJob := ?j + 1, bp_documentMetadata := bp_documentMetadata s\<rparr>)"
      using False by (simp add: take_job_def Let_def addFileError_def bp_work_def job_work_def)
    with w [of "bp_documentMetadata s"] show ?thesis by simp
  next
    case (OpenFails meta)
    then have "bp_work opts fs (take_job fs r s) = bp_work opts fs (s\<lparr>bp_nextJob := ?j + 1, bp_documentMetadata := (bp_documentMetadata s)[?j := meta]\<rparr>)"
      using False by (simp add: take_job_def Let_def addFileError_def bp_work_def job_work_def)
    with w [of "(bp_documentMetadata s)[?j := meta]"] show ?thesis by simp
  qed
qed

lemma work_action:
  assumes fr: "bp_frame opts fs s" and r: "r < length (bp_readers s)" "bp_readers s ! r = RdSending j w (a # rest)"
    and st: "do_action fs r j w a rest s = Some s'"
  shows "bp_work opts fs s' < bp_work opts fs s"
proof -
  have aa: "reader_work opts fs (after_action j w rest) + 3 \<le> reader_work opts fs (bp_readers s ! r)"
    using reader_work_after_action [of opts fs j w rest] r(2) by (simp add: reader_work_def)
  show ?thesis
  proof (cases a)
    case (ACount n)
    have "bp_work opts fs (s\<lparr>bp_bytesRead := b\<rparr>) = bp_work opts fs s" for b by (simp add: bp_work_def job_work_def)
    with st ACount aa work_set_reader [of r "s\<lparr>bp_bytesRead := bp_bytesRead s + of_nat n\<rparr>" opts fs "after_action j w rest"] r(1)
    show ?thesis by (auto simp: do_action_def)
  next
    case (AError m)
    have "bp_work opts fs (addFileError f p m s) = bp_work opts fs s" for f p m by (simp add: bp_work_def job_work_def addFileError_def)
    with st AError aa work_set_reader [of r "addFileError (of_nat j) (fst (fs ! j)) m s" opts fs "after_action j w rest"] r(1)
    show ?thesis by (auto simp: do_action_def)
  next
    case (ASend b)
    show ?thesis
    proof (cases "bq_push b (block_weight b) (bp_lanes s ! w)")
      case PushThrows
      with st ASend work_exit [of r "setFatal FatalLength s" opts fs] work_setFatal [of opts fs FatalLength s] r
      show ?thesis by (auto simp: do_action_def)
    next
      case PushRefused
      with st ASend work_exit [of r s opts fs] r show ?thesis by (auto simp: do_action_def)
    next
      case (Pushed q)
      have w: "w < bo_indexerThreads opts" using push_accepted [OF fr r(1)] r(2) ASend by auto
      then have len: "w < length (bp_lanes s)" using fr by (simp add: bp_frame_def)
      have "lane_work q = lane_work (bp_lanes s ! w) + 2"
        using bq.push_items [OF bp_frame_lane(1) [OF fr w] Pushed] by (simp add: lane_work_def)
      with work_set_lane [OF len, of opts fs q] have "bp_work opts fs (s\<lparr>bp_lanes := (bp_lanes s)[w := q]\<rparr>) = bp_work opts fs s + 2" by simp
      with st ASend Pushed aa work_set_reader [of r "s\<lparr>bp_lanes := (bp_lanes s)[w := q]\<rparr>" opts fs "after_action j w rest"] r(1)
      show ?thesis by (auto simp: do_action_def)
    qed (use st ASend in \<open>simp add: do_action_def\<close>)
  qed
qed

lemma work_reader:
  assumes fr: "bp_frame opts fs s" and r: "r < length (bp_readers s)" and st: "reader_step opts fs r s = Some s'"
  shows "bp_work opts fs s' < bp_work opts fs s"
proof (cases "bp_readers s ! r")
  case RdIdle
  with st work_take [OF r] show ?thesis by (auto simp: reader_step_def)
next
  case (RdOpened j)
  show ?thesis
  proof (cases "aw_acquire (bp_workers s)")
    case (Acquired w a)
    have "bp_work opts fs (s\<lparr>bp_workers := a\<rparr>) = bp_work opts fs s" by (simp add: bp_work_def job_work_def)
    with st RdOpened Acquired work_set_reader [of r "s\<lparr>bp_workers := a\<rparr>" opts fs "RdSending j w (job_actions opts fs j)"] r
    show ?thesis by (auto simp: reader_step_def acquire_worker_def reader_work_def)
  qed (use st RdOpened work_exit [OF r] in \<open>auto simp: reader_step_def acquire_worker_def\<close>)
next
  case (RdSending j w acts)
  then obtain a rest where acts: "acts = a # rest" using bp_frame_reader [OF fr r] by (cases acts) (simp_all add: reader_frame_def)
  with RdSending st work_action [OF fr r] show ?thesis by (simp add: reader_step_def)
qed (use st in \<open>simp add: reader_step_def\<close>)

lemma work_set_done:
  assumes "w < length (bp_indexers s)" and "bp_indexers s ! w \<noteq> IxDone"
  shows "bp_work opts fs (set_indexer w IxDone s) < bp_work opts fs s"
proof -
  have "0 < indexer_work (bp_indexers s ! w)" using assms(2) by (simp add: indexer_work_def split: indexer_pc.splits)
  moreover have "indexer_work IxDone = 0" by (simp add: indexer_work_def)
  ultimately show ?thesis using work_set_indexer [OF assms(1), of opts fs IxDone] by simp
qed

lemma work_indexer_fails:
  assumes "w < length (bp_indexers s)" and "bp_indexers s ! w \<noteq> IxDone"
  shows "bp_work opts fs (set_indexer w IxDone (setFatal e s)) < bp_work opts fs s"
  using work_set_done [of w "setFatal e s" opts fs] work_setFatal [of opts fs e s] assms by simp

lemma work_indexer:
  assumes fr: "bp_frame opts fs s" and w: "w < length (bp_indexers s)" and st: "indexer_step env w s = Some s'"
  shows "bp_work opts fs s' < bp_work opts fs s"
proof (cases "bp_indexers s ! w")
  case (IxPop doc)
  have w': "w < bo_indexerThreads opts" "w < length (bp_lanes s)" using fr w by (simp_all add: bp_frame_def)
  show ?thesis
  proof (cases "bq_pop (bp_lanes s ! w)")
    case (Popped b q)
    have "lane_work q + 2 = lane_work (bp_lanes s ! w)"
      using bq.pop_items [OF bp_frame_lane(1) [OF fr w'(1)] Popped] by (simp add: lane_work_def)
    with work_set_lane [OF w'(2), of opts fs q] have "bp_work opts fs (s\<lparr>bp_lanes := (bp_lanes s)[w := q]\<rparr>) + 2 = bp_work opts fs s" by simp
    with st IxPop Popped work_set_indexer [of w "s\<lparr>bp_lanes := (bp_lanes s)[w := q]\<rparr>" opts fs "IxHave doc b"] w
    show ?thesis by (auto simp: indexer_step_def pop_block_def indexer_work_def)
  qed (use st IxPop w work_set_done [of w s] work_indexer_fails [of w s] in \<open>auto simp: indexer_step_def pop_block_def\<close>)
next
  case (IxHave doc b)
  then have s': "s' = handle_block env w doc b s" using st by (auto simp: indexer_step_def)
  have fail: "bp_work opts fs (set_indexer w IxDone (setFatal e s)) < bp_work opts fs s" for e
    using work_indexer_fails [of w s] w IxHave by simp
  have on: "bp_work opts fs (set_indexer w (IxPop d) t) < bp_work opts fs s"
    if "bp_work opts fs t = bp_work opts fs s" "bp_indexers t = bp_indexers s" for d t
    using work_set_indexer [of w t opts fs "IxPop d"] that w IxHave by (simp add: indexer_work_def)
  have same: "bp_work opts fs (s\<lparr>bp_workers := a\<rparr>) = bp_work opts fs s"
    "bp_work opts fs (s\<lparr>bp_localDictionaries := l, bp_indexedFiles := n, bp_workers := a\<rparr>) = bp_work opts fs s" for a l n
    by (simp_all add: bp_work_def job_work_def)
  show ?thesis unfolding s' handle_block_def
    by (auto intro: fail on simp: same split: block_kind.split)
qed (use st in \<open>simp add: indexer_step_def\<close>)

lemma work_step:
  assumes st: "bp_step env opts fs s s'" and fr: "bp_frame opts fs s"
  shows "bp_work opts fs s' < bp_work opts fs s"
  using st
proof cases
  case (reader r)
  with work_reader [OF fr] show ?thesis by blast
next
  case (indexer w)
  with work_indexer [OF fr] show ?thesis by blast
next
  case (reader_throws r)
  with work_exit [of r "setFatal FatalResource s" opts fs] work_setFatal [of opts fs FatalResource s] show ?thesis by simp
next
  case (indexer_throws w)
  with work_indexer_fails show ?thesis by simp
qed

section \<open>What a joined pipeline has done\<close>

lemma sum_singletons: "(\<Sum>j<n. if P j then {#j#} else {#}) = mset (filter P [0..<n])"
  by (induction n) auto

lemma mset_concat_upt: "(\<Sum>w<k. mset (f w)) = mset (concat (map f [0..<k]))"
  by (induction k) auto

lemma joined_accounts:
  assumes re: "bp_reach env opts fs s" and o: "0 < bo_readerThreads opts" "0 < bo_indexerThreads opts"
    and len: "length fs < 2 ^ 32" and j: "bp_joined s" and ok: "bp_fatalError s = None"
  shows "(\<exists>logs. bp_localDictionaries s = map (\<lambda>js. fold (\<lambda>j. commitDocument (job_doc env opts fs j)) js []) logs \<and>
      mset (concat logs) = mset (filter (job_good opts fs) [0..<length fs])) \<and>
    mset (map (unat \<circ> fst) (bp_fileErrors s)) = mset (filter (\<lambda>j. \<not> job_good opts fs j) [0..<length fs]) \<and>
    bp_indexedFiles s = length (filter (job_good opts fs) [0..<length fs]) \<and> bp_metadata fs s \<and>
    taken fs s = length fs \<and> bp_reports opts fs s"
proof -
  let ?k = "bo_indexerThreads opts"
  have fr: "bp_frame opts fs s" by (rule bp_reach_frame [OF re o(2)])
  from reach_sound [OF re o len] ok obtain cur rem logs where so: "bp_sound env opts fs cur rem logs s" by blast
  then have c: "bp_control env opts fs cur rem s" and co: "bp_commits env opts fs cur logs s"
    and rp: "bp_reports opts fs s" and me: "bp_metadata fs s" unfolding bp_sound_def by blast+
  have lens: "length (bp_readers s) = bo_readerThreads opts" "length (bp_indexers s) = ?k" "length (bp_localDictionaries s) = ?k"
    using fr by (simp_all add: bp_frame_def)
  have rd: "bp_readers s ! r = RdDone" if "r < bo_readerThreads opts" for r
    using j that lens(1) by (simp add: bp_joined_def)
  have ix: "bp_indexers s ! w = IxDone" if "w < ?k" for w using j that lens(2) by (simp add: bp_joined_def)
  have "\<exists>pc \<in> set (bp_readers s). pc = RdDone" using rd [OF o(1)] o(1) lens(1) by (metis nth_mem)
  then have "length fs \<le> bp_nextJob s" using so unfolding bp_sound_def by blast
  then have t: "taken fs s = length fs" by (simp add: taken_def)
  have cur: "cur w = None" if w: "w < ?k" for w
    using control_worker(1) [OF c w] ix [OF w] by (cases "cur w") (auto simp: worker_ok_def bound_ok_def ix_view_def)
  have z: "(\<Sum>r<bo_readerThreads opts. opened_job opts fs (bp_readers s ! r)) = {#}"
    "(\<Sum>w<?k. bound_job opts fs (cur w)) = {#}" "(\<Sum>r<bo_readerThreads opts. unreported opts fs (bp_readers s ! r)) = {#}"
    using rd cur by (simp_all add: opened_job_def bound_job_def unreported_def)
  have good: "(\<Sum>w<?k. mset (logs w)) = mset (filter (job_good opts fs) [0..<length fs])"
    using co z t by (simp add: bp_commits_def good_job_def sum_singletons)
  have bad: "mset (map (unat \<circ> fst) (bp_fileErrors s)) = mset (filter (\<lambda>j. \<not> job_good opts fs j) [0..<length fs])"
  proof -
    have "(\<Sum>j<n. bad_job opts fs j) = mset (filter (\<lambda>j. \<not> job_good opts fs j) [0..<n])" for n
      by (induction n) (auto simp: bad_job_def)
    with rp z(3) t show ?thesis by (simp add: bp_reports_def)
  qed
  have "bp_localDictionaries s = map (\<lambda>js. fold (\<lambda>j. commitDocument (job_doc env opts fs j)) js []) (map logs [0..<?k])"
    using co lens(3) by (intro nth_equalityI) (simp_all add: bp_commits_def)
  moreover have "mset (concat (map logs [0..<?k])) = mset (filter (job_good opts fs) [0..<length fs])"
    using good by (simp add: mset_concat_upt)
  moreover have "bp_indexedFiles s = length (filter (job_good opts fs) [0..<length fs])"
  proof -
    have l: "(\<Sum>w<k. length (logs w)) = size (\<Sum>w<k. mset (logs w))" for k by (induction k) auto
    have "(\<Sum>w<?k. length (logs w)) = length (filter (job_good opts fs) [0..<length fs])"
      unfolding l good by (rule size_mset)
    moreover have "bp_indexedFiles s = (\<Sum>w<?k. length (logs w))" using co unfolding bp_commits_def by blast
    ultimately show ?thesis by simp
  qed
  ultimately show ?thesis using bad me t rp by blast
qed

lemma builder_pos:
  "0 < bo_readerThreads (BatchIndexBuilder detected o0)" "0 < bo_indexerThreads (BatchIndexBuilder detected o0)"
  by (simp_all add: BatchIndexBuilder_def Let_def resolveIndexerThreads_def)

text \<open>As long as no thread dies of an exception of its environment, a rebuild can always be
  continued until all threads have joined.\<close>

lemma step_without_throw:
  assumes re: "bp_reach env opts fs s" and o: "0 < bo_readerThreads opts" "0 < bo_indexerThreads opts"
    and len: "length fs < 2 ^ 32" and j: "\<not> bp_joined s" and ok: "bp_fatalError s = None"
  shows "\<exists>s'. bp_step env opts fs s s' \<and> bp_fatalError s' = None"
proof -
  have fr: "bp_frame opts fs s" by (rule bp_reach_frame [OF re o(2)])
  from reach_sound [OF re o len] ok obtain cur rem logs where "bp_sound env opts fs cur rem logs s" by blast
  then have c: "bp_control env opts fs cur rem s" unfolding bp_sound_def by blast
  from progress [OF re o len j] show ?thesis
  proof (elim disjE exE conjE)
    fix r assume r: "r < length (bp_readers s)" "reader_step opts fs r s \<noteq> None"
    then obtain s' where s': "reader_step opts fs r s = Some s'" by auto
    have "bp_fatalError s' = None" by (rule reader_step_fatal [OF fr ok r(1) s'])
    with bp_step.reader [OF r(1) s'] show ?thesis by blast
  next
    fix w assume w: "w < length (bp_indexers s)" "indexer_step env w s \<noteq> None"
    then obtain s' where s': "indexer_step env w s = Some s'" by auto
    have "bp_fatalError s' = None" by (rule indexer_step_fatal [OF c fr ok w(1) s'])
    with bp_step.indexer [OF w(1) s'] show ?thesis by blast
  qed
qed

lemma joined_reachable:
  assumes "bp_reach env opts fs s" and o: "0 < bo_readerThreads opts" "0 < bo_indexerThreads opts"
    and len: "length fs < 2 ^ 32" and "bp_fatalError s = None"
  shows "\<exists>s'. bp_reach env opts fs s' \<and> bp_joined s' \<and> bp_fatalError s' = None"
  using assms(1,5)
proof (induction "bp_work opts fs s" arbitrary: s rule: less_induct)
  case less
  show ?case
  proof (cases "bp_joined s")
    case False
    from step_without_throw [OF less.prems(1) o len False less.prems(2)] obtain s' where
      s': "bp_step env opts fs s s'" "bp_fatalError s' = None" by blast
    have "bp_work opts fs s' < bp_work opts fs s" by (rule work_step [OF s'(1) bp_reach_frame [OF less.prems(1) o(2)]])
    from less.hyps [OF this bp_reach.step [OF less.prems(1) s'(1)] s'(2)] show ?thesis .
  qed (use less.prems in blast)
qed

section \<open>Properties\<close>


text \<open>The hypotheses hold in a reachable state whose threads have all joined.\<close>

lemma joined_example:
  assumes "length fs < 2 ^ 32"
  shows "\<exists>s. bp_reach env (BatchIndexBuilder detected o0) fs s \<and> bp_joined s \<and> bp_fatalError s = None"
proof (rule joined_reachable [OF bp_reach.init builder_pos assms])
  show "bp_fatalError (bp_init (BatchIndexBuilder detected o0) (length fs)) = None" by (simp add: bp_init_def)
qed

text \<open>A small rebuild for the examples: one file, two readers, automatic indexers on four cores.\<close>

definition demo_env :: tok_env where
  "demo_env = \<lparr>te_avx2 = False, te_upper = id, te_firstOEM = CHR 0x80, te_ispunct = (\<lambda>c. c = CHR 0x2E)\<rparr>"

definition demo_options :: batch_options where
  "demo_options = BatchIndexBuilder 4 \<lparr>bo_readerThreads = 2, bo_indexerThreads = 0, bo_queueMemoryBytes = 4096\<rparr>"

definition demo_files :: "(wstring \<times> file_view) list" where
  "demo_files = [([65], Reads (1, 7) ''ALPHA B ALPHA'' None)]"

lemma demo_small: "length demo_files < 2 ^ 32" "0 < length demo_files"
  by (simp_all add: demo_files_def)

lemma demo_joined:
  "\<exists>s. bp_reach demo_env demo_options demo_files s \<and> bp_joined s \<and> bp_fatalError s = None"
  unfolding demo_options_def by (rule joined_example [OF demo_small(1)])




text \<open>C16: The full rebuild ends: every step lowers a natural number, and as long as a thread is
  left, some thread has a step of its own, before and after a failure.\<close>

theorem pipeline_terminates:
  assumes "bp_reach env (BatchIndexBuilder detected o0) fs s" and "length fs < 2 ^ 32"
  shows "(\<forall>s'. bp_step env (BatchIndexBuilder detected o0) fs s s' \<longrightarrow>
      bp_work (BatchIndexBuilder detected o0) fs s' < bp_work (BatchIndexBuilder detected o0) fs s) \<and>
    (bp_joined s \<or> (\<exists>r < length (bp_readers s). reader_step (BatchIndexBuilder detected o0) fs r s \<noteq> None) \<or>
      (\<exists>w < length (bp_indexers s). indexer_step env w s \<noteq> None))"
  using work_step bp_reach_frame [OF assms(1) builder_pos(2)] progress [OF assms(1) builder_pos assms(2)] by blast

lemma pipeline_terminates_witness:
  "bp_reach demo_env demo_options demo_files (bp_init demo_options 1) \<and> \<not> bp_joined (bp_init demo_options 1) \<and>
   ((\<exists>r < length (bp_readers (bp_init demo_options 1)). reader_step demo_options demo_files r (bp_init demo_options 1) \<noteq> None) \<or>
    (\<exists>w < length (bp_indexers (bp_init demo_options 1)). indexer_step demo_env w (bp_init demo_options 1) \<noteq> None))"
proof -
  have re: "bp_reach demo_env demo_options demo_files (bp_init demo_options 1)"
    using bp_reach.init [of demo_env demo_options demo_files] by (simp add: demo_files_def)
  have "\<not> bp_joined (bp_init demo_options 1)" by (simp add: bp_joined_def bp_init_def demo_options_def BatchIndexBuilder_def Let_def)
  with pipeline_terminates [of demo_env 4 _ demo_files, OF re [unfolded demo_options_def] demo_small(1)] re
  show ?thesis unfolding demo_options_def by blast
qed

end
