(* ===== verification/WordID.thy ===== *)
theory WordID
  imports SE_Prelude
begin

text \<open>
  The word numbering (\<open>src/src/Index/WordID.h\<close>, \<open>WordID.cpp\<close>): \<open>word2id_\<close> maps a word to
  its id, \<open>id2word_\<close> is the inverse vector. The field \<open>wordToIdFast\<close> is never read and is
  left out. The lemmas show that the two stay mutually inverse, that ids are dense, stable
  and never reused; the locale \<open>interner\<close> is what the index relies on.
\<close>

section \<open>The interface: a numbering of keys\<close>

locale interner =
  fixes invar :: "'m \<Rightarrow> bool"
    and size_of :: "'m \<Rightarrow> nat"
    and try_get :: "'m \<Rightarrow> 'k \<Rightarrow> u32 option"
    and get_id :: "'m \<Rightarrow> 'k \<Rightarrow> 'm \<times> u32"
    and by_id :: "'m \<Rightarrow> u32 \<Rightarrow> 'k"
  assumes try_get_bound: "invar m \<Longrightarrow> try_get m k = Some i \<Longrightarrow> unat i < size_of m \<and> by_id m i = k"
    and by_id_try_get: "invar m \<Longrightarrow> unat i < size_of m \<Longrightarrow> try_get m (by_id m i) = Some i"
    and get_id_known: "invar m \<Longrightarrow> try_get m k = Some i \<Longrightarrow> get_id m k = (m, i)"
    and get_id_new: "invar m \<Longrightarrow> try_get m k = None \<Longrightarrow> size_of m < 2 ^ 32 \<Longrightarrow>
      get_id m k = (m', i) \<Longrightarrow>
      invar m' \<and> size_of m' = Suc (size_of m) \<and> unat i = size_of m \<and>
      (\<forall>j. try_get m' j = (if j = k then Some i else try_get m j))"
begin

lemma try_get_inj: "invar m \<Longrightarrow> try_get m k = Some i \<Longrightarrow> try_get m j = Some i \<Longrightarrow> k = j"
  using try_get_bound by metis

lemma get_id_result:
  assumes "invar m" and "size_of m < 2 ^ 32" and "get_id m k = (m', i)"
  shows "invar m' \<and> try_get m' k = Some i \<and> by_id m' i = k \<and>
    (\<forall>j x. try_get m j = Some x \<longrightarrow> try_get m' j = Some x) \<and>
    (\<forall>j. j \<noteq> k \<longrightarrow> try_get m' j = try_get m j) \<and> size_of m' \<le> Suc (size_of m)"
proof (cases "try_get m k")
  case None
  with get_id_new [OF assms(1) None assms(2,3)] show ?thesis
    using try_get_bound by fastforce
next
  case (Some x)
  with get_id_known [OF assms(1) Some] assms show ?thesis
    using try_get_bound by auto
qed

end

section \<open>The two-way dictionary\<close>

record word_ids =
  word2id :: "(string, u32) umap"
  id2word :: "string list"

definition wid_empty :: word_ids where
  "wid_empty = \<lparr>word2id = [], id2word = []\<rparr>"

definition wid_getId :: "word_ids \<Rightarrow> string \<Rightarrow> word_ids \<times> u32" where
  "wid_getId m w =
     (case um_find (word2id m) w of
        Some i \<Rightarrow> (m, i)
      | None \<Rightarrow>
          let i = of_nat (length (id2word m))
          in (m\<lparr>word2id := um_put w i (word2id m), id2word := id2word m @ [w]\<rparr>, i))"

definition wid_tryGet :: "word_ids \<Rightarrow> string \<Rightarrow> u32 option" where
  "wid_tryGet m w = um_find (word2id m) w"

text \<open>\<open>byId\<close> asserts that the id is in range; outside it the vector access is undefined.\<close>

definition wid_byId :: "word_ids \<Rightarrow> u32 \<Rightarrow> string" where
  "wid_byId m i = id2word m ! unat i"

definition wid_size :: "word_ids \<Rightarrow> nat" where
  "wid_size m = length (id2word m)"

definition wid_rebuild :: "(string, u32) umap \<Rightarrow> string list \<Rightarrow> word_ids \<Rightarrow> word_ids" where
  "wid_rebuild new_word2id new_id2word m = m\<lparr>word2id := new_word2id, id2word := new_id2word\<rparr>"

section \<open>The invariant\<close>

definition wid_invar :: "word_ids \<Rightarrow> bool" where
  "wid_invar m \<longleftrightarrow> um_ok (word2id m) \<and> length (id2word m) \<le> 2 ^ 32 \<and>
     (\<forall>w i. um_find (word2id m) w = Some i \<longleftrightarrow>
        unat i < length (id2word m) \<and> id2word m ! unat i = w)"

lemma wid_invar_empty: "wid_invar wid_empty"
  by (simp add: wid_invar_def wid_empty_def)

lemma wid_invar_distinct:
  assumes "wid_invar m"
  shows "distinct (id2word m)"
proof -
  have "i = j" if "i < length (id2word m)" "j < length (id2word m)"
    "id2word m ! i = id2word m ! j" for i j
  proof -
    have lt: "i < 2 ^ 32" "j < 2 ^ 32" using that assms by (auto simp: wid_invar_def)
    then have "um_find (word2id m) (id2word m ! i) = Some (of_nat i)"
        "um_find (word2id m) (id2word m ! j) = Some (of_nat j)"
      using assms that unat_of_nat_u32 by (auto simp: wid_invar_def)
    with that(3) have "(of_nat i :: u32) = of_nat j" by simp
    then show "i = j" using lt unat_of_nat_u32 by metis
  qed
  then show ?thesis by (auto simp: distinct_conv_nth)
qed

lemma wid_getId_new_invar:
  assumes inv: "wid_invar m" and new: "um_find (word2id m) w = None"
    and sz: "wid_size m < 2 ^ 32" and eq: "wid_getId m w = (m', i)"
  shows "wid_invar m' \<and> wid_size m' = Suc (wid_size m) \<and> unat i = wid_size m"
proof -
  let ?n = "length (id2word m)"
  have i: "i = of_nat ?n" and m': "m' = m\<lparr>word2id := um_put w i (word2id m),
      id2word := id2word m @ [w]\<rparr>"
    using eq new by (auto simp: wid_getId_def Let_def)
  have un: "unat i = ?n" using sz i by (simp add: wid_size_def unat_of_nat_u32)
  have uniq: "j = i \<longleftrightarrow> unat j = ?n" for j using un by (metis word_unat_eq_iff)
  have "um_find (word2id m') v = Some j \<longleftrightarrow>
      unat j < length (id2word m') \<and> id2word m' ! unat j = v" for v j
  proof (cases "unat j = ?n")
    case True
    then show ?thesis using inv uniq [of j] unfolding wid_invar_def m'
      by (auto simp: um_find_put nth_append)
  next
    case False
    have "unat j < ?n \<Longrightarrow> id2word m ! unat j \<noteq> w" using inv new unfolding wid_invar_def by (metis option.distinct(1))
    with False show ?thesis using inv uniq [of j] unfolding wid_invar_def m'
      by (auto simp: um_find_put nth_append)
  qed
  with inv sz show ?thesis
    unfolding wid_invar_def by (simp add: m' wid_size_def un)
qed

interpretation wid: interner wid_invar wid_size wid_tryGet wid_getId wid_byId
proof
  fix m k i assume "wid_invar m" "wid_tryGet m k = Some i"
  then show "unat i < wid_size m \<and> wid_byId m i = k"
    by (auto simp: wid_invar_def wid_tryGet_def wid_size_def wid_byId_def)
next
  fix m and i :: u32 assume "wid_invar m" "unat i < wid_size m"
  then show "wid_tryGet m (wid_byId m i) = Some i"
    by (auto simp: wid_invar_def wid_tryGet_def wid_size_def wid_byId_def)
next
  fix m k i assume "wid_invar m" "wid_tryGet m k = Some i"
  then show "wid_getId m k = (m, i)" by (simp add: wid_tryGet_def wid_getId_def)
next
  fix m k m' i
  assume a: "wid_invar m" "wid_tryGet m k = None" "wid_size m < 2 ^ 32" "wid_getId m k = (m', i)"
  then have "um_find (word2id m') j = (if j = k then Some i else um_find (word2id m) j)" for j
    by (auto simp: wid_getId_def wid_tryGet_def Let_def um_find_put)
  with wid_getId_new_invar [of m k m' i] a
  show "wid_invar m' \<and> wid_size m' = Suc (wid_size m) \<and> unat i = wid_size m \<and>
      (\<forall>j. wid_tryGet m' j = (if j = k then Some i else wid_tryGet m j))"
    by (simp add: wid_tryGet_def)
qed

section \<open>Properties\<close>

text \<open>\<open>WordIdManager::getId\<close> returns an id that \<open>byId\<close> maps back to the word and
  \<open>tryGet\<close> finds again, keeps every id handed out before, gives a new word the next dense
  id, and keeps the two dictionaries mutually inverse, as long as fewer than 2^32 words
  are known.\<close>

theorem wid_getId_correct:
  assumes "wid_invar m" and "wid_size m < 2 ^ 32" and "wid_getId m w = (m', i)"
  shows "wid_invar m' \<and> wid_byId m' i = w \<and> wid_tryGet m' w = Some i \<and>
    (\<forall>v j. wid_tryGet m v = Some j \<longrightarrow> wid_tryGet m' v = Some j \<and> wid_byId m' j = v) \<and>
    (wid_tryGet m w = None \<longrightarrow> unat i = wid_size m \<and> wid_size m' = Suc (wid_size m)) \<and>
    (wid_tryGet m w \<noteq> None \<longrightarrow> m' = m)"
proof (cases "wid_tryGet m w")
  case None
  show ?thesis
    using wid.get_id_result [OF assms] wid.get_id_new [OF assms(1) None assms(2,3)] None
      wid.try_get_bound [of m'] by simp
next
  case (Some j)
  with assms(3) wid.get_id_known [OF assms(1) Some] have "m' = m" "i = j" by simp_all
  with Some assms(1) wid.try_get_bound [OF assms(1)] show ?thesis by simp
qed

lemma wid_getId_correct_witness:
  "wid_invar wid_empty \<and> wid_size wid_empty < 2 ^ 32 \<and>
   wid_byId (fst (wid_getId wid_empty ''CODE'')) (snd (wid_getId wid_empty ''CODE'')) = ''CODE''"
proof -
  have "wid_size wid_empty < 2 ^ 32" by (simp add: wid_size_def wid_empty_def)
  from wid_getId_correct [OF wid_invar_empty this, of "''CODE''"
      "fst (wid_getId wid_empty ''CODE'')" "snd (wid_getId wid_empty ''CODE'')"] this
  show ?thesis by (simp add: wid_invar_empty)
qed

end
