(* ===== verification/DocumentCatalog.thy ===== *)
theory DocumentCatalog
  imports DocPaths
begin

text \<open>
  The document catalog (\<open>src/src/Index/DocumentCatalog.h\<close>, \<open>DocumentCatalog.cpp\<close>): an abstract
  class with two implementations. \<open>MemoryDocumentCatalog\<close> wraps the document table and can
  stage a batch snapshot over it; \<open>SQLiteDocumentCatalog\<close> keeps the rows in the table
  \<open>docs\<close>, a map of pending records that are not yet written, and two counters. Here the
  table is a map from path to record (its unique index is on the path), the conversion of
  paths to UTF-8 and back is the identity, and the statements that can fail in the database
  are taken to succeed.

  The locale \<open>document_catalog\<close> states what the index relies on; both implementations are
  interpretations of it.
\<close>

record document_record =
  dr_id :: u32
  dr_path :: wstring
  dr_mtimeTicks :: ticks
  dr_size :: u64
  dr_deleted :: bool

record catalog_scan_item =
  si_id :: u32
  si_pathIndex :: nat
  si_mtimeTicks :: ticks
  si_size :: u64

record catalog_diff =
  cd_added :: "catalog_scan_item list"
  cd_updated :: "catalog_scan_item list"
  cd_removed :: "u32 list"

section \<open>The interface\<close>

locale document_catalog =
  fixes invar :: "'s \<Rightarrow> bool"
    and room :: "'s \<Rightarrow> bool"
    and find :: "'s \<Rightarrow> wstring \<Rightarrow> document_record option"
    and upsert :: "wstring \<Rightarrow> ticks \<Rightarrow> u64 \<Rightarrow> 's \<Rightarrow> 's \<times> document_record option \<times> bool"
  assumes find_path: "invar s \<Longrightarrow> find s p = Some r \<Longrightarrow> dr_path r = p"
    and find_ids: "invar s \<Longrightarrow> find s p = Some a \<Longrightarrow> find s q = Some b \<Longrightarrow> dr_id a = dr_id b \<Longrightarrow> p = q"
    and upsert_returns: "invar s \<Longrightarrow> room s \<Longrightarrow> upsert p m z s = (s', ro, ch) \<Longrightarrow>
      \<exists>r. ro = Some r \<and> dr_path r = p \<and> dr_mtimeTicks r = m \<and> dr_size r = z \<and> \<not> dr_deleted r"
    and upsert_invar: "invar s \<Longrightarrow> room s \<Longrightarrow> upsert p m z s = (s', ro, ch) \<Longrightarrow> invar s'"
    and upsert_find: "invar s \<Longrightarrow> room s \<Longrightarrow> upsert p m z s = (s', ro, ch) \<Longrightarrow>
      find s' q = (if q = p then ro else find s q)"
    and upsert_known: "invar s \<Longrightarrow> room s \<Longrightarrow> upsert p m z s = (s', Some r, ch) \<Longrightarrow> find s p = Some old \<Longrightarrow>
      dr_id r = dr_id old \<and>
      (ch \<longleftrightarrow> dr_deleted old \<or> dr_mtimeTicks old \<noteq> m \<or> dr_size old \<noteq> z)"
    and upsert_new: "invar s \<Longrightarrow> room s \<Longrightarrow> upsert p m z s = (s', ro, ch) \<Longrightarrow> find s p = None \<Longrightarrow> ch"
begin

lemma upsert_again:
  assumes "invar s" and "room s" and "upsert p m z s = (s', ro, ch)"
    and "room s'" and "upsert p m z s' = (s'', ro', ch')"
  shows "\<not> ch' \<and> ro' = ro"
proof -
  have inv': "invar s'" by (rule upsert_invar [OF assms(1-3)])
  obtain r where r: "ro = Some r" "dr_path r = p" "dr_mtimeTicks r = m" "dr_size r = z" "\<not> dr_deleted r"
    using upsert_returns [OF assms(1-3)] by auto
  obtain r' where r': "ro' = Some r'" "dr_path r' = p" "dr_mtimeTicks r' = m" "dr_size r' = z"
      "\<not> dr_deleted r'"
    using upsert_returns [OF inv' assms(4,5)] by auto
  have f: "find s' p = Some r" using upsert_find [OF assms(1-3), of p] r(1) by simp
  from upsert_known [OF inv' assms(4) assms(5) [unfolded r'(1)] f] r
  have "\<not> ch'" "dr_id r' = dr_id r" by auto
  with r r' show ?thesis by (cases r; cases r') simp
qed

lemma upsert_fresh_id:
  assumes "invar s" and "room s" and "upsert p m z s = (s', Some r, ch)"
    and "find s q = Some old" and "q \<noteq> p"
  shows "dr_id r \<noteq> dr_id old"
proof
  assume eq: "dr_id r = dr_id old"
  have "find s' p = Some r" "find s' q = Some old"
    using upsert_find [OF assms(1-3)] assms(4,5) by auto
  from find_ids [OF upsert_invar [OF assms(1-3)] this eq] assms(5) show False by simp
qed

end

section \<open>The in-memory catalog\<close>

record memory_catalog =
  mc_paths :: doc_paths
  mc_rollback :: "doc_paths option"

definition mc_record :: "doc_paths \<Rightarrow> u32 \<Rightarrow> wstring \<Rightarrow> document_record option" where
  "mc_record dp i p =
     (case dp_getInfo dp i of
        None \<Rightarrow> None
      | Some (t, z) \<Rightarrow> Some \<lparr>dr_id = i, dr_path = p, dr_mtimeTicks = t, dr_size = z,
                            dr_deleted = dp_isDeleted dp i\<rparr>)"

text \<open>\<open>None\<close> in the record position stands for the exception "memory document catalog lost
  metadata".\<close>

definition mc_upsert ::
  "wstring \<Rightarrow> ticks \<Rightarrow> u64 \<Rightarrow> memory_catalog \<Rightarrow> memory_catalog \<times> document_record option \<times> bool" where
  "mc_upsert p m z c =
     (let (dp, i, ch) = dp_upsert p m z (mc_paths c)
      in (c\<lparr>mc_paths := dp\<rparr>, mc_record dp i p, ch))"

definition mc_findByPath :: "memory_catalog \<Rightarrow> wstring \<Rightarrow> document_record option" where
  "mc_findByPath c p =
     (case dp_tryGetId (mc_paths c) p of None \<Rightarrow> None | Some i \<Rightarrow> mc_record (mc_paths c) i p)"

definition mc_findByIds :: "memory_catalog \<Rightarrow> u32 list \<Rightarrow> document_record option list" where
  "mc_findByIds c ids =
     map (\<lambda>i. case dp_getInfo (mc_paths c) i of
                None \<Rightarrow> None
              | Some (t, z) \<Rightarrow> Some \<lparr>dr_id = i, dr_path = dp_pathById (mc_paths c) i,
                  dr_mtimeTicks = t, dr_size = z, dr_deleted = dp_isDeleted (mc_paths c) i\<rparr>) ids"

definition mc_markRemoved :: "u32 \<Rightarrow> memory_catalog \<Rightarrow> memory_catalog" where
  "mc_markRemoved i c = c\<lparr>mc_paths := dp_markRemoved i (mc_paths c)\<rparr>"

text \<open>\<open>scan\<close>: the ids the table reports are looked up again position by position; an exception of
  the file system or a lost entry is \<open>None\<close>.\<close>

definition mc_scan_item :: "doc_paths \<Rightarrow> nat \<Rightarrow> u32 \<Rightarrow> catalog_scan_item option" where
  "mc_scan_item dp ix i =
     map_option (\<lambda>(t, z). \<lparr>si_id = i, si_pathIndex = ix, si_mtimeTicks = t, si_size = z\<rparr>)
       (dp_getInfo dp i)"

fun mc_scan_loop ::
  "doc_paths \<Rightarrow> (u32, nat) umap \<Rightarrow> nat \<Rightarrow> wstring list \<Rightarrow> catalog_diff \<Rightarrow> catalog_diff option" where
  "mc_scan_loop dp changed ix [] result = Some result"
| "mc_scan_loop dp changed ix (p # ps) result =
     (case dp_tryGetId dp p of
        None \<Rightarrow> mc_scan_loop dp changed (Suc ix) ps result
      | Some i \<Rightarrow>
          (case um_find changed i of
             None \<Rightarrow> mc_scan_loop dp changed (Suc ix) ps result
           | Some k \<Rightarrow>
               (case mc_scan_item dp ix i of
                  None \<Rightarrow> None
                | Some item \<Rightarrow>
                    mc_scan_loop dp changed (Suc ix) ps
                      (if k = 0 then result\<lparr>cd_added := cd_added result @ [item]\<rparr>
                       else result\<lparr>cd_updated := cd_updated result @ [item]\<rparr>))))"

definition mc_changed :: "update_pack \<Rightarrow> (u32, nat) umap" where
  "mc_changed update =
     fold (\<lambda>i. um_emplace i 1) (up_updated update) (fold (\<lambda>i. um_emplace i 0) (up_added update) [])"

definition mc_scan ::
  "stat_fn \<Rightarrow> wstring list \<Rightarrow> memory_catalog \<Rightarrow> memory_catalog \<times> catalog_diff option" where
  "mc_scan stat paths c =
     (let (dp, r) = dp_getUpdate stat paths (mc_paths c); c' = c\<lparr>mc_paths := dp\<rparr>
      in case r of
           None \<Rightarrow> (c', None)
         | Some update \<Rightarrow> (c', mc_scan_loop dp (mc_changed update) 0 paths
              \<lparr>cd_added = [], cd_updated = [], cd_removed = up_removed update\<rparr>))"

definition mc_stageBatchSnapshot ::
  "wstring list \<Rightarrow> (ticks \<times> u64) list \<Rightarrow> memory_catalog \<Rightarrow> memory_catalog option" where
  "mc_stageBatchSnapshot paths metadata c =
     (if length paths \<noteq> length metadata then None
      else Some \<lparr>mc_paths = dp_rebuildFromRows
             (map (\<lambda>ix. \<lparr>rr_id = of_nat ix, rr_path = paths ! ix, rr_mtimeTicks = fst (metadata ! ix),
                         rr_fsize = snd (metadata ! ix), rr_deleted = False\<rparr>) [0..<length paths]),
           mc_rollback = Some (dp_copy (mc_paths c))\<rparr>)"

definition mc_commitStagedBatch :: "memory_catalog \<Rightarrow> memory_catalog" where
  "mc_commitStagedBatch c = c\<lparr>mc_rollback := None\<rparr>"

definition mc_rollbackStagedBatch :: "memory_catalog \<Rightarrow> memory_catalog" where
  "mc_rollbackStagedBatch c =
     (case mc_rollback c of
        None \<Rightarrow> c
      | Some dp \<Rightarrow> \<lparr>mc_paths = dp_copy dp, mc_rollback = None\<rparr>)"

section \<open>The SQLite catalog\<close>

record sqlite_catalog =
  sc_docs :: "(wstring, document_record) umap"
  sc_documentCount :: nat
  sc_nextId :: u32
  sc_pending :: "(wstring, document_record) umap"
  sc_staged :: "(wstring list \<times> (ticks \<times> u64) list) option"
  sc_stagedOldCount :: "nat option"
  sc_stagedOldNextId :: "u32 option"

definition sc_findPersistedByPath :: "sqlite_catalog \<Rightarrow> wstring \<Rightarrow> document_record option" where
  "sc_findPersistedByPath c p = um_find (sc_docs c) p"

definition sc_findByPath :: "sqlite_catalog \<Rightarrow> wstring \<Rightarrow> document_record option" where
  "sc_findByPath c p =
     (case um_find (sc_pending c) p of Some r \<Rightarrow> Some r | None \<Rightarrow> sc_findPersistedByPath c p)"

definition dr_refresh :: "ticks \<Rightarrow> u64 \<Rightarrow> document_record \<Rightarrow> document_record \<times> bool" where
  "dr_refresh m z r =
     (r\<lparr>dr_mtimeTicks := m, dr_size := z, dr_deleted := False\<rparr>,
      dr_deleted r \<or> dr_mtimeTicks r \<noteq> m \<or> dr_size r \<noteq> z)"

definition sc_upsert ::
  "wstring \<Rightarrow> ticks \<Rightarrow> u64 \<Rightarrow> sqlite_catalog \<Rightarrow> sqlite_catalog \<times> document_record \<times> bool" where
  "sc_upsert p m z c =
     (case um_find (sc_pending c) p of
        Some pending \<Rightarrow>
          (let (r, changed) = dr_refresh m z pending
           in (c\<lparr>sc_pending := um_put p r (sc_pending c)\<rparr>, r, changed))
      | None \<Rightarrow>
          (case sc_findPersistedByPath c p of
             Some existing \<Rightarrow>
               (let (r, changed) = dr_refresh m z existing
                in (if changed then c\<lparr>sc_pending := um_put p r (sc_pending c)\<rparr> else c, r, changed))
           | None \<Rightarrow>
               (let r = \<lparr>dr_id = sc_nextId c, dr_path = p, dr_mtimeTicks = m, dr_size = z,
                         dr_deleted = False\<rparr>
                in (c\<lparr>sc_nextId := sc_nextId c + 1, sc_pending := um_put p r (sc_pending c),
                      sc_documentCount := sc_documentCount c + 1\<rparr>, r, True))))"

definition sc_notePersisted :: "wstring \<Rightarrow> u32 \<Rightarrow> sqlite_catalog \<Rightarrow> sqlite_catalog" where
  "sc_notePersisted p i c =
     (case um_find (sc_pending c) p of
        Some r \<Rightarrow> if dr_id r = i then c\<lparr>sc_pending := um_erase p (sc_pending c)\<rparr> else c
      | None \<Rightarrow> c)"

definition sc_stageBatchSnapshot ::
  "wstring list \<Rightarrow> (ticks \<times> u64) list \<Rightarrow> sqlite_catalog \<Rightarrow> sqlite_catalog option" where
  "sc_stageBatchSnapshot paths metadata c =
     (if length paths \<noteq> length metadata then None
      else Some (c\<lparr>sc_staged := Some (paths, metadata),
                   sc_stagedOldCount := Some (sc_documentCount c),
                   sc_stagedOldNextId := Some (sc_nextId c),
                   sc_documentCount := length paths,
                   sc_nextId := of_nat (length paths)\<rparr>))"

definition sc_commitStagedBatch :: "sqlite_catalog \<Rightarrow> sqlite_catalog" where
  "sc_commitStagedBatch c =
     c\<lparr>sc_staged := None, sc_stagedOldCount := None, sc_stagedOldNextId := None\<rparr>"

definition sc_rollbackStagedBatch :: "sqlite_catalog \<Rightarrow> sqlite_catalog" where
  "sc_rollbackStagedBatch c =
     c\<lparr>sc_documentCount := (case sc_stagedOldCount c of Some n \<Rightarrow> n | None \<Rightarrow> sc_documentCount c),
       sc_nextId := (case sc_stagedOldNextId c of Some n \<Rightarrow> n | None \<Rightarrow> sc_nextId c),
       sc_staged := None, sc_stagedOldCount := None, sc_stagedOldNextId := None\<rparr>"

definition sc_visitRows :: "sqlite_catalog \<Rightarrow> document_record list" where
  "sc_visitRows c =
     (case sc_staged c of
        Some (paths, metadata) \<Rightarrow>
          map (\<lambda>ix. \<lparr>dr_id = of_nat ix, dr_path = paths ! ix, dr_mtimeTicks = fst (metadata ! ix),
                     dr_size = snd (metadata ! ix), dr_deleted = False\<rparr>) [0..<length paths]
      | None \<Rightarrow> sort_key dr_id (map snd (sc_docs c)))"

definition sc_refreshCounters :: "sqlite_catalog \<Rightarrow> sqlite_catalog option" where
  "sc_refreshCounters c =
     (let ids = map (dr_id \<circ> snd) (sc_docs c);
          maximum = (if ids = [] then - 1 else int (Max (set (map unat ids))))
      in if maximum \<ge> 2 ^ 32 - 1 then None
         else Some (c\<lparr>sc_documentCount := length ids,
                      sc_nextId := (if maximum < 0 then 0 else of_int (maximum + 1))\<rparr>))"

section \<open>Both catalogs implement the interface\<close>

definition mc_invar :: "memory_catalog \<Rightarrow> bool" where
  "mc_invar c \<longleftrightarrow> dp_invar (mc_paths c)"

definition mc_room :: "memory_catalog \<Rightarrow> bool" where
  "mc_room c \<longleftrightarrow> length (id2path (mc_paths c)) < 2 ^ 32"

lemma mc_record_find:
  assumes "dp_invar dp" and "um_find (path2info dp) p = Some info"
  shows "mc_record dp (fi_id info) p = Some \<lparr>dr_id = fi_id info, dr_path = p,
    dr_mtimeTicks = fi_mtime info, dr_size = fi_fsize info, dr_deleted = fi_deleted info\<rparr>"
  using dp_invarD(1) [OF assms] assms(2) by (simp add: mc_record_def dp_getInfo_def dp_isDeleted_def)

lemma mc_findByPath_map:
  assumes "mc_invar c"
  shows "mc_findByPath c p = map_option (\<lambda>info. \<lparr>dr_id = fi_id info, dr_path = p,
    dr_mtimeTicks = fi_mtime info, dr_size = fi_fsize info, dr_deleted = fi_deleted info\<rparr>)
    (um_find (path2info (mc_paths c)) p)"
  using assms mc_record_find [of "mc_paths c" p]
  by (auto simp: mc_invar_def mc_findByPath_def dp_tryGetId_def split: option.splits)

lemma mc_upsert_parts:
  assumes "mc_invar c" and "mc_room c" and "mc_upsert p m z c = (c', ro, ch)"
  shows "mc_invar c'" and "ro = mc_findByPath c' p" and
    "\<exists>i. dp_upsert p m z (mc_paths c) = (mc_paths c', i, ch) \<and> ro = Some \<lparr>dr_id = i, dr_path = p,
       dr_mtimeTicks = m, dr_size = z, dr_deleted = False\<rparr>"
proof -
  obtain i where up: "dp_upsert p m z (mc_paths c) = (mc_paths c', i, ch)"
    and ro: "ro = mc_record (mc_paths c') i p"
    using assms(3) by (auto simp: mc_upsert_def Let_def split: prod.splits)
  have inv: "dp_invar (mc_paths c')"
    using dp_upsert_invar [OF _ _ up] assms(1,2) by (simp add: mc_invar_def mc_room_def)
  then show inv': "mc_invar c'" by (simp add: mc_invar_def)
  have f: "um_find (path2info (mc_paths c')) p =
      Some \<lparr>fi_mtime = m, fi_fsize = z, fi_id = i, fi_deleted = False\<rparr>"
    using dp_upsert_find [OF up, of p] by simp
  from mc_record_find [OF inv f] ro have r: "ro = Some \<lparr>dr_id = i, dr_path = p,
       dr_mtimeTicks = m, dr_size = z, dr_deleted = False\<rparr>" by simp
  with up show "\<exists>i. dp_upsert p m z (mc_paths c) = (mc_paths c', i, ch) \<and>
      ro = Some \<lparr>dr_id = i, dr_path = p, dr_mtimeTicks = m, dr_size = z, dr_deleted = False\<rparr>" by blast
  show "ro = mc_findByPath c' p" using r f by (simp add: mc_findByPath_map [OF inv'])
qed

interpretation mem: document_catalog mc_invar mc_room mc_findByPath mc_upsert
proof
  fix c p r assume "mc_invar c" "mc_findByPath c p = Some r"
  then show "dr_path r = p" by (auto simp: mc_findByPath_map)
next
  fix c p q a b assume a: "mc_invar c" "mc_findByPath c p = Some a" "mc_findByPath c q = Some b"
    and eq: "dr_id a = dr_id b"
  then obtain i j where i: "um_find (path2info (mc_paths c)) p = Some i" "dr_id a = fi_id i"
    and j: "um_find (path2info (mc_paths c)) q = Some j" "dr_id b = fi_id j"
    by (auto simp: mc_findByPath_map)
  from i(2) j(2) eq have "fi_id i = fi_id j" by simp
  from dp_invar_inj [OF _ i(1) j(1) this] a(1) show "p = q" by (simp add: mc_invar_def)
next
  fix c p m z c' ro ch
  assume a: "mc_invar c" "mc_room c" "mc_upsert p m z c = (c', ro, ch)"
  note parts = mc_upsert_parts [OF a]
  show "\<exists>r. ro = Some r \<and> dr_path r = p \<and> dr_mtimeTicks r = m \<and> dr_size r = z \<and> \<not> dr_deleted r"
    using parts(3) by auto
  show "mc_invar c'" by (rule parts(1))
  fix q
  obtain i where up: "dp_upsert p m z (mc_paths c) = (mc_paths c', i, ch)" using parts(3) by blast
  show "mc_findByPath c' q = (if q = p then ro else mc_findByPath c q)"
    using parts(2) dp_upsert_find [OF up, of q] a(1) parts(1)
    by (cases "q = p") (simp_all add: mc_findByPath_map)
next
  fix c p m z c' r ch old
  assume a: "mc_invar c" "mc_room c" "mc_upsert p m z c = (c', Some r, ch)"
    and f: "mc_findByPath c p = Some old"
  obtain i where up: "dp_upsert p m z (mc_paths c) = (mc_paths c', i, ch)" and "dr_id r = i"
    using mc_upsert_parts(3) [OF a] by auto
  moreover from f a(1) obtain info where "um_find (path2info (mc_paths c)) p = Some info"
      "old = \<lparr>dr_id = fi_id info, dr_path = p, dr_mtimeTicks = fi_mtime info,
        dr_size = fi_fsize info, dr_deleted = fi_deleted info\<rparr>"
    by (auto simp: mc_findByPath_map)
  ultimately show "dr_id r = dr_id old \<and>
      (ch \<longleftrightarrow> dr_deleted old \<or> dr_mtimeTicks old \<noteq> m \<or> dr_size old \<noteq> z)"
    using dp_upsert_old [of "mc_paths c" p info m z] by (auto split: if_splits)
next
  fix c p m z c' ro ch
  assume a: "mc_invar c" "mc_room c" "mc_upsert p m z c = (c', ro, ch)"
    and f: "mc_findByPath c p = None"
  obtain i where up: "dp_upsert p m z (mc_paths c) = (mc_paths c', i, ch)"
    using mc_upsert_parts(3) [OF a] by blast
  with f a(1) show ch by (simp add: mc_findByPath_map dp_upsert_new)
qed

definition sc_entry :: "sqlite_catalog \<Rightarrow> wstring \<Rightarrow> document_record \<Rightarrow> bool" where
  "sc_entry c p r \<longleftrightarrow> um_find (sc_pending c) p = Some r \<or> um_find (sc_docs c) p = Some r"

definition sc_invar :: "sqlite_catalog \<Rightarrow> bool" where
  "sc_invar c \<longleftrightarrow> um_ok (sc_docs c) \<and> um_ok (sc_pending c) \<and>
     (\<forall>p r. sc_entry c p r \<longrightarrow> dr_path r = p \<and> unat (dr_id r) < unat (sc_nextId c)) \<and>
     (\<forall>p q a b. sc_entry c p a \<longrightarrow> sc_entry c q b \<longrightarrow> (dr_id a = dr_id b \<longleftrightarrow> p = q))"

definition sc_room :: "sqlite_catalog \<Rightarrow> bool" where
  "sc_room c \<longleftrightarrow> unat (sc_nextId c) < 2 ^ 32 - 1"

definition sc_upsert_opt ::
  "wstring \<Rightarrow> ticks \<Rightarrow> u64 \<Rightarrow> sqlite_catalog \<Rightarrow> sqlite_catalog \<times> document_record option \<times> bool" where
  "sc_upsert_opt p m z c = (let (c', r, ch) = sc_upsert p m z c in (c', Some r, ch))"

lemma sc_find_entry: "sc_findByPath c p = Some r \<Longrightarrow> sc_entry c p r"
  by (auto simp: sc_findByPath_def sc_findPersistedByPath_def sc_entry_def split: option.splits)

lemma sc_upsert_known:
  assumes "sc_findByPath c p = Some old"
  shows "sc_upsert p m z c =
    (let (r, ch) = dr_refresh m z old
     in (if ch \<or> um_find (sc_pending c) p \<noteq> None
         then c\<lparr>sc_pending := um_put p r (sc_pending c)\<rparr> else c, r, ch))"
  using assms by (auto simp: sc_upsert_def sc_findByPath_def Let_def split: option.splits prod.splits)

lemma sc_upsert_unknown:
  assumes "sc_findByPath c p = None"
  shows "sc_upsert p m z c =
    (let r = \<lparr>dr_id = sc_nextId c, dr_path = p, dr_mtimeTicks = m, dr_size = z, dr_deleted = False\<rparr>
     in (c\<lparr>sc_nextId := sc_nextId c + 1, sc_pending := um_put p r (sc_pending c),
           sc_documentCount := sc_documentCount c + 1\<rparr>, r, True))"
  using assms by (auto simp: sc_upsert_def sc_findByPath_def Let_def split: option.splits)

lemma dr_refresh_same:
  "dr_refresh m z r = (r', False) \<Longrightarrow> r' = r"
  by (cases r) (auto simp: dr_refresh_def)

lemma sc_invar_put:
  assumes "sc_invar c" and "sc_entry c p old" and "dr_id r = dr_id old" and "dr_path r = p"
  shows "sc_invar (c\<lparr>sc_pending := um_put p r (sc_pending c)\<rparr>)"
proof -
  let ?c = "c\<lparr>sc_pending := um_put p r (sc_pending c)\<rparr>"
  have e: "sc_entry ?c q a \<Longrightarrow> \<exists>b. sc_entry c q b \<and> dr_id a = dr_id b \<and> dr_path a = q" for q a
    using assms by (auto simp: sc_entry_def sc_invar_def um_find_put split: if_splits)
  show ?thesis
    unfolding sc_invar_def
  proof (intro conjI allI impI)
    fix q a assume "sc_entry ?c q a"
    with e assms(1) show "dr_path a = q" "unat (dr_id a) < unat (sc_nextId ?c)"
      by (fastforce simp: sc_invar_def)+
  next
    fix q q' a b assume "sc_entry ?c q a" "sc_entry ?c q' b"
    with e [of q a] e [of q' b] assms(1) show "dr_id a = dr_id b \<longleftrightarrow> q = q'"
      by (auto simp: sc_invar_def)
  qed (use assms(1) in \<open>simp_all add: sc_invar_def\<close>)
qed

lemma unat_Suc_u32: "unat (x :: u32) < 2 ^ 32 - 1 \<Longrightarrow> unat (x + 1) = Suc (unat x)"
  by (simp add: unat_word_ariths)

lemma sc_invar_new:
  assumes "sc_invar c" and "sc_room c" and "sc_findByPath c p = None"
    and "dr_id r = sc_nextId c" and "dr_path r = p"
  shows "sc_invar (c\<lparr>sc_nextId := sc_nextId c + 1, sc_pending := um_put p r (sc_pending c),
    sc_documentCount := sc_documentCount c + 1\<rparr>)" (is "sc_invar ?c")
proof -
  have un: "unat (sc_nextId c + 1) = Suc (unat (sc_nextId c))"
    using assms(2) by (simp add: sc_room_def unat_Suc_u32)
  have none: "\<not> sc_entry c p x" for x
    using assms(3) by (auto simp: sc_entry_def sc_findByPath_def sc_findPersistedByPath_def split: option.splits)
  have e: "sc_entry ?c q a \<longleftrightarrow> (if q = p then a = r else sc_entry c q a)" for q a
    using none by (auto simp: sc_entry_def um_find_put)
  have old: "sc_entry c q a \<Longrightarrow> dr_path a = q \<and> unat (dr_id a) < unat (sc_nextId c)" for q a
    using assms(1) by (simp add: sc_invar_def)
  have inj: "sc_entry c q a \<Longrightarrow> sc_entry c q' b \<Longrightarrow> dr_id a = dr_id b \<longleftrightarrow> q = q'" for q q' a b
    using assms(1) by (simp add: sc_invar_def)
  show ?thesis
    unfolding sc_invar_def
  proof (intro conjI allI impI)
    fix q a assume "sc_entry ?c q a"
    then have "if q = p then a = r else sc_entry c q a" by (simp only: e)
    then show "dr_path a = q" "unat (dr_id a) < unat (sc_nextId ?c)"
      using old [of q a] un assms(4,5) by (auto split: if_splits)
  next
    fix q q' a b assume "sc_entry ?c q a" "sc_entry ?c q' b"
    then have "if q = p then a = r else sc_entry c q a" "if q' = p then b = r else sc_entry c q' b"
      by (simp_all only: e)
    then show "dr_id a = dr_id b \<longleftrightarrow> q = q'"
      using old [of q a] old [of q' b] inj [of q a q' b] assms(4) by (auto split: if_splits)
  qed (use assms(1) in \<open>simp_all add: sc_invar_def\<close>)
qed

lemma sc_findByPath_put:
  "sc_findByPath (c\<lparr>sc_pending := um_put p r (sc_pending c)\<rparr>) q = (if q = p then Some r else sc_findByPath c q)"
  by (auto simp: sc_findByPath_def sc_findPersistedByPath_def um_find_put split: option.splits)

lemma sc_upsert_step:
  assumes inv: "sc_invar c" and room: "sc_room c" and up: "sc_upsert p m z c = (c', r, ch)"
  shows "sc_invar c' \<and> dr_path r = p \<and> dr_mtimeTicks r = m \<and> dr_size r = z \<and> \<not> dr_deleted r \<and>
    sc_findByPath c' q = (if q = p then Some r else sc_findByPath c q) \<and>
    (case sc_findByPath c p of None \<Rightarrow> ch
     | Some old \<Rightarrow> dr_id r = dr_id old \<and>
         (ch \<longleftrightarrow> dr_deleted old \<or> dr_mtimeTicks old \<noteq> m \<or> dr_size old \<noteq> z))"
proof (cases "sc_findByPath c p")
  case None
  let ?r = "\<lparr>dr_id = sc_nextId c, dr_path = p, dr_mtimeTicks = m, dr_size = z, dr_deleted = False\<rparr>"
  have r: "r = ?r" "ch" and c': "c' = c\<lparr>sc_nextId := sc_nextId c + 1,
      sc_pending := um_put p ?r (sc_pending c), sc_documentCount := sc_documentCount c + 1\<rparr>"
    using up by (auto simp: sc_upsert_unknown [OF None] Let_def)
  have "sc_invar c'" using sc_invar_new [OF inv room None, of ?r] by (simp add: c')
  moreover have "sc_findByPath c' q = (if q = p then Some r else sc_findByPath c q)"
    by (auto simp: c' r sc_findByPath_def sc_findPersistedByPath_def um_find_put split: option.splits)
  ultimately show ?thesis using None r by simp
next
  case (Some old)
  note ent = sc_find_entry [OF Some]
  have pth: "dr_path old = p" using inv ent by (simp add: sc_invar_def)
  have r: "r = old\<lparr>dr_mtimeTicks := m, dr_size := z, dr_deleted := False\<rparr>"
    and ch: "ch \<longleftrightarrow> dr_deleted old \<or> dr_mtimeTicks old \<noteq> m \<or> dr_size old \<noteq> z"
    and c': "c' = (if ch \<or> um_find (sc_pending c) p \<noteq> None
         then c\<lparr>sc_pending := um_put p r (sc_pending c)\<rparr> else c)"
    using up by (auto simp: sc_upsert_known [OF Some] dr_refresh_def Let_def)
  have same: "\<not> ch \<Longrightarrow> r = old" unfolding r ch by (cases old) simp
  have "sc_invar c'"
    using sc_invar_put [OF inv ent, of r] inv pth by (auto simp: c' r)
  moreover have "sc_findByPath c' q = (if q = p then Some r else sc_findByPath c q)"
    using Some same by (auto simp: c' sc_findByPath_put)
  ultimately show ?thesis using Some pth ch by (simp add: r)
qed

interpretation sql: document_catalog sc_invar sc_room sc_findByPath sc_upsert_opt
proof
  fix c p r assume "sc_invar c" "sc_findByPath c p = Some r"
  then show "dr_path r = p" using sc_find_entry [of c p r] by (simp add: sc_invar_def)
next
  fix c p q a b assume "sc_invar c" "sc_findByPath c p = Some a" "sc_findByPath c q = Some b"
    "dr_id a = dr_id b"
  then show "p = q" using sc_find_entry [of c p a] sc_find_entry [of c q b] by (auto simp: sc_invar_def)
next
  fix c p m z c' ro ch
  assume a: "sc_invar c" "sc_room c" "sc_upsert_opt p m z c = (c', ro, ch)"
  then obtain r where up: "sc_upsert p m z c = (c', r, ch)" and ro: "ro = Some r"
    by (auto simp: sc_upsert_opt_def split: prod.splits)
  note st = sc_upsert_step [OF a(1,2) up]
  show "\<exists>r. ro = Some r \<and> dr_path r = p \<and> dr_mtimeTicks r = m \<and> dr_size r = z \<and> \<not> dr_deleted r"
    using st [of p] ro by simp
  show "sc_invar c'" using st [of p] by simp
  show "sc_findByPath c' q = (if q = p then ro else sc_findByPath c q)" for q
    using st [of q] ro by simp
  show ch if "sc_findByPath c p = None" using st [of p] that by simp
next
  fix c p m z c' r ch old
  assume a: "sc_invar c" "sc_room c" "sc_upsert_opt p m z c = (c', Some r, ch)"
    and f: "sc_findByPath c p = Some old"
  then have "sc_upsert p m z c = (c', r, ch)"
    by (auto simp: sc_upsert_opt_def split: prod.splits)
  from sc_upsert_step [OF a(1,2) this, of p] f
  show "dr_id r = dr_id old \<and> (ch \<longleftrightarrow> dr_deleted old \<or> dr_mtimeTicks old \<noteq> m \<or> dr_size old \<noteq> z)" by simp
qed

section \<open>Copies of the document table\<close>

lemma fold_list_update:
  assumes "distinct (map f l)" and "\<forall>e \<in> set l. f e < length ids"
  shows "length (fold (\<lambda>e ids. ids[f e := g e]) l ids) = length ids"
    and "e \<in> set l \<Longrightarrow> fold (\<lambda>e ids. ids[f e := g e]) l ids ! f e = g e"
    and "i \<notin> f ` set l \<Longrightarrow> fold (\<lambda>e ids. ids[f e := g e]) l ids ! i = ids ! i"
proof -
  have "length (fold (\<lambda>e ids. ids[f e := g e]) l ids) = length ids \<and>
    (\<forall>e \<in> set l. fold (\<lambda>e ids. ids[f e := g e]) l ids ! f e = g e) \<and>
    (\<forall>i. i \<notin> f ` set l \<longrightarrow> fold (\<lambda>e ids. ids[f e := g e]) l ids ! i = ids ! i)"
    using assms
  proof (induction l arbitrary: ids)
    case Nil
    then show ?case by simp
  next
    case (Cons x l)
    then show ?case using Cons.IH [of "ids[f x := g x]"] by auto
  qed
  then show "length (fold (\<lambda>e ids. ids[f e := g e]) l ids) = length ids"
    "e \<in> set l \<Longrightarrow> fold (\<lambda>e ids. ids[f e := g e]) l ids ! f e = g e"
    "i \<notin> f ` set l \<Longrightarrow> fold (\<lambda>e ids. ids[f e := g e]) l ids ! i = ids ! i" by auto
qed

lemma required_size_bounded:
  "\<forall>(p, info) \<in> set l. unat (fi_id info) < n \<Longrightarrow>
   fold (\<lambda>(p, info) n. if unat (fi_id info) + 1 > n then unat (fi_id info) + 1 else n) l n = n"
  by (induction l) auto

lemma dp_copy_id:
  assumes "dp_invar dp"
  shows "dp_copy dp = dp"
proof -
  let ?l = "path2info dp" and ?n = "length (id2path dp)"
  let ?f = "\<lambda>e. unat (fi_id (snd e))" and ?g = "\<lambda>e. Some (fst e)"
  have ok: "um_ok ?l" by (rule dp_invarD(3) [OF assms])
  have key: "dp_key dp i = Some p \<longleftrightarrow> (\<exists>info. (p, info) \<in> set ?l \<and> fi_id info = i)" for p i
    using assms ok by (simp add: dp_invar_def um_find_Some_iff)
  have bound: "(p, info) \<in> set ?l \<Longrightarrow> unat (fi_id info) < ?n" for p info
    using key [of "fi_id info" p] by (auto simp: dp_key_def split: if_splits)
  have dist: "distinct (map ?f ?l)"
  proof -
    have "distinct (map unat (map (\<lambda>e. fi_id (snd e)) ?l))"
      using dp_invar_ids_distinct [OF assms]
      by (subst distinct_map) (auto intro!: inj_onI simp: word_unat_eq_iff o_def)
    then show ?thesis by (simp add: o_def)
  qed
  have req: "dp_rebuildId2Path ?n ?l = fold (\<lambda>e ids. ids[?f e := ?g e]) ?l (replicate ?n None)"
  proof -
    have "\<forall>(p, info) \<in> set ?l. unat (fi_id info) < ?n" using bound by auto
    from required_size_bounded [OF this] show ?thesis
      by (simp add: dp_rebuildId2Path_def Let_def split_def)
  qed
  have b: "\<forall>e \<in> set ?l. ?f e < length (replicate ?n None)" using bound by auto
  note fl = fold_list_update [where g = ?g, OF dist b]
  have "dp_rebuildId2Path ?n ?l = id2path dp"
  proof (rule nth_equalityI)
    show "length (dp_rebuildId2Path ?n ?l) = length (id2path dp)" using fl(1) by (simp add: req)
  next
    fix i assume "i < length (dp_rebuildId2Path ?n ?l)"
    then have i: "i < ?n" using fl(1) by (simp add: req)
    then have un: "unat (of_nat i :: u32) = i"
      using dp_invarD(4) [OF assms] by (simp add: unat_of_nat_u32)
    then have k: "dp_key dp (of_nat i) = id2path dp ! i" using i by (simp add: dp_key_def)
    show "dp_rebuildId2Path ?n ?l ! i = id2path dp ! i"
    proof (cases "id2path dp ! i")
      case None
      have "i \<notin> ?f ` set ?l"
      proof
        assume "i \<in> ?f ` set ?l"
        then obtain p info where "(p, info) \<in> set ?l" "unat (fi_id info) = i" by auto
        moreover from this(2) un have "fi_id info = of_nat i" by (simp add: word_unat_eq_iff)
        ultimately show False using key [of "of_nat i" p] k None by auto
      qed
      from fl(3) [OF this] None i show ?thesis by (simp add: req)
    next
      case (Some p)
      with key [of "of_nat i" p] k obtain info where e: "(p, info) \<in> set ?l" "fi_id info = of_nat i" by auto
      from fl(2) [OF e(1)] e(2) un Some show ?thesis by (simp add: req)
    qed
  qed
  then show ?thesis by (simp add: dp_copy_def)
qed

section \<open>Properties\<close>

text \<open>the two document catalogs agree on point updates: from consistent states that know a
  path under the same record, or both not at all, both report the same change flag and hand
  back the same metadata; and repeating an update with the same metadata reports no change.\<close>

theorem catalogs_agree_on_upsert:
  assumes "mc_invar a" and "mc_room a" and "sc_invar b" and "sc_room b"
    and "map_option (\<lambda>r. (dr_mtimeTicks r, dr_size r, dr_deleted r)) (mc_findByPath a p) =
      map_option (\<lambda>r. (dr_mtimeTicks r, dr_size r, dr_deleted r)) (sc_findByPath b p)"
    and "mc_upsert p m z a = (a', ra, cha)" and "sc_upsert p m z b = (b', rb, chb)"
  shows "cha = chb \<and> mc_invar a' \<and> sc_invar b' \<and>
    map_option (\<lambda>r. (dr_mtimeTicks r, dr_size r, dr_deleted r)) ra =
      Some (dr_mtimeTicks rb, dr_size rb, dr_deleted rb) \<and>
    (mc_room a' \<longrightarrow> \<not> snd (snd (mc_upsert p m z a'))) \<and>
    (sc_room b' \<longrightarrow> \<not> snd (snd (sc_upsert p m z b')))"
proof -
  have opt: "sc_upsert_opt p m z b = (b', Some rb, chb)" using assms(7) by (simp add: sc_upsert_opt_def)
  obtain r where ra: "ra = Some r" "dr_mtimeTicks r = m" "dr_size r = z" "\<not> dr_deleted r"
    using mem.upsert_returns [OF assms(1,2,6)] by auto
  have rb: "dr_mtimeTicks rb = m" "dr_size rb = z" "\<not> dr_deleted rb"
    using sql.upsert_returns [OF assms(3,4) opt] by auto
  have "cha = chb"
  proof (cases "mc_findByPath a p")
    case None
    then have "sc_findByPath b p = None" using assms(5) by simp
    with None show ?thesis
      using mem.upsert_new [OF assms(1,2,6)] sql.upsert_new [OF assms(3,4) opt] by simp
  next
    case (Some o1)
    then obtain o2 where o2: "sc_findByPath b p = Some o2" using assms(5) by (cases "sc_findByPath b p") auto
    with Some assms(5) have "dr_mtimeTicks o1 = dr_mtimeTicks o2" "dr_size o1 = dr_size o2"
      "dr_deleted o1 = dr_deleted o2" by auto
    with mem.upsert_known [OF assms(1,2) assms(6) [unfolded ra(1)] Some]
      sql.upsert_known [OF assms(3,4) opt o2] show ?thesis by simp
  qed
  moreover have "mc_room a' \<Longrightarrow> \<not> snd (snd (mc_upsert p m z a'))"
    using mem.upsert_again [OF assms(1,2,6)] by (metis prod.collapse)
  moreover have "sc_room b' \<Longrightarrow> \<not> snd (snd (sc_upsert p m z b'))"
  proof -
    assume room: "sc_room b'"
    obtain c2 r2 ch2 where again: "sc_upsert p m z b' = (c2, r2, ch2)" by (metis prod_cases3)
    then have "sc_upsert_opt p m z b' = (c2, Some r2, ch2)" by (simp add: sc_upsert_opt_def)
    from sql.upsert_again [OF assms(3,4) opt room this] again show ?thesis by simp
  qed
  ultimately show ?thesis
    using mem.upsert_invar [OF assms(1,2,6)] sql.upsert_invar [OF assms(3,4) opt] ra rb by simp
qed

definition mc_empty :: memory_catalog where
  "mc_empty = \<lparr>mc_paths = dp_empty, mc_rollback = None\<rparr>"

definition sc_empty :: sqlite_catalog where
  "sc_empty = \<lparr>sc_docs = [], sc_documentCount = 0, sc_nextId = 0, sc_pending = [], sc_staged = None,
     sc_stagedOldCount = None, sc_stagedOldNextId = None\<rparr>"

lemma mc_invar_empty: "mc_invar mc_empty"
  by (simp add: mc_invar_def mc_empty_def dp_invar_empty)

lemma empty_catalogs:
  "mc_invar mc_empty" "mc_room mc_empty" "sc_invar sc_empty" "sc_room sc_empty"
  "mc_findByPath mc_empty p = None" "sc_findByPath sc_empty p = None"
  using mc_invar_empty
  by (simp_all add: mc_empty_def mc_room_def dp_empty_def sc_invar_def
      sc_empty_def sc_entry_def sc_room_def mc_findByPath_def dp_tryGetId_def sc_findByPath_def
      sc_findPersistedByPath_def)

lemma catalogs_agree_on_upsert_witness:
  "mc_invar mc_empty \<and> mc_room mc_empty \<and> sc_invar sc_empty \<and> sc_room sc_empty \<and>
   snd (snd (mc_upsert [65] 10 20 mc_empty)) = snd (snd (sc_upsert [65] 10 20 sc_empty))"
proof -
  obtain a' ra cha where a: "mc_upsert [65] 10 20 mc_empty = (a', ra, cha)" by (metis prod_cases3)
  obtain b' rb chb where b: "sc_upsert [65] 10 20 sc_empty = (b', rb, chb)" by (metis prod_cases3)
  show ?thesis
    using catalogs_agree_on_upsert [OF empty_catalogs(1-4) _ a b] a b by (simp add: empty_catalogs)
qed

text \<open>Staging a batch snapshot over the in-memory catalog and rolling it back restores the
  document table exactly, entries and id vector alike.\<close>

theorem mc_stage_rollback:
  assumes "mc_invar c" and "mc_stageBatchSnapshot paths metadata c = Some c'"
  shows "mc_rollbackStagedBatch c' = c\<lparr>mc_rollback := None\<rparr>"
  using assms
  by (auto simp: mc_stageBatchSnapshot_def mc_rollbackStagedBatch_def mc_invar_def dp_copy_id
      split: if_splits)

lemma mc_stage_rollback_witness:
  "mc_invar mc_empty \<and> (\<exists>c'. mc_stageBatchSnapshot [[65]] [(1, 2)] mc_empty = Some c' \<and>
     mc_rollbackStagedBatch c' = mc_empty\<lparr>mc_rollback := None\<rparr>)"
proof -
  obtain c' where c: "mc_stageBatchSnapshot [[65]] [(1, 2)] mc_empty = Some c'"
    by (simp add: mc_stageBatchSnapshot_def)
  from mc_stage_rollback [OF empty_catalogs(1) c] c show ?thesis by (simp add: empty_catalogs)
qed

end
