(* ===== verification/InvertedIndex.thy ===== *)
theory InvertedIndex
  imports PostingList WordID DocumentCatalog Tokenizer
begin

text \<open>
  The in-memory inverted index (\<open>src/src/Index/InvertedIndex.h\<close>, \<open>InvertedIndex.cpp\<close>): the
  word numbering, the posting lists in chunks of 4096 words (the mutable representation) or
  in one flat vector (the batch and snapshot representation), and the back references
  \<open>wordRefs\<close> from a file to its words. Modelled are the commit of a batch of postings, the
  erasure of a file, look-up, both conversions between the representations, the rebuilding of the
  back references and \<open>compact\<close>. Locks are not modelled: an operation that runs under them is one
  atomic step; the interleaving of updates is the subject of \<open>IndexUpdate\<close>.
\<close>

section \<open>State\<close>

definition CHUNK_SIZE :: nat where
  "CHUNK_SIZE = 4096"

type_synonym bucket = "posting_list list"
type_synonym chunk_vector = "bucket option list"

record posting_task =
  pt_fileId :: u32
  pt_wordId :: u32
  pt_count :: u32

record posting_batch =
  pb_fileId :: u32
  pb_list :: "(string \<times> u32) list"

record inverted_index =
  ii_wordIds :: word_ids
  ii_chunks :: chunk_vector
  ii_dictionary :: "posting_list list"
  ii_wordRefs :: "(u32, u32 list) umap"

definition ii_empty :: inverted_index where
  "ii_empty = \<lparr>ii_wordIds = wid_empty, ii_chunks = [], ii_dictionary = [], ii_wordRefs = []\<rparr>"

text \<open>\<open>std::make_unique<Chunk>()\<close>: a bucket of \<open>CHUNK_SIZE\<close> empty lists.\<close>

definition new_chunk :: bucket where
  "new_chunk = replicate CHUNK_SIZE []"

section \<open>Commit of postings\<close>

text \<open>\<open>dictionaryChunks.resize(n)\<close> when the vector is shorter.\<close>

definition grow_chunks :: "nat \<Rightarrow> chunk_vector \<Rightarrow> chunk_vector" where
  "grow_chunks n cs = cs @ replicate (n - length cs) None"

definition ensure_chunk :: "nat \<Rightarrow> chunk_vector \<Rightarrow> chunk_vector" where
  "ensure_chunk c cs = (case cs ! c of None \<Rightarrow> cs[c := Some new_chunk] | Some _ \<Rightarrow> cs)"

definition add_to_bucket :: "posting_task \<Rightarrow> bucket \<Rightarrow> bucket" where
  "add_to_bucket t b =
     (let l = unat (pt_wordId t) mod CHUNK_SIZE
      in b[l := pl_add (b ! l) (pt_fileId t) (pt_count t)])"

definition commitSingleWord :: "posting_task \<Rightarrow> chunk_vector \<Rightarrow> chunk_vector" where
  "commitSingleWord t cs =
     (let c = unat (pt_wordId t) div CHUNK_SIZE;
          cs = ensure_chunk c (if c \<ge> length cs then grow_chunks (c + 1) cs else cs)
      in cs[c := map_option (add_to_bucket t) (cs ! c)])"

type_synonym chunk_map = "(nat, posting_task list) umap"

definition commit_entry :: "nat \<times> posting_task list \<Rightarrow> chunk_vector \<Rightarrow> chunk_vector" where
  "commit_entry e cs = cs[fst e := map_option (fold add_to_bucket (snd e)) (cs ! fst e)]"

definition commitChunkMap :: "chunk_map \<Rightarrow> chunk_vector \<Rightarrow> chunk_vector" where
  "commitChunkMap cm cs =
     (let maxIndex = fold max (map fst cm) 0;
          cs = (if maxIndex \<ge> length cs then grow_chunks (maxIndex + 1) cs else cs);
          cs = fold ensure_chunk (map fst cm) cs
      in fold commit_entry cm cs)"

section \<open>Processing a batch\<close>

record batch_state =
  bs_wordIds :: word_ids
  bs_widMap :: "(u32, u32) umap"
  bs_newWords :: "(u32 \<times> string) list"
  bs_refs :: "(u32, u32 list) umap"

definition refs_of :: "(u32, u32 list) umap \<Rightarrow> u32 \<Rightarrow> u32 list" where
  "refs_of m f = (case um_find m f of None \<Rightarrow> [] | Some l \<Rightarrow> l)"

definition push_ref :: "u32 \<Rightarrow> u32 list \<Rightarrow> u32 list" where
  "push_ref wid refv = (if refv = [] \<or> last refv \<noteq> wid then refv @ [wid] else refv)"

definition batch_word :: "u32 \<Rightarrow> nat \<Rightarrow> string \<times> u32 \<Rightarrow> batch_state \<Rightarrow> batch_state" where
  "batch_word fileId wordsBefore wc b =
     (let (ids, wid) = wid_getId (bs_wordIds b) (fst wc)
      in \<lparr>bs_wordIds = ids,
          bs_widMap = um_put wid
            ((case um_find (bs_widMap b) wid of None \<Rightarrow> 0 | Some n \<Rightarrow> n) + snd wc) (bs_widMap b),
          bs_newWords = (if unat wid \<ge> wordsBefore then bs_newWords b @ [(wid, fst wc)]
            else bs_newWords b),
          bs_refs = um_put fileId (push_ref wid (refs_of (bs_refs b) fileId)) (bs_refs b)\<rparr>)"

definition group_task :: "u32 \<Rightarrow> u32 \<times> u32 \<Rightarrow> chunk_map \<Rightarrow> chunk_map" where
  "group_task fileId wc cm =
     (let c = unat (fst wc) div CHUNK_SIZE;
          t = \<lparr>pt_fileId = fileId, pt_wordId = fst wc, pt_count = snd wc\<rparr>
      in um_put c ((case um_find cm c of None \<Rightarrow> [] | Some ts \<Rightarrow> ts) @ [t]) cm)"

text \<open>
  The part of \<open>processBatch\<close> that runs in the strand: it returns the state with the new
  words and references, the chunk map that is handed to the pool, and the counters and new
  words that go to the SQLite mirror, the counters cut off at \<open>0xFFFF\<close>.
\<close>

definition mirror_count :: "u32 \<Rightarrow> u16" where
  "mirror_count n = (if n > 0xFFFF then 0xFFFF else ucast n)"

definition processBatch ::
  "posting_batch \<Rightarrow> inverted_index \<Rightarrow>
     inverted_index \<times> chunk_map \<times> (u32 \<times> u16) list \<times> (u32 \<times> string) list" where
  "processBatch b s =
     (let r = fold (batch_word (pb_fileId b) (wid_size (ii_wordIds s))) (pb_list b)
            \<lparr>bs_wordIds = ii_wordIds s, bs_widMap = [], bs_newWords = [], bs_refs = ii_wordRefs s\<rparr>
      in (s\<lparr>ii_wordIds := bs_wordIds r, ii_wordRefs := bs_refs r\<rparr>,
          fold (group_task (pb_fileId b)) (bs_widMap r) [],
          map (\<lambda>(wid, n). (wid, mirror_count n)) (bs_widMap r),
          bs_newWords r))"

definition commit_batch :: "posting_batch \<Rightarrow> inverted_index \<Rightarrow> inverted_index" where
  "commit_batch b s =
     (let (s', cm, _, _) = processBatch b s
      in if pb_list b = [] then s else s'\<lparr>ii_chunks := commitChunkMap cm (ii_chunks s')\<rparr>)"

section \<open>Look-up and erasure\<close>

definition getPostingCopyByWord :: "inverted_index \<Rightarrow> string \<Rightarrow> posting_list option" where
  "getPostingCopyByWord s w =
     (case wid_tryGet (ii_wordIds s) w of
        None \<Rightarrow> None
      | Some wid \<Rightarrow>
          let n = unat wid; c = n div CHUNK_SIZE; l = n mod CHUNK_SIZE
          in if ii_dictionary s \<noteq> [] then
               (if n \<ge> length (ii_dictionary s) \<or> ii_dictionary s ! n = [] then None
                else Some (ii_dictionary s ! n))
             else if c \<ge> length (ii_chunks s) then None
             else (case ii_chunks s ! c of
                     None \<Rightarrow> None
                   | Some b \<Rightarrow> if b ! l = [] then None else Some (b ! l)))"

definition getWordCount :: "inverted_index \<Rightarrow> string \<Rightarrow> posting_list" where
  "getWordCount s w = (case getPostingCopyByWord s w of Some p \<Rightarrow> p | None \<Rightarrow> [])"

text \<open>Erasing a file from one list, when the list is not empty.\<close>

definition erase_from :: "u32 \<Rightarrow> posting_list \<Rightarrow> posting_list" where
  "erase_from fileId p = (if p \<noteq> [] then pl_erase p fileId else p)"

definition erase_word :: "u32 \<Rightarrow> u32 \<Rightarrow> chunk_vector \<Rightarrow> chunk_vector" where
  "erase_word fileId wid cs =
     (let c = unat wid div CHUNK_SIZE; l = unat wid mod CHUNK_SIZE
      in if c \<ge> length cs then cs
         else cs[c := map_option (\<lambda>b. b[l := erase_from fileId (b ! l)]) (cs ! c)])"

definition safeEraseFileInternal :: "u32 \<Rightarrow> inverted_index \<Rightarrow> inverted_index" where
  "safeEraseFileInternal fileId s =
     (case um_find (ii_wordRefs s) fileId of
        Some widList \<Rightarrow>
          s\<lparr>ii_chunks := fold (erase_word fileId) widList (ii_chunks s),
            ii_wordRefs := um_erase fileId (ii_wordRefs s)\<rparr>
      | None \<Rightarrow> s\<lparr>ii_chunks := map (map_option (map (erase_from fileId))) (ii_chunks s)\<rparr>)"

section \<open>The two representations\<close>

definition chunk_entry :: "chunk_vector \<Rightarrow> nat \<Rightarrow> posting_list" where
  "chunk_entry cs wid =
     (let c = wid div CHUNK_SIZE; l = wid mod CHUNK_SIZE
      in if c \<ge> length cs then [] else (case cs ! c of None \<Rightarrow> [] | Some b \<Rightarrow> b ! l))"

definition rebuildDictionaryFromChunksLocked :: "inverted_index \<Rightarrow> inverted_index" where
  "rebuildDictionaryFromChunksLocked s =
     s\<lparr>ii_dictionary := map (chunk_entry (ii_chunks s)) [0..<wid_size (ii_wordIds s)]\<rparr>"

definition put_entry :: "nat \<times> posting_list \<Rightarrow> chunk_vector \<Rightarrow> chunk_vector" where
  "put_entry e cs =
     (let c = fst e div CHUNK_SIZE; l = fst e mod CHUNK_SIZE;
          cs = ensure_chunk c (if c \<ge> length cs then grow_chunks (c + 1) cs else cs)
      in cs[c := map_option (\<lambda>b. b[l := snd e]) (cs ! c)])"

definition rebuildChunksFromDictionary :: "inverted_index \<Rightarrow> inverted_index" where
  "rebuildChunksFromDictionary s =
     s\<lparr>ii_chunks := fold put_entry (zip [0..<length (ii_dictionary s)] (ii_dictionary s)) [],
       ii_dictionary := []\<rparr>"

definition prepareLegacyMutableState :: "inverted_index \<Rightarrow> inverted_index" where
  "prepareLegacyMutableState s =
     (let d = ii_dictionary s; chunkCount = (length d + CHUNK_SIZE - 1) div CHUNK_SIZE
      in if d = [] then s
         else s\<lparr>ii_chunks := fold (\<lambda>(wid, p) cs. cs[wid div CHUNK_SIZE :=
                    map_option (\<lambda>b. b[wid mod CHUNK_SIZE := p]) (cs ! (wid div CHUNK_SIZE))])
                  (zip [0..<length d] d) (replicate chunkCount (Some new_chunk)),
                ii_dictionary := []\<rparr>)"

text \<open>\<open>reconstructWordIts\<close>: the references rebuilt from the chunks after a load.\<close>

definition add_refs :: "u32 \<Rightarrow> posting_list \<Rightarrow> (u32, u32 list) umap \<Rightarrow> (u32, u32 list) umap" where
  "add_refs wid p m = fold (\<lambda>x m. um_put (p_fileId x) (refs_of m (p_fileId x) @ [wid]) m) p m"

definition chunk_refs :: "nat \<times> bucket option \<Rightarrow> (u32, u32 list) umap \<Rightarrow> (u32, u32 list) umap" where
  "chunk_refs e m =
     (case snd e of
        None \<Rightarrow> m
      | Some b \<Rightarrow> fold (\<lambda>(l, p) m. if p = [] then m
            else add_refs (of_nat (fst e * CHUNK_SIZE + l)) p m) (zip [0..<length b] b) m)"

definition reconstructWordIts :: "inverted_index \<Rightarrow> inverted_index" where
  "reconstructWordIts s =
     s\<lparr>ii_wordRefs := fold chunk_refs (zip [0..<length (ii_chunks s)] (ii_chunks s)) []\<rparr>"

section \<open>Compaction\<close>

definition dict_holes :: "nat \<Rightarrow> posting_list list \<Rightarrow> nat" where
  "dict_holes n d = length (filter (\<lambda>wid. wid \<ge> length d \<or> d ! wid = []) [0..<n])"

definition chunk_holes :: "nat \<Rightarrow> chunk_vector \<Rightarrow> nat" where
  "chunk_holes n cs =
     sum_list (map (\<lambda>(c, ch).
         if c * CHUNK_SIZE \<ge> n then 0
         else let k = min CHUNK_SIZE (n - c * CHUNK_SIZE)
              in (case ch of None \<Rightarrow> k
                  | Some b \<Rightarrow> length (filter (\<lambda>l. b ! l = []) [0..<k])))
       (zip [0..<length cs] cs)) +
     (n - min n (length cs * CHUNK_SIZE))"

record compact_state =
  cs_newDict :: "posting_list list"
  cs_remap :: "(u32, u32) umap"
  cs_word2id :: "(string, u32) umap"
  cs_id2word :: "string list"

definition compact_word :: "word_ids \<Rightarrow> nat \<times> posting_list \<Rightarrow> compact_state \<Rightarrow> compact_state" where
  "compact_word ids e c =
     (if snd e = [] \<or> fst e \<ge> wid_size ids then c
      else let newWid = of_nat (length (cs_newDict c)); word = wid_byId ids (of_nat (fst e))
           in \<lparr>cs_newDict = cs_newDict c @ [snd e],
               cs_remap = um_put (of_nat (fst e)) newWid (cs_remap c),
               cs_word2id = um_put word newWid (cs_word2id c),
               cs_id2word = cs_id2word c @ [word]\<rparr>)"

definition INVALID_WID :: u32 where
  "INVALID_WID = - 1"

definition remap_refs :: "(u32, u32) umap \<Rightarrow> (u32, u32 list) umap \<Rightarrow> (u32, u32 list) umap" where
  "remap_refs remap refs =
     (let step = (\<lambda>wid. case um_find remap wid of Some n \<Rightarrow> n | None \<Rightarrow> INVALID_WID);
          errors = \<exists>e \<in> set refs. \<exists>wid \<in> set (snd e). um_find remap wid = None;
          refs = map (\<lambda>(f, v). (f, map step v)) refs
      in if errors then map (\<lambda>(f, v). (f, filter (\<lambda>w. w \<noteq> INVALID_WID) v)) refs else refs)"

text \<open>
  \<open>compact\<close> once it holds the strand and the update lock. \<open>below holes dict_size\<close> is the
  floating-point comparison \<open>holes * 100.0 / dict_size < thresholdPercent\<close>.
\<close>

definition compact_run :: "inverted_index \<Rightarrow> inverted_index" where
  "compact_run s =
     (let d = ii_dictionary s;
          r = fold (compact_word (ii_wordIds s)) (zip [0..<length d] d)
            \<lparr>cs_newDict = [], cs_remap = [], cs_word2id = [], cs_id2word = []\<rparr>
      in rebuildChunksFromDictionary
           (s\<lparr>ii_dictionary := cs_newDict r,
             ii_wordIds := wid_rebuild (cs_word2id r) (cs_id2word r) (ii_wordIds s),
             ii_wordRefs := remap_refs (cs_remap r) (ii_wordRefs s)\<rparr>))"

definition compact :: "(nat \<Rightarrow> nat \<Rightarrow> bool) \<Rightarrow> inverted_index \<Rightarrow> inverted_index" where
  "compact below s =
     (let n = wid_size (ii_wordIds s); active = (ii_dictionary s = []);
          holes = (if active then chunk_holes n (ii_chunks s) else dict_holes n (ii_dictionary s))
      in if holes = 0 \<or> below holes n then s
         else compact_run (if active then rebuildDictionaryFromChunksLocked s else s))"

section \<open>Chunk vectors as functions of the word number\<close>

definition chunks_wf :: "chunk_vector \<Rightarrow> bool" where
  "chunks_wf cs \<longleftrightarrow> (\<forall>b. Some b \<in> set cs \<longrightarrow> length b = CHUNK_SIZE)"

lemma CHUNK_SIZE_pos [simp]: "0 < CHUNK_SIZE"
  by (simp add: CHUNK_SIZE_def)

lemma length_new_chunk [simp]: "length new_chunk = CHUNK_SIZE"
  by (simp add: new_chunk_def)

lemma nth_new_chunk [simp]: "l < CHUNK_SIZE \<Longrightarrow> new_chunk ! l = []"
  by (simp add: new_chunk_def)

lemma chunks_wf_Nil [simp]: "chunks_wf []"
  by (simp add: chunks_wf_def)

lemma chunks_wf_grow [simp]: "chunks_wf (grow_chunks n cs) = chunks_wf cs"
  by (auto simp: chunks_wf_def grow_chunks_def)

lemma length_grow: "length (grow_chunks n cs) = max n (length cs)"
  by (simp add: grow_chunks_def)

lemma chunk_entry_grow [simp]: "chunk_entry (grow_chunks n cs) w = chunk_entry cs w"
  by (auto simp: chunk_entry_def grow_chunks_def Let_def nth_append)

lemma chunks_wf_update:
  assumes "chunks_wf cs" and "\<And>b. o' = Some b \<Longrightarrow> length b = CHUNK_SIZE"
  shows "chunks_wf (cs[c := o'])"
  using assms set_update_subset_insert [of cs c o'] unfolding chunks_wf_def by blast

lemma chunks_wf_nth: "chunks_wf cs \<Longrightarrow> c < length cs \<Longrightarrow> cs ! c = Some b \<Longrightarrow> length b = CHUNK_SIZE"
  unfolding chunks_wf_def by (metis nth_mem)

lemma length_ensure [simp]: "length (ensure_chunk c cs) = length cs"
  by (simp add: ensure_chunk_def split: option.splits)

lemma chunks_wf_ensure [simp]: "chunks_wf cs \<Longrightarrow> chunks_wf (ensure_chunk c cs)"
  by (auto simp: ensure_chunk_def intro!: chunks_wf_update split: option.splits)

lemma chunk_entry_ensure [simp]: "chunk_entry (ensure_chunk c cs) w = chunk_entry cs w"
  by (auto simp: chunk_entry_def ensure_chunk_def Let_def nth_update_if split: option.splits)

lemma ensure_Some: "c < length cs \<Longrightarrow> \<exists>b. ensure_chunk c cs ! c = Some b"
  by (auto simp: ensure_chunk_def split: option.splits)

lemma ensure_keeps: "cs ! d = Some b \<Longrightarrow> ensure_chunk c cs ! d = Some b"
  by (auto simp: ensure_chunk_def nth_update_if split: option.splits)

text \<open>One entry rewritten by \<open>f\<close> in the chunk that holds word \<open>n\<close>.\<close>

definition on_entry :: "nat \<Rightarrow> (posting_list \<Rightarrow> posting_list) \<Rightarrow> chunk_vector \<Rightarrow> chunk_vector" where
  "on_entry n f cs = cs[n div CHUNK_SIZE :=
     map_option (\<lambda>b. b[n mod CHUNK_SIZE := f (b ! (n mod CHUNK_SIZE))]) (cs ! (n div CHUNK_SIZE))]"

lemma length_on_entry [simp]: "length (on_entry n f cs) = length cs"
  by (simp add: on_entry_def)

lemma chunks_wf_on_entry [simp]:
  assumes "chunks_wf cs" shows "chunks_wf (on_entry n f cs)"
proof (cases "n div CHUNK_SIZE < length cs")
  case True
  with assms show ?thesis unfolding on_entry_def
    by (intro chunks_wf_update) (auto dest: chunks_wf_nth)
next
  case False
  with assms show ?thesis by (simp add: on_entry_def list_update_beyond)
qed

lemma div_mod_CHUNK: "m div CHUNK_SIZE = n div CHUNK_SIZE \<Longrightarrow> m mod CHUNK_SIZE = n mod CHUNK_SIZE \<Longrightarrow> m = n"
  by (metis div_mult_mod_eq)

lemma chunk_entry_on_entry:
  assumes "chunks_wf cs" and "n div CHUNK_SIZE < length cs" and "cs ! (n div CHUNK_SIZE) = Some b"
  shows "chunk_entry (on_entry n f cs) m = (if m = n then f (chunk_entry cs n) else chunk_entry cs m)"
proof -
  have len: "length b = CHUNK_SIZE" using assms by (blast dest: chunks_wf_nth)
  have "m mod CHUNK_SIZE < CHUNK_SIZE" "n mod CHUNK_SIZE < CHUNK_SIZE" by simp_all
  then show ?thesis
    using assms len div_mod_CHUNK [of m n]
    by (auto simp: chunk_entry_def on_entry_def Let_def nth_list_update)
qed

lemma on_entry_missing:
  assumes "n div CHUNK_SIZE \<ge> length cs \<or> cs ! (n div CHUNK_SIZE) = None"
  shows "on_entry n f cs = cs"
  using assms list_update_id [of cs "n div CHUNK_SIZE"]
  by (auto simp: on_entry_def list_update_beyond simp del: list_update_id)

lemma chunk_entry_missing:
  "n div CHUNK_SIZE \<ge> length cs \<or> cs ! (n div CHUNK_SIZE) = None \<Longrightarrow> chunk_entry cs n = []"
  by (auto simp: chunk_entry_def Let_def)

text \<open>The two ways the code writes an entry: creating the chunk first, or only when it is there.\<close>

lemma chunk_entry_ensured:
  fixes n :: nat
  assumes "chunks_wf cs"
  defines "cs' \<equiv> ensure_chunk (n div CHUNK_SIZE)
    (if n div CHUNK_SIZE \<ge> length cs then grow_chunks (n div CHUNK_SIZE + 1) cs else cs)"
  shows "chunks_wf (on_entry n f cs')"
    and "chunk_entry (on_entry n f cs') m = (if m = n then f (chunk_entry cs n) else chunk_entry cs m)"
proof -
  let ?g = "if n div CHUNK_SIZE \<ge> length cs then grow_chunks (n div CHUNK_SIZE + 1) cs else cs"
  have wf: "chunks_wf cs'" using assms by simp
  then show "chunks_wf (on_entry n f cs')" by simp
  have len: "n div CHUNK_SIZE < length ?g" by (simp add: length_grow)
  then obtain b where "cs' ! (n div CHUNK_SIZE) = Some b" using ensure_Some unfolding cs'_def by blast
  with chunk_entry_on_entry [OF wf] len
  show "chunk_entry (on_entry n f cs') m = (if m = n then f (chunk_entry cs n) else chunk_entry cs m)"
    by (simp add: cs'_def)
qed

lemma chunk_entry_present:
  assumes "chunks_wf cs" and "f [] = []"
  shows "chunk_entry (on_entry n f cs) m = (if m = n then f (chunk_entry cs n) else chunk_entry cs m)"
proof (cases "n div CHUNK_SIZE < length cs \<and> cs ! (n div CHUNK_SIZE) \<noteq> None")
  case True
  with chunk_entry_on_entry [OF assms(1)] show ?thesis by auto
next
  case False
  then show ?thesis
    using on_entry_missing [of cs n f] chunk_entry_missing [of cs n] assms(2) by auto
qed

lemma commitSingleWord_entry:
  assumes "chunks_wf cs"
  shows "chunks_wf (commitSingleWord t cs)"
    and "chunk_entry (commitSingleWord t cs) m =
      (if m = unat (pt_wordId t) then pl_add (chunk_entry cs m) (pt_fileId t) (pt_count t)
       else chunk_entry cs m)"
  using chunk_entry_ensured [OF assms, of "unat (pt_wordId t)"
      "\<lambda>p. pl_add p (pt_fileId t) (pt_count t)"]
  by (simp_all add: commitSingleWord_def on_entry_def add_to_bucket_def [abs_def] Let_def)

definition task_on :: "posting_task \<Rightarrow> chunk_vector \<Rightarrow> chunk_vector" where
  "task_on t = on_entry (unat (pt_wordId t)) (\<lambda>p. pl_add p (pt_fileId t) (pt_count t))"

lemma commit_entry_tasks:
  assumes "\<forall>t \<in> set ts. unat (pt_wordId t) div CHUNK_SIZE = c" and "c < length cs"
  shows "commit_entry (c, ts) cs = fold task_on ts cs"
  using assms
proof (induction ts arbitrary: cs)
  case Nil
  then show ?case by (simp add: commit_entry_def option.map_id)
next
  case (Cons t ts)
  have "commit_entry (c, t # ts) cs = commit_entry (c, ts) (task_on t cs)"
    using Cons.prems
    by (cases "cs ! c") (auto simp: commit_entry_def task_on_def on_entry_def add_to_bucket_def Let_def)
  also have "\<dots> = fold task_on ts (task_on t cs)"
    using Cons.prems by (intro Cons.IH) (auto simp: task_on_def)
  finally show ?case by simp
qed

text \<open>The tasks that concern word \<open>n\<close>, applied in their order to its posting list.\<close>

definition apply_tasks :: "nat \<Rightarrow> posting_task list \<Rightarrow> posting_list \<Rightarrow> posting_list" where
  "apply_tasks n ts = fold (\<lambda>t p. if unat (pt_wordId t) = n
     then pl_add p (pt_fileId t) (pt_count t) else p) ts"

definition chunk_present :: "chunk_vector \<Rightarrow> nat \<Rightarrow> bool" where
  "chunk_present cs c \<longleftrightarrow> c < length cs \<and> cs ! c \<noteq> None"

lemma task_on_present: "chunk_present (task_on t cs) c = chunk_present cs c"
  by (auto simp: chunk_present_def task_on_def on_entry_def nth_update_if)

lemma fold_task_on:
  assumes "chunks_wf cs" and "\<forall>t \<in> set ts. chunk_present cs (unat (pt_wordId t) div CHUNK_SIZE)"
  shows "chunks_wf (fold task_on ts cs) \<and> length (fold task_on ts cs) = length cs \<and>
    (\<forall>c. chunk_present (fold task_on ts cs) c = chunk_present cs c) \<and>
    chunk_entry (fold task_on ts cs) n = apply_tasks n ts (chunk_entry cs n)"
  using assms
proof (induction ts arbitrary: cs)
  case Nil
  then show ?case by (simp add: apply_tasks_def)
next
  case (Cons t ts)
  let ?cs = "task_on t cs"
  have wf: "chunks_wf ?cs" using Cons.prems by (simp add: task_on_def)
  have pr: "\<forall>t \<in> set ts. chunk_present ?cs (unat (pt_wordId t) div CHUNK_SIZE)"
    using Cons.prems by (simp add: task_on_present)
  obtain b where b: "unat (pt_wordId t) div CHUNK_SIZE < length cs"
      "cs ! (unat (pt_wordId t) div CHUNK_SIZE) = Some b"
    using Cons.prems(2) by (auto simp: chunk_present_def)
  have "chunk_entry ?cs n = (if unat (pt_wordId t) = n
      then pl_add (chunk_entry cs n) (pt_fileId t) (pt_count t) else chunk_entry cs n)"
    using chunk_entry_on_entry [OF Cons.prems(1) b] by (simp add: task_on_def)
  moreover have "length ?cs = length cs" by (simp add: task_on_def)
  ultimately show ?case using Cons.IH [OF wf pr] by (simp add: apply_tasks_def task_on_present)
qed

lemma fold_commit_entry:
  assumes "chunks_wf cs" and "\<forall>(c, ts) \<in> set cm. chunk_present cs c \<and>
    (\<forall>t \<in> set ts. unat (pt_wordId t) div CHUNK_SIZE = c)"
  shows "chunks_wf (fold commit_entry cm cs) \<and>
    chunk_entry (fold commit_entry cm cs) n = apply_tasks n (concat (map snd cm)) (chunk_entry cs n)"
  using assms
proof (induction cm arbitrary: cs)
  case Nil
  then show ?case by (simp add: apply_tasks_def)
next
  case (Cons e cm)
  obtain c ts where e: "e = (c, ts)" by (cases e)
  have ts: "\<forall>t \<in> set ts. unat (pt_wordId t) div CHUNK_SIZE = c" and c: "chunk_present cs c"
    using Cons.prems e by auto
  have eq: "commit_entry e cs = fold task_on ts cs"
    using commit_entry_tasks [OF ts] c e by (simp add: chunk_present_def)
  note f = fold_task_on [OF Cons.prems(1), of ts]
  have pr: "\<forall>t \<in> set ts. chunk_present cs (unat (pt_wordId t) div CHUNK_SIZE)" using ts c by simp
  have all: "\<forall>(d, us) \<in> set cm. chunk_present (fold task_on ts cs) d \<and>
      (\<forall>t \<in> set us. unat (pt_wordId t) div CHUNK_SIZE = d)"
  proof -
    have "\<forall>d. chunk_present (fold task_on ts cs) d = chunk_present cs d" using f [OF pr] by blast
    then show ?thesis using Cons.prems(2) by auto
  qed
  have "chunks_wf (fold task_on ts cs)" and
    "chunk_entry (fold task_on ts cs) n = apply_tasks n ts (chunk_entry cs n)" using f [OF pr] by auto
  with Cons.IH [of "fold task_on ts cs"] all e eq show ?case
    by (simp add: apply_tasks_def)
qed

lemma fold_max_init: "m \<le> fold max xs (m :: nat)"
  by (induction xs arbitrary: m) (auto intro: order_trans [OF max.cobounded2])

lemma fold_max_ge: "x \<in> set xs \<Longrightarrow> x \<le> fold max xs (m :: nat)"
proof (induction xs arbitrary: m)
  case (Cons a xs)
  then show ?case using fold_max_init [of "max a m" xs] by auto
qed simp

lemma fold_ensure:
  "chunks_wf cs \<Longrightarrow> chunks_wf (fold ensure_chunk ks cs) \<and> length (fold ensure_chunk ks cs) = length cs \<and>
   chunk_entry (fold ensure_chunk ks cs) n = chunk_entry cs n"
  by (induction ks arbitrary: cs) simp_all

lemma fold_ensure_present:
  "\<forall>k \<in> set ks. k < length cs \<Longrightarrow> c \<in> set ks \<or> chunk_present cs c \<Longrightarrow>
   chunk_present (fold ensure_chunk ks cs) c"
proof (induction ks arbitrary: cs)
  case Nil
  then show ?case by simp
next
  case (Cons k ks)
  have "chunk_present (ensure_chunk k cs) c" if "c = k \<or> chunk_present cs c"
    using that Cons.prems(1) ensure_Some [of k cs] ensure_keeps [of cs c _ k]
    by (auto simp: chunk_present_def)
  with Cons show ?case by auto
qed

definition chunk_map_ok :: "chunk_map \<Rightarrow> bool" where
  "chunk_map_ok cm \<longleftrightarrow> (\<forall>(c, ts) \<in> set cm. \<forall>t \<in> set ts. unat (pt_wordId t) div CHUNK_SIZE = c)"

lemma commitChunkMap_entry:
  assumes "chunks_wf cs" and "chunk_map_ok cm"
  shows "chunks_wf (commitChunkMap cm cs)"
    and "chunk_entry (commitChunkMap cm cs) n = apply_tasks n (concat (map snd cm)) (chunk_entry cs n)"
proof -
  let ?m = "fold max (map fst cm) 0"
  let ?g = "if ?m \<ge> length cs then grow_chunks (?m + 1) cs else cs"
  have g: "chunks_wf ?g" "chunk_entry ?g n = chunk_entry cs n" using assms by simp_all
  have lt: "\<forall>k \<in> set (map fst cm). k < length ?g"
    using fold_max_ge [of _ "map fst cm" 0] by (fastforce simp: length_grow simp del: set_map)
  let ?e = "fold ensure_chunk (map fst cm) ?g"
  have e: "chunks_wf ?e" "chunk_entry ?e n = chunk_entry cs n"
    using fold_ensure [OF g(1)] g(2) by auto
  have "\<forall>(c, ts) \<in> set cm. chunk_present ?e c \<and>
      (\<forall>t \<in> set ts. unat (pt_wordId t) div CHUNK_SIZE = c)"
    using assms(2) fold_ensure_present [OF lt] unfolding chunk_map_ok_def by force
  from fold_commit_entry [OF e(1) this, of n] e(2)
  show "chunks_wf (commitChunkMap cm cs)"
    and "chunk_entry (commitChunkMap cm cs) n = apply_tasks n (concat (map snd cm)) (chunk_entry cs n)"
    by (simp_all add: commitChunkMap_def Let_def)
qed

section \<open>Grouping of the tasks by chunk\<close>

definition tasks_for :: "nat \<Rightarrow> posting_task list \<Rightarrow> posting_task list" where
  "tasks_for n ts = filter (\<lambda>t. unat (pt_wordId t) = n) ts"

lemma apply_tasks_for: "apply_tasks n ts p = fold (\<lambda>t p. pl_add p (pt_fileId t) (pt_count t)) (tasks_for n ts) p"
  by (induction ts arbitrary: p) (simp_all add: apply_tasks_def tasks_for_def)

definition entry_of :: "chunk_map \<Rightarrow> nat \<Rightarrow> posting_task list" where
  "entry_of cm c = (case um_find cm c of None \<Rightarrow> [] | Some ts \<Rightarrow> ts)"

lemma chunk_map_ok_Cons:
  "chunk_map_ok ((c, ts) # cm) \<longleftrightarrow> (\<forall>t \<in> set ts. unat (pt_wordId t) div CHUNK_SIZE = c) \<and> chunk_map_ok cm"
  by (simp add: chunk_map_ok_def)

lemma tasks_for_other: "\<forall>t \<in> set ts. unat (pt_wordId t) div CHUNK_SIZE = c \<Longrightarrow> c \<noteq> n div CHUNK_SIZE \<Longrightarrow>
    tasks_for n ts = []"
  by (auto simp: tasks_for_def filter_empty_conv)

lemma tasks_for_concat:
  assumes "um_ok cm" and "chunk_map_ok cm"
  shows "tasks_for n (concat (map snd cm)) = tasks_for n (entry_of cm (n div CHUNK_SIZE))"
  using assms
proof (induction cm)
  case Nil
  then show ?case by (simp add: entry_of_def)
next
  case (Cons e cm)
  obtain c ts where e: "e = (c, ts)" by (cases e)
  have IH: "tasks_for n (concat (map snd cm)) = tasks_for n (entry_of cm (n div CHUNK_SIZE))"
    using Cons by (simp add: um_ok_def e chunk_map_ok_Cons)
  have ts: "\<forall>t \<in> set ts. unat (pt_wordId t) div CHUNK_SIZE = c"
    using Cons.prems(2) by (simp add: e chunk_map_ok_Cons)
  show ?case
  proof (cases "c = n div CHUNK_SIZE")
    case True
    then have "um_find cm (n div CHUNK_SIZE) = None"
      using Cons.prems(1) by (auto simp: um_ok_def e um_find_None_iff)
    with True IH e show ?thesis by (simp add: entry_of_def um_find_def tasks_for_def)
  next
    case False
    with IH tasks_for_other [OF ts] e show ?thesis by (simp add: entry_of_def um_find_def tasks_for_def)
  qed
qed

lemma um_put_set: "e \<in> set (um_put k v m) \<Longrightarrow> e = (k, v) \<or> e \<in> set m"
  unfolding um_put_def by (induction m) (auto split: if_splits)

lemma group_task_ok:
  assumes "um_ok cm" and "chunk_map_ok cm"
  shows "um_ok (group_task f wc cm)" and "chunk_map_ok (group_task f wc cm)"
proof -
  show "um_ok (group_task f wc cm)" using assms by (simp add: group_task_def Let_def)
  let ?c = "unat (fst wc) div CHUNK_SIZE"
  have "\<forall>t \<in> set (entry_of cm ?c). unat (pt_wordId t) div CHUNK_SIZE = ?c"
  proof (cases "um_find cm ?c")
    case (Some ts)
    with assms(1) have "(?c, ts) \<in> set cm" by (simp add: um_find_Some_iff)
    with assms(2) Some show ?thesis by (auto simp: entry_of_def chunk_map_ok_def)
  qed (simp add: entry_of_def)
  moreover have "group_task f wc cm = um_put ?c (entry_of cm ?c @
      [\<lparr>pt_fileId = f, pt_wordId = fst wc, pt_count = snd wc\<rparr>]) cm"
    by (simp add: group_task_def Let_def entry_of_def)
  ultimately show "chunk_map_ok (group_task f wc cm)"
    using assms(2) unfolding chunk_map_ok_def by (auto dest!: um_put_set)
qed

lemma group_tasks:
  assumes "um_ok cm" and "chunk_map_ok cm"
  shows "chunk_map_ok (fold (group_task f) wm cm) \<and> um_ok (fold (group_task f) wm cm) \<and>
    tasks_for n (concat (map snd (fold (group_task f) wm cm))) =
      tasks_for n (concat (map snd cm)) @
      tasks_for n (map (\<lambda>wc. \<lparr>pt_fileId = f, pt_wordId = fst wc, pt_count = snd wc\<rparr>) wm)"
  using assms
proof (induction wm arbitrary: cm)
  case Nil
  then show ?case by (simp add: tasks_for_def)
next
  case (Cons wc wm)
  note ok = group_task_ok [OF Cons.prems, of f wc]
  let ?t = "\<lparr>pt_fileId = f, pt_wordId = fst wc, pt_count = snd wc\<rparr>"
  have "tasks_for n (concat (map snd (group_task f wc cm))) =
      tasks_for n (concat (map snd cm)) @ tasks_for n [?t]"
    unfolding tasks_for_concat [OF ok] tasks_for_concat [OF Cons.prems]
    by (auto simp: group_task_def Let_def entry_of_def um_find_put tasks_for_def)
  with Cons.IH [OF ok] show ?case by (simp add: tasks_for_def)
qed

lemma tasks_for_umap:
  assumes "um_ok wm"
  shows "tasks_for n (map (\<lambda>wc. \<lparr>pt_fileId = f, pt_wordId = fst wc, pt_count = snd wc\<rparr>) wm) =
    (if n < 2 ^ 32 then (case um_find wm (of_nat n) of None \<Rightarrow> []
       | Some c \<Rightarrow> [\<lparr>pt_fileId = f, pt_wordId = of_nat n, pt_count = c\<rparr>]) else [])"
  using assms
proof (induction wm)
  case Nil
  then show ?case by (simp add: tasks_for_def)
next
  case (Cons wc wm)
  obtain i c where wc: "wc = (i, c)" by (cases wc)
  have IH: "tasks_for n (map (\<lambda>wc. \<lparr>pt_fileId = f, pt_wordId = fst wc, pt_count = snd wc\<rparr>) wm) =
    (if n < 2 ^ 32 then (case um_find wm (of_nat n) of None \<Rightarrow> []
       | Some c \<Rightarrow> [\<lparr>pt_fileId = f, pt_wordId = of_nat n, pt_count = c\<rparr>]) else [])"
    using Cons by (simp add: um_ok_def)
  show ?case
  proof (cases "unat i = n")
    case True
    then have i: "i = of_nat n" and n: "n < 2 ^ 32" using unat_u32_bound [of i] by auto
    then have "um_find wm (of_nat n) = None" using Cons.prems wc by (simp add: um_ok_def um_find_None_iff)
    with IH n i wc True show ?thesis by (simp add: tasks_for_def um_find_def)
  next
    case False
    then have "n < 2 ^ 32 \<Longrightarrow> i \<noteq> of_nat n" using unat_of_nat_u32 by auto
    with IH wc False show ?thesis by (auto simp: tasks_for_def um_find_def)
  qed
qed

lemma commit_grouped:
  assumes "chunks_wf cs" and "um_ok wm"
  shows "chunks_wf (commitChunkMap (fold (group_task f) wm []) cs)"
    and "n < 2 ^ 32 \<Longrightarrow> chunk_entry (commitChunkMap (fold (group_task f) wm []) cs) n =
      (case um_find wm (of_nat n) of None \<Rightarrow> chunk_entry cs n | Some c \<Rightarrow> pl_add (chunk_entry cs n) f c)"
    and "\<not> n < 2 ^ 32 \<Longrightarrow> chunk_entry (commitChunkMap (fold (group_task f) wm []) cs) n = chunk_entry cs n"
proof -
  have g: "chunk_map_ok (fold (group_task f) wm [])"
    "tasks_for n (concat (map snd (fold (group_task f) wm []))) =
      tasks_for n (map (\<lambda>wc. \<lparr>pt_fileId = f, pt_wordId = fst wc, pt_count = snd wc\<rparr>) wm)"
    using group_tasks [of "[]" f wm n] by (simp_all add: chunk_map_ok_def tasks_for_def)
  show "chunks_wf (commitChunkMap (fold (group_task f) wm []) cs)"
    by (rule commitChunkMap_entry [OF assms(1) g(1)])
  have "chunk_entry (commitChunkMap (fold (group_task f) wm []) cs) n =
      fold (\<lambda>t p. pl_add p (pt_fileId t) (pt_count t))
        (if n < 2 ^ 32 then (case um_find wm (of_nat n) of None \<Rightarrow> []
          | Some c \<Rightarrow> [\<lparr>pt_fileId = f, pt_wordId = of_nat n, pt_count = c\<rparr>]) else []) (chunk_entry cs n)"
    unfolding commitChunkMap_entry(2) [OF assms(1) g(1)] apply_tasks_for g(2) tasks_for_umap [OF assms(2)] ..
  then show "n < 2 ^ 32 \<Longrightarrow> chunk_entry (commitChunkMap (fold (group_task f) wm []) cs) n =
      (case um_find wm (of_nat n) of None \<Rightarrow> chunk_entry cs n | Some c \<Rightarrow> pl_add (chunk_entry cs n) f c)"
    and "\<not> n < 2 ^ 32 \<Longrightarrow> chunk_entry (commitChunkMap (fold (group_task f) wm []) cs) n = chunk_entry cs n"
    by (auto split: option.splits)
qed

section \<open>The words of a batch\<close>

definition batch_inv ::
  "word_ids \<Rightarrow> (u32, u32 list) umap \<Rightarrow> u32 \<Rightarrow> (string \<times> u32) list \<Rightarrow> batch_state \<Rightarrow> bool" where
  "batch_inv m refs f l r \<longleftrightarrow>
     wid_invar (bs_wordIds r) \<and> wid_size (bs_wordIds r) \<le> wid_size m + length l \<and>
     (\<forall>w i. wid_tryGet m w = Some i \<longrightarrow> wid_tryGet (bs_wordIds r) w = Some i) \<and>
     (\<forall>w. w \<notin> fst ` set l \<longrightarrow> wid_tryGet (bs_wordIds r) w = wid_tryGet m w) \<and>
     um_ok (bs_widMap r) \<and>
     (\<forall>i c. um_find (bs_widMap r) i = Some c \<longleftrightarrow>
        (\<exists>w. (w, c) \<in> set l \<and> wid_tryGet (bs_wordIds r) w = Some i)) \<and>
     (\<forall>w \<in> fst ` set l. \<exists>i. wid_tryGet (bs_wordIds r) w = Some i \<and> i \<in> set (refs_of (bs_refs r) f)) \<and>
     um_ok (bs_refs r) \<and> (\<forall>g. g \<noteq> f \<longrightarrow> um_find (bs_refs r) g = um_find refs g) \<and>
     set (refs_of refs f) \<subseteq> set (refs_of (bs_refs r) f)"

lemma push_ref_set: "set (push_ref wid l) = insert wid (set l)"
  by (auto simp: push_ref_def)

lemma batch_inv_step:
  assumes "batch_inv m refs f l r" and "w \<notin> fst ` set l" and "wid_size m + length l < 2 ^ 32"
  shows "batch_inv m refs f (l @ [(w, c)]) (batch_word f k (w, c) r)"
proof -
  obtain ids i where g: "wid_getId (bs_wordIds r) w = (ids, i)" by (cases "wid_getId (bs_wordIds r) w")
  have inv: "wid_invar (bs_wordIds r)" and sz: "wid_size (bs_wordIds r) < 2 ^ 32"
    using assms by (auto simp: batch_inv_def)
  note g' = wid.get_id_result [OF inv sz g]
  have inv': "wid_invar ids" and wi: "wid_tryGet ids w = Some i" using g' by auto
  have keep: "v \<noteq> w \<Longrightarrow> wid_tryGet ids v = wid_tryGet (bs_wordIds r) v" for v using g' by blast
  have none: "um_find (bs_widMap r) i = None"
  proof (rule ccontr)
    assume "um_find (bs_widMap r) i \<noteq> None"
    then obtain c' where "um_find (bs_widMap r) i = Some c'" by auto
    then obtain v where v: "(v, c') \<in> set l" "wid_tryGet (bs_wordIds r) v = Some i"
      using assms(1) by (auto simp: batch_inv_def)
    then have "v \<noteq> w" using assms(2) by force
    with keep v(2) have "wid_tryGet ids v = Some i" by simp
    with wid.try_get_inj [OF inv' wi] \<open>v \<noteq> w\<close> show False by blast
  qed
  let ?b = "batch_word f k (w, c) r"
  have b: "bs_wordIds ?b = ids" "bs_widMap ?b = um_put i c (bs_widMap r)"
    "bs_refs ?b = um_put f (push_ref i (refs_of (bs_refs r) f)) (bs_refs r)"
    by (simp_all add: batch_word_def g none)
  have refs: "set (refs_of (bs_refs ?b) f) = insert i (set (refs_of (bs_refs r) f))"
    by (simp add: b refs_of_def um_find_put push_ref_set)
  have map: "um_find (bs_widMap ?b) j = Some d \<longleftrightarrow>
      (\<exists>v. (v, d) \<in> set (l @ [(w, c)]) \<and> wid_tryGet ids v = Some j)" for j d
  proof (cases "j = i")
    case True
    have "wid_tryGet ids v = Some i \<longleftrightarrow> v = w" for v using wid.try_get_inj [OF inv' wi] wi by blast
    with True assms(2) show ?thesis by (force simp: b um_find_put)
  next
    case False
    have "(v, d) \<in> set l \<Longrightarrow> v \<noteq> w" for v using assms(2) by force
    with False assms(1) keep wi show ?thesis by (auto simp: b um_find_put batch_inv_def)
  qed
  have words: "\<forall>v \<in> fst ` set (l @ [(w, c)]). \<exists>j. wid_tryGet ids v = Some j \<and>
      j \<in> set (refs_of (bs_refs ?b) f)"
  proof
    fix v assume v: "v \<in> fst ` set (l @ [(w, c)])"
    show "\<exists>j. wid_tryGet ids v = Some j \<and> j \<in> set (refs_of (bs_refs ?b) f)"
    proof (cases "v = w")
      case False
      with v have "v \<in> fst ` set l" by auto
      then have "\<exists>j. wid_tryGet (bs_wordIds r) v = Some j \<and> j \<in> set (refs_of (bs_refs r) f)"
        using assms(1) unfolding batch_inv_def by blast
      with False keep refs show ?thesis by auto
    qed (use wi refs in simp)
  qed
  show ?thesis
    unfolding batch_inv_def b(1)
  proof (intro conjI)
    show "wid_size ids \<le> wid_size m + length (l @ [(w, c)])" using g' assms(1) by (simp add: batch_inv_def)
    show "\<forall>v j. wid_tryGet m v = Some j \<longrightarrow> wid_tryGet ids v = Some j"
      using assms(1) g' by (simp add: batch_inv_def)
    show "\<forall>v. v \<notin> fst ` set (l @ [(w, c)]) \<longrightarrow> wid_tryGet ids v = wid_tryGet m v"
      using assms(1) keep by (simp add: batch_inv_def)
    show "set (refs_of refs f) \<subseteq> set (refs_of (bs_refs ?b) f)" using assms(1) refs by (auto simp: batch_inv_def)
    show "um_ok (bs_widMap ?b)" "um_ok (bs_refs ?b)"
      "\<forall>g. g \<noteq> f \<longrightarrow> um_find (bs_refs ?b) g = um_find refs g"
      using assms(1) by (simp_all add: b batch_inv_def um_find_put)
  qed (use inv' map words in auto)
qed

lemma batch_inv_fold:
  assumes "wid_invar m" and "um_ok refs" and "distinct (map fst l)" and "wid_size m + length l \<le> 2 ^ 32"
  shows "batch_inv m refs f l (fold (batch_word f k) l
    \<lparr>bs_wordIds = m, bs_widMap = [], bs_newWords = [], bs_refs = refs\<rparr>)"
  using assms(3,4)
proof (induction l rule: rev_induct)
  case Nil
  then show ?case using assms(1,2) by (simp add: batch_inv_def)
next
  case (snoc x l)
  obtain w c where x: "x = (w, c)" by (cases x)
  from snoc batch_inv_step [of m refs f l _ w c k] x show ?case by simp
qed

section \<open>The invariant of the mutable index\<close>

definition count_of :: "inverted_index \<Rightarrow> string \<Rightarrow> u32 \<Rightarrow> u16 option" where
  "count_of s w f = pl_find (getWordCount s w) f"

text \<open>\<open>ii_base\<close>: the chunks are the active representation, every list is sorted and lists exist
  only for known words. \<open>refs_complete\<close>: a file occurs only in lists of words it refers to.\<close>

definition ii_base :: "inverted_index \<Rightarrow> bool" where
  "ii_base s \<longleftrightarrow> wid_invar (ii_wordIds s) \<and> ii_dictionary s = [] \<and> chunks_wf (ii_chunks s) \<and>
     (\<forall>n. pl_invar (chunk_entry (ii_chunks s) n)) \<and>
     (\<forall>n. wid_size (ii_wordIds s) \<le> n \<longrightarrow> chunk_entry (ii_chunks s) n = []) \<and> um_ok (ii_wordRefs s)"

definition refs_complete :: "inverted_index \<Rightarrow> bool" where
  "refs_complete s \<longleftrightarrow> (\<forall>n f. pl_map (chunk_entry (ii_chunks s) n) f \<noteq> None \<longrightarrow>
     of_nat n \<in> set (refs_of (ii_wordRefs s) f))"

definition ii_invar :: "inverted_index \<Rightarrow> bool" where
  "ii_invar s \<longleftrightarrow> ii_base s \<and> refs_complete s"

lemma ii_invar_empty: "ii_invar ii_empty"
  by (simp add: ii_invar_def ii_base_def refs_complete_def ii_empty_def wid_invar_empty chunk_entry_def)

lemma getWordCount_chunks:
  "ii_dictionary s = [] \<Longrightarrow> getWordCount s w = (case wid_tryGet (ii_wordIds s) w of None \<Rightarrow> []
     | Some i \<Rightarrow> chunk_entry (ii_chunks s) (unat i))"
  by (auto simp: getWordCount_def getPostingCopyByWord_def chunk_entry_def Let_def split: option.splits)

lemma getPosting_WordCount:
  "getPostingCopyByWord s w = (if getWordCount s w = [] then None else Some (getWordCount s w))"
  by (auto simp: getWordCount_def getPostingCopyByWord_def Let_def split: option.splits)

lemma count_of_base:
  "ii_base s \<Longrightarrow> count_of s w f = (case wid_tryGet (ii_wordIds s) w of None \<Rightarrow> None
     | Some i \<Rightarrow> pl_map (chunk_entry (ii_chunks s) (unat i)) f)"
  by (auto simp: count_of_def getWordCount_chunks ii_base_def pl_find_map split: option.splits)

lemma wid_size_bound: "wid_invar m \<Longrightarrow> wid_size m \<le> 2 ^ 32"
  by (simp add: wid_invar_def wid_size_def)

lemma commit_batch_parts:
  assumes "ii_base s" and "distinct (map fst (pb_list b))"
    and "wid_size (ii_wordIds s) + length (pb_list b) \<le> 2 ^ 32" and "pb_list b \<noteq> []"
  obtains r where "batch_inv (ii_wordIds s) (ii_wordRefs s) (pb_fileId b) (pb_list b) r"
    and "commit_batch b s = s\<lparr>ii_wordIds := bs_wordIds r, ii_wordRefs := bs_refs r,
      ii_chunks := commitChunkMap (fold (group_task (pb_fileId b)) (bs_widMap r) []) (ii_chunks s)\<rparr>"
proof -
  let ?r = "fold (batch_word (pb_fileId b) (wid_size (ii_wordIds s))) (pb_list b)
    \<lparr>bs_wordIds = ii_wordIds s, bs_widMap = [], bs_newWords = [], bs_refs = ii_wordRefs s\<rparr>"
  have "batch_inv (ii_wordIds s) (ii_wordRefs s) (pb_fileId b) (pb_list b) ?r"
    using assms by (intro batch_inv_fold) (simp_all add: ii_base_def)
  then show thesis using assms(4)
    by (intro that [of ?r]) (simp_all add: commit_batch_def processBatch_def Let_def)
qed

lemma commit_batch_entry:
  assumes "ii_base s" and "batch_inv (ii_wordIds s) (ii_wordRefs s) f l r"
  defines "cs' \<equiv> commitChunkMap (fold (group_task f) (bs_widMap r) []) (ii_chunks s)"
  shows "chunks_wf cs'"
    and "wid_tryGet (bs_wordIds r) w = Some i \<Longrightarrow> w \<notin> fst ` set l \<Longrightarrow>
      chunk_entry cs' (unat i) = chunk_entry (ii_chunks s) (unat i)"
    and "wid_tryGet (bs_wordIds r) w = Some i \<Longrightarrow> (w, c) \<in> set l \<Longrightarrow>
      chunk_entry cs' (unat i) = pl_add (chunk_entry (ii_chunks s) (unat i)) f c"
    and "wid_size (bs_wordIds r) \<le> n \<Longrightarrow> chunk_entry cs' n = chunk_entry (ii_chunks s) n"
proof -
  have wf: "chunks_wf (ii_chunks s)" and ok: "um_ok (bs_widMap r)" and inv: "wid_invar (bs_wordIds r)"
    and wm: "um_find (bs_widMap r) j = Some d \<longleftrightarrow>
      (\<exists>w. (w, d) \<in> set l \<and> wid_tryGet (bs_wordIds r) w = Some j)" for j d
    using assms(1,2) unfolding ii_base_def batch_inv_def by auto
  note cg = commit_grouped [OF wf ok, where f = f]
  show "chunks_wf cs'" unfolding cs'_def by (rule cg)
  have at: "chunk_entry cs' (unat j) = (case um_find (bs_widMap r) j of
      None \<Rightarrow> chunk_entry (ii_chunks s) (unat j) | Some c \<Rightarrow> pl_add (chunk_entry (ii_chunks s) (unat j)) f c)"
    for j using cg(2) [of "unat j"] unat_u32_bound [of j] by (simp add: cs'_def)
  show "chunk_entry cs' (unat i) = chunk_entry (ii_chunks s) (unat i)"
    if w: "wid_tryGet (bs_wordIds r) w = Some i" "w \<notin> fst ` set l"
  proof -
    have "um_find (bs_widMap r) i = None"
    proof (rule ccontr)
      assume "um_find (bs_widMap r) i \<noteq> None"
      then obtain c v where "(v, c) \<in> set l" "wid_tryGet (bs_wordIds r) v = Some i" using wm by auto
      with wid.try_get_inj [OF inv w(1)] w(2) show False by force
    qed
    then show ?thesis by (simp add: at)
  qed
  show "chunk_entry cs' (unat i) = pl_add (chunk_entry (ii_chunks s) (unat i)) f c"
    if "wid_tryGet (bs_wordIds r) w = Some i" "(w, c) \<in> set l"
    using wm [of i c] that at [of i] by auto
  show "chunk_entry cs' n = chunk_entry (ii_chunks s) n" if n: "wid_size (bs_wordIds r) \<le> n"
  proof (cases "n < 2 ^ 32")
    case True
    then have un: "unat (of_nat n :: u32) = n" by (rule unat_of_nat_u32)
    have "um_find (bs_widMap r) (of_nat n) = None"
    proof (rule ccontr)
      assume "um_find (bs_widMap r) (of_nat n) \<noteq> None"
      then obtain v where "wid_tryGet (bs_wordIds r) v = Some (of_nat n)" using wm by auto
      with wid.try_get_bound [OF inv] n un show False by fastforce
    qed
    with at [of "of_nat n"] un show ?thesis by simp
  next
    case False
    with cg(3) show ?thesis by (simp add: cs'_def)
  qed
qed

lemma wid_cases:
  assumes "wid_invar m" and "n < wid_size m"
  obtains w where "wid_tryGet m w = Some (of_nat n)" and "unat (of_nat n :: u32) = n"
proof -
  have un: "unat (of_nat n :: u32) = n"
    using assms wid_size_bound [OF assms(1)] by (intro unat_of_nat_u32) simp
  with wid.by_id_try_get [OF assms(1), of "of_nat n"] assms(2) that show thesis by auto
qed

lemma distinct_fst_unique: "distinct (map fst l) \<Longrightarrow> (w, c) \<in> set l \<Longrightarrow> map_of l w = Some c"
  by (simp add: map_of_is_SomeI)

lemma commit_batch_counts:
  assumes "ii_base s" and "distinct (map fst (pb_list b))"
    and "wid_size (ii_wordIds s) + length (pb_list b) \<le> 2 ^ 32"
  shows "ii_base (commit_batch b s)"
    and "count_of (commit_batch b s) w g = (case map_of (pb_list b) w of
        None \<Rightarrow> count_of s w g
      | Some c \<Rightarrow> if g = pb_fileId b then Some (cnt_plus_opt (count_of s w g) c) else count_of s w g)"
proof -
  have "ii_base (commit_batch b s) \<and> count_of (commit_batch b s) w g = (case map_of (pb_list b) w of
        None \<Rightarrow> count_of s w g
      | Some c \<Rightarrow> if g = pb_fileId b then Some (cnt_plus_opt (count_of s w g) c) else count_of s w g)"
  proof (cases "pb_list b = []")
    case True
    with assms(1) show ?thesis by (simp add: commit_batch_def split: prod.splits)
  next
    case False
    from commit_batch_parts [OF assms False] obtain r where
      r: "batch_inv (ii_wordIds s) (ii_wordRefs s) (pb_fileId b) (pb_list b) r" and
      e: "commit_batch b s = s\<lparr>ii_wordIds := bs_wordIds r, ii_wordRefs := bs_refs r,
        ii_chunks := commitChunkMap (fold (group_task (pb_fileId b)) (bs_widMap r) []) (ii_chunks s)\<rparr>" .
    note en = commit_batch_entry [OF assms(1) r]
    let ?cs = "commitChunkMap (fold (group_task (pb_fileId b)) (bs_widMap r) []) (ii_chunks s)"
    have inv: "wid_invar (bs_wordIds r)" and refs: "um_ok (bs_refs r)"
      and keep: "\<And>w i. wid_tryGet (ii_wordIds s) w = Some i \<Longrightarrow> wid_tryGet (bs_wordIds r) w = Some i"
      and other: "\<And>w. w \<notin> fst ` set (pb_list b) \<Longrightarrow> wid_tryGet (bs_wordIds r) w = wid_tryGet (ii_wordIds s) w"
      and known: "\<And>w. w \<in> fst ` set (pb_list b) \<Longrightarrow> \<exists>i. wid_tryGet (bs_wordIds r) w = Some i"
      using r unfolding batch_inv_def by auto
    have old: "wid_invar (ii_wordIds s)" "\<And>n. pl_invar (chunk_entry (ii_chunks s) n)"
      "\<And>n. wid_size (ii_wordIds s) \<le> n \<Longrightarrow> chunk_entry (ii_chunks s) n = []"
      using assms(1) unfolding ii_base_def by auto
    have fresh: "chunk_entry (ii_chunks s) (unat i) = []"
      if "wid_tryGet (ii_wordIds s) w = None" "wid_tryGet (bs_wordIds r) w = Some i" for w i
    proof (rule old(3), rule ccontr)
      assume "\<not> wid_size (ii_wordIds s) \<le> unat i"
      then obtain v where "wid_tryGet (ii_wordIds s) v = Some i"
        using wid_cases [OF old(1), of "unat i"] by auto
      with keep that wid.try_get_inj [OF inv] show False by (metis option.distinct(1))
    qed
    have new: "pl_invar (chunk_entry ?cs n) \<and> (wid_size (bs_wordIds r) \<le> n \<longrightarrow> chunk_entry ?cs n = [])" for n
    proof (cases "n < wid_size (bs_wordIds r)")
      case True
      from wid_cases [OF inv this] obtain v where v: "wid_tryGet (bs_wordIds r) v = Some (of_nat n)"
        "unat (of_nat n :: u32) = n" .
      show ?thesis
      proof (cases "v \<in> fst ` set (pb_list b)")
        case True
        then obtain c where "(v, c) \<in> set (pb_list b)" by auto
        with en(3) [OF v(1) this] v(2) old(2) \<open>n < wid_size (bs_wordIds r)\<close> show ?thesis
          by (simp add: pl_invar_add)
      next
        case False
        with en(2) [OF v(1) False] v(2) old(2) \<open>n < wid_size (bs_wordIds r)\<close> show ?thesis by simp
      qed
    next
      case False
      have "wid_size (ii_wordIds s) \<le> n"
      proof (rule ccontr)
        assume "\<not> wid_size (ii_wordIds s) \<le> n"
        then obtain v where "wid_tryGet (ii_wordIds s) v = Some (of_nat n)" "unat (of_nat n :: u32) = n"
          using wid_cases [OF old(1), of n] by auto
        with keep wid.try_get_bound [OF inv] False show False by fastforce
      qed
      with False en(4) [of n] old(3) [of n] show ?thesis by simp
    qed
    have base: "ii_base (commit_batch b s)"
      using assms(1) inv refs en(1) new unfolding ii_base_def e by simp
    have "count_of (commit_batch b s) w g = (case map_of (pb_list b) w of
        None \<Rightarrow> count_of s w g
      | Some c \<Rightarrow> if g = pb_fileId b then Some (cnt_plus_opt (count_of s w g) c) else count_of s w g)"
    proof (cases "map_of (pb_list b) w")
      case None
      then have w: "w \<notin> fst ` set (pb_list b)" by (simp add: map_of_eq_None_iff)
      from None show ?thesis
        unfolding count_of_base [OF base] count_of_base [OF assms(1)]
        using other [OF w] en(2) [OF _ w] by (auto simp: e split: option.splits)
    next
      case (Some c)
      then have w: "(w, c) \<in> set (pb_list b)" by (rule map_of_SomeD)
      then obtain i where i: "wid_tryGet (bs_wordIds r) w = Some i" using known [of w] by force
      have prev: "count_of s w h = pl_map (chunk_entry (ii_chunks s) (unat i)) h" for h
        using keep [of w] fresh [OF _ i] i unfolding count_of_base [OF assms(1)] by (auto split: option.splits)
      have "count_of (commit_batch b s) w g = pl_map (chunk_entry ?cs (unat i)) g"
        unfolding count_of_base [OF base] by (simp add: e i)
      also have "\<dots> = pl_map (pl_add (chunk_entry (ii_chunks s) (unat i)) (pb_fileId b) c) g"
        using en(3) [OF i w] by simp
      finally show ?thesis
        using Some by (simp add: pl_map_add [OF old(2)] prev cnt_plus_opt_def)
    qed
    with base show ?thesis by blast
  qed
  then show "ii_base (commit_batch b s)"
    and "count_of (commit_batch b s) w g = (case map_of (pb_list b) w of
        None \<Rightarrow> count_of s w g
      | Some c \<Rightarrow> if g = pb_fileId b then Some (cnt_plus_opt (count_of s w g) c) else count_of s w g)"
    by auto
qed

lemma refs_complete_words:
  assumes "ii_base s"
  shows "refs_complete s \<longleftrightarrow> (\<forall>w i f. wid_tryGet (ii_wordIds s) w = Some i \<and> count_of s w f \<noteq> None \<longrightarrow>
    i \<in> set (refs_of (ii_wordRefs s) f))"
proof
  assume R: "refs_complete s"
  show "\<forall>w i f. wid_tryGet (ii_wordIds s) w = Some i \<and> count_of s w f \<noteq> None \<longrightarrow>
    i \<in> set (refs_of (ii_wordRefs s) f)"
  proof (intro allI impI, elim conjE)
    fix w i f assume "wid_tryGet (ii_wordIds s) w = Some i" "count_of s w f \<noteq> None"
    then have "pl_map (chunk_entry (ii_chunks s) (unat i)) f \<noteq> None" by (simp add: count_of_base [OF assms])
    with R have "of_nat (unat i) \<in> set (refs_of (ii_wordRefs s) f)" unfolding refs_complete_def by blast
    then show "i \<in> set (refs_of (ii_wordRefs s) f)" by simp
  qed
next
  assume W: "\<forall>w i f. wid_tryGet (ii_wordIds s) w = Some i \<and> count_of s w f \<noteq> None \<longrightarrow>
    i \<in> set (refs_of (ii_wordRefs s) f)"
  show "refs_complete s"
    unfolding refs_complete_def
  proof (intro allI impI)
    fix n f assume a: "pl_map (chunk_entry (ii_chunks s) n) f \<noteq> None"
    have "n < wid_size (ii_wordIds s)"
    proof (rule ccontr)
      assume "\<not> n < wid_size (ii_wordIds s)"
      then have "chunk_entry (ii_chunks s) n = []" using assms by (simp add: ii_base_def)
      with a show False by simp
    qed
    then obtain w where w: "wid_tryGet (ii_wordIds s) w = Some (of_nat n)" "unat (of_nat n :: u32) = n"
      using wid_cases assms unfolding ii_base_def by blast
    with a have "count_of s w f \<noteq> None" by (simp add: count_of_base [OF assms])
    with W w show "of_nat n \<in> set (refs_of (ii_wordRefs s) f)" by blast
  qed
qed

lemma commit_batch_refs:
  assumes "ii_invar s" and "distinct (map fst (pb_list b))"
    and "wid_size (ii_wordIds s) + length (pb_list b) \<le> 2 ^ 32"
  shows "ii_invar (commit_batch b s)"
proof (cases "pb_list b = []")
  case True
  with assms(1) show ?thesis by (simp add: commit_batch_def split: prod.splits)
next
  case False
  have base: "ii_base s" using assms(1) by (simp add: ii_invar_def)
  note cb = commit_batch_counts [OF base assms(2,3)]
  from commit_batch_parts [OF base assms(2,3) False] obtain r where
    r: "batch_inv (ii_wordIds s) (ii_wordRefs s) (pb_fileId b) (pb_list b) r" and
    e: "commit_batch b s = s\<lparr>ii_wordIds := bs_wordIds r, ii_wordRefs := bs_refs r,
      ii_chunks := commitChunkMap (fold (group_task (pb_fileId b)) (bs_widMap r) []) (ii_chunks s)\<rparr>" .
  have old: "i \<in> set (refs_of (ii_wordRefs s) f)"
    if "wid_tryGet (ii_wordIds s) w = Some i" "count_of s w f \<noteq> None" for w i f
    using assms(1) that refs_complete_words [OF base] unfolding ii_invar_def by blast
  have refs: "set (refs_of (ii_wordRefs s) f) \<subseteq> set (refs_of (bs_refs r) f)" for f
    using r by (cases "f = pb_fileId b") (auto simp: batch_inv_def refs_of_def)
  have "i \<in> set (refs_of (bs_refs r) f)"
    if a: "wid_tryGet (bs_wordIds r) w = Some i" "count_of (commit_batch b s) w f \<noteq> None" for w i f
  proof (cases "w \<in> fst ` set (pb_list b) \<and> f = pb_fileId b")
    case True
    then have "\<exists>j. wid_tryGet (bs_wordIds r) w = Some j \<and> j \<in> set (refs_of (bs_refs r) f)"
      using r unfolding batch_inv_def by blast
    with a show ?thesis by simp
  next
    case False
    then have "f \<noteq> pb_fileId b \<or> map_of (pb_list b) w = None" by (auto simp: map_of_eq_None_iff)
    with a(2) cb(2) [of w f] have c: "count_of s w f \<noteq> None" by (auto split: option.splits)
    then obtain j where j: "wid_tryGet (ii_wordIds s) w = Some j"
      by (auto simp: count_of_base [OF base] split: option.splits)
    then have "wid_tryGet (bs_wordIds r) w = Some j" using r by (simp add: batch_inv_def)
    with a old [OF j c] refs show ?thesis by auto
  qed
  then have "refs_complete (commit_batch b s)"
    unfolding refs_complete_words [OF cb(1)] by (auto simp: e)
  with cb(1) show ?thesis by (simp add: ii_invar_def)
qed

section \<open>Erasing a file\<close>

lemma erase_from_map: "pl_invar p \<Longrightarrow> pl_invar (erase_from f p) \<and> pl_map (erase_from f p) = (pl_map p)(f := None)"
  by (auto simp: erase_from_def pl_invar_erase pl_map_erase)

lemma erase_word_on_entry: "erase_word f wid cs = on_entry (unat wid) (erase_from f) cs"
  by (simp add: erase_word_def on_entry_def Let_def list_update_beyond)

lemma fold_erase_word:
  assumes "chunks_wf cs" and "pl_invar (chunk_entry cs n)"
  shows "chunks_wf (fold (erase_word f) l cs) \<and> pl_invar (chunk_entry (fold (erase_word f) l cs) n) \<and>
    pl_map (chunk_entry (fold (erase_word f) l cs) n) =
      (if n \<in> unat ` set l then (pl_map (chunk_entry cs n))(f := None) else pl_map (chunk_entry cs n)) \<and>
    (chunk_entry cs n = [] \<longrightarrow> chunk_entry (fold (erase_word f) l cs) n = [])"
  using assms
proof (induction l arbitrary: cs)
  case Nil
  then show ?case by simp
next
  case (Cons wid l)
  have wf: "chunks_wf (erase_word f wid cs)" using Cons.prems by (simp add: erase_word_on_entry)
  have e: "chunk_entry (erase_word f wid cs) n =
      (if n = unat wid then erase_from f (chunk_entry cs n) else chunk_entry cs n)"
    using chunk_entry_present [OF Cons.prems(1), of "erase_from f"]
    by (simp add: erase_word_on_entry erase_from_def)
  have "pl_invar (chunk_entry (erase_word f wid cs) n)"
    using Cons.prems(2) erase_from_map [OF Cons.prems(2), of f] by (auto simp: e)
  from Cons.IH [OF wf this] e erase_from_map [OF Cons.prems(2), of f] show ?case
    by (auto simp: fun_eq_iff erase_from_def)
qed

lemma map_chunks_entry:
  assumes "chunks_wf cs" and "f [] = []"
  shows "chunks_wf (map (map_option (map f)) cs)"
    and "chunk_entry (map (map_option (map f)) cs) n = f (chunk_entry cs n)"
proof -
  show "chunks_wf (map (map_option (map f)) cs)"
    using assms(1) unfolding chunks_wf_def by (auto dest!: sym [of "Some _"])
  show "chunk_entry (map (map_option (map f)) cs) n = f (chunk_entry cs n)"
  proof (cases "chunk_present cs (n div CHUNK_SIZE)")
    case True
    then obtain b where b: "n div CHUNK_SIZE < length cs" "cs ! (n div CHUNK_SIZE) = Some b"
      by (auto simp: chunk_present_def)
    with chunks_wf_nth [OF assms(1) b] show ?thesis by (simp add: chunk_entry_def Let_def)
  next
    case False
    then show ?thesis using assms(2)
      by (auto simp: chunk_present_def chunk_entry_def Let_def)
  qed
qed

lemma erase_entry:
  fixes f :: u32
  assumes "ii_invar s"
  defines "s' \<equiv> safeEraseFileInternal f s"
  shows "chunks_wf (ii_chunks s')" and "pl_invar (chunk_entry (ii_chunks s') n)"
    and "pl_map (chunk_entry (ii_chunks s') n) = (pl_map (chunk_entry (ii_chunks s) n))(f := None)"
    and "chunk_entry (ii_chunks s) n = [] \<Longrightarrow> chunk_entry (ii_chunks s') n = []"
proof -
  have wf: "chunks_wf (ii_chunks s)" and inv: "pl_invar (chunk_entry (ii_chunks s) n)"
    using assms(1) by (auto simp: ii_invar_def ii_base_def)
  have "chunks_wf (ii_chunks s') \<and> pl_invar (chunk_entry (ii_chunks s') n) \<and>
    pl_map (chunk_entry (ii_chunks s') n) = (pl_map (chunk_entry (ii_chunks s) n))(f := None) \<and>
    (chunk_entry (ii_chunks s) n = [] \<longrightarrow> chunk_entry (ii_chunks s') n = [])"
  proof (cases "um_find (ii_wordRefs s) f")
    case None
    then have "ii_chunks s' = map (map_option (map (erase_from f))) (ii_chunks s)"
      by (simp add: s'_def safeEraseFileInternal_def)
    with map_chunks_entry [OF wf, of "erase_from f"] erase_from_map [OF inv, of f] show ?thesis
      by (simp add: erase_from_def)
  next
    case (Some l)
    then have c: "ii_chunks s' = fold (erase_word f) l (ii_chunks s)"
      by (simp add: s'_def safeEraseFileInternal_def)
    have "pl_map (chunk_entry (ii_chunks s) n) f = None" if "n \<notin> unat ` set l"
    proof (rule ccontr)
      assume a: "pl_map (chunk_entry (ii_chunks s) n) f \<noteq> None"
      then have "of_nat n \<in> set (refs_of (ii_wordRefs s) f)"
        using assms(1) unfolding ii_invar_def refs_complete_def by blast
      with Some have mem: "of_nat n \<in> set l" by (simp add: refs_of_def)
      have "n < wid_size (ii_wordIds s)"
        using a assms(1) unfolding ii_invar_def ii_base_def by (metis not_le pl_map_Nil)
      then have "unat (of_nat n :: u32) = n"
        using wid_cases assms(1) unfolding ii_invar_def ii_base_def by blast
      with mem that show False by (metis image_eqI)
    qed
    then have "n \<notin> unat ` set l \<Longrightarrow>
        (pl_map (chunk_entry (ii_chunks s) n))(f := None) = pl_map (chunk_entry (ii_chunks s) n)"
      by (auto simp: fun_eq_iff)
    with fold_erase_word [OF wf inv, of f l] c show ?thesis by (simp split: if_splits)
  qed
  then show "chunks_wf (ii_chunks s')" and "pl_invar (chunk_entry (ii_chunks s') n)"
    and "pl_map (chunk_entry (ii_chunks s') n) = (pl_map (chunk_entry (ii_chunks s) n))(f := None)"
    and "chunk_entry (ii_chunks s) n = [] \<Longrightarrow> chunk_entry (ii_chunks s') n = []" by auto
qed

lemma erase_ids: "ii_wordIds (safeEraseFileInternal f s) = ii_wordIds s"
    "ii_dictionary (safeEraseFileInternal f s) = ii_dictionary s"
    "g \<noteq> f \<Longrightarrow> um_find (ii_wordRefs (safeEraseFileInternal f s)) g = um_find (ii_wordRefs s) g"
    "um_ok (ii_wordRefs s) \<Longrightarrow> um_ok (ii_wordRefs (safeEraseFileInternal f s))"
  by (auto simp: safeEraseFileInternal_def um_find_erase split: option.splits)

lemma erase_counts:
  assumes "ii_invar s"
  shows "ii_invar (safeEraseFileInternal f s)"
    and "count_of (safeEraseFileInternal f s) w g = (if g = f then None else count_of s w g)"
proof -
  let ?s = "safeEraseFileInternal f s"
  note e = erase_entry [OF assms, where f = f]
  have base: "ii_base s" using assms by (simp add: ii_invar_def)
  have base': "ii_base ?s"
    using base e erase_ids unfolding ii_base_def by simp
  show c: "count_of ?s w g = (if g = f then None else count_of s w g)" for w g
    unfolding count_of_base [OF base] count_of_base [OF base'] erase_ids
    by (auto simp: e(3) split: option.splits)
  have "refs_complete ?s"
    using assms unfolding ii_invar_def refs_complete_words [OF base] refs_complete_words [OF base'] c
    by (simp add: erase_ids refs_of_def split: if_splits)
  with base' show "ii_invar ?s" by (simp add: ii_invar_def)
qed

section \<open>Conversions between the representations\<close>

lemma zip_upt_snoc: "zip [0..<length (d @ [x])] (d @ [x]) = zip [0..<length d] d @ [(length d, x)]"
  by simp

lemma put_entry_on_entry: "put_entry e cs = on_entry (fst e) (\<lambda>_. snd e) (ensure_chunk (fst e div CHUNK_SIZE)
    (if fst e div CHUNK_SIZE \<ge> length cs then grow_chunks (fst e div CHUNK_SIZE + 1) cs else cs))"
  by (simp add: put_entry_def on_entry_def Let_def)

lemma fold_put_entry:
  "chunks_wf (fold put_entry (zip [0..<length d] d) []) \<and>
   chunk_entry (fold put_entry (zip [0..<length d] d) []) n = (if n < length d then d ! n else [])"
proof (induction d arbitrary: n rule: rev_induct)
  case Nil
  then show ?case by (simp add: chunk_entry_def)
next
  case (snoc x d)
  let ?cs = "fold put_entry (zip [0..<length d] d) []"
  have wf: "chunks_wf ?cs" using snoc by blast
  have f: "fold put_entry (zip [0..<length (d @ [x])] (d @ [x])) [] = put_entry (length d, x) ?cs"
    unfolding zip_upt_snoc by simp
  show ?case
    using snoc [of n] chunk_entry_ensured [OF wf, of "length d" "\<lambda>_. x"]
    unfolding f put_entry_on_entry by (auto simp: nth_append)
qed

lemma rebuildChunks_entry:
  "chunks_wf (ii_chunks (rebuildChunksFromDictionary s))"
  "chunk_entry (ii_chunks (rebuildChunksFromDictionary s)) n =
     (if n < length (ii_dictionary s) then ii_dictionary s ! n else [])"
  using fold_put_entry [of "ii_dictionary s"] by (simp_all add: rebuildChunksFromDictionary_def)

lemma fold_put_replicate:
  assumes "length d \<le> k * CHUNK_SIZE"
  defines "g \<equiv> \<lambda>(wid, p) cs. cs[wid div CHUNK_SIZE :=
    map_option (\<lambda>b. b[wid mod CHUNK_SIZE := p]) (cs ! (wid div CHUNK_SIZE))]"
  shows "chunks_wf (fold g (zip [0..<length d] d) (replicate k (Some new_chunk))) \<and>
    (\<forall>c < k. chunk_present (fold g (zip [0..<length d] d) (replicate k (Some new_chunk))) c) \<and>
    (\<forall>n. chunk_entry (fold g (zip [0..<length d] d) (replicate k (Some new_chunk))) n =
      (if n < length d then d ! n else []))"
  using assms(1)
proof (induction d rule: rev_induct)
  case Nil
  have "chunk_entry (replicate k (Some new_chunk)) n = []" for n
    by (simp add: chunk_entry_def Let_def)
  then show ?case by (auto simp: chunks_wf_def chunk_present_def)
next
  case (snoc x d)
  let ?cs = "fold g (zip [0..<length d] d) (replicate k (Some new_chunk))"
  have IH: "chunks_wf ?cs" "\<forall>c < k. chunk_present ?cs c"
    "\<And>n. chunk_entry ?cs n = (if n < length d then d ! n else [])" using snoc by auto
  have f: "fold g (zip [0..<length (d @ [x])] (d @ [x])) (replicate k (Some new_chunk)) =
      on_entry (length d) (\<lambda>_. x) ?cs"
    unfolding zip_upt_snoc by (simp add: g_def on_entry_def)
  have "length d div CHUNK_SIZE < k" using snoc.prems by (simp add: div_less_iff_less_mult)
  then obtain b where b: "length d div CHUNK_SIZE < length ?cs" "?cs ! (length d div CHUNK_SIZE) = Some b"
    using IH(2) by (auto simp: chunk_present_def)
  have "chunk_present (on_entry (length d) (\<lambda>_. x) ?cs) c = chunk_present ?cs c" for c
    by (auto simp: chunk_present_def on_entry_def nth_update_if)
  then show ?case
    using IH chunk_entry_on_entry [OF IH(1) b, of "\<lambda>_. x"] unfolding f by (auto simp: nth_append)
qed

lemma prepareLegacy_entry:
  assumes "ii_dictionary s \<noteq> []"
  shows "chunks_wf (ii_chunks (prepareLegacyMutableState s))"
    and "chunk_entry (ii_chunks (prepareLegacyMutableState s)) n =
      (if n < length (ii_dictionary s) then ii_dictionary s ! n else [])"
proof -
  let ?d = "ii_dictionary s"
  have "length ?d \<le> ((length ?d + CHUNK_SIZE - 1) div CHUNK_SIZE) * CHUNK_SIZE"
    by (simp add: CHUNK_SIZE_def)
  from fold_put_replicate [OF this] assms
  show "chunks_wf (ii_chunks (prepareLegacyMutableState s))"
    and "chunk_entry (ii_chunks (prepareLegacyMutableState s)) n = (if n < length ?d then ?d ! n else [])"
    by (simp_all add: prepareLegacyMutableState_def Let_def)
qed

text \<open>The invariant of the flat representation.\<close>

definition flat_invar :: "inverted_index \<Rightarrow> bool" where
  "flat_invar s \<longleftrightarrow> wid_invar (ii_wordIds s) \<and> ii_dictionary s \<noteq> [] \<and>
     length (ii_dictionary s) = wid_size (ii_wordIds s) \<and> (\<forall>p \<in> set (ii_dictionary s). pl_invar p) \<and>
     um_ok (ii_wordRefs s) \<and>
     (\<forall>n < length (ii_dictionary s). \<forall>f. pl_map (ii_dictionary s ! n) f \<noteq> None \<longrightarrow>
        of_nat n \<in> set (refs_of (ii_wordRefs s) f))"

lemma getWordCount_flat:
  "ii_dictionary s \<noteq> [] \<Longrightarrow> getWordCount s w = (case wid_tryGet (ii_wordIds s) w of None \<Rightarrow> []
     | Some i \<Rightarrow> if unat i < length (ii_dictionary s) then ii_dictionary s ! unat i else [])"
  by (auto simp: getWordCount_def getPostingCopyByWord_def Let_def split: option.splits)

text \<open>What both representations say of a word: its posting list, by number.\<close>

definition word_list :: "inverted_index \<Rightarrow> nat \<Rightarrow> posting_list" where
  "word_list s n = (if ii_dictionary s = [] then chunk_entry (ii_chunks s) n
     else if n < length (ii_dictionary s) then ii_dictionary s ! n else [])"

lemma getWordCount_word_list:
  "getWordCount s w = (case wid_tryGet (ii_wordIds s) w of None \<Rightarrow> [] | Some i \<Rightarrow> word_list s (unat i))"
  by (cases "ii_dictionary s = []")
    (simp_all add: word_list_def getWordCount_chunks getWordCount_flat split: option.split)

definition index_ok :: "inverted_index \<Rightarrow> bool" where
  "index_ok s \<longleftrightarrow> ii_invar s \<or> flat_invar s"

lemma index_okD:
  assumes "index_ok s"
  shows "wid_invar (ii_wordIds s)" and "um_ok (ii_wordRefs s)" and "pl_invar (word_list s n)"
    and "wid_size (ii_wordIds s) \<le> n \<Longrightarrow> word_list s n = []"
    and "pl_map (word_list s n) f \<noteq> None \<Longrightarrow> of_nat n \<in> set (refs_of (ii_wordRefs s) f)"
proof -
  show "wid_invar (ii_wordIds s)" "um_ok (ii_wordRefs s)"
    using assms by (auto simp: index_ok_def ii_invar_def ii_base_def flat_invar_def)
  show "pl_invar (word_list s n)"
    using assms by (auto simp: index_ok_def ii_invar_def ii_base_def flat_invar_def word_list_def)
  show "wid_size (ii_wordIds s) \<le> n \<Longrightarrow> word_list s n = []"
    using assms by (auto simp: index_ok_def ii_invar_def ii_base_def flat_invar_def word_list_def)
  show "pl_map (word_list s n) f \<noteq> None \<Longrightarrow> of_nat n \<in> set (refs_of (ii_wordRefs s) f)"
  proof -
    assume a: "pl_map (word_list s n) f \<noteq> None"
    from assms consider "ii_invar s" | "flat_invar s" by (auto simp: index_ok_def)
    then show "of_nat n \<in> set (refs_of (ii_wordRefs s) f)"
    proof cases
      case 1
      with a show ?thesis by (simp add: ii_invar_def ii_base_def refs_complete_def word_list_def)
    next
      case 2
      then have "n < length (ii_dictionary s)" using a by (auto simp: word_list_def flat_invar_def split: if_splits)
      with 2 a show ?thesis by (simp add: flat_invar_def word_list_def)
    qed
  qed
qed

text \<open>A state in chunk form whose lists and numbering satisfy the flat conditions is consistent.\<close>

lemma ii_invarI:
  assumes "wid_invar (ii_wordIds s)" and "ii_dictionary s = []" and "chunks_wf (ii_chunks s)"
    and "um_ok (ii_wordRefs s)" and "\<And>n. pl_invar (chunk_entry (ii_chunks s) n)"
    and "\<And>n. wid_size (ii_wordIds s) \<le> n \<Longrightarrow> chunk_entry (ii_chunks s) n = []"
    and "\<And>n f. pl_map (chunk_entry (ii_chunks s) n) f \<noteq> None \<Longrightarrow> of_nat n \<in> set (refs_of (ii_wordRefs s) f)"
  shows "ii_invar s"
  using assms by (simp add: ii_invar_def ii_base_def refs_complete_def)

lemma prepareLegacy_fields:
  "ii_wordIds (prepareLegacyMutableState s) = ii_wordIds s"
  "ii_wordRefs (prepareLegacyMutableState s) = ii_wordRefs s"
  "ii_dictionary (prepareLegacyMutableState s) = []"
  by (simp_all add: prepareLegacyMutableState_def Let_def)

lemma prepareLegacy_word_list:
  "word_list (prepareLegacyMutableState s) n = word_list s n"
proof (cases "ii_dictionary s = []")
  case True
  then show ?thesis by (simp add: prepareLegacyMutableState_def)
next
  case False
  with prepareLegacy_entry [OF False] show ?thesis by (simp add: word_list_def prepareLegacy_fields)
qed

lemma prepareLegacy_invar:
  assumes "index_ok s"
  shows "ii_invar (prepareLegacyMutableState s)"
proof (cases "ii_dictionary s = []")
  case True
  with assms show ?thesis by (auto simp: prepareLegacyMutableState_def index_ok_def flat_invar_def)
next
  case False
  note d = index_okD [OF assms]
  have e: "chunk_entry (ii_chunks (prepareLegacyMutableState s)) n = word_list s n" for n
    using prepareLegacy_entry [OF False] False by (simp add: word_list_def)
  show ?thesis
    by (rule ii_invarI) (use d prepareLegacy_entry [OF False] in \<open>simp_all add: e prepareLegacy_fields\<close>)
qed

section \<open>Compaction\<close>

definition new_ids :: "compact_state \<Rightarrow> word_ids" where
  "new_ids c = \<lparr>word2id = cs_word2id c, id2word = cs_id2word c\<rparr>"

text \<open>After the first words of the dictionary \<open>d\<close> were visited.\<close>

definition compact_inv :: "word_ids \<Rightarrow> posting_list list \<Rightarrow> compact_state \<Rightarrow> bool" where
  "compact_inv m d c \<longleftrightarrow>
     wid_invar (new_ids c) \<and> length (cs_newDict c) = wid_size (new_ids c) \<and>
     wid_size (new_ids c) \<le> length d \<and> um_ok (cs_remap c) \<and>
     (\<forall>w j. wid_tryGet (new_ids c) w = Some j \<longleftrightarrow>
        (\<exists>i. wid_tryGet m w = Some i \<and> um_find (cs_remap c) i = Some j)) \<and>
     (\<forall>i j. um_find (cs_remap c) i = Some j \<longrightarrow> unat i < length d \<and> d ! unat i \<noteq> [] \<and>
        unat j < length (cs_newDict c) \<and> cs_newDict c ! unat j = d ! unat i) \<and>
     (\<forall>i. unat i < length d \<and> d ! unat i \<noteq> [] \<longrightarrow> um_find (cs_remap c) i \<noteq> None)"

lemma compact_invD:
  assumes "compact_inv m d c"
  shows "wid_invar (new_ids c)" and "length (cs_newDict c) = wid_size (new_ids c)"
    and "wid_size (new_ids c) \<le> length d" and "um_ok (cs_remap c)"
    and "wid_tryGet (new_ids c) w = Some j \<longleftrightarrow>
      (\<exists>i. wid_tryGet m w = Some i \<and> um_find (cs_remap c) i = Some j)"
    and "um_find (cs_remap c) i = Some j \<Longrightarrow> unat i < length d \<and> d ! unat i \<noteq> [] \<and>
      unat j < length (cs_newDict c) \<and> cs_newDict c ! unat j = d ! unat i"
    and "unat i < length d \<and> d ! unat i \<noteq> [] \<Longrightarrow> um_find (cs_remap c) i \<noteq> None"
  using assms unfolding compact_inv_def by blast+

lemma compact_invI:
  assumes "wid_invar (new_ids c)" and "length (cs_newDict c) = wid_size (new_ids c)"
    and "wid_size (new_ids c) \<le> length d" and "um_ok (cs_remap c)"
    and "\<And>w j. wid_tryGet (new_ids c) w = Some j \<longleftrightarrow>
      (\<exists>i. wid_tryGet m w = Some i \<and> um_find (cs_remap c) i = Some j)"
    and "\<And>i j. um_find (cs_remap c) i = Some j \<Longrightarrow> unat i < length d \<and> d ! unat i \<noteq> [] \<and>
      unat j < length (cs_newDict c) \<and> cs_newDict c ! unat j = d ! unat i"
    and "\<And>i. unat i < length d \<and> d ! unat i \<noteq> [] \<Longrightarrow> um_find (cs_remap c) i \<noteq> None"
  shows "compact_inv m d c"
  using assms unfolding compact_inv_def by blast

lemma compact_inv_skip:
  assumes "compact_inv m d c"
  shows "compact_inv m (d @ [[]]) c"
proof (rule compact_invI)
  fix i j assume "um_find (cs_remap c) i = Some j"
  from compact_invD(6) [OF assms this]
  show "unat i < length (d @ [[]]) \<and> (d @ [[]]) ! unat i \<noteq> [] \<and>
      unat j < length (cs_newDict c) \<and> cs_newDict c ! unat j = (d @ [[]]) ! unat i"
    by (simp add: nth_append)
next
  fix i :: u32 assume "unat i < length (d @ [[]]) \<and> (d @ [[]]) ! unat i \<noteq> []"
  then show "um_find (cs_remap c) i \<noteq> None"
    by (intro compact_invD(7) [OF assms]) (auto simp: nth_append split: if_splits)
qed (use compact_invD [OF assms] in auto)

lemma compact_inv_step:
  assumes inv: "compact_inv m d c" and m: "wid_invar m" and len: "length d < wid_size m" and x: "x \<noteq> []"
  shows "compact_inv m (d @ [x]) (compact_word m (length d, x) c)"
proof -
  let ?k = "of_nat (length d) :: u32" and ?j = "of_nat (length (cs_newDict c)) :: u32"
  let ?w = "wid_byId m ?k" and ?c = "compact_word m (length d, x) c"
  obtain w0 where w0: "wid_tryGet m w0 = Some ?k" and k: "unat ?k = length d" using wid_cases [OF m len] .
  then have w: "wid_tryGet m ?w = Some ?k" using wid.by_id_try_get [OF m, of ?k] len by simp
  note I = compact_invD(1-4) [OF inv] and words = compact_invD(5) [OF inv]
    and rng = compact_invD(6) [OF inv] and tot = compact_invD(7) [OF inv]
  have kfresh: "um_find (cs_remap c) ?k = None" using rng [of ?k] k by fastforce
  have new: "wid_tryGet (new_ids c) ?w = None"
    using words [of ?w] w kfresh by (cases "wid_tryGet (new_ids c) ?w") auto
  have sz: "wid_size (new_ids c) < 2 ^ 32" using I(3) len wid_size_bound [OF m] by linarith
  have c: "cs_newDict ?c = cs_newDict c @ [x]" "cs_remap ?c = um_put ?k ?j (cs_remap c)"
    "new_ids ?c = \<lparr>word2id = um_put ?w ?j (cs_word2id c), id2word = cs_id2word c @ [?w]\<rparr>"
    using x len by (simp_all add: compact_word_def new_ids_def Let_def)
  have "wid_getId (new_ids c) ?w = (new_ids ?c, ?j)"
    unfolding c(3) using new I(2) by (simp add: wid_getId_def wid_tryGet_def new_ids_def wid_size_def Let_def)
  note g = wid.get_id_new [OF I(1) new sz this]
  have j: "unat ?j = length (cs_newDict c)" using g I(2) by simp
  have tryg: "wid_tryGet (new_ids ?c) v = (if v = ?w then Some ?j else wid_tryGet (new_ids c) v)" for v
    using g by blast
  have "wid_tryGet (new_ids ?c) v = Some j \<longleftrightarrow>
      (\<exists>i. wid_tryGet m v = Some i \<and> um_find (cs_remap ?c) i = Some j)" for v j
  proof (cases "v = ?w")
    case True
    with w tryg show ?thesis by (auto simp: c um_find_put)
  next
    case False
    have "wid_tryGet m v \<noteq> Some ?k" using wid.try_get_inj [OF m w] False by blast
    with False words [of v j] tryg show ?thesis by (auto simp: c um_find_put)
  qed
  moreover have "unat i < length (d @ [x]) \<and> (d @ [x]) ! unat i \<noteq> [] \<and>
      unat j < length (cs_newDict ?c) \<and> cs_newDict ?c ! unat j = (d @ [x]) ! unat i"
    if a: "um_find (cs_remap ?c) i = Some j" for i j
  proof (cases "i = ?k")
    case True
    with a k j x show ?thesis by (simp add: c um_find_put)
  next
    case False
    with a rng [of i j] show ?thesis by (simp add: c um_find_put nth_append)
  qed
  moreover have "um_find (cs_remap ?c) i \<noteq> None"
    if a: "unat i < length (d @ [x]) \<and> (d @ [x]) ! unat i \<noteq> []" for i
  proof (cases "i = ?k")
    case False
    then have "unat i \<noteq> length d" using k by (metis word_unat_eq_iff)
    with a have "unat i < length d \<and> d ! unat i \<noteq> []" by (simp add: nth_append split: if_splits)
    with tot [of i] False show ?thesis by (simp add: c um_find_put)
  qed (simp add: c um_find_put)
  ultimately show ?thesis using g I by (intro compact_invI) (simp_all add: c(1,2))
qed

lemma compact_inv_fold:
  assumes "wid_invar m" and "length d \<le> wid_size m"
  shows "compact_inv m d (fold (compact_word m) (zip [0..<length d] d)
    \<lparr>cs_newDict = [], cs_remap = [], cs_word2id = [], cs_id2word = []\<rparr>)"
  using assms(2)
proof (induction d rule: rev_induct)
  case Nil
  have "wid_invar (new_ids \<lparr>cs_newDict = [], cs_remap = [], cs_word2id = [], cs_id2word = []\<rparr>)"
    using wid_invar_empty by (simp add: new_ids_def wid_empty_def)
  then show ?case by (simp add: compact_inv_def new_ids_def wid_size_def wid_tryGet_def)
next
  case (snoc x d)
  let ?c = "fold (compact_word m) (zip [0..<length d] d)
    \<lparr>cs_newDict = [], cs_remap = [], cs_word2id = [], cs_id2word = []\<rparr>"
  have IH: "compact_inv m d ?c" using snoc by simp
  show ?case
  proof (cases "x = []")
    case True
    then have "compact_word m (length d, x) ?c = ?c" by (simp add: compact_word_def)
    with True compact_inv_skip [OF IH] show ?thesis unfolding zip_upt_snoc by simp
  next
    case False
    with compact_inv_step [OF IH assms(1) _ False] snoc.prems show ?thesis unfolding zip_upt_snoc by simp
  qed
qed

lemma refs_of_map: "g [] = [] \<Longrightarrow> refs_of (map (\<lambda>(f, v). (f, g v)) refs) f = g (refs_of refs f)"
  by (induction refs) (auto simp: refs_of_def um_find_def)

lemma um_ok_map_values: "um_ok (map (\<lambda>(f, v). (f, g v)) m) = um_ok m"
  by (simp add: um_ok_def split_def comp_def)

lemma remap_refs_ok: "um_ok refs \<Longrightarrow> um_ok (remap_refs remap refs)"
  unfolding remap_refs_def Let_def by (simp add: um_ok_map_values del: map_map)

lemma remap_refs_mem:
  assumes "i \<in> set (refs_of refs f)" and "um_find remap i = Some j" and "j \<noteq> INVALID_WID"
  shows "j \<in> set (refs_of (remap_refs remap refs) f)"
proof -
  let ?step = "\<lambda>wid. case um_find remap wid of Some n \<Rightarrow> n | None \<Rightarrow> INVALID_WID"
  have "?step i = j" using assms(2) by simp
  then have "j \<in> ?step ` set (refs_of refs f)" using assms(1) by (metis image_eqI)
  then have 1: "j \<in> set (refs_of (map (\<lambda>(f, v). (f, map ?step v)) refs) f)"
    by (simp add: refs_of_map [of "map ?step"])
  then have "j \<in> set (refs_of (map (\<lambda>(f, v). (f, filter (\<lambda>w. w \<noteq> INVALID_WID) v))
      (map (\<lambda>(f, v). (f, map ?step v)) refs)) f)"
    using assms(3) by (subst refs_of_map) simp_all
  with 1 show ?thesis unfolding remap_refs_def Let_def by (simp del: map_map)
qed

lemma compact_run_correct:
  assumes m: "wid_invar (ii_wordIds s)" and sz: "wid_size (ii_wordIds s) < 2 ^ 32"
    and len: "length (ii_dictionary s) = wid_size (ii_wordIds s)" and refs: "um_ok (ii_wordRefs s)"
    and lists: "\<And>p. p \<in> set (ii_dictionary s) \<Longrightarrow> pl_invar p"
    and complete: "\<And>n f. n < length (ii_dictionary s) \<Longrightarrow> pl_map (ii_dictionary s ! n) f \<noteq> None \<Longrightarrow>
      of_nat n \<in> set (refs_of (ii_wordRefs s) f)"
  shows "ii_invar (compact_run s)"
    and "getWordCount (compact_run s) w = (case wid_tryGet (ii_wordIds s) w of None \<Rightarrow> []
      | Some i \<Rightarrow> ii_dictionary s ! unat i)"
    and "wid_tryGet (ii_wordIds (compact_run s)) w \<noteq> None \<longleftrightarrow> getWordCount (compact_run s) w \<noteq> []"
proof -
  let ?d = "ii_dictionary s"
  let ?c = "fold (compact_word (ii_wordIds s)) (zip [0..<length ?d] ?d)
    \<lparr>cs_newDict = [], cs_remap = [], cs_word2id = [], cs_id2word = []\<rparr>"
  have inv: "compact_inv (ii_wordIds s) ?d ?c" by (rule compact_inv_fold [OF m]) (simp add: len)
  note I = compact_invD [OF inv]
  let ?s = "s\<lparr>ii_dictionary := cs_newDict ?c,
    ii_wordIds := wid_rebuild (cs_word2id ?c) (cs_id2word ?c) (ii_wordIds s),
    ii_wordRefs := remap_refs (cs_remap ?c) (ii_wordRefs s)\<rparr>"
  have run: "compact_run s = rebuildChunksFromDictionary ?s" by (simp add: compact_run_def Let_def)
  have ids: "ii_wordIds (compact_run s) = new_ids ?c"
    by (simp add: run rebuildChunksFromDictionary_def wid_rebuild_def new_ids_def)
  have rf: "ii_wordRefs (compact_run s) = remap_refs (cs_remap ?c) (ii_wordRefs s)"
    and dict: "ii_dictionary (compact_run s) = []"
    by (simp_all add: run rebuildChunksFromDictionary_def)
  have entry: "chunk_entry (ii_chunks (compact_run s)) n =
      (if n < length (cs_newDict ?c) then cs_newDict ?c ! n else [])" for n
    using rebuildChunks_entry(2) [of ?s] by (simp add: run)
  have wf: "chunks_wf (ii_chunks (compact_run s))" unfolding run by (rule rebuildChunks_entry)
  text \<open>Every new number comes from an old one with a non-empty list.\<close>
  have orig: "\<exists>i. um_find (cs_remap ?c) i = Some (of_nat n) \<and> unat (of_nat n :: u32) = n \<and>
      unat i < length ?d \<and> ?d ! unat i \<noteq> [] \<and> cs_newDict ?c ! n = ?d ! unat i"
    if n: "n < length (cs_newDict ?c)" for n
  proof -
    from n have "n < wid_size (new_ids ?c)" using I(2) by simp
    from wid_cases [OF I(1) this] obtain v where v: "wid_tryGet (new_ids ?c) v = Some (of_nat n)"
      "unat (of_nat n :: u32) = n" .
    then obtain i where "um_find (cs_remap ?c) i = Some (of_nat n)" using I(5) by blast
    with I(6) [OF this] v(2) show ?thesis by auto
  qed
  show "ii_invar (compact_run s)"
  proof (rule ii_invarI)
    fix n f assume a: "pl_map (chunk_entry (ii_chunks (compact_run s)) n) f \<noteq> None"
    then have n: "n < length (cs_newDict ?c)" by (auto simp: entry split: if_splits)
    then obtain i where i: "um_find (cs_remap ?c) i = Some (of_nat n)" "unat i < length ?d"
        "cs_newDict ?c ! n = ?d ! unat i" "unat (of_nat n :: u32) = n" using orig by blast
    with complete [of "unat i" f] a n have "i \<in> set (refs_of (ii_wordRefs s) f)" by (simp add: entry)
    moreover have "of_nat n \<noteq> INVALID_WID"
    proof
      assume "of_nat n = INVALID_WID"
      with i(4) have "n = 2 ^ 32 - 1" by (simp add: INVALID_WID_def unsigned_minus_1_eq_mask mask_eq_exp_minus_1)
      with n I(2,3) len sz show False by simp
    qed
    ultimately show "of_nat n \<in> set (refs_of (ii_wordRefs (compact_run s)) f)"
      using remap_refs_mem i(1) by (simp add: rf)
  next
    fix n show "pl_invar (chunk_entry (ii_chunks (compact_run s)) n)"
      using orig [of n] lists by (auto simp: entry)
  qed (use I dict wf remap_refs_ok [OF refs] in \<open>simp_all add: ids rf entry\<close>)
  show G: "getWordCount (compact_run s) w = (case wid_tryGet (ii_wordIds s) w of None \<Rightarrow> []
      | Some i \<Rightarrow> ?d ! unat i)"
  proof (cases "wid_tryGet (new_ids ?c) w")
    case None
    have "?d ! unat i = []" if "wid_tryGet (ii_wordIds s) w = Some i" for i
    proof (rule ccontr)
      assume "?d ! unat i \<noteq> []"
      moreover have "unat i < length ?d" using wid.try_get_bound [OF m that] len by simp
      ultimately obtain j where "um_find (cs_remap ?c) i = Some j" using I(7) [of i] by auto
      with that I(5) [of w j] None show False by simp
    qed
    with None show ?thesis by (auto simp: getWordCount_chunks [OF dict] ids split: option.splits)
  next
    case (Some j)
    then obtain i where "wid_tryGet (ii_wordIds s) w = Some i" "um_find (cs_remap ?c) i = Some j"
      using I(5) by blast
    with Some I(6) show ?thesis by (simp add: getWordCount_chunks [OF dict] ids entry)
  qed
  show "wid_tryGet (ii_wordIds (compact_run s)) w \<noteq> None \<longleftrightarrow> getWordCount (compact_run s) w \<noteq> []"
  proof (cases "wid_tryGet (new_ids ?c) w")
    case (Some j)
    then obtain i where "um_find (cs_remap ?c) i = Some j" using I(5) by blast
    with Some I(6) show ?thesis by (simp add: getWordCount_chunks [OF dict] ids entry)
  qed (simp add: getWordCount_chunks [OF dict] ids)
qed

lemma compact_keeps:
  assumes ok: "index_ok s" and sz: "wid_size (ii_wordIds s) < 2 ^ 32"
  shows "index_ok (compact below s)" and "getWordCount (compact below s) w = getWordCount s w"
proof -
  let ?s = "if ii_dictionary s = [] then rebuildDictionaryFromChunksLocked s else s"
  note d = index_okD [OF ok]
  have len: "length (ii_dictionary ?s) = wid_size (ii_wordIds s)"
    using ok by (auto simp: rebuildDictionaryFromChunksLocked_def index_ok_def flat_invar_def ii_invar_def ii_base_def)
  have nth: "n < wid_size (ii_wordIds s) \<Longrightarrow> ii_dictionary ?s ! n = word_list s n" for n
    using len by (auto simp: rebuildDictionaryFromChunksLocked_def word_list_def)
  have f: "ii_wordIds ?s = ii_wordIds s" "ii_wordRefs ?s = ii_wordRefs s"
    by (simp_all add: rebuildDictionaryFromChunksLocked_def)
  have m: "wid_invar (ii_wordIds ?s)" and sz': "wid_size (ii_wordIds ?s) < 2 ^ 32"
    and l: "length (ii_dictionary ?s) = wid_size (ii_wordIds ?s)" and r: "um_ok (ii_wordRefs ?s)"
    unfolding f using d sz len by simp_all
  have pl: "pl_invar p" if "p \<in> set (ii_dictionary ?s)" for p
    using that len nth d(3) by (metis in_set_conv_nth)
  have rc: "of_nat n \<in> set (refs_of (ii_wordRefs ?s) g)"
    if "n < length (ii_dictionary ?s)" "pl_map (ii_dictionary ?s ! n) g \<noteq> None" for n g
    using d(5) [of n g] nth [of n] len that unfolding f by simp
  note run = compact_run_correct [OF m sz' l r pl rc]
  have "ii_invar (compact_run ?s)" by (rule run)
  moreover have g: "getWordCount (compact_run ?s) w = (case wid_tryGet (ii_wordIds s) w of None \<Rightarrow> []
      | Some i \<Rightarrow> ii_dictionary ?s ! unat i)" unfolding f(1) [symmetric] by (rule run)
  moreover have "getWordCount (compact_run ?s) w = getWordCount s w"
    unfolding g getWordCount_word_list [of s w] using nth wid.try_get_bound [OF d(1), of w]
    by (cases "wid_tryGet (ii_wordIds s) w") simp_all
  ultimately show "index_ok (compact below s)" and "getWordCount (compact below s) w = getWordCount s w"
    using ok by (auto simp: compact_def Let_def index_ok_def)
qed

section \<open>References rebuilt from the chunks\<close>

lemma add_refs_set:
  "set (refs_of (add_refs wid p m) g) = set (refs_of m g) \<union> (if g \<in> p_fileId ` set p then {wid} else {})"
  unfolding add_refs_def
  by (induction p arbitrary: m) (auto simp: refs_of_def um_find_put split: if_splits)

lemma add_refs_ok: "um_ok m \<Longrightarrow> um_ok (add_refs wid p m)"
  unfolding add_refs_def by (induction p arbitrary: m) auto

lemma fold_refs_set:
  assumes "\<And>x m. set (refs_of (step x m) g) = set (refs_of m g) \<union> A x"
  shows "set (refs_of (fold step xs m) g) = set (refs_of m g) \<union> (\<Union>x \<in> set xs. A x)"
  using assms by (induction xs arbitrary: m) auto

lemma fold_refs_ok:
  assumes "\<And>x m. um_ok m \<Longrightarrow> um_ok (step x m)" and "um_ok m"
  shows "um_ok (fold step xs m)"
  using assms by (induction xs arbitrary: m) auto

lemma chunk_refs_set:
  "set (refs_of (chunk_refs e m) g) = set (refs_of m g) \<union>
     {of_nat (fst e * CHUNK_SIZE + l) | l b. snd e = Some b \<and> l < length b \<and> g \<in> p_fileId ` set (b ! l)}"
proof (cases "snd e")
  case None
  then show ?thesis by (simp add: chunk_refs_def)
next
  case (Some b)
  let ?A = "\<lambda>x :: nat \<times> posting_list. if g \<in> p_fileId ` set (snd x)
    then {of_nat (fst e * CHUNK_SIZE + fst x) :: u32} else {}"
  have "set (refs_of (chunk_refs e m) g) = set (refs_of m g) \<union> (\<Union>x \<in> set (zip [0..<length b] b). ?A x)"
    unfolding chunk_refs_def Some option.case
    by (rule fold_refs_set) (auto simp: add_refs_set split: if_splits)
  also have "(\<Union>x \<in> set (zip [0..<length b] b). ?A x) =
      {of_nat (fst e * CHUNK_SIZE + l) | l. l < length b \<and> g \<in> p_fileId ` set (b ! l)}"
    by (force simp: set_zip split: if_splits)
  finally show ?thesis using Some by simp
qed

lemma chunk_refs_ok: "um_ok m \<Longrightarrow> um_ok (chunk_refs e m)"
  unfolding chunk_refs_def by (auto intro!: fold_refs_ok add_refs_ok split: option.split prod.split)

lemma reconstruct_refs:
  assumes "chunks_wf (ii_chunks s)"
  shows "set (refs_of (ii_wordRefs (reconstructWordIts s)) f) =
      {of_nat n | n. pl_map (chunk_entry (ii_chunks s) n) f \<noteq> None}"
    and "um_ok (ii_wordRefs (reconstructWordIts s))"
proof -
  let ?cs = "ii_chunks s"
  have "set (refs_of (ii_wordRefs (reconstructWordIts s)) f) =
      (\<Union>e \<in> set (zip [0..<length ?cs] ?cs).
        {of_nat (fst e * CHUNK_SIZE + l) | l b. snd e = Some b \<and> l < length b \<and> f \<in> p_fileId ` set (b ! l)})"
    unfolding reconstructWordIts_def by (simp add: fold_refs_set [OF chunk_refs_set]) (simp add: refs_of_def)
  also have "\<dots> = {of_nat n | n. pl_map (chunk_entry ?cs n) f \<noteq> None}"
  proof (intro equalityI subsetI)
    fix i :: u32
    assume "i \<in> (\<Union>e \<in> set (zip [0..<length ?cs] ?cs).
        {of_nat (fst e * CHUNK_SIZE + l) | l b. snd e = Some b \<and> l < length b \<and> f \<in> p_fileId ` set (b ! l)})"
    then obtain c l b where c: "i = of_nat (c * CHUNK_SIZE + l)" "c < length ?cs" "?cs ! c = Some b"
        "l < length b" "f \<in> p_fileId ` set (b ! l)" by (auto simp: set_zip)
    have "length b = CHUNK_SIZE" using chunks_wf_nth [OF assms c(2,3)] .
    with c(4) have "(c * CHUNK_SIZE + l) div CHUNK_SIZE = c" "(c * CHUNK_SIZE + l) mod CHUNK_SIZE = l"
      by simp_all
    with c have "chunk_entry ?cs (c * CHUNK_SIZE + l) = b ! l" by (simp add: chunk_entry_def)
    with c(5) have "pl_map (chunk_entry ?cs (c * CHUNK_SIZE + l)) f \<noteq> None" by (simp add: pl_map_None)
    with c(1) show "i \<in> {of_nat n | n. pl_map (chunk_entry ?cs n) f \<noteq> None}" by blast
  next
    fix i :: u32 assume "i \<in> {of_nat n | n. pl_map (chunk_entry ?cs n) f \<noteq> None}"
    then obtain n where n: "i = of_nat n" "pl_map (chunk_entry ?cs n) f \<noteq> None" by blast
    then have mem: "f \<in> p_fileId ` set (chunk_entry ?cs n)" by (simp add: pl_map_None)
    let ?c = "n div CHUNK_SIZE" and ?l = "n mod CHUNK_SIZE"
    have "chunk_present ?cs ?c" using mem chunk_entry_missing [of ?cs n] by (force simp: chunk_present_def)
    then obtain b where b: "?c < length ?cs" "?cs ! ?c = Some b" by (auto simp: chunk_present_def)
    with mem have "f \<in> p_fileId ` set (b ! ?l)" by (simp add: chunk_entry_def Let_def)
    moreover have "?l < length b" using chunks_wf_nth [OF assms b] by simp
    moreover have "(?c, Some b) \<in> set (zip [0..<length ?cs] ?cs)"
      using b by (force simp: set_zip)
    moreover have "i = of_nat (?c * CHUNK_SIZE + ?l)" using n(1) by (simp add: div_mult_mod_eq)
    ultimately show "i \<in> (\<Union>e \<in> set (zip [0..<length ?cs] ?cs).
        {of_nat (fst e * CHUNK_SIZE + l) | l b. snd e = Some b \<and> l < length b \<and> f \<in> p_fileId ` set (b ! l)})"
      by (intro UN_I [of "(?c, Some b)"] CollectI exI [of _ ?l] exI [of _ b]) simp_all
  qed
  finally show "set (refs_of (ii_wordRefs (reconstructWordIts s)) f) =
      {of_nat n | n. pl_map (chunk_entry ?cs n) f \<noteq> None}" .
  show "um_ok (ii_wordRefs (reconstructWordIts s))"
    by (simp add: reconstructWordIts_def fold_refs_ok chunk_refs_ok)
qed

section \<open>Counters in memory and in the mirror\<close>

lemma unat_mirror_count: "unat (mirror_count n) = min (unat n) 65535"
proof -
  have "unat n mod 65536 = unat n" if "\<not> n > 0xFFFF"
    using that by (simp add: word_less_nat_alt)
  then show ?thesis
    by (auto simp: mirror_count_def unat_ucast_u16 word_less_nat_alt min_def)
qed

lemma mirror_agrees:
  "cnt_plus_opt None n = mirror_count n \<longleftrightarrow> unat n \<le> 65535 \<or> unat n mod 65536 = 65535"
proof -
  have "unat (cnt_plus_opt None n) = unat n mod 65536" by (simp add: cnt_plus_opt_def unat_cnt_plus)
  moreover have "unat n mod 65536 = min (unat n) 65535 \<longleftrightarrow> unat n \<le> 65535 \<or> unat n mod 65536 = 65535"
    by (cases "unat n \<le> 65535") (auto simp: min_def)
  ultimately show ?thesis by (simp add: word_unat_eq_iff unat_mirror_count)
qed

section \<open>Properties\<close>

text \<open>C2: committing the batch of a file adds its counters modulo \<open>2^16\<close> to exactly the posting
  lists of its words and to no other word or file, and keeps the index consistent: sorted
  lists, mutually inverse numbering and complete back references.\<close>

theorem commit_batch_correct:
  assumes "ii_invar s" and "distinct (map fst (pb_list b))"
    and "wid_size (ii_wordIds s) + length (pb_list b) \<le> 2 ^ 32"
  shows "ii_invar (commit_batch b s) \<and>
    (\<forall>w g. count_of (commit_batch b s) w g = (case map_of (pb_list b) w of
        None \<Rightarrow> count_of s w g
      | Some c \<Rightarrow> if g = pb_fileId b then Some (cnt_plus_opt (count_of s w g) c) else count_of s w g))"
  using commit_batch_refs [OF assms] commit_batch_counts(2) [OF _ assms(2,3)] assms(1)
  unfolding ii_invar_def by blast

definition ex_batch :: posting_batch where
  "ex_batch = \<lparr>pb_fileId = 7, pb_list = [(''NORTH'', 2), (''SEA'', 5)]\<rparr>"

lemma ex_batch_ok: "distinct (map fst (pb_list ex_batch))"
    "wid_size (ii_wordIds ii_empty) + length (pb_list ex_batch) \<le> 2 ^ 32"
  by (simp_all add: ex_batch_def ii_empty_def wid_size_def wid_empty_def)

lemma count_of_empty: "count_of ii_empty w g = None"
  by (simp add: count_of_base [OF ii_invar_empty [unfolded ii_invar_def, THEN conjunct1]])
    (simp add: ii_empty_def wid_empty_def wid_tryGet_def)

lemma commit_batch_correct_witness:
  "ii_invar ii_empty \<and> count_of (commit_batch ex_batch ii_empty) ''SEA'' 7 = Some 5 \<and>
   count_of (commit_batch ex_batch ii_empty) ''NORTH'' 8 = None"
proof -
  have "cnt_plus_opt None 5 = 5" by (simp add: cnt_plus_opt_def cnt_plus_def)
  with commit_batch_correct [OF ii_invar_empty ex_batch_ok] show ?thesis
    by (simp add: ii_invar_empty count_of_empty ex_batch_def)
qed

text \<open>C24: re-indexing a changed file, its erasure followed by the commit of its new words,
  leaves for that file exactly the new counters (modulo \<open>2^16\<close>) and leaves every other file as
  it was, whatever the file contained before.\<close>

theorem reindex_replaces_file:
  assumes "ii_invar s" and "distinct (map fst (pb_list b))"
    and "wid_size (ii_wordIds s) + length (pb_list b) \<le> 2 ^ 32"
  shows "ii_invar (commit_batch b (safeEraseFileInternal (pb_fileId b) s)) \<and>
    (\<forall>w g. count_of (commit_batch b (safeEraseFileInternal (pb_fileId b) s)) w g =
      (if g = pb_fileId b then map_option (cnt_plus_opt None) (map_of (pb_list b) w) else count_of s w g))"
proof -
  let ?e = "safeEraseFileInternal (pb_fileId b) s"
  note e = erase_counts [OF assms(1), of "pb_fileId b"]
  have base: "ii_base ?e" using e(1) by (simp add: ii_invar_def)
  have cap: "wid_size (ii_wordIds ?e) + length (pb_list b) \<le> 2 ^ 32" using assms(3) by (simp add: erase_ids)
  show ?thesis
    using commit_batch_refs [OF e(1) assms(2) cap] commit_batch_counts(2) [OF base assms(2) cap]
    by (auto simp: e(2) split: option.splits)
qed

lemma reindex_replaces_file_witness:
  "ii_invar ii_empty \<and>
   count_of (commit_batch ex_batch (safeEraseFileInternal (pb_fileId ex_batch) ii_empty)) ''SEA'' 7 = Some 5"
proof -
  have "cnt_plus_opt None 5 = 5" by (simp add: cnt_plus_opt_def cnt_plus_def)
  with reindex_replaces_file [OF ii_invar_empty ex_batch_ok] show ?thesis
    by (simp add: ii_invar_empty ex_batch_def)
qed



text \<open>the references rebuilt after a load name, for every file, exactly the words whose
  posting list contains the file, so the loaded index is consistent.\<close>

theorem reconstructWordIts_exact:
  assumes "ii_base s"
  shows "ii_invar (reconstructWordIts s) \<and>
    set (refs_of (ii_wordRefs (reconstructWordIts s)) f) =
      {of_nat n | n. f \<in> p_fileId ` set (chunk_entry (ii_chunks s) n)} \<and>
    (\<forall>w. getPostingCopyByWord (reconstructWordIts s) w = getPostingCopyByWord s w)"
proof -
  have wf: "chunks_wf (ii_chunks s)" using assms by (simp add: ii_base_def)
  note r = reconstruct_refs [OF wf]
  have "ii_invar (reconstructWordIts s)"
    using assms r by (intro ii_invarI) (auto simp: ii_base_def reconstructWordIts_def)
  moreover have "getPostingCopyByWord (reconstructWordIts s) w = getPostingCopyByWord s w" for w
    by (simp add: getPostingCopyByWord_def Let_def reconstructWordIts_def split: option.split)
  ultimately show ?thesis using r(1) [of f] by (simp add: pl_map_None)
qed

lemma reconstructWordIts_exact_witness:
  "ii_base (commit_batch ex_batch ii_empty) \<and> ii_invar (reconstructWordIts (commit_batch ex_batch ii_empty))"
proof -
  have "ii_base (commit_batch ex_batch ii_empty)"
    using commit_batch_refs [OF ii_invar_empty ex_batch_ok] by (simp add: ii_invar_def)
  with reconstructWordIts_exact show ?thesis by blast
qed

text \<open>turning the flat form into chunks for a point update, and the chunks into the flat
  form for a snapshot and back, keep the posting list of every word; the chunked state is
  consistent.\<close>

theorem representations_agree:
  assumes "index_ok s"
  shows "ii_invar (prepareLegacyMutableState s) \<and>
    (\<forall>w. getPostingCopyByWord (prepareLegacyMutableState s) w = getPostingCopyByWord s w) \<and>
    (ii_dictionary s = [] \<longrightarrow>
      (\<forall>w. getPostingCopyByWord (rebuildDictionaryFromChunksLocked s) w = getPostingCopyByWord s w \<and>
        getPostingCopyByWord (rebuildChunksFromDictionary (rebuildDictionaryFromChunksLocked s)) w =
          getPostingCopyByWord s w))"
proof -
  note d = index_okD [OF assms]
  have 1: "getWordCount (prepareLegacyMutableState s) w = getWordCount s w" for w
    unfolding getWordCount_word_list by (simp add: prepareLegacy_fields prepareLegacy_word_list split: option.split)
  have 2: "getWordCount (rebuildDictionaryFromChunksLocked s) w = getWordCount s w \<and>
      getWordCount (rebuildChunksFromDictionary (rebuildDictionaryFromChunksLocked s)) w = getWordCount s w"
    if a: "ii_dictionary s = []" for w
  proof -
    let ?r = "rebuildDictionaryFromChunksLocked s"
    have r: "ii_wordIds ?r = ii_wordIds s" "ii_chunks ?r = ii_chunks s"
      "ii_dictionary ?r = map (chunk_entry (ii_chunks s)) [0..<wid_size (ii_wordIds s)]"
      by (simp_all add: rebuildDictionaryFromChunksLocked_def)
    have "word_list ?r n = word_list s n" for n
      using d(4) [of n] a by (auto simp: word_list_def r)
    moreover have "word_list (rebuildChunksFromDictionary ?r) n = word_list s n" for n
      using d(4) [of n] a rebuildChunks_entry(2) [of ?r n]
      by (auto simp: word_list_def r) (simp add: rebuildChunksFromDictionary_def)+
    moreover have "ii_wordIds (rebuildChunksFromDictionary ?r) = ii_wordIds s"
      by (simp add: rebuildChunksFromDictionary_def r)
    ultimately show ?thesis unfolding getWordCount_word_list by (simp add: r split: option.split)
  qed
  show ?thesis using prepareLegacy_invar [OF assms] 1 2 by (simp add: getPosting_WordCount)
qed

lemma representations_agree_witness:
  "index_ok (commit_batch ex_batch ii_empty) \<and>
   ii_invar (prepareLegacyMutableState (commit_batch ex_batch ii_empty))"
proof -
  have "index_ok (commit_batch ex_batch ii_empty)"
    using commit_batch_refs [OF ii_invar_empty ex_batch_ok] by (simp add: index_ok_def)
  with representations_agree show ?thesis by blast
qed

text \<open>the counter a new file gets in memory and the counter the SQLite mirror gets for it
  are computed differently, modulo \<open>2^16\<close> and cut off at \<open>65535\<close>: they agree exactly up to
  65535 occurrences or when the remainder happens to be 65535. A file with 65536 occurrences
  of a word is found with counter 0 in memory and 65535 after a restart.\<close>

theorem memory_and_mirror_counters:
  assumes "ii_invar s" and "distinct (map fst (pb_list b))"
    and "wid_size (ii_wordIds s) + length (pb_list b) \<le> 2 ^ 32"
    and "(w, n) \<in> set (pb_list b)" and "count_of s w (pb_fileId b) = None"
    and "processBatch b s = (s', cm, widCounts, newWords)"
  shows "\<exists>i c. wid_tryGet (ii_wordIds s') w = Some i \<and> (i, c) \<in> set widCounts \<and>
    unat c = min (unat n) 65535 \<and>
    (count_of (commit_batch b s) w (pb_fileId b) = Some c \<longleftrightarrow> unat n \<le> 65535 \<or> unat n mod 65536 = 65535)"
proof -
  let ?r = "fold (batch_word (pb_fileId b) (wid_size (ii_wordIds s))) (pb_list b)
    \<lparr>bs_wordIds = ii_wordIds s, bs_widMap = [], bs_newWords = [], bs_refs = ii_wordRefs s\<rparr>"
  have base: "ii_base s" using assms(1) by (simp add: ii_invar_def)
  have r: "batch_inv (ii_wordIds s) (ii_wordRefs s) (pb_fileId b) (pb_list b) ?r"
    using assms(2,3) base by (intro batch_inv_fold) (simp_all add: ii_base_def)
  have p: "ii_wordIds s' = bs_wordIds ?r" "widCounts = map (\<lambda>(wid, n). (wid, mirror_count n)) (bs_widMap ?r)"
    using assms(6) by (auto simp: processBatch_def Let_def)
  from r assms(4) obtain i where i: "wid_tryGet (bs_wordIds ?r) w = Some i"
    unfolding batch_inv_def by force
  with r assms(4) have "um_find (bs_widMap ?r) i = Some n" "um_ok (bs_widMap ?r)"
    unfolding batch_inv_def by blast+
  then have "(i, mirror_count n) \<in> set widCounts" by (force simp: um_find_Some_iff p)
  moreover have "count_of (commit_batch b s) w (pb_fileId b) = Some (cnt_plus_opt None n)"
    using commit_batch_counts(2) [OF base assms(2,3)] distinct_fst_unique [OF assms(2,4)] assms(5) by simp
  ultimately show ?thesis
    using i by (intro exI [of _ i] exI [of _ "mirror_count n"])
      (simp add: p unat_mirror_count mirror_agrees)
qed

lemma memory_and_mirror_counters_witness:
  "\<exists>c. unat (c :: u16) = 65535 \<and>
     count_of (commit_batch \<lparr>pb_fileId = 7, pb_list = [(''SEA'', 65536)]\<rparr> ii_empty) ''SEA'' 7 \<noteq> Some c"
proof -
  let ?b = "\<lparr>pb_fileId = 7, pb_list = [(''SEA'', 65536)]\<rparr> :: posting_batch"
  obtain s' cm wc nw where p: "processBatch ?b ii_empty = (s', cm, wc, nw)" by (metis prod_cases4)
  have sz: "wid_size (ii_wordIds ii_empty) = 0" by (simp add: ii_empty_def wid_empty_def wid_size_def)
  have un: "unat (65536 :: u32) = 65536" by simp
  from memory_and_mirror_counters [OF ii_invar_empty _ _ _ _ p, of "''SEA''" 65536]
  show ?thesis by (auto simp: count_of_empty sz un)
qed

end
