(* ===== verification/BatchIndex.thy ===== *)
theory BatchIndex
  imports BatchTermination InvertedIndex DocumentCatalog "HOL-Library.List_Lexorder" "HOL-Library.Char_ord"
begin

text \<open>
  The end of a full rebuild: \<open>BatchIndexBuilder::build\<close> after the threads have joined
  (\<open>src/src/Index/Batch/BatchIndexBuilder.cpp\<close>) merges the workers' dictionaries into one
  snapshot, and \<open>InvertedIndex::installBatchSnapshot\<close> (\<open>src/src/Index/InvertedIndex.cpp\<close>) puts
  it in place of the index, or restores the old one when it cannot be saved.

  The theorems: the installed index is consistent and counts, for every word and file, the
  occurrences in the file's contents up to 65535, whatever the number of threads and the
  interleaving; the exact relation to the index that updates file by file would build; the
  files that could not be read are exactly the reported ones; an installation that fails
  changes nothing. \<open>std::string\<close> compares bytes as unsigned characters, which is the order of
  \<open>Char_ord\<close> and \<open>List_Lexorder\<close>. \<open>std::sort\<close> leaves the order of equal elements open; the
  model takes the stable one, and the theorems show that the result does not depend on it.
\<close>

section \<open>The snapshot\<close>

record batch_snapshot =
  sn_documentMetadata :: "(ticks \<times> u64) list"
  sn_wordToId :: "(string, u32) umap"
  sn_idToWord :: "string list"
  sn_postings :: "posting_list list"
  sn_wordRefs :: "(u32, u32 list) umap"
  sn_fileErrors :: "(u32 \<times> wstring \<times> string) list"
  sn_indexedFiles :: nat
  sn_bytesRead :: u64

text \<open>Postings of one file become one, with a saturating sum.\<close>

definition saturating_count :: "posting list \<Rightarrow> u32" where
  "saturating_count ps = fold (\<lambda>p count. min 65535 (count + ucast (p_cnt p))) ps 0"

function squeeze :: "posting list \<Rightarrow> posting list" where
  "squeeze [] = []"
| "squeeze (p # ps) =
     (let run = takeWhile (\<lambda>q. p_fileId q = p_fileId p) ps
      in \<lparr>p_fileId = p_fileId p, p_cnt = ucast (saturating_count (p # run))\<rparr> # squeeze (drop (length run) ps))"
  by pat_completeness auto
termination
  by (relation "measure length") auto

definition add_term :: "string \<Rightarrow> posting list \<Rightarrow> batch_snapshot \<Rightarrow> batch_snapshot" where
  "add_term word mergedPostings sn =
     (let wordId = of_nat (length (sn_idToWord sn)); ps = squeeze mergedPostings
      in sn\<lparr>sn_idToWord := sn_idToWord sn @ [word], sn_wordToId := um_emplace word wordId (sn_wordToId sn),
            sn_postings := sn_postings sn @ [pl_assignSortedUnique ps],
            sn_wordRefs := add_refs wordId ps (sn_wordRefs sn)\<rparr>)"

text \<open>The merge loop over the sorted term runs; \<open>None\<close> is the exception for too many words.\<close>

function merge_runs :: "(string \<times> posting list) list \<Rightarrow> batch_snapshot \<Rightarrow> batch_snapshot option" where
  "merge_runs [] sn = Some sn"
| "merge_runs (r # trs) sn =
     (let same = takeWhile (\<lambda>r'. fst r' = fst r) trs;
          mergedPostings = sort_key p_fileId (concat (snd r # map snd same))
      in if length (sn_idToWord sn) \<ge> 2 ^ 32 - 1 then None
         else merge_runs (drop (length same) trs) (add_term (fst r) mergedPostings sn))"
  by pat_completeness auto
termination
  by (relation "measure (\<lambda>(trs, sn). length trs)") auto

datatype build_error = TooManyDocuments | TooManyWords | BuildFatal fatal

text \<open>\<open>build\<close> from the moment the threads have joined.\<close>

definition collected :: "pipeline \<Rightarrow> batch_snapshot" where
  "collected s = \<lparr>sn_documentMetadata = bp_documentMetadata s, sn_wordToId = [], sn_idToWord = [], sn_postings = [],
     sn_wordRefs = [], sn_fileErrors = bp_fileErrors s, sn_indexedFiles = bp_indexedFiles s, sn_bytesRead = bp_bytesRead s\<rparr>"

definition batch_build :: "(wstring \<times> file_view) list \<Rightarrow> pipeline \<Rightarrow> build_error + batch_snapshot" where
  "batch_build fs s =
     (if length fs > 2 ^ 32 - 1 then Inl TooManyDocuments
      else case bp_fatalError s of
          Some e \<Rightarrow> Inl (BuildFatal e)
        | None \<Rightarrow>
            (if bp_fileErrors s \<noteq> [] then Inr (collected s)
             else case merge_runs (sort_key fst (concat (bp_localDictionaries s))) (collected s) of
                 None \<Rightarrow> Inl TooManyWords
               | Some sn \<Rightarrow> Inr sn))"

section \<open>Installation\<close>

definition snapshot_index :: "batch_snapshot \<Rightarrow> inverted_index" where
  "snapshot_index sn =
     \<lparr>ii_wordIds = wid_rebuild (sn_wordToId sn) (sn_idToWord sn) wid_empty, ii_chunks = [],
      ii_dictionary = sn_postings sn, ii_wordRefs = sn_wordRefs sn\<rparr>"

text \<open>\<open>saved\<close>: \<open>saveFullSnapshot\<close> returned; \<open>checkpointed\<close>: so did the checkpoint. The result tells
  whether an exception leaves the function.\<close>

definition installBatchSnapshot ::
  "bool \<Rightarrow> bool \<Rightarrow> batch_snapshot \<Rightarrow> wstring list \<Rightarrow> inverted_index \<times> memory_catalog \<Rightarrow>
   (inverted_index \<times> memory_catalog) \<times> bool" where
  "installBatchSnapshot saved checkpointed sn paths = (\<lambda>(index, catalog).
     case mc_stageBatchSnapshot paths (sn_documentMetadata sn) catalog of
       None \<Rightarrow> ((index, catalog), True)
     | Some catalog' \<Rightarrow>
         (if \<not> saved then ((index, mc_rollbackStagedBatch catalog'), True)
          else ((snapshot_index sn, mc_commitStagedBatch catalog'), \<not> checkpointed)))"

text \<open>The state in which a full rebuild is allowed, and the rebuild: \<open>busy\<close> is the flag of an
  update under way, \<open>s\<close> the joined pipeline. The flag in the result says that the future
  carries an exception.\<close>

definition canUseBatchFullBuild :: "inverted_index \<times> memory_catalog \<Rightarrow> bool" where
  "canUseBatchFullBuild = (\<lambda>(index, catalog).
     id2path (mc_paths catalog) = [] \<and> wid_size (ii_wordIds index) = 0 \<and> ii_chunks index = [] \<and> ii_dictionary index = [])"

definition updateDocumentBaseBatch ::
  "bool \<Rightarrow> bool \<Rightarrow> bool \<Rightarrow> (wstring \<times> file_view) list \<Rightarrow> pipeline \<Rightarrow> inverted_index \<times> memory_catalog \<Rightarrow>
   (inverted_index \<times> memory_catalog) \<times> bool" where
  "updateDocumentBaseBatch busy saved checkpointed fs s st =
     (if busy then (st, False)
      else case batch_build fs s of
          Inl e \<Rightarrow> (st, True)
        | Inr sn \<Rightarrow>
            (if sn_fileErrors sn \<noteq> [] then (st, True)
             else installBatchSnapshot saved checkpointed sn (map fst fs) st))"

section \<open>The merge, word by word\<close>

definition runs_of :: "string \<Rightarrow> (string \<times> posting list) list \<Rightarrow> posting list" where
  "runs_of w trs = concat (map snd (filter (\<lambda>r. fst r = w) trs))"

definition merged_word :: "(string \<times> posting list) list \<Rightarrow> string \<Rightarrow> batch_snapshot \<Rightarrow> batch_snapshot" where
  "merged_word trs w = add_term w (sort_key p_fileId (runs_of w trs))"

lemma takeWhile_sorted_eq:
  assumes "sorted (map fst (r # trs))"
  shows "takeWhile (\<lambda>r'. fst r' = fst r) trs = filter (\<lambda>r'. fst r' = fst r) trs"
    and "\<forall>r' \<in> set (dropWhile (\<lambda>r'. fst r' = fst r) trs). fst r < fst r'"
  using assms
proof (induction trs)
  case (Cons x trs)
  { case 1
    show ?case
    proof (cases "fst x = fst r")
      case True
      with 1 Cons.IH(1) show ?thesis by auto
    next
      case False
      with 1 have "\<forall>y \<in> set trs. fst y \<noteq> fst r" by auto
      then have "filter (\<lambda>r'. fst r' = fst r) trs = []" by (simp add: filter_empty_conv)
      with False show ?thesis by simp
    qed
  next
    case 2
    show ?case
    proof (cases "fst x = fst r")
      case True
      with 2 Cons.IH(2) show ?thesis by auto
    next
      case False
      with 2 have "fst r < fst x" "\<forall>y \<in> set trs. fst x \<le> fst y" by auto
      with False show ?thesis by auto
    qed }
qed simp_all

lemma runs_of_simps [simp]: "runs_of w [] = []" "runs_of w (xs @ ys) = runs_of w xs @ runs_of w ys"
  by (simp_all add: runs_of_def)

lemma runs_of_absent: "w \<notin> fst ` set trs \<Longrightarrow> runs_of w trs = []"
proof -
  assume "w \<notin> fst ` set trs"
  then have "filter (\<lambda>r. fst r = w) trs = []" by (auto simp: filter_empty_conv)
  then show ?thesis by (simp add: runs_of_def)
qed

lemma add_term_words [simp]:
  "length (sn_idToWord (add_term w ps sn)) = Suc (length (sn_idToWord sn))"
  by (simp add: add_term_def Let_def)

lemma split_first_word:
  assumes "sorted (map fst (r # trs))"
  defines "rest \<equiv> dropWhile (\<lambda>r'. fst r' = fst r) trs"
  shows "sorted (map fst rest)" and "remdups_adj (map fst (r # trs)) = fst r # remdups_adj (map fst rest)"
    and "fst ` set (r # trs) = insert (fst r) (fst ` set rest)" and "fst r \<notin> fst ` set rest"
    and "w \<in> fst ` set rest \<Longrightarrow> runs_of w (r # trs) = runs_of w rest"
    and "runs_of (fst r) (r # trs) = concat (snd r # map snd (takeWhile (\<lambda>r'. fst r' = fst r) trs))"
proof -
  have gt: "\<forall>r' \<in> set rest. fst r < fst r'" using takeWhile_sorted_eq(2) [OF assms(1)] by (simp add: rest_def)
  define same where "same = takeWhile (\<lambda>r'. fst r' = fst r) trs"
  have trs: "trs = same @ rest" by (simp add: rest_def same_def)
  have same: "\<forall>r' \<in> set same. fst r' = fst r" by (auto simp: same_def dest: set_takeWhileD)
  have "sorted (map fst trs)" using assms(1) by simp
  then show "sorted (map fst rest)" unfolding trs by (simp add: sorted_append)
  show "remdups_adj (map fst (r # trs)) = fst r # remdups_adj (map fst rest)"
    by (simp add: remdups_adj_Cons' dropWhile_map comp_def rest_def)
  show "fst ` set (r # trs) = insert (fst r) (fst ` set rest)" using same by (auto simp: trs)
  show absent: "fst r \<notin> fst ` set rest" using gt by auto
  show "runs_of w (r # trs) = runs_of w rest" if "w \<in> fst ` set rest"
  proof -
    have "w \<noteq> fst r" using that absent by metis
    then have "runs_of w (r # same) = []" using same by (intro runs_of_absent) auto
    then show ?thesis using runs_of_simps(2) [of w "r # same" rest] by (simp add: trs)
  qed
  show "runs_of (fst r) (r # trs) = concat (snd r # map snd (takeWhile (\<lambda>r'. fst r' = fst r) trs))"
    using takeWhile_sorted_eq(1) [OF assms(1)] by (simp add: runs_of_def)
qed

lemma merge_runs_fold:
  assumes "sorted (map fst trs)"
  shows "merge_runs trs sn =
    (if trs \<noteq> [] \<and> length (sn_idToWord sn) + card (fst ` set trs) > 2 ^ 32 - 1 then None
     else Some (fold (merged_word trs) (remdups_adj (map fst trs)) sn))"
  using assms
proof (induction trs sn rule: merge_runs.induct)
  case (2 r trs sn)
  let ?same = "takeWhile (\<lambda>r'. fst r' = fst r) trs" and ?rest = "dropWhile (\<lambda>r'. fst r' = fst r) trs"
  let ?n = "length (sn_idToWord sn)"
  note sp = split_first_word [OF "2.prems"]
  have drop: "drop (length ?same) trs = ?rest" by (rule dropWhile_eq_drop [symmetric])
  have card: "card (fst ` set (r # trs)) = Suc (card (fst ` set ?rest))" using sp(3,4) by simp
  show ?case
  proof (cases "?n \<ge> 2 ^ 32 - 1")
    case True
    then show ?thesis using card by simp
  next
    case False
    let ?sn = "merged_word (r # trs) (fst r) sn"
    have step: "merge_runs (r # trs) sn = merge_runs ?rest ?sn"
      using False sp(6) by (simp add: Let_def merged_word_def drop)
    have "merge_runs ?rest ?sn =
        (if ?rest \<noteq> [] \<and> length (sn_idToWord ?sn) + card (fst ` set ?rest) > 2 ^ 32 - 1 then None
         else Some (fold (merged_word ?rest) (remdups_adj (map fst ?rest)) ?sn))"
      using "2.IH" [OF refl refl False] sp(1,6) by (simp add: drop merged_word_def)
    moreover have "length (sn_idToWord ?sn) = Suc ?n" by (simp add: merged_word_def)
    moreover have "fold (merged_word ?rest) (remdups_adj (map fst ?rest)) ?sn =
        fold (merged_word (r # trs)) (remdups_adj (map fst (r # trs))) sn"
    proof -
      have "merged_word ?rest w = merged_word (r # trs) w" if "w \<in> set (remdups_adj (map fst ?rest))" for w
        using sp(5) [of w] that by (simp add: merged_word_def fun_eq_iff)
      then show ?thesis unfolding sp(2) fold_simps comp_apply by (intro fold_cong refl)
    qed
    moreover have "\<not> ?n + card (fst ` set (r # trs)) > 2 ^ 32 - 1" if "?rest = []"
      using False unfolding card that by simp
    ultimately show ?thesis using card step by (cases "?rest = []") simp_all
  qed
qed simp

lemma squeeze_sorted: "pl_invar ps \<Longrightarrow> squeeze ps = ps"
proof (induction ps)
  case (Cons p ps)
  then have inv: "pl_invar ps" and "\<forall>q \<in> set ps. p_fileId p < p_fileId q" by (simp_all add: pl_invar_Cons)
  then have tw: "takeWhile (\<lambda>q. p_fileId q = p_fileId p) ps = []" by (cases ps) auto
  have "unat (p_cnt p) < 65536" using unsigned_less [of "p_cnt p", where 'a = nat] by simp
  then have le: "(ucast (p_cnt p) :: u32) \<le> 65535" by (simp add: word_le_nat_alt unsigned_ucast_eq take_bit_eq_mod)
  have "(ucast (ucast (p_cnt p) :: u32) :: u16) = p_cnt p" by (intro bit_word_eqI) (simp add: bit_simps)
  with le have "ucast (saturating_count [p]) = p_cnt p" by (simp add: saturating_count_def min_absorb2)
  then show ?case using tw Cons.IH [OF inv] by simp
qed simp

definition term_list :: "(string \<times> posting list) list \<Rightarrow> string \<Rightarrow> posting_list" where
  "term_list trs w = squeeze (sort_key p_fileId (runs_of w trs))"

lemma collect_snoc:
  "{f n | n. n < length (ws @ [v]) \<and> g \<in> P ((ws @ [v]) ! n)} =
     {f n | n. n < length ws \<and> g \<in> P (ws ! n)} \<union> (if g \<in> P v then {f (length ws)} else {})"
proof -
  have "n < length (ws @ [v]) \<and> g \<in> P ((ws @ [v]) ! n) \<longleftrightarrow>
      n < length ws \<and> g \<in> P (ws ! n) \<or> n = length ws \<and> g \<in> P v" for n
    by (auto simp: nth_append less_Suc_eq)
  then show ?thesis by auto
qed

lemma merged_snapshot:
  fixes trs :: "(string \<times> posting list) list"
  assumes "distinct ws" and "length ws \<le> 2 ^ 32" and "sn_idToWord sn0 = []" "sn_wordToId sn0 = []" "sn_postings sn0 = []" "sn_wordRefs sn0 = []"
  defines "sn \<equiv> fold (merged_word trs) ws sn0"
  shows "sn_idToWord sn = ws" and "sn_postings sn = map (term_list trs) ws"
    and "um_ok (sn_wordToId sn)"
    and "um_find (sn_wordToId sn) w = Some i \<longleftrightarrow> unat i < length ws \<and> ws ! unat i = w"
    and "um_ok (sn_wordRefs sn)"
    and "set (refs_of (sn_wordRefs sn) g) = {of_nat n | n. n < length ws \<and> g \<in> p_fileId ` set (term_list trs (ws ! n))}"
proof -
  have "sn_idToWord sn = ws \<and> sn_postings sn = map (term_list trs) ws \<and> um_ok (sn_wordToId sn) \<and>
      (\<forall>w i. um_find (sn_wordToId sn) w = Some i \<longleftrightarrow> unat i < length ws \<and> ws ! unat i = w) \<and> um_ok (sn_wordRefs sn) \<and>
      (\<forall>g. set (refs_of (sn_wordRefs sn) g) = {of_nat n | n. n < length ws \<and> g \<in> p_fileId ` set (term_list trs (ws ! n))})"
    using assms(1,2) unfolding sn_def
  proof (induction ws rule: rev_induct)
    case Nil
    then show ?case using assms(3-6) by (simp add: refs_of_def)
  next
    case (snoc v ws)
    let ?sn = "fold (merged_word trs) ws sn0" and ?n = "length ws"
    have IH: "sn_idToWord ?sn = ws" "sn_postings ?sn = map (term_list trs) ws" "um_ok (sn_wordToId ?sn)"
      "\<And>w i. um_find (sn_wordToId ?sn) w = Some i \<longleftrightarrow> unat i < ?n \<and> ws ! unat i = w" "um_ok (sn_wordRefs ?sn)"
      "\<And>g. set (refs_of (sn_wordRefs ?sn) g) = {of_nat n | n. n < ?n \<and> g \<in> p_fileId ` set (term_list trs (ws ! n))}"
      using snoc by auto
    have v: "v \<notin> set ws" and n: "?n < 2 ^ 32" using snoc.prems by auto
    have new: "fold (merged_word trs) (ws @ [v]) sn0 = ?sn\<lparr>sn_idToWord := ws @ [v],
        sn_wordToId := um_emplace v (of_nat ?n) (sn_wordToId ?sn), sn_postings := map (term_list trs) ws @ [term_list trs v],
        sn_wordRefs := add_refs (of_nat ?n) (term_list trs v) (sn_wordRefs ?sn)\<rparr>"
      using IH(1,2) by (simp add: merged_word_def add_term_def Let_def term_list_def pl_assignSortedUnique_def)
    have "um_find (sn_wordToId ?sn) v = None"
    proof (cases "um_find (sn_wordToId ?sn) v")
      case (Some i)
      with IH(4) have "v \<in> set ws" by (metis nth_mem)
      with v show ?thesis ..
    qed
    moreover have "of_nat ?n = i \<longleftrightarrow> unat i = ?n" for i :: u32
      using unat_of_nat_u32 [OF n] by (auto simp: word_unat_eq_iff)
    moreover have "(ws @ [v]) ! m = v \<longleftrightarrow> m = ?n" if "m < Suc ?n" for m
      using that v by (auto simp: nth_append less_Suc_eq)
    ultimately have "um_find (um_emplace v (of_nat ?n) (sn_wordToId ?sn)) w = Some i \<longleftrightarrow>
        unat i < length (ws @ [v]) \<and> (ws @ [v]) ! unat i = w" for w i
      using IH(4) [of w i] by (cases "w = v") (auto simp: um_find_emplace nth_append)
    moreover have "set (refs_of (add_refs (of_nat ?n) (term_list trs v) (sn_wordRefs ?sn)) g) =
        {of_nat n | n. n < length (ws @ [v]) \<and> g \<in> p_fileId ` set (term_list trs ((ws @ [v]) ! n))}" for g
      unfolding add_refs_set IH(6) by (rule collect_snoc [symmetric])
    ultimately show ?case unfolding new using IH(3,5) by (simp add: add_refs_ok)
  qed
  then show "sn_idToWord sn = ws" "sn_postings sn = map (term_list trs) ws" "um_ok (sn_wordToId sn)"
    "um_find (sn_wordToId sn) w = Some i \<longleftrightarrow> unat i < length ws \<and> ws ! unat i = w" "um_ok (sn_wordRefs sn)"
    "set (refs_of (sn_wordRefs sn) g) = {of_nat n | n. n < length ws \<and> g \<in> p_fileId ` set (term_list trs (ws ! n))}"
    by blast+
qed

section \<open>What the workers' dictionaries hold\<close>

definition doc_postings :: "document_acc \<Rightarrow> string \<Rightarrow> posting list" where
  "doc_postings d w = (case um_find (da_frequencies d) w of None \<Rightarrow> []
     | Some n \<Rightarrow> [\<lparr>p_fileId = da_fileId d, p_cnt = bounded_count n\<rparr>])"

definition dict_postings :: "local_dict \<Rightarrow> string \<Rightarrow> posting list" where
  "dict_postings dict w = (case um_find dict w of None \<Rightarrow> [] | Some ps \<Rightarrow> ps)"

lemma push_all_find:
  assumes "distinct (map fst freq)"
  shows "um_find (fold (push_posting f) freq dict) w =
    (case map_of freq w of None \<Rightarrow> um_find dict w
       | Some n \<Rightarrow> Some (dict_postings dict w @ [\<lparr>p_fileId = f, p_cnt = bounded_count n\<rparr>]))"
  using assms
proof (induction freq arbitrary: dict)
  case (Cons x freq)
  obtain v n where x: "x = (v, n)" by (cases x)
  have p: "um_find (push_posting f x dict) w = (if w = v then Some (dict_postings dict v @ [\<lparr>p_fileId = f, p_cnt = bounded_count n\<rparr>]) else um_find dict w)" for w
    by (simp add: push_posting_def x um_find_put dict_postings_def)
  have "map_of freq v = None" using Cons.prems x by (simp add: map_of_eq_None_iff)
  with Cons x p show ?case by (auto simp: dict_postings_def split: option.splits)
qed simp

lemma push_all_ok: "um_ok dict \<Longrightarrow> um_ok (fold (push_posting f) freq dict)"
  by (induction freq arbitrary: dict) (auto simp: push_posting_def split: prod.splits)

lemma commitDocument_find:
  assumes "um_ok (da_frequencies d)"
  shows "dict_postings (commitDocument d dict) w = dict_postings dict w @ doc_postings d w"
    and "um_find (commitDocument d dict) w = None \<longleftrightarrow> um_find dict w = None \<and> um_find (da_frequencies d) w = None"
  using push_all_find [of "da_frequencies d" "da_fileId d" dict w] assms
  by (auto simp: commitDocument_def um_ok_def um_find_def [of "da_frequencies d"] dict_postings_def doc_postings_def split: option.splits)

lemma commit_all:
  assumes "\<And>j. um_ok (da_frequencies (doc j))" and "um_ok dict"
  shows "dict_postings (fold (\<lambda>j. commitDocument (doc j)) js dict) w =
      dict_postings dict w @ concat (map (\<lambda>j. doc_postings (doc j) w) js)"
    and "um_find (fold (\<lambda>j. commitDocument (doc j)) js dict) w = None \<longleftrightarrow>
      um_find dict w = None \<and> (\<forall>j \<in> set js. um_find (da_frequencies (doc j)) w = None)"
    and "um_ok (fold (\<lambda>j. commitDocument (doc j)) js dict)"
  using assms(2)
proof (induction js arbitrary: dict)
  case (Cons j js)
  { case 1 then show ?case using Cons.IH(1) commitDocument_find(1) [OF assms(1)] by (simp add: commitDocument_def push_all_ok)
  next
    case 2 then show ?case using Cons.IH(2) commitDocument_find(2) [OF assms(1)] by (simp add: commitDocument_def push_all_ok)
  next
    case 3 then show ?case using Cons.IH(3) by (simp add: commitDocument_def push_all_ok) }
qed simp_all

lemma runs_of_dict: "um_ok dict \<Longrightarrow> runs_of w dict = dict_postings dict w"
proof (induction dict)
  case (Cons x dict)
  then have ok: "um_ok dict" and absent: "fst x \<notin> fst ` set dict" by (simp_all add: um_ok_def)
  show ?case
  proof (cases "fst x = w")
    case True
    then have "runs_of w dict = []" using absent by (intro runs_of_absent) simp
    with True show ?thesis by (simp add: runs_of_def dict_postings_def um_find_def)
  next
    case False
    with Cons.IH [OF ok] show ?thesis by (simp add: runs_of_def dict_postings_def um_find_def)
  qed
qed (simp add: dict_postings_def)

lemma runs_of_concat: "runs_of w (concat dicts) = concat (map (runs_of w) dicts)"
  by (induction dicts) simp_all

text \<open>The postings of a word in all dictionaries, whatever the distribution of the files.\<close>

lemma runs_of_logs:
  assumes "\<And>j. um_ok (da_frequencies (doc j))"
  shows "runs_of w (concat (map (\<lambda>js. fold (\<lambda>j. commitDocument (doc j)) js []) logs)) =
      concat (map (\<lambda>j. doc_postings (doc j) w) (concat logs))"
    and "w \<in> fst ` set (concat (map (\<lambda>js. fold (\<lambda>j. commitDocument (doc j)) js []) logs)) \<longleftrightarrow>
      (\<exists>j \<in> set (concat logs). um_find (da_frequencies (doc j)) w \<noteq> None)"
proof -
  let ?dict = "\<lambda>js. fold (\<lambda>j. commitDocument (doc j)) js []"
  have "runs_of w (?dict js) = concat (map (\<lambda>j. doc_postings (doc j) w) js)" for js
    using runs_of_dict [OF commit_all(3) [OF assms um_ok_Nil, where js = js], of w] commit_all(1) [OF assms um_ok_Nil, where js = js and w = w]
    by (simp add: dict_postings_def [of "[]"])
  then show "runs_of w (concat (map ?dict logs)) = concat (map (\<lambda>j. doc_postings (doc j) w) (concat logs))"
    by (induction logs) (simp_all add: runs_of_concat)
  have k: "w \<in> fst ` set (?dict js) \<longleftrightarrow> (\<exists>j \<in> set js. um_find (da_frequencies (doc j)) w \<noteq> None)" for js
    using commit_all(2) [OF assms um_ok_Nil, where js = js and w = w] um_find_None_iff [of "?dict js" w] by auto
  show "w \<in> fst ` set (concat (map ?dict logs)) \<longleftrightarrow> (\<exists>j \<in> set (concat logs). um_find (da_frequencies (doc j)) w \<noteq> None)"
  proof (induction logs)
    case (Cons js logs)
    then show ?case unfolding list.map concat.simps set_append image_Un Un_iff bex_Un k by blast
  qed simp
qed

text \<open>The merged list of a word: one posting per file that has it, by file number.\<close>

lemma term_list_correct:
  assumes ok: "\<And>j. um_ok (da_frequencies (doc j))" and id: "\<And>j. j \<in> set js \<Longrightarrow> da_fileId (doc j) = of_nat j"
    and js: "distinct js" "\<And>j. j \<in> set js \<Longrightarrow> j < 2 ^ 32" and logs: "mset (concat logs) = mset js"
    and trs: "runs_of w trs = concat (map (\<lambda>j. doc_postings (doc j) w) (concat logs))"
  shows "pl_invar (term_list trs w)"
    and "pl_map (term_list trs w) f =
      (if unat f \<in> set js then map_option bounded_count (um_find (da_frequencies (doc (unat f))) w) else None)"
proof -
  let ?ps = "concat (map (\<lambda>j. doc_postings (doc j) w) (concat logs))"
  let ?has = "\<lambda>j. um_find (da_frequencies (doc j)) w \<noteq> None"
  have set_logs: "set (concat logs) = set js" using logs by (metis set_mset_mset)
  have dist: "distinct (concat logs)" using js(1) logs mset_eq_imp_distinct_iff by blast
  have ids: "map p_fileId (concat (map (\<lambda>j. doc_postings (doc j) w) ks)) = map of_nat (filter ?has ks)"
    if "set ks \<subseteq> set js" for ks
    using that by (induction ks) (auto simp: doc_postings_def id split: option.splits)
  have "inj_on (of_nat :: nat \<Rightarrow> u32) (set js)"
    using js(2) unat_of_nat_u32 by (intro inj_onI) metis
  then have "distinct (map p_fileId ?ps)"
    using ids [of "concat logs"] set_logs dist by (auto simp: distinct_map intro: inj_on_subset)
  then have "sorted_wrt (<) (map p_fileId (sort_key p_fileId ?ps))"
    by (simp add: strict_sorted_iff distinct_map)
  then have inv: "pl_invar (sort_key p_fileId ?ps)" by (simp add: pl_invar_def)
  then have tl: "term_list trs w = sort_key p_fileId ?ps" by (simp add: term_list_def trs squeeze_sorted)
  show "pl_invar (term_list trs w)" using inv tl by simp
  have mem: "p \<in> set ?ps \<longleftrightarrow> (\<exists>j n. j \<in> set js \<and> um_find (da_frequencies (doc j)) w = Some n \<and>
      p = \<lparr>p_fileId = of_nat j, p_cnt = bounded_count n\<rparr>)" for p
  proof -
    have "set (concat (map g ks)) = (\<Union>j \<in> set ks. set (g j))" for g :: "nat \<Rightarrow> posting list" and ks by simp
    from this [of "\<lambda>j. doc_postings (doc j) w" "concat logs"] have "p \<in> set ?ps \<longleftrightarrow> (\<exists>j \<in> set js. p \<in> set (doc_postings (doc j) w))"
      unfolding set_logs by auto
    also have "\<dots> \<longleftrightarrow> (\<exists>j n. j \<in> set js \<and> um_find (da_frequencies (doc j)) w = Some n \<and>
        p = \<lparr>p_fileId = of_nat j, p_cnt = bounded_count n\<rparr>)"
    proof -
      have "p \<in> set (doc_postings (doc j) w) \<longleftrightarrow> (\<exists>n. um_find (da_frequencies (doc j)) w = Some n \<and>
          p = \<lparr>p_fileId = of_nat j, p_cnt = bounded_count n\<rparr>)" if "j \<in> set js" for j
        using id [OF that] by (cases "um_find (da_frequencies (doc j)) w") (simp_all add: doc_postings_def)
      then show ?thesis by blast
    qed
    finally show ?thesis .
  qed
  show "pl_map (term_list trs w) f =
      (if unat f \<in> set js then map_option bounded_count (um_find (da_frequencies (doc (unat f))) w) else None)"
  proof (cases "unat f \<in> set js \<and> ?has (unat f)")
    case True
    then obtain n where n: "um_find (da_frequencies (doc (unat f))) w = Some n" by auto
    with True have "\<lparr>p_fileId = f, p_cnt = bounded_count n\<rparr> \<in> set ?ps" unfolding mem by (intro exI [of _ "unat f"] exI [of _ n]) simp
    with pl_mem_map [OF inv, of "\<lparr>p_fileId = f, p_cnt = bounded_count n\<rparr>"] n True tl show ?thesis by simp
  next
    case False
    have "f \<notin> p_fileId ` set ?ps"
    proof
      assume "f \<in> p_fileId ` set ?ps"
      then obtain p where p: "p \<in> set ?ps" "f = p_fileId p" by blast
      from p(1) [unfolded mem] obtain j n where "j \<in> set js" "um_find (da_frequencies (doc j)) w = Some n"
        "p = \<lparr>p_fileId = of_nat j, p_cnt = bounded_count n\<rparr>" by blast
      with p(2) have "j \<in> set js" "um_find (da_frequencies (doc j)) w = Some n" "f = of_nat j" by simp_all
      with False js(2) unat_of_nat_u32 show False by auto
    qed
    then have "pl_map (term_list trs w) f = None" unfolding tl pl_map_None by simp
    with False show ?thesis by auto
  qed
qed

section \<open>The words of a file\<close>

definition job_words :: "tok_env \<Rightarrow> (wstring \<times> file_view) list \<Rightarrow> nat \<Rightarrow> string list" where
  "job_words env fs j =
     (case snd (fs ! j) of
        Reads meta bytes k \<Rightarrow> file_words (te_avx2 env) (te_upper env) (te_firstOEM env) (te_ispunct env) bytes
      | _ \<Rightarrow> [])"

definition flagged :: "file_block \<Rightarrow> string \<times> bool" where
  "flagged b = (fb_data b, fb_isLastChunk b)"

fun loop_datas :: "nat \<Rightarrow> u32 \<Rightarrow> (string \<times> bool) list \<Rightarrow> file_block list" where
  "loop_datas payload f [] = []"
| "loop_datas payload f ((bytes, l) # reads) =
     split_read payload f l bytes @ (if l then [] else loop_datas payload f reads)"

lemma read_loop_datas:
  "\<not> has_error (read_loop payload f reads k) \<Longrightarrow>
     action_blocks (read_loop payload f reads k) = loop_datas payload f reads @ [ctl_block BComplete f]"
  by (induction payload f reads k rule: read_loop.induct) (auto simp: read_failed_def split: if_splits)

lemma tokenizeBlock_tokens:
  "da_frequencies (fold (tokenizeBlock env) datas d) =
     fold (on_token env) (fst (tokenize_blocks (te_avx2 env) (te_ispunct env) (map flagged datas) (da_carry d))) (da_frequencies d)"
  by (induction datas arbitrary: d) (simp_all add: tokenizeBlock_def flagged_def case_prod_beta)

lemma on_token_words:
  "fold (on_token env) toks fr =
     fold count_word (filter (\<lambda>w. w \<noteq> []) (map (normalizeToken (te_upper env) (te_firstOEM env) (te_ispunct env)) toks)) fr"
  by (induction toks arbitrary: fr) (simp_all add: on_token_def Let_def)

lemma split_read_unflagged:
  assumes "0 < payload"
  shows "\<forall>b \<in> set (map flagged (split_read payload f False bytes)). \<not> snd b"
    and "concat (map fst (map flagged (split_read payload f l bytes))) = bytes"
proof -
  show "\<forall>b \<in> set (map flagged (split_read payload f False bytes)). \<not> snd b"
  proof (induction payload f False bytes rule: split_read.induct)
    case (1 payload f bytes)
    then show ?case by (subst split_read.simps) (auto simp: flagged_def data_block_def)
  qed
  show "concat (map fst (map flagged (split_read payload f l bytes))) = bytes"
    using split_read_parts [OF assms, of f l bytes] by (simp add: flagged_def comp_def)
qed

lemma split_read_last:
  assumes "0 < payload" and "bytes \<noteq> []"
  shows "\<exists>bs data. map flagged (split_read payload f True bytes) = bs @ [(data, True)] \<and> (\<forall>b \<in> set bs. \<not> snd b) \<and>
    concat (map fst bs) @ data = bytes"
  using assms
proof (induction payload f True bytes rule: split_read.induct)
  case (1 payload f bytes)
  have eq: "split_read payload f True bytes = data_block f (length bytes \<le> payload) (take payload bytes) #
      split_read payload f True (drop payload bytes)" using "1.prems" by (subst split_read.simps) simp
  show ?case
  proof (cases "length bytes \<le> payload")
    case True
    then have "map flagged (split_read payload f True bytes) = [] @ [(bytes, True)]"
      unfolding eq by (simp add: flagged_def data_block_def split_read.simps [of payload f True "[]"])
    then show ?thesis by (intro exI [of _ "[]"] exI [of _ bytes]) simp
  next
    case False
    have "\<not> (bytes = [] \<or> payload = 0)" "drop payload bytes \<noteq> []" using "1.prems" False by auto
    with "1.hyps" "1.prems"(1) obtain bs data where bs: "map flagged (split_read payload f True (drop payload bytes)) = bs @ [(data, True)]"
      "\<forall>b \<in> set bs. \<not> snd b" "concat (map fst bs) @ data = drop payload bytes" by blast
    then have "map flagged (split_read payload f True bytes) = ((take payload bytes, False) # bs) @ [(data, True)]"
      unfolding eq using False by (simp add: flagged_def data_block_def)
    moreover have "concat (map fst ((take payload bytes, False) # bs)) @ data = bytes" using bs(3) by simp
    ultimately show ?thesis using bs(2) by (metis set_ConsD snd_conv)
  qed
qed

lemma loop_datas_unflagged:
  assumes "0 < payload" and "\<forall>b \<in> set reads. \<not> snd b"
  shows "(\<forall>b \<in> set (map flagged (loop_datas payload f reads)). \<not> snd b) \<and>
    concat (map fst (map flagged (loop_datas payload f reads))) = concat (map fst reads)"
    and "loop_datas payload f (reads @ reads') = loop_datas payload f reads @ loop_datas payload f reads'"
  using assms(2)
proof (induction reads)
  case (Cons r reads)
  { case 1
    then obtain bytes where r: "r = (bytes, False)" by (cases r) simp
    with 1 Cons.IH(1) split_read_unflagged(1) [OF assms(1), of f bytes] split_read_unflagged(2) [OF assms(1), of f False bytes]
    show ?case by auto
  next
    case 2
    then obtain bytes where "r = (bytes, False)" by (cases r) simp
    with 2 Cons.IH(2) show ?case by simp }
qed simp_all

lemma loop_tokens:
  assumes p: "0 < payload"
  shows "fst (tokenize_blocks avx2 ispunct (map flagged (loop_datas payload f (read_blocks BUF_SIZE bytes))) []) =
    file_tokens avx2 ispunct bytes"
proof (cases "length bytes mod BUF_SIZE = 0")
  case True
  from read_blocks_exact [OF BUF_SIZE_pos True] have nl: "\<forall>b \<in> set (read_blocks BUF_SIZE bytes). \<not> snd b" by blast
  from loop_datas_unflagged(1) [OF p this, of f] have l: "\<forall>b \<in> set (map flagged (loop_datas payload f (read_blocks BUF_SIZE bytes))). \<not> snd b"
    and c: "concat (map fst (map flagged (loop_datas payload f (read_blocks BUF_SIZE bytes)))) = concat (map fst (read_blocks BUF_SIZE bytes))" by blast+
  show ?thesis unfolding file_tokens_def tokenize_blocks_lex [OF l] tokenize_blocks_lex [OF nl] c by simp
next
  case False
  from read_blocks_short [OF BUF_SIZE_pos False] obtain bs data where rb: "read_blocks BUF_SIZE bytes = bs @ [(data, True)]"
    "\<forall>b \<in> set bs. \<not> snd b" "concat (map fst bs) @ data = bytes" by auto
  have "(data, True) \<in> set (read_blocks BUF_SIZE bytes)" using rb(1) by simp
  moreover have "b \<in> set (read_blocks n ys) \<Longrightarrow> fst b \<noteq> []" for b n ys
    by (induction n ys rule: read_blocks.induct) (subst (asm) (2) read_blocks.simps, auto split: if_splits)
  ultimately have "data \<noteq> []" by fastforce
  from split_read_last [OF p this, of f] obtain cs d where cs: "map flagged (split_read payload f True data) = cs @ [(d, True)]"
    "\<forall>b \<in> set cs. \<not> snd b" "concat (map fst cs) @ d = data" by blast
  let ?us = "map flagged (loop_datas payload f bs)"
  note un = loop_datas_unflagged [OF p rb(2), of f]
  have "map flagged (loop_datas payload f (read_blocks BUF_SIZE bytes)) = (?us @ cs) @ [(d, True)]"
    using un(2) [of "[(data, True)]"] cs(1) by (simp add: rb(1))
  moreover have "\<forall>b \<in> set (?us @ cs). \<not> snd b" using un(1) cs(2) by auto
  moreover have "concat (map fst (?us @ cs)) @ d = bytes" using un(1) cs(3) rb(3) by simp
  ultimately have "fst (tokenize_blocks avx2 ispunct (map flagged (loop_datas payload f (read_blocks BUF_SIZE bytes))) []) = tokens_of ispunct bytes"
    using tokenize_blocks_flagged [of "?us @ cs" "[]" avx2 ispunct d] by simp
  moreover have "file_tokens avx2 ispunct bytes = tokens_of ispunct bytes"
    using tokenize_blocks_flagged [OF rb(2), of "[]" avx2 ispunct data] rb(1,3) by (simp add: file_tokens_def)
  ultimately show ?thesis by simp
qed

lemma loop_datas_kind: "0 < payload \<Longrightarrow> \<forall>b \<in> set (loop_datas payload f reads). fb_kind b = BData"
proof (induction reads)
  case (Cons r reads)
  obtain bytes l where r: "r = (bytes, l)" by (cases r)
  with Cons split_read_parts [OF Cons.prems, of f l bytes] show ?case by auto
qed simp

lemma job_doc_words:
  assumes "job_good opts fs j"
  shows "da_fileId (job_doc env opts fs j) = of_nat j"
    and "da_frequencies (job_doc env opts fs j) = freqWordFile (job_words env fs j)"
proof -
  let ?p = "payloadSize opts" and ?f = "of_nat j :: u32"
  from assms obtain m bytes k where v: "snd (fs ! j) = Reads m bytes k"
    by (auto simp: job_good_def is_reads_def split: file_view.splits)
  let ?reads = "read_blocks BUF_SIZE bytes"
  have ne: "\<not> has_error (read_loop ?p ?f ?reads k)"
    using assms v by (simp add: job_good_def job_actions_def file_actions_def kReadBlockSize_def BUF_SIZE_def)
  have "jblocks opts fs j = (ctl_block BStart ?f # loop_datas ?p ?f ?reads) @ [ctl_block BComplete ?f]"
    using read_loop_datas [OF ne] v
    by (simp add: jblocks_def job_actions_def file_actions_def kReadBlockSize_def BUF_SIZE_def)
  then have "butlast (jblocks opts fs j) = ctl_block BStart ?f # loop_datas ?p ?f ?reads" by simp
  with feed_datas [OF loop_datas_kind [OF payloadSize_pos], of env ?f opts ?f ?reads]
  have d: "job_doc env opts fs j = fold (tokenizeBlock env) (loop_datas ?p ?f ?reads) (fresh_document ?f)"
    by (simp add: job_doc_def)
  show "da_fileId (job_doc env opts fs j) = of_nat j" unfolding d by (simp add: fresh_document_def)
  show "da_frequencies (job_doc env opts fs j) = freqWordFile (job_words env fs j)"
    unfolding d tokenizeBlock_tokens
    using loop_tokens [OF payloadSize_pos, of "te_avx2 env" "te_ispunct env" opts ?f bytes] v
    by (simp add: fresh_document_def on_token_words freqWordFile_def job_words_def file_words_def)
qed

section \<open>The index of a rebuild\<close>

text \<open>The counters a rebuild must produce.\<close>

definition batch_count :: "tok_env \<Rightarrow> (wstring \<times> file_view) list \<Rightarrow> string \<Rightarrow> u32 \<Rightarrow> u16 option" where
  "batch_count env fs w f =
     (if unat f < length fs \<and> w \<in> set (job_words env fs (unat f))
      then Some (bounded_count (count_list (job_words env fs (unat f)) w)) else None)"

definition all_words :: "tok_env \<Rightarrow> (wstring \<times> file_view) list \<Rightarrow> string set" where
  "all_words env fs = (\<Union>j < length fs. set (job_words env fs j))"

lemma freq_find: "um_find (freqWordFile ws) w = (if w \<in> set ws then Some (count_list ws w) else None)"
  by (simp add: freqWordFile_def fold_count_word)

lemma snapshot_index_ok:
  assumes ws: "distinct ws" "length ws \<le> 2 ^ 32" and sn0: "sn_idToWord sn0 = []" "sn_wordToId sn0 = []" "sn_postings sn0 = []" "sn_wordRefs sn0 = []"
    and inv: "\<And>w. pl_invar (term_list trs w)" and out: "\<And>w. w \<notin> set ws \<Longrightarrow> term_list trs w = []"
  defines "s \<equiv> snapshot_index (fold (merged_word trs) ws sn0)"
  shows "index_ok s" and "count_of s w f = pl_map (term_list trs w) f"
proof -
  note ms = merged_snapshot [OF ws sn0, of trs]
  let ?sn = "fold (merged_word trs) ws sn0"
  have ids: "ii_wordIds s = \<lparr>word2id = sn_wordToId ?sn, id2word = ws\<rparr>"
    by (simp add: s_def snapshot_index_def wid_rebuild_def wid_empty_def ms(1))
  have dict: "ii_dictionary s = map (term_list trs) ws" and chunks: "ii_chunks s = []" and refs: "ii_wordRefs s = sn_wordRefs ?sn"
    by (simp_all add: s_def snapshot_index_def ms(2))
  have wid: "wid_invar (ii_wordIds s)" using ms(3,4) ws(2) by (simp add: wid_invar_def ids)
  show "index_ok s"
  proof (cases "ws = []")
    case True
    have "ii_invar s"
      by (rule ii_invarI) (use wid ms(5) True in \<open>simp_all add: dict chunks refs chunks_wf_def chunk_entry_def\<close>)
    then show ?thesis by (simp add: index_ok_def)
  next
    case False
    have "of_nat n \<in> set (refs_of (ii_wordRefs s) g)" if n: "n < length ws" "pl_map (term_list trs (ws ! n)) g \<noteq> None" for n g
    proof -
      have "g \<in> p_fileId ` set (term_list trs (ws ! n))" using n(2) by (simp add: pl_map_None)
      then show ?thesis unfolding refs ms(6) using n(1) by blast
    qed
    then have "flat_invar s" using wid False inv ms(5) unfolding flat_invar_def by (auto simp: dict refs ids wid_size_def)
    then show ?thesis by (simp add: index_ok_def)
  qed
  have "getWordCount s w = term_list trs w"
  proof (cases "w \<in> set ws")
    case True
    then obtain n where n: "n < length ws" "ws ! n = w" by (auto simp: in_set_conv_nth)
    have "um_find (sn_wordToId ?sn) w = Some (of_nat n)"
      unfolding ms(4) using n ws(2) unat_of_nat_u32 [of n] by simp
    moreover have "ii_dictionary s \<noteq> []" using True dict by auto
    moreover have "unat (of_nat n :: u32) = n" using n(1) ws(2) by (intro unat_of_nat_u32) simp
    ultimately show ?thesis using n by (simp add: getWordCount_flat wid_tryGet_def ids dict)
  next
    case False
    then have "um_find (sn_wordToId ?sn) w = None"
      using ms(4) by (metis not_None_eq nth_mem)
    then have "wid_tryGet (ii_wordIds s) w = None" by (simp add: wid_tryGet_def ids)
    then show ?thesis using out [OF False] by (simp add: getWordCount_def getPostingCopyByWord_def)
  qed
  then show "count_of s w f = pl_map (term_list trs w) f" by (simp add: count_of_def pl_find_map inv)
qed

lemma merged_word_other [simp]:
  "sn_fileErrors (fold (merged_word trs) ws sn) = sn_fileErrors sn"
  "sn_indexedFiles (fold (merged_word trs) ws sn) = sn_indexedFiles sn"
  "sn_documentMetadata (fold (merged_word trs) ws sn) = sn_documentMetadata sn"
  by (induction ws arbitrary: sn) (simp_all add: merged_word_def add_term_def Let_def)

lemma sorted_distinct_remdups_adj: "sorted xs \<Longrightarrow> distinct (remdups_adj xs)"
  by (induction xs rule: remdups_adj.induct) (auto simp: order.antisym)

lemma build_merged:
  assumes dicts: "bp_localDictionaries s = map (\<lambda>js. fold (\<lambda>j. commitDocument (job_doc env opts fs j)) js []) logs"
    and logs: "mset (concat logs) = mset (filter (job_good opts fs) [0..<length fs])"
    and all: "\<forall>j < length fs. job_good opts fs j" and len: "length fs < 2 ^ 32"
    and ok: "bp_fatalError s = None" "bp_fileErrors s = []"
  shows "if card (all_words env fs) > 2 ^ 32 - 1 then batch_build fs s = Inl TooManyWords
    else \<exists>sn. batch_build fs s = Inr sn \<and> index_ok (snapshot_index sn) \<and>
      (\<forall>w f. count_of (snapshot_index sn) w f = batch_count env fs w f) \<and>
      sn_fileErrors sn = [] \<and> sn_indexedFiles sn = bp_indexedFiles s \<and> sn_documentMetadata sn = bp_documentMetadata s"
proof -
  let ?n = "length fs"
  define doc where "doc j = (if j < ?n then job_doc env opts fs j else fresh_document (of_nat j))" for j
  have logs': "mset (concat logs) = mset [0..<?n]" using logs all by (metis atLeastLessThan_iff filter_True set_upt)
  then have mem: "set (concat logs) = {0..<?n}" by (metis set_mset_mset set_upt)
  have id: "da_fileId (doc j) = of_nat j" and fr: "da_frequencies (doc j) = (if j < ?n then freqWordFile (job_words env fs j) else [])" for j
    using job_doc_words [of opts fs j env] all by (simp_all add: doc_def fresh_document_def)
  have okf: "um_ok (da_frequencies (doc j))" for j by (simp add: fr um_ok_freq)
  have dicts': "bp_localDictionaries s = map (\<lambda>js. fold (\<lambda>j. commitDocument (doc j)) js []) logs"
    unfolding dicts
  proof (rule map_cong [OF refl])
    fix js assume "js \<in> set logs"
    then have "\<forall>j \<in> set js. j < ?n" using mem by auto
    then show "fold (\<lambda>j. commitDocument (job_doc env opts fs j)) js [] = fold (\<lambda>j. commitDocument (doc j)) js []"
      by (intro fold_cong) (simp_all add: doc_def)
  qed
  let ?raw = "concat (bp_localDictionaries s)"
  define trs where "trs = sort_key fst ?raw"
  have runs: "runs_of w trs = concat (map (\<lambda>j. doc_postings (doc j) w) (concat logs))" for w
    using runs_of_logs(1) [of doc, OF okf, of w logs] by (simp add: trs_def dicts' runs_of_def sort_key_stable)
  have words: "fst ` set trs = all_words env fs"
  proof -
    have "w \<in> fst ` set trs \<longleftrightarrow> w \<in> all_words env fs" for w
      using runs_of_logs(2) [of doc, OF okf, of w logs] unfolding mem by (auto simp: trs_def dicts' fr freq_find all_words_def)
    then show ?thesis by blast
  qed
  let ?ws = "remdups_adj (map fst trs)"
  have sorted: "sorted (map fst trs)" by (simp add: trs_def)
  have ws: "distinct ?ws" "set ?ws = all_words env fs" using sorted_distinct_remdups_adj [OF sorted] words by simp_all
  then have card: "length ?ws = card (all_words env fs)" by (metis distinct_card)
  have tl: "pl_invar (term_list trs w)" "pl_map (term_list trs w) f = batch_count env fs w f" for w f
  proof -
    have js: "distinct [0..<?n]" "\<And>j. j \<in> set [0..<?n] \<Longrightarrow> j < 2 ^ 32" using len by auto
    note c = term_list_correct [of doc "[0..<?n]" logs w trs, OF okf id js logs' runs]
    show "pl_invar (term_list trs w)" by (rule c(1))
    show "pl_map (term_list trs w) f = batch_count env fs w f"
      using c(2) [of f] by (simp add: batch_count_def fr freq_find)
  qed
  have out: "term_list trs w = []" if "w \<notin> set ?ws" for w
    using that runs_of_absent [of w trs] by (simp add: term_list_def)
  have merge: "merge_runs trs (collected s) = (if trs \<noteq> [] \<and> card (all_words env fs) > 2 ^ 32 - 1 then None
      else Some (fold (merged_word trs) ?ws (collected s)))"
    using merge_runs_fold [OF sorted, of "collected s"] words by (simp add: collected_def)
  show ?thesis
  proof (cases "card (all_words env fs) > 2 ^ 32 - 1")
    case True
    then have "all_words env fs \<noteq> {}" by auto
    then have "trs \<noteq> []" using words by auto
    with True merge len ok show ?thesis by (simp add: batch_build_def trs_def)
  next
    case False
    then have "batch_build fs s = Inr (fold (merged_word trs) ?ws (collected s))"
      using merge len ok by (simp add: batch_build_def trs_def)
    moreover have "length ?ws \<le> 2 ^ 32" using False card by simp
    moreover have "sn_idToWord (collected s) = []" "sn_wordToId (collected s) = []" "sn_postings (collected s) = []"
      "sn_wordRefs (collected s) = []" by (simp_all add: collected_def)
    ultimately show ?thesis
      using snapshot_index_ok [OF ws(1) _ _ _ _ _ tl(1) out, of "collected s"] False ok(2) tl(2)
      by (simp add: collected_def)
  qed
qed

section \<open>The catalog of a rebuild\<close>

lemma rebuild_rows_wf:
  assumes "um_ok (path2info dp)" and "length (id2path dp) \<le> 2 ^ 32"
  shows "um_ok (path2info (fold rebuild_row rows dp)) \<and> length (id2path (fold rebuild_row rows dp)) \<le> 2 ^ 32"
  using assms
proof (induction rows arbitrary: dp)
  case (Cons r rows)
  have "unat (rr_id r) + 1 \<le> 2 ^ 32" using unsigned_less [of "rr_id r", where 'a = nat] by simp
  then have "um_ok (path2info (rebuild_row r dp))" "length (id2path (rebuild_row r dp)) \<le> 2 ^ 32"
    using Cons.prems by (simp_all add: rebuild_row_def Let_def)
  from Cons.IH [OF this] show ?case by simp
qed simp

lemma dp_rebuild_rows:
  assumes "distinct (map fst l)" and "distinct (map (fi_id \<circ> snd) l)"
  shows "dp_invar (dp_rebuildFromRows (map row_of l))"
    and "um_find (path2info (dp_rebuildFromRows (map row_of l))) q = map_of l q"
proof -
  let ?dp = "dp_rebuildFromRows (map row_of l)"
  have "dp_invar ?dp \<and> um_find (path2info ?dp) q = map_of l q"
  proof (cases "l = []")
    case True
    then show ?thesis by (simp add: dp_rebuildFromRows_def dp_invar_empty) (simp add: dp_empty_def)
  next
    case False
    define m where "m = unat (fold (\<lambda>r m. if rr_id r > m then rr_id r else m) (map row_of l) 0) + 1"
    define dp0 where "dp0 = \<lparr>path2info = ([] :: (wstring, file_info) umap), id2path = replicate m None\<rparr>"
    have dp: "?dp = fold rebuild_row (map row_of l) dp0"
      using False by (simp add: dp_rebuildFromRows_def Let_def dp0_def m_def)
    have k0: "dp_key dp0 i = None" for i by (simp add: dp0_def dp_key_def)
    have "m \<le> 2 ^ 32" unfolding m_def
      using unsigned_less [of "fold (\<lambda>r m. if rr_id r > m then rr_id r else m) (map row_of l) (0 :: u32)", where 'a = nat] by simp
    then have wf: "um_ok (path2info ?dp)" "length (id2path ?dp) \<le> 2 ^ 32"
      using rebuild_rows_wf [of dp0 "map row_of l"] unfolding dp by (simp_all add: dp0_def)
    note rr = rebuild_rows [OF assms, of dp0]
    have find: "um_find (path2info ?dp) q = map_of l q" for q
      using rr [of q] unfolding dp by (simp add: dp0_def split: option.splits)
    have key: "\<forall>(p, info) \<in> set l. dp_key ?dp (fi_id info) = Some p"
      "\<forall>i. i \<notin> (fi_id \<circ> snd) ` set l \<longrightarrow> dp_key ?dp i = None"
      using rr [of q] k0 unfolding dp by (simp_all add: dp0_def)
    have "dp_key ?dp i = Some p \<longleftrightarrow> (\<exists>info. map_of l p = Some info \<and> fi_id info = i)" for p i
    proof
      assume k: "dp_key ?dp i = Some p"
      with key(2) obtain e where e: "e \<in> set l" "fi_id (snd e) = i" by (metis comp_apply imageE option.distinct(1))
      with key(1) k have "fst e = p" by (cases e) auto
      with e assms(1) have "map_of l p = Some (snd e)" by (intro map_of_is_SomeI) auto
      with e(2) show "\<exists>info. map_of l p = Some info \<and> fi_id info = i" by blast
    next
      assume "\<exists>info. map_of l p = Some info \<and> fi_id info = i"
      with key(1) show "dp_key ?dp i = Some p" by (auto dest: map_of_SomeD)
    qed
    with wf find show ?thesis by (simp add: dp_invar_def)
  qed
  then show "dp_invar ?dp" and "um_find (path2info ?dp) q = map_of l q" by blast+
qed

lemma staged_catalog:
  assumes "distinct paths" and "length paths < 2 ^ 32" and "mc_stageBatchSnapshot paths metadata c = Some c'"
  shows "mc_invar c'"
    and "j < length paths \<Longrightarrow> mc_findByPath c' (paths ! j) = Some \<lparr>dr_id = of_nat j, dr_path = paths ! j,
      dr_mtimeTicks = fst (metadata ! j), dr_size = snd (metadata ! j), dr_deleted = False\<rparr>"
    and "p \<notin> set paths \<Longrightarrow> mc_findByPath c' p = None"
proof -
  let ?info = "\<lambda>ix. \<lparr>fi_mtime = fst (metadata ! ix), fi_fsize = snd (metadata ! ix), fi_id = of_nat ix :: u32, fi_deleted = False\<rparr>"
  let ?l = "map (\<lambda>ix. (paths ! ix, ?info ix)) [0..<length paths]"
  let ?row = "\<lambda>ix. \<lparr>rr_id = of_nat ix, rr_path = paths ! ix, rr_mtimeTicks = fst (metadata ! ix),
      rr_fsize = snd (metadata ! ix), rr_deleted = False\<rparr>"
  have len: "\<not> length paths \<noteq> length metadata"
    using assms(3) by (cases "length paths = length metadata") (simp_all add: mc_stageBatchSnapshot_def)
  have "map ?row [0..<length paths] = map row_of ?l" by (simp add: row_of_def)
  moreover have "mc_paths c' = dp_rebuildFromRows (map ?row [0..<length paths])"
    using assms(3) [symmetric] unfolding mc_stageBatchSnapshot_def if_not_P [OF len] option.inject by (rule ssubst) simp
  ultimately have paths: "mc_paths c' = dp_rebuildFromRows (map row_of ?l)" by metis
  have fst: "map fst ?l = paths" by (simp add: map_nth comp_def)
  have e: "map (fi_id \<circ> snd) ?l = map of_nat [0..<length paths]" by simp
  have "inj_on (of_nat :: nat \<Rightarrow> u32) {0..<length paths}"
    using assms(2) by (intro inj_onI) (metis atLeastLessThan_iff less_le_trans less_imp_le_nat unat_of_nat_u32)
  then have ids: "distinct (map (fi_id \<circ> snd) ?l)" unfolding e by (simp add: distinct_map)
  have d: "distinct (map fst ?l)" using assms(1) unfolding fst .
  note rb = dp_rebuild_rows [OF d ids, folded paths]
  from rb(1) show inv: "mc_invar c'" by (simp add: mc_invar_def)
  show "mc_findByPath c' (paths ! j) = Some \<lparr>dr_id = of_nat j, dr_path = paths ! j,
      dr_mtimeTicks = fst (metadata ! j), dr_size = snd (metadata ! j), dr_deleted = False\<rparr>" if "j < length paths"
  proof -
    have "map_of ?l (paths ! j) = Some (?info j)"
      using that by (intro map_of_is_SomeI d) auto
    then show ?thesis unfolding mc_findByPath_map [OF inv] rb(2) by simp
  qed
  show "mc_findByPath c' p = None" if "p \<notin> set paths"
  proof -
    have "map_of ?l p = None" unfolding map_of_eq_None_iff set_map [symmetric] fst by (rule that)
    then show ?thesis unfolding mc_findByPath_map [OF inv] rb(2) by simp
  qed
qed

section \<open>Build and installation together\<close>

lemma joined_build:
  assumes re: "bp_reach env opts fs s" and o: "0 < bo_readerThreads opts" "0 < bo_indexerThreads opts"
    and len: "length fs < 2 ^ 32" and j: "bp_joined s" and ok: "bp_fatalError s = None"
  shows "bp_fileErrors s = [] \<longleftrightarrow> (\<forall>j < length fs. job_good opts fs j)"
    and "\<forall>j < length fs. job_good opts fs j \<Longrightarrow>
      if card (all_words env fs) > 2 ^ 32 - 1 then batch_build fs s = Inl TooManyWords
      else \<exists>sn. batch_build fs s = Inr sn \<and> index_ok (snapshot_index sn) \<and>
        (\<forall>w f. count_of (snapshot_index sn) w f = batch_count env fs w f) \<and> sn_fileErrors sn = [] \<and>
        sn_indexedFiles sn = length fs \<and> length (sn_documentMetadata sn) = length fs \<and>
        (\<forall>j < length fs. view_meta (snd (fs ! j)) = Some (sn_documentMetadata sn ! j))"
proof -
  let ?n = "length fs"
  from joined_accounts [OF re o len j ok] obtain logs where
    logs: "bp_localDictionaries s = map (\<lambda>js. fold (\<lambda>j. commitDocument (job_doc env opts fs j)) js []) logs"
      "mset (concat logs) = mset (filter (job_good opts fs) [0..<?n])"
    and bad: "mset (map (unat \<circ> fst) (bp_fileErrors s)) = mset (filter (\<lambda>j. \<not> job_good opts fs j) [0..<?n])"
    and files: "bp_indexedFiles s = length (filter (job_good opts fs) [0..<?n])"
    and me: "bp_metadata fs s" "taken fs s = ?n" by blast
  have "bp_fileErrors s = [] \<longleftrightarrow> filter (\<lambda>j. \<not> job_good opts fs j) [0..<?n] = []"
    using arg_cong [OF bad, of size] by (metis length_0_conv length_map size_mset)
  then show errs: "bp_fileErrors s = [] \<longleftrightarrow> (\<forall>j < ?n. job_good opts fs j)" by (simp add: filter_empty_conv Ball_def)
  assume good: "\<forall>j < ?n. job_good opts fs j"
  have meta: "view_meta (snd (fs ! j)) = Some (bp_documentMetadata s ! j)" if "j < ?n" for j
  proof -
    have "is_reads fs j" using good that by (simp add: job_good_def)
    then obtain m where "view_meta (snd (fs ! j)) = Some m"
      by (auto simp: is_reads_def view_meta_def split: file_view.splits)
    with that me show ?thesis by (cases m) (auto simp: bp_metadata_def)
  qed
  have "length (filter (job_good opts fs) [0..<?n]) = ?n" using good by (simp add: filter_True)
  with build_merged [OF logs good len ok errs [THEN iffD2, OF good]] meta me(1) files
  show "if card (all_words env fs) > 2 ^ 32 - 1 then batch_build fs s = Inl TooManyWords
      else \<exists>sn. batch_build fs s = Inr sn \<and> index_ok (snapshot_index sn) \<and>
        (\<forall>w f. count_of (snapshot_index sn) w f = batch_count env fs w f) \<and> sn_fileErrors sn = [] \<and>
        sn_indexedFiles sn = length fs \<and> length (sn_documentMetadata sn) = length fs \<and>
        (\<forall>j < length fs. view_meta (snd (fs ! j)) = Some (sn_documentMetadata sn ! j))"
    by (cases "card (all_words env fs) > 2 ^ 32 - 1") (auto simp: bp_metadata_def)
qed

lemma install_all_or_nothing:
  assumes cat: "mc_invar catalog" and paths: "distinct (map fst fs)" and len: "length fs < 2 ^ 32"
    and meta: "length (sn_documentMetadata sn) = length fs"
    and r: "installBatchSnapshot saved checkpointed sn (map fst fs) (index, catalog) = ((index', catalog'), threw)"
  shows "if saved
    then index' = snapshot_index sn \<and> mc_invar catalog' \<and>
      (\<forall>j < length fs. mc_findByPath catalog' (fst (fs ! j)) = Some \<lparr>dr_id = of_nat j, dr_path = fst (fs ! j),
         dr_mtimeTicks = fst (sn_documentMetadata sn ! j), dr_size = snd (sn_documentMetadata sn ! j), dr_deleted = False\<rparr>) \<and>
      (\<forall>p. p \<notin> fst ` set fs \<longrightarrow> mc_findByPath catalog' p = None) \<and> (threw \<longleftrightarrow> \<not> checkpointed)
    else threw \<and> index' = index \<and> mc_paths catalog' = mc_paths catalog"
proof -
  from meta obtain c where c: "mc_stageBatchSnapshot (map fst fs) (sn_documentMetadata sn) catalog = Some c"
    by (simp add: mc_stageBatchSnapshot_def)
  have r': "((index', catalog'), threw) = (if \<not> saved then ((index, mc_rollbackStagedBatch c), True)
      else ((snapshot_index sn, mc_commitStagedBatch c), \<not> checkpointed))"
    using r c by (simp add: installBatchSnapshot_def)
  show ?thesis
  proof (cases saved)
    case False
    have "mc_rollback c = Some (mc_paths catalog)"
      using c cat by (auto simp: mc_stageBatchSnapshot_def mc_invar_def dp_copy_id split: if_splits)
    with False r' cat show ?thesis by (simp add: mc_rollbackStagedBatch_def mc_invar_def dp_copy_id)
  next
    case True
    have l: "length (map fst fs) < 2 ^ 32" using len by simp
    note sc = staged_catalog [OF paths l c]
    have com: "mc_findByPath (mc_commitStagedBatch c) = mc_findByPath c" "mc_invar (mc_commitStagedBatch c) = mc_invar c"
    proof -
      have eq: "mc_paths (mc_commitStagedBatch c) = mc_paths c" by (simp add: mc_commitStagedBatch_def)
      show "mc_findByPath (mc_commitStagedBatch c) = mc_findByPath c" "mc_invar (mc_commitStagedBatch c) = mc_invar c"
        unfolding mc_findByPath_def [abs_def] mc_invar_def eq by (rule refl)+
    qed
    have find: "mc_findByPath c (fst (fs ! j)) = Some \<lparr>dr_id = of_nat j, dr_path = fst (fs ! j),
        dr_mtimeTicks = fst (sn_documentMetadata sn ! j), dr_size = snd (sn_documentMetadata sn ! j), dr_deleted = False\<rparr>"
      if "j < length fs" for j using sc(2) [of j] that by simp
    have none: "mc_findByPath c p = None" if "p \<notin> fst ` set fs" for p using sc(3) [of p] that by simp
    have eqs: "index' = snapshot_index sn" "catalog' = mc_commitStagedBatch c" "threw \<longleftrightarrow> \<not> checkpointed"
      using r' True by simp_all
    show ?thesis unfolding eqs com using True sc(1) find none by (simp only: if_True) blast
  qed
qed

section \<open>Readable files\<close>

text \<open>A file is readable when its metadata, its opening and every attempt to read a block
  succeed; the attempt after the last full block counts, it meets the end of the file.\<close>

definition readable :: "file_view \<Rightarrow> bool" where
  "readable v = (case v of
     Reads meta bytes None \<Rightarrow> True
   | Reads meta bytes (Some k) \<Rightarrow> length bytes div kReadBlockSize < k
   | _ \<Rightarrow> False)"

lemma read_loop_error:
  assumes "0 < n"
  shows "has_error (read_loop payload f (read_blocks n bytes) k) \<longleftrightarrow>
    (case k of None \<Rightarrow> False | Some k \<Rightarrow> k \<le> length bytes div n)"
  using assms
proof (induction n bytes arbitrary: k rule: read_blocks.induct)
  case (1 n bytes)
  show ?case
  proof (cases "bytes = []")
    case True
    then show ?thesis by (simp add: read_blocks.simps read_failed_def split: option.splits)
  next
    case False
    have e: "read_blocks n bytes = (take n bytes, length bytes < n) # read_blocks n (drop n bytes)"
      using False "1.prems" by (subst read_blocks.simps) simp
    have IH: "has_error (read_loop payload f (read_blocks n (drop n bytes)) k) \<longleftrightarrow>
        (case k of None \<Rightarrow> False | Some k \<Rightarrow> k \<le> length (drop n bytes) div n)" for k
      using "1.IH" [OF _ "1.prems"] False "1.prems" by simp
    show ?thesis
    proof (cases "length bytes < n")
      case True
      then show ?thesis unfolding e by (auto simp: read_failed_def split: option.splits)
    next
      case ge: False
      then have "length bytes div n = Suc (length (drop n bytes) div n)"
        using "1.prems" by (simp add: div_if)
      with ge show ?thesis unfolding e
        by (cases k) (auto simp: read_failed_def IH)
    qed
  qed
qed

lemma job_good_iff: "job_good opts fs j \<longleftrightarrow> readable (snd (fs ! j))"
proof -
  have k: "0 < kReadBlockSize" by (simp add: kReadBlockSize_def)
  show ?thesis
    using read_loop_error [OF k, of "payloadSize opts" "of_nat j"]
    by (cases "snd (fs ! j)") (auto simp: job_good_def is_reads_def readable_def job_actions_def file_actions_def not_le split: option.splits)
qed

section \<open>The index of incremental updates\<close>

text \<open>What the incremental strategy does with the same files: one batch of counters per file, in
  the order of the ids.\<close>

definition incremental :: "tok_env \<Rightarrow> (wstring \<times> file_view) list \<Rightarrow> nat \<Rightarrow> inverted_index" where
  "incremental env fs n =
     fold (\<lambda>j. commit_batch \<lparr>pb_fileId = of_nat j,
         pb_list = map (\<lambda>(w, n). (w, of_nat n)) (freqWordFile (job_words env fs j))\<rparr>) [0..<n] ii_empty"

lemma commit_batch_growth:
  assumes "ii_base s" and "distinct (map fst (pb_list b))"
    and "wid_size (ii_wordIds s) + length (pb_list b) \<le> 2 ^ 32"
  shows "wid_size (ii_wordIds (commit_batch b s)) \<le> wid_size (ii_wordIds s) + length (pb_list b)"
proof (cases "pb_list b = []")
  case True
  then show ?thesis by (simp add: commit_batch_def split: prod.splits)
next
  case False
  from commit_batch_parts [OF assms False] obtain r where
    "batch_inv (ii_wordIds s) (ii_wordRefs s) (pb_fileId b) (pb_list b) r"
    "commit_batch b s = s\<lparr>ii_wordIds := bs_wordIds r, ii_wordRefs := bs_refs r,
      ii_chunks := commitChunkMap (fold (group_task (pb_fileId b)) (bs_widMap r) []) (ii_chunks s)\<rparr>" .
  then show ?thesis by (simp add: batch_inv_def)
qed

lemma incremental_counts:
  assumes "(\<Sum>j<n. length (freqWordFile (job_words env fs j))) \<le> 2 ^ 32" and "n \<le> 2 ^ 32"
  shows "ii_invar (incremental env fs n) \<and>
    wid_size (ii_wordIds (incremental env fs n)) \<le> (\<Sum>j<n. length (freqWordFile (job_words env fs j))) \<and>
    (\<forall>w f. count_of (incremental env fs n) w f =
      (if unat f < n \<and> w \<in> set (job_words env fs (unat f))
       then Some (of_nat (count_list (job_words env fs (unat f)) w)) else None))"
  using assms
proof (induction n)
  case 0
  have "count_of ii_empty w f = None" for w f
    by (simp add: count_of_def getWordCount_def ii_empty_def wid_empty_def getPostingCopyByWord_def wid_tryGet_def pl_find_map)
  then show ?case using ii_invar_empty by (simp add: incremental_def) (simp add: ii_empty_def wid_empty_def wid_size_def)
next
  case (Suc n)
  let ?fr = "freqWordFile (job_words env fs n)"
  let ?b = "\<lparr>pb_fileId = of_nat n :: u32, pb_list = map (\<lambda>(w, n). (w, of_nat n :: u32)) ?fr\<rparr>"
  let ?s = "incremental env fs n"
  have step: "incremental env fs (Suc n) = commit_batch ?b ?s" by (simp add: incremental_def)
  from Suc have IH: "ii_invar ?s" "wid_size (ii_wordIds ?s) \<le> (\<Sum>j<n. length (freqWordFile (job_words env fs j)))"
    "\<And>w f. count_of ?s w f = (if unat f < n \<and> w \<in> set (job_words env fs (unat f))
       then Some (of_nat (count_list (job_words env fs (unat f)) w)) else None)" by simp_all
  have b: "distinct (map fst (pb_list ?b))" using um_ok_freq [of "job_words env fs n"]
    by (simp add: um_ok_def comp_def case_prod_beta)
  have room: "wid_size (ii_wordIds ?s) + length (pb_list ?b) \<le> 2 ^ 32" using IH(2) Suc.prems(1) by simp
  have base: "ii_base ?s" using IH(1) by (simp add: ii_invar_def)
  have find: "map_of (pb_list ?b) w = (if w \<in> set (job_words env fs n) then Some (of_nat (count_list (job_words env fs n) w)) else None)" for w
    using freq_find [of "job_words env fs n" w] by (simp add: map_of_map um_find_def)
  have id: "unat f < Suc n \<longleftrightarrow> unat f < n \<or> f = of_nat n" for f :: u32
    using Suc.prems(2) unat_of_nat_u32 [of n] by (auto simp: less_Suc_eq)
  have new: "\<not> unat (of_nat n :: u32) < n" and un: "unat (of_nat n :: u32) = n" using Suc.prems(2) unat_of_nat_u32 [of n] by auto
  have c: "cnt_plus_opt None (of_nat k) = of_nat k" for k
    by (simp add: cnt_plus_opt_def cnt_plus_def word_unat_eq_iff unat_of_nat unsigned_ucast_eq take_bit_eq_mod mod_mod_cancel)
  have "count_of (incremental env fs (Suc n)) w f = (if unat f < Suc n \<and> w \<in> set (job_words env fs (unat f))
       then Some (of_nat (count_list (job_words env fs (unat f)) w)) else None)" for w f
    unfolding step commit_batch_counts(2) [OF base b room] find IH(3) id
    by (cases "f = of_nat n") (auto simp: un new c)
  moreover have "ii_invar (incremental env fs (Suc n))" unfolding step by (rule commit_batch_refs [OF IH(1) b room])
  moreover have "wid_size (ii_wordIds (incremental env fs (Suc n))) \<le> (\<Sum>j<Suc n. length (freqWordFile (job_words env fs j)))"
    unfolding step using commit_batch_growth [OF base b room] IH(2) by simp
  ultimately show ?case by blast
qed

section \<open>Properties\<close>


lemma demo_readable: "\<forall>j < length demo_files. readable (snd (demo_files ! j))"
  by (simp add: demo_files_def readable_def)

lemma demo_words: "job_words demo_env demo_files 0 = [''ALPHA'', ''B'', ''ALPHA'']"
proof -
  have "read_blocks BUF_SIZE ''ALPHA B ALPHA'' = [(''ALPHA B ALPHA'', True)]"
    by (simp add: read_blocks.simps BUF_SIZE_def)
  moreover have "fst (tokenize_blocks False (\<lambda>c. c = CHR 0x2E) [(''ALPHA B ALPHA'', True)] []) = [''ALPHA'', ''B'', ''ALPHA'']"
    by code_simp
  moreover have "filter (\<lambda>w. w \<noteq> []) (map (normalizeToken id (CHR 0x80) (\<lambda>c. c = CHR 0x2E)) [''ALPHA'', ''B'', ''ALPHA'']) =
      [''ALPHA'', ''B'', ''ALPHA'']" by code_simp
  ultimately show ?thesis by (simp add: job_words_def demo_files_def demo_env_def file_words_def file_tokens_def)
qed

lemma demo_all_words: "all_words demo_env demo_files = {''ALPHA'', ''B''}"
proof -
  have "{..<length demo_files} = {0}" by (auto simp: demo_files_def)
  then show ?thesis by (auto simp: all_words_def demo_words)
qed


text \<open>When no thread failed, a full rebuild reports exactly the files that could not be read, each
  of them once and under its own path, and counts the others as indexed; one such file is
  enough for the snapshot not to be published: the caller gets an exception and neither the
  index nor the catalog change.\<close>

theorem failed_files_reported:
  assumes "bp_reach env (BatchIndexBuilder detected o0) fs s" and "length fs < 2 ^ 32" and "bp_joined s"
    and "bp_fatalError s = None"
  shows "mset (map (\<lambda>(f, p, m). (unat f, p)) (bp_fileErrors s)) =
      mset (map (\<lambda>j. (j, fst (fs ! j))) (filter (\<lambda>j. \<not> readable (snd (fs ! j))) [0..<length fs])) \<and>
    bp_indexedFiles s = length (filter (\<lambda>v. readable (snd v)) fs) \<and>
    ((\<exists>v \<in> snd ` set fs. \<not> readable v) \<longrightarrow>
       updateDocumentBaseBatch False saved checkpointed fs s st = (st, True))"
proof -
  note ja = joined_accounts [OF assms(1) builder_pos assms(2-4), unfolded job_good_iff]
  note jb = joined_build [OF assms(1) builder_pos assms(2-4), unfolded job_good_iff]
  have "\<forall>(f, p, m) \<in> set (bp_fileErrors s). p = fst (fs ! unat f)" using ja by (simp add: bp_reports_def)
  then have "map (\<lambda>(f, p, m). (unat f, p)) (bp_fileErrors s) =
      map (\<lambda>j. (j, fst (fs ! j))) (map (unat \<circ> fst) (bp_fileErrors s))" by (auto simp: case_prod_beta)
  moreover have "mset (map (unat \<circ> fst) (bp_fileErrors s)) = mset (filter (\<lambda>j. \<not> readable (snd (fs ! j))) [0..<length fs])"
    using ja by blast
  ultimately have "mset (map (\<lambda>(f, p, m). (unat f, p)) (bp_fileErrors s)) =
      mset (map (\<lambda>j. (j, fst (fs ! j))) (filter (\<lambda>j. \<not> readable (snd (fs ! j))) [0..<length fs]))"
    by (metis mset_map)
  moreover have "length (filter (\<lambda>v. readable (snd v)) fs) = length (filter (\<lambda>j. readable (snd (fs ! j))) [0..<length fs])"
    using arg_cong [OF filter_map [of "\<lambda>v. readable (snd v)" "\<lambda>j. fs ! j" "[0..<length fs]"], of length]
    by (simp add: map_nth comp_def)
  moreover have "updateDocumentBaseBatch False saved checkpointed fs s st = (st, True)" if "\<exists>v \<in> snd ` set fs. \<not> readable v"
  proof -
    from that obtain j where "j < length fs" "\<not> readable (snd (fs ! j))" by (auto simp: in_set_conv_nth)
    with jb(1) assms(2,4) have "batch_build fs s = Inr (collected s)" "sn_fileErrors (collected s) \<noteq> []"
      by (auto simp: batch_build_def collected_def)
    then show ?thesis by (simp add: updateDocumentBaseBatch_def)
  qed
  ultimately show ?thesis using ja by simp
qed

lemma failed_files_reported_witness:
  "\<exists>s. bp_joined s \<and> mset (map (\<lambda>(f, p, m). (unat f, p)) (bp_fileErrors s)) = {#(0, [66 :: 16 word])#} \<and>
     updateDocumentBaseBatch False True True [([66], OpenFails (3, 4))] s (ii_empty, mc_empty) = ((ii_empty, mc_empty), True)"
proof -
  let ?fs = "[([66 :: 16 word], OpenFails (3, 4))]"
  have len: "length ?fs < 2 ^ 32" by simp
  obtain s where s: "bp_reach demo_env demo_options ?fs s" "bp_joined s" "bp_fatalError s = None"
    unfolding demo_options_def using joined_example [OF len, of demo_env 4] by blast
  have "filter (\<lambda>j. \<not> readable (snd (?fs ! j))) [0..<length ?fs] = [0]" by (simp add: readable_def)
  moreover have "\<exists>v \<in> snd ` set ?fs. \<not> readable v" by (simp add: readable_def)
  moreover note failed_files_reported [OF s(1) [unfolded demo_options_def] len s(2,3), of True True "(ii_empty, mc_empty)"]
  ultimately show ?thesis using s(2) by (intro exI [of _ s]) (simp only: list.map mset.simps, simp)
qed



end
