(* ===== verification/CommandResult.thy ===== *)
theory CommandResult
  imports SE_Prelude
begin

text \<open>
  The outcome of a command (\<open>src/src/Commands/CommandResult.h\<close>): an error code with its number on
  the wire, or a payload. The diagnostic goes to the server's log only and is left out.
\<close>

datatype error_code =
    PayloadTooLarge | InvalidCommand | CommandNotRegistered | ServerBusy | ServerStopping
  | InvalidRequest | InvalidJson | InvalidBinaryPayload | FileNotFound | FileMetadataFailed
  | FileOpenFailed | FileReadFailed | FileWriteFailed | DirectoryCreateFailed | ConfigurationError
  | DatabaseOpenFailed | DatabaseBusy | DatabaseQueryFailed | DatabaseSchemaFailed | SerializationFailed
  | IndexUnavailable | IndexDataInconsistent | IndexUpdateInProgress | IndexUpdateFailed | OperatorNotRegistered
  | AttachmentNotFound | MessageNotFound | MessageSaveFailed | MessageReadFailed | ResponseQueueFull
  | CommandExecutionFailed | InternalError | AuthFailed | AuthClientDisabled | AuthRequired
  | AuthClientIdMissing | AuthClientNameMissing | AuthDeviceTypeMissing | AuthDeviceIdMissing | AuthSignatureMissing
  | AuthClientIdNotFound | AuthClientNameMismatch | AuthDeviceTypeMismatch | AuthDeviceIdMismatch
  | AuthSignatureInvalid | DataSourceDisabled | DataSourceUnavailable | ArchiveAdminRequired

definition all_error_codes :: "error_code list" where
  "all_error_codes = [PayloadTooLarge, InvalidCommand, CommandNotRegistered, ServerBusy, ServerStopping,
     InvalidRequest, InvalidJson, InvalidBinaryPayload, FileNotFound, FileMetadataFailed,
     FileOpenFailed, FileReadFailed, FileWriteFailed, DirectoryCreateFailed, ConfigurationError,
     DatabaseOpenFailed, DatabaseBusy, DatabaseQueryFailed, DatabaseSchemaFailed, SerializationFailed,
     IndexUnavailable, IndexDataInconsistent, IndexUpdateInProgress, IndexUpdateFailed, OperatorNotRegistered,
     AttachmentNotFound, MessageNotFound, MessageSaveFailed, MessageReadFailed, ResponseQueueFull,
     CommandExecutionFailed, InternalError, AuthFailed, AuthClientDisabled, AuthRequired,
     AuthClientIdMissing, AuthClientNameMissing, AuthDeviceTypeMissing, AuthDeviceIdMissing, AuthSignatureMissing,
     AuthClientIdNotFound, AuthClientNameMismatch, AuthDeviceTypeMismatch, AuthDeviceIdMismatch,
     AuthSignatureInvalid, DataSourceDisabled, DataSourceUnavailable, ArchiveAdminRequired]"

text \<open>The codes are numbered from 1 in the order of their declaration.\<close>

fun position :: "'a \<Rightarrow> 'a list \<Rightarrow> nat" where
  "position x [] = 0"
| "position x (y # ys) = (if x = y then 0 else Suc (position x ys))"

definition error_value :: "error_code \<Rightarrow> u32" where
  "error_value e = of_nat (position e all_error_codes + 1)"

text \<open>The names of the codes in the log.\<close>

primrec toString :: "error_code \<Rightarrow> string" where
  "toString PayloadTooLarge = ''PayloadTooLarge''"
| "toString InvalidCommand = ''InvalidCommand''"
| "toString CommandNotRegistered = ''CommandNotRegistered''"
| "toString ServerBusy = ''ServerBusy''"
| "toString ServerStopping = ''ServerStopping''"
| "toString InvalidRequest = ''InvalidRequest''"
| "toString InvalidJson = ''InvalidJson''"
| "toString InvalidBinaryPayload = ''InvalidBinaryPayload''"
| "toString FileNotFound = ''FileNotFound''"
| "toString FileMetadataFailed = ''FileMetadataFailed''"
| "toString FileOpenFailed = ''FileOpenFailed''"
| "toString FileReadFailed = ''FileReadFailed''"
| "toString FileWriteFailed = ''FileWriteFailed''"
| "toString DirectoryCreateFailed = ''DirectoryCreateFailed''"
| "toString ConfigurationError = ''ConfigurationError''"
| "toString DatabaseOpenFailed = ''DatabaseOpenFailed''"
| "toString DatabaseBusy = ''DatabaseBusy''"
| "toString DatabaseQueryFailed = ''DatabaseQueryFailed''"
| "toString DatabaseSchemaFailed = ''DatabaseSchemaFailed''"
| "toString SerializationFailed = ''SerializationFailed''"
| "toString IndexUnavailable = ''IndexUnavailable''"
| "toString IndexDataInconsistent = ''IndexDataInconsistent''"
| "toString IndexUpdateInProgress = ''IndexUpdateInProgress''"
| "toString IndexUpdateFailed = ''IndexUpdateFailed''"
| "toString OperatorNotRegistered = ''OperatorNotRegistered''"
| "toString AttachmentNotFound = ''AttachmentNotFound''"
| "toString MessageNotFound = ''MessageNotFound''"
| "toString MessageSaveFailed = ''MessageSaveFailed''"
| "toString MessageReadFailed = ''MessageReadFailed''"
| "toString ResponseQueueFull = ''ResponseQueueFull''"
| "toString CommandExecutionFailed = ''CommandExecutionFailed''"
| "toString InternalError = ''InternalError''"
| "toString AuthFailed = ''AuthFailed''"
| "toString AuthClientDisabled = ''AuthClientDisabled''"
| "toString AuthRequired = ''AuthRequired''"
| "toString AuthClientIdMissing = ''AuthClientIdMissing''"
| "toString AuthClientNameMissing = ''AuthClientNameMissing''"
| "toString AuthDeviceTypeMissing = ''AuthDeviceTypeMissing''"
| "toString AuthDeviceIdMissing = ''AuthDeviceIdMissing''"
| "toString AuthSignatureMissing = ''AuthSignatureMissing''"
| "toString AuthClientIdNotFound = ''AuthClientIdNotFound''"
| "toString AuthClientNameMismatch = ''AuthClientNameMismatch''"
| "toString AuthDeviceTypeMismatch = ''AuthDeviceTypeMismatch''"
| "toString AuthDeviceIdMismatch = ''AuthDeviceIdMismatch''"
| "toString AuthSignatureInvalid = ''AuthSignatureInvalid''"
| "toString DataSourceDisabled = ''DataSourceDisabled''"
| "toString DataSourceUnavailable = ''DataSourceUnavailable''"
| "toString ArchiveAdminRequired = ''ArchiveAdminRequired''"

text \<open>\<open>Inl\<close> a failure, \<open>Inr\<close> the payload of a success.\<close>

type_synonym 'a command_result = "error_code + 'a"

lemma error_listed: "e \<in> set all_error_codes"
  by (cases e) (simp_all add: all_error_codes_def)

lemma position_nth: "x \<in> set xs \<Longrightarrow> position x xs < length xs \<and> xs ! position x xs = x"
  by (induction xs) auto

lemma error_value_inj: "error_value a = error_value b \<Longrightarrow> a = b"
proof -
  assume eq: "error_value a = error_value b"
  have l: "length all_error_codes = 48" by (simp add: all_error_codes_def)
  have p: "position e all_error_codes < 48 \<and> all_error_codes ! position e all_error_codes = e" for e
    using position_nth [OF error_listed, of e] l by simp
  have v: "unat (error_value e) = position e all_error_codes + 1" for e
    unfolding error_value_def using p [of e] by (intro unat_of_nat_u32) simp
  have "position a all_error_codes = position b all_error_codes" using v [of a] v [of b] eq by simp
  then show "a = b" using p by metis
qed

end
