(* ===== verification/Protocol.thy ===== *)
theory Protocol
  imports CommandResult
begin

text \<open>
  The wire protocol of the server (\<open>src/src/AsioServer/AsioServer.h\<close>): the numbers of the
  commands, the 16-byte header, the two forms of an error, and the decisions that do not
  depend on a connection: which commands are requests, which may come before the
  authentication, who may be the administrator, and what an archive refuses.

  A command is whatever 64-bit number arrives; \<open>value_of\<close> gives the numbers of the enumerators.
\<close>

section \<open>Commands\<close>

datatype command =
    SOMEERROR | SOLOREQUEST | FILETEXT | JSONREGUEST | ADDRESOLUTION | UPDATE | GETRESOLUTIONS | GETRESOLUTION
  | GETDOCS | GETDOC | GETSQLJSONANSWEAR | GETBINFILE | GET_VH_TELEGI_FROM_SQL | GET_ISH_TELEGI_FROM_SQL
  | START_UPDATE_BASE | LOAD_TLG_TO_SEND | GET_MESSAGE | USER_REGISTRY | PING | GET_VH_TELEGA_WAY
  | GET_ISH_TELEGA_WAY | GET_OPIS_BASE | LOAD_RAZN | GET_ATTACHMENTS | GET_ISH_PDTV | GET_TELEGA_ATACHMENTS
  | GET_SINGLE_ATACHMENT | SERVER_BUSY_ERROR | END_COMMAND
  | ERROR_RESPONSE | NEGOTIATE_PROTOCOL_V1 | AUTHENTICATE_V1 | GET_TELEGA_TEXT | GET_ISH_PDTV_TEXT
  | UPLOAD_TLG_TO_SEND_V1 | UPLOAD_RAZN_V1 | SAVE_MESSAGE_TO

primrec value_of :: "command \<Rightarrow> u64" where
  "value_of SOMEERROR = 0"
| "value_of SOLOREQUEST = 1"
| "value_of FILETEXT = 2"
| "value_of JSONREGUEST = 3"
| "value_of ADDRESOLUTION = 4"
| "value_of UPDATE = 5"
| "value_of GETRESOLUTIONS = 6"
| "value_of GETRESOLUTION = 7"
| "value_of GETDOCS = 8"
| "value_of GETDOC = 9"
| "value_of GETSQLJSONANSWEAR = 10"
| "value_of GETBINFILE = 11"
| "value_of GET_VH_TELEGI_FROM_SQL = 12"
| "value_of GET_ISH_TELEGI_FROM_SQL = 13"
| "value_of START_UPDATE_BASE = 14"
| "value_of LOAD_TLG_TO_SEND = 15"
| "value_of GET_MESSAGE = 16"
| "value_of USER_REGISTRY = 17"
| "value_of PING = 18"
| "value_of GET_VH_TELEGA_WAY = 19"
| "value_of GET_ISH_TELEGA_WAY = 20"
| "value_of GET_OPIS_BASE = 21"
| "value_of LOAD_RAZN = 22"
| "value_of GET_ATTACHMENTS = 23"
| "value_of GET_ISH_PDTV = 24"
| "value_of GET_TELEGA_ATACHMENTS = 25"
| "value_of GET_SINGLE_ATACHMENT = 26"
| "value_of SERVER_BUSY_ERROR = 27"
| "value_of END_COMMAND = 28"
| "value_of ERROR_RESPONSE = 29"
| "value_of NEGOTIATE_PROTOCOL_V1 = 30"
| "value_of AUTHENTICATE_V1 = 31"
| "value_of GET_TELEGA_TEXT = 32"
| "value_of GET_ISH_PDTV_TEXT = 33"
| "value_of UPLOAD_TLG_TO_SEND_V1 = 34"
| "value_of UPLOAD_RAZN_V1 = 35"
| "value_of SAVE_MESSAGE_TO = 2781032419"

definition request_commands :: "command list" where
  "request_commands = [SOLOREQUEST, FILETEXT, GETSQLJSONANSWEAR, GETBINFILE, GET_VH_TELEGI_FROM_SQL,
     GET_ISH_TELEGI_FROM_SQL, START_UPDATE_BASE, LOAD_TLG_TO_SEND, USER_REGISTRY, PING, GET_VH_TELEGA_WAY,
     GET_ISH_TELEGA_WAY, GET_OPIS_BASE, LOAD_RAZN, GET_ATTACHMENTS, GET_ISH_PDTV, GET_TELEGA_ATACHMENTS,
     GET_SINGLE_ATACHMENT, GET_TELEGA_TEXT, GET_ISH_PDTV_TEXT, UPLOAD_TLG_TO_SEND_V1, UPLOAD_RAZN_V1,
     NEGOTIATE_PROTOCOL_V1, AUTHENTICATE_V1]"

definition isRequestCommand :: "u64 \<Rightarrow> bool" where
  "isRequestCommand c \<longleftrightarrow> c \<in> set (map value_of request_commands)"

text \<open>The normalized command, when the raw one is a disabled message command.\<close>

definition isDisabledLegacyMessageWireCommand :: "u64 \<Rightarrow> u64 option" where
  "isDisabledLegacyMessageWireCommand raw =
     (if raw = value_of GET_MESSAGE then Some (value_of GET_MESSAGE)
      else if raw = value_of SAVE_MESSAGE_TO then Some (value_of SAVE_MESSAGE_TO)
      else if drop_bit 32 raw = value_of SAVE_MESSAGE_TO then Some (value_of SAVE_MESSAGE_TO)
      else None)"

definition isStreamingUploadCommand :: "u64 \<Rightarrow> bool" where
  "isStreamingUploadCommand c \<longleftrightarrow> c = value_of UPLOAD_TLG_TO_SEND_V1 \<or> c = value_of UPLOAD_RAZN_V1"

definition isSessionBootstrapCommand :: "u64 \<Rightarrow> bool" where
  "isSessionBootstrapCommand c \<longleftrightarrow>
     c \<in> set (map value_of [NEGOTIATE_PROTOCOL_V1, USER_REGISTRY, AUTHENTICATE_V1, PING])"

section \<open>The gates\<close>

datatype peer_address = V4 u32 | V6 "u8 list"

definition loopback :: u32 where "loopback = 0x7F000001"

definition isLegacyAdminUserRegistryPayload :: "string \<Rightarrow> bool" where
  "isLegacyAdminUserRegistryPayload payload \<longleftrightarrow> payload = ''admin''"

definition isLegacyAdminPeerAddress :: "peer_address \<Rightarrow> bool" where
  "isLegacyAdminPeerAddress a = (case a of V4 w \<Rightarrow> w = loopback | V6 _ \<Rightarrow> False)"

text \<open>\<open>None\<close>: the lookup of the remote address failed.\<close>

definition isLocalAdminPeer :: "peer_address option \<Rightarrow> bool" where
  "isLocalAdminPeer remote = (case remote of None \<Rightarrow> False | Some a \<Rightarrow> isLegacyAdminPeerAddress a)"

definition mayAuthorizeLegacyAdmin :: "string \<Rightarrow> bool \<Rightarrow> peer_address \<Rightarrow> bool" where
  "mayAuthorizeLegacyAdmin payload peerLookupSucceeded remote_peer \<longleftrightarrow>
     isLegacyAdminUserRegistryPayload payload \<and> peerLookupSucceeded \<and> isLegacyAdminPeerAddress remote_peer"

record gate_decision =
  allow_execute :: bool
  close_after_auth_required :: bool

definition evaluateSessionCommandGate :: "u64 \<Rightarrow> bool \<Rightarrow> gate_decision" where
  "evaluateSessionCommandGate c authenticated =
     (if isSessionBootstrapCommand c \<or> authenticated then \<lparr>allow_execute = True, close_after_auth_required = True\<rparr>
      else \<lparr>allow_execute = False, close_after_auth_required = True\<rparr>)"

definition archiveCommandRejection :: "u64 \<Rightarrow> bool \<Rightarrow> bool \<Rightarrow> error_code option" where
  "archiveCommandRejection c archiveMode adminSession =
     (if archiveMode \<and> c = value_of START_UPDATE_BASE \<and> \<not> adminSession then Some ArchiveAdminRequired else None)"

section \<open>Headers and errors on the wire\<close>

record header =
  h_size :: u64
  h_command :: u64

text \<open>The memory of an integer of \<open>n\<close> bytes, least significant byte first.\<close>

definition le_bytes :: "nat \<Rightarrow> u64 \<Rightarrow> u8 list" where
  "le_bytes n w = map (\<lambda>k. ucast (drop_bit (8 * k) w)) [0..<n]"

definition le_value :: "u8 list \<Rightarrow> u64" where
  "le_value bs = foldr (\<lambda>b acc. push_bit 8 acc OR ucast b) bs 0"

definition header_bytes :: "header \<Rightarrow> u8 list" where
  "header_bytes h = le_bytes 8 (h_size h) @ le_bytes 8 (h_command h)"

definition header_of :: "u8 list \<Rightarrow> header" where
  "header_of bs = \<lparr>h_size = le_value (take 8 bs), h_command = le_value (take 8 (drop 8 bs))\<rparr>"

definition ERROR_RESPONSE_VERSION :: u32 where "ERROR_RESPONSE_VERSION = 1"

definition CAPABILITY_TYPED_ERRORS_V1 :: u32 where "CAPABILITY_TYPED_ERRORS_V1 = push_bit 0 1"

definition CAPABILITY_CLIENT_AUTH_V1 :: u32 where "CAPABILITY_CLIENT_AUTH_V1 = push_bit 1 1"

definition makeTypedErrorResponse :: "error_code \<Rightarrow> u8 list" where
  "makeTypedErrorResponse e = le_bytes 4 (ucast ERROR_RESPONSE_VERSION) @ le_bytes 4 (ucast (error_value e))"

definition protocol_capabilities :: "u8 list" where
  "protocol_capabilities = le_bytes 4 1 @ le_bytes 4 (ucast (CAPABILITY_TYPED_ERRORS_V1 OR CAPABILITY_CLIENT_AUTH_V1))"

definition legacyErrorCommand :: "error_code \<Rightarrow> u64" where
  "legacyErrorCommand e = (if e = ServerBusy then value_of SERVER_BUSY_ERROR else value_of SOMEERROR)"

definition makeLegacyErrorHeader :: "error_code \<Rightarrow> header" where
  "makeLegacyErrorHeader e = \<lparr>h_size = 0, h_command = legacyErrorCommand e\<rparr>"

text \<open>What \<open>queueError\<close> sends: the header and the payload.\<close>

definition error_frame :: "bool \<Rightarrow> error_code \<Rightarrow> header \<times> u8 list" where
  "error_frame typedResponse e =
     (if typedResponse
      then (\<lparr>h_size = 8, h_command = value_of ERROR_RESPONSE\<rparr>, makeTypedErrorResponse e)
      else (makeLegacyErrorHeader e, []))"

definition trustCommand :: "header \<Rightarrow> bool" where
  "trustCommand h =
     (if h_command h = value_of NEGOTIATE_PROTOCOL_V1 then h_size h = 0
      else isRequestCommand (h_command h))"

section \<open>Lemmas\<close>

lemma length_le_bytes [simp]: "length (le_bytes n w) = n"
  by (simp add: le_bytes_def)

lemma length_header_bytes [simp]: "length (header_bytes h) = 16"
  by (simp add: header_bytes_def)

lemma bit_le_value: "bit (le_value bs) n \<longleftrightarrow> n < 64 \<and> n div 8 < length bs \<and> bit (bs ! (n div 8)) (n mod 8)"
proof (induction bs arbitrary: n)
  case Nil
  then show ?case by (simp add: le_value_def)
next
  case (Cons b bs)
  have step: "le_value (b # bs) = push_bit 8 (le_value bs) OR ucast b" by (simp add: le_value_def)
  show ?case
  proof (cases "n < 8")
    case True
    then show ?thesis unfolding step by (simp add: bit_simps)
  next
    case False
    then obtain m where m: "n = m + 8" by (metis add.commute le_add_diff_inverse not_less)
    have "\<not> bit b n" using False bit_imp_le_length [of b n] by auto
    moreover have "n div 8 = Suc (m div 8)" "n mod 8 = m mod 8" using m by simp_all
    ultimately show ?thesis unfolding step using Cons.IH [of m] m by (auto simp: bit_simps)
  qed
qed

lemma bit_le_bytes: "k < n \<Longrightarrow> bit (le_bytes n w ! k) j \<longleftrightarrow> j < 8 \<and> bit w (8 * k + j)"
  by (simp add: le_bytes_def bit_simps)

lemma le_value_bytes: "n \<le> 8 \<Longrightarrow> le_value (le_bytes n w) = take_bit (8 * n) w"
proof (rule bit_word_eqI)
  fix i
  assume "n \<le> 8" and "i < LENGTH(64)"
  then show "bit (le_value (le_bytes n w)) i = bit (take_bit (8 * n) w) i"
    by (auto simp: bit_le_value bit_le_bytes bit_take_bit_iff)
qed

lemma le_value_8 [simp]: "le_value (le_bytes 8 w) = w"
proof -
  have "take_bit 64 w = w" by (rule bit_word_eqI) (simp add: bit_take_bit_iff)
  then show ?thesis using le_value_bytes [of 8 w] by simp
qed

lemma header_of_bytes [simp]: "header_of (header_bytes h @ rest) = h"
  by (simp add: header_of_def header_bytes_def)

lemma value_of_inj [simp]: "value_of a = value_of b \<longleftrightarrow> a = b"
  by (cases a; cases b) simp_all

lemma trust_streaming: "isStreamingUploadCommand (h_command h) \<Longrightarrow> trustCommand h"
  by (auto simp: isStreamingUploadCommand_def trustCommand_def isRequestCommand_def request_commands_def)

lemma bootstrap_trusted: "isSessionBootstrapCommand c \<Longrightarrow> isRequestCommand c"
  by (auto simp: isSessionBootstrapCommand_def isRequestCommand_def request_commands_def)

lemma ucast_u32_u64: "(ucast (ucast w :: u64) :: u32) = w"
  by (rule bit_word_eqI) (simp add: bit_simps)

section \<open>Properties\<close>

text \<open>Framing on the wire. The header the server reads is the header that was sent, whatever
  follows it; the two forms of an error announce exactly the payload they carry; a typed
  error names its code, so two different errors never look alike, while the legacy form only
  tells a busy server from every other error.\<close>

theorem wire_forms:
  "header_of (header_bytes h @ rest) = h \<and>
   unat (h_size (fst (error_frame typed e))) = length (snd (error_frame typed e)) \<and>
   (error_frame True e = error_frame True e' \<longleftrightarrow> e = e') \<and>
   (error_frame False e = error_frame False e' \<longleftrightarrow> (e = ServerBusy \<longleftrightarrow> e' = ServerBusy)) \<and>
   error_frame True e \<noteq> error_frame False e'"
proof -
  have code: "le_value (le_bytes 4 (ucast (error_value e))) = ucast (error_value e)" for e
  proof -
    have "take_bit 32 (ucast (error_value e) :: u64) = ucast (error_value e)"
      by (rule bit_word_eqI) (auto simp: bit_simps dest: bit_imp_le_length)
    then show ?thesis using le_value_bytes [of 4 "ucast (error_value e)"] by simp
  qed
  have "e = e'" if "error_frame True e = error_frame True e'"
  proof -
    have "le_bytes 4 (ucast (error_value e)) = le_bytes 4 (ucast (error_value e'))"
      using that by (simp add: error_frame_def makeTypedErrorResponse_def)
    then have "(ucast (error_value e) :: u64) = ucast (error_value e')" using code by metis
    then have "error_value e = error_value e'"
      using ucast_u32_u64 by metis
    then show ?thesis by (rule error_value_inj)
  qed
  then show ?thesis
    by (auto simp: error_frame_def makeLegacyErrorHeader_def legacyErrorCommand_def makeTypedErrorResponse_def)
qed

text \<open>The classes of commands. No two enumerators share a number; a command that may come
  before the authentication is a request; a disabled message command is neither a request
  nor an upload nor allowed before the authentication, so it is never executed; and an upload
  always passes the check of the command.\<close>

theorem command_classes:
  "(value_of a = value_of b \<longleftrightarrow> a = b) \<and>
   (isSessionBootstrapCommand c \<longrightarrow> isRequestCommand c) \<and>
   (isDisabledLegacyMessageWireCommand c \<noteq> None \<longrightarrow>
      \<not> isRequestCommand c \<and> \<not> isStreamingUploadCommand c \<and> \<not> isSessionBootstrapCommand c) \<and>
   (isStreamingUploadCommand (h_command h) \<longrightarrow> trustCommand h \<and> \<not> isSessionBootstrapCommand (h_command h))"
proof -
  have "\<not> isRequestCommand c" if l: "isDisabledLegacyMessageWireCommand c \<noteq> None"
  proof
    assume "isRequestCommand c"
    then obtain k where k: "k \<in> set request_commands" "c = value_of k" by (auto simp: isRequestCommand_def)
    with l show False
      by (auto simp: request_commands_def isDisabledLegacyMessageWireCommand_def split: if_splits)
  qed
  moreover have "isRequestCommand c" if "isStreamingUploadCommand c"
    using that by (auto simp: isStreamingUploadCommand_def isRequestCommand_def request_commands_def)
  moreover have "\<not> isSessionBootstrapCommand c" if "isStreamingUploadCommand c" for c
    using that by (auto simp: isStreamingUploadCommand_def isSessionBootstrapCommand_def)
  ultimately show ?thesis using trust_streaming bootstrap_trusted by auto
qed

lemma command_classes_witness:
  "\<not> isRequestCommand 16 \<and> isRequestCommand 18 \<and> trustCommand \<lparr>h_size = 5, h_command = 35\<rparr> \<and> value_of PING \<noteq> value_of GETDOC"
  using command_classes [of PING GETDOC 16 "\<lparr>h_size = 5, h_command = 35\<rparr>"] command_classes [of PING PING 18 "\<lparr>h_size = 5, h_command = 35\<rparr>"]
  by (simp add: isDisabledLegacyMessageWireCommand_def isStreamingUploadCommand_def isSessionBootstrapCommand_def)

end
