(* ===== verification/Base64.thy ===== *)
theory Base64
  imports SE_Prelude
begin

text \<open>
  Base64 as the token tools and the server use it: \<open>Base64Encode\<close> and \<open>Base64Decode\<close> of
  \<open>src/tools/token_issuer/CryptoStub.cpp\<close>, which write and check a token's signature, and the
  decoder of \<open>src/src/Auth/RsaIdentitySignatureVerifier.cpp\<close>, which the server applies to the
  signature a client presents. The two decoders differ in what they do with a character that
  is neither in the alphabet nor a separator.
\<close>

unbundle bit_operations_syntax

section \<open>Encoding\<close>

definition kB64 :: string where
  "kB64 = ''ABCDEFGHIJKLMNOPQRSTUVWXYZabcdefghijklmnopqrstuvwxyz0123456789+/''"

text \<open>\<open>static_cast<unsigned>(static_cast<unsigned char>(c))\<close>\<close>

definition uchar :: "char \<Rightarrow> u32" where
  "uchar c = of_nat (of_char c)"

definition b64_digit :: "u32 \<Rightarrow> nat \<Rightarrow> char" where
  "b64_digit triple n = kB64 ! unat (drop_bit n triple AND 63)"

fun Base64Encode :: "string \<Rightarrow> string" where
  "Base64Encode (a # b # c # rest) =
     (let triple = push_bit 16 (uchar a) OR push_bit 8 (uchar b) OR uchar c
      in b64_digit triple 18 # b64_digit triple 12 # b64_digit triple 6 # b64_digit triple 0 # Base64Encode rest)"
| "Base64Encode [a, b] =
     (let triple = push_bit 16 (uchar a) OR push_bit 8 (uchar b)
      in [b64_digit triple 18, b64_digit triple 12, b64_digit triple 6, CHR ''=''])"
| "Base64Encode [a] =
     (let triple = push_bit 16 (uchar a)
      in [b64_digit triple 18, b64_digit triple 12, CHR ''='', CHR ''=''])"
| "Base64Encode [] = []"

section \<open>Decoding\<close>

definition B64Value :: "char \<Rightarrow> int" where
  "B64Value c = (let n = of_char c :: int
     in if 65 \<le> n \<and> n \<le> 90 then n - 65
        else if 97 \<le> n \<and> n \<le> 122 then n - 97 + 26
        else if 48 \<le> n \<and> n \<le> 57 then n - 48 + 52
        else if n = 43 then 62
        else if n = 47 then 63
        else - 1)"

text \<open>The accumulator \<open>val\<close> is a 32-bit \<open>int\<close> whose left shift drops the high bits; the right shift
  by at most seven places followed by \<open>& 0xFF\<close> does not see the sign.\<close>

type_synonym b64_state = "u32 \<times> int \<times> string"

definition b64_push :: "int \<Rightarrow> b64_state \<Rightarrow> b64_state" where
  "b64_push d = (\<lambda>(val, valb, out).
     let val' = push_bit 6 val + of_int d; valb' = valb + 6
     in if valb' \<ge> 0 then (val', valb' - 8, out @ [char_of (unat (drop_bit (nat valb') val' AND 0xFF))])
        else (val', valb', out))"

definition b64_separator :: "char \<Rightarrow> bool" where
  "b64_separator c \<longleftrightarrow> c = CHR 0x0D \<or> c = CHR 0x0A \<or> c = CHR '' ''"

text \<open>The server: an invalid character makes the whole signature empty.\<close>

fun Base64Decode_loop :: "b64_state \<Rightarrow> string \<Rightarrow> string" where
  "Base64Decode_loop st [] = snd (snd st)"
| "Base64Decode_loop st (c # cs) =
     (if c = CHR ''='' then snd (snd st)
      else if b64_separator c then Base64Decode_loop st cs
      else if B64Value c < 0 then []
      else Base64Decode_loop (b64_push (B64Value c) st) cs)"

definition Base64Decode :: "string \<Rightarrow> string" where
  "Base64Decode s = Base64Decode_loop (0, - 8, []) s"

text \<open>The token tools: an invalid character is skipped.\<close>

fun tool_Base64Decode_loop :: "b64_state \<Rightarrow> string \<Rightarrow> string" where
  "tool_Base64Decode_loop st [] = snd (snd st)"
| "tool_Base64Decode_loop st (c # cs) =
     (if c = CHR ''='' then snd (snd st)
      else if b64_separator c then tool_Base64Decode_loop st cs
      else if B64Value c < 0 then tool_Base64Decode_loop st cs
      else tool_Base64Decode_loop (b64_push (B64Value c) st) cs)"

definition tool_Base64Decode :: "string \<Rightarrow> string" where
  "tool_Base64Decode s = tool_Base64Decode_loop (0, - 8, []) s"

section \<open>Bits\<close>

lemma unat_uchar: "unat (uchar c) = of_char c"
proof -
  have "(of_char c :: nat) < 256" by simp
  then have "(of_char c :: nat) < 2 ^ 32" by (rule order.strict_trans) simp
  then show ?thesis unfolding uchar_def by (rule unat_of_nat_u32)
qed

lemma char_of_uchar [simp]: "char_of (unat (uchar c)) = c"
  by (simp add: unat_uchar)

lemma take_bit_uchar: "take_bit 8 (uchar c) = uchar c"
  by (simp add: word_unat_eq_iff unsigned_take_bit_eq unat_uchar take_bit_nat_eq_self)

lemma bit_uchar: "bit (uchar c) n \<Longrightarrow> n < 8"
  by (metis bit_take_bit_iff take_bit_uchar)

lemma digit_add: "push_bit 6 x + (y AND 63) = push_bit 6 x OR (y AND 63 :: u32)"
proof (rule disjunctive_add)
  fix n
  have "bit (63 :: u32) n \<Longrightarrow> n < 6"
    using bit_mask_iff [of 6 n, where 'a = u32] by (simp add: mask_eq_exp_minus_1)
  then show "\<not> bit (push_bit 6 x) n \<or> \<not> bit (y AND 63) n" by (auto simp: bit_simps)
qed

lemma mask_6: "(63 :: u32) = mask 6" and mask_8: "(0xFF :: u32) = mask 8"
  by (simp_all add: mask_eq_exp_minus_1)

text \<open>What the accumulator holds after two, three and four digits.\<close>

lemma push_digits:
  fixes v t :: u32
  assumes "\<And>n. bit t n \<Longrightarrow> n < 24"
  defines "d \<equiv> \<lambda>k. drop_bit k t AND 63"
  shows "drop_bit 4 (push_bit 6 (push_bit 6 v + d 18) + d 12) AND 0xFF = drop_bit 16 t AND 0xFF"
    and "drop_bit 2 (push_bit 6 (push_bit 6 (push_bit 6 v + d 18) + d 12) + d 6) AND 0xFF = drop_bit 8 t AND 0xFF"
    and "push_bit 6 (push_bit 6 (push_bit 6 (push_bit 6 v + d 18) + d 12) + d 6) + d 0 AND 0xFF = t AND 0xFF"
  unfolding d_def digit_add
  by (rule word32_eqI; simp add: mask_6 mask_8 bit_simps upt_32)+

section \<open>Digits\<close>

lemma alphabet:
  assumes "k < 64"
  shows "B64Value (kB64 ! k) = int k" and "kB64 ! k \<noteq> CHR ''=''" and "\<not> b64_separator (kB64 ! k)"
proof -
  have "list_all (\<lambda>k. B64Value (kB64 ! k) = int k \<and> kB64 ! k \<noteq> CHR ''='' \<and> \<not> b64_separator (kB64 ! k)) [0..<64]"
    by code_simp
  with assms show "B64Value (kB64 ! k) = int k" "kB64 ! k \<noteq> CHR ''=''" "\<not> b64_separator (kB64 ! k)"
    by (simp_all add: list_all_iff)
qed

lemma mask_less: "unat (x AND 63 :: u32) < 64"
proof -
  have "unat (take_bit 6 x) = take_bit 6 (unat x)" by (rule unsigned_take_bit_eq)
  also have "\<dots> < 2 ^ 6" by (rule take_bit_nat_less_exp)
  finally show ?thesis by (simp add: mask_6 take_bit_eq_mask)
qed

lemma digit_value:
  "B64Value (b64_digit t n) = uint (drop_bit n t AND 63)"
  "b64_digit t n \<noteq> CHR ''=''" "\<not> b64_separator (b64_digit t n)"
  using alphabet [OF mask_less] by (simp_all add: b64_digit_def)

lemma loop_digit:
  "Base64Decode_loop st (b64_digit t n # cs) = Base64Decode_loop (b64_push (uint (drop_bit n t AND 63)) st) cs"
  "tool_Base64Decode_loop st (b64_digit t n # cs) = tool_Base64Decode_loop (b64_push (uint (drop_bit n t AND 63)) st) cs"
  using digit_value [of t n] by simp_all

lemma push_value: "b64_push (uint d) (v, valb, out) =
    (if valb + 6 \<ge> 0 then (push_bit 6 v + d, valb - 2, out @ [char_of (unat (drop_bit (nat (valb + 6)) (push_bit 6 v + d) AND 0xFF))])
     else (push_bit 6 v + d, valb + 6, out))"
  by (simp add: b64_push_def Let_def)

lemma bytes_of_triple:
  "drop_bit 16 (push_bit 16 (uchar a) OR push_bit 8 (uchar b) OR uchar c) AND 0xFF = uchar a"
  "drop_bit 8 (push_bit 16 (uchar a) OR push_bit 8 (uchar b) OR uchar c) AND 0xFF = uchar b"
  "(push_bit 16 (uchar a) OR push_bit 8 (uchar b) OR uchar c) AND 0xFF = uchar c"
  by (rule bit_word_eqI; auto simp: mask_8 bit_simps dest: bit_uchar)+

lemma triple_bits:
  "bit (push_bit 16 (uchar a) OR push_bit 8 (uchar b) OR uchar c) n \<Longrightarrow> n < 24"
  by (auto simp: bit_simps dest: bit_uchar)

lemma triple_short:
  "push_bit 16 (uchar a) OR push_bit 8 (uchar b) = push_bit 16 (uchar a) OR push_bit 8 (uchar b) OR uchar (CHR 0x00)"
  "push_bit 16 (uchar a) = push_bit 16 (uchar a) OR push_bit 8 (uchar (CHR 0x00)) OR uchar (CHR 0x00)"
  by (simp_all add: uchar_def)

lemma push_four:
  fixes a b c :: char and v :: u32 and out :: string
  defines "t \<equiv> push_bit 16 (uchar a) OR push_bit 8 (uchar b) OR uchar c"
  defines "d \<equiv> \<lambda>n. uint (drop_bit n t AND 63)"
  shows "snd (b64_push (d 12) (b64_push (d 18) (v, - 8, out))) = (- 4, out @ [a])"
    and "snd (b64_push (d 6) (b64_push (d 12) (b64_push (d 18) (v, - 8, out)))) = (- 6, out @ [a, b])"
    and "snd (b64_push (d 0) (b64_push (d 6) (b64_push (d 12) (b64_push (d 18) (v, - 8, out))))) = (- 8, out @ [a, b, c])"
  using push_digits [of t v, OF triple_bits [of a b c, folded t_def]] bytes_of_triple [of a b c]
  by (simp_all add: d_def push_value t_def [symmetric])

lemma loop_pad [simp]:
  "Base64Decode_loop st (CHR ''='' # cs) = snd (snd st)" "tool_Base64Decode_loop st (CHR ''='' # cs) = snd (snd st)"
  by simp_all

lemma decode_encode:
  "Base64Decode_loop (v, - 8, out) (Base64Encode s) = out @ s \<and>
   tool_Base64Decode_loop (v, - 8, out) (Base64Encode s) = out @ s"
proof (induction s arbitrary: v out rule: Base64Encode.induct)
  case (1 a b c rest)
  let ?t = "push_bit 16 (uchar a) OR push_bit 8 (uchar b) OR uchar c"
  let ?d = "\<lambda>n. uint (drop_bit n ?t AND 63)"
  define st where "st = b64_push (?d 0) (b64_push (?d 6) (b64_push (?d 12) (b64_push (?d 18) (v, - 8, out))))"
  have "st = (fst st, - 8, out @ [a, b, c])" using push_four(3) [of a b c v out] by (simp add: st_def prod_eq_iff)
  then have st: "Base64Decode_loop st cs = Base64Decode_loop (fst st, - 8, out @ [a, b, c]) cs"
    "tool_Base64Decode_loop st cs = tool_Base64Decode_loop (fst st, - 8, out @ [a, b, c]) cs" for cs by metis+
  have run: "Base64Decode_loop (v, - 8, out) (Base64Encode (a # b # c # rest)) = Base64Decode_loop st (Base64Encode rest)"
    "tool_Base64Decode_loop (v, - 8, out) (Base64Encode (a # b # c # rest)) = tool_Base64Decode_loop st (Base64Encode rest)"
    unfolding Base64Encode.simps Let_def loop_digit st_def by (rule refl)+
  from "1.IH" [OF refl, of "fst st" "out @ [a, b, c]"] show ?case unfolding run st by simp
next
  case (2 a b)
  show ?case
    using push_four(2) [of a b "CHR 0x00" v out] unfolding triple_short(1) [symmetric]
    unfolding Base64Encode.simps Let_def loop_digit loop_pad by (simp only: snd_conv)
next
  case (3 a)
  show ?case
    using push_four(1) [of a "CHR 0x00" "CHR 0x00" v out] unfolding triple_short(2) [symmetric]
    unfolding Base64Encode.simps Let_def loop_digit loop_pad by (simp only: snd_conv)
qed simp

section \<open>Properties\<close>

text \<open>A signature of any length that the token tools write in Base64 is read back unchanged, by
  the server's decoder and by the tools' own.\<close>

theorem base64_roundtrip:
  "Base64Decode (Base64Encode s) = s \<and> tool_Base64Decode (Base64Encode s) = s"
  using decode_encode [of 0 "[]" s] by (simp add: Base64Decode_def tool_Base64Decode_def)

text \<open>The two decoders agree up to the first invalid character; from there on the server gives
  up and the tools go on.\<close>

definition b64_clean :: "string \<Rightarrow> bool" where
  "b64_clean s \<longleftrightarrow> (\<forall>c \<in> set (takeWhile (\<lambda>c. c \<noteq> CHR ''='') s). b64_separator c \<or> 0 \<le> B64Value c)"

lemma decoders_agree_loop:
  "Base64Decode_loop st s = (if b64_clean s then tool_Base64Decode_loop st s else [])"
  by (induction s arbitrary: st) (auto simp: b64_clean_def)

text \<open>The server's decoder and the one of the token tools agree on a text exactly when the part
  before the first padding character holds no character outside the alphabet and the
  separators, or when the tools find nothing in it either: such a character empties the
  signature for the server, while the tools skip it.\<close>

theorem base64_decoders_differ:
  "Base64Decode s = tool_Base64Decode s \<longleftrightarrow> b64_clean s \<or> tool_Base64Decode s = []"
  by (auto simp: Base64Decode_def tool_Base64Decode_def decoders_agree_loop)

lemma decoders_differ_example:
  "Base64Decode ''QU-JD'' = [] \<and> tool_Base64Decode ''QU-JD'' = ''ABC''"
  by code_simp

end
