(* ===== verification/Auth.thy ===== *)
theory Auth
  imports Complex_Main CommandResult Base64
begin

text \<open>
  Clients and their authentication: the identity a token names and its signature
  (\<open>src/src/Auth/IdentitySigning.h\<close>, \<open>DeviceIdentity.h\<close>, \<open>RsaIdentitySignatureVerifier.cpp\<close>), the issuer of
  tokens (\<open>src/tools/token_issuer/TokenDocument.cpp\<close>, \<open>TokenAscii.cpp\<close>, \<open>main.cpp\<close>), their registration
  (\<open>src/tools/auth/TokenLoader.cpp\<close>, \<open>src/tools/access_setup/AccessBundle.cpp\<close>, \<open>src/src/Auth/AuthClientStore.cpp\<close>)
  and the server's command (\<open>src/src/Commands/Auth/AuthenticateCmd.cpp\<close>).

  The JSON library, the RSA operations of OpenSSL and SQLite itself are not part of the
  repository: a document is a value of the type \<open>json\<close>, its text is read and written by the
  parameters \<open>parse\<close> and \<open>dump\<close>, and \<open>sign\<close> and \<open>verify_rsa\<close> work on the bytes of a message. The
  table \<open>clients\<close> is a map on its primary key.
\<close>

section \<open>Character classes of the classic locale\<close>

definition c_isspace :: "char \<Rightarrow> bool" where
  "c_isspace c = (let n = of_char c :: nat in n = 32 \<or> 9 \<le> n \<and> n \<le> 13)"

definition c_toupper :: "char \<Rightarrow> char" where
  "c_toupper c = (let n = of_char c :: nat in if 97 \<le> n \<and> n \<le> 122 then char_of (n - 32) else c)"

definition c_isxdigit :: "char \<Rightarrow> bool" where
  "c_isxdigit c = (let n = of_char c :: nat
     in 48 \<le> n \<and> n \<le> 57 \<or> 65 \<le> n \<and> n \<le> 70 \<or> 97 \<le> n \<and> n \<le> 102)"

definition TrimCopy :: "string \<Rightarrow> string" where
  "TrimCopy value = rev (dropWhile c_isspace (rev (dropWhile c_isspace value)))"

section \<open>Device identities\<close>

definition IsSupportedDeviceType :: "string \<Rightarrow> bool" where
  "IsSupportedDeviceType device_type \<longleftrightarrow> device_type = ''usb'' \<or> device_type = ''computer''"

definition NormalizeUsbDeviceId :: "string \<Rightarrow> string" where
  "NormalizeUsbDeviceId value = map c_toupper (TrimCopy value)"

definition canonical_uuid :: "string \<Rightarrow> string" where
  "canonical_uuid hex = take 8 hex @ ''-'' @ take 4 (drop 8 hex) @ ''-'' @ take 4 (drop 12 hex) @ ''-'' @
     take 4 (drop 16 hex) @ ''-'' @ drop 20 hex"

definition strip_braces :: "string \<Rightarrow> string" where
  "strip_braces value =
     (if length value \<ge> 2 \<and> hd value = CHR ''{'' \<and> last value = CHR ''}'' then TrimCopy (butlast (tl value)) else value)"

definition NormalizeComputerUuid :: "string \<Rightarrow> string option" where
  "NormalizeComputerUuid value =
     (let digits = filter (\<lambda>c. c \<noteq> CHR ''-'') (strip_braces (TrimCopy value)); hex = map c_toupper digits
      in if \<not> list_all c_isxdigit digits then None
         else if length hex \<noteq> 32 then None
         else if hex = replicate 32 (CHR ''0'') \<or> hex = replicate 32 (CHR ''F'') then None
         else Some (canonical_uuid hex))"

section \<open>The signed message\<close>

record auth_identity =
  id_client_id :: string
  id_client_name :: string
  id_device_type :: string
  id_device_id :: string

definition BuildIdentitySigningMessage :: "auth_identity \<Rightarrow> string" where
  "BuildIdentitySigningMessage i =
     id_client_id i @ [CHR 0x0A] @ id_client_name i @ [CHR 0x0A] @ id_device_type i @ [CHR 0x0A] @
     id_device_id i @ [CHR 0x0A]"

text \<open>\<open>key_loaded\<close>: the issuer's public key could be read; \<open>verify_rsa\<close> is the check of OpenSSL with it.\<close>

definition rsa_verify :: "bool \<Rightarrow> (string \<Rightarrow> string \<Rightarrow> bool) \<Rightarrow> auth_identity \<Rightarrow> string \<Rightarrow> bool" where
  "rsa_verify key_loaded verify_rsa identity signature_base64 =
     (if signature_base64 = [] then False
      else if \<not> key_loaded then False
      else let signature = Base64Decode signature_base64
           in if signature = [] then False else verify_rsa (BuildIdentitySigningMessage identity) signature)"

section \<open>Documents\<close>

datatype json =
    JNull | JBool bool | JInt int | JReal rat | JString string | JArray "json list" | JObject "(string \<times> json) list"

fun json_member :: "json \<Rightarrow> string \<Rightarrow> json option" where
  "json_member (JObject members) key = um_find members key"
| "json_member _ key = None"

fun is_object :: "json \<Rightarrow> bool" where
  "is_object (JObject members) = True"
| "is_object _ = False"

text \<open>\<open>value(key, std::string())\<close> and \<open>value(key, 0)\<close>: the default when the key is missing, an
  exception (\<open>None\<close>) when the value has another type.\<close>

definition value_string :: "json \<Rightarrow> string \<Rightarrow> string option" where
  "value_string doc key =
     (case json_member doc key of None \<Rightarrow> Some [] | Some (JString s) \<Rightarrow> Some s | Some _ \<Rightarrow> None)"

definition value_int :: "json \<Rightarrow> string \<Rightarrow> int option" where
  "value_int doc key =
     (case json_member doc key of
        None \<Rightarrow> Some 0 | Some (JInt n) \<Rightarrow> Some n | Some (JBool b) \<Rightarrow> Some (if b then 1 else 0)
      | Some (JReal r) \<Rightarrow> Some (if r < 0 then \<lceil>r\<rceil> else \<lfloor>r\<rfloor>) | Some _ \<Rightarrow> None)"

section \<open>Issuing a token\<close>

record token_fields =
  tf_client_id :: string
  tf_client_name :: string
  tf_device_type :: string
  tf_device_id :: string
  tf_issued_at :: string
  tf_expires_at :: json
  tf_issuer :: string
  tf_notes :: string

definition IsAsciiTokenField :: "string \<Rightarrow> bool" where
  "IsAsciiTokenField value \<longleftrightarrow> list_all (\<lambda>c. let n = of_char c :: nat
     in (65 \<le> n \<and> n \<le> 90) \<or> (97 \<le> n \<and> n \<le> 122) \<or> (48 \<le> n \<and> n \<le> 57) \<or> c \<in> set '' .,-_()/+#@:'') value"

text \<open>The normalized device number, \<open>None\<close> an exception.\<close>

definition normalized_device :: "string \<Rightarrow> string \<Rightarrow> string option" where
  "normalized_device device_type device_id =
     (if device_type = ''usb'' then Some (NormalizeUsbDeviceId device_id)
      else if device_type = ''computer'' then NormalizeComputerUuid device_id
      else None)"

definition ValidateTokenFields :: "token_fields \<Rightarrow> bool" where
  "ValidateTokenFields f \<longleftrightarrow> TrimCopy (tf_client_id f) \<noteq> [] \<and> TrimCopy (tf_client_name f) \<noteq> [] \<and>
     (case normalized_device (TrimCopy (tf_device_type f)) (tf_device_id f) of
        None \<Rightarrow> False
      | Some d \<Rightarrow> (TrimCopy (tf_device_type f) = ''usb'' \<longrightarrow> d \<noteq> []) \<and>
          list_all IsAsciiTokenField [tf_client_id f, tf_client_name f, tf_device_type f, tf_issued_at f, tf_issuer f, tf_notes f] \<and>
          IsAsciiTokenField d) \<and>
     (case tf_expires_at f of JString e \<Rightarrow> IsAsciiTokenField e | JNull \<Rightarrow> True | _ \<Rightarrow> False)"

definition SignTokenPayload :: "(string \<Rightarrow> string) \<Rightarrow> string \<Rightarrow> string" where
  "SignTokenPayload sign message = Base64Encode (sign message)"

definition VerifyTokenSignature :: "(string \<Rightarrow> string \<Rightarrow> bool) \<Rightarrow> string \<Rightarrow> string \<Rightarrow> bool" where
  "VerifyTokenSignature verify_rsa message signature_base64 =
     (if signature_base64 = [] then False
      else let decoded = tool_Base64Decode signature_base64
           in if decoded = [] then False else verify_rsa message decoded)"

text \<open>A new signature is checked with the public key (\<open>key_read\<close>: its file could be read) before it
  is handed out.\<close>

definition SignFields ::
  "(string \<Rightarrow> string) \<Rightarrow> bool \<Rightarrow> (string \<Rightarrow> string \<Rightarrow> bool) \<Rightarrow> token_fields \<Rightarrow> string option" where
  "SignFields sign key_read verify_rsa f =
     (case normalized_device (TrimCopy (tf_device_type f)) (TrimCopy (tf_device_id f)) of
        None \<Rightarrow> None
      | Some device_id \<Rightarrow>
          (let message = BuildIdentitySigningMessage
             \<lparr>id_client_id = TrimCopy (tf_client_id f), id_client_name = TrimCopy (tf_client_name f),
              id_device_type = TrimCopy (tf_device_type f), id_device_id = device_id\<rparr>;
             signature = SignTokenPayload sign message
           in if \<not> key_read then None
              else if \<not> VerifyTokenSignature verify_rsa message signature then None
              else Some signature))"

text \<open>The token document; \<open>now\<close> is the time of issue when the fields name none.\<close>

definition BuildTokenDocument :: "string \<Rightarrow> token_fields \<Rightarrow> string \<Rightarrow> json option" where
  "BuildTokenDocument now f signature =
     (if \<not> ValidateTokenFields f then None
      else if signature = [] then None
      else map_option (\<lambda>device_id. JObject
        [(''format'', JString ''searchclient-auth-token''), (''format_version'', JInt 1),
         (''client_id'', JString (TrimCopy (tf_client_id f))), (''client_name'', JString (TrimCopy (tf_client_name f))),
         (''device_type'', JString (TrimCopy (tf_device_type f))), (''device_id'', JString device_id),
         (''issued_at'', JString (if tf_issued_at f = [] then now else tf_issued_at f)),
         (''expires_at'', tf_expires_at f), (''issuer'', JString (tf_issuer f)),
         (''signature'', JObject [(''alg'', JString ''RS256''), (''encoding'', JString ''base64''), (''value'', JString signature)]),
         (''notes'', JString (tf_notes f))])
       (normalized_device (TrimCopy (tf_device_type f)) (tf_device_id f)))"

section \<open>Reading a token for registration\<close>

record loaded_token =
  lt_identity :: auth_identity
  lt_signature :: string
  lt_signature_meta :: string

definition parse_signature :: "json \<Rightarrow> string option" where
  "parse_signature doc =
     (case json_member doc ''signature'' of
        Some signature \<Rightarrow>
          (if \<not> is_object signature then None
           else if value_string signature ''alg'' \<noteq> Some ''RS256'' then None
           else if json_member signature ''encoding'' = None then None
           else if map_option TrimCopy (value_string signature ''encoding'') \<noteq> Some ''base64'' then None
           else case value_string signature ''value'' of
               Some v \<Rightarrow> if v = [] then None else Some v
             | None \<Rightarrow> None)
      | None \<Rightarrow> None)"

definition parseTokenFields :: "(json \<Rightarrow> string) \<Rightarrow> json \<Rightarrow> loaded_token option" where
  "parseTokenFields dump doc =
     (if \<not> is_object doc then None
      else if value_string doc ''format'' \<noteq> Some ''searchclient-auth-token'' then None
      else if value_int doc ''format_version'' \<noteq> Some 1 then None
      else if json_member doc ''flash_serial'' \<noteq> None then None
      else case (value_string doc ''client_id'', value_string doc ''client_name'', value_string doc ''device_type'',
                 value_string doc ''device_id'') of
          (Some i, Some n, Some t, Some d) \<Rightarrow>
            (if TrimCopy i = [] \<or> TrimCopy n = [] \<or> TrimCopy t = [] \<or> TrimCopy d = [] then None
             else case (normalized_device (TrimCopy t) d, parse_signature doc) of
                 (Some d', Some s) \<Rightarrow> Some \<lparr>lt_identity = \<lparr>id_client_id = TrimCopy i, id_client_name = TrimCopy n,
                   id_device_type = TrimCopy t, id_device_id = d'\<rparr>, lt_signature = s,
                   lt_signature_meta = (case json_member doc ''signature'' of Some j \<Rightarrow> dump j | None \<Rightarrow> [])\<rparr>
               | _ \<Rightarrow> None)
        | _ \<Rightarrow> None)"

section \<open>The table of clients\<close>

record auth_client =
  ac_client_id :: string
  ac_client_name :: string
  ac_device_type :: string
  ac_device_id :: string
  ac_enabled :: bool
  ac_signature_meta :: string
  ac_created_at :: int
  ac_updated_at :: int

text \<open>\<open>sqlite3_bind_text\<close> with length -1 reads up to the first zero byte.\<close>

definition sql_text :: "string \<Rightarrow> string" where
  "sql_text s = takeWhile (\<lambda>c. c \<noteq> CHR 0x00) s"

type_synonym client_table = "(string, auth_client) umap"

datatype store_error = InvalidArgument | NotOpen | SqlError | IdentityConflict | ClientNotFound

text \<open>The store is \<open>None\<close> while it is not open; \<open>sql_ok\<close> says whether SQLite carries the statement out.\<close>

definition with_table ::
  "bool \<Rightarrow> client_table option \<Rightarrow> (client_table \<Rightarrow> store_error option \<times> client_table) \<Rightarrow> store_error option \<times> client_table option" where
  "with_table sql_ok store f =
     (case store of
        None \<Rightarrow> (Some NotOpen, None)
      | Some t \<Rightarrow> if \<not> sql_ok then (Some SqlError, Some t) else (let (e, t') = f t in (e, Some t')))"

definition same_identity :: "auth_client \<Rightarrow> auth_client \<Rightarrow> bool" where
  "same_identity a b \<longleftrightarrow> ac_client_name a = ac_client_name b \<and> ac_device_type a = ac_device_type b \<and>
     ac_device_id a = ac_device_id b"

definition upsert_row :: "bool \<Rightarrow> bool \<Rightarrow> auth_client \<Rightarrow> client_table \<Rightarrow> store_error option \<times> client_table" where
  "upsert_row reject_identity_conflict preserve_enabled new t =
     (case um_find t (ac_client_id new) of
        None \<Rightarrow> (None, um_put (ac_client_id new) new t)
      | Some old \<Rightarrow>
          (if \<not> reject_identity_conflict \<or> same_identity old new
           then (None, um_put (ac_client_id new)
             (new\<lparr>ac_enabled := (if preserve_enabled then ac_enabled old else ac_enabled new),
                  ac_created_at := ac_created_at old\<rparr>) t)
           else (Some IdentityConflict, t)))"

definition upsertClient ::
  "bool \<Rightarrow> int \<Rightarrow> auth_identity \<Rightarrow> bool \<Rightarrow> string \<Rightarrow> bool \<Rightarrow> bool \<Rightarrow> client_table option \<Rightarrow>
   store_error option \<times> client_table option" where
  "upsertClient sql_ok now i enabled signature_meta reject_identity_conflict preserve_enabled store =
     (if id_client_id i = [] \<or> id_client_name i = [] \<or> id_device_type i = [] \<or> id_device_id i = [] \<or>
         \<not> IsSupportedDeviceType (id_device_type i)
      then (Some InvalidArgument, store)
      else with_table sql_ok store (upsert_row reject_identity_conflict preserve_enabled
        \<lparr>ac_client_id = sql_text (id_client_id i), ac_client_name = sql_text (id_client_name i),
         ac_device_type = sql_text (id_device_type i), ac_device_id = sql_text (id_device_id i),
         ac_enabled = enabled, ac_signature_meta = sql_text signature_meta, ac_created_at = now, ac_updated_at = now\<rparr>))"

definition setEnabled :: "bool \<Rightarrow> int \<Rightarrow> string \<Rightarrow> bool \<Rightarrow> client_table option \<Rightarrow> store_error option \<times> client_table option" where
  "setEnabled sql_ok now client_id enabled store =
     with_table sql_ok store (\<lambda>t. case um_find t (sql_text client_id) of
        None \<Rightarrow> (Some ClientNotFound, t)
      | Some r \<Rightarrow> (None, um_put (sql_text client_id) (r\<lparr>ac_enabled := enabled, ac_updated_at := now\<rparr>) t))"

definition removeClient :: "bool \<Rightarrow> string \<Rightarrow> client_table option \<Rightarrow> store_error option \<times> client_table option" where
  "removeClient sql_ok client_id store =
     with_table sql_ok store (\<lambda>t. case um_find t (sql_text client_id) of
        None \<Rightarrow> (Some ClientNotFound, t)
      | Some r \<Rightarrow> (None, um_erase (sql_text client_id) t))"

text \<open>Lookups: \<open>None\<close> is an exception.\<close>

definition getClient :: "bool \<Rightarrow> client_table option \<Rightarrow> string \<Rightarrow> auth_client option option" where
  "getClient sql_ok store client_id =
     (case store of None \<Rightarrow> None | Some t \<Rightarrow> if \<not> sql_ok then None else Some (um_find t (sql_text client_id)))"

definition findEnabledMatch :: "bool \<Rightarrow> client_table option \<Rightarrow> auth_identity \<Rightarrow> auth_client option option" where
  "findEnabledMatch sql_ok store i =
     (case store of
        None \<Rightarrow> None
      | Some t \<Rightarrow>
          if \<not> sql_ok then None
          else Some (case um_find t (sql_text (id_client_id i)) of
              Some r \<Rightarrow> if ac_client_name r = sql_text (id_client_name i) \<and> ac_device_type r = sql_text (id_device_type i) \<and>
                          ac_device_id r = sql_text (id_device_id i) \<and> ac_enabled r then Some r else None
            | None \<Rightarrow> None))"

section \<open>Installing the clients of an access package\<close>

definition VerifyToken :: "(json \<Rightarrow> string) \<Rightarrow> (string \<Rightarrow> string \<Rightarrow> bool) \<Rightarrow> json \<Rightarrow> bool" where
  "VerifyToken dump verify_rsa token =
     (case parseTokenFields dump token of
        None \<Rightarrow> False
      | Some f \<Rightarrow> VerifyTokenSignature verify_rsa (BuildIdentitySigningMessage (lt_identity f)) (lt_signature f))"

fun install_tokens ::
  "(json \<Rightarrow> string) \<Rightarrow> int \<Rightarrow> json list \<Rightarrow> client_table option \<Rightarrow> store_error option \<times> client_table option" where
  "install_tokens dump now [] store = (None, store)"
| "install_tokens dump now (token # tokens) store =
     (case parseTokenFields dump token of
        None \<Rightarrow> (Some InvalidArgument, store)
      | Some f \<Rightarrow>
          (case upsertClient True now (lt_identity f) True (lt_signature_meta f) True True store of
             (None, store') \<Rightarrow> install_tokens dump now tokens store'
           | (Some e, store') \<Rightarrow> (Some e, store')))"

text \<open>The state is the table and the key file next to it. The key is written inside the transaction
  and put back when the commit fails; \<open>pem_ok\<close>, \<open>key_written\<close>, \<open>committed\<close> and \<open>restored\<close> are the
  outcomes of the check of the key, of writing it, of the commit and of putting the old key back. The flag of the result says that an
  exception leaves the function.\<close>

definition InstallTrust ::
  "(json \<Rightarrow> string) \<Rightarrow> (string \<Rightarrow> string \<Rightarrow> bool) \<Rightarrow> int \<Rightarrow> bool \<Rightarrow> bool \<Rightarrow> bool \<Rightarrow> bool \<Rightarrow> string \<Rightarrow> json list \<Rightarrow>
   client_table option \<times> string option \<Rightarrow> (client_table option \<times> string option) \<times> bool" where
  "InstallTrust dump verify_rsa now pem_ok key_written committed restored pem tokens = (\<lambda>(store, key).
     if \<not> pem_ok \<or> \<not> list_all (VerifyToken dump verify_rsa) tokens \<or> store = None then ((store, key), True)
     else case install_tokens dump now tokens store of
         (Some e, _) \<Rightarrow> ((store, key), True)
       | (None, store') \<Rightarrow>
           if \<not> key_written then ((store, key), True)
           else if \<not> committed then ((store, if restored then key else Some pem), True)
           else ((store', Some pem), False))"

section \<open>The command AUTHENTICATE\<close>

text \<open>\<open>None\<close>: the member is missing, not a string, or empty.\<close>

definition readRequiredString :: "json \<Rightarrow> string \<Rightarrow> string option" where
  "readRequiredString doc key =
     (case json_member doc key of Some (JString v) \<Rightarrow> if v = [] then None else Some v | _ \<Rightarrow> None)"

definition read_signature :: "json \<Rightarrow> string command_result" where
  "read_signature doc =
     (case json_member doc ''signature'' of
        None \<Rightarrow> Inl AuthSignatureMissing
      | Some (JString s) \<Rightarrow> if s = [] then Inl AuthSignatureMissing else Inr s
      | Some _ \<Rightarrow> Inl InvalidRequest)"

definition read_identity :: "json \<Rightarrow> auth_identity command_result" where
  "read_identity doc =
     (case readRequiredString doc ''client_id'' of None \<Rightarrow> Inl AuthClientIdMissing
      | Some i \<Rightarrow> (case readRequiredString doc ''client_name'' of None \<Rightarrow> Inl AuthClientNameMissing
      | Some n \<Rightarrow> (case readRequiredString doc ''device_type'' of None \<Rightarrow> Inl AuthDeviceTypeMissing
      | Some t \<Rightarrow> (case readRequiredString doc ''device_id'' of None \<Rightarrow> Inl AuthDeviceIdMissing
      | Some d \<Rightarrow> Inr \<lparr>id_client_id = i, id_client_name = n, id_device_type = t, id_device_id = d\<rparr>))))"

text \<open>The comparison with the registered client; \<open>None\<close> when it matches.\<close>

definition lookup_error :: "bool \<Rightarrow> client_table option \<Rightarrow> auth_identity \<Rightarrow> error_code option" where
  "lookup_error sql_ok store i =
     (case getClient sql_ok store (id_client_id i) of
        None \<Rightarrow> Some DatabaseQueryFailed
      | Some None \<Rightarrow> Some AuthClientIdNotFound
      | Some (Some match) \<Rightarrow>
          (if \<not> ac_enabled match then Some AuthClientDisabled
           else if ac_client_name match \<noteq> id_client_name i then Some AuthClientNameMismatch
           else if ac_device_type match \<noteq> id_device_type i then Some AuthDeviceTypeMismatch
           else if ac_device_id match \<noteq> id_device_id i then Some AuthDeviceIdMismatch
           else None))"

definition auth_response :: "auth_identity \<Rightarrow> json" where
  "auth_response i = JObject [(''ok'', JBool True), (''client_id'', JString (id_client_id i)),
     (''client_name'', JString (id_client_name i))]"

definition AuthenticateCmd ::
  "(string \<Rightarrow> json option) \<Rightarrow> (json \<Rightarrow> string) \<Rightarrow> bool \<Rightarrow> (string \<Rightarrow> string \<Rightarrow> bool) \<Rightarrow> bool \<Rightarrow> client_table option \<Rightarrow>
   string \<Rightarrow> string command_result" where
  "AuthenticateCmd parse dump key_loaded verify_rsa sql_ok store data =
     (case parse data of
        None \<Rightarrow> Inl InvalidJson
      | Some doc \<Rightarrow>
          if \<not> is_object doc then Inl InvalidJson
          else case read_identity doc of
              Inl e \<Rightarrow> Inl e
            | Inr i \<Rightarrow>
                (case read_signature doc of
                   Inl e \<Rightarrow> Inl e
                 | Inr signature \<Rightarrow>
                     (case lookup_error sql_ok store i of
                        Some e \<Rightarrow> Inl e
                      | None \<Rightarrow>
                          if \<not> key_loaded then Inl ConfigurationError
                          else if \<not> rsa_verify key_loaded verify_rsa i signature then Inl AuthSignatureInvalid
                          else Inr (dump (auth_response i)))))"

section \<open>Characters and trimming\<close>

lemma of_char_toupper:
  "(of_char (c_toupper c) :: nat) = (if 97 \<le> (of_char c :: nat) \<and> (of_char c :: nat) \<le> 122 then of_char c - 32 else of_char c)"
  by (auto simp: c_toupper_def Let_def intro!: mod_less)

lemma upper_classes [simp]:
  "c_isspace (c_toupper c) = c_isspace c" "c_toupper (c_toupper c) = c_toupper c"
  "c_isxdigit c \<Longrightarrow> c_isxdigit (c_toupper c)"
  unfolding c_isspace_def c_isxdigit_def Let_def of_char_toupper
  by (auto simp: c_toupper_def Let_def)

lemma xdigit_plain: "c_isxdigit c \<Longrightarrow> \<not> c_isspace c \<and> c \<noteq> CHR ''{'' \<and> c \<noteq> CHR ''-''"
  by (auto simp: c_isxdigit_def c_isspace_def Let_def)

lemma ascii_field: "IsAsciiTokenField s \<Longrightarrow> CHR 0x0A \<notin> set s \<and> CHR 0x00 \<notin> set s"
  unfolding IsAsciiTokenField_def list_all_iff Let_def by fastforce

definition trimmed :: "string \<Rightarrow> bool" where
  "trimmed s \<longleftrightarrow> s = [] \<or> (\<not> c_isspace (hd s) \<and> \<not> c_isspace (last s))"

lemma TrimCopy_trimmed: "trimmed s \<Longrightarrow> TrimCopy s = s"
proof (cases "s = []")
  case False
  assume "trimmed s"
  with False have h: "\<not> c_isspace (hd s)" and l: "\<not> c_isspace (hd (rev s))" by (simp_all add: trimmed_def hd_rev)
  have "dropWhile c_isspace s = s" using h False by (cases s) simp_all
  moreover have "dropWhile c_isspace (rev s) = rev s" using l False by (metis dropWhile_eq_self_iff)
  ultimately show ?thesis by (simp add: TrimCopy_def)
qed (simp add: TrimCopy_def)

lemma trimmed_TrimCopy [simp]: "trimmed (TrimCopy s)"
proof (cases "TrimCopy s = []")
  case False
  let ?d = "dropWhile c_isspace s" and ?r = "dropWhile c_isspace (rev (dropWhile c_isspace s))"
  have r: "?r \<noteq> []" using False by (simp add: TrimCopy_def)
  then have l: "\<not> c_isspace (last (TrimCopy s))"
    unfolding TrimCopy_def last_rev by (rule hd_dropWhile)
  have d: "?d \<noteq> []" using r by (metis dropWhile.simps(1) rev.simps(1))
  obtain ys where "rev ?d = ys @ ?r" by (metis takeWhile_dropWhile_id)
  then have "?d = TrimCopy s @ rev ys" unfolding TrimCopy_def by (metis rev_append rev_rev_ident)
  then have "hd (TrimCopy s) = hd ?d" using False by (metis hd_append2)
  with hd_dropWhile [OF d] l show ?thesis by (simp add: trimmed_def)
qed (simp add: trimmed_def)

lemma TrimCopy_idem [simp]: "TrimCopy (TrimCopy s) = TrimCopy s"
  by (rule TrimCopy_trimmed) simp

lemma set_TrimCopy: "set (TrimCopy s) \<subseteq> set s"
  unfolding TrimCopy_def by (metis dual_order.trans set_dropWhileD set_rev subsetI)

section \<open>Normalized device numbers\<close>

lemma NormalizeUsb_idem: "NormalizeUsbDeviceId (NormalizeUsbDeviceId v) = NormalizeUsbDeviceId v"
proof -
  have "trimmed (map c_toupper (TrimCopy v))"
    using trimmed_TrimCopy [of v] by (auto simp: trimmed_def hd_map last_map upper_classes)
  then show ?thesis by (simp add: NormalizeUsbDeviceId_def TrimCopy_trimmed upper_classes comp_def)
qed

lemma five_parts:
  assumes "length hex = 32"
  shows "take 8 hex @ take 4 (drop 8 hex) @ take 4 (drop 12 hex) @ take 4 (drop 16 hex) @ drop 20 hex = hex"
proof -
  have "take 4 (drop n hex) @ drop (n + 4) hex = drop n hex" for n
    using append_take_drop_id [of 4 "drop n hex"] by (simp add: add.commute)
  from this [of 16] this [of 12] this [of 8] show ?thesis by simp
qed

lemma canonical_digits:
  assumes "length hex = 32"
  shows "filter (\<lambda>c. c \<noteq> CHR ''-'') (canonical_uuid hex) = filter (\<lambda>c. c \<noteq> CHR ''-'') hex"
    and "hd (canonical_uuid hex) = hd hex" and "last (canonical_uuid hex) = last hex" and "canonical_uuid hex \<noteq> []"
proof -
  show "filter (\<lambda>c. c \<noteq> CHR ''-'') (canonical_uuid hex) = filter (\<lambda>c. c \<noteq> CHR ''-'') hex"
    using arg_cong [OF five_parts [OF assms], of "filter (\<lambda>c. c \<noteq> CHR ''-'')"] by (simp add: canonical_uuid_def)
  have ne: "hex \<noteq> []" "drop 20 hex \<noteq> []" "take 8 hex \<noteq> []" using assms by auto
  show "hd (canonical_uuid hex) = hd hex" using ne by (simp add: canonical_uuid_def hd_append)
  show "last (canonical_uuid hex) = last hex" using ne by (simp add: canonical_uuid_def last_drop)
  show "canonical_uuid hex \<noteq> []" by (simp add: canonical_uuid_def)
qed

lemma NormalizeComputerUuid_parts:
  assumes "NormalizeComputerUuid v = Some u"
  obtains hex where "length hex = 32" "list_all c_isxdigit hex" "map c_toupper hex = hex" "u = canonical_uuid hex"
    "hex \<noteq> replicate 32 (CHR ''0'')" "hex \<noteq> replicate 32 (CHR ''F'')"
proof -
  let ?ds = "filter (\<lambda>c. c \<noteq> CHR ''-'') (strip_braces (TrimCopy v))"
  from assms have x: "list_all c_isxdigit ?ds" "length (map c_toupper ?ds) = 32" "u = canonical_uuid (map c_toupper ?ds)"
    "map c_toupper ?ds \<noteq> replicate 32 (CHR ''0'')" "map c_toupper ?ds \<noteq> replicate 32 (CHR ''F'')"
    by (auto simp: NormalizeComputerUuid_def Let_def split: if_splits)
  show ?thesis
  proof (rule that [of "map c_toupper ?ds"])
    show "list_all c_isxdigit (map c_toupper ?ds)" using x(1) by (auto simp: list_all_iff)
    show "map c_toupper (map c_toupper ?ds) = map c_toupper ?ds" by simp
  qed (use x in blast)+
qed

lemma NormalizeComputerUuid_idem:
  assumes "NormalizeComputerUuid v = Some u"
  shows "NormalizeComputerUuid u = Some u" and "trimmed u" and "u \<noteq> []"
proof -
  from assms obtain hex where h: "length hex = 32" "list_all c_isxdigit hex" "map c_toupper hex = hex" "u = canonical_uuid hex"
    "hex \<noteq> replicate 32 (CHR ''0'')" "hex \<noteq> replicate 32 (CHR ''F'')" by (rule NormalizeComputerUuid_parts)
  note cd = canonical_digits [OF h(1)]
  have ne: "hex \<noteq> []" using h(1) by auto
  then have ends: "c_isxdigit (hd u)" "c_isxdigit (last u)" using h(2,4) cd(2,3) by (simp_all add: list_all_iff)
  show t: "trimmed u" using ends xdigit_plain by (simp add: trimmed_def)
  show "u \<noteq> []" using cd(4) h(4) by simp
  have "strip_braces (TrimCopy u) = u"
    using xdigit_plain [OF ends(1)] by (simp add: TrimCopy_trimmed [OF t] strip_braces_def)
  moreover have "filter (\<lambda>c. c \<noteq> CHR ''-'') u = hex"
    using cd(1) h(2,4) xdigit_plain by (simp add: filter_id_conv list_all_iff)
  ultimately show "NormalizeComputerUuid u = Some u" using h by (simp add: NormalizeComputerUuid_def Let_def)
qed

lemma normalized_idem:
  assumes "normalized_device t d = Some d'"
  shows "normalized_device t d' = Some d'" and "t = ''computer'' \<longrightarrow> d' \<noteq> []" and "TrimCopy d' = d'"
    and "normalized_device t (TrimCopy d) = Some d'" and "IsSupportedDeviceType t"
proof -
  have usb: "trimmed (NormalizeUsbDeviceId d)"
    using trimmed_TrimCopy [of d] by (auto simp: trimmed_def NormalizeUsbDeviceId_def hd_map last_map)
  show "normalized_device t d' = Some d'" "TrimCopy d' = d'" "t = ''computer'' \<longrightarrow> d' \<noteq> []" "IsSupportedDeviceType t"
    using assms usb NormalizeUsb_idem NormalizeComputerUuid_idem
    by (auto simp: normalized_device_def IsSupportedDeviceType_def TrimCopy_trimmed split: if_splits)
  have "normalized_device t (TrimCopy d) = normalized_device t d"
    by (simp add: normalized_device_def NormalizeUsbDeviceId_def NormalizeComputerUuid_def)
  then show "normalized_device t (TrimCopy d) = Some d'" using assms by simp
qed

section \<open>Signed messages\<close>

lemma split_at_lf:
  assumes "CHR 0x0A \<notin> set x" and "CHR 0x0A \<notin> set x'" and "x @ CHR 0x0A # y = x' @ CHR 0x0A # y'"
  shows "x = x' \<and> y = y'"
  using assms
proof (induction x arbitrary: x')
  case Nil
  then show ?case by (cases x') auto
next
  case (Cons a x)
  then show ?case by (cases x') auto
qed

definition lf_free :: "auth_identity \<Rightarrow> bool" where
  "lf_free i \<longleftrightarrow> CHR 0x0A \<notin> set (id_client_id i) \<union> set (id_client_name i) \<union> set (id_device_type i) \<union> set (id_device_id i)"

lemma count_message:
  "count_list (BuildIdentitySigningMessage i) (CHR 0x0A) = 4 + count_list (id_client_id i) (CHR 0x0A) +
     count_list (id_client_name i) (CHR 0x0A) + count_list (id_device_type i) (CHR 0x0A) + count_list (id_device_id i) (CHR 0x0A)"
  by (simp add: BuildIdentitySigningMessage_def)

lemma message_unique:
  assumes "lf_free i" and "BuildIdentitySigningMessage i = BuildIdentitySigningMessage j"
  shows "j = i"
proof -
  have "count_list (BuildIdentitySigningMessage i) (CHR 0x0A) = 4"
    using assms(1) by (simp add: count_message lf_free_def count_list_0_iff)
  then have j: "lf_free j" using assms(2) by (simp add: count_message lf_free_def count_list_0_iff)
  have "id_client_id i = id_client_id j \<and> id_client_name i = id_client_name j \<and> id_device_type i = id_device_type j \<and>
      id_device_id i = id_device_id j"
    using assms j split_at_lf unfolding BuildIdentitySigningMessage_def lf_free_def by (simp, metis)
  then show ?thesis by (cases i; cases j) simp
qed

section \<open>The life of a token\<close>

definition fields_identity :: "token_fields \<Rightarrow> string \<Rightarrow> auth_identity" where
  "fields_identity f d = \<lparr>id_client_id = TrimCopy (tf_client_id f), id_client_name = TrimCopy (tf_client_name f),
     id_device_type = TrimCopy (tf_device_type f), id_device_id = d\<rparr>"

lemma sql_text_id: "CHR 0x00 \<notin> set s \<Longrightarrow> sql_text s = s"
  unfolding sql_text_def by (induction s) auto

lemma validated_fields:
  assumes "ValidateTokenFields f"
  obtains d where "normalized_device (TrimCopy (tf_device_type f)) (tf_device_id f) = Some d" "d \<noteq> []" "TrimCopy d = d"
    "IsSupportedDeviceType (TrimCopy (tf_device_type f))" "lf_free (fields_identity f d)"
    "\<forall>s \<in> {TrimCopy (tf_client_id f), TrimCopy (tf_client_name f), TrimCopy (tf_device_type f), d}. sql_text s = s"
    "TrimCopy (tf_client_id f) \<noteq> []" "TrimCopy (tf_client_name f) \<noteq> []"
proof -
  from assms obtain d where d: "normalized_device (TrimCopy (tf_device_type f)) (tf_device_id f) = Some d"
    by (auto simp: ValidateTokenFields_def split: option.splits)
  with assms have v: "TrimCopy (tf_client_id f) \<noteq> []" "TrimCopy (tf_client_name f) \<noteq> []"
    "TrimCopy (tf_device_type f) = ''usb'' \<longrightarrow> d \<noteq> []" "IsAsciiTokenField (tf_client_id f)" "IsAsciiTokenField (tf_client_name f)"
    "IsAsciiTokenField (tf_device_type f)" "IsAsciiTokenField d" by (simp_all add: ValidateTokenFields_def)
  note n = normalized_idem [OF d]
  have ne: "d \<noteq> []" using v(3) n(2,5) by (auto simp: IsSupportedDeviceType_def)
  have "CHR 0x0A \<notin> set (TrimCopy s) \<and> CHR 0x00 \<notin> set (TrimCopy s)" if "IsAsciiTokenField s" for s
    using ascii_field [OF that] set_TrimCopy [of s] by blast
  from this [OF v(4)] this [OF v(5)] this [OF v(6)] ascii_field [OF v(7)]
  have clean: "\<forall>s \<in> {TrimCopy (tf_client_id f), TrimCopy (tf_client_name f), TrimCopy (tf_device_type f), d}.
      CHR 0x0A \<notin> set s \<and> CHR 0x00 \<notin> set s" by simp
  then have sql: "\<forall>s \<in> {TrimCopy (tf_client_id f), TrimCopy (tf_client_name f), TrimCopy (tf_device_type f), d}. sql_text s = s"
    by (simp add: sql_text_id)
  have lf: "lf_free (fields_identity f d)" using clean by (simp add: lf_free_def fields_identity_def)
  show ?thesis by (rule that [OF d ne n(3) n(5) lf sql v(1,2)])
qed

text \<open>What the loader reads in the document of a token.\<close>

lemma load_built:
  assumes "ValidateTokenFields f" and d: "normalized_device (TrimCopy (tf_device_type f)) (tf_device_id f) = Some d"
    and "BuildTokenDocument now f signature = Some doc"
  obtains t where "parseTokenFields dump doc = Some t" "lt_identity t = fields_identity f d" "lt_signature t = signature"
proof -
  note n = normalized_idem [OF d]
  from assms(1) obtain d' where v: "normalized_device (TrimCopy (tf_device_type f)) (tf_device_id f) = Some d'" "d' \<noteq> []"
    "TrimCopy d' = d'" "TrimCopy (tf_client_id f) \<noteq> []" "TrimCopy (tf_client_name f) \<noteq> []"
    "IsSupportedDeviceType (TrimCopy (tf_device_type f))" by (rule validated_fields) blast
  have t: "TrimCopy (tf_device_type f) \<noteq> []" using v(6) by (auto simp: IsSupportedDeviceType_def)
  from assms have doc: "signature \<noteq> []" "doc = JObject
        [(''format'', JString ''searchclient-auth-token''), (''format_version'', JInt 1),
         (''client_id'', JString (TrimCopy (tf_client_id f))), (''client_name'', JString (TrimCopy (tf_client_name f))),
         (''device_type'', JString (TrimCopy (tf_device_type f))), (''device_id'', JString d),
         (''issued_at'', JString (if tf_issued_at f = [] then now else tf_issued_at f)),
         (''expires_at'', tf_expires_at f), (''issuer'', JString (tf_issuer f)),
         (''signature'', JObject [(''alg'', JString ''RS256''), (''encoding'', JString ''base64''), (''value'', JString signature)]),
         (''notes'', JString (tf_notes f))]"
    by (auto simp: BuildTokenDocument_def split: if_splits)
  have sig: "parse_signature doc = Some signature"
    using doc(1) by (simp add: doc(2) parse_signature_def value_string_def um_find_def TrimCopy_def c_isspace_def)
  have vs: "value_string doc ''format'' = Some ''searchclient-auth-token''" "value_int doc ''format_version'' = Some 1"
    "json_member doc ''flash_serial'' = None" "value_string doc ''client_id'' = Some (TrimCopy (tf_client_id f))"
    "value_string doc ''client_name'' = Some (TrimCopy (tf_client_name f))"
    "value_string doc ''device_type'' = Some (TrimCopy (tf_device_type f))" "value_string doc ''device_id'' = Some d"
    "is_object doc"
    by (simp_all add: doc(2) value_string_def value_int_def um_find_def)
  have "d = d'" using d v(1) by simp
  then show ?thesis
    using that v t n(1) by (simp add: parseTokenFields_def vs sig fields_identity_def)
qed

section \<open>Registration\<close>

text \<open>What a registration leaves of the clients that were there.\<close>

definition keeps_clients :: "client_table \<Rightarrow> client_table \<Rightarrow> bool" where
  "keeps_clients t t' \<longleftrightarrow> (\<forall>k r. um_find t k = Some r \<longrightarrow>
     (\<exists>r'. um_find t' k = Some r' \<and> same_identity r r' \<and> ac_enabled r' = ac_enabled r \<and> ac_created_at r' = ac_created_at r))"

definition registered :: "client_table \<Rightarrow> auth_identity \<Rightarrow> bool" where
  "registered t i \<longleftrightarrow> (\<exists>r. um_find t (sql_text (id_client_id i)) = Some r \<and> ac_client_name r = sql_text (id_client_name i) \<and>
     ac_device_type r = sql_text (id_device_type i) \<and> ac_device_id r = sql_text (id_device_id i))"

lemma keeps_refl: "keeps_clients t t"
  by (simp add: keeps_clients_def same_identity_def)

lemma keeps_trans: "keeps_clients t u \<Longrightarrow> keeps_clients u v \<Longrightarrow> keeps_clients t v"
proof (unfold keeps_clients_def, intro allI impI)
  fix k r
  assume tu: "\<forall>k r. um_find t k = Some r \<longrightarrow> (\<exists>r'. um_find u k = Some r' \<and> same_identity r r' \<and>
      ac_enabled r' = ac_enabled r \<and> ac_created_at r' = ac_created_at r)"
    and uv: "\<forall>k r. um_find u k = Some r \<longrightarrow> (\<exists>r'. um_find v k = Some r' \<and> same_identity r r' \<and>
      ac_enabled r' = ac_enabled r \<and> ac_created_at r' = ac_created_at r)"
    and "um_find t k = Some r"
  from tu this(3) obtain x where x: "um_find u k = Some x" "same_identity r x" "ac_enabled x = ac_enabled r"
    "ac_created_at x = ac_created_at r" by blast
  from uv x(1) obtain y where "um_find v k = Some y" "same_identity x y" "ac_enabled y = ac_enabled x"
    "ac_created_at y = ac_created_at x" by blast
  with x show "\<exists>r'. um_find v k = Some r' \<and> same_identity r r' \<and> ac_enabled r' = ac_enabled r \<and> ac_created_at r' = ac_created_at r"
    by (simp add: same_identity_def)
qed

lemma keeps_registered:
  assumes "keeps_clients t u" and "registered t i"
  shows "registered u i"
proof -
  from assms(2) obtain r where r: "um_find t (sql_text (id_client_id i)) = Some r" "ac_client_name r = sql_text (id_client_name i)"
    "ac_device_type r = sql_text (id_device_type i)" "ac_device_id r = sql_text (id_device_id i)"
    unfolding registered_def by blast
  with assms(1) obtain x where "um_find u (sql_text (id_client_id i)) = Some x" "same_identity r x"
    unfolding keeps_clients_def by blast
  with r show ?thesis by (simp add: registered_def same_identity_def)
qed

lemma upsert_row_keeps:
  assumes "upsert_row True True new t = (None, t')"
  shows "keeps_clients t t'"
    and "\<exists>r. um_find t' (ac_client_id new) = Some r \<and> same_identity new r"
    and "um_find t' k = (if k = ac_client_id new then um_find t' k else um_find t k)"
proof -
  have "keeps_clients t t' \<and> (\<exists>r. um_find t' (ac_client_id new) = Some r \<and> same_identity new r) \<and>
      (k \<noteq> ac_client_id new \<longrightarrow> um_find t' k = um_find t k)"
  proof (cases "um_find t (ac_client_id new)")
    case None
    then have "t' = um_put (ac_client_id new) new t" using assms by (simp add: upsert_row_def)
    with None show ?thesis by (auto simp: keeps_clients_def same_identity_def um_find_put)
  next
    case (Some old)
    with assms have "same_identity old new" "t' = um_put (ac_client_id new)
        (new\<lparr>ac_enabled := ac_enabled old, ac_created_at := ac_created_at old\<rparr>) t"
      by (auto simp: upsert_row_def split: if_splits)
    with Some show ?thesis by (auto simp: keeps_clients_def same_identity_def um_find_put)
  qed
  then show "keeps_clients t t'" "\<exists>r. um_find t' (ac_client_id new) = Some r \<and> same_identity new r"
    "um_find t' k = (if k = ac_client_id new then um_find t' k else um_find t k)" by auto
qed

lemma install_tokens_keeps:
  assumes "install_tokens dump now tokens (Some t) = (None, store)"
  shows "\<exists>t'. store = Some t' \<and> keeps_clients t t' \<and>
    (\<forall>token \<in> set tokens. \<exists>f. parseTokenFields dump token = Some f \<and> registered t' (lt_identity f)) \<and>
    (\<forall>k. um_find t k = None \<longrightarrow> um_find t' k \<noteq> None \<longrightarrow>
       (\<exists>token \<in> set tokens. \<exists>f. parseTokenFields dump token = Some f \<and> k = sql_text (id_client_id (lt_identity f))))"
  using assms
proof (induction tokens arbitrary: t)
  case Nil
  then show ?case by (intro exI [of _ t]) (simp add: keeps_refl)
next
  case (Cons token tokens)
  from Cons.prems obtain f where f: "parseTokenFields dump token = Some f" by (auto split: option.splits)
  let ?i = "lt_identity f"
  let ?new = "\<lparr>ac_client_id = sql_text (id_client_id ?i), ac_client_name = sql_text (id_client_name ?i),
    ac_device_type = sql_text (id_device_type ?i), ac_device_id = sql_text (id_device_id ?i), ac_enabled = True,
    ac_signature_meta = sql_text (lt_signature_meta f), ac_created_at = now, ac_updated_at = now\<rparr>"
  from Cons.prems f obtain u where u: "upsert_row True True ?new t = (None, u)" "install_tokens dump now tokens (Some u) = (None, store)"
    by (cases "upsert_row True True ?new t") (auto simp: upsertClient_def with_table_def split: if_splits option.splits)
  from Cons.IH [OF u(2)] obtain t' where IH: "store = Some t'" "keeps_clients u t'"
    "\<forall>token \<in> set tokens. \<exists>f. parseTokenFields dump token = Some f \<and> registered t' (lt_identity f)"
    "\<forall>k. um_find u k = None \<longrightarrow> um_find t' k \<noteq> None \<longrightarrow>
       (\<exists>token \<in> set tokens. \<exists>f. parseTokenFields dump token = Some f \<and> k = sql_text (id_client_id (lt_identity f)))" by blast
  note k = upsert_row_keeps [OF u(1)]
  have "registered u ?i" using k(2) by (auto simp: registered_def same_identity_def)
  then have "registered t' ?i" by (rule keeps_registered [OF IH(2)])
  moreover have "keeps_clients t t'" by (rule keeps_trans [OF k(1) IH(2)])
  moreover have "\<exists>tk \<in> set (token # tokens). \<exists>f. parseTokenFields dump tk = Some f \<and> key = sql_text (id_client_id (lt_identity f))"
    if "um_find t key = None" "um_find t' key \<noteq> None" for key
  proof (cases "key = sql_text (id_client_id ?i)")
    case False
    then have "um_find u key = None" using k(3) [of key] that(1) by simp
    with IH(4) that(2) show ?thesis by auto
  qed (use f in auto)
  ultimately show ?case using IH(1,3) f by (intro exI [of _ t']) simp
qed

section \<open>Properties\<close>

text \<open>A signature of the issuer vouches for one identity only: whatever identity another token or
  request names, it is signed by the same message only if it is the same one, field by field.
  The validated fields of a token hold no line feed, so the separators of the message cannot
  be shifted into a field.\<close>

theorem signature_names_one_identity:
  assumes "ValidateTokenFields f" and "normalized_device (TrimCopy (tf_device_type f)) (tf_device_id f) = Some d"
    and "BuildIdentitySigningMessage j = BuildIdentitySigningMessage (fields_identity f d)"
  shows "j = fields_identity f d"
proof -
  from assms(1) obtain d' where "normalized_device (TrimCopy (tf_device_type f)) (tf_device_id f) = Some d'"
    "lf_free (fields_identity f d')" by (rule validated_fields) blast
  with assms(2) have "lf_free (fields_identity f d)" by simp
  from message_unique [OF this] assms(3) show ?thesis by simp
qed

definition demo_fields :: token_fields where
  "demo_fields = \<lparr>tf_client_id = ''c1'', tf_client_name = ''anna'', tf_device_type = ''usb'', tf_device_id = ''ab12 '',
     tf_issued_at = [], tf_expires_at = JNull, tf_issuer = ''unit'', tf_notes = []\<rparr>"

lemma demo_fields_valid: "ValidateTokenFields demo_fields"
  by code_simp

lemma demo_fields_device: "normalized_device (TrimCopy (tf_device_type demo_fields)) (tf_device_id demo_fields) = Some ''AB12''"
  by code_simp

lemma signature_names_one_identity_witness:
  "ValidateTokenFields demo_fields \<and>
   \<lparr>id_client_id = ''c1'', id_client_name = ''anna'', id_device_type = ''usb'', id_device_id = ''AB12''\<rparr> = fields_identity demo_fields ''AB12''"
proof -
  have "BuildIdentitySigningMessage \<lparr>id_client_id = ''c1'', id_client_name = ''anna'', id_device_type = ''usb'', id_device_id = ''AB12''\<rparr> =
      BuildIdentitySigningMessage (fields_identity demo_fields ''AB12'')" by code_simp
  from signature_names_one_identity [OF demo_fields_valid demo_fields_device this] demo_fields_valid show ?thesis by simp
qed

text \<open>Without the validation the message is ambiguous: the tool that adds clients by hand accepts
  line feeds.\<close>

lemma ambiguous_message:
  "BuildIdentitySigningMessage \<lparr>id_client_id = [CHR ''a''], id_client_name = [CHR ''b'', CHR 0x0A, CHR ''c''], id_device_type = ''usb'', id_device_id = ''d''\<rparr> =
   BuildIdentitySigningMessage \<lparr>id_client_id = [CHR ''a'', CHR 0x0A, CHR ''b''], id_client_name = [CHR ''c''], id_device_type = ''usb'', id_device_id = ''d''\<rparr>"
  by code_simp

text \<open>C5: The command authenticates a client exactly when the request is a document with all five
  members, the client is registered and enabled under the very same name and device, the
  issuer's key is at hand, and the decoded signature is one of the issuer for this identity;
  the answer then names the client of the request.\<close>

theorem authenticate_exact:
  "AuthenticateCmd parse dump key_loaded verify_rsa sql_ok store data = Inr answer \<longleftrightarrow>
   (\<exists>doc i signature t r. parse data = Some doc \<and> is_object doc \<and>
      readRequiredString doc ''client_id'' = Some (id_client_id i) \<and>
      readRequiredString doc ''client_name'' = Some (id_client_name i) \<and>
      readRequiredString doc ''device_type'' = Some (id_device_type i) \<and>
      readRequiredString doc ''device_id'' = Some (id_device_id i) \<and>
      readRequiredString doc ''signature'' = Some signature \<and>
      sql_ok \<and> store = Some t \<and> um_find t (sql_text (id_client_id i)) = Some r \<and> ac_enabled r \<and>
      ac_client_name r = id_client_name i \<and> ac_device_type r = id_device_type i \<and> ac_device_id r = id_device_id i \<and>
      key_loaded \<and> Base64Decode signature \<noteq> [] \<and>
      verify_rsa (BuildIdentitySigningMessage i) (Base64Decode signature) \<and>
      answer = dump (auth_response i))"
  (is "?L = ?R")
proof
  assume ?L
  then obtain doc i signature where d: "parse data = Some doc" "is_object doc" "read_identity doc = Inr i"
    "read_signature doc = Inr signature" "lookup_error sql_ok store i = None" "key_loaded"
    "rsa_verify key_loaded verify_rsa i signature" "answer = dump (auth_response i)"
    by (auto simp: AuthenticateCmd_def split: option.splits sum.splits if_splits)
  from d(3) have m: "readRequiredString doc ''client_id'' = Some (id_client_id i)"
    "readRequiredString doc ''client_name'' = Some (id_client_name i)"
    "readRequiredString doc ''device_type'' = Some (id_device_type i)"
    "readRequiredString doc ''device_id'' = Some (id_device_id i)"
    by (auto simp: read_identity_def split: option.splits)
  from d(4) have s: "readRequiredString doc ''signature'' = Some signature"
    by (auto simp: read_signature_def readRequiredString_def split: option.splits json.splits if_splits)
  from d(5) obtain t r where "sql_ok" "store = Some t" "um_find t (sql_text (id_client_id i)) = Some r" "ac_enabled r"
    "ac_client_name r = id_client_name i" "ac_device_type r = id_device_type i" "ac_device_id r = id_device_id i"
    by (auto simp: lookup_error_def getClient_def split: option.splits if_splits)
  moreover from d(7) have "Base64Decode signature \<noteq> []" "verify_rsa (BuildIdentitySigningMessage i) (Base64Decode signature)"
    by (auto simp: rsa_verify_def Let_def split: if_splits)
  ultimately show ?R using d(1,2,6,8) m s by blast
next
  assume ?R
  then obtain doc i signature t r where d: "parse data = Some doc" "is_object doc"
    "readRequiredString doc ''client_id'' = Some (id_client_id i)" "readRequiredString doc ''client_name'' = Some (id_client_name i)"
    "readRequiredString doc ''device_type'' = Some (id_device_type i)" "readRequiredString doc ''device_id'' = Some (id_device_id i)"
    "readRequiredString doc ''signature'' = Some signature" "sql_ok" "store = Some t"
    "um_find t (sql_text (id_client_id i)) = Some r" "ac_enabled r" "ac_client_name r = id_client_name i"
    "ac_device_type r = id_device_type i" "ac_device_id r = id_device_id i" "key_loaded" "Base64Decode signature \<noteq> []"
    "verify_rsa (BuildIdentitySigningMessage i) (Base64Decode signature)" "answer = dump (auth_response i)" by blast
  have "read_identity doc = Inr i" using d(3-6) by (simp add: read_identity_def)
  moreover have "read_signature doc = Inr signature" "signature \<noteq> []"
    using d(7) by (auto simp: read_signature_def readRequiredString_def split: option.splits json.splits if_splits)
  moreover have "lookup_error sql_ok store i = None" using d(8-14) by (simp add: lookup_error_def getClient_def)
  ultimately show ?L using d(1,2,15-18) by (simp add: AuthenticateCmd_def rsa_verify_def Let_def)
qed

text \<open>The request a client sends.\<close>

definition auth_request :: "auth_identity \<Rightarrow> string \<Rightarrow> json" where
  "auth_request i signature = JObject [(''client_id'', JString (id_client_id i)), (''client_name'', JString (id_client_name i)),
     (''device_type'', JString (id_device_type i)), (''device_id'', JString (id_device_id i)), (''signature'', JString signature)]"

text \<open>A token for valid fields can be built, passes the check of the installer and names the fields.\<close>

lemma issue:
  assumes "\<And>m. verify_rsa m (sign m)" and "\<And>m. sign m \<noteq> []" and "ValidateTokenFields f"
  obtains d signature token loaded where "normalized_device (TrimCopy (tf_device_type f)) (tf_device_id f) = Some d"
    "SignFields sign True verify_rsa f = Some signature" "signature \<noteq> []"
    "Base64Decode signature = sign (BuildIdentitySigningMessage (fields_identity f d))"
    "BuildTokenDocument now f signature = Some token" "parseTokenFields dump token = Some loaded"
    "lt_identity loaded = fields_identity f d" "lt_signature loaded = signature" "VerifyToken dump verify_rsa token"
proof -
  from assms(3) obtain d where d: "normalized_device (TrimCopy (tf_device_type f)) (tf_device_id f) = Some d"
    by (rule validated_fields) blast
  define message where "message = BuildIdentitySigningMessage (fields_identity f d)"
  define signature where "signature = Base64Encode (sign message)"
  have dec: "Base64Decode signature = sign message" "tool_Base64Decode signature = sign message"
    using decode_encode [of 0 "[]" "sign message"] by (simp_all add: signature_def Base64Decode_def tool_Base64Decode_def)
  then have ne: "signature \<noteq> []" using assms(2) [of message] by (auto simp: Base64Decode_def)
  have sf: "SignFields sign True verify_rsa f = Some signature"
    using normalized_idem(4) [OF d] ne dec(2) assms(1,2)
    by (simp add: SignFields_def SignTokenPayload_def VerifyTokenSignature_def Let_def signature_def message_def fields_identity_def)
  obtain token where token: "BuildTokenDocument now f signature = Some token"
    using d normalized_idem(4) [OF d] assms(3) ne by (simp add: BuildTokenDocument_def)
  obtain loaded where l: "parseTokenFields dump token = Some loaded" "lt_identity loaded = fields_identity f d"
    "lt_signature loaded = signature" by (rule load_built [OF assms(3) d token])
  have "VerifyToken dump verify_rsa token"
    using l ne dec(2) assms(1,2) by (simp add: VerifyToken_def VerifyTokenSignature_def message_def)
  from that [OF d sf ne dec(1) [unfolded message_def] token l this] show ?thesis .
qed

text \<open>Installing it registers its client.\<close>

lemma issued_installs:
  assumes "\<And>m. verify_rsa m (sign m)" and "\<And>m. sign m \<noteq> []" and "ValidateTokenFields f"
    and "um_find t (TrimCopy (tf_client_id f)) = None"
  obtains d signature token t' where "SignFields sign True verify_rsa f = Some signature" "BuildTokenDocument issued_at f signature = Some token"
    "InstallTrust dump verify_rsa now True True True True pem [token] (Some t, key) = ((Some t', Some pem), False)"
    "signature \<noteq> []" "Base64Decode signature = sign (BuildIdentitySigningMessage (fields_identity f d))"
    "lookup_error True (Some t') (fields_identity f d) = None"
    "d \<noteq> []" "id_client_id (fields_identity f d) \<noteq> []" "id_client_name (fields_identity f d) \<noteq> []"
    "id_device_type (fields_identity f d) \<noteq> []"
proof -
  obtain d signature token loaded where i: "normalized_device (TrimCopy (tf_device_type f)) (tf_device_id f) = Some d"
    "SignFields sign True verify_rsa f = Some signature" "signature \<noteq> []"
    "Base64Decode signature = sign (BuildIdentitySigningMessage (fields_identity f d))"
    "BuildTokenDocument issued_at f signature = Some token" "parseTokenFields dump token = Some loaded"
    "lt_identity loaded = fields_identity f d" "lt_signature loaded = signature" "VerifyToken dump verify_rsa token"
    by (rule issue [of verify_rsa sign f, OF assms(1-3)])
  let ?i = "fields_identity f d"
  from assms(3) obtain d' where v: "normalized_device (TrimCopy (tf_device_type f)) (tf_device_id f) = Some d'" "d' \<noteq> []"
    "TrimCopy (tf_client_id f) \<noteq> []" "TrimCopy (tf_client_name f) \<noteq> []" "IsSupportedDeviceType (TrimCopy (tf_device_type f))"
    "\<forall>s \<in> {TrimCopy (tf_client_id f), TrimCopy (tf_client_name f), TrimCopy (tf_device_type f), d'}. sql_text s = s"
    by (rule validated_fields) blast
  have "d' = d" using v(1) i(1) by simp
  then have members: "id_client_id ?i \<noteq> []" "id_client_name ?i \<noteq> []" "id_device_type ?i \<noteq> []" "id_device_id ?i \<noteq> []"
    "IsSupportedDeviceType (id_device_type ?i)" "sql_text (id_client_id ?i) = id_client_id ?i"
    "sql_text (id_client_name ?i) = id_client_name ?i" "sql_text (id_device_type ?i) = id_device_type ?i"
    "sql_text (id_device_id ?i) = id_device_id ?i"
    using v by (auto simp: fields_identity_def IsSupportedDeviceType_def)
  define row where "row = \<lparr>ac_client_id = id_client_id ?i, ac_client_name = id_client_name ?i, ac_device_type = id_device_type ?i,
    ac_device_id = id_device_id ?i, ac_enabled = True, ac_signature_meta = sql_text (lt_signature_meta loaded),
    ac_created_at = now, ac_updated_at = now\<rparr>"
  define t' where "t' = um_put (id_client_id ?i) row t"
  have fresh: "um_find t (id_client_id ?i) = None" using assms(4) by (simp add: fields_identity_def)
  have "install_tokens dump now [token] (Some t) = (None, Some t')"
    using members fresh i(6,7) by (simp add: upsertClient_def with_table_def upsert_row_def t'_def row_def)
  then have inst: "InstallTrust dump verify_rsa now True True True True pem [token] (Some t, key) = ((Some t', Some pem), False)"
    using i(9) by (simp add: InstallTrust_def)
  have look: "lookup_error True (Some t') ?i = None"
    using members(6) by (simp add: lookup_error_def getClient_def t'_def um_find_put row_def)
  have "d \<noteq> []" using members(4) by (simp add: fields_identity_def)
  from that [OF i(2,5) inst i(3,4) look this members(1-3)] show ?thesis .
qed

text \<open>C12: The life of a token, end to end: for valid fields the issuer produces a signature and a
  token document; installing an access package with this token into a table that does not
  know the client succeeds and stores the issuer's key; and from then on the request with the
  token's identity and signature authenticates.\<close>

theorem issued_token_authenticates:
  assumes "\<And>m. verify_rsa m (sign m)" and "\<And>m. sign m \<noteq> []" and "ValidateTokenFields f"
    and "um_find t (TrimCopy (tf_client_id f)) = None"
  shows "\<exists>d signature token t'. SignFields sign True verify_rsa f = Some signature \<and> BuildTokenDocument issued_at f signature = Some token \<and>
    InstallTrust dump verify_rsa now True True True True pem [token] (Some t, key) = ((Some t', Some pem), False) \<and>
    (\<forall>parse data. parse data = Some (auth_request (fields_identity f d) signature) \<longrightarrow>
       AuthenticateCmd parse dump True verify_rsa True (Some t') data = Inr (dump (auth_response (fields_identity f d))))"
proof -
  obtain d signature token t' where i: "SignFields sign True verify_rsa f = Some signature" "BuildTokenDocument issued_at f signature = Some token"
    "InstallTrust dump verify_rsa now True True True True pem [token] (Some t, key) = ((Some t', Some pem), False)"
    "signature \<noteq> []" "Base64Decode signature = sign (BuildIdentitySigningMessage (fields_identity f d))"
    "lookup_error True (Some t') (fields_identity f d) = None"
    "d \<noteq> []" "id_client_id (fields_identity f d) \<noteq> []" "id_client_name (fields_identity f d) \<noteq> []"
    "id_device_type (fields_identity f d) \<noteq> []"
    by (rule issued_installs [of verify_rsa sign f t, OF assms])
  let ?i = "fields_identity f d"
  have req: "read_identity (auth_request ?i signature) = Inr ?i" "read_signature (auth_request ?i signature) = Inr signature"
    "is_object (auth_request ?i signature)"
    using i(4,7-10)
    by (simp_all add: auth_request_def read_identity_def readRequiredString_def um_find_def read_signature_def fields_identity_def)
  have rsa: "rsa_verify True verify_rsa ?i signature"
    using i(4,5) assms(1,2) by (simp add: rsa_verify_def)
  have "\<forall>parse data. parse data = Some (auth_request ?i signature) \<longrightarrow>
       AuthenticateCmd parse dump True verify_rsa True (Some t') data = Inr (dump (auth_response ?i))"
    using req i(6) rsa by (simp add: AuthenticateCmd_def)
  with i(1-3) show ?thesis by blast
qed

lemma issued_token_authenticates_witness:
  "\<exists>d signature token t'. SignFields (\<lambda>m. CHR ''s'' # m) True (\<lambda>m s. s = CHR ''s'' # m) demo_fields = Some signature \<and>
    BuildTokenDocument ''2025'' demo_fields signature = Some token \<and>
    InstallTrust (\<lambda>_. []) (\<lambda>m s. s = CHR ''s'' # m) 7 True True True True ''pem'' [token] (Some [], None) = ((Some t', Some ''pem''), False) \<and>
    (\<forall>parse data. parse data = Some (auth_request (fields_identity demo_fields d) signature) \<longrightarrow>
       AuthenticateCmd parse (\<lambda>_. []) True (\<lambda>m s. s = CHR ''s'' # m) True (Some t') data =
         Inr [])"
  using issued_token_authenticates [of "\<lambda>m s. s = CHR ''s'' # m" "\<lambda>m. CHR ''s'' # m" demo_fields "[]" "''2025''" "\<lambda>_. []" 7 "''pem''" None]
    demo_fields_valid by simp



end
