(* ===== verification/Encoding.thy ===== *)
theory Encoding
  imports SE_Prelude
begin

text \<open>
  Paths between UTF-16 and UTF-8 (\<open>src/src/MyUtils/Encoding.cpp\<close> over the checked functions of
  \<open>src/src/Utils/utf8cpp/utf8\<close>): \<open>wstring_to_utf8\<close> is used for every path that goes into the
  database or into an answer, \<open>utf8_to_wstring\<close> for every path read back. The exceptions the
  library throws are values of a sum type. The lemmas show which strings are accepted and
  that the conversion and its inverse are mutually inverse on them.
\<close>

section \<open>Code points\<close>

definition is_trail :: "u8 \<Rightarrow> bool" where
  "is_trail oc \<longleftrightarrow> drop_bit 6 oc = 0x2"

definition is_lead_surrogate :: "u32 \<Rightarrow> bool" where
  "is_lead_surrogate cp \<longleftrightarrow> 0xd800 \<le> cp \<and> cp \<le> 0xdbff"

definition is_trail_surrogate :: "u32 \<Rightarrow> bool" where
  "is_trail_surrogate cp \<longleftrightarrow> 0xdc00 \<le> cp \<and> cp \<le> 0xdfff"

definition is_surrogate :: "u32 \<Rightarrow> bool" where
  "is_surrogate cp \<longleftrightarrow> 0xd800 \<le> cp \<and> cp \<le> 0xdfff"

definition is_code_point_valid :: "u32 \<Rightarrow> bool" where
  "is_code_point_valid cp \<longleftrightarrow> cp \<le> 0x0010ffff \<and> \<not> is_surrogate cp"

definition sequence_length :: "u8 \<Rightarrow> nat" where
  "sequence_length lead =
     (if lead < 0x80 then 1
      else if drop_bit 5 lead = 0x6 then 2
      else if drop_bit 4 lead = 0xe then 3
      else if drop_bit 3 lead = 0x1e then 4
      else 0)"

definition is_overlong_sequence :: "u32 \<Rightarrow> nat \<Rightarrow> bool" where
  "is_overlong_sequence cp len =
     (if cp < 0x80 then len \<noteq> 1
      else if cp < 0x800 then len \<noteq> 2
      else if cp < 0x10000 then len \<noteq> 3
      else False)"

datatype utf_error =
  NOT_ENOUGH_ROOM | INVALID_LEAD | INCOMPLETE_SEQUENCE | OVERLONG_SEQUENCE | INVALID_CODE_POINT
| INVALID_UTF16

section \<open>Decoding\<close>

text \<open>The argument is what follows the current octet; the result is the octet moved to.\<close>

fun increase_safely :: "u8 list \<Rightarrow> utf_error + u8 \<times> u8 list" where
  "increase_safely [] = Inl NOT_ENOUGH_ROOM"
| "increase_safely (c # it) = (if is_trail c then Inr (c, it) else Inl INCOMPLETE_SEQUENCE)"

definition get_sequence_2 :: "u8 \<Rightarrow> u8 list \<Rightarrow> utf_error + u32 \<times> u8 list" where
  "get_sequence_2 c it =
     (case increase_safely it of
        Inl e \<Rightarrow> Inl e
      | Inr (d, it) \<Rightarrow> Inr ((push_bit 6 (ucast c) AND 0x7ff) + (ucast d AND 0x3f), it))"

definition get_sequence_3 :: "u8 \<Rightarrow> u8 list \<Rightarrow> utf_error + u32 \<times> u8 list" where
  "get_sequence_3 c it =
     (case increase_safely it of
        Inl e \<Rightarrow> Inl e
      | Inr (d, it) \<Rightarrow>
          let cp = (push_bit 12 (ucast c) AND 0xffff) + (push_bit 6 (ucast d) AND 0xfff)
          in (case increase_safely it of
                Inl e \<Rightarrow> Inl e
              | Inr (d, it) \<Rightarrow> Inr (cp + (ucast d AND 0x3f), it)))"

definition get_sequence_4 :: "u8 \<Rightarrow> u8 list \<Rightarrow> utf_error + u32 \<times> u8 list" where
  "get_sequence_4 c it =
     (case increase_safely it of
        Inl e \<Rightarrow> Inl e
      | Inr (d, it) \<Rightarrow>
          let cp = (push_bit 18 (ucast c) AND 0x1fffff) + (push_bit 12 (ucast d) AND 0x3ffff)
          in (case increase_safely it of
                Inl e \<Rightarrow> Inl e
              | Inr (d, it) \<Rightarrow>
                  let cp = cp + (push_bit 6 (ucast d) AND 0xfff)
                  in (case increase_safely it of
                        Inl e \<Rightarrow> Inl e
                      | Inr (d, it) \<Rightarrow> Inr (cp + (ucast d AND 0x3f), it))))"

definition validate_next :: "u8 list \<Rightarrow> utf_error + u32 \<times> u8 list" where
  "validate_next it =
     (case it of
        [] \<Rightarrow> Inl NOT_ENOUGH_ROOM
      | c # it \<Rightarrow>
          let len = sequence_length c
          in if len = 0 then Inl INVALID_LEAD
             else (case (if len = 1 then Inr (ucast c, it)
                         else if len = 2 then get_sequence_2 c it
                         else if len = 3 then get_sequence_3 c it
                         else get_sequence_4 c it) of
                     Inl e \<Rightarrow> Inl e
                   | Inr (cp, it) \<Rightarrow>
                       if \<not> is_code_point_valid cp then Inl INVALID_CODE_POINT
                       else if is_overlong_sequence cp len then Inl OVERLONG_SEQUENCE
                       else Inr (cp, it)))"

section \<open>Encoding\<close>

definition append_cp :: "u32 \<Rightarrow> u8 list" where
  "append_cp cp =
     (if cp < 0x80 then [ucast cp]
      else if cp < 0x800 then [ucast (drop_bit 6 cp OR 0xc0), ucast ((cp AND 0x3f) OR 0x80)]
      else if cp < 0x10000 then
        [ucast (drop_bit 12 cp OR 0xe0), ucast ((drop_bit 6 cp AND 0x3f) OR 0x80),
         ucast ((cp AND 0x3f) OR 0x80)]
      else
        [ucast (drop_bit 18 cp OR 0xf0), ucast ((drop_bit 12 cp AND 0x3f) OR 0x80),
         ucast ((drop_bit 6 cp AND 0x3f) OR 0x80), ucast ((cp AND 0x3f) OR 0x80)])"

definition append_checked :: "u32 \<Rightarrow> utf_error + u8 list" where
  "append_checked cp = (if is_code_point_valid cp then Inr (append_cp cp) else Inl INVALID_CODE_POINT)"

definition SURROGATE_OFFSET :: u32 where "SURROGATE_OFFSET = 0xfca02400"

text \<open>One round of the loop of \<open>utf16to8\<close>: the code point of the next one or two units.\<close>

definition next_utf16 :: "wstring \<Rightarrow> utf_error + u32 \<times> wstring" where
  "next_utf16 ws =
     (let cp = ucast (hd ws); ws = tl ws
      in if is_lead_surrogate cp
         then (case ws of
                 [] \<Rightarrow> Inl INVALID_UTF16
               | t # ws \<Rightarrow> if is_trail_surrogate (ucast t)
                   then Inr (push_bit 10 cp + ucast t + SURROGATE_OFFSET, ws) else Inl INVALID_UTF16)
         else if is_trail_surrogate cp then Inl INVALID_UTF16
         else Inr (cp, ws))"

lemma next_utf16_shorter:
  "next_utf16 ws = Inr (cp, ws') \<Longrightarrow> ws \<noteq> [] \<Longrightarrow> length ws' < length ws"
  by (cases ws) (auto simp: next_utf16_def Let_def split: if_splits list.splits)

function utf16to8 :: "wstring \<Rightarrow> utf_error + u8 list" where
  "utf16to8 ws =
     (if ws = [] then Inr []
      else (case next_utf16 ws of
              Inl e \<Rightarrow> Inl e
            | Inr (cp, ws') \<Rightarrow>
                (case append_checked cp of
                   Inl e \<Rightarrow> Inl e
                 | Inr bs \<Rightarrow> (case utf16to8 ws' of Inl e \<Rightarrow> Inl e | Inr bs' \<Rightarrow> Inr (bs @ bs')))))"
  by pat_completeness auto
termination
  by (relation "measure length") (auto dest: next_utf16_shorter)

declare utf16to8.simps [simp del]

definition surrogate_pair :: "u32 \<Rightarrow> wstring" where
  "surrogate_pair cp =
     (if cp > 0xffff then [ucast (drop_bit 10 cp + 0xd7c0), ucast ((cp AND 0x3ff) + 0xdc00)]
      else [ucast cp])"

lemma increase_shorter: "increase_safely it = Inr (c, it') \<Longrightarrow> length it' < length it"
  by (cases it) (auto split: if_splits)

lemma validate_next_shorter: "validate_next it = Inr (cp, it') \<Longrightarrow> length it' < length it"
  by (cases it)
    (auto simp: validate_next_def get_sequence_2_def get_sequence_3_def get_sequence_4_def Let_def
      dest!: increase_shorter split: if_splits sum.splits prod.splits)

function utf8to16 :: "u8 list \<Rightarrow> utf_error + wstring" where
  "utf8to16 it =
     (if it = [] then Inr []
      else (case validate_next it of
              Inl e \<Rightarrow> Inl e
            | Inr (cp, it') \<Rightarrow>
                (case utf8to16 it' of Inl e \<Rightarrow> Inl e | Inr ws \<Rightarrow> Inr (surrogate_pair cp @ ws))))"
  by pat_completeness auto
termination
  by (relation "measure length") (auto dest: validate_next_shorter)

declare utf8to16.simps [simp del]

definition wstring_to_utf8 :: "wstring \<Rightarrow> utf_error + u8 list" where
  "wstring_to_utf8 ws = utf16to8 ws"

definition utf8_to_wstring :: "u8 list \<Rightarrow> utf_error + wstring" where
  "utf8_to_wstring s = utf8to16 s"

section \<open>Bytes and bits\<close>

lemma sequence_length_bits:
  "sequence_length c =
     (if \<not> bit c 7 then 1 else if \<not> bit c 6 then 0 else if \<not> bit c 5 then 2
      else if \<not> bit c 4 then 3 else if \<not> bit c 3 then 4 else 0)"
  by (rule all_bytes [where c = c]) code_simp

lemma is_trail_bits: "is_trail c \<longleftrightarrow> bit c 7 \<and> \<not> bit c 6"
  by (rule all_bytes [where c = c]) code_simp

text \<open>The bits of the masks, as the simplifier reads literals.\<close>

lemma mask_bits:
  "bit (0x3f :: int) n \<longleftrightarrow> n < 6" "bit (0x7ff :: int) n \<longleftrightarrow> n < 11"
  "bit (0xfff :: int) n \<longleftrightarrow> n < 12" "bit (0xffff :: int) n \<longleftrightarrow> n < 16"
  "bit (0x3ffff :: int) n \<longleftrightarrow> n < 18" "bit (0x1fffff :: int) n \<longleftrightarrow> n < 21"
  "bit (0x3ff :: int) n \<longleftrightarrow> n < 10"
proof -
  have *: "(0x3f :: int) = mask 6" "(0x7ff :: int) = mask 11" "(0xfff :: int) = mask 12" "(0xffff :: int) = mask 16"
    "(0x3ffff :: int) = mask 18" "(0x1fffff :: int) = mask 21" "(0x3ff :: int) = mask 10"
    by (simp_all add: mask_eq_exp_minus_1)
  show "bit (0x3f :: int) n \<longleftrightarrow> n < 6" "bit (0x7ff :: int) n \<longleftrightarrow> n < 11"
    "bit (0xfff :: int) n \<longleftrightarrow> n < 12" "bit (0xffff :: int) n \<longleftrightarrow> n < 16"
    "bit (0x3ffff :: int) n \<longleftrightarrow> n < 18" "bit (0x1fffff :: int) n \<longleftrightarrow> n < 21"
    "bit (0x3ff :: int) n \<longleftrightarrow> n < 10"
    unfolding * by (simp_all only: bit_mask_iff possible_bit_def) simp_all
qed

lemma small_bits: "(cp :: u32) < 2 ^ k \<Longrightarrow> k \<le> n \<Longrightarrow> \<not> bit cp n"
  by (metis bit_take_bit_iff leD less_mask_eq take_bit_eq_mask)

lemmas utf_bits = bit_simps mask_bits

lemma decode_2:
  assumes "cp < 0x800"
  shows "(push_bit 6 (ucast (ucast (drop_bit 6 cp OR 0xc0) :: u8)) AND 0x7ff) +
    (ucast (ucast ((cp AND 0x3f) OR 0x80) :: u8) AND 0x3f) = (cp :: u32)" (is "?a + ?b = cp")
proof -
  have cp: "\<not> bit cp n" if "11 \<le> n" for n using small_bits [of cp 11 n] assms that by simp
  have "?a + ?b = ?a OR ?b" by (rule disjunctive_add) (auto simp: utf_bits)
  also have "\<dots> = cp" by (rule word32_eqI, unfold upt_32) (simp add: bit_simps cp)
  finally show ?thesis .
qed

lemma decode_3:
  assumes "cp < 0x10000"
  shows "(push_bit 12 (ucast (ucast (drop_bit 12 cp OR 0xe0) :: u8)) AND 0xffff) +
    (push_bit 6 (ucast (ucast ((drop_bit 6 cp AND 0x3f) OR 0x80) :: u8)) AND 0xfff) +
    (ucast (ucast ((cp AND 0x3f) OR 0x80) :: u8) AND 0x3f) = (cp :: u32)" (is "?a + ?b + ?c = cp")
proof -
  have cp: "\<not> bit cp n" if "16 \<le> n" for n using small_bits [of cp 16 n] assms that by simp
  have ab: "?a + ?b = ?a OR ?b" by (rule disjunctive_add) (auto simp: utf_bits)
  have abc: "(?a OR ?b) + ?c = ?a OR ?b OR ?c"
    unfolding or.assoc [symmetric] by (rule disjunctive_add) (auto simp: utf_bits)
  have "?a OR ?b OR ?c = cp" by (rule word32_eqI, unfold upt_32) (simp add: bit_simps cp)
  then show ?thesis unfolding ab abc .
qed

lemma decode_4:
  assumes "cp \<le> 0x10ffff"
  shows "(push_bit 18 (ucast (ucast (drop_bit 18 cp OR 0xf0) :: u8)) AND 0x1fffff) +
    (push_bit 12 (ucast (ucast ((drop_bit 12 cp AND 0x3f) OR 0x80) :: u8)) AND 0x3ffff) +
    (push_bit 6 (ucast (ucast ((drop_bit 6 cp AND 0x3f) OR 0x80) :: u8)) AND 0xfff) +
    (ucast (ucast ((cp AND 0x3f) OR 0x80) :: u8) AND 0x3f) = (cp :: u32)" (is "?a + ?b + ?c + ?d = cp")
proof -
  have "cp < 2 ^ 21" using assms by (rule le_less_trans) simp
  then have cp: "\<not> bit cp n" if "21 \<le> n" for n using small_bits [of cp 21 n] that by simp
  have ab: "?a + ?b = ?a OR ?b" by (rule disjunctive_add) (auto simp: utf_bits)
  have abc: "(?a OR ?b) + ?c = ?a OR ?b OR ?c"
    unfolding or.assoc [symmetric] by (rule disjunctive_add) (auto simp: utf_bits)
  have abcd: "(?a OR ?b OR ?c) + ?d = ?a OR ?b OR ?c OR ?d"
    unfolding or.assoc [symmetric] by (rule disjunctive_add) (auto simp: utf_bits)
  have "?a OR ?b OR ?c OR ?d = cp" by (rule word32_eqI, unfold upt_32) (simp add: bit_simps cp)
  then show ?thesis unfolding ab abc abcd .
qed

lemma small_word: "c < (0x80 :: u32) \<Longrightarrow> ucast (ucast c :: u8) = c" and small_word_bit: "c < 0x80 \<Longrightarrow> \<not> bit (ucast c :: u8) 7"
proof -
  assume "c < (0x80 :: u32)"
  then have c: "\<not> bit c n" if "7 \<le> n" for n using small_bits [of c 7 n] that by simp
  show "ucast (ucast c :: u8) = c" by (rule word32_eqI, unfold upt_32) (simp add: bit_simps c)
  show "\<not> bit (ucast c :: u8) 7" using c [of 7] by (simp add: bit_simps)
qed

text \<open>What the octets of an encoded code point look like.\<close>

lemma trail_octet [simp]: "is_trail (ucast (((x :: u32) AND 0x3f) OR 0x80))"
  by (simp add: is_trail_bits bit_simps)

lemma lead_octet_2: "\<not> bit (cp :: u32) 11 \<Longrightarrow> sequence_length (ucast (drop_bit 6 cp OR 0xc0)) = 2"
  by (simp add: sequence_length_bits bit_simps)

lemma lead_octet_3: "\<not> bit (cp :: u32) 16 \<Longrightarrow> sequence_length (ucast (drop_bit 12 cp OR 0xe0)) = 3"
  by (simp add: sequence_length_bits bit_simps)

lemma lead_octet_4: "\<not> bit (cp :: u32) 21 \<Longrightarrow> sequence_length (ucast (drop_bit 18 cp OR 0xf0)) = 4"
  by (simp add: sequence_length_bits bit_simps)

text \<open>Decoding what was written gives the code point back.\<close>

lemmas validate_simps = validate_next_def append_cp_def get_sequence_2_def get_sequence_3_def
  get_sequence_4_def is_overlong_sequence_def Let_def

lemma validate_next_append:
  assumes "is_code_point_valid cp"
  shows "validate_next (append_cp cp @ t) = Inr (cp, t)"
proof -
  have max: "cp \<le> 0x10ffff" using assms by (simp add: is_code_point_valid_def)
  consider "cp < 0x80" | "\<not> cp < 0x80" "cp < 0x800" | "\<not> cp < 0x800" "cp < 0x10000" | "\<not> cp < 0x10000" by blast
  then show ?thesis
  proof cases
    case 1
    with assms show ?thesis
      by (simp add: validate_simps sequence_length_bits small_word small_word_bit)
  next
    case 2
    then have "\<not> bit cp 11" using small_bits [of cp 11 11] by simp
    with 2 assms decode_2 [OF 2(2)] show ?thesis by (simp add: validate_simps lead_octet_2)
  next
    case 3
    then have "\<not> cp < 0x80" "\<not> bit cp 16"
      using small_bits [of cp 16 16] less_trans [of cp "0x80" "0x800"] by auto
    with 3 assms decode_3 [OF 3(2)] show ?thesis by (simp add: validate_simps lead_octet_3)
  next
    case 4
    have "cp < 2 ^ 21" using max by (rule le_less_trans) simp
    then have "\<not> bit cp 21" using small_bits [of cp 21 21] by simp
    moreover have "\<not> cp < 0x80" "\<not> cp < 0x800"
      using 4 less_trans [of cp "0x80" "0x10000"] less_trans [of cp "0x800" "0x10000"] by auto
    ultimately show ?thesis using 4 assms decode_4 [OF max] by (simp add: validate_simps lead_octet_4)
  qed
qed

section \<open>Surrogate pairs\<close>

lemma unat_next: "unat (ucast (w :: u16) :: u32) = unat w" "unat (w :: u16) < 65536"
  using unsigned_less [of w, where 'a = nat] by (simp_all add: unsigned_ucast_eq take_bit_nat_eq_self)

lemma join_surrogates:
  assumes "is_lead_surrogate (ucast (h :: u16))" and "is_trail_surrogate (ucast (l :: u16))"
  shows "unat (push_bit 10 (ucast h :: u32) + ucast l + SURROGATE_OFFSET) =
    (unat h - 0xd800) * 1024 + (unat l - 0xdc00) + 0x10000"
proof -
  have h: "0xd800 \<le> unat h" "unat h \<le> 0xdbff" and l: "0xdc00 \<le> unat l" "unat l \<le> 0xdfff"
    using assms by (simp_all add: is_lead_surrogate_def is_trail_surrogate_def word_le_nat_alt unat_next)
  have "unat (push_bit 10 (ucast h :: u32)) = unat h * 1024"
    using h by (simp add: push_bit_eq_mult unat_mult_lem [THEN iffD1] unat_next unat_word_ariths)
  then have "unat (push_bit 10 (ucast h :: u32) + ucast l + SURROGATE_OFFSET) =
      ((unat h * 1024 + unat l) + 0xfca02400) mod 2 ^ 32"
    by (simp add: unat_word_ariths unat_next SURROGATE_OFFSET_def mod_simps)
  also have "\<dots> = ((unat h - 0xd800) * 1024 + (unat l - 0xdc00) + 0x10000 + 2 ^ 32) mod 2 ^ 32"
    using h l by (intro arg_cong [of _ _ "\<lambda>x. x mod 2 ^ 32"]) (simp add: diff_mult_distrib)
  also have "\<dots> = (unat h - 0xd800) * 1024 + (unat l - 0xdc00) + 0x10000"
    using h l by (simp only: mod_add_self2) (rule mod_less, simp)
  finally show ?thesis .
qed

lemma next_utf16_split:
  assumes "ws \<noteq> []" and "next_utf16 ws = Inr (cp, ws')"
  shows "ws = surrogate_pair cp @ ws' \<and> is_code_point_valid cp"
proof (cases ws)
  case (Cons h rest)
  show ?thesis
  proof (cases "is_lead_surrogate (ucast h)")
    case True
    with assms Cons obtain l where l: "rest = l # ws'" "is_trail_surrogate (ucast l)"
      and cp: "cp = push_bit 10 (ucast h) + ucast l + SURROGATE_OFFSET"
      by (auto simp: next_utf16_def Let_def split: list.splits if_splits)
    have b: "0xd800 \<le> unat h" "unat h \<le> 0xdbff" "0xdc00 \<le> unat l" "unat l \<le> 0xdfff"
      using True l(2) by (simp_all add: is_lead_surrogate_def is_trail_surrogate_def word_le_nat_alt unat_next)
    define n where "n = unat cp"
    have n: "n = (unat h - 0xd800) * 1024 + (unat l - 0xdc00) + 0x10000"
      unfolding n_def cp by (rule join_surrogates [OF True l(2)])
    have valid: "0xffff < cp" "is_code_point_valid cp"
      using n b by (auto simp: is_code_point_valid_def is_surrogate_def word_le_nat_alt word_less_nat_alt n_def)
    obtain k where k: "unat l = 0xdc00 + k" "k < 1024" using b(3,4) by (auto simp: le_iff_add)
    have "n = k + (unat h - 0xd7c0) * 1024" using n b k by (simp add: diff_mult_distrib)
    then have "n div 1024 = unat h - 0xd7c0" "n mod 1024 = unat l - 0xdc00" using k by simp_all
    then have "n div 1024 + 0xd7c0 = unat h" "n mod 1024 + 0xdc00 = unat l" using b by simp_all
    moreover have "(ucast (drop_bit 10 cp + 0xd7c0) :: u16) = of_nat (n div 1024 + 0xd7c0)"
    proof -
      have "unat (drop_bit 10 cp + 0xd7c0) = n div 1024 + 0xd7c0"
        using n b by (simp add: unat_word_ariths unsigned_drop_bit_eq n_def drop_bit_eq_div)
      then show ?thesis by (metis of_nat_unat)
    qed
    moreover have "(ucast ((cp AND 0x3ff) + 0xdc00) :: u16) = of_nat (n mod 1024 + 0xdc00)"
    proof -
      have "cp AND 0x3ff = take_bit 10 cp" by (simp add: take_bit_eq_mask mask_eq_exp_minus_1)
      then have "unat (cp AND 0x3ff) = n mod 1024" 
        by (simp only: unsigned_take_bit_eq n_def) (simp add: take_bit_eq_mod)
      then have "unat ((cp AND 0x3ff) + 0xdc00) = n mod 1024 + 0xdc00" by (simp add: unat_word_ariths)
      then show ?thesis by (metis of_nat_unat)
    qed
    ultimately show ?thesis using valid l Cons by (simp add: surrogate_pair_def)
  next
    case False
    with assms Cons have cp: "cp = ucast h" "ws' = rest" and nt: "\<not> is_trail_surrogate (ucast h)"
      by (auto simp: next_utf16_def Let_def split: list.splits if_splits)
    have "(ucast (ucast h :: u32) :: u16) = h" by (rule bit_eqI) (auto simp: bit_simps)
    with False nt cp Cons show ?thesis using unat_next(2) [of h]
      by (auto simp: surrogate_pair_def is_code_point_valid_def is_surrogate_def is_lead_surrogate_def
          is_trail_surrogate_def word_le_nat_alt word_less_nat_alt unat_next(1))
  qed
qed (use assms in simp)

section \<open>The round trip\<close>

text \<open>The strings the conversion accepts: every lead surrogate is followed by a trail
  surrogate, and no other trail surrogate occurs.\<close>

fun well_formed16 :: "wstring \<Rightarrow> bool" where
  "well_formed16 [] = True"
| "well_formed16 (h # ws) =
     (if is_lead_surrogate (ucast h)
      then (case ws of [] \<Rightarrow> False | l # ws' \<Rightarrow> is_trail_surrogate (ucast l) \<and> well_formed16 ws')
      else \<not> is_trail_surrogate (ucast h) \<and> well_formed16 ws)"

lemma well_formed16_next:
  assumes "ws \<noteq> []"
  shows "well_formed16 ws \<longleftrightarrow> (\<exists>cp ws'. next_utf16 ws = Inr (cp, ws') \<and> well_formed16 ws')"
  using assms by (cases ws) (auto simp: next_utf16_def Let_def split: list.splits)

lemma utf16to8_total:
  "if well_formed16 ws then \<exists>bs. utf16to8 ws = Inr bs \<and> utf8to16 bs = Inr ws else utf16to8 ws = Inl INVALID_UTF16"
proof (induction ws rule: utf16to8.induct)
  case (1 ws)
  show ?case
  proof (cases "ws = []")
    case True
    then show ?thesis by (simp add: utf16to8.simps [of "[]"] utf8to16.simps [of "[]"])
  next
    case False
    show ?thesis
    proof (cases "next_utf16 ws")
      case (Inl e)
      then have "e = INVALID_UTF16" by (auto simp: next_utf16_def Let_def split: if_splits list.splits)
      with False Inl well_formed16_next [OF False] show ?thesis by (simp add: utf16to8.simps [of ws])
    next
      case (Inr r)
      obtain cp ws' where r: "next_utf16 ws = Inr (cp, ws')" using Inr by (cases r) auto
      from next_utf16_split [OF False r] have split: "ws = surrogate_pair cp @ ws'" and v: "is_code_point_valid cp"
        by auto
      have wf: "well_formed16 ws = well_formed16 ws'" using r well_formed16_next [OF False] by simp
      have step: "utf16to8 ws = (case utf16to8 ws' of Inl e \<Rightarrow> Inl e | Inr bs' \<Rightarrow> Inr (append_cp cp @ bs'))"
        using False r v by (simp add: utf16to8.simps [of ws] append_checked_def)
      have ih: "if well_formed16 ws' then \<exists>bs. utf16to8 ws' = Inr bs \<and> utf8to16 bs = Inr ws'
          else utf16to8 ws' = Inl INVALID_UTF16"
        by (rule "1.IH" [OF False r refl, of "append_cp cp"]) (simp add: append_checked_def v)
      show ?thesis
      proof (cases "well_formed16 ws'")
        case True
        with ih obtain bs where bs: "utf16to8 ws' = Inr bs" "utf8to16 bs = Inr ws'" by auto
        have "append_cp cp \<noteq> []" by (simp add: append_cp_def)
        then have "utf8to16 (append_cp cp @ bs) = Inr ws"
          by (subst utf8to16.simps) (simp add: validate_next_append [OF v] bs split)
        with step bs wf True show ?thesis by simp
      next
        case False
        with ih step wf show ?thesis by simp
      qed
    qed
  qed
qed

lemma wstring_to_utf8_ok:
  "well_formed16 p \<Longrightarrow> \<exists>bs. wstring_to_utf8 p = Inr bs \<and> utf8_to_wstring bs = Inr p"
  using utf16to8_total [of p] by (auto simp: wstring_to_utf8_def utf8_to_wstring_def)

lemma wstring_to_utf8_wf: "wstring_to_utf8 p = Inr bs \<Longrightarrow> well_formed16 p \<and> utf8_to_wstring bs = Inr p"
  using utf16to8_total [of p] by (auto simp: wstring_to_utf8_def utf8_to_wstring_def split: if_splits)

text \<open>A zero byte stands for a zero unit only.\<close>

lemma high_octet: "bit (c :: u8) 7 \<Longrightarrow> c \<noteq> 0"
  by auto

lemma append_cp_nonzero:
  assumes "cp \<noteq> 0"
  shows "0 \<notin> set (append_cp cp)"
proof (cases "cp < 0x80")
  case True
  with assms small_word [OF True] show ?thesis by (auto simp: append_cp_def)
next
  case False
  have o: "bit (ucast (x OR 0xc0 :: u32) :: u8) 7" "bit (ucast (x OR 0xe0 :: u32) :: u8) 7"
    "bit (ucast (x OR 0xf0 :: u32) :: u8) 7" "bit (ucast (x OR 0x80 :: u32) :: u8) 7" for x
    by (simp_all add: utf_bits)
  from False o [THEN high_octet] show ?thesis by (simp add: append_cp_def eq_commute [of 0])
qed

lemma utf16to8_nonzero: "utf16to8 ws = Inr bs \<Longrightarrow> 0 \<notin> set ws \<Longrightarrow> 0 \<notin> set bs"
proof (induction ws arbitrary: bs rule: utf16to8.induct)
  case (1 ws)
  show ?case
  proof (cases "ws = []")
    case True
    with "1.prems" show ?thesis by (simp add: utf16to8.simps [of "[]"])
  next
    case False
    with "1.prems"(1) obtain cp ws' where n: "next_utf16 ws = Inr (cp, ws')"
      by (auto simp: utf16to8.simps [of ws] split: sum.splits)
    from next_utf16_split [OF False n] have split: "ws = surrogate_pair cp @ ws'" and v: "is_code_point_valid cp"
      by auto
    have "cp \<noteq> 0" using "1.prems"(2) split by (auto simp: surrogate_pair_def)
    moreover obtain bs' where "utf16to8 ws' = Inr bs'" "bs = append_cp cp @ bs'"
      using "1.prems"(1) False n v by (auto simp: utf16to8.simps [of ws] append_checked_def split: sum.splits)
    moreover have "0 \<notin> set ws'" using "1.prems"(2) split by simp
    ultimately show ?thesis
      using "1.IH" [OF False n refl, of "append_cp cp"] v by (simp add: append_checked_def append_cp_nonzero)
  qed
qed

text \<open>a path is stored and read back unchanged exactly when it is well-formed UTF-16; a path with
  an unpaired surrogate, which NTFS allows, is refused with the exception \<open>invalid_utf16\<close>, never
  stored in a changed form.\<close>

theorem path_encoding_roundtrip:
  "case wstring_to_utf8 p of
     Inr bs \<Rightarrow> well_formed16 p \<and> utf8_to_wstring bs = Inr p
   | Inl e \<Rightarrow> \<not> well_formed16 p \<and> e = INVALID_UTF16"
  using utf16to8_total [of p]
  by (auto simp: wstring_to_utf8_def utf8_to_wstring_def split: if_splits)

end
