(* ===== verification/Utf8Decode.thy ===== *)
theory Utf8Decode
  imports Encoding
begin

text \<open>
  The other direction of the conversion of paths (\<open>src/src/MyUtils/Encoding.cpp\<close>): a byte string
  the decoder accepts is the only encoding of what it yields. With the round trip of the theory
  \<open>Encoding\<close> the well-formed wide strings and the accepted byte strings correspond one to one, so
  no two byte strings name the same file and every decoded name can be written back.
\<close>

lemma upt_8: "[0..<8] = [0, 1, 2, 3, 4, 5, 6, 7 :: nat]"
  by (simp add: upt_rec)

lemma word8_eqI: "(\<forall>k \<in> set [0..<8]. bit (a :: u8) k = bit b k) \<Longrightarrow> a = b"
  by (rule bit_word_eqI) simp

lemma high_bits_less:
  assumes "\<And>n. k \<le> n \<Longrightarrow> \<not> bit (cp :: u32) n"
  shows "unat cp < 2 ^ k"
proof -
  have "take_bit k cp = cp" by (rule bit_word_eqI) (use assms not_less in \<open>auto simp: bit_take_bit_iff\<close>)
  then have "unat cp = take_bit k (unat cp)" by (metis unsigned_take_bit_eq)
  then show ?thesis by (metis take_bit_nat_less_exp)
qed

lemma encode_2:
  assumes "bit c 7" "bit c 6" "\<not> bit c 5" and "is_trail d"
    and cp: "cp = (push_bit 6 (ucast c) AND 0x7ff) + (ucast d AND 0x3f :: u32)"
  shows "unat cp < 0x800" and "[ucast (drop_bit 6 cp OR 0xc0), ucast ((cp AND 0x3f) OR 0x80)] = [c, d]"
proof -
  have eq: "cp = (push_bit 6 (ucast c) AND 0x7ff) OR (ucast d AND 0x3f)"
    unfolding cp by (rule disjunctive_add) (auto simp: utf_bits)
  show "[ucast (drop_bit 6 cp OR 0xc0), ucast ((cp AND 0x3f) OR 0x80)] = [c, d]"
    using assms(1-4) unfolding is_trail_bits
    by (simp, intro conjI; intro word8_eqI; unfold upt_8) (simp_all add: eq utf_bits)
  show "unat cp < 0x800" using high_bits_less [of 11 cp] by (simp add: eq utf_bits)
qed

lemma encode_3:
  assumes "bit c 7" "bit c 6" "bit c 5" "\<not> bit c 4" and "is_trail d" "is_trail e"
    and cp: "cp = (push_bit 12 (ucast c) AND 0xffff) + (push_bit 6 (ucast d) AND 0xfff) + (ucast e AND 0x3f :: u32)"
  shows "unat cp < 0x10000" and "[ucast (drop_bit 12 cp OR 0xe0), ucast ((drop_bit 6 cp AND 0x3f) OR 0x80),
      ucast ((cp AND 0x3f) OR 0x80)] = [c, d, e]"
proof -
  let ?a = "push_bit 12 (ucast c) AND 0xffff :: u32" and ?b = "push_bit 6 (ucast d) AND 0xfff :: u32"
    and ?c = "ucast e AND 0x3f :: u32"
  have trails: "bit d 7" "\<not> bit d 6" "bit e 7" "\<not> bit e 6" using assms(5,6) by (simp_all add: is_trail_bits)
  have ab: "?a + ?b = ?a OR ?b" by (rule disjunctive_add) (auto simp: utf_bits)
  have "(?a OR ?b) + ?c = ?a OR ?b OR ?c"
    unfolding or.assoc [symmetric] by (rule disjunctive_add) (auto simp: utf_bits)
  then have eq: "cp = ?a OR ?b OR ?c" unfolding cp ab .
  show "[ucast (drop_bit 12 cp OR 0xe0), ucast ((drop_bit 6 cp AND 0x3f) OR 0x80), ucast ((cp AND 0x3f) OR 0x80)] = [c, d, e]"
    using assms(1-4) trails
    by (simp, intro conjI; intro word8_eqI; unfold upt_8) (simp_all add: eq utf_bits)
  show "unat cp < 0x10000" using high_bits_less [of 16 cp] by (simp add: eq utf_bits)
qed

lemma encode_4:
  assumes "bit c 7" "bit c 6" "bit c 5" "bit c 4" "\<not> bit c 3" and "is_trail d" "is_trail e" "is_trail g"
    and cp: "cp = (push_bit 18 (ucast c) AND 0x1fffff) + (push_bit 12 (ucast d) AND 0x3ffff) +
      (push_bit 6 (ucast e) AND 0xfff) + (ucast g AND 0x3f :: u32)"
  shows "[ucast (drop_bit 18 cp OR 0xf0), ucast ((drop_bit 12 cp AND 0x3f) OR 0x80),
      ucast ((drop_bit 6 cp AND 0x3f) OR 0x80), ucast ((cp AND 0x3f) OR 0x80)] = [c, d, e, g]"
proof -
  let ?a = "push_bit 18 (ucast c) AND 0x1fffff :: u32" and ?b = "push_bit 12 (ucast d) AND 0x3ffff :: u32"
    and ?c = "push_bit 6 (ucast e) AND 0xfff :: u32" and ?d = "ucast g AND 0x3f :: u32"
  have trails: "bit d 7" "\<not> bit d 6" "bit e 7" "\<not> bit e 6" "bit g 7" "\<not> bit g 6"
    using assms(6-8) by (simp_all add: is_trail_bits)
  have ab: "?a + ?b = ?a OR ?b" by (rule disjunctive_add) (auto simp: utf_bits)
  have abc: "(?a OR ?b) + ?c = ?a OR ?b OR ?c"
    unfolding or.assoc [symmetric] by (rule disjunctive_add) (auto simp: utf_bits)
  have "(?a OR ?b OR ?c) + ?d = ?a OR ?b OR ?c OR ?d"
    unfolding or.assoc [symmetric] by (rule disjunctive_add) (auto simp: utf_bits)
  then have eq: "cp = ?a OR ?b OR ?c OR ?d" unfolding cp ab abc .
  show ?thesis
    using assms(1-5) trails
    by (simp, intro conjI; intro word8_eqI; unfold upt_8) (simp_all add: eq utf_bits)
qed

lemma increase_safely_Inr: "increase_safely it = Inr (d, it') \<longleftrightarrow> it = d # it' \<and> is_trail d"
  by (cases it) auto

lemmas sequence_defs = get_sequence_2_def get_sequence_3_def get_sequence_4_def

lemma get_sequence_2_Inr:
  "get_sequence_2 c it = Inr (cp, it') \<longleftrightarrow> (\<exists>d. it = d # it' \<and> is_trail d \<and>
     cp = (push_bit 6 (ucast c) AND 0x7ff) + (ucast d AND 0x3f))"
  by (auto simp: get_sequence_2_def increase_safely_Inr split: sum.splits)

lemma get_sequence_3_Inr:
  "get_sequence_3 c it = Inr (cp, it') \<longleftrightarrow> (\<exists>d e. it = d # e # it' \<and> is_trail d \<and> is_trail e \<and>
     cp = (push_bit 12 (ucast c) AND 0xffff) + (push_bit 6 (ucast d) AND 0xfff) + (ucast e AND 0x3f))"
  by (auto simp: get_sequence_3_def increase_safely_Inr Let_def split: sum.splits)

lemma get_sequence_4_Inr:
  "get_sequence_4 c it = Inr (cp, it') \<longleftrightarrow> (\<exists>d e g. it = d # e # g # it' \<and> is_trail d \<and> is_trail e \<and> is_trail g \<and>
     cp = (push_bit 18 (ucast c) AND 0x1fffff) + (push_bit 12 (ucast d) AND 0x3ffff) +
       (push_bit 6 (ucast e) AND 0xfff) + (ucast g AND 0x3f))"
  by (auto simp: get_sequence_4_def increase_safely_Inr Let_def split: sum.splits)

text \<open>An accepted sequence is the encoding of its code point: no overlong form gets through.\<close>

lemma validate_next_only:
  assumes "validate_next it = Inr (cp, it')"
  shows "is_code_point_valid cp" and "it = append_cp cp @ it'"
proof -
  obtain c rest where it: "it = c # rest" using assms by (cases it) (simp_all add: validate_next_def)
  define seq where "seq = (if sequence_length c = 1 then Inr (ucast c, rest) else if sequence_length c = 2 then get_sequence_2 c rest
    else if sequence_length c = 3 then get_sequence_3 c rest else get_sequence_4 c rest)"
  have step: "validate_next it = (if sequence_length c = 0 then Inl INVALID_LEAD else case seq of Inl e \<Rightarrow> Inl e
      | Inr (cp, it) \<Rightarrow> if \<not> is_code_point_valid cp then Inl INVALID_CODE_POINT
          else if is_overlong_sequence cp (sequence_length c) then Inl OVERLONG_SEQUENCE else Inr (cp, it))"
    by (simp add: it validate_next_def seq_def Let_def)
  have v: "seq = Inr (cp, it')" and valid: "is_code_point_valid cp"
    and o': "\<not> is_overlong_sequence cp (sequence_length c)" and z: "sequence_length c \<noteq> 0"
    using assms unfolding step by (auto split: if_splits sum.splits)
  show "is_code_point_valid cp" by (rule valid)
  have len: "sequence_length c \<in> {1, 2, 3, 4}" using z unfolding sequence_length_bits by (simp split: if_splits)
  then consider "sequence_length c = 1" | "sequence_length c = 2" | "sequence_length c = 3" | "sequence_length c = 4" by auto
  then show "it = append_cp cp @ it'"
  proof cases
    case 1
    with v have "cp = ucast c" "it' = rest" by (simp_all add: seq_def)
    moreover have "cp < 0x80"
    proof -
      have "\<not> bit c 7" using 1 unfolding sequence_length_bits by (simp split: if_splits)
      then have "\<not> bit cp n" if "7 \<le> n" for n
        using that bit_imp_le_length [of c n] \<open>cp = ucast c\<close> by (cases "n = 7") (auto simp: bit_simps)
      then have "unat cp < 2 ^ 7" by (rule high_bits_less)
      then show ?thesis by (simp add: word_less_nat_alt)
    qed
    moreover have "(ucast (ucast c :: u32) :: u8) = c" by (rule bit_word_eqI) (simp add: bit_simps)
    ultimately show ?thesis by (simp add: append_cp_def it)
  next
    case 2
    with v have "get_sequence_2 c rest = Inr (cp, it')" by (simp add: seq_def)
    then obtain d where d: "rest = d # it'" "is_trail d" "cp = (push_bit 6 (ucast c) AND 0x7ff) + (ucast d AND 0x3f)"
      by (auto simp: get_sequence_2_Inr)
    have "bit c 7" "bit c 6" "\<not> bit c 5" using 2 unfolding sequence_length_bits by (simp_all split: if_splits)
    note e = encode_2 [OF this d(2,3)]
    have "\<not> cp < 0x80" "cp < 0x800" using o' 2 e(1) by (auto simp: is_overlong_sequence_def word_less_nat_alt split: if_splits)
    then show ?thesis using e(2) by (simp add: append_cp_def it d(1))
  next
    case 3
    with v have "get_sequence_3 c rest = Inr (cp, it')" by (simp add: seq_def)
    then obtain d e where d: "rest = d # e # it'" "is_trail d" "is_trail e"
      "cp = (push_bit 12 (ucast c) AND 0xffff) + (push_bit 6 (ucast d) AND 0xfff) + (ucast e AND 0x3f)"
      by (auto simp: get_sequence_3_Inr)
    have "bit c 7" "bit c 6" "bit c 5" "\<not> bit c 4" using 3 unfolding sequence_length_bits by (simp_all split: if_splits)
    note e = encode_3 [OF this d(2-4)]
    have "\<not> cp < 0x80" "\<not> cp < 0x800" "cp < 0x10000"
      using o' 3 e(1) by (auto simp: is_overlong_sequence_def word_less_nat_alt split: if_splits)
    then show ?thesis using e(2) by (simp add: append_cp_def it d(1))
  next
    case 4
    with v have "get_sequence_4 c rest = Inr (cp, it')" by (simp add: seq_def)
    then obtain d e g where d: "rest = d # e # g # it'" "is_trail d" "is_trail e" "is_trail g"
      "cp = (push_bit 18 (ucast c) AND 0x1fffff) + (push_bit 12 (ucast d) AND 0x3ffff) +
        (push_bit 6 (ucast e) AND 0xfff) + (ucast g AND 0x3f)"
      by (auto simp: get_sequence_4_Inr)
    have "bit c 7" "bit c 6" "bit c 5" "bit c 4" "\<not> bit c 3" using 4 unfolding sequence_length_bits by (simp_all split: if_splits)
    note e = encode_4 [OF this d(2-5)]
    have "\<not> cp < 0x80" "\<not> cp < 0x800" "\<not> cp < 0x10000"
      using o' 4 by (auto simp: is_overlong_sequence_def word_less_nat_alt split: if_splits)
    then show ?thesis using e by (simp add: append_cp_def it d(1))
  qed
qed

text \<open>The units of a valid code point are read back as that code point.\<close>

lemma next_utf16_pair:
  assumes "is_code_point_valid cp"
  shows "next_utf16 (surrogate_pair cp @ ws) = Inr (cp, ws)"
proof (cases "cp > 0xffff")
  case False
  then have "unat cp \<le> 0xffff" by (simp add: word_less_nat_alt)
  then have "take_bit 16 cp = cp"
    by (intro word_unat_eq_iff [THEN iffD2]) (simp add: unsigned_take_bit_eq take_bit_nat_eq_self)
  then have low: "bit cp n \<longleftrightarrow> bit cp n \<and> n < 16" for n by (metis bit_take_bit_iff)
  have "(ucast (ucast cp :: u16) :: u32) = cp"
    by (rule bit_word_eqI) (use low in \<open>auto simp: bit_simps\<close>)
  with False assms show ?thesis
    by (auto simp: surrogate_pair_def next_utf16_def Let_def is_code_point_valid_def is_surrogate_def
        is_lead_surrogate_def is_trail_surrogate_def word_le_nat_alt)
next
  case True
  have n: "0x10000 \<le> unat cp" "unat cp \<le> 0x10ffff"
    using True assms by (simp_all add: is_code_point_valid_def word_less_nat_alt word_le_nat_alt)
  let ?h = "drop_bit 10 cp + 0xd7c0" and ?l = "(cp AND 0x3ff) + 0xdc00"
  have h: "unat ?h = unat cp div 1024 + 0xd7c0"
    using n by (simp add: unat_word_ariths unsigned_drop_bit_eq drop_bit_eq_div)
  have "cp AND 0x3ff = take_bit 10 cp" by (simp add: take_bit_eq_mask mask_eq_exp_minus_1)
  then have "unat (cp AND 0x3ff) = unat cp mod 1024" by (simp only: unsigned_take_bit_eq) (simp add: take_bit_eq_mod)
  then have l: "unat ?l = unat cp mod 1024 + 0xdc00" by (simp add: unat_word_ariths)
  have uh: "unat (ucast ?h :: u16) = unat cp div 1024 + 0xd7c0" using n by (simp add: unat_ucast_u16 h)
  have ul: "unat (ucast ?l :: u16) = unat cp mod 1024 + 0xdc00" using n by (simp add: unat_ucast_u16 l)
  have q: "64 \<le> unat cp div 1024" "unat cp div 1024 \<le> 1087"
    using div_le_mono [OF n(1), of 1024] div_le_mono [OF n(2), of 1024] by simp_all
  have lead: "is_lead_surrogate (ucast (ucast ?h :: u16))" "is_trail_surrogate (ucast (ucast ?l :: u16))"
    using q by (simp_all add: is_lead_surrogate_def is_trail_surrogate_def word_le_nat_alt unat_next uh ul)
  obtain k where k: "unat cp div 1024 = 64 + k" using q(1) le_Suc_ex by blast
  have join: "(unat cp div 1024 - 64) * 1024 + unat cp mod 1024 + 65536 = unat cp"
    using div_mult_mod_eq [of "unat cp" 1024] unfolding k by simp
  have "unat (push_bit 10 (ucast (ucast ?h :: u16) :: u32) + ucast (ucast ?l :: u16) + SURROGATE_OFFSET) = unat cp"
    using join by (simp add: join_surrogates [OF lead] uh ul)
  then show ?thesis using True lead by (simp add: surrogate_pair_def next_utf16_def Let_def word_unat_eq_iff)
qed

lemma utf8to16_back: "utf8to16 it = Inr ws \<Longrightarrow> utf16to8 ws = Inr it \<and> well_formed16 ws"
proof (induction it arbitrary: ws rule: utf8to16.induct)
  case (1 it)
  show ?case
  proof (cases "it = []")
    case True
    with "1.prems" show ?thesis by (simp add: utf8to16.simps [of "[]"] utf16to8.simps [of "[]"])
  next
    case False
    with "1.prems" obtain cp it' ws' where s: "validate_next it = Inr (cp, it')" "utf8to16 it' = Inr ws'"
      "ws = surrogate_pair cp @ ws'"
      by (auto simp: utf8to16.simps [of it] split: sum.splits)
    note v = validate_next_only [OF s(1)] and ih = "1.IH" [OF False s(1) refl s(2)]
    have ne: "ws \<noteq> []" by (simp add: s(3) surrogate_pair_def)
    have nx: "next_utf16 ws = Inr (cp, ws')" unfolding s(3) by (rule next_utf16_pair [OF v(1)])
    then have "utf16to8 ws = Inr (append_cp cp @ it')"
      using ne ih v(1) by (simp add: utf16to8.simps [of ws] append_checked_def)
    moreover have "well_formed16 ws" using well_formed16_next [OF ne] nx ih by simp
    ultimately show ?thesis using v(2) by simp
  qed
qed

section \<open>Properties\<close>

text \<open>The two directions of the conversion are inverse to each other: a byte string decodes to
  a wide string exactly when that wide string encodes to it. So the encoding of a path is
  unique, overlong and surrogate sequences are refused, and what was decoded can always be
  encoded again.\<close>

theorem path_conversion_inverse:
  "utf8_to_wstring bs = Inr ws \<longleftrightarrow> wstring_to_utf8 ws = Inr bs"
  using utf8to16_back [of bs ws] wstring_to_utf8_wf [of ws bs] by (auto simp: wstring_to_utf8_def utf8_to_wstring_def)

lemma decoded_well_formed: "utf8_to_wstring bs = Inr ws \<Longrightarrow> well_formed16 ws \<and> wstring_to_utf8 ws = Inr bs"
  using utf8to16_back [of bs ws] by (auto simp: wstring_to_utf8_def utf8_to_wstring_def)

end
