(* ===== verification/UploadSink.thy ===== *)
theory UploadSink
  imports CommandResult Utf8Decode Auth
begin

text \<open>
  Streaming uploads (\<open>src/src/Commands/StreamingUpload/StreamingUpload.cpp\<close>, the Windows branch):
  which file names are safe, where an upload goes, and the sink that collects the bytes in a
  staging file and publishes it under the first free name.

  The file system maps absolute paths, given by their components after the root, to entries.
  It finds a name by its folded form (\<open>ue_fold\<close>, the case-insensitive comparison of NTFS). What
  the operating system may refuse at any call is an argument (\<open>upload_env\<close>). A trailing separator
  of a configured path is not represented. The name of a file in the metadata is a byte string.
\<close>

section \<open>The environment\<close>

type_synonym path = "wstring list"

datatype entry = RegularFile "u8 list" | Directory | ReparsePoint bool

type_synonym file_system = "(path, entry) umap"

record upload_env =
  ue_fold :: "wstring \<Rightarrow> wstring"
  ue_upper :: "wstring \<Rightarrow> wstring"
  ue_status_error :: "path \<Rightarrow> bool"
  ue_create_error :: "path \<Rightarrow> bool"
  ue_attributes_error :: "path \<Rightarrow> bool"
  ue_open_error :: "path \<Rightarrow> bool"
  ue_remove_error :: "path \<Rightarrow> bool"
  ue_leaf :: "nat \<Rightarrow> wstring"

definition key :: "upload_env \<Rightarrow> path \<Rightarrow> path" where
  "key env p = map (ue_fold env) p"

definition fs_entry :: "upload_env \<Rightarrow> file_system \<Rightarrow> path \<Rightarrow> entry option" where
  "fs_entry env fs p = um_find fs (key env p)"

definition fs_put :: "upload_env \<Rightarrow> path \<Rightarrow> entry \<Rightarrow> file_system \<Rightarrow> file_system" where
  "fs_put env p e fs = um_put (key env p) e fs"

text \<open>\<open>fs::remove\<close> with its error ignored.\<close>

definition fs_remove :: "upload_env \<Rightarrow> path \<Rightarrow> file_system \<Rightarrow> file_system" where
  "fs_remove env p fs = (if ue_remove_error env p then fs else um_erase (key env p) fs)"

text \<open>A wide string literal.\<close>

definition wide :: "string \<Rightarrow> wstring" where
  "wide s = map of_char s"

section \<open>Lexical operations on paths\<close>

definition lexically_normal :: "path \<Rightarrow> path" where
  "lexically_normal p =
     fold (\<lambda>part acc. if part = wide ''.'' then acc else if part = wide ''..'' then butlast acc else acc @ [part]) p []"

fun strip_common :: "path \<Rightarrow> path \<Rightarrow> path \<times> path" where
  "strip_common (x # xs) (y # ys) = (if x = y then strip_common xs ys else (x # xs, y # ys))"
| "strip_common xs ys = (xs, ys)"

text \<open>For normal paths: one \<open>..\<close> for every part of the base that is left over.\<close>

definition lexically_relative :: "path \<Rightarrow> path \<Rightarrow> path" where
  "lexically_relative p base =
     (let (rest, up) = strip_common p base
      in if rest = [] \<and> up = [] then [wide ''.''] else replicate (length up) (wide ''..'') @ rest)"

definition compositionStaysUnderDirectory :: "path \<Rightarrow> path \<Rightarrow> bool" where
  "compositionStaysUnderDirectory directory composed =
     (let top = lexically_normal directory; full = lexically_normal composed
      in if full = top then True
         else let relative = lexically_relative full top
              in if relative = [] \<or> relative = [wide ''.''] then full = top
                 else wide ''..'' \<notin> set relative)"

section \<open>Safe names\<close>

definition hasAsciiControlOrForbidden :: "u8 list \<Rightarrow> bool" where
  "hasAsciiControlOrForbidden name \<longleftrightarrow> (\<exists>c \<in> set name. c < 32 \<or> c = 127 \<or> 
     c \<in> {0x2F, 0x5C, 0x3A, 0x3C, 0x3E, 0x22, 0x7C, 0x3F, 0x2A})"

fun strip_trailing :: "wstring \<Rightarrow> wstring" where
  "strip_trailing [] = []"
| "strip_trailing (c # cs) =
     (let s = strip_trailing cs in if s = [] \<and> (c = 0x20 \<or> c = 0x2E) then [] else c # s)"

definition isReservedDeviceStem :: "upload_env \<Rightarrow> wstring \<Rightarrow> bool" where
  "isReservedDeviceStem env stem =
     (let stem = ue_upper env (strip_trailing stem)
      in if stem \<in> {wide ''CON'', wide ''PRN'', wide ''AUX'', wide ''NUL''} then True
         else length stem = 4 \<and> take 3 stem \<in> {wide ''COM'', wide ''LPT''} \<and> 0x31 \<le> stem ! 3 \<and> stem ! 3 \<le> 0x39)"

text \<open>\<open>stem\<close> and \<open>extension\<close> of a name without separators: the extension starts at the last dot,
  unless that is the first character or the name is \<open>..\<close>.\<close>

definition stem_extension :: "wstring \<Rightarrow> wstring \<times> wstring" where
  "stem_extension name =
     (let ext = rev (takeWhile (\<lambda>c. c \<noteq> 0x2E) (rev name))
      in if length ext = length name \<or> length ext + 1 = length name \<or> name = wide ''..'' then (name, [])
         else (take (length name - length ext - 1) name, drop (length name - length ext - 1) name))"

definition isReservedWindowsDeviceName :: "upload_env \<Rightarrow> wstring \<Rightarrow> bool" where
  "isReservedWindowsDeviceName env filename =
     (if isReservedDeviceStem env filename then True
      else if isReservedDeviceStem env (fst (stem_extension filename)) then True
      else 0x2E \<in> set filename \<and> isReservedDeviceStem env (takeWhile (\<lambda>c. c \<noteq> 0x2E) filename))"

text \<open>The decomposition of a Windows path: its root name (a drive, or a server after two
  separators), a separator after it, and the file name.\<close>

definition is_separator :: "u16 \<Rightarrow> bool" where
  "is_separator c \<longleftrightarrow> c = 0x2F \<or> c = 0x5C"

definition is_drive_letter :: "u16 \<Rightarrow> bool" where
  "is_drive_letter c \<longleftrightarrow> 0x41 \<le> c \<and> c \<le> 0x5A \<or> 0x61 \<le> c \<and> c \<le> 0x7A"

definition root_name :: "wstring \<Rightarrow> wstring" where
  "root_name w =
     (case w of
        a # b # rest \<Rightarrow>
          if is_drive_letter a \<and> b = 0x3A then [a, b]
          else if is_separator a \<and> is_separator b \<and> rest \<noteq> [] \<and> \<not> is_separator (hd rest)
          then a # b # takeWhile (\<lambda>c. \<not> is_separator c) rest
          else []
      | _ \<Rightarrow> [])"

definition has_root_directory :: "wstring \<Rightarrow> bool" where
  "has_root_directory w = (let r = drop (length (root_name w)) w in r \<noteq> [] \<and> is_separator (hd r))"

definition path_filename :: "wstring \<Rightarrow> wstring" where
  "path_filename w =
     (let r = drop (length (root_name w)) w in rev (takeWhile (\<lambda>c. \<not> is_separator c) (rev r)))"

definition isSafeFileComponent :: "upload_env \<Rightarrow> u8 list \<Rightarrow> bool" where
  "isSafeFileComponent env name =
     (if name = [] \<or> name = map of_char ''.'' \<or> name = map of_char ''..'' then False
      else if 0 \<in> set name then False
      else if hasAsciiControlOrForbidden name then False
      else if last name = 0x20 \<or> last name = 0x2E then False
      else case utf8_to_wstring name of
          Inl _ \<Rightarrow> False
        | Inr p \<Rightarrow>
            if p = [] \<or> root_name p \<noteq> [] \<or> has_root_directory p \<or> path_filename p \<noteq> p then False
            else \<not> isReservedWindowsDeviceName env p)"
section \<open>Metadata\<close>

record metadata =
  md_file_name :: "u8 list"
  md_file_size :: u64

definition kMaxMetadataBytes :: u64 where "kMaxMetadataBytes = 16 * 1024"

definition kProtocolVersion :: int where "kProtocolVersion = 1"

text \<open>An integer member as the JSON library reads it into 64 unsigned bits.\<close>

definition unsigned_member :: "json \<Rightarrow> string \<Rightarrow> u64 command_result" where
  "unsigned_member doc name =
     (case json_member doc name of
        Some (JInt n) \<Rightarrow> if n < 0 then Inl InvalidRequest else Inr (word_of_int n)
      | _ \<Rightarrow> Inl InvalidRequest)"

text \<open>\<open>parse\<close> is the JSON parser on the bytes; \<open>None\<close> when it throws.\<close>

definition parseMetadata :: "upload_env \<Rightarrow> (u8 list \<Rightarrow> json option) \<Rightarrow> u8 list \<Rightarrow> metadata command_result" where
  "parseMetadata env parse bytes =
     (if length bytes > unat kMaxMetadataBytes then Inl PayloadTooLarge
      else case parse bytes of
          None \<Rightarrow> Inl InvalidJson
        | Some (JObject members) \<Rightarrow>
            (let doc = JObject members
             in if length members \<noteq> 3 then Inl InvalidRequest
                else if json_member doc ''version'' = None \<or> json_member doc ''file_name'' = None \<or>
                  json_member doc ''file_size'' = None then Inl InvalidRequest
                else (case unsigned_member doc ''version'' of
                    Inl e \<Rightarrow> Inl e
                  | Inr version \<Rightarrow>
                      if version \<noteq> word_of_int kProtocolVersion then Inl InvalidRequest
                      else (case json_member doc ''file_name'' of
                          Some (JString fileName) \<Rightarrow>
                            (case unsigned_member doc ''file_size'' of
                               Inl e \<Rightarrow> Inl e
                             | Inr fileSize \<Rightarrow>
                                 if \<not> isSafeFileComponent env (map of_char fileName) then Inl InvalidRequest
                                 else Inr \<lparr>md_file_name = map of_char fileName, md_file_size = fileSize\<rparr>)
                        | _ \<Rightarrow> Inl InvalidRequest)))
        | Some _ \<Rightarrow> Inl InvalidRequest)"

section \<open>Directories\<close>

text \<open>\<open>None\<close> when the path is what it must be, or is not there.\<close>

definition checkExistingPathAttributes :: "upload_env \<Rightarrow> file_system \<Rightarrow> path \<Rightarrow> bool \<Rightarrow> error_code option" where
  "checkExistingPathAttributes env fs p mustBeDirectory =
     (if ue_attributes_error env p then Some FileMetadataFailed
      else case fs_entry env fs p of
          None \<Rightarrow> None
        | Some (ReparsePoint _) \<Rightarrow> Some FileOpenFailed
        | Some Directory \<Rightarrow> if mustBeDirectory then None else Some FileOpenFailed
        | Some (RegularFile _) \<Rightarrow> if mustBeDirectory then Some ConfigurationError else None)"

text \<open>\<open>fs::exists\<close> follows a reparse point, whose flag says whether its target is there.\<close>

definition fs_exists :: "upload_env \<Rightarrow> file_system \<Rightarrow> path \<Rightarrow> bool" where
  "fs_exists env fs p = (case fs_entry env fs p of None \<Rightarrow> False | Some (ReparsePoint b) \<Rightarrow> b | Some _ \<Rightarrow> True)"

definition prefixes_of :: "path \<Rightarrow> path list" where
  "prefixes_of p = map (\<lambda>n. take n p) [1..<Suc (length p)]"

definition create_directories :: "upload_env \<Rightarrow> path \<Rightarrow> file_system \<Rightarrow> file_system option" where
  "create_directories env p fs =
     (if ue_create_error env p \<or>
         (\<exists>q \<in> set (prefixes_of p). case fs_entry env fs q of
            Some (RegularFile _) \<Rightarrow> True | Some (ReparsePoint b) \<Rightarrow> \<not> b | _ \<Rightarrow> False) then None
      else Some (fold (\<lambda>q fs. if fs_entry env fs q = None then fs_put env q Directory fs else fs) (prefixes_of p) fs))"

definition ensureDirectoryExistsSafe :: "upload_env \<Rightarrow> path \<Rightarrow> file_system \<Rightarrow> error_code option \<times> file_system" where
  "ensureDirectoryExistsSafe env directory fs =
     (if ue_status_error env directory then (Some FileMetadataFailed, fs)
      else if \<not> fs_exists env fs directory
      then (case create_directories env directory fs of
              None \<Rightarrow> (Some DirectoryCreateFailed, fs)
            | Some fs' \<Rightarrow> (checkExistingPathAttributes env fs' directory True, fs'))
      else (checkExistingPathAttributes env fs directory True, fs))"

fun ensure_parts :: "upload_env \<Rightarrow> path \<Rightarrow> path \<Rightarrow> file_system \<Rightarrow> error_code option \<times> file_system" where
  "ensure_parts env current [] fs = (None, fs)"
| "ensure_parts env current (part # parts) fs =
     (if part = [] \<or> part = wide ''.'' \<or> part = wide ''..'' then (Some ConfigurationError, fs)
      else case ensureDirectoryExistsSafe env (current @ [part]) fs of
          (Some e, fs') \<Rightarrow> (Some e, fs')
        | (None, fs') \<Rightarrow> ensure_parts env (current @ [part]) parts fs')"

definition ensureSafeDirectoryTree :: "upload_env \<Rightarrow> path \<Rightarrow> path \<Rightarrow> file_system \<Rightarrow> error_code option \<times> file_system" where
  "ensureSafeDirectoryTree env base directory fs =
     (if \<not> compositionStaysUnderDirectory base directory \<and> lexically_normal directory \<noteq> lexically_normal base
      then (Some ConfigurationError, fs)
      else (case ensureDirectoryExistsSafe env (lexically_normal base) fs of
          (Some e, fs') \<Rightarrow> (Some e, fs')
        | (None, fs') \<Rightarrow>
            (let relative = lexically_relative (lexically_normal directory) (lexically_normal base)
             in if relative = [] \<or> relative = [wide ''.''] then (None, fs')
                else ensure_parts env (lexically_normal base) relative fs')))"

section \<open>Where an upload goes\<close>

text \<open>A configured root: whether it is absolute, and its parts. The empty path is not absolute.\<close>

datatype configured_root = Root bool path

record planned_target =
  pt_directory :: path
  pt_baseName :: "u8 list"

definition planRaznTarget ::
  "upload_env \<Rightarrow> configured_root \<Rightarrow> metadata \<Rightarrow> file_system \<Rightarrow> planned_target command_result \<times> file_system" where
  "planRaznTarget env raznRoot md fs =
     (case raznRoot of Root absolute parts \<Rightarrow>
        if \<not> absolute then (Inl ConfigurationError, fs)
        else if \<not> isSafeFileComponent env (md_file_name md) then (Inl InvalidRequest, fs)
        else case utf8_to_wstring (md_file_name md) of
            Inl _ \<Rightarrow> (Inl InvalidRequest, fs)
          | Inr name \<Rightarrow>
              (let directory = lexically_normal parts
               in if \<not> compositionStaysUnderDirectory directory (directory @ [name]) then (Inl ConfigurationError, fs)
                  else case ensureSafeDirectoryTree env directory directory fs of
                      (Some e, fs') \<Rightarrow> (Inl e, fs')
                    | (None, fs') \<Rightarrow> (Inr \<lparr>pt_directory = directory, pt_baseName = md_file_name md\<rparr>, fs')))"

record time_parts =
  tp_monthUpper :: wstring
  tp_date :: wstring
  tp_hhmm :: wstring

definition planTlgTarget ::
  "upload_env \<Rightarrow> configured_root \<Rightarrow> u8 list \<Rightarrow> metadata \<Rightarrow> time_parts \<Rightarrow> file_system \<Rightarrow>
   planned_target command_result \<times> file_system" where
  "planTlgTarget env tlgRoot operatorName md tp fs =
     (case tlgRoot of Root absolute parts \<Rightarrow>
        if \<not> absolute then (Inl ConfigurationError, fs)
        else if \<not> isSafeFileComponent env operatorName then (Inl OperatorNotRegistered, fs)
        else if \<not> isSafeFileComponent env (md_file_name md) then (Inl InvalidRequest, fs)
        else if tp_monthUpper tp = [] \<or> tp_date tp = [] \<or> tp_hhmm tp = [] then (Inl InternalError, fs)
        else case (wstring_to_utf8 (tp_monthUpper tp), wstring_to_utf8 (tp_date tp), wstring_to_utf8 (tp_hhmm tp)) of
            (Inr monthUtf8, Inr dateUtf8, Inr hhmmUtf8) \<Rightarrow>
              (if \<not> isSafeFileComponent env monthUtf8 \<or> \<not> isSafeFileComponent env dateUtf8 then (Inl InternalError, fs)
               else let operatorFolder = operatorName @ map of_char ''_'' @ hhmmUtf8
                    in if \<not> isSafeFileComponent env operatorFolder then (Inl OperatorNotRegistered, fs)
                       else case (utf8_to_wstring operatorFolder, utf8_to_wstring (md_file_name md)) of
                           (Inr folder, Inr name) \<Rightarrow>
                             (let top = lexically_normal parts; directory = top @ [tp_monthUpper tp, tp_date tp, folder]
                              in if \<not> compositionStaysUnderDirectory top directory \<or>
                                    \<not> compositionStaysUnderDirectory top (directory @ [name]) then (Inl ConfigurationError, fs)
                                 else case ensureSafeDirectoryTree env top directory fs of
                                     (Some e, fs') \<Rightarrow> (Inl e, fs')
                                   | (None, fs') \<Rightarrow> (Inr \<lparr>pt_directory = directory, pt_baseName = md_file_name md\<rparr>, fs'))
                         | _ \<Rightarrow> (Inl InvalidRequest, fs))
          | _ \<Rightarrow> (Inl InvalidRequest, fs))"

section \<open>The sink\<close>

text \<open>The staging handle is a flag: open or not. An empty path is \<open>None\<close>.\<close>

record upload_sink =
  sk_destinationDir :: path
  sk_stagingPath :: "path option"
  sk_publishedPath :: "path option"
  sk_requestedFileName :: wstring
  sk_savedName :: "u8 list"
  sk_advertisedSize :: u64
  sk_bytesWritten :: u64
  sk_prepared :: bool
  sk_published :: bool
  sk_handle :: bool

definition new_sink :: upload_sink where
  "new_sink = \<lparr>sk_destinationDir = [], sk_stagingPath = None, sk_publishedPath = None, sk_requestedFileName = [],
     sk_savedName = [], sk_advertisedSize = 0, sk_bytesWritten = 0, sk_prepared = False, sk_published = False,
     sk_handle = False\<rparr>"

type_synonym sink_state = "upload_sink \<times> file_system"

definition sink_abort :: "upload_env \<Rightarrow> sink_state \<Rightarrow> sink_state" where
  "sink_abort env = (\<lambda>(sk, fs).
     (sk\<lparr>sk_handle := False, sk_prepared := False, sk_published := False, sk_stagingPath := None, sk_bytesWritten := 0\<rparr>,
      case sk_stagingPath sk of
        Some staging \<Rightarrow> if sk_prepared sk \<and> \<not> sk_published sk then fs_remove env staging fs else fs
      | None \<Rightarrow> fs))"

text \<open>\<open>CREATE_NEW\<close> with the names \<open>nextStagingLeaf\<close> yields, at most \<open>attempts\<close> times.\<close>

fun create_staging :: "upload_env \<Rightarrow> path \<Rightarrow> nat \<Rightarrow> nat \<Rightarrow> file_system \<Rightarrow> (path \<times> file_system) command_result" where
  "create_staging env directory k 0 fs = Inl FileOpenFailed"
| "create_staging env directory k (Suc attempts) fs =
     (let staging = directory @ [ue_leaf env k]
      in if \<not> compositionStaysUnderDirectory directory staging then Inl ConfigurationError
         else if fs_entry env fs staging \<noteq> None then create_staging env directory (Suc k) attempts fs
         else if ue_open_error env staging then Inl FileOpenFailed
         else Inr (staging, fs_put env staging (RegularFile []) fs))"

definition sink_prepare ::
  "upload_env \<Rightarrow> planned_target \<Rightarrow> u64 \<Rightarrow> sink_state \<Rightarrow> error_code option \<times> sink_state" where
  "sink_prepare env target fileSize state =
     (let (sk, fs) = sink_abort env state
      in if pt_directory target = [] \<or> pt_baseName target = [] then (Some InternalError, (sk, fs))
         else if \<not> isSafeFileComponent env (pt_baseName target) then (Some InvalidRequest, (sk, fs))
         else case utf8_to_wstring (pt_baseName target) of
             Inl _ \<Rightarrow> (Some InvalidRequest, (sk, fs))
           | Inr name \<Rightarrow>
               (let sk = sk\<lparr>sk_requestedFileName := name\<rparr>; directory = pt_directory target
                in if \<not> compositionStaysUnderDirectory directory (directory @ [name]) then (Some ConfigurationError, (sk, fs))
                   else case ensureSafeDirectoryTree env directory directory fs of
                       (Some e, fs) \<Rightarrow> (Some e, (sk, fs))
                     | (None, fs) \<Rightarrow>
                         (case create_staging env directory 0 256 fs of
                            Inl e \<Rightarrow> (Some e, (sk, fs))
                          | Inr (staging, fs) \<Rightarrow>
                              (case checkExistingPathAttributes env fs staging False of
                                 Some e \<Rightarrow> (Some e, (sk, fs_remove env staging fs))
                               | None \<Rightarrow>
                                   (None, (sk\<lparr>sk_handle := True, sk_destinationDir := directory, sk_stagingPath := Some staging,
                                      sk_advertisedSize := fileSize, sk_bytesWritten := 0, sk_savedName := [],
                                      sk_publishedPath := None, sk_prepared := True, sk_published := False\<rparr>, fs))))))"

definition kChunkSize :: nat where "kChunkSize = 64 * 1024"

text \<open>\<open>WriteFile\<close> piece by piece; \<open>io k\<close> is the number of bytes the call for piece \<open>k\<close> writes when
  it fails. The flag says whether all pieces were written.\<close>

function write_pieces :: "(nat \<Rightarrow> nat option) \<Rightarrow> nat \<Rightarrow> u8 list \<Rightarrow> u8 list \<Rightarrow> bool \<times> u8 list" where
  "write_pieces io k content chunk =
     (if chunk = [] then (True, content)
      else case io k of
          Some m \<Rightarrow> (False, content @ take (min m kChunkSize) chunk)
        | None \<Rightarrow> write_pieces io (Suc k) (content @ take kChunkSize chunk) (drop kChunkSize chunk))"
  by pat_completeness auto
termination
  by (relation "measure (\<lambda>(io, k, content, chunk). length chunk)") (auto simp: kChunkSize_def)

declare write_pieces.simps [simp del]

definition sink_writeChunk ::
  "upload_env \<Rightarrow> (nat \<Rightarrow> nat option) \<Rightarrow> u8 list \<Rightarrow> sink_state \<Rightarrow> error_code option \<times> sink_state" where
  "sink_writeChunk env io chunk = (\<lambda>(sk, fs).
     if \<not> sk_prepared sk \<or> sk_published sk then (Some InternalError, (sk, fs))
     else if chunk = [] then (None, (sk, fs))
     else if sk_bytesWritten sk > sk_advertisedSize sk \<or>
       length chunk > unat (sk_advertisedSize sk - sk_bytesWritten sk) then (Some InvalidRequest, (sk, fs))
     else if \<not> sk_handle sk then (Some FileOpenFailed, (sk, fs))
     else case (sk_stagingPath sk, fs_entry env fs (the (sk_stagingPath sk))) of
         (Some staging, Some (RegularFile content)) \<Rightarrow>
           (case write_pieces io 0 content chunk of
              (False, content') \<Rightarrow> (Some FileWriteFailed, (sk, fs_put env staging (RegularFile content') fs))
            | (True, content') \<Rightarrow>
                (None, (sk\<lparr>sk_bytesWritten := sk_bytesWritten sk + of_nat (length chunk)\<rparr>,
                   fs_put env staging (RegularFile content') fs)))
       | _ \<Rightarrow> (Some FileWriteFailed, (sk, fs)))"

fun decimal_digits :: "nat \<Rightarrow> u16 list" where
  "decimal_digits n = (if n < 10 then [of_nat (48 + n)] else decimal_digits (n div 10) @ [of_nat (48 + n mod 10)])"

declare decimal_digits.simps [simp del]

definition suffixedFileName :: "wstring \<Rightarrow> nat \<Rightarrow> wstring" where
  "suffixedFileName filename index =
     (if index = 0 then filename
      else let (stem, extension) = stem_extension filename
           in stem @ wide ''('' @ decimal_digits index @ wide '')'' @ extension)"

text \<open>What happens around the attempts of a publication: \<open>pe_before k\<close> and \<open>pe_between k\<close> are what
  others do to the file system before the look at candidate \<open>k\<close> and between that and the move,
  \<open>pe_move_error k\<close> is a move that fails for another reason than a taken name.\<close>

record publish_env =
  pe_before :: "nat \<Rightarrow> file_system \<Rightarrow> file_system"
  pe_between :: "nat \<Rightarrow> file_system \<Rightarrow> file_system"
  pe_move_error :: "nat \<Rightarrow> bool"
  pe_flush_ok :: bool

definition fs_move :: "upload_env \<Rightarrow> path \<Rightarrow> path \<Rightarrow> file_system \<Rightarrow> file_system option" where
  "fs_move env source dest fs =
     (case fs_entry env fs source of
        None \<Rightarrow> None
      | Some e \<Rightarrow> Some (fs_put env dest e (um_erase (key env source) fs)))"

text \<open>The loop over the candidates, \<open>attempts\<close> of them left; \<open>MoveFileExW\<close> without
  \<open>MOVEFILE_REPLACE_EXISTING\<close> fails when the name is taken.\<close>

fun publish_loop ::
  "upload_env \<Rightarrow> publish_env \<Rightarrow> nat \<Rightarrow> nat \<Rightarrow> path \<Rightarrow> sink_state \<Rightarrow> error_code option \<times> sink_state" where
  "publish_loop env pe index 0 staging (sk, fs) = (Some FileWriteFailed, sink_abort env (sk, fs))"
| "publish_loop env pe index (Suc attempts) staging (sk, fs) =
     (let candidate = suffixedFileName (sk_requestedFileName sk) index; dest = sk_destinationDir sk @ [candidate];
          fs = pe_before pe index fs
      in if \<not> compositionStaysUnderDirectory (sk_destinationDir sk) dest
         then (Some ConfigurationError, sink_abort env (sk, fs))
         else if fs_entry env fs dest \<noteq> None then publish_loop env pe (Suc index) attempts staging (sk, fs)
         else let fs = pe_between pe index fs
              in if fs_entry env fs dest \<noteq> None then publish_loop env pe (Suc index) attempts staging (sk, fs)
                 else case (if pe_move_error pe index then None else fs_move env staging dest fs) of
                     None \<Rightarrow> (Some FileWriteFailed, sink_abort env (sk, fs))
                   | Some fs \<Rightarrow>
                       (case checkExistingPathAttributes env fs dest False of
                          Some e \<Rightarrow> (Some e, sink_abort env (sk, fs_remove env dest fs))
                        | None \<Rightarrow>
                            (case wstring_to_utf8 candidate of
                               Inl _ \<Rightarrow> (Some SerializationFailed, sink_abort env (sk, fs))
                             | Inr name \<Rightarrow>
                                 (None, (sk\<lparr>sk_savedName := name, sk_publishedPath := Some dest, sk_stagingPath := None,
                                    sk_prepared := False, sk_published := True\<rparr>, fs)))))"

definition sink_publish :: "upload_env \<Rightarrow> publish_env \<Rightarrow> sink_state \<Rightarrow> error_code option \<times> sink_state" where
  "sink_publish env pe = (\<lambda>(sk, fs).
     if \<not> sk_prepared sk \<or> sk_published sk then (Some InternalError, (sk, fs))
     else if sk_bytesWritten sk \<noteq> sk_advertisedSize sk then (Some FileWriteFailed, (sk, fs))
     else if sk_handle sk \<and> \<not> pe_flush_ok pe then (Some FileWriteFailed, (sk, fs))
     else publish_loop env pe 0 100000 (the (sk_stagingPath sk)) (sk\<lparr>sk_handle := False\<rparr>, fs))"

section \<open>The uploads of a session\<close>

text \<open>The chunks of a body, until one fails.\<close>

fun write_chunks ::
  "upload_env \<Rightarrow> (nat \<Rightarrow> nat \<Rightarrow> nat option) \<Rightarrow> nat \<Rightarrow> u8 list list \<Rightarrow> sink_state \<Rightarrow> error_code option \<times> sink_state" where
  "write_chunks env io n [] state = (None, state)"
| "write_chunks env io n (chunk # chunks) state =
     (case sink_writeChunk env (io n) chunk state of
        (Some e, state) \<Rightarrow> (Some e, state)
      | (None, state) \<Rightarrow> write_chunks env io (Suc n) chunks state)"

text \<open>A whole upload: prepare, write the chunks, publish; the sink is destroyed at the end.\<close>

definition upload_file ::
  "upload_env \<Rightarrow> publish_env \<Rightarrow> (nat \<Rightarrow> nat \<Rightarrow> nat option) \<Rightarrow> planned_target \<Rightarrow> u64 \<Rightarrow> u8 list list \<Rightarrow> file_system \<Rightarrow>
   (u8 list) command_result \<times> file_system" where
  "upload_file env pe io target fileSize chunks fs =
     (case sink_prepare env target fileSize (new_sink, fs) of
        (Some e, state) \<Rightarrow> (Inl e, snd (sink_abort env state))
      | (None, state) \<Rightarrow>
          (case write_chunks env io 0 chunks state of
             (Some e, state) \<Rightarrow> (Inl e, snd (sink_abort env state))
           | (None, state) \<Rightarrow>
               (case sink_publish env pe state of
                  (Some e, state) \<Rightarrow> (Inl e, snd (sink_abort env state))
                | (None, state) \<Rightarrow> (Inr (sk_savedName (fst state)), snd (sink_abort env state)))))"

end
