(* ===== verification/ServerActivity.thy ===== *)
theory ServerActivity
  imports SE_Prelude
begin

text \<open>
  The counters of running commands and sessions (\<open>ServerActivity\<close> in
  \<open>src/src/AsioServer/AsioServer.cpp\<close>): a command or session announces itself, and the shutdown
  waits until none is left. Every function holds the mutex from begin to end, so it is one step.
\<close>

record server_activity =
  active_commands :: nat
  active_sessions :: nat
  sa_stopping :: bool

definition tryStartCommand :: "server_activity \<Rightarrow> bool \<times> server_activity" where
  "tryStartCommand a = (if sa_stopping a then (False, a) else (True, a\<lparr>active_commands := active_commands a + 1\<rparr>))"

definition finishCommand :: "server_activity \<Rightarrow> server_activity" where
  "finishCommand a = (if active_commands a > 0 then a\<lparr>active_commands := active_commands a - 1\<rparr> else a)"

definition tryStartSession :: "server_activity \<Rightarrow> bool \<times> server_activity" where
  "tryStartSession a = (if sa_stopping a then (False, a) else (True, a\<lparr>active_sessions := active_sessions a + 1\<rparr>))"

definition finishSession :: "server_activity \<Rightarrow> server_activity" where
  "finishSession a = (if active_sessions a > 0 then a\<lparr>active_sessions := active_sessions a - 1\<rparr> else a)"

definition stopAccepting :: "server_activity \<Rightarrow> server_activity" where
  "stopAccepting a = a\<lparr>sa_stopping := True\<rparr>"

text \<open>The condition \<open>wait\<close> waits for.\<close>

definition activity_idle :: "server_activity \<Rightarrow> bool" where
  "activity_idle a \<longleftrightarrow> active_commands a = 0 \<and> active_sessions a = 0"

text \<open>The calls, with the commands and sessions that have started and not finished.\<close>

inductive activity_step :: "server_activity \<times> nat \<times> nat \<Rightarrow> server_activity \<times> nat \<times> nat \<Rightarrow> bool" where
  start_command: "tryStartCommand a = (ok, a') \<Longrightarrow> activity_step (a, c, s) (a', if ok then Suc c else c, s)"
| finish_command: "activity_step (a, Suc c, s) (finishCommand a, c, s)"
| start_session: "tryStartSession a = (ok, a') \<Longrightarrow> activity_step (a, c, s) (a', c, if ok then Suc s else s)"
| finish_session: "activity_step (a, c, Suc s) (finishSession a, c, s)"
| stop_accepting: "activity_step (a, c, s) (stopAccepting a, c, s)"

inductive_cases activity_stepE: "activity_step st st'"

definition new_activity :: server_activity where
  "new_activity = \<lparr>active_commands = 0, active_sessions = 0, sa_stopping = False\<rparr>"

definition counts_exactly :: "server_activity \<times> nat \<times> nat \<Rightarrow> bool" where
  "counts_exactly = (\<lambda>(a, c, s). active_commands a = c \<and> active_sessions a = s)"

lemmas activity_defs = tryStartCommand_def finishCommand_def tryStartSession_def finishSession_def stopAccepting_def

lemma step_counts: "activity_step st st' \<Longrightarrow> counts_exactly st \<Longrightarrow> counts_exactly st'"
  by (induction rule: activity_step.induct) (auto simp: counts_exactly_def activity_defs split: if_splits)

lemma steps_count: "activity_step\<^sup>*\<^sup>* st st' \<Longrightarrow> counts_exactly st \<Longrightarrow> counts_exactly st'"
  by (induction rule: rtranclp_induct) (auto intro: step_counts)

lemma step_stopped:
  "activity_step st st' \<Longrightarrow> sa_stopping (fst st) \<Longrightarrow>
     sa_stopping (fst st') \<and> fst (snd st') \<le> fst (snd st) \<and> snd (snd st') \<le> snd (snd st)"
  by (induction rule: activity_step.induct) (auto simp: activity_defs split: if_splits)

lemma steps_stopped:
  "activity_step\<^sup>*\<^sup>* st st' \<Longrightarrow> sa_stopping (fst st) \<Longrightarrow>
     sa_stopping (fst st') \<and> fst (snd st') \<le> fst (snd st) \<and> snd (snd st') \<le> snd (snd st)"
proof (induction rule: rtranclp_induct)
  case (step y z)
  with step_stopped [OF step.hyps(2)] show ?case by auto
qed simp

text \<open>Waiting for the server is exact. Whatever the order of the calls, the wait is over exactly
  when no command and no session is running; and once the server has stopped accepting and
  the wait is over, it stays over: nothing can start any more.\<close>

theorem activity_wait_exact:
  assumes "activity_step\<^sup>*\<^sup>* (new_activity, 0, 0) (a, c, s)"
  shows "(activity_idle a \<longleftrightarrow> c = 0 \<and> s = 0) \<and>
    (sa_stopping a \<longrightarrow> activity_idle a \<longrightarrow> (\<forall>a' c' s'. activity_step\<^sup>*\<^sup>* (a, c, s) (a', c', s') \<longrightarrow>
       activity_idle a' \<and> c' = 0 \<and> s' = 0 \<and> \<not> fst (tryStartCommand a') \<and> \<not> fst (tryStartSession a')))"
proof -
  have "counts_exactly (new_activity, 0, 0)" by (simp add: counts_exactly_def new_activity_def)
  then have c: "counts_exactly (a, c, s)" by (rule steps_count [OF assms])
  then have idle: "activity_idle a \<longleftrightarrow> c = 0 \<and> s = 0" by (simp add: counts_exactly_def activity_idle_def)
  have "activity_idle a' \<and> c' = 0 \<and> s' = 0 \<and> \<not> fst (tryStartCommand a') \<and> \<not> fst (tryStartSession a')"
    if "sa_stopping a" "activity_idle a" "activity_step\<^sup>*\<^sup>* (a, c, s) (a', c', s')" for a' c' s'
  proof -
    have "counts_exactly (a', c', s')" by (rule steps_count [OF that(3) c])
    moreover have "sa_stopping a' \<and> c' \<le> c \<and> s' \<le> s" using steps_stopped [OF that(3)] that(1) by simp
    ultimately show ?thesis using that(2) idle by (auto simp: counts_exactly_def activity_idle_def activity_defs)
  qed
  with idle show ?thesis by blast
qed

lemma activity_wait_exact_witness:
  "\<not> activity_idle \<lparr>active_commands = 0, active_sessions = 1, sa_stopping = True\<rparr> \<and>
   activity_idle \<lparr>active_commands = 0, active_sessions = 0, sa_stopping = True\<rparr> \<and> \<not> fst (tryStartSession \<lparr>active_commands = 0, active_sessions = 0, sa_stopping = True\<rparr>)"
proof -
  let ?a = "\<lparr>active_commands = 0, active_sessions = 1, sa_stopping = False\<rparr>"
  have 1: "activity_step (new_activity, 0, 0) (?a, 0, 1)"
    using start_session [of new_activity True ?a 0 0] by (simp add: tryStartSession_def new_activity_def)
  have 2: "activity_step (?a, 0, 1) (?a\<lparr>sa_stopping := True\<rparr>, 0, 1)"
    using stop_accepting [of ?a 0 1] by (simp add: stopAccepting_def)
  have 3: "activity_step (?a\<lparr>sa_stopping := True\<rparr>, 0, 1) (\<lparr>active_commands = 0, active_sessions = 0, sa_stopping = True\<rparr>, 0, 0)"
    using finish_session [of "?a\<lparr>sa_stopping := True\<rparr>" 0 0] by (simp add: finishSession_def)
  from 1 2 have r: "activity_step\<^sup>*\<^sup>* (new_activity, 0, 0) (?a\<lparr>sa_stopping := True\<rparr>, 0, 1)" by simp
  from activity_wait_exact [OF r] have "\<not> activity_idle (?a\<lparr>sa_stopping := True\<rparr>)" by simp
  moreover from r 3 have "activity_step\<^sup>*\<^sup>* (new_activity, 0, 0) (\<lparr>active_commands = 0, active_sessions = 0, sa_stopping = True\<rparr>, 0, 0)" by simp
  from activity_wait_exact [OF this] have "activity_idle \<lparr>active_commands = 0, active_sessions = 0, sa_stopping = True\<rparr> \<and> \<not> fst (tryStartSession \<lparr>active_commands = 0, active_sessions = 0, sa_stopping = True\<rparr>)"
    by (auto simp: activity_idle_def)
  ultimately show ?thesis by simp
qed

end
