(* ===== verification/Session.thy ===== *)
theory Session
  imports Protocol Auth UploadSink ServerActivity
begin

text \<open>
  One connection (\<open>src/src/AsioServer/AsioServer.cpp\<close>): the session's state, the execution of a
  command (\<open>commandExec\<close>), the streaming upload (\<open>handleStreamingUpload\<close>), the loop that reads
  requests (\<open>readLoop\<close>), the bounded channel of answers and the loop that writes them
  (\<open>writeLoop\<close>).

  The handlers of the data commands and what they work on are parameters: \<open>'w\<close> is the state of
  the rest of the server. A character of a \<open>std::string\<close> is a byte. The logs are left out.
\<close>

definition chars :: "u8 list \<Rightarrow> string" where
  "chars bs = map (\<lambda>b. char_of (unat b)) bs"

definition bytes :: "string \<Rightarrow> u8 list" where
  "bytes s = map of_char s"

section \<open>The state of a session\<close>

record session_state =
  ss_userName :: string
  ss_clientId :: string
  ss_deviceType :: string
  ss_deviceId :: string
  ss_authenticated :: bool
  ss_admin_session :: bool
  ss_typed_errors :: bool

definition new_session :: session_state where
  "new_session = \<lparr>ss_userName = ''default_user'', ss_clientId = [], ss_deviceType = [], ss_deviceId = [],
     ss_authenticated = False, ss_admin_session = False, ss_typed_errors = False\<rparr>"

text \<open>What is queued for the writer. A file transfer carries the bytes its stream will yield.\<close>

datatype write_item =
    ResponseWrite header "u8 list"
  | FileTransfer header "u8 list"
  | ErrorWrite header "u8 list" bool

record 'w server_env =
  se_archive_mode :: bool
  se_auth_initialized :: bool
  se_parse :: "string \<Rightarrow> json option"
  se_dump :: "json \<Rightarrow> string"
  se_verify_rsa :: "string \<Rightarrow> string \<Rightarrow> bool"
  se_key_loaded :: "'w \<Rightarrow> bool"
  se_sql_ok :: "'w \<Rightarrow> bool"
  se_clients :: "'w \<Rightarrow> client_table option"
  se_handlers :: "u64 \<Rightarrow> u8 list \<Rightarrow> 'w \<Rightarrow> (u8 list) command_result option \<times> 'w"
  se_resolve :: "u64 \<Rightarrow> u8 list \<Rightarrow> 'w \<Rightarrow> (u64 \<times> u8 list) command_result option"
  se_upload :: upload_env
  se_publish :: publish_env
  se_write_io :: "nat \<Rightarrow> nat option"
  se_razn_root :: "configured_root option"
  se_tlg_root :: "configured_root option"
  se_time :: time_parts

text \<open>What happens, for the properties: the bytes as they arrive, the requests as they were read, who became authenticated and
  on which evidence, which commands ran, and the answers handed to the writer.\<close>

datatype 'w event =
    Arrived "u8 list"
  | Request header "u8 list"
  | BodyRead "u8 list"
  | AdminRegistered
  | ClientAuthenticated string "u8 list" 'w
  | Executed u64
  | UploadStarted path
  | UploadPublished path
  | Interim write_item
  | Answer write_item

section \<open>Executing a command\<close>

definition error_item :: "session_state \<Rightarrow> error_code \<Rightarrow> bool \<Rightarrow> write_item" where
  "error_item ss e closeAfterWrite =
     (let (h, payload) = error_frame (ss_typed_errors ss) e in ErrorWrite h payload closeAfterWrite)"

definition response_item :: "u64 \<Rightarrow> u8 list \<Rightarrow> write_item" where
  "response_item c answer = ResponseWrite \<lparr>h_size = of_nat (length answer), h_command = c\<rparr> answer"

definition PingCmd :: "u8 list \<Rightarrow> (u8 list) command_result" where
  "PingCmd data = (if data = bytes ''PING'' then Inr (bytes ''PONG'') else Inl InvalidRequest)"

definition registered_commands :: "command list" where
  "registered_commands = [SOLOREQUEST, GET_VH_TELEGI_FROM_SQL, GET_ISH_TELEGI_FROM_SQL, GETSQLJSONANSWEAR,
     START_UPDATE_BASE, USER_REGISTRY, PING, GET_ISH_TELEGA_WAY, GET_VH_TELEGA_WAY, GET_OPIS_BASE,
     GET_ATTACHMENTS, GET_ISH_PDTV, GET_TELEGA_ATACHMENTS]"

definition execCommand :: "'w server_env \<Rightarrow> u64 \<Rightarrow> u8 list \<Rightarrow> 'w \<Rightarrow> (u8 list) command_result \<times> 'w" where
  "execCommand env c request w =
     (if c \<notin> set (map value_of registered_commands) then (Inl CommandNotRegistered, w)
      else if c = value_of PING then (PingCmd request, w)
      else case se_handlers env c request w of
          (None, w') \<Rightarrow> (Inl CommandExecutionFailed, w')
        | (Some result, w') \<Rightarrow> (result, w'))"

text \<open>\<open>at(key).get<std::string>()\<close>, \<open>None\<close> an exception.\<close>

definition string_at :: "json \<Rightarrow> string \<Rightarrow> string option" where
  "string_at doc name = (case json_member doc name of Some (JString s) \<Rightarrow> Some s | _ \<Rightarrow> None)"

text \<open>The session after a successful \<open>AUTHENTICATE_V1\<close> with this response.\<close>

definition open_auth_session ::
  "'w server_env \<Rightarrow> peer_address option \<Rightarrow> u8 list \<Rightarrow> string \<Rightarrow> session_state \<Rightarrow> session_state command_result" where
  "open_auth_session env remote request payload ss =
     (case se_parse env payload of
        None \<Rightarrow> Inl SerializationFailed
      | Some response \<Rightarrow>
          (case (string_at response ''client_name'', string_at response ''client_id'') of
             (Some client_name, Some client_id) \<Rightarrow>
               (let field = (\<lambda>name. case se_parse env (chars request) of None \<Rightarrow> []
                     | Some doc \<Rightarrow> (case string_at doc name of None \<Rightarrow> [] | Some s \<Rightarrow> s))
                in if client_name = ''admin'' \<and> \<not> isLocalAdminPeer remote then Inl AuthFailed
                   else Inr (ss\<lparr>ss_userName := client_name, ss_clientId := client_id,
                     ss_deviceType := field ''device_type'', ss_deviceId := field ''device_id'',
                     ss_authenticated := True, ss_admin_session := (client_name = ''admin'')\<rparr>))
           | _ \<Rightarrow> Inl SerializationFailed))"

definition run_authenticate ::
  "'w server_env \<Rightarrow> peer_address option \<Rightarrow> u8 list \<Rightarrow> session_state \<Rightarrow> 'w \<Rightarrow> write_item \<times> session_state \<times> 'w event list" where
  "run_authenticate env remote request ss w =
     (if \<not> se_auth_initialized env then (error_item ss ConfigurationError True, ss, [])
      else case AuthenticateCmd (se_parse env) (se_dump env) (se_key_loaded env w) (se_verify_rsa env) (se_sql_ok env w)
          (se_clients env w) (chars request) of
          Inl e \<Rightarrow> (error_item ss e True, ss, [])
        | Inr payload \<Rightarrow>
            (case open_auth_session env remote request payload ss of
               Inl e \<Rightarrow> (error_item ss e True, ss, [])
             | Inr ss' \<Rightarrow> (response_item (value_of AUTHENTICATE_V1) (bytes payload), ss',
                 [ClientAuthenticated (ss_userName ss') request w])))"

definition run_user_registry ::
  "peer_address option \<Rightarrow> u8 list \<Rightarrow> session_state \<Rightarrow> write_item \<times> session_state \<times> 'w event list" where
  "run_user_registry remote request ss =
     (if \<not> isLegacyAdminUserRegistryPayload (chars request) then (error_item ss AuthFailed True, ss, [])
      else if \<not> isLocalAdminPeer remote then (error_item ss AuthFailed True, ss, [])
      else (response_item (value_of USER_REGISTRY) (bytes ''OK''),
        ss\<lparr>ss_userName := ''admin'', ss_authenticated := True, ss_admin_session := True\<rparr>, [AdminRegistered]))"

definition run_resolver :: "'w server_env \<Rightarrow> u64 \<Rightarrow> u8 list \<Rightarrow> session_state \<Rightarrow> 'w \<Rightarrow> write_item" where
  "run_resolver env c request ss w =
     (case se_resolve env c request w of
        None \<Rightarrow> error_item ss InternalError False
      | Some (Inl e) \<Rightarrow> error_item ss e False
      | Some (Inr (n, content)) \<Rightarrow> FileTransfer \<lparr>h_size = n, h_command = c\<rparr> content)"

definition commandExec ::
  "'w server_env \<Rightarrow> peer_address option \<Rightarrow> u64 \<Rightarrow> u8 list \<Rightarrow> session_state \<Rightarrow> 'w \<Rightarrow>
   write_item \<times> session_state \<times> 'w \<times> 'w event list" where
  "commandExec env remote c request ss w =
     (if c = value_of SOMEERROR then (error_item ss InvalidCommand False, ss, w, [])
      else let gate = evaluateSessionCommandGate c (ss_authenticated ss)
      in if \<not> allow_execute gate then (error_item ss AuthRequired (close_after_auth_required gate), ss, w, [])
      else case archiveCommandRejection c (se_archive_mode env) (ss_admin_session ss) of
          Some e \<Rightarrow> (error_item ss e False, ss, w, [])
        | None \<Rightarrow>
            if c = value_of GETBINFILE \<or> c = value_of FILETEXT then (error_item ss InvalidCommand False, ss, w, [])
            else if c \<in> set (map value_of [GET_SINGLE_ATACHMENT, GET_TELEGA_TEXT, GET_ISH_PDTV_TEXT])
            then (run_resolver env c request ss w, ss, w, [Executed c])
            else if c = value_of NEGOTIATE_PROTOCOL_V1
            then (response_item c protocol_capabilities, ss\<lparr>ss_typed_errors := True\<rparr>, w, [])
            else if c = value_of USER_REGISTRY
            then (let (item, ss', evs) = run_user_registry remote request ss in (item, ss', w, evs))
            else if c = value_of AUTHENTICATE_V1
            then (let (item, ss', evs) = run_authenticate env remote request ss w in (item, ss', w, evs))
            else case execCommand env c request w of
                (Inl e, w') \<Rightarrow> (error_item ss e False, ss, w', [Executed c])
              | (Inr answer, w') \<Rightarrow> (response_item c answer, ss, w', [Executed c]))"

section \<open>Reading a request\<close>

definition MAX_PAYLOAD :: u64 where "MAX_PAYLOAD = 1000 * 1024 * 1024"

text \<open>What the loop decides on a header, before it reads any of the body. A rejection ends the loop.\<close>

datatype header_plan =
    Reject error_code bool
  | Drain
  | UploadMetadata
  | Execute

definition gate_plan :: "u64 \<Rightarrow> session_state \<Rightarrow> header_plan \<Rightarrow> header_plan" where
  "gate_plan c ss next =
     (let gate = evaluateSessionCommandGate c (ss_authenticated ss)
      in if \<not> allow_execute gate then Reject AuthRequired (close_after_auth_required gate) else next)"

definition plan_header :: "bool \<Rightarrow> session_state \<Rightarrow> header \<Rightarrow> header_plan" where
  "plan_header stopping ss h =
     (if isStreamingUploadCommand (h_command h)
      then (if \<not> trustCommand h then Reject InvalidCommand True
            else gate_plan (h_command h) ss
              (if h_size h > kMaxMetadataBytes then Reject PayloadTooLarge True
               else if stopping then Reject ServerStopping True
               else UploadMetadata))
      else if h_size h > MAX_PAYLOAD then Reject PayloadTooLarge True
      else case isDisabledLegacyMessageWireCommand (h_command h) of
          Some normalized \<Rightarrow> gate_plan normalized ss Drain
        | None \<Rightarrow>
            if \<not> trustCommand h then Reject InvalidCommand True
            else if h_command h = value_of LOAD_TLG_TO_SEND \<or> h_command h = value_of LOAD_RAZN
            then gate_plan (h_command h) ss (if stopping then Reject ServerStopping True else Drain)
            else Execute)"

section \<open>The connection\<close>

datatype session_pc =
    ReadHeader
  | UploadBody u64 upload_sink nat
  | ReaderLeaving
  | ReaderGone

record 'w conn =
  cn_input :: "u8 list"
  cn_session :: session_state
  cn_pc :: session_pc
  cn_todo :: "write_item list"
  cn_channel :: "write_item list"
  cn_wire :: "u8 list"
  cn_stopped :: bool
  cn_terminal :: bool
  cn_stopping :: bool
  cn_files :: file_system
  cn_data :: 'w

definition new_conn :: "file_system \<Rightarrow> 'w \<Rightarrow> 'w conn" where
  "new_conn files w = \<lparr>cn_input = [], cn_session = new_session, cn_pc = ReadHeader, cn_todo = [], cn_channel = [],
     cn_wire = [], cn_stopped = False, cn_terminal = False, cn_stopping = False, cn_files = files, cn_data = w\<rparr>"

definition kWriteChannelCapacity :: nat where "kWriteChannelCapacity = 8"

definition answer_and_continue :: "write_item \<Rightarrow> 'w conn \<Rightarrow> 'w conn" where
  "answer_and_continue item cn = cn\<lparr>cn_todo := [item], cn_pc := ReadHeader\<rparr>"

definition answer_and_leave :: "write_item \<Rightarrow> 'w conn \<Rightarrow> 'w conn" where
  "answer_and_leave item cn = cn\<lparr>cn_todo := [item], cn_pc := ReaderLeaving\<rparr>"

section \<open>Streaming uploads\<close>

definition makeReadyJson :: json where
  "makeReadyJson = JObject [(''version'', JInt kProtocolVersion), (''ready'', JBool True)]"

definition makeFinalJson :: "string \<Rightarrow> json" where
  "makeFinalJson savedName = JObject [(''version'', JInt kProtocolVersion), (''ok'', JBool True), (''saved_name'', JString savedName)]"

text \<open>The operator's name as a byte string; an upload to the other root does not use it.\<close>

definition plan_upload ::
  "'w server_env \<Rightarrow> session_state \<Rightarrow> u64 \<Rightarrow> metadata \<Rightarrow> file_system \<Rightarrow> planned_target command_result \<times> file_system" where
  "plan_upload env ss c md files =
     (case (if c = value_of UPLOAD_RAZN_V1 then se_razn_root env else se_tlg_root env) of
        None \<Rightarrow> (Inl ConfigurationError, files)
      | Some base \<Rightarrow>
          if c = value_of UPLOAD_RAZN_V1 then planRaznTarget (se_upload env) base md files
          else planTlgTarget (se_upload env) base (bytes (ss_userName ss)) md (se_time env) files)"

text \<open>After the metadata: an error, or the sink, its directory and the number of bytes to come.\<close>

definition begin_upload ::
  "'w server_env \<Rightarrow> session_state \<Rightarrow> u64 \<Rightarrow> u8 list \<Rightarrow> file_system \<Rightarrow>
   (upload_sink \<times> path \<times> nat) command_result \<times> file_system" where
  "begin_upload env ss c request files =
     (case parseMetadata (se_upload env) (\<lambda>bs. se_parse env (chars bs)) request of
        Inl e \<Rightarrow> (Inl e, files)
      | Inr md \<Rightarrow>
          (case plan_upload env ss c md files of
             (Inl e, files) \<Rightarrow> (Inl e, files)
           | (Inr target, files) \<Rightarrow>
               (case sink_prepare (se_upload env) target (md_file_size md) (new_sink, files) of
                  (Some e, state) \<Rightarrow> (Inl e, snd (sink_abort (se_upload env) state))
                | (None, (sk, files)) \<Rightarrow> (Inr (sk, pt_directory target, unat (md_file_size md)), files))))"

definition upload_request ::
  "'w server_env \<Rightarrow> u64 \<Rightarrow> u8 list \<Rightarrow> 'w conn \<Rightarrow> 'w conn \<times> 'w event list" where
  "upload_request env c request cn =
     (case begin_upload env (cn_session cn) c request (cn_files cn) of
        (Inl e, files) \<Rightarrow>
          (let item = error_item (cn_session cn) e False
           in (answer_and_continue item (cn\<lparr>cn_files := files\<rparr>), [Answer item]))
      | (Inr (sk, directory, n), files) \<Rightarrow>
          (let item = response_item c (bytes (se_dump env makeReadyJson))
           in (cn\<lparr>cn_files := files, cn_todo := [item], cn_pc := UploadBody c sk n\<rparr>, [UploadStarted directory, Interim item])))"

text \<open>The next chunk of the body, or the publication when none is left. A failed write ends the loop
  without an answer. \<open>None\<close>: the bytes have not arrived yet.\<close>

definition upload_step ::
  "'w server_env \<Rightarrow> u64 \<Rightarrow> upload_sink \<Rightarrow> nat \<Rightarrow> 'w conn \<Rightarrow> ('w conn \<times> 'w event list) option" where
  "upload_step env c sk remaining cn =
     (if remaining > 0
      then let toRead = min kChunkSize remaining
        in if length (cn_input cn) < toRead then None
           else let chunk = take toRead (cn_input cn); cn = cn\<lparr>cn_input := drop toRead (cn_input cn)\<rparr>
             in case sink_writeChunk (se_upload env) (se_write_io env) chunk (sk, cn_files cn) of
                 (Some _, state) \<Rightarrow>
                   Some (cn\<lparr>cn_files := snd (sink_abort (se_upload env) state), cn_pc := ReaderLeaving\<rparr>, [BodyRead chunk])
               | (None, (sk, files)) \<Rightarrow>
                   Some (cn\<lparr>cn_files := files, cn_pc := UploadBody c sk (remaining - toRead)\<rparr>, [BodyRead chunk])
      else case sink_publish (se_upload env) (se_publish env) (sk, cn_files cn) of
          (Some e, state) \<Rightarrow>
            (let item = error_item (cn_session cn) e False
             in Some (answer_and_continue item (cn\<lparr>cn_files := snd (sink_abort (se_upload env) state)\<rparr>), [Answer item]))
        | (None, (sk, files)) \<Rightarrow>
            (let item = response_item c (bytes (se_dump env (makeFinalJson (chars (sk_savedName sk)))))
             in Some (answer_and_continue item (cn\<lparr>cn_files := files\<rparr>),
                  [UploadPublished (the (sk_publishedPath sk)), Answer item])))"

section \<open>The reader\<close>

definition serve_request ::
  "'w server_env \<Rightarrow> peer_address option \<Rightarrow> header \<Rightarrow> 'w conn \<Rightarrow> ('w conn \<times> 'w event list) option" where
  "serve_request env remote h cn =
     (let ss = cn_session cn; c = h_command h; input = drop 16 (cn_input cn); n = unat (h_size h);
          request = take n input; rest = drop n input
      in case plan_header (cn_stopping cn) ss h of
          Reject e close \<Rightarrow>
            (let item = error_item ss e close
             in Some (answer_and_leave item (cn\<lparr>cn_input := input\<rparr>), [Request h [], Answer item]))
        | Drain \<Rightarrow>
            if length input < n then None
            else let item = error_item ss InvalidCommand False
              in Some (answer_and_continue item (cn\<lparr>cn_input := rest\<rparr>), [Request h request, Answer item])
        | UploadMetadata \<Rightarrow>
            if length input < n then None
            else let (cn', evs) = upload_request env c request (cn\<lparr>cn_input := rest\<rparr>)
              in Some (cn', Request h request # evs)
        | Execute \<Rightarrow>
            if length input < n then None
            else if cn_stopping cn
            then let item = error_item ss ServerStopping True
              in Some (answer_and_leave item (cn\<lparr>cn_input := rest\<rparr>), [Request h request, Answer item])
            else let (item, ss', w', evs) = commandExec env remote c request ss (cn_data cn)
              in Some (answer_and_continue item (cn\<lparr>cn_input := rest, cn_session := ss', cn_data := w'\<rparr>),
                   Request h request # evs @ [Answer item]))"

definition reader_turn ::
  "'w server_env \<Rightarrow> peer_address option \<Rightarrow> 'w conn \<Rightarrow> ('w conn \<times> 'w event list) option" where
  "reader_turn env remote cn =
     (if cn_stopped cn \<or> cn_todo cn \<noteq> [] then None
      else case cn_pc cn of
          ReadHeader \<Rightarrow> if length (cn_input cn) < 16 then None else serve_request env remote (header_of (cn_input cn)) cn
        | UploadBody c sk remaining \<Rightarrow> upload_step env c sk remaining cn
        | ReaderLeaving \<Rightarrow> Some (cn\<lparr>cn_pc := ReaderGone, cn_stopped := (\<not> cn_terminal cn)\<rparr>, [])
        | ReaderGone \<Rightarrow> None)"

text \<open>The reader ends at an exception: the peer has closed, the socket failed, or the channel is
  closed. An upload in progress is aborted.\<close>

definition reader_fails :: "'w server_env \<Rightarrow> 'w conn \<Rightarrow> 'w conn" where
  "reader_fails env cn =
     cn\<lparr>cn_files := (case cn_pc cn of UploadBody c sk remaining \<Rightarrow> snd (sink_abort (se_upload env) (sk, cn_files cn)) | _ \<Rightarrow> cn_files cn),
        cn_todo := [], cn_pc := ReaderGone, cn_stopped := (cn_stopped cn \<or> \<not> cn_terminal cn)\<rparr>"

section \<open>The channel and the writer\<close>

definition closes :: "write_item \<Rightarrow> bool" where
  "closes item = (case item of ErrorWrite _ _ closeAfterWrite \<Rightarrow> closeAfterWrite | _ \<Rightarrow> False)"

definition queue_item :: "'w conn \<Rightarrow> 'w conn option" where
  "queue_item cn =
     (case cn_todo cn of
        [] \<Rightarrow> None
      | item # items \<Rightarrow>
          if cn_stopped cn \<or> length (cn_channel cn) \<ge> kWriteChannelCapacity then None
          else Some (cn\<lparr>cn_todo := items, cn_channel := cn_channel cn @ [item], cn_terminal := (cn_terminal cn \<or> closes item)\<rparr>))"

text \<open>The bytes an item puts on the wire; a file that ends before its announced size is cut short.\<close>

definition item_bytes :: "write_item \<Rightarrow> u8 list" where
  "item_bytes item = (case item of
      ResponseWrite h payload \<Rightarrow> header_bytes h @ payload
    | FileTransfer h content \<Rightarrow> header_bytes h @ take (unat (h_size h)) content
    | ErrorWrite h payload _ \<Rightarrow> header_bytes h @ payload)"

definition item_complete :: "write_item \<Rightarrow> bool" where
  "item_complete item = (case item of FileTransfer h content \<Rightarrow> unat (h_size h) \<le> length content | _ \<Rightarrow> True)"

definition writer_turn :: "'w conn \<Rightarrow> 'w conn option" where
  "writer_turn cn =
     (case cn_channel cn of
        [] \<Rightarrow> None
      | item # items \<Rightarrow>
          if cn_stopped cn then None
          else Some (cn\<lparr>cn_channel := items, cn_wire := cn_wire cn @ item_bytes item,
            cn_stopped := (closes item \<or> \<not> item_complete item)\<rparr>))"

text \<open>The socket fails after \<open>n\<close> bytes of the item.\<close>

definition writer_fails :: "nat \<Rightarrow> 'w conn \<Rightarrow> 'w conn option" where
  "writer_fails n cn =
     (case cn_channel cn of
        [] \<Rightarrow> None
      | item # items \<Rightarrow>
          if cn_stopped cn then None
          else Some (cn\<lparr>cn_channel := items, cn_wire := cn_wire cn @ take n (item_bytes item), cn_stopped := True\<rparr>))"

text \<open>The steps of a connection, with what they report: the two loops, the client, the rest of the
  server (which may change files and data at any time) and the shutdown.\<close>

inductive conn_step :: "'w server_env \<Rightarrow> peer_address option \<Rightarrow> 'w conn \<Rightarrow> 'w event list \<Rightarrow> 'w conn \<Rightarrow> bool"
  for env remote where
  arrives: "conn_step env remote cn [Arrived bs] (cn\<lparr>cn_input := cn_input cn @ bs\<rparr>)"
| reads: "reader_turn env remote cn = Some (cn', evs) \<Longrightarrow> conn_step env remote cn evs cn'"
| read_error: "cn_pc cn \<noteq> ReaderGone \<Longrightarrow> cn_stopped cn \<or> cn_todo cn = [] \<Longrightarrow> conn_step env remote cn [] (reader_fails env cn)"
| queues: "queue_item cn = Some cn' \<Longrightarrow> conn_step env remote cn [] cn'"
| writes: "writer_turn cn = Some cn' \<Longrightarrow> conn_step env remote cn [] cn'"
| write_error: "writer_fails n cn = Some cn' \<Longrightarrow> conn_step env remote cn [] cn'"
| stops: "conn_step env remote cn [] (cn\<lparr>cn_stopped := True\<rparr>)"
| shuts_down: "conn_step env remote cn [] (cn\<lparr>cn_stopping := True\<rparr>)"
| others: "conn_step env remote cn [] (cn\<lparr>cn_files := files, cn_data := w\<rparr>)"

inductive conn_run :: "'w server_env \<Rightarrow> peer_address option \<Rightarrow> 'w conn \<Rightarrow> 'w event list \<Rightarrow> 'w conn \<Rightarrow> bool"
  for env remote cn0 where
  start: "conn_run env remote cn0 [] cn0"
| step: "conn_run env remote cn0 evs cn \<Longrightarrow> conn_step env remote cn evs' cn' \<Longrightarrow> conn_run env remote cn0 (evs @ evs') cn'"

end
