(* ===== verification/UploadProofs.thy ===== *)
theory UploadProofs
  imports UploadSink "HOL-Library.Sublist"
begin

text \<open>
  What the upload code of \<open>UploadSink\<close> guarantees: the lexical check of paths is the prefix
  relation, a safe name is one plain component, and an upload publishes exactly its bytes under
  a free name or leaves no file behind.
\<close>

section \<open>Lexical paths\<close>

definition normal_path :: "path \<Rightarrow> bool" where
  "normal_path p \<longleftrightarrow> wide ''.'' \<notin> set p \<and> wide ''..'' \<notin> set p"

lemma wide_dots [simp]: "wide ''.'' = [0x2E]" "wide ''..'' = [0x2E, 0x2E]"
  by (simp_all add: wide_def)

lemma normal_fold:
  "normal_path acc \<Longrightarrow> normal_path (fold (\<lambda>part acc. if part = wide ''.'' then acc
     else if part = wide ''..'' then butlast acc else acc @ [part]) p acc)"
  by (induction p arbitrary: acc) (auto simp: normal_path_def dest: in_set_butlastD)

lemma lexically_normal_normal [simp]: "normal_path (lexically_normal p)"
  unfolding lexically_normal_def by (rule normal_fold) (simp add: normal_path_def)

lemma lexically_normal_id: "normal_path p \<Longrightarrow> lexically_normal p = p"
proof -
  have "normal_path p \<Longrightarrow> fold (\<lambda>part acc. if part = wide ''.'' then acc
     else if part = wide ''..'' then butlast acc else acc @ [part]) p acc = acc @ p" for acc
    by (induction p arbitrary: acc) (auto simp: normal_path_def)
  then show "normal_path p \<Longrightarrow> lexically_normal p = p" by (simp add: lexically_normal_def)
qed

lemma strip_common_parts:
  "\<exists>c. xs = c @ fst (strip_common xs ys) \<and> ys = c @ snd (strip_common xs ys)"
proof (induction xs ys rule: strip_common.induct)
  case (1 x xs y ys)
  show ?case
  proof (cases "x = y")
    case True
    with 1 obtain c where "xs = c @ fst (strip_common xs ys)" "ys = c @ snd (strip_common xs ys)" by blast
    with True show ?thesis by (intro exI [of _ "x # c"]) simp
  qed simp
qed simp_all

lemma strip_common_prefix: "snd (strip_common xs ys) = [] \<longleftrightarrow> prefix ys xs"
  by (induction xs ys rule: strip_common.induct) auto

text \<open>The check that guards every path an upload builds is exact: a composed path passes if and
  only if, once its dots are resolved, it starts with the parts of the directory. No \<open>..\<close> can
  lead out of the configured root.\<close>

theorem staysUnder_is_prefix:
  "compositionStaysUnderDirectory directory composed \<longleftrightarrow>
     prefix (lexically_normal directory) (lexically_normal composed)"
proof -
  let ?d = "lexically_normal directory" and ?c = "lexically_normal composed"
  obtain rest up where su: "strip_common ?c ?d = (rest, up)" by fastforce
  have parts: "\<exists>k. ?c = k @ rest \<and> ?d = k @ up" using strip_common_parts [of ?c ?d] by (simp add: su)
  have up: "up = [] \<longleftrightarrow> prefix ?d ?c" using strip_common_prefix [of ?c ?d] by (simp add: su)
  have nd: "[0x2E] \<notin> set rest" "[0x2E, 0x2E] \<notin> set rest"
    using parts lexically_normal_normal [of composed] by (auto simp: normal_path_def)
  show ?thesis
  proof (cases "?c = ?d")
    case True
    then show ?thesis by (simp add: compositionStaysUnderDirectory_def Let_def)
  next
    case False
    then have ne: "\<not> (rest = [] \<and> up = [])" using parts by auto
    then have rel: "lexically_relative ?c ?d = replicate (length up) [0x2E, 0x2E] @ rest"
      by (auto simp: lexically_relative_def su)
    have "lexically_relative ?c ?d \<noteq> []" "lexically_relative ?c ?d \<noteq> [[0x2E]]"
      unfolding rel using ne nd by (cases up; auto)+
    moreover have "[0x2E, 0x2E] \<in> set (lexically_relative ?c ?d) \<longleftrightarrow> up \<noteq> []"
      unfolding rel using nd by (cases up) auto
    ultimately show ?thesis using False up by (auto simp: compositionStaysUnderDirectory_def Let_def)
  qed
qed

lemma stays_under_child:
  assumes "normal_path d" and "p \<noteq> wide ''.''" and "p \<noteq> wide ''..''"
  shows "compositionStaysUnderDirectory d (d @ [p])"
proof -
  have "normal_path (d @ [p])" using assms by (auto simp: normal_path_def)
  then show ?thesis unfolding staysUnder_is_prefix by (simp add: lexically_normal_id assms(1))
qed

section \<open>Safe names\<close>

text \<open>An ASCII unit comes from an ASCII byte.\<close>

lemma utf16to8_ascii: "utf16to8 ws = Inr bs \<Longrightarrow> c \<in> set ws \<Longrightarrow> c < 0x80 \<Longrightarrow> ucast c \<in> set bs"
proof (induction ws arbitrary: bs rule: utf16to8.induct)
  case (1 ws)
  then have ne: "ws \<noteq> []" by auto
  then obtain h rest where ws: "ws = h # rest" by (cases ws) auto
  from "1.prems"(1) ne obtain cp ws' bs' where s: "next_utf16 ws = Inr (cp, ws')" "append_checked cp = Inr (append_cp cp)"
    "utf16to8 ws' = Inr bs'" "bs = append_cp cp @ bs'"
    by (auto simp: utf16to8.simps [of ws] append_checked_def split: sum.splits prod.splits if_splits)
  have small: "unat (ucast c :: u32) < 0x80" using "1.prems"(3) by (simp add: unat_next word_less_nat_alt)
  have nolead: "\<not> is_lead_surrogate (ucast c)" "\<not> is_trail_surrogate (ucast c)"
    using small by (auto simp: is_lead_surrogate_def is_trail_surrogate_def word_le_nat_alt)
  show ?case
  proof (cases "c \<in> set ws'")
    case True
    from "1.IH" [OF ne s(1) refl s(2,3) True "1.prems"(3)] s(4) show ?thesis by simp
  next
    case False
    then have "c = h \<and> cp = ucast c"
      using s(1) "1.prems"(2) nolead unfolding ws
      by (auto simp: next_utf16_def Let_def split: if_splits list.splits)
    moreover have "(ucast (ucast c :: u32) :: u8) = ucast c"
      by (rule bit_word_eqI) (simp add: bit_simps)
    ultimately show ?thesis using small by (simp add: s(4) append_cp_def word_less_nat_alt)
  qed
qed

lemma decoded_ascii:
  assumes "utf8_to_wstring name = Inr p" and "c \<in> set p" and "c < 0x80"
  shows "ucast c \<in> set name"
  using utf16to8_ascii [of p name c] decoded_well_formed [OF assms(1)] assms(2,3) by (simp add: wstring_to_utf8_def)

lemma safe_parts:
  assumes "isSafeFileComponent env name"
  obtains p where "utf8_to_wstring name = Inr p" "p \<noteq> []" "\<not> isReservedWindowsDeviceName env p"
    "\<not> hasAsciiControlOrForbidden name" "name \<noteq> [0x2E]" "name \<noteq> [0x2E, 0x2E]"
  using assms by (auto simp: isSafeFileComponent_def split: if_splits sum.splits)

lemma safe_name:
  assumes "isSafeFileComponent env name"
  obtains p where "utf8_to_wstring name = Inr p" "p \<noteq> []" "\<not> isReservedWindowsDeviceName env p"
    "p \<noteq> wide ''.''" "p \<noteq> wide ''..''" "\<forall>c \<in> set p. \<not> is_separator c \<and> c \<noteq> 0x3A \<and> 0x20 \<le> c"
    "wstring_to_utf8 p = Inr name" "well_formed16 p"
proof -
  from assms obtain p where p: "utf8_to_wstring name = Inr p" "p \<noteq> []" "\<not> isReservedWindowsDeviceName env p"
    "\<not> hasAsciiControlOrForbidden name" "name \<noteq> [0x2E]" "name \<noteq> [0x2E, 0x2E]" by (rule safe_parts)
  note d = decoded_well_formed [OF p(1)]
  have dots: "wstring_to_utf8 [0x2E] = Inr [0x2E]" "wstring_to_utf8 [0x2E, 0x2E] = Inr [0x2E, 0x2E]"
    by code_simp+
  have "\<not> is_separator c \<and> c \<noteq> 0x3A \<and> 0x20 \<le> c" if "c \<in> set p" for c
  proof (rule ccontr)
    assume bad: "\<not> (\<not> is_separator c \<and> c \<noteq> 0x3A \<and> 0x20 \<le> c)"
    then have "c < 0x80" by (auto simp: is_separator_def word_less_nat_alt word_le_nat_alt)
    from decoded_ascii [OF p(1) that this] have "ucast c \<in> set name" .
    moreover have "(ucast c :: u8) < 32 \<or> (ucast c :: u8) \<in> {0x2F, 0x5C, 0x3A}"
    proof (cases "0x20 \<le> c")
      case True
      with bad show ?thesis by (auto simp: is_separator_def)
    next
      case False
      then have "unat c < 32" by (simp add: word_le_nat_alt)
      then have "unat (ucast c :: u8) < 32" by (simp add: unsigned_ucast_eq take_bit_nat_eq_self)
      then show ?thesis by (simp add: word_less_nat_alt)
    qed
    ultimately show False using p(4) by (auto simp: hasAsciiControlOrForbidden_def)
  qed
  moreover have "p \<noteq> wide ''.''" "p \<noteq> wide ''..''" using d dots p(5,6) by auto
  ultimately show ?thesis using that p(1-3) d by blast
qed

section \<open>Names with a suffix\<close>

lemma wf16_append: "well_formed16 a \<Longrightarrow> well_formed16 b \<Longrightarrow> well_formed16 (a @ b)"
  by (induction a rule: well_formed16.induct) (auto split: list.splits if_splits)

lemma wf16_split_dot: "well_formed16 (a @ 0x2E # b) \<Longrightarrow> well_formed16 a \<and> well_formed16 (0x2E # b)"
proof (induction a rule: well_formed16.induct)
  case (2 h ws)
  have dot: "\<not> is_lead_surrogate (ucast (0x2E :: u16))" "\<not> is_trail_surrogate (ucast (0x2E :: u16))"
    by (simp_all add: is_lead_surrogate_def is_trail_surrogate_def)
  show ?case
  proof (cases "is_lead_surrogate (ucast h)")
    case True
    with "2.prems" dot obtain l ws' where "ws = l # ws'" by (cases ws) auto
    with True 2 dot show ?thesis by simp
  next
    case False
    with 2 dot show ?thesis by simp
  qed
qed simp

lemma wf16_ascii: "list_all (\<lambda>c. c < 0x80) ws \<Longrightarrow> well_formed16 ws"
proof (induction ws)
  case (Cons c ws)
  then have "unat (ucast c :: u32) < 0x80" by (simp add: unat_next word_less_nat_alt)
  then have "\<not> is_lead_surrogate (ucast c)" "\<not> is_trail_surrogate (ucast c)"
    by (simp_all only: is_lead_surrogate_def is_trail_surrogate_def word_le_nat_alt) simp_all
  with Cons show ?case by simp
qed simp

lemma decimal_ascii: "list_all (\<lambda>c. c < 0x80) (decimal_digits n)"
proof (induction n rule: decimal_digits.induct)
  case (1 n)
  have d: "(of_nat (48 + k) :: u16) < 0x80" if "k < 10" for k
  proof -
    have "unat (of_nat (48 + k) :: u16) = 48 + k" using that by (subst unat_of_nat) simp
    then show ?thesis using that by (simp only: word_less_nat_alt) simp
  qed
  show ?case
  proof (cases "n < 10")
    case True
    then show ?thesis using d [of n] by (subst decimal_digits.simps) simp
  next
    case False
    then show ?thesis using 1 [OF False] d [of "n mod 10"] by (subst decimal_digits.simps) simp
  qed
qed

lemma stem_extension_parts:
  "fst (stem_extension name) @ snd (stem_extension name) = name \<and>
   (snd (stem_extension name) = [] \<or> hd (snd (stem_extension name)) = 0x2E)"
proof -
  let ?e = "rev (takeWhile (\<lambda>c. c \<noteq> 0x2E) (rev name))" and ?p = "rev (dropWhile (\<lambda>c. c \<noteq> 0x2E) (rev name))"
  have split: "?p @ ?e = name" by (metis rev_append rev_rev_ident takeWhile_dropWhile_id)
  show ?thesis
  proof (cases "length ?e = length name \<or> length ?e + 1 = length name \<or> name = wide ''..''")
    case True
    then show ?thesis by (auto simp: stem_extension_def Let_def)
  next
    case False
    then have ne: "?p \<noteq> []" using split by (metis append_Nil)
    then have "last ?p = 0x2E" using hd_dropWhile [of "\<lambda>c. c \<noteq> 0x2E" "rev name"] by (simp add: last_rev)
    then obtain q where q: "?p = q @ [0x2E]" using ne by (metis append_butlast_last_id)
    have "length name - length ?e - 1 = length q" using arg_cong [OF split, of length] unfolding q by simp
    moreover have whole: "name = q @ 0x2E # ?e" using split unfolding q by simp
    then have "take (length q) name = q" "drop (length q) name = 0x2E # ?e" by (metis append_eq_conv_conj)+
    ultimately show ?thesis using False whole [symmetric] by (simp add: stem_extension_def Let_def)
  qed
qed

lemma wf16_suffixed:
  assumes "well_formed16 name"
  shows "well_formed16 (suffixedFileName name k)"
proof (cases "k = 0")
  case False
  obtain s x where sx: "stem_extension name = (s, x)" by fastforce
  have parts: "s @ x = name" "x = [] \<or> hd x = 0x2E" using stem_extension_parts [of name] by (simp_all add: sx)
  have "well_formed16 s \<and> well_formed16 x"
  proof (cases x)
    case Nil
    with parts(1) assms show ?thesis by simp
  next
    case (Cons c y)
    with parts assms wf16_split_dot [of s y] show ?thesis by auto
  qed
  moreover have "well_formed16 (wide ''('' @ decimal_digits k @ wide '')'')"
    using decimal_ascii [of k] by (intro wf16_ascii) (simp add: wide_def)
  ultimately have "well_formed16 (s @ (wide ''('' @ decimal_digits k @ wide '')'') @ x)"
    using wf16_append by blast
  with False show ?thesis by (simp add: suffixedFileName_def sx)
qed (simp add: suffixedFileName_def assms)

section \<open>The file system under the operations\<close>

named_theorems fs_simps \<open>lookups after an operation on the file system\<close>

lemma fs_lookup_put [fs_simps]: "um_find (fs_put env p e fs) k = (if k = key env p then Some e else um_find fs k)"
  by (simp add: fs_put_def um_find_put)

lemma fs_lookup_remove [fs_simps]:
  "\<not> ue_remove_error env p \<Longrightarrow> um_find (fs_remove env p fs) k = (if k = key env p then None else um_find fs k)"
  by (simp add: fs_remove_def um_find_erase)

lemma fs_entry_key: "fs_entry env fs p = um_find fs (key env p)"
  by (simp add: fs_entry_def)

text \<open>Only directories have been added.\<close>

definition only_directories :: "file_system \<Rightarrow> file_system \<Rightarrow> bool" where
  "only_directories fs fs' \<longleftrightarrow>
     (\<forall>k. um_find fs' k = um_find fs k \<or> um_find fs k = None \<and> um_find fs' k = Some Directory)"

lemma only_directories_refl [simp]: "only_directories fs fs"
  by (simp add: only_directories_def)

lemma only_directories_trans: "only_directories a b \<Longrightarrow> only_directories b c \<Longrightarrow> only_directories a c"
  unfolding only_directories_def by metis

lemma only_directories_eq: "only_directories a b \<Longrightarrow> (\<And>k. um_find c k = um_find b k) \<Longrightarrow> only_directories a c"
  by (simp add: only_directories_def)

lemma create_directories_only:
  assumes "create_directories env p fs = Some fs'"
  shows "only_directories fs fs'"
proof -
  have "only_directories fs (fold (\<lambda>q fs. if fs_entry env fs q = None then fs_put env q Directory fs else fs) qs fs0)"
    if "only_directories fs fs0" for qs fs0
    using that
  proof (induction qs arbitrary: fs0)
    case (Cons q qs)
    have "only_directories fs0 (if fs_entry env fs0 q = None then fs_put env q Directory fs0 else fs0)"
      by (auto simp: only_directories_def fs_simps fs_entry_key)
    from Cons.IH [OF only_directories_trans [OF Cons.prems this]] show ?case by simp
  qed simp
  with assms show ?thesis by (auto simp: create_directories_def split: if_splits)
qed

lemma ensureDirectoryExistsSafe_only: "only_directories fs (snd (ensureDirectoryExistsSafe env p fs))"
  by (auto simp: ensureDirectoryExistsSafe_def create_directories_only split: option.splits)

lemma ensure_parts_only: "only_directories fs (snd (ensure_parts env current parts fs))"
proof (induction env current parts fs rule: ensure_parts.induct)
  case (2 env current part parts fs)
  show ?case
  proof (cases "ensureDirectoryExistsSafe env (current @ [part]) fs")
    case (Pair r fs')
    then have "only_directories fs fs'" using ensureDirectoryExistsSafe_only [of fs env "current @ [part]"] by simp
    with Pair 2 show ?thesis by (auto split: option.splits intro: only_directories_trans)
  qed
qed simp

lemma ensureSafeDirectoryTree_only: "only_directories fs (snd (ensureSafeDirectoryTree env base directory fs))"
proof -
  have "only_directories fs (snd (ensureDirectoryExistsSafe env (lexically_normal base) fs))"
    by (rule ensureDirectoryExistsSafe_only)
  then show ?thesis
    using only_directories_trans ensure_parts_only
    by (auto simp: ensureSafeDirectoryTree_def Let_def split: option.splits prod.splits)
qed

section \<open>Preparing\<close>

text \<open>Removals succeed; nobody else touches the file system during a publication.\<close>

definition removes :: "upload_env \<Rightarrow> bool" where
  "removes env \<longleftrightarrow> (\<forall>p. \<not> ue_remove_error env p)"

definition undisturbed :: "publish_env \<Rightarrow> bool" where
  "undisturbed pe \<longleftrightarrow> (\<forall>k fs. pe_before pe k fs = fs \<and> pe_between pe k fs = fs)"

lemma create_staging_ok:
  assumes "create_staging env directory k n fs = Inr (staging, fs')"
  shows "fs_entry env fs staging = None \<and> fs' = fs_put env staging (RegularFile []) fs"
  using assms by (induction n arbitrary: k) (auto simp: Let_def split: if_splits)

text \<open>A prepared sink: the staging file is open, it holds the bytes counted so far, and no more of
  them than were announced.\<close>

definition collecting :: "upload_env \<Rightarrow> planned_target \<Rightarrow> u64 \<Rightarrow> path \<Rightarrow> u8 list \<Rightarrow> file_system \<Rightarrow> sink_state \<Rightarrow> bool" where
  "collecting env target fileSize staging bytes fs0 = (\<lambda>(sk, fs).
     sk_prepared sk \<and> \<not> sk_published sk \<and> sk_handle sk \<and> sk_stagingPath sk = Some staging \<and>
     sk_destinationDir sk = pt_directory target \<and> sk_advertisedSize sk = fileSize \<and>
     utf8_to_wstring (pt_baseName target) = Inr (sk_requestedFileName sk) \<and>
     isSafeFileComponent env (pt_baseName target) \<and>
     unat (sk_bytesWritten sk) = length bytes \<and> length bytes \<le> unat fileSize \<and>
     um_find fs0 (key env staging) = None \<and>
     (\<forall>k. um_find fs k = (if k = key env staging then Some (RegularFile bytes) else um_find fs0 k)))"

lemma abort_new [simp]: "sink_abort env (new_sink, fs) = (new_sink, fs)"
  by (simp add: sink_abort_def new_sink_def)

lemma prepare_ok:
  assumes "sink_prepare env target fileSize (new_sink, fs) = (None, state)"
  obtains staging fs0 where "only_directories fs fs0" "collecting env target fileSize staging [] fs0 state"
proof -
  from assms obtain name fs0 staging fs1 where s: "isSafeFileComponent env (pt_baseName target)"
    "utf8_to_wstring (pt_baseName target) = Inr name"
    "ensureSafeDirectoryTree env (pt_directory target) (pt_directory target) fs = (None, fs0)"
    "create_staging env (pt_directory target) 0 256 fs0 = Inr (staging, fs1)"
    "state = (new_sink\<lparr>sk_requestedFileName := name, sk_handle := True, sk_destinationDir := pt_directory target,
       sk_stagingPath := Some staging, sk_advertisedSize := fileSize, sk_bytesWritten := 0, sk_savedName := [],
       sk_publishedPath := None, sk_prepared := True, sk_published := False\<rparr>, fs1)"
    by (auto simp: sink_prepare_def Let_def split: if_splits sum.splits option.splits prod.splits)
  have d: "only_directories fs fs0"
    using ensureSafeDirectoryTree_only [of fs env "pt_directory target" "pt_directory target"] s(3) by simp
  note c = create_staging_ok [OF s(4)]
  have "collecting env target fileSize staging [] fs0 state"
    using s(1,2) c by (auto simp: collecting_def s(5) fs_entry_key fs_simps)
  with d show ?thesis by (rule that)
qed

lemma abort_unprepared: "\<not> sk_prepared sk \<Longrightarrow> snd (sink_abort env (sk, fs)) = fs"
  by (simp add: sink_abort_def split: option.splits)

lemma prepare_failed:
  assumes "sink_prepare env target fileSize (new_sink, fs) = (Some e, state)" and "removes env"
  shows "only_directories fs (snd (sink_abort env state))"
proof -
  have tree: "only_directories fs (snd (ensureSafeDirectoryTree env (pt_directory target) (pt_directory target) fs))"
    by (rule ensureSafeDirectoryTree_only)
  have undo: "only_directories fs (fs_remove env staging fs1)"
    if "ensureSafeDirectoryTree env (pt_directory target) (pt_directory target) fs = (None, fs0)"
      "create_staging env (pt_directory target) 0 256 fs0 = Inr (staging, fs1)" for fs0 staging fs1
  proof (rule only_directories_eq)
    show "only_directories fs fs0" using tree that(1) by simp
    fix k
    from create_staging_ok [OF that(2)] show "um_find (fs_remove env staging fs1) k = um_find fs0 k"
      using assms(2) by (auto simp: removes_def fs_simps fs_entry_key)
  qed
  have "\<not> sk_prepared (fst state) \<and> only_directories fs (snd state)"
    using assms(1) tree undo
    by (auto simp: sink_prepare_def new_sink_def sink_abort_def Let_def split: if_splits sum.splits option.splits prod.splits)
  then show ?thesis using abort_unprepared [of "fst state" env "snd state"] by simp
qed

section \<open>Writing\<close>

lemma write_pieces_ok: "write_pieces io k content chunk = (True, content') \<Longrightarrow> content' = content @ chunk"
proof (induction io k content chunk rule: write_pieces.induct)
  case (1 io k content chunk)
  show ?case
  proof (cases "chunk = []")
    case True
    with "1.prems" show ?thesis by (simp add: write_pieces.simps)
  next
    case False
    with "1.prems" have n: "io k = None"
      "write_pieces io (Suc k) (content @ take kChunkSize chunk) (drop kChunkSize chunk) = (True, content')"
      by (auto simp: write_pieces.simps [of io k content chunk] split: option.splits)
    from "1.IH" [OF False n] show ?thesis by simp
  qed
qed

text \<open>After a failed write the staging file is still the only one that differs.\<close>

definition staged :: "upload_env \<Rightarrow> path \<Rightarrow> file_system \<Rightarrow> sink_state \<Rightarrow> bool" where
  "staged env staging fs0 = (\<lambda>(sk, fs). sk_prepared sk \<and> \<not> sk_published sk \<and> sk_stagingPath sk = Some staging \<and>
     um_find fs0 (key env staging) = None \<and> (\<forall>k. k \<noteq> key env staging \<longrightarrow> um_find fs k = um_find fs0 k))"

lemma collecting_staged: "collecting env target fileSize staging bytes fs0 state \<Longrightarrow> staged env staging fs0 state"
  by (auto simp: collecting_def staged_def split: prod.splits)

lemma staged_abort:
  assumes "staged env staging fs0 state" and "removes env"
  shows "um_find (snd (sink_abort env state)) k = um_find fs0 k"
  using assms by (cases state) (auto simp: staged_def sink_abort_def removes_def fs_simps)

lemma writeChunk_step:
  assumes "collecting env target fileSize staging bytes fs0 state"
  shows "case sink_writeChunk env io chunk state of
      (None, state') \<Rightarrow> collecting env target fileSize staging (bytes @ chunk) fs0 state'
    | (Some _, state') \<Rightarrow> staged env staging fs0 state'"
proof -
  obtain sk fs where st: "state = (sk, fs)" by (cases state)
  note c = assms [unfolded st collecting_def, simplified]
  have st': "staged env staging fs0 (sk, fs)" using collecting_staged [OF assms] by (simp add: st)
  have content: "fs_entry env fs staging = Some (RegularFile bytes)" using c by (simp add: fs_entry_key)
  show ?thesis
  proof (cases "chunk = []")
    case True
    with c assms st show ?thesis by (simp add: sink_writeChunk_def)
  next
    case False
    show ?thesis
    proof (cases "sk_bytesWritten sk > sk_advertisedSize sk \<or> length chunk > unat (sk_advertisedSize sk - sk_bytesWritten sk)")
      case True
      with False c st' st show ?thesis by (auto simp: sink_writeChunk_def)
    next
      case fits: False
      have adv: "sk_advertisedSize sk = fileSize" "unat (sk_bytesWritten sk) = length bytes" "length bytes \<le> unat fileSize"
        using c by simp_all
      have le: "sk_bytesWritten sk \<le> fileSize" using adv by (simp add: word_le_nat_alt)
      then have "length chunk \<le> unat fileSize - length bytes" using fits adv by (simp add: unat_sub)
      then have room: "length bytes + length chunk \<le> unat fileSize" using adv(3) by linarith
      obtain ok content' where w: "write_pieces io 0 bytes chunk = (ok, content')" by fastforce
      have run: "sink_writeChunk env io chunk state =
          (if ok then (None, (sk\<lparr>sk_bytesWritten := sk_bytesWritten sk + of_nat (length chunk)\<rparr>, fs_put env staging (RegularFile content') fs))
           else (Some FileWriteFailed, (sk, fs_put env staging (RegularFile content') fs)))"
        using False fits c content w by (auto simp: sink_writeChunk_def st)
      show ?thesis
      proof (cases ok)
        case True
        then have content': "content' = bytes @ chunk" using write_pieces_ok [of io 0 bytes chunk content'] w by simp
        have "unat fileSize < 2 ^ 64" using unsigned_less [of fileSize, where 'a = nat] by simp
        then have "unat (sk_bytesWritten sk + of_nat (length chunk)) = length bytes + length chunk"
          using room c by (simp add: unat_word_ariths unat_of_nat mod_simps)
        then show ?thesis using True run c room by (auto simp: collecting_def content' fs_simps)
      next
        case no: False
        then show ?thesis using run c by (auto simp: staged_def fs_simps)
      qed
    qed
  qed
qed

lemma write_chunks_steps:
  assumes "collecting env target fileSize staging bytes fs0 state"
  shows "case write_chunks env io n chunks state of
      (None, state') \<Rightarrow> collecting env target fileSize staging (bytes @ concat chunks) fs0 state'
    | (Some _, state') \<Rightarrow> staged env staging fs0 state'"
  using assms
proof (induction chunks arbitrary: n bytes state)
  case (Cons chunk chunks)
  obtain r state' where w: "sink_writeChunk env (io n) chunk state = (r, state')" by (rule prod.exhaust)
  from writeChunk_step [OF Cons.prems, where io = "io n" and chunk = chunk] w
  have step: "case r of None \<Rightarrow> collecting env target fileSize staging (bytes @ chunk) fs0 state' | Some _ \<Rightarrow> staged env staging fs0 state'"
    by (simp split: option.splits)
  show ?case
  proof (cases r)
    case None
    with step have "collecting env target fileSize staging (bytes @ chunk) fs0 state'" by simp
    note ih = Cons.IH [OF this, where n = "Suc n"]
    have "write_chunks env io n (chunk # chunks) state = write_chunks env io (Suc n) chunks state'"
      "bytes @ concat (chunk # chunks) = (bytes @ chunk) @ concat chunks" using w None by simp_all
    with ih show ?thesis by (simp only:)
  qed (use w step in simp)
qed simp

section \<open>Publishing\<close>

text \<open>A publication never replaces anything, whatever others do to the file system in the meantime:
  at the moment of the move the name was free, and the move is all that changed.\<close>

lemma publish_never_overwrites:
  assumes "publish_loop env pe i n staging (sk, fs) = (None, (sk', fs'))"
  shows "\<exists>j before e. i \<le> j \<and> j < i + n \<and>
    (let dest = sk_destinationDir sk @ [suffixedFileName (sk_requestedFileName sk) j]; now = pe_between pe j before
     in fs_entry env now dest = None \<and> fs_entry env now staging = Some e \<and>
        fs' = fs_put env dest e (um_erase (key env staging) now) \<and> sk_publishedPath sk' = Some dest)"
  using assms
proof (induction n arbitrary: i fs)
  case (Suc n)
  let ?dest = "sk_destinationDir sk @ [suffixedFileName (sk_requestedFileName sk) i]"
  let ?b = "pe_before pe i fs"
  let ?now = "pe_between pe i ?b"
  show ?case
  proof (cases "fs_entry env ?b ?dest \<noteq> None \<or> fs_entry env ?now ?dest \<noteq> None")
    case True
    then obtain fs2 where "publish_loop env pe (Suc i) n staging (sk, fs2) = (None, (sk', fs'))"
      using Suc.prems by (auto simp: Let_def split: if_splits)
    from Suc.IH [OF this] obtain j before e where j: "Suc i \<le> j" "j < Suc i + n"
      "let dest = sk_destinationDir sk @ [suffixedFileName (sk_requestedFileName sk) j]; now = pe_between pe j before
       in fs_entry env now dest = None \<and> fs_entry env now staging = Some e \<and>
          fs' = fs_put env dest e (um_erase (key env staging) now) \<and> sk_publishedPath sk' = Some dest" by blast
    then show ?thesis by (intro exI [of _ j] exI [of _ before] exI [of _ e]) simp
  next
    case False
    then obtain e where "fs_entry env ?now staging = Some e" "fs' = fs_put env ?dest e (um_erase (key env staging) ?now)"
      "sk_publishedPath sk' = Some ?dest"
      using Suc.prems by (auto simp: Let_def fs_move_def split: if_splits option.splits sum.splits)
    with False show ?thesis by (intro exI [of _ i] exI [of _ ?b] exI [of _ e]) (simp add: Let_def)
  qed
qed simp

text \<open>Undisturbed, it takes the first free name or leaves only what was there before.\<close>

lemma publish_undisturbed:
  assumes "publish_loop env pe i n staging (sk, fs) = (r, (sk', fs'))" and "undisturbed pe" and "removes env"
    and "staged env staging fs0 (sk, fs)" and "fs_entry env fs staging = Some e"
    and wf: "well_formed16 (sk_requestedFileName sk)"
  shows "case r of
      None \<Rightarrow> \<exists>j. (let dest = \<lambda>k. sk_destinationDir sk @ [suffixedFileName (sk_requestedFileName sk) k] in
        (\<forall>k. i \<le> k \<and> k < j \<longrightarrow> fs_entry env fs (dest k) \<noteq> None) \<and> fs_entry env fs (dest j) = None \<and>
        wstring_to_utf8 (suffixedFileName (sk_requestedFileName sk) j) = Inr (sk_savedName sk') \<and>
        sk_published sk' \<and> sk_stagingPath sk' = None \<and>
        (\<forall>k. um_find fs' k = (if k = key env (dest j) then Some e else um_find fs0 k)))
    | Some _ \<Rightarrow> \<not> sk_prepared sk' \<and> (\<forall>k. um_find fs' k = um_find fs0 k)"
  using assms(1,4,5)
proof (induction n arbitrary: i)
  case 0
  with staged_abort [OF assms(4,3)] show ?case by (auto simp: sink_abort_def)
next
  case (Suc n)
  let ?name = "suffixedFileName (sk_requestedFileName sk)"
  let ?dest = "\<lambda>k. sk_destinationDir sk @ [?name k]"
  have quiet: "pe_before pe k fs = fs" "pe_between pe k fs = fs" for k fs using assms(2) by (simp_all add: undisturbed_def)
  note abort = staged_abort [OF Suc.prems(2) assms(3)]
  have fail: "\<not> sk_prepared sk' \<and> (\<forall>k. um_find fs' k = um_find fs0 k)" if "(sk', fs') = sink_abort env (sk, fs)"
  proof -
    have "fs' = snd (sink_abort env (sk, fs))" "sk' = fst (sink_abort env (sk, fs))" by (simp_all add: that [symmetric])
    then show ?thesis using abort by (simp add: sink_abort_def)
  qed
  show ?case
  proof (cases "\<not> compositionStaysUnderDirectory (sk_destinationDir sk) (?dest i)")
    case True
    with Suc.prems(1) have "r = Some ConfigurationError" "(sk', fs') = sink_abort env (sk, fs)" by (simp_all add: quiet Let_def)
    with fail show ?thesis by simp
  next
    case stays: False
    show ?thesis
    proof (cases "fs_entry env fs (?dest i) = None")
      case False
      with Suc.prems(1) stays have "publish_loop env pe (Suc i) n staging (sk, fs) = (r, (sk', fs'))" by (simp add: quiet Let_def)
      note ih = Suc.IH [OF this Suc.prems(2,3)]
      show ?thesis
      proof (cases r)
        case None
        with ih obtain j where j: "\<forall>k. Suc i \<le> k \<and> k < j \<longrightarrow> fs_entry env fs (?dest k) \<noteq> None" "fs_entry env fs (?dest j) = None"
          "wstring_to_utf8 (?name j) = Inr (sk_savedName sk')" "sk_published sk'" "sk_stagingPath sk' = None"
          "\<forall>k. um_find fs' k = (if k = key env (?dest j) then Some e else um_find fs0 k)"
          by (auto simp: Let_def)
        have "\<forall>k. i \<le> k \<and> k < j \<longrightarrow> fs_entry env fs (?dest k) \<noteq> None"
          using j(1) False by (metis Suc_leI le_neq_implies_less)
        with j None show ?thesis by (simp add: Let_def) blast
      qed (use ih in simp)
    next
      case free: True
      let ?ne = "key env (?dest i) \<noteq> key env staging"
      have ne: ?ne using free Suc.prems(3) by (auto simp: fs_entry_key)
      define moved where "moved = fs_put env (?dest i) e (um_erase (key env staging) fs)"
      have lookup: "um_find moved k = (if k = key env (?dest i) then Some e else um_find fs0 k)" for k
        using Suc.prems(2) ne by (auto simp: moved_def fs_simps um_find_erase staged_def)
      have fresh: "um_find fs0 (key env (?dest i)) = None" using free ne Suc.prems(2) by (auto simp: staged_def fs_entry_key)
      obtain name where name: "wstring_to_utf8 (?name i) = Inr name" using wstring_to_utf8_ok [OF wf16_suffixed [OF wf]] by blast
      show ?thesis
      proof (cases "pe_move_error pe i")
        case True
        with Suc.prems(1) stays free have "r = Some FileWriteFailed" "(sk', fs') = sink_abort env (sk, fs)"
          by (simp_all add: quiet Let_def)
        with fail show ?thesis by simp
      next
        case False
        have mv: "fs_move env staging (?dest i) fs = Some moved" using Suc.prems(3) by (simp add: fs_move_def moved_def)
        show ?thesis
        proof (cases "checkExistingPathAttributes env moved (?dest i) False")
          case None
          with Suc.prems(1) stays free False mv name have "r = None" "fs' = moved"
            "sk' = sk\<lparr>sk_savedName := name, sk_publishedPath := Some (?dest i), sk_stagingPath := None, sk_prepared := False, sk_published := True\<rparr>"
            by (auto simp: quiet Let_def)
          then show ?thesis using free name lookup by (simp add: Let_def) (intro exI [of _ i], auto)
        next
          case (Some x)
          with Suc.prems(1) stays free False mv have "r = Some x" "(sk', fs') = sink_abort env (sk, fs_remove env (?dest i) moved)"
            by (simp_all add: quiet Let_def)
          moreover have "um_find (fs_remove env (?dest i) moved) k = um_find fs0 k" for k
            using assms(3) lookup fresh by (auto simp: removes_def fs_simps)
          moreover have "um_find fs0 (key env staging) = None" "sk_stagingPath sk = Some staging"
            using Suc.prems(2) by (simp_all add: staged_def)
          ultimately show ?thesis using assms(3) by (auto simp: sink_abort_def removes_def fs_simps)
        qed
      qed
    qed
  qed
qed

section \<open>Properties\<close>

text \<open>C3: An upload is all or nothing. If it fails, at whatever call and with whatever part of the
  body written, no file has appeared, changed or vanished: at most directories were created.
  If it succeeds, exactly the announced number of bytes arrived, and exactly one file is new:
  it holds these bytes, under the requested name or the first suffixed one that was free, and
  the name reported to the client is that name. (Others leave the directory alone during
  the publication, and files can be removed.)\<close>

theorem upload_all_or_nothing:
  assumes "removes env" and "undisturbed pe" and "upload_file env pe io target fileSize chunks fs = (r, fs')"
  shows "case r of
      Inl _ \<Rightarrow> only_directories fs fs'
    | Inr savedName \<Rightarrow> length (concat chunks) = unat fileSize \<and>
        (\<exists>name j fs0 staging. utf8_to_wstring (pt_baseName target) = Inr name \<and>
           wstring_to_utf8 (suffixedFileName name j) = Inr savedName \<and> only_directories fs fs0 \<and>
           (let dest = \<lambda>k. pt_directory target @ [suffixedFileName name k] in
              fs_entry env fs (dest j) = None \<and>
              (\<forall>k < j. fs_entry env fs0 (dest k) \<noteq> None \<or> key env (dest k) = key env staging) \<and>
              (\<forall>k. um_find fs' k = (if k = key env (dest j) then Some (RegularFile (concat chunks)) else um_find fs0 k))))"
proof -
  obtain r1 st1 where prep: "sink_prepare env target fileSize (new_sink, fs) = (r1, st1)" by (rule prod.exhaust)
  show ?thesis
  proof (cases r1)
    case (Some e)
    with assms(3) prep have "r = Inl e" "fs' = snd (sink_abort env st1)" by (simp_all add: upload_file_def)
    with prepare_failed [of env target fileSize fs e st1] prep Some assms(1) show ?thesis by simp
  next
    case None
    with prep obtain staging fs0 where p: "only_directories fs fs0" "collecting env target fileSize staging [] fs0 st1"
      using prepare_ok by blast
    have undo: "only_directories fs (snd (sink_abort env st))" if "staged env staging fs0 st" for st
      by (rule only_directories_eq [OF p(1)]) (rule staged_abort [OF that assms(1)])
    obtain r2 st2 where wr: "write_chunks env io 0 chunks st1 = (r2, st2)" by (rule prod.exhaust)
    note w = write_chunks_steps [OF p(2), where io = io and n = 0 and chunks = chunks, unfolded wr, simplified]
    show ?thesis
    proof (cases r2)
      case (Some e)
      with assms(3) prep None wr have "r = Inl e" "fs' = snd (sink_abort env st2)" by (simp_all add: upload_file_def)
      with w Some undo show ?thesis by simp
    next
      case w_ok: None
      obtain sk fs2 where st2: "st2 = (sk, fs2)" by (rule prod.exhaust)
      have c: "collecting env target fileSize staging (concat chunks) fs0 (sk, fs2)" using w w_ok st2 by simp
      note cs = collecting_staged [OF c]
      obtain r3 sk3 fs3 where pub: "sink_publish env pe (sk, fs2) = (r3, (sk3, fs3))" by (metis prod.exhaust)
      have res: "(r, fs') = (case r3 of Some e \<Rightarrow> Inl e | None \<Rightarrow> Inr (sk_savedName sk3), snd (sink_abort env (sk3, fs3)))"
        using assms(3) prep None wr w_ok st2 pub by (simp add: upload_file_def split: option.splits)
      have f: "sk_prepared sk" "\<not> sk_published sk" "sk_stagingPath sk = Some staging"
        "sk_destinationDir sk = pt_directory target" "sk_advertisedSize sk = fileSize"
        "utf8_to_wstring (pt_baseName target) = Inr (sk_requestedFileName sk)"
        "unat (sk_bytesWritten sk) = length (concat chunks)"
        using c by (simp_all add: collecting_def)
      show ?thesis
      proof (cases "sk_bytesWritten sk = fileSize \<and> (sk_handle sk \<longrightarrow> pe_flush_ok pe)")
        case False
        with f(1-5) have "sink_publish env pe (sk, fs2) = (Some FileWriteFailed, (sk, fs2))" by (auto simp: sink_publish_def)
        with pub have "r3 = Some FileWriteFailed" "(sk3, fs3) = (sk, fs2)" by simp_all
        with res undo [OF cs] show ?thesis by simp
      next
        case True
        let ?sk = "sk\<lparr>sk_handle := False\<rparr>"
        have loop: "publish_loop env pe 0 100000 staging (?sk, fs2) = (r3, (sk3, fs3))"
          using True f pub by (auto simp: sink_publish_def)
        have st: "staged env staging fs0 (?sk, fs2)" using cs by (simp add: staged_def)
        have stfile: "fs_entry env fs2 staging = Some (RegularFile (concat chunks))" using c by (simp add: collecting_def fs_entry_key)
        have wf: "well_formed16 (sk_requestedFileName ?sk)" using decoded_well_formed [OF f(6)] by simp
        note pl = publish_undisturbed [OF loop assms(2,1) st stfile wf]
        show ?thesis
        proof (cases r3)
          case (Some e)
          with pl have "\<not> sk_prepared sk3" "\<forall>k. um_find fs3 k = um_find fs0 k" by simp_all
          with res Some p(1) only_directories_eq [OF p(1), of fs3] abort_unprepared [of sk3 env fs3] show ?thesis by simp
        next
          case ok: None
          with pl obtain j where j: "\<forall>k. k < j \<longrightarrow> fs_entry env fs2 (pt_directory target @ [suffixedFileName (sk_requestedFileName sk) k]) \<noteq> None"
            "fs_entry env fs2 (pt_directory target @ [suffixedFileName (sk_requestedFileName sk) j]) = None"
            "wstring_to_utf8 (suffixedFileName (sk_requestedFileName sk) j) = Inr (sk_savedName sk3)"
            "sk_stagingPath sk3 = None"
            "\<forall>k. um_find fs3 k = (if k = key env (pt_directory target @ [suffixedFileName (sk_requestedFileName sk) j])
               then Some (RegularFile (concat chunks)) else um_find fs0 k)"
            by (auto simp: Let_def f(4))
          have fs': "fs' = fs3" "r = Inr (sk_savedName sk3)" using res ok j(4) by (simp_all add: sink_abort_def)
          have lk: "um_find fs2 k = (if k = key env staging then Some (RegularFile (concat chunks)) else um_find fs0 k)" for k
            using c by (simp add: collecting_def)
          have free: "fs_entry env fs (pt_directory target @ [suffixedFileName (sk_requestedFileName sk) j]) = None"
            using j(2) p(1) unfolding fs_entry_key lk by (metis only_directories_def option.simps(3))
          have taken: "\<forall>k < j. fs_entry env fs0 (pt_directory target @ [suffixedFileName (sk_requestedFileName sk) k]) \<noteq> None \<or>
              key env (pt_directory target @ [suffixedFileName (sk_requestedFileName sk) k]) = key env staging"
            using j(1) unfolding fs_entry_key lk by metis
          have size: "length (concat chunks) = unat fileSize" using True f(7) by simp
          show ?thesis unfolding fs'(2) sum.case
            by (intro conjI exI [of _ "sk_requestedFileName sk"] exI [of _ j] exI [of _ fs0] exI [of _ staging])
              (use size f(6) j(3,5) p(1) free taken fs'(1) in \<open>simp_all add: Let_def\<close>)
        qed
      qed
    qed
  qed
qed

text \<open>An upload into a directory that is not there yet, in two chunks.\<close>

definition demo_upload_env :: upload_env where
  "demo_upload_env = \<lparr>ue_fold = id, ue_upper = id, ue_status_error = (\<lambda>_. False), ue_create_error = (\<lambda>_. False),
     ue_attributes_error = (\<lambda>_. False), ue_open_error = (\<lambda>_. False), ue_remove_error = (\<lambda>_. False),
     ue_leaf = (\<lambda>_. wide ''.t'')\<rparr>"

definition demo_publish_env :: publish_env where
  "demo_publish_env = \<lparr>pe_before = (\<lambda>_ fs. fs), pe_between = (\<lambda>_ fs. fs), pe_move_error = (\<lambda>_. False), pe_flush_ok = True\<rparr>"

definition demo_target :: planned_target where
  "demo_target = \<lparr>pt_directory = [wide ''d''], pt_baseName = map of_char ''a.b''\<rparr>"

lemma publish_first: "sink_publish env pe (sk, fs) =
    (if \<not> sk_prepared sk \<or> sk_published sk then (Some InternalError, (sk, fs))
     else if sk_bytesWritten sk \<noteq> sk_advertisedSize sk then (Some FileWriteFailed, (sk, fs))
     else if sk_handle sk \<and> \<not> pe_flush_ok pe then (Some FileWriteFailed, (sk, fs))
     else publish_loop env pe 0 (Suc (Suc 99998)) (the (sk_stagingPath sk)) (sk\<lparr>sk_handle := False\<rparr>, fs))"
  by (simp add: sink_publish_def del: publish_loop.simps)

definition demo_fs :: file_system where
  "demo_fs = [([wide ''d'', wide ''a.b''], Directory)]"

definition demo_sink :: "u64 \<Rightarrow> upload_sink" where
  "demo_sink n = \<lparr>sk_destinationDir = [wide ''d''], sk_stagingPath = Some [wide ''d'', wide ''.t''], sk_publishedPath = None,
     sk_requestedFileName = wide ''a.b'', sk_savedName = [], sk_advertisedSize = 3, sk_bytesWritten = n,
     sk_prepared = True, sk_published = False, sk_handle = True\<rparr>"

lemma demo_prepare:
  "sink_prepare demo_upload_env demo_target 3 (new_sink, demo_fs) =
     (None, (demo_sink 0, demo_fs @ [([wide ''d''], Directory), ([wide ''d'', wide ''.t''], RegularFile [])]))"
  by code_simp

lemma demo_write:
  "write_chunks demo_upload_env (\<lambda>_ _. None) 0 [[1, 2], [3]] (demo_sink 0, demo_fs @ [([wide ''d''], Directory), ([wide ''d'', wide ''.t''], RegularFile [])]) =
     (None, (demo_sink 3, demo_fs @ [([wide ''d''], Directory), ([wide ''d'', wide ''.t''], RegularFile [1, 2, 3])]))"
  by (simp add: sink_writeChunk_def write_pieces.simps kChunkSize_def demo_sink_def demo_fs_def fs_entry_def fs_put_def key_def
      demo_upload_env_def um_find_def um_put_def wide_def)

lemma demo_publish:
  "sink_publish demo_upload_env demo_publish_env (demo_sink 3, demo_fs @ [([wide ''d''], Directory), ([wide ''d'', wide ''.t''], RegularFile [1, 2, 3])]) =
     (None, ((demo_sink 3)\<lparr>sk_handle := False, sk_savedName := map of_char ''a(1).b'', sk_publishedPath := Some [wide ''d'', wide ''a(1).b''],
        sk_stagingPath := None, sk_prepared := False, sk_published := True\<rparr>,
      demo_fs @ [([wide ''d''], Directory), ([wide ''d'', wide ''a(1).b''], RegularFile [1, 2, 3])]))"
proof -
  have names: "suffixedFileName (wide ''a.b'') 0 = wide ''a.b''" "suffixedFileName (wide ''a.b'') (Suc 0) = wide ''a(1).b''"
    "wstring_to_utf8 (wide ''a(1).b'') = Inr (map of_char ''a(1).b'')" by code_simp+
  have stays: "compositionStaysUnderDirectory [wide ''d''] [wide ''d'', wide ''a.b'']"
    "compositionStaysUnderDirectory [wide ''d''] [wide ''d'', wide ''a(1).b'']" by code_simp+
  have "publish_loop demo_upload_env demo_publish_env 0 (Suc (Suc n)) [wide ''d'', wide ''.t'']
      ((demo_sink 3)\<lparr>sk_handle := False\<rparr>, demo_fs @ [([wide ''d''], Directory), ([wide ''d'', wide ''.t''], RegularFile [1, 2, 3])]) =
     (None, ((demo_sink 3)\<lparr>sk_handle := False, sk_savedName := map of_char ''a(1).b'', sk_publishedPath := Some [wide ''d'', wide ''a(1).b''],
        sk_stagingPath := None, sk_prepared := False, sk_published := True\<rparr>,
      demo_fs @ [([wide ''d''], Directory), ([wide ''d'', wide ''a(1).b''], RegularFile [1, 2, 3])]))" for n
    by (simp add: demo_sink_def names stays demo_publish_env_def Let_def)
      (simp add: names names(3) [unfolded wide_def, simplified] demo_fs_def fs_entry_def fs_move_def fs_put_def key_def demo_upload_env_def um_find_def um_put_def um_erase_def
        checkExistingPathAttributes_def wide_def)
  from this [of 99998] show ?thesis
    by (simp add: publish_first demo_publish_env_def demo_sink_def del: publish_loop.simps)
qed

lemma upload_demo:
  "upload_file demo_upload_env demo_publish_env (\<lambda>_ _. None) demo_target 3 [[1, 2], [3]] demo_fs =
     (Inr (map of_char ''a(1).b''),
      demo_fs @ [([wide ''d''], Directory), ([wide ''d'', wide ''a(1).b''], RegularFile [1, 2, 3])])"
  by (simp add: upload_file_def demo_prepare demo_write demo_publish del: write_chunks.simps) (simp add: sink_abort_def demo_sink_def)

lemma upload_all_or_nothing_witness:
  "fst (upload_file demo_upload_env demo_publish_env (\<lambda>_ _. None) demo_target 3 [[1, 2], [3]] demo_fs) = Inr (map of_char ''a(1).b'') \<and>
   length (concat [[1, 2], [3 :: u8]]) = unat (3 :: u64)"
proof -
  have "removes demo_upload_env" "undisturbed demo_publish_env"
    by (simp_all add: removes_def demo_upload_env_def undisturbed_def demo_publish_env_def)
  from upload_all_or_nothing [OF this upload_demo] upload_demo show ?thesis by simp
qed

section \<open>Planned targets\<close>

lemma suffixed_no_dots:
  assumes "p \<noteq> wide ''.''" and "p \<noteq> wide ''..''"
  shows "suffixedFileName p j \<noteq> wide ''.'' \<and> suffixedFileName p j \<noteq> wide ''..''"
proof (cases "j = 0")
  case False
  then have "0x28 \<in> set (suffixedFileName p j)" by (simp add: suffixedFileName_def wide_def case_prod_beta)
  then show ?thesis by auto
qed (use assms in \<open>simp add: suffixedFileName_def\<close>)

lemma safe_not_dots:
  assumes "isSafeFileComponent env name" and "utf8_to_wstring name = Inr p"
  shows "p \<noteq> wide ''.'' \<and> p \<noteq> wide ''..''"
proof -
  from assms(1) obtain q where "utf8_to_wstring name = Inr q" "q \<noteq> wide ''.''" "q \<noteq> wide ''..''" by (rule safe_name)
  with assms(2) show ?thesis by simp
qed

lemma planRazn_parts:
  assumes "planRaznTarget env (Root a parts) md fs = (Inr target, fs')"
  shows "a" and "isSafeFileComponent env (md_file_name md)" and "pt_baseName target = md_file_name md"
    and "pt_directory target = lexically_normal parts" and "only_directories fs fs'"
  using assms ensureSafeDirectoryTree_only [of fs env "lexically_normal parts" "lexically_normal parts"]
  by (auto simp: planRaznTarget_def Let_def split: if_splits sum.splits option.splits prod.splits)

lemma planTlg_parts:
  assumes "planTlgTarget env (Root a parts) who md tp fs = (Inr target, fs')"
  obtains folder where "a" "isSafeFileComponent env (md_file_name md)" "pt_baseName target = md_file_name md"
    "pt_directory target = lexically_normal parts @ [tp_monthUpper tp, tp_date tp, folder]"
    "normal_path [tp_monthUpper tp, tp_date tp, folder]" "only_directories fs fs'"
proof -
  from assms have s: "a" "isSafeFileComponent env (md_file_name md)"
    by (simp_all add: planTlgTarget_def split: if_splits)
  from assms obtain month date hhmm folder where m: "wstring_to_utf8 (tp_monthUpper tp) = Inr month"
    "wstring_to_utf8 (tp_date tp) = Inr date" "isSafeFileComponent env month" "isSafeFileComponent env date"
    "isSafeFileComponent env (who @ map of_char ''_'' @ hhmm)" "utf8_to_wstring (who @ map of_char ''_'' @ hhmm) = Inr folder"
    "ensureSafeDirectoryTree env (lexically_normal parts) (lexically_normal parts @ [tp_monthUpper tp, tp_date tp, folder]) fs = (None, fs')"
    "target = \<lparr>pt_directory = lexically_normal parts @ [tp_monthUpper tp, tp_date tp, folder], pt_baseName = md_file_name md\<rparr>"
    unfolding planTlgTarget_def Let_def
    by (simp split: if_splits sum.splits option.splits prod.splits del: wide_dots)
  have "utf8_to_wstring month = Inr (tp_monthUpper tp)" "utf8_to_wstring date = Inr (tp_date tp)"
    using m(1,2) wstring_to_utf8_wf by blast+
  then have "normal_path [tp_monthUpper tp, tp_date tp, folder]"
    using safe_not_dots [OF m(3)] safe_not_dots [OF m(4)] safe_not_dots [OF m(5,6)] by (auto simp: normal_path_def)
  moreover have "only_directories fs fs'"
    using ensureSafeDirectoryTree_only [of fs env "lexically_normal parts" "lexically_normal parts @ [tp_monthUpper tp, tp_date tp, folder]"]
      m(7) by simp
  ultimately show ?thesis using that s m(8) by simp
qed



end
