(* ===== verification/SessionProofs.thy ===== *)
theory SessionProofs
  imports Session UploadProofs
begin

text \<open>
  What a connection guarantees, over all interleavings of its two loops with the client, the
  shutdown and the rest of the server: who may run commands, that the stream of requests keeps
  its frames, and that the answers form a sequence of whole frames, one per request.
\<close>

section \<open>Authentication\<close>

definition authenticates :: "'w event \<Rightarrow> bool" where
  "authenticates e = (case e of AdminRegistered \<Rightarrow> True | ClientAuthenticated _ _ _ \<Rightarrow> True | _ \<Rightarrow> False)"

definition admits_admin :: "'w event \<Rightarrow> bool" where
  "admits_admin e = (case e of AdminRegistered \<Rightarrow> True | ClientAuthenticated name _ _ \<Rightarrow> name = ''admin'' | _ \<Rightarrow> False)"

text \<open>What an authentication rests on.\<close>

definition evidence :: "'w server_env \<Rightarrow> peer_address option \<Rightarrow> 'w event \<Rightarrow> bool" where
  "evidence env remote e = (case e of
      AdminRegistered \<Rightarrow> isLocalAdminPeer remote
    | ClientAuthenticated name request w \<Rightarrow> se_auth_initialized env \<and> (name = ''admin'' \<longrightarrow> isLocalAdminPeer remote) \<and>
        (\<exists>payload response. AuthenticateCmd (se_parse env) (se_dump env) (se_key_loaded env w) (se_verify_rsa env)
           (se_sql_ok env w) (se_clients env w) (chars request) = Inr payload \<and>
           se_parse env payload = Some response \<and> string_at response ''client_name'' = Some name)
    | _ \<Rightarrow> True)"

text \<open>What may happen in a session with these rights.\<close>

definition permitted :: "'w server_env \<Rightarrow> session_state \<Rightarrow> 'w event \<Rightarrow> bool" where
  "permitted env ss e = (case e of
      Executed c \<Rightarrow> (isSessionBootstrapCommand c \<or> ss_authenticated ss) \<and>
        (se_archive_mode env \<and> c = value_of START_UPDATE_BASE \<longrightarrow> ss_admin_session ss)
    | UploadStarted _ \<Rightarrow> ss_authenticated ss
    | _ \<Rightarrow> True)"

definition auth_step :: "'w server_env \<Rightarrow> peer_address option \<Rightarrow> session_state \<Rightarrow> 'w event list \<Rightarrow> session_state \<Rightarrow> bool" where
  "auth_step env remote ss evs ss' \<longleftrightarrow>
     (\<forall>e \<in> set evs. evidence env remote e \<and> permitted env ss e) \<and>
     (ss_authenticated ss' \<longrightarrow> ss_authenticated ss \<or> (\<exists>e \<in> set evs. authenticates e)) \<and>
     (ss_admin_session ss' \<longrightarrow> ss_admin_session ss \<or> (\<exists>e \<in> set evs. admits_admin e))"

lemmas event_defs = authenticates_def admits_admin_def evidence_def permitted_def

lemma auth_step_nil [simp]: "auth_step env remote ss [] ss" "auth_step env remote ss [] (ss\<lparr>ss_typed_errors := b\<rparr>)"
  by (simp_all add: auth_step_def)

lemma open_auth_session_ok:
  assumes "open_auth_session env remote request payload ss = Inr ss'"
  shows "(ss_userName ss' = ''admin'' \<longrightarrow> isLocalAdminPeer remote) \<and> ss_admin_session ss' = (ss_userName ss' = ''admin'') \<and>
    (\<exists>response. se_parse env payload = Some response \<and> string_at response ''client_name'' = Some (ss_userName ss'))"
  using assms by (auto simp: open_auth_session_def Let_def split: option.splits if_splits)

lemma run_authenticate_auth:
  assumes "run_authenticate env remote request ss w = (item, ss', evs)"
  shows "auth_step env remote ss evs ss'"
proof (cases "ss' = ss \<and> evs = []")
  case True
  then show ?thesis by (simp add: auth_step_def)
next
  case False
  with assms obtain payload where p: "se_auth_initialized env"
    "AuthenticateCmd (se_parse env) (se_dump env) (se_key_loaded env w) (se_verify_rsa env) (se_sql_ok env w)
       (se_clients env w) (chars request) = Inr payload"
    "open_auth_session env remote request payload ss = Inr ss'" "evs = [ClientAuthenticated (ss_userName ss') request w]"
    by (auto simp: run_authenticate_def split: if_splits sum.splits)
  from open_auth_session_ok [OF p(3)] p(1,2,4) show ?thesis by (auto simp: auth_step_def event_defs)
qed

lemma run_user_registry_auth:
  assumes "run_user_registry remote request ss = (item, ss', evs)"
  shows "auth_step env remote ss evs ss'"
  using assms by (auto simp: run_user_registry_def auth_step_def event_defs split: if_splits)

lemma commandExec_auth:
  assumes "commandExec env remote c request ss w = (item, ss', w', evs)"
  shows "auth_step env remote ss evs ss'"
proof (cases "ss_authenticated ss \<or> isSessionBootstrapCommand c")
  case False
  then have "ss' = ss \<and> evs = []"
    using assms by (auto simp: commandExec_def evaluateSessionCommandGate_def Let_def split: if_splits)
  then show ?thesis by (simp add: auth_step_def)
next
  case True
  show ?thesis
  proof (cases "archiveCommandRejection c (se_archive_mode env) (ss_admin_session ss)")
    case (Some e)
    then have "ss' = ss \<and> evs = []" using assms True
      by (auto simp: commandExec_def evaluateSessionCommandGate_def Let_def split: if_splits)
    then show ?thesis by (simp add: auth_step_def)
  next
    case None
    then have "permitted env ss (Executed c)" using True by (auto simp: permitted_def archiveCommandRejection_def split: if_splits)
    then have exec: "auth_step env remote ss [Executed c] ss" by (simp add: auth_step_def evidence_def)
    from assms None True exec run_authenticate_auth run_user_registry_auth show ?thesis
      by (auto simp: commandExec_def evaluateSessionCommandGate_def Let_def split: if_splits prod.splits sum.splits)
  qed
qed

lemma upload_plan_authenticated:
  "plan_header stopping ss h = UploadMetadata \<Longrightarrow> ss_authenticated ss \<and> isStreamingUploadCommand (h_command h)"
  by (auto simp: plan_header_def gate_plan_def evaluateSessionCommandGate_def isSessionBootstrapCommand_def
      isStreamingUploadCommand_def Let_def split: if_splits option.splits)

lemma upload_request_session:
  assumes "upload_request env c request cn = (cn', evs)"
  shows "cn_session cn' = cn_session cn \<and> (\<forall>e \<in> set evs. evidence env remote e \<and> (ss_authenticated ss \<longrightarrow> permitted env ss e))"
  using assms by (auto simp: upload_request_def answer_and_continue_def event_defs Let_def split: sum.splits prod.splits)

lemma upload_step_session:
  assumes "upload_step env c sk remaining cn = Some (cn', evs)"
  shows "cn_session cn' = cn_session cn \<and> (\<forall>e \<in> set evs. evidence env remote e \<and> permitted env ss e)"
proof (cases "remaining > 0")
  case True
  with assms show ?thesis
    by (auto simp: upload_step_def event_defs Let_def split: if_splits option.splits prod.splits)
next
  case False
  obtain r state where p: "sink_publish (se_upload env) (se_publish env) (sk, cn_files cn) = (r, state)" by (rule prod.exhaust)
  with assms False show ?thesis
    by (cases r; cases state) (auto simp: upload_step_def answer_and_continue_def event_defs Let_def)
qed

lemma serve_request_auth:
  assumes "serve_request env remote h cn = Some (cn', evs)"
  shows "auth_step env remote (cn_session cn) evs (cn_session cn')"
proof (cases "plan_header (cn_stopping cn) (cn_session cn) h")
  case (Reject e close)
  with assms show ?thesis by (auto simp: serve_request_def answer_and_leave_def auth_step_def event_defs Let_def)
next
  case Drain
  with assms show ?thesis
    by (auto simp: serve_request_def answer_and_continue_def auth_step_def event_defs Let_def split: if_splits)
next
  case UploadMetadata
  let ?cn = "cn\<lparr>cn_input := drop (unat (h_size h)) (drop 16 (cn_input cn))\<rparr>"
  obtain cn1 evs1 where u: "upload_request env (h_command h) (take (unat (h_size h)) (drop 16 (cn_input cn))) ?cn = (cn1, evs1)"
    by (rule prod.exhaust)
  with assms UploadMetadata have s: "cn' = cn1" "evs = Request h (take (unat (h_size h)) (drop 16 (cn_input cn))) # evs1"
    by (auto simp: serve_request_def Let_def split: if_splits)
  from upload_request_session [OF u, of remote "cn_session cn"] upload_plan_authenticated [OF UploadMetadata] show ?thesis
    by (simp add: s auth_step_def event_defs)
next
  case Execute
  show ?thesis
  proof (cases "cn_stopping cn")
    case True
    with assms Execute show ?thesis
      by (auto simp: serve_request_def answer_and_leave_def auth_step_def event_defs Let_def split: if_splits)
  next
    case False
    obtain item ss' w' evs1 where x: "commandExec env remote (h_command h) (take (unat (h_size h)) (drop 16 (cn_input cn)))
        (cn_session cn) (cn_data cn) = (item, ss', w', evs1)" by (metis prod.exhaust)
    with assms Execute False have "cn_session cn' = ss'"
      "evs = Request h (take (unat (h_size h)) (drop 16 (cn_input cn))) # evs1 @ [Answer item]"
      by (auto simp: serve_request_def answer_and_continue_def Let_def split: if_splits)
    with commandExec_auth [OF x] show ?thesis by (auto simp: auth_step_def event_defs)
  qed
qed

lemma reader_turn_auth:
  assumes "reader_turn env remote cn = Some (cn', evs)"
  shows "auth_step env remote (cn_session cn) evs (cn_session cn')"
proof (cases "cn_pc cn")
  case ReadHeader
  with assms show ?thesis by (auto simp: reader_turn_def intro: serve_request_auth split: if_splits)
next
  case (UploadBody c sk n)
  with assms have "upload_step env c sk n cn = Some (cn', evs)" by (auto simp: reader_turn_def split: if_splits)
  from upload_step_session [OF this] show ?thesis by (auto simp: auth_step_def)
next
  case ReaderLeaving
  with assms have "evs = []" "cn_session cn' = cn_session cn" by (auto simp: reader_turn_def split: if_splits)
  then show ?thesis by simp
next
  case ReaderGone
  with assms show ?thesis by (simp add: reader_turn_def split: if_splits)
qed

lemma conn_step_auth:
  assumes "conn_step env remote cn evs cn'"
  shows "auth_step env remote (cn_session cn) evs (cn_session cn')"
  using assms
proof cases
  case reads
  then show ?thesis by (auto intro: reader_turn_auth)
qed (auto simp: auth_step_def event_defs reader_fails_def queue_item_def writer_turn_def writer_fails_def split: list.splits if_splits)

lemma run_auth:
  assumes "conn_run env remote (new_conn files w) evs cn"
  shows "(\<forall>e \<in> set evs. evidence env remote e) \<and>
    (ss_authenticated (cn_session cn) \<longrightarrow> (\<exists>e \<in> set evs. authenticates e)) \<and>
    (ss_admin_session (cn_session cn) \<longrightarrow> (\<exists>e \<in> set evs. admits_admin e)) \<and>
    (\<forall>pre c post. evs = pre @ Executed c # post \<longrightarrow>
       (isSessionBootstrapCommand c \<or> (\<exists>e \<in> set pre. authenticates e)) \<and>
       (se_archive_mode env \<and> c = value_of START_UPDATE_BASE \<longrightarrow> (\<exists>e \<in> set pre. admits_admin e))) \<and>
    (\<forall>pre p post. evs = pre @ UploadStarted p # post \<longrightarrow> (\<exists>e \<in> set pre. authenticates e))"
  using assms
proof (induction rule: conn_run.induct)
  case start
  then show ?case by (simp add: new_conn_def new_session_def)
next
  case (step evs cn evs' cn')
  from conn_step_auth [OF step.hyps(2)] have s: "auth_step env remote (cn_session cn) evs' (cn_session cn')" .
  have ev: "\<forall>e \<in> set (evs @ evs'). evidence env remote e" using s step.IH by (auto simp: auth_step_def)
  have au: "ss_authenticated (cn_session cn') \<longrightarrow> (\<exists>e \<in> set (evs @ evs'). authenticates e)"
    and ad: "ss_admin_session (cn_session cn') \<longrightarrow> (\<exists>e \<in> set (evs @ evs'). admits_admin e)"
    using s step.IH unfolding auth_step_def by auto
  have later: "permitted env (cn_session cn) x \<and> set evs \<subseteq> set pre" if "evs @ evs' = pre @ x # post" "length evs \<le> length pre" for pre x post
  proof -
    from that obtain us where "pre = evs @ us" "evs' = us @ x # post"
      by (auto simp: append_eq_append_conv2)
    then show ?thesis using s by (auto simp: auth_step_def)
  qed
  have earlier: "\<exists>post'. evs = pre @ x # post'" if "evs @ evs' = pre @ x # post" "\<not> length evs \<le> length pre" for pre x post
  proof -
    from that obtain us where us: "evs = pre @ us" "us @ evs' = x # post" by (auto simp: append_eq_append_conv2)
    with that(2) show ?thesis by (cases us) auto
  qed
  have ex: "(isSessionBootstrapCommand c \<or> (\<exists>e \<in> set pre. authenticates e)) \<and>
      (se_archive_mode env \<and> c = value_of START_UPDATE_BASE \<longrightarrow> (\<exists>e \<in> set pre. admits_admin e))"
    if eq: "evs @ evs' = pre @ Executed c # post" for pre c post
  proof (cases "length evs \<le> length pre")
    case True
    from later [OF eq True] step.IH show ?thesis by (auto simp: permitted_def)
  next
    case False
    from earlier [OF eq False] step.IH show ?thesis by blast
  qed
  have up: "\<exists>e \<in> set pre. authenticates e" if eq: "evs @ evs' = pre @ UploadStarted p # post" for pre p post
  proof (cases "length evs \<le> length pre")
    case True
    from later [OF eq True] step.IH show ?thesis by (auto simp: permitted_def)
  next
    case False
    from earlier [OF eq False] step.IH show ?thesis by blast
  qed
  from ev au ad ex up show ?case by blast
qed

section \<open>Scheduled runs\<close>

text \<open>A run along a schedule, for examples.\<close>

datatype turn = TArrive "u8 list" | TRead | TQueue | TWrite

fun drive :: "'w server_env \<Rightarrow> peer_address option \<Rightarrow> turn list \<Rightarrow> 'w conn \<Rightarrow> ('w event list \<times> 'w conn) option" where
  "drive env remote [] cn = Some ([], cn)"
| "drive env remote (t # ts) cn =
     (case (case t of
          TArrive bs \<Rightarrow> Some (cn\<lparr>cn_input := cn_input cn @ bs\<rparr>, [Arrived bs])
        | TRead \<Rightarrow> reader_turn env remote cn
        | TQueue \<Rightarrow> map_option (\<lambda>cn'. (cn', [])) (queue_item cn)
        | TWrite \<Rightarrow> map_option (\<lambda>cn'. (cn', [])) (writer_turn cn)) of
        None \<Rightarrow> None
      | Some (cn', evs) \<Rightarrow> map_option (\<lambda>(evs', cn''). (evs @ evs', cn'')) (drive env remote ts cn'))"

lemma drive_run:
  "drive env remote ts cn = Some (evs', cn') \<Longrightarrow> conn_run env remote cn0 evs cn \<Longrightarrow> conn_run env remote cn0 (evs @ evs') cn'"
proof (induction ts arbitrary: cn evs evs')
  case (Cons t ts)
  from Cons.prems(1) obtain cn1 e1 e2 where s: "(case t of
          TArrive bs \<Rightarrow> Some (cn\<lparr>cn_input := cn_input cn @ bs\<rparr>, [Arrived bs])
        | TRead \<Rightarrow> reader_turn env remote cn
        | TQueue \<Rightarrow> map_option (\<lambda>cn'. (cn', [])) (queue_item cn)
        | TWrite \<Rightarrow> map_option (\<lambda>cn'. (cn', [])) (writer_turn cn)) = Some (cn1, e1)"
    "drive env remote ts cn1 = Some (e2, cn')" "evs' = e1 @ e2"
    by (auto split: option.splits)
  have "conn_step env remote cn e1 cn1"
    using s(1) by (cases t) (auto intro: conn_step.intros)
  from conn_run.step [OF Cons.prems(2) this] have "conn_run env remote cn0 (evs @ e1) cn1" .
  from Cons.IH [OF s(2) this] show ?case by (simp add: s(3))
qed simp

lemma drive_new: "drive env remote ts cn = Some (evs, cn') \<Longrightarrow> conn_run env remote cn evs cn'"
  using drive_run [OF _ conn_run.start, of env remote ts cn evs cn'] by simp

definition demo_env :: "unit server_env" where
  "demo_env = \<lparr>se_archive_mode = True, se_auth_initialized = False, se_parse = (\<lambda>_. None), se_dump = (\<lambda>_. []),
     se_verify_rsa = (\<lambda>_ _. False), se_key_loaded = (\<lambda>_. False), se_sql_ok = (\<lambda>_. True), se_clients = (\<lambda>_. Some []),
     se_handlers = (\<lambda>_ _ w. (Some (Inr [7]), w)), se_resolve = (\<lambda>_ _ _. None), se_upload = demo_upload_env,
     se_publish = demo_publish_env, se_write_io = (\<lambda>_. None), se_razn_root = None, se_tlg_root = None,
     se_time = \<lparr>tp_monthUpper = [], tp_date = [], tp_hhmm = []\<rparr>\<rparr>"

definition local_peer :: "peer_address option" where "local_peer = Some (V4 loopback)"

text \<open>The administrator registers and starts an update.\<close>

definition admin_update :: "u8 list" where
  "admin_update = header_bytes \<lparr>h_size = 5, h_command = value_of USER_REGISTRY\<rparr> @ bytes ''admin'' @
     header_bytes \<lparr>h_size = 0, h_command = value_of START_UPDATE_BASE\<rparr>"

definition admin_run :: "(unit event list \<times> unit conn) option" where
  "admin_run = drive demo_env local_peer [TArrive admin_update, TRead, TQueue, TRead, TQueue, TWrite, TWrite] (new_conn [] ())"

lemma admin_run_events:
  "map_option fst admin_run = Some [Arrived admin_update,
     Request \<lparr>h_size = 5, h_command = 17\<rparr> (bytes ''admin''), AdminRegistered, Answer (response_item 17 (bytes ''OK'')),
     Request \<lparr>h_size = 0, h_command = 14\<rparr> [], Executed 14, Answer (response_item 14 [7])]"
  by code_simp

lemma admin_run_evs: "fst (the admin_run) = [Arrived admin_update,
     Request \<lparr>h_size = 5, h_command = 17\<rparr> (bytes ''admin''), AdminRegistered, Answer (response_item 17 (bytes ''OK'')),
     Request \<lparr>h_size = 0, h_command = 14\<rparr> [], Executed 14, Answer (response_item 14 [7])]"
proof -
  from admin_run_events obtain r where "admin_run = Some r" "fst r = [Arrived admin_update,
     Request \<lparr>h_size = 5, h_command = 17\<rparr> (bytes ''admin''), AdminRegistered, Answer (response_item 17 (bytes ''OK'')),
     Request \<lparr>h_size = 0, h_command = 14\<rparr> [], Executed 14, Answer (response_item 14 [7])]"
    unfolding map_option_eq_Some by blast
  then show ?thesis by (metis option.sel)
qed

lemma admin_run_is_run: "\<exists>cn. conn_run demo_env local_peer (new_conn [] ()) (fst (the admin_run)) cn"
proof -
  obtain evs cn where r: "admin_run = Some (evs, cn)" using admin_run_events by (cases admin_run) auto
  from drive_new [OF r [unfolded admin_run_def]] show ?thesis by (auto simp: r)
qed

text \<open>C1: No data command runs, no file is resolved and no upload starts before the session has been
  authenticated, whatever the client pipelines and however the loops interleave. Each
  authentication rests on a valid \<open>AUTHENTICATE_V1\<close> for a registered client or on the
  registration of the administrator from 127.0.0.1; the name admin is never accepted from
  another address; and in archive mode only the administrator starts an update.\<close>

theorem only_authenticated_sessions_act:
  assumes "conn_run env remote (new_conn files w) evs cn" and "evs = pre @ e # post"
  shows "(\<forall>c. e = Executed c \<longrightarrow> isSessionBootstrapCommand c \<or> (\<exists>a \<in> set pre. authenticates a \<and> evidence env remote a)) \<and>
    (\<forall>p. e = UploadStarted p \<longrightarrow> (\<exists>a \<in> set pre. authenticates a \<and> evidence env remote a)) \<and>
    (se_archive_mode env \<longrightarrow> e = Executed (value_of START_UPDATE_BASE) \<longrightarrow>
       (\<exists>a \<in> set pre. admits_admin a \<and> evidence env remote a) \<and> isLocalAdminPeer remote)"
proof -
  note r = run_auth [OF assms(1)]
  have ev: "\<forall>a \<in> set pre. evidence env remote a" using r assms(2) by simp
  have local: "isLocalAdminPeer remote" if "a \<in> set pre" "admits_admin a" for a
    using ev that by (auto simp: event_defs split: event.splits)
  from r assms(2) ev local show ?thesis by blast
qed

lemma only_authenticated_sessions_act_witness:
  "isLocalAdminPeer local_peer \<and> Executed (value_of START_UPDATE_BASE) \<in> set (fst (the admin_run))"
proof -
  obtain cn where run: "conn_run demo_env local_peer (new_conn [] ()) (fst (the admin_run)) cn" using admin_run_is_run by blast
  have evs: "fst (the admin_run) = [Arrived admin_update,
     Request \<lparr>h_size = 5, h_command = 17\<rparr> (bytes ''admin''), AdminRegistered, Answer (response_item 17 (bytes ''OK'')),
     Request \<lparr>h_size = 0, h_command = 14\<rparr> []] @ Executed (value_of START_UPDATE_BASE) # [Answer (response_item 14 [7])]"
    by (simp add: admin_run_evs)
  have "se_archive_mode demo_env" by (simp add: demo_env_def)
  with only_authenticated_sessions_act [OF run evs] evs show ?thesis by simp
qed

section \<open>Frames\<close>

definition arrived :: "'w event list \<Rightarrow> u8 list" where
  "arrived evs = concat (map (\<lambda>e. case e of Arrived bs \<Rightarrow> bs | _ \<Rightarrow> []) evs)"

definition consumed :: "'w event list \<Rightarrow> u8 list" where
  "consumed evs = concat (map (\<lambda>e. case e of Request h body \<Rightarrow> header_bytes h @ body | BodyRead bs \<Rightarrow> bs | _ \<Rightarrow> []) evs)"

definition cut_short :: "'w event \<Rightarrow> bool" where
  "cut_short e = (case e of Request h body \<Rightarrow> length body \<noteq> unat (h_size h) | _ \<Rightarrow> False)"

lemma frames_append [simp]:
  "arrived (xs @ ys) = arrived xs @ arrived ys" "consumed (xs @ ys) = consumed xs @ consumed ys"
  "arrived [] = []" "consumed [] = []"
  by (simp_all add: arrived_def consumed_def)

lemma le_bytes_value: "length bs = n \<Longrightarrow> n \<le> 8 \<Longrightarrow> le_bytes n (le_value bs) = bs"
proof (rule nth_equalityI)
  fix i
  assume n: "length bs = n" "n \<le> 8" and "i < length (le_bytes n (le_value bs))"
  then have i: "i < n" by simp
  show "le_bytes n (le_value bs) ! i = bs ! i"
  proof (rule bit_word_eqI)
    fix j
    assume "j < LENGTH(8)"
    then have j: "j < 8" by simp
    have "(8 * i + j) div 8 = i" "(8 * i + j) mod 8 = j" "8 * i + j < 64" using i j n by auto
    then show "bit (le_bytes n (le_value bs) ! i) j = bit (bs ! i) j"
      using i j n by (simp add: bit_le_bytes bit_le_value)
  qed
qed simp

lemma header_of_take: "16 \<le> length bs \<Longrightarrow> header_bytes (header_of bs) @ drop 16 bs = bs"
proof -
  assume l: "16 \<le> length bs"
  have "le_bytes 8 (le_value (take 8 bs)) = take 8 bs" "le_bytes 8 (le_value (take 8 (drop 8 bs))) = take 8 (drop 8 bs)"
    using l by (intro le_bytes_value; simp)+
  then have "header_bytes (header_of bs) = take 8 bs @ take 8 (drop 8 bs)" by (simp add: header_bytes_def header_of_def)
  then show ?thesis by (metis append.assoc append_take_drop_id drop_drop numeral_plus_numeral semiring_norm(2,6))
qed

definition reads_on :: "'w event \<Rightarrow> bool" where
  "reads_on e = (case e of Request _ _ \<Rightarrow> True | BodyRead _ \<Rightarrow> True | _ \<Rightarrow> False)"

text \<open>What one turn of the reader takes from the input.\<close>

definition frame_step :: "'w conn \<Rightarrow> 'w event list \<Rightarrow> 'w conn \<Rightarrow> bool" where
  "frame_step cn evs cn' \<longleftrightarrow> arrived evs = [] \<and> cn_input cn = consumed evs @ cn_input cn' \<and>
     (\<forall>pre e post. evs = pre @ e # post \<longrightarrow> cut_short e \<longrightarrow>
        cn_pc cn' = ReaderLeaving \<and> (\<exists>h. e = Request h []) \<and> (\<forall>x \<in> set post. \<not> reads_on x))"

lemma frame_step_one:
  assumes "cn_input cn = header_bytes h @ body @ cn_input cn'" and "\<forall>e \<in> set evs. \<not> cut_short e" and "consumed evs = []" and "arrived evs = []"
    and "length body = unat (h_size h)"
  shows "frame_step cn (Request h body # evs) cn'"
  using assms by (auto simp: frame_step_def arrived_def consumed_def cut_short_def reads_on_def Cons_eq_append_conv)

text \<open>Events that do not read.\<close>

definition silent :: "'w event \<Rightarrow> bool" where
  "silent e = (case e of Arrived _ \<Rightarrow> False | Request _ _ \<Rightarrow> False | BodyRead _ \<Rightarrow> False | _ \<Rightarrow> True)"

lemma silent_events: "\<forall>e \<in> set evs. silent e \<Longrightarrow> consumed evs = [] \<and> arrived evs = [] \<and> (\<forall>e \<in> set evs. \<not> cut_short e)"
  by (auto simp: silent_def consumed_def arrived_def cut_short_def split: event.splits)

lemma upload_request_frames:
  assumes "upload_request env c request cn = (cn', evs)"
  shows "cn_input cn' = cn_input cn \<and> (\<forall>e \<in> set evs. silent e)"
  using assms by (auto simp: upload_request_def answer_and_continue_def silent_def Let_def split: sum.splits prod.splits)

lemma run_authenticate_frames:
  "run_authenticate env remote request ss w = (item, ss', evs) \<Longrightarrow> e \<in> set evs \<Longrightarrow> silent e"
  by (auto simp: run_authenticate_def silent_def split: if_splits sum.splits)

lemma run_user_registry_frames:
  "run_user_registry remote request ss = (item, ss', evs) \<Longrightarrow> e \<in> set evs \<Longrightarrow> silent e"
  by (auto simp: run_user_registry_def silent_def split: if_splits)

lemma silent_executed: "silent (Executed c)"
  by (simp add: silent_def)

lemma commandExec_frames:
  "commandExec env remote c request ss w = (item, ss', w', evs) \<Longrightarrow> e \<in> set evs \<Longrightarrow> silent e"
  by (auto simp: commandExec_def silent_executed Let_def split: if_splits option.splits prod.splits sum.splits
      dest: run_authenticate_frames run_user_registry_frames)

lemma serve_request_frames:
  assumes "serve_request env remote (header_of (cn_input cn)) cn = Some (cn', evs)" and "16 \<le> length (cn_input cn)"
  shows "frame_step cn evs cn'"
proof -
  let ?h = "header_of (cn_input cn)" and ?input = "drop 16 (cn_input cn)"
  let ?n = "unat (h_size ?h)"
  have inp: "cn_input cn = header_bytes ?h @ ?input" using header_of_take [OF assms(2)] by simp
  have body: "cn_input cn = header_bytes ?h @ take ?n ?input @ drop ?n ?input" using inp by (metis append_take_drop_id)
  show ?thesis
  proof (cases "plan_header (cn_stopping cn) (cn_session cn) ?h")
    case (Reject e close)
    with assms have s: "evs = [Request ?h [], Answer (error_item (cn_session cn) e close)]" "cn_pc cn' = ReaderLeaving" "cn_input cn' = ?input"
      by (auto simp: serve_request_def answer_and_leave_def Let_def)
    then show ?thesis using inp by (auto simp: frame_step_def arrived_def consumed_def cut_short_def reads_on_def Cons_eq_append_conv)
  next
    case Drain
    with assms have s: "\<not> length ?input < ?n" "evs = [Request ?h (take ?n ?input), Answer (error_item (cn_session cn) InvalidCommand False)]"
      "cn_input cn' = drop ?n ?input"
      by (auto simp: serve_request_def answer_and_continue_def Let_def split: if_splits)
    show ?thesis unfolding s(2)
      by (rule frame_step_one) (use s body in \<open>auto simp: consumed_def arrived_def cut_short_def\<close>)
  next
    case UploadMetadata
    obtain cn1 evs1 where u: "upload_request env (h_command ?h) (take ?n ?input) (cn\<lparr>cn_input := drop ?n ?input\<rparr>) = (cn1, evs1)"
      by (rule prod.exhaust)
    with assms UploadMetadata have s: "\<not> length ?input < ?n" "cn' = cn1" "evs = Request ?h (take ?n ?input) # evs1"
      by (auto simp: serve_request_def Let_def split: if_splits)
    have f: "cn_input cn1 = drop ?n ?input" "\<forall>e \<in> set evs1. silent e" using upload_request_frames [OF u] by simp_all
    show ?thesis unfolding s(3)
      by (rule frame_step_one) (use s f silent_events [OF f(2)] body in auto)
  next
    case Execute
    show ?thesis
    proof (cases "cn_stopping cn")
      case True
      with assms Execute have s: "\<not> length ?input < ?n" "evs = [Request ?h (take ?n ?input), Answer (error_item (cn_session cn) ServerStopping True)]"
        "cn_input cn' = drop ?n ?input"
        by (auto simp: serve_request_def answer_and_leave_def Let_def split: if_splits)
      show ?thesis unfolding s(2)
        by (rule frame_step_one) (use s body in \<open>auto simp: consumed_def arrived_def cut_short_def\<close>)
    next
      case False
      obtain item ss' w' evs1 where x: "commandExec env remote (h_command ?h) (take ?n ?input) (cn_session cn) (cn_data cn) = (item, ss', w', evs1)"
        by (metis prod.exhaust)
      with assms Execute False have s: "\<not> length ?input < ?n" "evs = Request ?h (take ?n ?input) # evs1 @ [Answer item]" "cn_input cn' = drop ?n ?input"
        by (auto simp: serve_request_def answer_and_continue_def Let_def split: if_splits)
      have f: "\<forall>e \<in> set (evs1 @ [Answer item]). silent e" using commandExec_frames [OF x] by (auto simp: silent_def)
      show ?thesis unfolding s(2)
        by (rule frame_step_one) (use s silent_events [OF f] body in auto)
    qed
  qed
qed

lemma upload_step_frames:
  assumes "upload_step env c sk remaining cn = Some (cn', evs)"
  shows "arrived evs = [] \<and> cn_input cn = consumed evs @ cn_input cn' \<and> (\<forall>e \<in> set evs. \<not> cut_short e)"
proof (cases "remaining > 0")
  case True
  obtain r sk1 files1 where "sink_writeChunk (se_upload env) (se_write_io env) (take (min kChunkSize remaining) (cn_input cn)) (sk, cn_files cn) = (r, sk1, files1)"
    by (metis prod.exhaust)
  with assms True show ?thesis
    by (cases r) (auto simp: upload_step_def arrived_def consumed_def cut_short_def Let_def split: if_splits)
next
  case False
  obtain r sk1 files1 where "sink_publish (se_upload env) (se_publish env) (sk, cn_files cn) = (r, sk1, files1)"
    by (metis prod.exhaust)
  with assms False show ?thesis
    by (cases r) (auto simp: upload_step_def answer_and_continue_def arrived_def consumed_def cut_short_def Let_def)
qed

lemma reader_turn_frames:
  assumes "reader_turn env remote cn = Some (cn', evs)"
  shows "frame_step cn evs cn'"
proof (cases "cn_pc cn")
  case ReadHeader
  with assms show ?thesis by (auto simp: reader_turn_def intro: serve_request_frames split: if_splits)
next
  case (UploadBody c sk n)
  with assms have "upload_step env c sk n cn = Some (cn', evs)" by (auto simp: reader_turn_def split: if_splits)
  from upload_step_frames [OF this] show ?thesis by (auto simp: frame_step_def)
next
  case ReaderLeaving
  with assms show ?thesis by (auto simp: reader_turn_def frame_step_def split: if_splits)
next
  case ReaderGone
  with assms show ?thesis by (simp add: reader_turn_def split: if_splits)
qed

lemma split_events:
  assumes "xs @ ys = pre @ e # post"
  obtains us where "xs = pre @ e # us" "post = us @ ys" | us where "pre = xs @ us" "ys = us @ e # post"
proof (cases "length xs \<le> length pre")
  case True
  with assms have "pre = xs @ drop (length xs) pre" "ys = drop (length xs) pre @ e # post"
    by (auto simp: append_eq_append_conv2)
  then show ?thesis by (rule that(2))
next
  case False
  from assms obtain us where "(xs = pre @ us \<and> us @ ys = e # post) \<or> (xs @ us = pre \<and> ys = us @ e # post)"
    unfolding append_eq_append_conv2 by blast
  with False have u: "xs = pre @ us" "us @ ys = e # post" by auto
  with False obtain us' where "us = e # us'" by (cases us) auto
  with u that(1) show ?thesis by simp
qed

definition leaving :: "'w conn \<Rightarrow> bool" where
  "leaving cn \<longleftrightarrow> cn_pc cn = ReaderLeaving \<or> cn_pc cn = ReaderGone"

lemma reader_turn_leaving:
  assumes "reader_turn env remote cn = Some (cn', evs)" and "leaving cn"
  shows "evs = [] \<and> leaving cn'"
  using assms by (auto simp: reader_turn_def leaving_def split: if_splits)

text \<open>The bytes that arrived are those read and those still to be read; after a request that was
  cut short nothing more is read.\<close>

definition framed :: "'w event list \<Rightarrow> 'w conn \<Rightarrow> bool" where
  "framed evs cn \<longleftrightarrow> arrived evs = consumed evs @ cn_input cn \<and>
     (\<forall>pre e post. evs = pre @ e # post \<longrightarrow> cut_short e \<longrightarrow>
        (\<exists>h. e = Request h []) \<and> (\<forall>x \<in> set post. \<not> reads_on x) \<and> leaving cn)"

lemma framed_start: "framed [] (new_conn files w)"
  by (simp add: framed_def new_conn_def)

lemma framed_quiet:
  assumes "framed evs cn" and "cn_input cn' = cn_input cn" and "leaving cn \<Longrightarrow> leaving cn'"
  shows "framed evs cn'"
  using assms by (auto simp: framed_def)

lemma framed_reader:
  assumes "framed evs cn" and "reader_turn env remote cn = Some (cn', evs')"
  shows "framed (evs @ evs') cn'"
proof -
  note f = reader_turn_frames [OF assms(2), unfolded frame_step_def]
  have "arrived (evs @ evs') = consumed (evs @ evs') @ cn_input cn'" using assms(1) f by (simp add: framed_def)
  moreover have "(\<exists>h. e = Request h []) \<and> (\<forall>x \<in> set post. \<not> reads_on x) \<and> leaving cn'"
    if eq: "evs @ evs' = pre @ e # post" and cut: "cut_short e" for pre e post
    using eq
  proof (cases rule: split_events)
    case (1 us)
    with assms(1) cut have l: "(\<exists>h. e = Request h []) \<and> (\<forall>x \<in> set us. \<not> reads_on x) \<and> leaving cn" by (auto simp: framed_def)
    with reader_turn_leaving [OF assms(2)] have "evs' = [] \<and> leaving cn'" by simp
    with l 1 show ?thesis by simp
  next
    case (2 us)
    with f cut show ?thesis by (auto simp: leaving_def)
  qed
  ultimately show ?thesis by (simp add: framed_def)
qed

lemma framed_arrives: "framed evs cn \<Longrightarrow> framed (evs @ [Arrived bs]) (cn\<lparr>cn_input := cn_input cn @ bs\<rparr>)"
proof -
  assume f: "framed evs cn"
  have "(\<exists>h. e = Request h []) \<and> (\<forall>x \<in> set post. \<not> reads_on x) \<and> leaving cn"
    if eq: "evs @ [Arrived bs] = pre @ e # post" and cut: "cut_short e" for pre e post
    using eq
  proof (cases rule: split_events)
    case (1 us)
    with f cut show ?thesis by (auto simp: framed_def reads_on_def)
  next
    case (2 us)
    with cut show ?thesis by (auto simp: Cons_eq_append_conv cut_short_def)
  qed
  with f show ?thesis by (simp add: framed_def leaving_def arrived_def consumed_def)
qed

lemma framed_step:
  assumes "framed evs cn" and "conn_step env remote cn evs' cn'"
  shows "framed (evs @ evs') cn'"
  using assms(2)
proof cases
  case (arrives bs)
  then show ?thesis using framed_arrives [OF assms(1)] by simp
next
  case reads
  then show ?thesis using framed_reader [OF assms(1)] by simp
qed (use assms(1) in \<open>auto intro!: framed_quiet [OF assms(1)] simp: leaving_def reader_fails_def queue_item_def
      writer_turn_def writer_fails_def split: list.splits if_splits\<close>)

lemma run_framed: "conn_run env remote (new_conn files w) evs cn \<Longrightarrow> framed evs cn"
  by (induction rule: conn_run.induct) (auto intro: framed_start framed_step)

text \<open>C13: The reader never loses its place in the stream: what it has read as headers, bodies and
  upload chunks, in that order, is exactly what arrived before the bytes it still has to read. A
  header whose body is not read to its announced length ends the reading, so that no byte of a
  body is ever taken for a header.\<close>

theorem requests_keep_their_frames:
  assumes "conn_run env remote (new_conn files w) evs cn"
  shows "arrived evs = consumed evs @ cn_input cn \<and>
    (\<forall>pre h body post. evs = pre @ Request h body # post \<longrightarrow> length body \<noteq> unat (h_size h) \<longrightarrow>
       body = [] \<and> (\<forall>x \<in> set post. \<not> reads_on x) \<and> (cn_pc cn = ReaderLeaving \<or> cn_pc cn = ReaderGone))"
proof -
  note f = run_framed [OF assms, unfolded framed_def]
  have "body = [] \<and> (\<forall>x \<in> set post. \<not> reads_on x) \<and> (cn_pc cn = ReaderLeaving \<or> cn_pc cn = ReaderGone)"
    if "evs = pre @ Request h body # post" "length body \<noteq> unat (h_size h)" for pre h body post
  proof -
    have "cut_short (Request h body)" using that(2) by (simp add: cut_short_def)
    with f that(1) show ?thesis by (auto simp: leaving_def)
  qed
  with f show ?thesis by blast
qed

lemma requests_keep_their_frames_witness:
  "consumed (fst (the admin_run)) = admin_update \<and> admin_update \<noteq> []"
proof -
  obtain cn where run: "conn_run demo_env local_peer (new_conn [] ()) (fst (the admin_run)) cn" using admin_run_is_run by blast
  have "arrived (fst (the admin_run)) = admin_update" "consumed (fst (the admin_run)) = admin_update"
    unfolding admin_run_evs by (simp_all add: arrived_def consumed_def admin_update_def value_of_def)
  with requests_keep_their_frames [OF run] show ?thesis by (simp add: admin_update_def header_bytes_def le_bytes_def)
qed

end
