(* ===== verification/SessionAnswers.thy ===== *)
theory SessionAnswers
  imports SessionProofs
begin

text \<open>
  The answers of a connection: one for each request, in whole frames, in order, through the
  bounded channel to the socket; and that they get there.
\<close>

section \<open>What the reader hands over\<close>

definition handed :: "'w event \<Rightarrow> write_item list" where
  "handed e = (case e of Interim item \<Rightarrow> [item] | Answer item \<Rightarrow> [item] | _ \<Rightarrow> [])"

definition handed_over :: "'w event list \<Rightarrow> write_item list" where
  "handed_over evs = concat (map handed evs)"

definition requests :: "'w event list \<Rightarrow> nat" where
  "requests evs = length (filter (\<lambda>e. case e of Request _ _ \<Rightarrow> True | _ \<Rightarrow> False) evs)"

definition answers :: "'w event list \<Rightarrow> nat" where
  "answers evs = length (filter (\<lambda>e. case e of Answer _ \<Rightarrow> True | _ \<Rightarrow> False) evs)"

lemma count_simps [simp]:
  "handed_over [] = []" "handed_over (e # evs) = handed e @ handed_over evs" "handed_over (evs @ evs') = handed_over evs @ handed_over evs'"
  "requests [] = 0" "requests (evs @ evs') = requests evs + requests evs'"
  "answers [] = 0" "answers (evs @ evs') = answers evs + answers evs'"
  by (simp_all add: handed_over_def requests_def answers_def)

lemma count_events [simp]:
  "requests (Arrived bs # evs) = requests evs" "requests (Request h body # evs) = Suc (requests evs)"
  "requests (BodyRead bs # evs) = requests evs" "requests (AdminRegistered # evs) = requests evs"
  "requests (ClientAuthenticated n q d # evs) = requests evs" "requests (Executed c # evs) = requests evs"
  "requests (UploadStarted p # evs) = requests evs" "requests (UploadPublished p # evs) = requests evs"
  "requests (Interim item # evs) = requests evs" "requests (Answer item # evs) = requests evs"
  "answers (Arrived bs # evs) = answers evs" "answers (Request h body # evs) = answers evs"
  "answers (BodyRead bs # evs) = answers evs" "answers (AdminRegistered # evs) = answers evs"
  "answers (ClientAuthenticated n q d # evs) = answers evs" "answers (Executed c # evs) = answers evs"
  "answers (UploadStarted p # evs) = answers evs" "answers (UploadPublished p # evs) = answers evs"
  "answers (Interim item # evs) = answers evs" "answers (Answer item # evs) = Suc (answers evs)"
  "handed (Arrived bs) = []" "handed (Request h body) = []" "handed (BodyRead bs) = []" "handed AdminRegistered = []"
  "handed (ClientAuthenticated n q d) = []" "handed (Executed c) = []" "handed (UploadStarted p) = []"
  "handed (UploadPublished p) = []" "handed (Interim item) = [item]" "handed (Answer item) = [item]"
  by (simp_all add: requests_def answers_def handed_def)

text \<open>An item whose header announces its payload, unless it carries a file.\<close>

definition well_announced :: "write_item \<Rightarrow> bool" where
  "well_announced item = (case item of
      ResponseWrite h payload \<Rightarrow> h_size h = of_nat (length payload)
    | FileTransfer _ _ \<Rightarrow> True
    | ErrorWrite h payload _ \<Rightarrow> h_size h = of_nat (length payload))"

lemma well_announced_items [simp]:
  "well_announced (error_item ss e close)" "well_announced (response_item c payload)"
  by (simp_all add: well_announced_def error_item_def response_item_def error_frame_def makeTypedErrorResponse_def
      makeLegacyErrorHeader_def)

text \<open>The events of executing a command: they neither read nor answer.\<close>

definition inner :: "'w event \<Rightarrow> bool" where
  "inner e = (case e of AdminRegistered \<Rightarrow> True | ClientAuthenticated _ _ _ \<Rightarrow> True | Executed _ \<Rightarrow> True | _ \<Rightarrow> False)"

lemma inner_counts: "\<forall>e \<in> set evs. inner e \<Longrightarrow> handed_over evs = [] \<and> requests evs = 0 \<and> answers evs = 0"
  by (induction evs) (auto simp: inner_def split: event.splits)

lemma run_authenticate_inner:
  "run_authenticate env remote request ss w = (item, ss', evs) \<Longrightarrow> well_announced item \<and> (\<forall>e \<in> set evs. inner e)"
  by (auto simp: run_authenticate_def inner_def split: if_splits sum.splits)

lemma run_user_registry_inner:
  "run_user_registry remote request ss = (item, ss', evs) \<Longrightarrow> well_announced item \<and> (\<forall>e \<in> set evs. inner e)"
  by (auto simp: run_user_registry_def inner_def split: if_splits)

lemma run_resolver_announced [simp]: "well_announced (run_resolver env c request ss w)"
  by (auto simp: run_resolver_def well_announced_def [of "FileTransfer _ _"] split: option.splits sum.splits prod.splits)

lemma inner_executed [simp]: "inner (Executed c)"
  by (simp add: inner_def)

lemma commandExec_inner:
  "commandExec env remote c request ss w = (item, ss', w', evs) \<Longrightarrow> well_announced item \<and> (\<forall>e \<in> set evs. inner e)"
  by (auto simp: commandExec_def Let_def split: if_splits option.splits prod.splits sum.splits
      dest: run_authenticate_inner run_user_registry_inner)

section \<open>The turns of the reader\<close>

definition in_upload :: "session_pc \<Rightarrow> bool" where
  "in_upload pc = (case pc of UploadBody _ _ _ \<Rightarrow> True | _ \<Rightarrow> False)"

definition turn_counts :: "session_pc \<Rightarrow> 'w event list \<Rightarrow> session_pc \<Rightarrow> bool" where
  "turn_counts pc evs pc' = (case pc of
      ReadHeader \<Rightarrow> (\<exists>h body es. evs = Request h body # es \<and> requests es = 0 \<and>
        ((pc' = ReadHeader \<or> pc' = ReaderLeaving) \<and> answers es = 1 \<or> in_upload pc' \<and> answers es = 0))
    | UploadBody _ _ _ \<Rightarrow> requests evs = 0 \<and>
        (pc' = ReadHeader \<and> answers evs = 1 \<or> (pc' = ReaderLeaving \<or> in_upload pc') \<and> answers evs = 0)
    | _ \<Rightarrow> evs = [] \<and> pc' = ReaderGone)"

definition hands :: "'w conn \<Rightarrow> 'w event list \<Rightarrow> 'w conn \<Rightarrow> bool" where
  "hands cn evs cn' \<longleftrightarrow> cn_wire cn' = cn_wire cn \<and> cn_channel cn' = cn_channel cn \<and> cn_todo cn' = handed_over evs \<and>
     (\<forall>item \<in> set (handed_over evs). well_announced item) \<and> (cn_stopped cn' \<longrightarrow> evs = []) \<and> turn_counts (cn_pc cn) evs (cn_pc cn')"

lemma upload_request_hands:
  assumes "upload_request env c request cn = (cn', evs)" and "cn_todo cn = []" and "\<not> cn_stopped cn"
  shows "cn_wire cn' = cn_wire cn \<and> cn_channel cn' = cn_channel cn \<and> cn_todo cn' = handed_over evs \<and> \<not> cn_stopped cn' \<and>
    (\<forall>item \<in> set (handed_over evs). well_announced item) \<and> requests evs = 0 \<and>
    (cn_pc cn' = ReadHeader \<and> answers evs = 1 \<or> in_upload (cn_pc cn') \<and> answers evs = 0)"
  using assms by (auto simp: upload_request_def answer_and_continue_def in_upload_def Let_def split: sum.splits prod.splits)

lemma upload_step_hands:
  assumes "upload_step env c sk remaining cn = Some (cn', evs)" and "cn_todo cn = []" and "\<not> cn_stopped cn" and "cn_pc cn = UploadBody c sk remaining"
  shows "hands cn evs cn'"
proof (cases "remaining > 0")
  case True
  obtain r sk1 files1 where "sink_writeChunk (se_upload env) (se_write_io env) (take (min kChunkSize remaining) (cn_input cn)) (sk, cn_files cn) = (r, sk1, files1)"
    by (metis prod.exhaust)
  with assms True show ?thesis
    by (cases r) (auto simp: upload_step_def hands_def turn_counts_def in_upload_def Let_def split: if_splits)
next
  case False
  obtain r sk1 files1 where "sink_publish (se_upload env) (se_publish env) (sk, cn_files cn) = (r, sk1, files1)"
    by (metis prod.exhaust)
  with assms False show ?thesis
    by (cases r) (auto simp: upload_step_def answer_and_continue_def hands_def turn_counts_def Let_def)
qed

lemma serve_request_hands:
  assumes "serve_request env remote h cn = Some (cn', evs)" and "cn_todo cn = []" and "\<not> cn_stopped cn" and "cn_pc cn = ReadHeader"
  shows "hands cn evs cn'"
proof (cases "plan_header (cn_stopping cn) (cn_session cn) h")
  case (Reject e close)
  with assms show ?thesis by (auto simp: serve_request_def answer_and_leave_def hands_def turn_counts_def Let_def)
next
  case Drain
  with assms show ?thesis
    by (auto simp: serve_request_def answer_and_continue_def hands_def turn_counts_def Let_def split: if_splits)
next
  case UploadMetadata
  let ?cn = "cn\<lparr>cn_input := drop (unat (h_size h)) (drop 16 (cn_input cn))\<rparr>"
  obtain cn1 evs1 where u: "upload_request env (h_command h) (take (unat (h_size h)) (drop 16 (cn_input cn))) ?cn = (cn1, evs1)"
    by (rule prod.exhaust)
  with assms(1) UploadMetadata have s: "cn' = cn1" "evs = Request h (take (unat (h_size h)) (drop 16 (cn_input cn))) # evs1"
    by (auto simp: serve_request_def Let_def split: if_splits)
  from upload_request_hands [OF u] assms(2-4) show ?thesis by (auto simp: s hands_def turn_counts_def)
next
  case Execute
  show ?thesis
  proof (cases "cn_stopping cn")
    case True
    with assms Execute show ?thesis
      by (auto simp: serve_request_def answer_and_leave_def hands_def turn_counts_def Let_def split: if_splits)
  next
    case False
    obtain item ss' w' evs1 where x: "commandExec env remote (h_command h) (take (unat (h_size h)) (drop 16 (cn_input cn)))
        (cn_session cn) (cn_data cn) = (item, ss', w', evs1)" by (metis prod.exhaust)
    with assms(1) Execute False have s: "cn' = answer_and_continue item (cn\<lparr>cn_input := drop (unat (h_size h)) (drop 16 (cn_input cn)),
        cn_session := ss', cn_data := w'\<rparr>)"
      "evs = Request h (take (unat (h_size h)) (drop 16 (cn_input cn))) # evs1 @ [Answer item]"
      by (auto simp: serve_request_def Let_def split: if_splits)
    from commandExec_inner [OF x] inner_counts [of evs1] assms(2-4) show ?thesis
      by (auto simp: s hands_def turn_counts_def answer_and_continue_def)
  qed
qed

lemma reader_turn_hands:
  assumes "reader_turn env remote cn = Some (cn', evs)"
  shows "cn_todo cn = [] \<and> \<not> cn_stopped cn \<and> hands cn evs cn'"
proof (cases "cn_stopped cn \<or> cn_todo cn \<noteq> []")
  case True
  with assms show ?thesis by (simp add: reader_turn_def)
next
  case idle: False
  show ?thesis
  proof (cases "cn_pc cn")
    case ReadHeader
    with assms idle show ?thesis by (auto simp: reader_turn_def intro: serve_request_hands split: if_splits)
  next
    case (UploadBody c sk n)
    with assms idle show ?thesis by (auto simp: reader_turn_def intro: upload_step_hands)
  next
    case ReaderLeaving
    with assms idle show ?thesis by (auto simp: reader_turn_def hands_def turn_counts_def)
  next
    case ReaderGone
    with assms idle show ?thesis by (simp add: reader_turn_def)
  qed
qed

section \<open>One answer for each request\<close>

text \<open>How many requests are still without their answer, by where the reader stands.\<close>

definition counted :: "'w event list \<Rightarrow> session_pc \<Rightarrow> bool" where
  "counted evs pc \<longleftrightarrow> (pc = ReadHeader \<longrightarrow> requests evs = answers evs) \<and> (in_upload pc \<longrightarrow> requests evs = Suc (answers evs)) \<and>
     answers evs \<le> requests evs \<and> requests evs \<le> Suc (answers evs) \<and>
     (\<forall>pre h body post. evs = pre @ Request h body # post \<longrightarrow> requests pre = answers pre)"

lemma counted_start: "counted [] pc \<longleftrightarrow> \<not> in_upload pc"
  by (auto simp: counted_def)

lemma no_request: "requests es = 0 \<Longrightarrow> es \<noteq> pre @ Request h body # post"
  by auto

lemma counted_reader:
  assumes c: "counted evs pc" and t: "turn_counts pc evs' pc'"
  shows "counted (evs @ evs') pc'"
proof -
  have first: "pc = ReadHeader \<and> us = []" if e: "evs' = us @ Request h body # post" for us h body post
  proof -
    from e have n: "requests evs' \<noteq> 0" by simp
    with t obtain h1 b1 es where es: "pc = ReadHeader" "evs' = Request h1 b1 # es" "requests es = 0"
      by (auto simp: turn_counts_def split: session_pc.splits)
    show ?thesis
    proof (cases us)
      case Nil
      with es show ?thesis by simp
    next
      case (Cons u us')
      with e es(2) have "es = us' @ Request h body # post" by simp
      with es(3) show ?thesis using no_request by blast
    qed
  qed
  have "requests pre = answers pre" if eq: "evs @ evs' = pre @ Request h body # post" for pre h body post
    using eq
  proof (cases rule: split_events)
    case (1 us)
    with c show ?thesis by (simp add: counted_def)
  next
    case (2 us)
    from first [OF 2(2)] 2(1) c show ?thesis by (simp add: counted_def)
  qed
  with c t show ?thesis
    by (auto simp: counted_def turn_counts_def in_upload_def split: session_pc.splits)
qed

lemma counted_arrives: "counted evs pc \<Longrightarrow> counted (evs @ [Arrived bs]) pc"
proof -
  assume c: "counted evs pc"
  have "requests pre = answers pre" if eq: "evs @ [Arrived bs] = pre @ Request h body # post" for pre h body post
    using eq
  proof (cases rule: split_events)
    case (1 us)
    with c show ?thesis by (simp add: counted_def)
  next
    case (2 us)
    then show ?thesis by (auto simp: Cons_eq_append_conv)
  qed
  with c show ?thesis by (simp add: counted_def)
qed

lemma counted_gone: "counted evs pc \<Longrightarrow> counted evs ReaderGone"
  by (simp add: counted_def in_upload_def)

lemma counted_step:
  assumes "counted evs (cn_pc cn)" and "conn_step env remote cn evs' cn'"
  shows "counted (evs @ evs') (cn_pc cn')"
  using assms(2)
proof cases
  case (arrives bs)
  then show ?thesis using counted_arrives [OF assms(1)] by simp
next
  case reads
  from counted_reader [OF assms(1)] reader_turn_hands [OF reads] show ?thesis by (simp add: hands_def)
qed (use assms(1) in \<open>auto simp: reader_fails_def queue_item_def writer_turn_def writer_fails_def
      intro: counted_gone split: list.splits if_splits\<close>)

lemma run_counted: "conn_run env remote (new_conn files w) evs cn \<Longrightarrow> counted evs (cn_pc cn)"
proof (induction rule: conn_run.induct)
  case start
  then show ?case by (simp add: counted_start new_conn_def in_upload_def)
next
  case step
  then show ?case using counted_step by blast
qed

text \<open>C14: Every request is answered exactly once, and before the next request is read: when the
  reader takes a request, and whenever it waits for one, the answers are as many as the requests.
  Only the last request can be without an answer, while its upload runs or after its connection
  has failed.\<close>

theorem one_answer_per_request:
  assumes "conn_run env remote (new_conn files w) evs cn"
  shows "(\<forall>pre h body post. evs = pre @ Request h body # post \<longrightarrow> requests pre = answers pre) \<and>
    (cn_pc cn = ReadHeader \<longrightarrow> requests evs = answers evs) \<and>
    (in_upload (cn_pc cn) \<longrightarrow> requests evs = Suc (answers evs)) \<and>
    answers evs \<le> requests evs \<and> requests evs \<le> Suc (answers evs)"
  using run_counted [OF assms] unfolding counted_def by blast

lemma one_answer_per_request_witness:
  "answers (fst (the admin_run)) = 2 \<and> requests (fst (the admin_run)) = 2"
proof -
  obtain cn where run: "conn_run demo_env local_peer (new_conn [] ()) (fst (the admin_run)) cn" using admin_run_is_run by blast
  have "requests (fst (the admin_run)) = 2" by (simp add: admin_run_evs)
  moreover have "answers (fst (the admin_run)) = 2" by (simp add: admin_run_evs)
  ultimately show ?thesis using one_answer_per_request [OF run] by simp
qed

section \<open>The channel and the socket\<close>

text \<open>After this item the writer goes on.\<close>

definition passes :: "write_item \<Rightarrow> bool" where
  "passes item \<longleftrightarrow> \<not> closes item \<and> item_complete item"

text \<open>\<open>sent\<close> is on the wire, \<open>torn\<close> what a failing socket took of the next item.\<close>

definition sent_so_far :: "'w event list \<Rightarrow> 'w conn \<Rightarrow> write_item list \<Rightarrow> write_item list \<Rightarrow> u8 list \<Rightarrow> bool" where
  "sent_so_far evs cn sent rest torn \<longleftrightarrow> handed_over evs = sent @ rest \<and> cn_wire cn = concat (map item_bytes sent) @ torn \<and>
     (\<forall>item \<in> set (butlast sent). passes item) \<and>
     (torn \<noteq> [] \<longrightarrow> (\<exists>item items n. rest = item # items \<and> torn = take n (item_bytes item))) \<and>
     (\<not> cn_stopped cn \<longrightarrow> torn = [] \<and> rest = cn_channel cn @ cn_todo cn \<and> (\<forall>item \<in> set sent. passes item))"

definition wired :: "'w event list \<Rightarrow> 'w conn \<Rightarrow> bool" where
  "wired evs cn \<longleftrightarrow> (\<exists>sent rest torn. sent_so_far evs cn sent rest torn) \<and> length (cn_channel cn) \<le> kWriteChannelCapacity \<and>
     (\<forall>item \<in> set (handed_over evs). well_announced item)"

lemma wired_start: "wired [] (new_conn files w)"
  by (auto simp: wired_def sent_so_far_def new_conn_def)

lemma wired_quiet:
  assumes "wired evs cn" and "cn_wire cn' = cn_wire cn" and "cn_channel cn' = cn_channel cn"
    and "\<not> cn_stopped cn' \<Longrightarrow> cn_todo cn' = cn_todo cn \<and> \<not> cn_stopped cn"
  shows "wired evs cn'"
proof -
  from assms(1) obtain sent rest torn where s: "sent_so_far evs cn sent rest torn" by (auto simp: wired_def)
  then have "sent_so_far evs cn' sent rest torn"
    using assms(4) by (cases "cn_stopped cn'") (simp_all add: sent_so_far_def assms(2,3))
  with assms(1,3) show ?thesis by (auto simp: wired_def)
qed

lemma wired_reader:
  assumes w: "wired evs cn" and r: "reader_turn env remote cn = Some (cn', evs')"
  shows "wired (evs @ evs') cn'"
proof -
  from reader_turn_hands [OF r] have idle: "cn_todo cn = []" "\<not> cn_stopped cn" and h: "hands cn evs' cn'" by auto
  from w idle obtain sent where s: "handed_over evs = sent @ cn_channel cn" "cn_wire cn = concat (map item_bytes sent)"
    "\<forall>item \<in> set sent. passes item" by (auto simp: wired_def sent_so_far_def)
  have "sent_so_far (evs @ evs') cn' sent (cn_channel cn @ handed_over evs') []"
    using s h by (auto simp: sent_so_far_def hands_def dest: in_set_butlastD)
  with w h show ?thesis unfolding wired_def hands_def by auto
qed

lemma wired_queue:
  assumes w: "wired evs cn" and q: "queue_item cn = Some cn'"
  shows "wired evs cn'"
proof -
  from q obtain item items where t: "cn_todo cn = item # items" "\<not> cn_stopped cn" "length (cn_channel cn) < kWriteChannelCapacity"
    "cn' = cn\<lparr>cn_todo := items, cn_channel := cn_channel cn @ [item], cn_terminal := (cn_terminal cn \<or> closes item)\<rparr>"
    by (auto simp: queue_item_def split: list.splits if_splits)
  from w obtain sent rest torn where "sent_so_far evs cn sent rest torn" by (auto simp: wired_def)
  with t have "sent_so_far evs cn' sent rest torn" by (simp add: sent_so_far_def)
  with w t show ?thesis by (auto simp: wired_def)
qed

lemma wired_writer:
  assumes w: "wired evs cn" and q: "writer_turn cn = Some cn'"
  shows "wired evs cn'"
proof -
  from q obtain item items where t: "cn_channel cn = item # items" "\<not> cn_stopped cn"
    "cn' = cn\<lparr>cn_channel := items, cn_wire := cn_wire cn @ item_bytes item, cn_stopped := (\<not> passes item)\<rparr>"
    by (auto simp: writer_turn_def passes_def split: list.splits if_splits)
  from w obtain sent rest torn where s: "sent_so_far evs cn sent rest torn" by (auto simp: wired_def)
  with t have "sent_so_far evs cn' (sent @ [item]) (items @ cn_todo cn) []" by (auto simp: sent_so_far_def)
  with w t show ?thesis by (auto simp: wired_def)
qed

lemma wired_writer_fails:
  assumes w: "wired evs cn" and q: "writer_fails n cn = Some cn'"
  shows "wired evs cn'"
proof -
  from q obtain item items where t: "cn_channel cn = item # items" "\<not> cn_stopped cn"
    "cn' = cn\<lparr>cn_channel := items, cn_wire := cn_wire cn @ take n (item_bytes item), cn_stopped := True\<rparr>"
    by (auto simp: writer_fails_def split: list.splits if_splits)
  from w obtain sent rest torn where s: "sent_so_far evs cn sent rest torn" by (auto simp: wired_def)
  with t have "sent_so_far evs cn' sent rest (take n (item_bytes item))" by (auto simp: sent_so_far_def)
  with w t show ?thesis by (auto simp: wired_def)
qed

lemma wired_step:
  assumes "wired evs cn" and "conn_step env remote cn evs' cn'"
  shows "wired (evs @ evs') cn'"
  using assms(2)
proof cases
  case (arrives bs)
  have "wired (evs @ evs') cn" using assms(1) arrives by (auto simp: wired_def sent_so_far_def)
  then show ?thesis by (rule wired_quiet) (simp_all add: arrives)
next
  case reads
  show ?thesis by (rule wired_reader [OF assms(1) reads])
next
  case read_error
  have "wired evs cn'" by (rule wired_quiet [OF assms(1)]) (use read_error in \<open>auto simp: reader_fails_def\<close>)
  then show ?thesis by (simp add: read_error)
next
  case queues
  from wired_queue [OF assms(1) queues(2)] show ?thesis by (simp add: queues)
next
  case writes
  from wired_writer [OF assms(1) writes(2)] show ?thesis by (simp add: writes)
next
  case (write_error n)
  from wired_writer_fails [OF assms(1) write_error(2)] show ?thesis by (simp add: write_error)
next
  case stops
  have "wired evs cn'" by (rule wired_quiet [OF assms(1)]) (simp_all add: stops)
  then show ?thesis by (simp add: stops)
next
  case shuts_down
  have "wired evs cn'" by (rule wired_quiet [OF assms(1)]) (simp_all add: shuts_down)
  then show ?thesis by (simp add: shuts_down)
next
  case others
  have "wired evs cn'" by (rule wired_quiet [OF assms(1)]) (simp_all add: others)
  then show ?thesis by (simp add: others)
qed

lemma run_wired: "conn_run env remote (new_conn files w) evs cn \<Longrightarrow> wired evs cn"
proof (induction rule: conn_run.induct)
  case start
  show ?case by (rule wired_start)
next
  case step
  then show ?case using wired_step by blast
qed

text \<open>C7: What the client receives is a sequence of whole answers in the order in which the reader
  produced them, none lost or repeated: the bytes on the wire are those of a prefix of the
  answers, followed at most by a torn piece of the next one when the socket has failed. Nothing
  follows an answer that closes the connection or a file cut short, every header announces the
  length of its payload, the queue never holds more than eight answers, and as long as the
  connection has not stopped nothing is missing: what is not on the wire is still queued.\<close>

theorem answers_are_whole_and_in_order:
  assumes "conn_run env remote (new_conn files w) evs cn"
  shows "\<exists>sent rest torn. handed_over evs = sent @ rest \<and> cn_wire cn = concat (map item_bytes sent) @ torn \<and>
      (\<forall>item \<in> set (butlast sent). \<not> closes item \<and> item_complete item) \<and>
      (torn \<noteq> [] \<longrightarrow> (\<exists>item items n. rest = item # items \<and> torn = take n (item_bytes item))) \<and>
      (\<not> cn_stopped cn \<longrightarrow> torn = [] \<and> rest = cn_channel cn @ cn_todo cn) \<and>
      length (cn_channel cn) \<le> kWriteChannelCapacity \<and> (\<forall>item \<in> set (handed_over evs). well_announced item)"
proof -
  from run_wired [OF assms] obtain sent rest torn where s: "sent_so_far evs cn sent rest torn"
    and c: "length (cn_channel cn) \<le> kWriteChannelCapacity" "\<forall>item \<in> set (handed_over evs). well_announced item"
    unfolding wired_def by blast
  from s have "handed_over evs = sent @ rest" "cn_wire cn = concat (map item_bytes sent) @ torn"
    "\<forall>item \<in> set (butlast sent). \<not> closes item \<and> item_complete item"
    "torn \<noteq> [] \<longrightarrow> (\<exists>item items n. rest = item # items \<and> torn = take n (item_bytes item))"
    "\<not> cn_stopped cn \<longrightarrow> torn = [] \<and> rest = cn_channel cn @ cn_todo cn"
    by (simp_all add: sent_so_far_def passes_def)
  with c show ?thesis by (intro exI conjI)
qed

lemma answers_are_whole_and_in_order_witness:
  "\<exists>sent rest. handed_over (fst (the admin_run)) = sent @ rest \<and> length (sent @ rest) = 2 \<and> list_all well_announced (sent @ rest)"
proof -
  obtain cn where run: "conn_run demo_env local_peer (new_conn [] ()) (fst (the admin_run)) cn" using admin_run_is_run by blast
  from answers_are_whole_and_in_order [OF run] obtain sent rest where
    s: "handed_over (fst (the admin_run)) = sent @ rest" "\<forall>item \<in> set (handed_over (fst (the admin_run))). well_announced item" by blast
  have "length (handed_over (fst (the admin_run))) = 2" by (simp add: admin_run_evs)
  with s show ?thesis by (auto simp: list_all_iff)
qed

section \<open>Delivery\<close>

lemma conn_run_trans:
  assumes "conn_run env remote cn0 evs cn1" and "conn_run env remote cn1 evs' cn2"
  shows "conn_run env remote cn0 (evs @ evs') cn2"
  using assms(2)
proof (induction rule: conn_run.induct)
  case start
  then show ?case using assms(1) by simp
next
  case (step evs1 cn evs2 cn')
  from conn_run.step [OF step.IH step.hyps(2)] show ?case by simp
qed

lemma quiet_step: "conn_step env remote cn [] cn1 \<Longrightarrow> conn_run env remote cn1 [] cn2 \<Longrightarrow> conn_run env remote cn [] cn2"
  using conn_run_trans [OF conn_run.step [OF conn_run.start]] by fastforce

text \<open>What can still be sent: up to and including the first item at which the writer stops.\<close>

fun deliverable :: "write_item list \<Rightarrow> write_item list" where
  "deliverable [] = []"
| "deliverable (item # items) = (if passes item then item # deliverable items else [item])"

lemma writer_turn_passes:
  "cn_channel cn = item # items \<Longrightarrow> \<not> cn_stopped cn \<Longrightarrow>
     writer_turn cn = Some (cn\<lparr>cn_channel := items, cn_wire := cn_wire cn @ item_bytes item, cn_stopped := (\<not> passes item)\<rparr>)"
  by (simp add: writer_turn_def passes_def)

definition delivers :: "'w server_env \<Rightarrow> peer_address option \<Rightarrow> 'w conn \<Rightarrow> 'w conn \<Rightarrow> bool" where
  "delivers env remote cn cn' \<longleftrightarrow> conn_run env remote cn [] cn' \<and>
     cn_wire cn' = cn_wire cn @ concat (map item_bytes (deliverable (cn_channel cn @ cn_todo cn))) \<and>
     cn_stopped cn' = (\<exists>item \<in> set (cn_channel cn @ cn_todo cn). \<not> passes item)"

lemma delivery:
  assumes "\<not> cn_stopped cn"
  shows "\<exists>cn'. delivers env remote cn cn'"
  using assms
proof (induction "length (cn_channel cn) + 2 * length (cn_todo cn)" arbitrary: cn rule: less_induct)
  case less
  show ?case
  proof (cases "cn_channel cn")
    case (Cons item items)
    let ?cn = "cn\<lparr>cn_channel := items, cn_wire := cn_wire cn @ item_bytes item, cn_stopped := (\<not> passes item)\<rparr>"
    have w: "conn_step env remote cn [] ?cn" by (rule conn_step.writes [OF writer_turn_passes [OF Cons less.prems]])
    show ?thesis
    proof (cases "passes item")
      case True
      with less.hyps [of ?cn] Cons obtain cn' where "delivers env remote ?cn cn'" by auto
      with quiet_step [OF w] Cons True have "delivers env remote cn cn'" by (auto simp: delivers_def)
      then show ?thesis by blast
    next
      case False
      with quiet_step [OF w conn_run.start] Cons have "delivers env remote cn ?cn" by (auto simp: delivers_def)
      then show ?thesis by blast
    qed
  next
    case Nil
    show ?thesis
    proof (cases "cn_todo cn")
      case (Cons item items)
      let ?cn = "cn\<lparr>cn_todo := items, cn_channel := [item], cn_terminal := (cn_terminal cn \<or> closes item)\<rparr>"
      have q: "conn_step env remote cn [] ?cn"
        by (rule conn_step.queues) (use Cons Nil less.prems in \<open>simp add: queue_item_def kWriteChannelCapacity_def\<close>)
      from less.hyps [of ?cn] less.prems Cons Nil obtain cn' where "delivers env remote ?cn cn'" by auto
      with quiet_step [OF q] Cons Nil have "delivers env remote cn cn'" by (auto simp: delivers_def)
      then show ?thesis by blast
    next
      case Nil': Nil
      with Nil less.prems conn_run.start have "delivers env remote cn cn" by (auto simp: delivers_def)
      then show ?thesis by blast
    qed
  qed
qed


definition waiting_run :: "(unit event list \<times> unit conn) option" where
  "waiting_run = drive demo_env local_peer [TArrive admin_update, TRead, TQueue, TRead] (new_conn [] ())"

lemma waiting_run_state:
  "map_option (\<lambda>(evs, cn). (cn_stopped cn, cn_wire cn, cn_channel cn @ cn_todo cn)) waiting_run =
     Some (False, [], [response_item 17 (bytes ''OK''), response_item 14 [7]])"
  by code_simp


section \<open>After an answer that closes the connection\<close>

definition pipelined :: "u8 list" where
  "pipelined = header_bytes \<lparr>h_size = 0, h_command = value_of AUTHENTICATE_V1\<rparr> @ admin_update"

definition pipelined_run :: "(unit event list \<times> unit conn) option" where
  "pipelined_run = drive demo_env local_peer [TArrive pipelined, TRead, TQueue, TRead, TQueue, TRead, TWrite] (new_conn [] ())"

definition refused :: write_item where "refused = error_item new_session ConfigurationError True"

lemma pipelined_run_state:
  "map_option (\<lambda>(evs, cn). (evs, cn_stopped cn, cn_wire cn)) pipelined_run =
     Some ([Arrived pipelined, Request \<lparr>h_size = 0, h_command = value_of AUTHENTICATE_V1\<rparr> [], Answer refused,
       Request \<lparr>h_size = 5, h_command = 17\<rparr> (bytes ''admin''), AdminRegistered, Answer (response_item 17 (bytes ''OK'')),
       Request \<lparr>h_size = 0, h_command = 14\<rparr> [], Executed 14, Answer (response_item 14 [7])], True, item_bytes refused)"
  by code_simp

text \<open>An answer that closes the connection does not end the reading: the requests that were
  pipelined behind it are still executed until the writer gets to it, and their answers are
  lost. Here the client sees only that its authentication was refused; the administrator was
  registered and the update started all the same.\<close>

theorem closing_answer_does_not_end_reading:
  "\<exists>evs cn pre post. conn_run demo_env local_peer (new_conn [] ()) evs cn \<and> evs = pre @ Answer refused # post \<and> closes refused \<and>
     Executed (value_of START_UPDATE_BASE) \<in> set post \<and> cn_stopped cn \<and> cn_wire cn = item_bytes refused"
proof -
  obtain evs cn where r: "pipelined_run = Some (evs, cn)" using pipelined_run_state by (cases pipelined_run) auto
  have run: "conn_run demo_env local_peer (new_conn [] ()) evs cn" by (rule drive_new [OF r [unfolded pipelined_run_def]])
  have st: "cn_stopped cn" "cn_wire cn = item_bytes refused"
    and evs: "evs = [Arrived pipelined, Request \<lparr>h_size = 0, h_command = value_of AUTHENTICATE_V1\<rparr> []] @ Answer refused #
       [Request \<lparr>h_size = 5, h_command = 17\<rparr> (bytes ''admin''), AdminRegistered, Answer (response_item 17 (bytes ''OK'')),
       Request \<lparr>h_size = 0, h_command = 14\<rparr> [], Executed (value_of START_UPDATE_BASE), Answer (response_item 14 [7])]"
    using pipelined_run_state by (simp_all add: r value_of_def)
  have "closes refused" by (simp add: refused_def error_item_def error_frame_def closes_def new_session_def)
  then show ?thesis by (intro exI conjI) (rule run, rule evs, assumption, simp, rule st, rule st)
qed

end
