(* ===== verification/IndexUpdate.thy ===== *)
theory IndexUpdate
  imports InvertedIndex
begin

text \<open>
  The point update of one file (\<open>InvertedIndex::enqueueFileUpdate\<close>, \<open>fileIndexing\<close>,
  \<open>processBatch\<close> of \<open>src/src/Index/InvertedIndex.cpp\<close>, and the deferred paths of
  \<open>src/src/Index/DeferredPathQueue.h\<close>) as a step relation. The strand runs its tasks in the
  order they were posted; the tasks of the thread pool run in any order. Reading a file is a
  step with an arbitrary result, because the file may change at any time. The catalog is the
  in-memory one.
\<close>

section \<open>Deferred paths\<close>

type_synonym deferred_paths = "wstring list"

definition dq_defer :: "wstring \<Rightarrow> deferred_paths \<Rightarrow> deferred_paths \<times> bool" where
  "dq_defer path q = (if path \<in> set q then (q, False) else (path # q, True))"

definition dq_takeAll :: "deferred_paths \<Rightarrow> deferred_paths \<times> wstring list" where
  "dq_takeAll q = ([], q)"

definition dq_drainOnce ::
  "(wstring \<Rightarrow> 's \<Rightarrow> 's) \<Rightarrow> deferred_paths \<Rightarrow> 's \<Rightarrow> deferred_paths \<times> 's \<times> nat" where
  "dq_drainOnce replay q s =
     (let (q', paths) = dq_takeAll q in (q', fold replay paths s, length paths))"

definition dq_clear :: "deferred_paths \<Rightarrow> deferred_paths" where
  "dq_clear q = []"

section \<open>State and tasks\<close>

datatype strand_task = UpsertTask wstring ticks u64 | BatchTask posting_batch | DeleteTask u32
datatype pool_task = IndexTask u32 | CommitTask chunk_map

record index_state =
  is_index :: inverted_index
  is_catalog :: memory_catalog
  is_strand :: "strand_task list"
  is_pool :: "pool_task list"
  is_active :: nat
  is_deferred :: deferred_paths
  is_stopping :: bool
  is_failed :: bool
  is_work :: bool

definition is_empty :: index_state where
  "is_empty = \<lparr>is_index = ii_empty, is_catalog = mc_empty, is_strand = [], is_pool = [],
     is_active = 0, is_deferred = [], is_stopping = False, is_failed = False, is_work = False\<rparr>"

definition beginAsyncOperation :: "index_state \<Rightarrow> index_state" where
  "beginAsyncOperation s = s\<lparr>is_active := is_active s + 1\<rparr>"

definition finishAsyncOperation :: "index_state \<Rightarrow> index_state" where
  "finishAsyncOperation s = (if is_active s > 0 then s\<lparr>is_active := is_active s - 1\<rparr> else s)"

text \<open>\<open>postTracked\<close> on the strand and on the pool.\<close>

definition post_strand :: "strand_task \<Rightarrow> index_state \<Rightarrow> index_state" where
  "post_strand t s = (let s = beginAsyncOperation s in s\<lparr>is_strand := is_strand s @ [t]\<rparr>)"

definition post_pool :: "pool_task \<Rightarrow> index_state \<Rightarrow> index_state" where
  "post_pool t s = (let s = beginAsyncOperation s in s\<lparr>is_pool := is_pool s @ [t]\<rparr>)"

section \<open>The entry points\<close>

definition requestStop :: "index_state \<Rightarrow> index_state" where
  "requestStop s = s\<lparr>is_stopping := True, is_deferred := dq_clear (is_deferred s)\<rparr>"

definition deferPointPath :: "wstring \<Rightarrow> index_state \<Rightarrow> index_state \<times> bool" where
  "deferPointPath path s =
     (if is_stopping s then (s, False)
      else (s\<lparr>is_deferred := fst (dq_defer path (is_deferred s))\<rparr>, True))"

text \<open>
  \<open>locked\<close> says that \<open>updateMutex\<close> is held by a full update; \<open>stat\<close> is the state of the file
  system: metadata of a regular file, or \<open>None\<close>. A rethrown storage failure is \<open>None\<close>.
\<close>

definition enqueueFileUpdate ::
  "bool \<Rightarrow> stat_fn \<Rightarrow> wstring \<Rightarrow> index_state \<Rightarrow> index_state \<times> bool option" where
  "enqueueFileUpdate locked stat path s =
     (if is_stopping s then (s, Some False)
      else if is_failed s then (s, None)
      else if locked \<or> is_work s then
        (let (s', r) = deferPointPath path s in (s', Some r))
      else
        let s = s\<lparr>is_index := prepareLegacyMutableState (is_index s)\<rparr>
        in (case stat path of
              None \<Rightarrow> (s, Some False)
            | Some (ts, sz) \<Rightarrow> (post_strand (UpsertTask path ts sz) s, Some True)))"

text \<open>The deletion only marks the file, in the strand; its postings are kept.\<close>

definition enqueueFileDeletion ::
  "bool \<Rightarrow> wstring \<Rightarrow> index_state \<Rightarrow> index_state \<times> bool option" where
  "enqueueFileDeletion locked path s =
     (if is_stopping s then (s, Some False)
      else if is_failed s then (s, None)
      else if locked \<or> is_work s then
        (let (s', r) = deferPointPath path s in (s', Some r))
      else (case mc_findByPath (is_catalog s) path of
              None \<Rightarrow> (s, Some False)
            | Some d \<Rightarrow> (post_strand (DeleteTask (dr_id d)) s, Some True)))"

definition replay_path :: "bool \<Rightarrow> stat_fn \<Rightarrow> wstring \<Rightarrow> index_state \<Rightarrow> index_state" where
  "replay_path locked stat path s =
     (if is_stopping s then s
      else if stat path \<noteq> None then fst (enqueueFileUpdate locked stat path s)
      else fst (enqueueFileDeletion locked path s))"

definition drainDeferredPointPaths :: "bool \<Rightarrow> stat_fn \<Rightarrow> index_state \<Rightarrow> index_state" where
  "drainDeferredPointPaths locked stat s =
     (if is_stopping s then s\<lparr>is_deferred := dq_clear (is_deferred s)\<rparr>
      else let (q, paths) = dq_takeAll (is_deferred s)
           in fold (replay_path locked stat) paths (s\<lparr>is_deferred := q\<rparr>))"

section \<open>The handlers\<close>

definition run_upsert :: "wstring \<Rightarrow> ticks \<Rightarrow> u64 \<Rightarrow> index_state \<Rightarrow> index_state" where
  "run_upsert path ts sz s =
     (let (cat, r, changed) = mc_upsert path ts sz (is_catalog s)
      in case r of
           None \<Rightarrow> s\<lparr>is_catalog := cat\<rparr>
         | Some rec \<Rightarrow>
             if \<not> changed then s\<lparr>is_catalog := cat\<rparr>
             else let f = dr_id rec; ix = is_index s;
                      isNewFile = (um_find (ii_wordRefs ix) f = None);
                      ix = (if isNewFile then ix else safeEraseFileInternal f ix)
                  in post_pool (IndexTask f) (s\<lparr>is_catalog := cat, is_index := ix\<rparr>))"

definition run_batch :: "posting_batch \<Rightarrow> index_state \<Rightarrow> index_state" where
  "run_batch b s =
     (if pb_list b = [] then s
      else let (ix, cm, _, _) = processBatch b (is_index s)
           in post_pool (CommitTask cm) (s\<lparr>is_index := ix\<rparr>))"

definition run_strand :: "index_state \<Rightarrow> index_state" where
  "run_strand s =
     (case is_strand s of
        [] \<Rightarrow> s
      | t # ts \<Rightarrow> finishAsyncOperation
          (case t of UpsertTask p m z \<Rightarrow> run_upsert p m z (s\<lparr>is_strand := ts\<rparr>)
           | BatchTask b \<Rightarrow> run_batch b (s\<lparr>is_strand := ts\<rparr>)
           | DeleteTask f \<Rightarrow> s\<lparr>is_strand := ts, is_catalog := mc_markRemoved f (is_catalog s)\<rparr>))"

text \<open>
  The SQLite mirror fails while the strand writes to it: the failure is recorded. A batch has
  then already numbered its words and extended the references; nothing is published.
\<close>

definition run_strand_failed :: "index_state \<Rightarrow> index_state" where
  "run_strand_failed s =
     (case is_strand s of
        BatchTask b # ts \<Rightarrow> finishAsyncOperation
          (s\<lparr>is_strand := ts, is_failed := True, is_index := fst (processBatch b (is_index s))\<rparr>)
      | DeleteTask f # ts \<Rightarrow> finishAsyncOperation (s\<lparr>is_strand := ts, is_failed := True\<rparr>)
      | _ \<Rightarrow> run_strand s)"

text \<open>\<open>ws\<close> is the frequency table that reading the file gives at this moment.\<close>

definition run_pool :: "nat \<Rightarrow> (string \<times> u32) list \<Rightarrow> index_state \<Rightarrow> index_state" where
  "run_pool k ws s =
     (let s' = s\<lparr>is_pool := take k (is_pool s) @ drop (Suc k) (is_pool s)\<rparr>
      in finishAsyncOperation (case is_pool s ! k of
           IndexTask f \<Rightarrow> post_strand (BatchTask \<lparr>pb_fileId = f, pb_list = ws\<rparr>) s'
         | CommitTask cm \<Rightarrow>
             s'\<lparr>is_index := (is_index s')\<lparr>ii_chunks := commitChunkMap cm (ii_chunks (is_index s'))\<rparr>\<rparr>))"

inductive ii_work :: "index_state \<Rightarrow> index_state \<Rightarrow> bool" where
  strand: "is_strand s \<noteq> [] \<Longrightarrow> ii_work s (run_strand s)"
| pool: "k < length (is_pool s) \<Longrightarrow> distinct (map fst ws) \<Longrightarrow> ii_work s (run_pool k ws s)"

inductive ii_step :: "index_state \<Rightarrow> index_state \<Rightarrow> bool" where
  work: "ii_work s s' \<Longrightarrow> ii_step s s'"
| update: "ii_step s (fst (enqueueFileUpdate locked stat path s))"
| mirror_fails: "is_strand s \<noteq> [] \<Longrightarrow> ii_step s (run_strand_failed s)"
| deletion: "ii_step s (fst (enqueueFileDeletion locked path s))"
| drain: "ii_step s (drainDeferredPointPaths locked stat s)"
| stop: "ii_step s (requestStop s)"

inductive_cases ii_workE: "ii_work s s'"

definition quiescent :: "index_state \<Rightarrow> bool" where
  "quiescent s \<longleftrightarrow> is_strand s = [] \<and> is_pool s = []"

section \<open>The operation counter\<close>

definition active_ok :: "index_state \<Rightarrow> bool" where
  "active_ok s \<longleftrightarrow> is_active s = length (is_strand s) + length (is_pool s)"

lemmas post_defs = post_strand_def post_pool_def beginAsyncOperation_def finishAsyncOperation_def Let_def

lemma run_upsert_active:
  "is_active s = length (is_strand s) + length (is_pool s) + k \<Longrightarrow>
   is_active (run_upsert p m z s) =
     length (is_strand (run_upsert p m z s)) + length (is_pool (run_upsert p m z s)) + k"
  by (auto simp: run_upsert_def post_defs split: prod.splits option.splits)

lemma run_batch_active:
  "is_active s = length (is_strand s) + length (is_pool s) + k \<Longrightarrow>
   is_active (run_batch b s) = length (is_strand (run_batch b s)) + length (is_pool (run_batch b s)) + k"
  by (auto simp: run_batch_def post_defs split: prod.splits)

lemma active_strand:
  assumes "active_ok s" and "is_strand s \<noteq> []"
  shows "active_ok (run_strand s)"
proof -
  obtain t ts where t: "is_strand s = t # ts" using assms(2) by (cases "is_strand s") auto
  have k: "is_active (s\<lparr>is_strand := ts\<rparr>) = length (is_strand (s\<lparr>is_strand := ts\<rparr>)) +
      length (is_pool (s\<lparr>is_strand := ts\<rparr>)) + 1"
    using assms(1) t by (simp add: active_ok_def)
  show ?thesis
  proof (cases t)
    case (UpsertTask p m z)
    with t run_upsert_active [OF k, of p m z] show ?thesis
      by (simp add: active_ok_def run_strand_def finishAsyncOperation_def)
  next
    case (BatchTask b)
    with t run_batch_active [OF k, of b] show ?thesis
      by (simp add: active_ok_def run_strand_def finishAsyncOperation_def)
  qed (use t k in \<open>simp add: active_ok_def run_strand_def finishAsyncOperation_def\<close>)
qed

lemma active_work:
  assumes "ii_work s s'" and "active_ok s"
  shows "active_ok s'"
  using assms
proof (induction rule: ii_work.induct)
  case (pool k s ws)
  then show ?case
    by (auto simp: active_ok_def run_pool_def post_defs split: pool_task.split)
qed (rule active_strand)

lemma active_failed: "active_ok s \<Longrightarrow> is_strand s \<noteq> [] \<Longrightarrow> active_ok (run_strand_failed s)"
  using active_strand [of s]
  by (auto simp: run_strand_failed_def finishAsyncOperation_def active_ok_def neq_Nil_conv
      split: strand_task.split list.split)

lemma active_update: "active_ok s \<Longrightarrow> active_ok (fst (enqueueFileUpdate locked stat path s))"
  by (auto simp: active_ok_def enqueueFileUpdate_def deferPointPath_def post_defs split: option.splits)

lemma active_deletion: "active_ok s \<Longrightarrow> active_ok (fst (enqueueFileDeletion locked path s))"
  by (auto simp: active_ok_def enqueueFileDeletion_def deferPointPath_def post_defs split: option.splits)

lemma active_step: "ii_step s s' \<Longrightarrow> active_ok s \<Longrightarrow> active_ok s'"
proof (induction rule: ii_step.induct)
  case (work s s')
  then show ?case by (rule active_work)
next
  case (drain s locked stat)
  have "active_ok s \<Longrightarrow> active_ok (fold (replay_path locked stat) ps s)" for ps s
    by (induction ps arbitrary: s) (simp_all add: replay_path_def active_update active_deletion)
  with drain show ?case
    by (simp add: drainDeferredPointPaths_def dq_takeAll_def) (simp add: active_ok_def)
next
  case (stop s)
  then show ?case by (simp add: requestStop_def active_ok_def)
qed (auto simp: active_update active_deletion active_failed)

section \<open>One update runs alone\<close>

definition erased_for :: "u32 \<Rightarrow> inverted_index \<Rightarrow> inverted_index" where
  "erased_for f ix = (if um_find (ii_wordRefs ix) f = None then ix else safeEraseFileInternal f ix)"

lemma erased_for_counts:
  assumes "ii_invar ix"
  shows "ii_invar (erased_for f ix)" and "ii_wordIds (erased_for f ix) = ii_wordIds ix"
    and "count_of (erased_for f ix) w g = (if g = f then None else count_of ix w g)"
proof -
  have "count_of ix w f = None" if a: "um_find (ii_wordRefs ix) f = None"
  proof (rule ccontr)
    assume c: "count_of ix w f \<noteq> None"
    have base: "ii_base ix" using assms by (simp add: ii_invar_def)
    from c obtain i where "wid_tryGet (ii_wordIds ix) w = Some i"
      by (auto simp: count_of_base [OF base] split: option.splits)
    with c assms have "i \<in> set (refs_of (ii_wordRefs ix) f)"
      unfolding ii_invar_def refs_complete_words [OF base] by blast
    with a show False by (simp add: refs_of_def)
  qed
  then show "ii_invar (erased_for f ix)" "ii_wordIds (erased_for f ix) = ii_wordIds ix"
    "count_of (erased_for f ix) w g = (if g = f then None else count_of ix w g)"
    using assms erase_counts [OF assms, of f] by (auto simp: erased_for_def erase_ids)
qed

datatype update_stage = Posted | Upserted | Read | Numbered | Done

definition at_stage ::
  "index_state \<Rightarrow> u32 \<Rightarrow> (string \<times> u32) list \<Rightarrow> update_stage \<Rightarrow> index_state \<Rightarrow> bool" where
  "at_stage s0 f ws g s \<longleftrightarrow>
     (let E = erased_for f (is_index s0); b = \<lparr>pb_fileId = f, pb_list = ws\<rparr>
      in case g of
           Posted \<Rightarrow> s = s0
         | Upserted \<Rightarrow> is_strand s = [] \<and> is_pool s = [IndexTask f] \<and> is_index s = E
         | Read \<Rightarrow> is_strand s = [BatchTask b] \<and> is_pool s = [] \<and> is_index s = E
         | Numbered \<Rightarrow> ws \<noteq> [] \<and> is_strand s = [] \<and>
             is_pool s = [CommitTask (fst (snd (processBatch b E)))] \<and> is_index s = fst (processBatch b E)
         | Done \<Rightarrow> quiescent s \<and> is_index s = commit_batch b E)"

lemmas stage_defs = at_stage_def Let_def run_strand_def run_pool_def post_strand_def post_pool_def
  beginAsyncOperation_def finishAsyncOperation_def

lemma stage_Posted:
  assumes "is_strand s0 = [UpsertTask p m z]" and "is_pool s0 = []"
    and "mc_upsert p m z (is_catalog s0) = (cat, Some rec, True)"
  shows "at_stage s0 (dr_id rec) ws Upserted (run_strand s0)"
  using assms by (simp add: stage_defs run_upsert_def erased_for_def)

lemma stage_Upserted:
  "at_stage s0 f ws0 Upserted s \<Longrightarrow> at_stage s0 f ws Read (run_pool 0 ws s)"
  by (auto simp: stage_defs)

lemma stage_Read:
  "at_stage s0 f ws Read s \<Longrightarrow> at_stage s0 f ws (if ws = [] then Done else Numbered) (run_strand s)"
  by (auto simp: stage_defs run_batch_def commit_batch_def quiescent_def split: prod.splits)

lemma stage_Numbered:
  "at_stage s0 f ws Numbered s \<Longrightarrow> at_stage s0 f ws Done (run_pool 0 ws' s)"
  by (auto simp: stage_defs commit_batch_def quiescent_def split: prod.splits)

lemma stages_closed:
  assumes "ii_work s s'" and "at_stage s0 f ws g s" and "distinct (map fst ws)"
    and "is_strand s0 = [UpsertTask p m z]" and "is_pool s0 = []"
    and "mc_upsert p m z (is_catalog s0) = (cat, Some rec, True)" and "f = dr_id rec"
  shows "\<exists>ws' g'. distinct (map fst ws') \<and> at_stage s0 f ws' g' s'"
proof (cases g)
  case Posted
  with assms(2) have "s = s0" by (simp add: at_stage_def)
  with assms(1,4,5) have "s' = run_strand s0" by (auto elim: ii_workE)
  with stage_Posted [OF assms(4-6)] assms(3,7) show ?thesis by blast
next
  case Upserted
  with assms(1,2) obtain ws' where "s' = run_pool 0 ws' s" "distinct (map fst ws')"
    by (auto simp: at_stage_def Let_def elim!: ii_workE)
  with stage_Upserted assms(2) Upserted show ?thesis by blast
next
  case Read
  with assms(1,2) have "s' = run_strand s" by (auto simp: at_stage_def Let_def elim!: ii_workE)
  with stage_Read assms(2,3) Read show ?thesis by blast
next
  case Numbered
  with assms(1,2) obtain ws' where "s' = run_pool 0 ws' s"
    by (auto simp: at_stage_def Let_def elim!: ii_workE)
  with stage_Numbered assms(2,3) Numbered show ?thesis by blast
next
  case Done
  with assms(1,2) show ?thesis by (auto simp: at_stage_def quiescent_def elim: ii_workE)
qed

lemma stages_reached:
  assumes "ii_work\<^sup>*\<^sup>* s0 s"
    and "is_strand s0 = [UpsertTask p m z]" and "is_pool s0 = []"
    and "mc_upsert p m z (is_catalog s0) = (cat, Some rec, True)"
  shows "\<exists>ws g. distinct (map fst ws) \<and> at_stage s0 (dr_id rec) ws g s"
  using assms(1)
proof (induction rule: rtranclp_induct)
  case base
  have "at_stage s0 (dr_id rec) [] Posted s0" by (simp add: at_stage_def)
  then show ?case by (intro exI [of _ "[]"] exI) simp_all
next
  case (step y z')
  then show ?case using stages_closed [OF step.hyps(2) _ _ assms(2-4)] by blast
qed

lemma stages_run:
  assumes "distinct (map fst ws)"
    and "is_strand s0 = [UpsertTask p m z]" and "is_pool s0 = []"
    and "mc_upsert p m z (is_catalog s0) = (cat, Some rec, True)"
  shows "\<exists>s. ii_work\<^sup>*\<^sup>* s0 s \<and> at_stage s0 (dr_id rec) ws Done s"
proof -
  let ?f = "dr_id rec"
  let ?s1 = "run_strand s0" let ?s2 = "run_pool 0 ws ?s1" let ?s3 = "run_strand ?s2"
  have 1: "at_stage s0 ?f ws Upserted ?s1" by (rule stage_Posted [OF assms(2-4)])
  have 2: "at_stage s0 ?f ws Read ?s2" by (rule stage_Upserted [OF 1])
  have 3: "at_stage s0 ?f ws (if ws = [] then Done else Numbered) ?s3" by (rule stage_Read [OF 2])
  have "ii_work s0 ?s1" using assms(2) by (intro ii_work.strand) simp
  moreover have "ii_work ?s1 ?s2" using 1 assms(1) by (intro ii_work.pool) (auto simp: at_stage_def Let_def)
  moreover have "ii_work ?s2 ?s3" using 2 by (intro ii_work.strand) (auto simp: at_stage_def Let_def)
  ultimately have r: "ii_work\<^sup>*\<^sup>* s0 ?s3" by (meson rtranclp.intros)
  show ?thesis
  proof (cases "ws = []")
    case True
    with r 3 show ?thesis by auto
  next
    case False
    then have numbered: "at_stage s0 ?f ws Numbered ?s3" using 3 by simp
    then have "ii_work ?s3 (run_pool 0 ws ?s3)"
      using assms(1) by (intro ii_work.pool) (auto simp: at_stage_def Let_def)
    with r stage_Numbered [OF numbered, of ws] show ?thesis by (meson rtranclp.rtrancl_into_rtrancl)
  qed
qed

lemma stage_quiescent:
  assumes "at_stage s0 f ws g s" and "quiescent s" and "is_strand s0 \<noteq> []"
  shows "is_index s = commit_batch \<lparr>pb_fileId = f, pb_list = ws\<rparr> (erased_for f (is_index s0))"
  using assms by (cases g) (auto simp: at_stage_def Let_def quiescent_def)

section \<open>Properties\<close>

text \<open>the counter of asynchronous operations that \<open>waitForIdle\<close> waits on is, in every state
  reachable by point updates, deletions, failures, replays and stops, the number of posted
  and unfinished tasks: \<open>waitForIdle\<close> returns exactly when nothing is pending.\<close>

theorem waitForIdle_exact:
  assumes "ii_step\<^sup>*\<^sup>* is_empty s"
  shows "is_active s = length (is_strand s) + length (is_pool s) \<and> (is_active s = 0 \<longleftrightarrow> quiescent s)"
proof -
  from assms have "active_ok s"
    by (induction rule: rtranclp_induct) (simp_all add: is_empty_def active_ok_def active_step [unfolded active_ok_def])
  then show ?thesis by (auto simp: active_ok_def quiescent_def)
qed

lemma waitForIdle_exact_witness:
  "ii_step\<^sup>*\<^sup>* is_empty (requestStop is_empty) \<and> is_active (requestStop is_empty) = 0"
proof -
  have r: "ii_step\<^sup>*\<^sup>* is_empty (requestStop is_empty)" by (intro r_into_rtranclp ii_step.stop)
  from waitForIdle_exact [OF r] r show ?thesis
    by (auto simp: quiescent_def requestStop_def is_empty_def)
qed


lemma mc_upsert_fresh:
  "\<exists>cat r. mc_upsert [65] 10 20 mc_empty = (cat, Some r, True) \<and> dr_id r = 0 \<and>
     (\<exists>cat' r'. mc_upsert [65] 11 21 cat = (cat', Some r', True) \<and> dr_id r' = 0)"
  by (simp add: mc_upsert_def mc_empty_def dp_upsert_def dp_empty_def dp_insert_def Let_def
      mc_record_def dp_getInfo_def dp_key_def dp_isDeleted_def nextId_def dp_set_info_def umap_simps)


lemma batch_then_commit:
  assumes "is_strand t = BatchTask b # ts" and "is_pool t = []" and "pb_list b \<noteq> []"
  shows "is_pool (run_strand t) \<noteq> []" and "is_strand (run_pool 0 ws (run_strand t)) = ts"
    and "is_pool (run_pool 0 ws (run_strand t)) = []"
    and "is_index (run_pool 0 ws (run_strand t)) = commit_batch b (is_index t)"
proof -
  obtain ix cm x y where p: "processBatch b (is_index t) = (ix, cm, x, y)" by (metis prod_cases4)
  have r: "is_strand (run_strand t) = ts" "is_pool (run_strand t) = [CommitTask cm]"
      "is_index (run_strand t) = ix"
    using assms p by (simp_all add: run_strand_def run_batch_def post_defs)
  then show "is_pool (run_strand t) \<noteq> []" "is_strand (run_pool 0 ws (run_strand t)) = ts"
    "is_pool (run_pool 0 ws (run_strand t)) = []"
    "is_index (run_pool 0 ws (run_strand t)) = commit_batch b (is_index t)"
    using assms(3) p by (simp_all add: run_pool_def commit_batch_def post_defs)
qed

text \<open>The states of two overlapping updates of one file that is not in the index yet.\<close>

lemma overlap_run:
  assumes s: "quiescent s" and ix: "ii_dictionary (is_index s) = []"
    and free: "\<not> is_stopping s" "\<not> is_failed s" "\<not> is_work s"
    and st: "stat1 p = Some (m1, z1)" "stat2 p = Some (m2, z2)"
    and up: "mc_upsert p m1 z1 (is_catalog s) = (cat1, Some r1, True)"
      "mc_upsert p m2 z2 cat1 = (cat2, Some r2, True)" "dr_id r1 = f" "dr_id r2 = f"
    and new: "um_find (ii_wordRefs (is_index s)) f = None" and ws: "distinct (map fst ws)" "ws \<noteq> []"
  shows "\<exists>s'. ii_step\<^sup>*\<^sup>* s s' \<and> quiescent s' \<and>
    is_index s' = commit_batch \<lparr>pb_fileId = f, pb_list = ws\<rparr> (commit_batch \<lparr>pb_fileId = f, pb_list = ws\<rparr> (is_index s))"
proof -
  let ?b = "\<lparr>pb_fileId = f, pb_list = ws\<rparr>"
  let ?e1 = "fst (enqueueFileUpdate False stat1 p s)" let ?e2 = "fst (enqueueFileUpdate False stat2 p ?e1)"
  have prep: "prepareLegacyMutableState (is_index s) = is_index s"
    using ix by (simp add: prepareLegacyMutableState_def)
  have e1: "?e1 = post_strand (UpsertTask p m1 z1) s"
    using free st prep by (simp add: enqueueFileUpdate_def)
  have e2: "?e2 = post_strand (UpsertTask p m2 z2) ?e1"
    using free st prep unfolding e1 by (simp add: enqueueFileUpdate_def post_defs)
  have f2: "is_strand ?e2 = [UpsertTask p m1 z1, UpsertTask p m2 z2]" "is_pool ?e2 = []"
      "is_index ?e2 = is_index s" "is_catalog ?e2 = is_catalog s"
    unfolding e2 unfolding e1 using s by (simp_all add: quiescent_def post_defs)
  let ?u1 = "run_strand ?e2" let ?u2 = "run_strand ?u1"
  have u1: "is_strand ?u1 = [UpsertTask p m2 z2]" "is_pool ?u1 = [IndexTask f]"
    "is_index ?u1 = is_index s" "is_catalog ?u1 = cat1"
    using f2 up new by (simp_all add: run_strand_def run_upsert_def post_defs)
  have u2: "is_strand ?u2 = []" "is_pool ?u2 = [IndexTask f, IndexTask f]" "is_index ?u2 = is_index s"
    using up new u1 by (simp_all add: run_strand_def run_upsert_def post_defs)
  let ?r1 = "run_pool 0 ws ?u2" let ?r2 = "run_pool 0 ws ?r1"
  have r2: "is_strand ?r2 = [BatchTask ?b, BatchTask ?b]" "is_pool ?r2 = []" "is_index ?r2 = is_index s"
      "is_pool ?r1 \<noteq> []"
    using u2 by (simp_all add: run_pool_def post_defs)
  let ?n1 = "run_strand ?r2" let ?c1 = "run_pool 0 ws ?n1"
  have n1: "is_pool ?n1 \<noteq> []" and c1: "is_strand ?c1 = [BatchTask ?b]" "is_pool ?c1 = []"
      "is_index ?c1 = commit_batch ?b (is_index s)"
    using batch_then_commit [OF r2(1,2)] r2(3) ws(2) by simp_all
  let ?n2 = "run_strand ?c1" let ?c2 = "run_pool 0 ws ?n2"
  have n2: "is_pool ?n2 \<noteq> []" and c2: "quiescent ?c2"
      "is_index ?c2 = commit_batch ?b (commit_batch ?b (is_index s))"
    using batch_then_commit [OF c1(1,2)] c1(3) ws(2) by (simp_all add: quiescent_def)
  have strand: "is_strand t \<noteq> [] \<Longrightarrow> ii_step t (run_strand t)" for t
    by (intro ii_step.work ii_work.strand)
  have pool: "is_pool t \<noteq> [] \<Longrightarrow> ii_step t (run_pool 0 ws t)" for t
    using ws(1) by (intro ii_step.work ii_work.pool) simp_all
  note into = rtranclp.rtrancl_into_rtrancl
  have "ii_step\<^sup>*\<^sup>* s ?e1" by (intro r_into_rtranclp ii_step.update)
  then have "ii_step\<^sup>*\<^sup>* s ?e2" by (rule into) (rule ii_step.update)
  then have "ii_step\<^sup>*\<^sup>* s ?u1" by (rule into) (rule strand, simp add: f2)
  then have "ii_step\<^sup>*\<^sup>* s ?u2" by (rule into) (rule strand, simp add: u1)
  then have "ii_step\<^sup>*\<^sup>* s ?r1" by (rule into) (rule pool, simp add: u2)
  then have "ii_step\<^sup>*\<^sup>* s ?r2" by (rule into) (rule pool, rule r2)
  then have "ii_step\<^sup>*\<^sup>* s ?n1" by (rule into) (rule strand, simp add: r2)
  then have "ii_step\<^sup>*\<^sup>* s ?c1" by (rule into) (rule pool, rule n1)
  then have "ii_step\<^sup>*\<^sup>* s ?n2" by (rule into) (rule strand, simp add: c1)
  then have "ii_step\<^sup>*\<^sup>* s ?c2" by (rule into) (rule pool, rule n2)
  with c2 show ?thesis by blast
qed

text \<open>two updates of a new file that overlap are not serialised: both find no earlier
  postings, neither erases what the other adds, and a reachable idle state counts every
  occurrence twice. \<open>processBatch\<close> only ever adds, and only the upsert erases.\<close>

theorem overlapping_updates_count_twice:
  assumes "quiescent s" and "ii_invar (is_index s)"
    and "\<not> is_stopping s" and "\<not> is_failed s" and "\<not> is_work s"
    and "stat1 p = Some (m1, z1)" and "stat2 p = Some (m2, z2)"
    and "mc_upsert p m1 z1 (is_catalog s) = (cat1, Some r1, True)"
    and "mc_upsert p m2 z2 cat1 = (cat2, Some r2, True)" and "dr_id r1 = f" and "dr_id r2 = f"
    and "um_find (ii_wordRefs (is_index s)) f = None"
    and "distinct (map fst ws)" and "ws \<noteq> []"
    and "wid_size (ii_wordIds (is_index s)) + 2 * length ws \<le> 2 ^ 32"
  shows "\<exists>s'. ii_step\<^sup>*\<^sup>* s s' \<and> quiescent s' \<and>
    (\<forall>w c. map_of ws w = Some c \<longrightarrow>
      count_of (is_index s') w f = Some (cnt_plus_opt (Some (cnt_plus_opt None c)) c))"
proof -
  let ?b = "\<lparr>pb_fileId = f, pb_list = ws\<rparr>" and ?ix = "is_index s"
  have dict: "ii_dictionary ?ix = []" and base: "ii_base ?ix" using assms(2) by (auto simp: ii_invar_def ii_base_def)
  obtain s' where s': "ii_step\<^sup>*\<^sup>* s s'" "quiescent s'" "is_index s' = commit_batch ?b (commit_batch ?b ?ix)"
    using overlap_run [where ?stat1.0 = stat1 and ?stat2.0 = stat2 and p = p, OF assms(1) dict assms(3-14)]
    by blast
  have none: "count_of ?ix w f = None" for w
    using erased_for_counts(3) [OF assms(2), of f w f] assms(12) by (simp add: erased_for_def)
  have d: "distinct (map fst (pb_list ?b))" using assms(13) by simp
  have cap1: "wid_size (ii_wordIds ?ix) + length (pb_list ?b) \<le> 2 ^ 32" using assms(15) by simp
  have cap2: "wid_size (ii_wordIds (commit_batch ?b ?ix)) + length (pb_list ?b) \<le> 2 ^ 32"
  proof -
    have ne: "pb_list ?b \<noteq> []" using assms(14) by simp
    have "wid_size (ii_wordIds (commit_batch ?b ?ix)) \<le> wid_size (ii_wordIds ?ix) + length ws"
      by (rule commit_batch_parts [OF base d cap1 ne]) (simp add: batch_inv_def)
    with assms(15) show ?thesis by simp
  qed
  note c1 = commit_batch_counts [OF base d cap1] and c2 = commit_batch_counts(2) [OF _ d cap2]
  have "count_of (is_index s') w f = Some (cnt_plus_opt (Some (cnt_plus_opt None c)) c)"
    if "map_of ws w = Some c" for w c
    using that by (simp add: s'(3) c2 [OF c1(1)] c1(2) none)
  with s' show ?thesis by blast
qed

lemma overlapping_updates_count_twice_witness:
  "\<exists>s'. ii_step\<^sup>*\<^sup>* is_empty s' \<and> quiescent s' \<and> count_of (is_index s') ''SEA'' 0 = Some 2"
proof -
  obtain cat r cat' r' where u: "mc_upsert [65] 10 20 (is_catalog is_empty) = (cat, Some r, True)"
      "mc_upsert [65] 11 21 cat = (cat', Some r', True)" "dr_id r = 0" "dr_id r' = 0"
    using mc_upsert_fresh by (auto simp: is_empty_def)
  have e: "quiescent is_empty" "ii_invar (is_index is_empty)" "\<not> is_stopping is_empty" "\<not> is_failed is_empty"
    "\<not> is_work is_empty" "um_find (ii_wordRefs (is_index is_empty)) 0 = None"
    "wid_size (ii_wordIds (is_index is_empty)) + 2 * length [(''SEA'', 1 :: u32)] \<le> 2 ^ 32"
    by (simp_all add: is_empty_def quiescent_def ii_invar_empty ii_empty_def wid_size_def wid_empty_def)
      (use ii_invar_empty in \<open>simp add: ii_empty_def wid_empty_def\<close>)
  have v: "cnt_plus_opt (Some (cnt_plus_opt None 1)) 1 = 2" by (simp add: cnt_plus_opt_def cnt_plus_def)
  from overlapping_updates_count_twice [where ?stat1.0 = "\<lambda>_. Some (10, 20)" and p = "[65]"
      and ?stat2.0 = "\<lambda>_. Some (11, 21)" and ws = "[(''SEA'', 1)]", OF e(1-5) _ _ u(1,2,3,4) e(6) _ _ e(7)]
  show ?thesis by (auto simp: v)
qed

end
