(* ===== verification/SQLiteIndexDb.thy ===== *)
theory SQLiteIndexDb
  imports InvertedIndex Encoding "HOL-Library.Product_Lexorder"
begin

text \<open>
  The index in SQLite (\<open>src/src/Index/SQLiteIndexSerializer.h\<close>, \<open>SQLiteIndexSerializer.cpp\<close>): the
  three tables \<open>words\<close>, \<open>docs\<close> and \<open>postings\<close>, the statements the serializer prepares on
  them, the coalescing of a queue of live operations in \<open>writeBatch\<close>, the full \<open>save\<close> and the
  (parallel) \<open>load\<close>.

  A table is an association list from its primary key to the rest of the row. Keys are
  bound with \<open>sqlite3_bind_int\<close> after a cast to \<open>int\<close>, so an id from \<open>2^31\<close> on is stored as a
  negative number; texts are bound up to their first zero byte. \<open>None\<close> stands for an
  exception: a transaction that throws is rolled back. Failures of the storage itself
  (a full disk, a locked database) are events of the writer in \<open>LiveMirror\<close>.
\<close>

section \<open>The tables\<close>

record doc_row =
  dw_path :: "u8 list"
  dw_mtime :: int
  dw_size :: int
  dw_deleted :: bool

record index_db =
  db_words :: "(int, string) umap"
  db_docs :: "(int, doc_row) umap"
  db_postings :: "(int \<times> int, int) umap"

definition db_empty :: index_db where
  "db_empty = \<lparr>db_words = [], db_docs = [], db_postings = []\<rparr>"

text \<open>\<open>static_cast<int>\<close> of an unsigned id, and a C string made of a \<open>std::string\<close>.\<close>

definition bind_int :: "u32 \<Rightarrow> int" where
  "bind_int w = sint w"

definition c_str :: "string \<Rightarrow> string" where
  "c_str s = takeWhile (\<lambda>c. c \<noteq> CHR 0x00) s"

text \<open>A path as it is bound: UTF-8 up to the first zero byte.\<close>

definition path_text :: "wstring \<Rightarrow> utf_error + u8 list" where
  "path_text path = map_sum id (takeWhile (\<lambda>c. c \<noteq> 0)) (wstring_to_utf8 path)"

text \<open>The paths that survive the way to the table.\<close>

definition path_ok :: "wstring \<Rightarrow> bool" where
  "path_ok p \<longleftrightarrow> well_formed16 p \<and> 0 \<notin> set p"

lemma path_text_ok:
  assumes "path_ok p"
  shows "\<exists>bs. path_text p = Inr bs \<and> utf8_to_wstring bs = Inr p"
proof -
  from assms obtain bs where bs: "wstring_to_utf8 p = Inr bs" "utf8_to_wstring bs = Inr p"
    using wstring_to_utf8_ok [of p] by (auto simp: path_ok_def)
  then have "0 \<notin> set bs" using assms utf16to8_nonzero by (auto simp: path_ok_def wstring_to_utf8_def)
  then have "takeWhile (\<lambda>c. c \<noteq> 0) bs = bs" by (auto simp: takeWhile_eq_all_conv)
  then have "path_text p = Inr bs" using bs(1) by (simp only: path_text_def map_sum.simps)
  with bs(2) show ?thesis by simp
qed

lemma path_text_inj: "path_ok p \<Longrightarrow> path_ok q \<Longrightarrow> path_text p = path_text q \<Longrightarrow> p = q"
  using path_text_ok [of p] path_text_ok [of q] by auto

section \<open>The prepared statements\<close>

definition ins_word :: "u32 \<times> string \<Rightarrow> index_db \<Rightarrow> index_db" where
  "ins_word e db = db\<lparr>db_words := um_emplace (bind_int (fst e)) (c_str (snd e)) (db_words db)\<rparr>"

text \<open>The unique index on \<open>docs(path)\<close>: a second document with the same path is refused.\<close>

definition path_taken :: "int \<Rightarrow> u8 list \<Rightarrow> index_db \<Rightarrow> bool" where
  "path_taken k p db = list_ex (\<lambda>(j, r). j \<noteq> k \<and> dw_path r = p) (db_docs db)"

definition upsert_doc :: "u32 \<Rightarrow> wstring \<Rightarrow> ticks \<Rightarrow> u64 \<Rightarrow> index_db \<Rightarrow> index_db option" where
  "upsert_doc f path m z db =
     (case path_text path of
        Inl _ \<Rightarrow> None
      | Inr p8 \<Rightarrow>
          if path_taken (bind_int f) p8 db then None
          else Some (db\<lparr>db_docs := um_put (bind_int f)
                 \<lparr>dw_path = p8, dw_mtime = sint m, dw_size = sint z, dw_deleted = False\<rparr> (db_docs db)\<rparr>))"

definition del_postings :: "u32 \<Rightarrow> index_db \<Rightarrow> index_db" where
  "del_postings f db = db\<lparr>db_postings := filter (\<lambda>e. snd (fst e) \<noteq> bind_int f) (db_postings db)\<rparr>"

definition ins_posting :: "u32 \<Rightarrow> u32 \<times> u16 \<Rightarrow> index_db \<Rightarrow> index_db" where
  "ins_posting f e db =
     db\<lparr>db_postings := um_put (bind_int (fst e), bind_int f) (uint (snd e)) (db_postings db)\<rparr>"

definition mark_deleted :: "u32 \<Rightarrow> index_db \<Rightarrow> index_db" where
  "mark_deleted f db =
     (case um_find (db_docs db) (bind_int f) of
        None \<Rightarrow> db
      | Some r \<Rightarrow> db\<lparr>db_docs := um_put (bind_int f) (r\<lparr>dw_deleted := True\<rparr>) (db_docs db)\<rparr>)"

text \<open>The checks of \<open>initSchema\<close> on the tables it finds: a path that occurs twice and a posting
  of a document without a row are errors.\<close>

definition initSchema :: "index_db \<Rightarrow> bool" where
  "initSchema db \<longleftrightarrow>
     distinct (map (\<lambda>e. dw_path (snd e)) (db_docs db)) \<and>
     list_all (\<lambda>e. um_find (db_docs db) (snd (fst e)) \<noteq> None) (db_postings db)"

section \<open>Live operations and their coalescing\<close>

datatype op_kind = Write | MarkDeleted

record live_op =
  lo_kind :: op_kind
  lo_fileId :: u32
  lo_path :: wstring
  lo_mtimeTicks :: ticks
  lo_size :: u64
  lo_widCounts :: "(u32 \<times> u16) list"
  lo_newWords :: "(u32 \<times> string) list"
  lo_markDeletedAfterWrite :: bool

definition coalesce :: "live_op \<Rightarrow> (u32, live_op) umap \<Rightarrow> (u32, live_op) umap" where
  "coalesce op m =
     (case um_find m (lo_fileId op) of
        None \<Rightarrow> um_put (lo_fileId op) op m
      | Some old \<Rightarrow>
          if lo_kind op = Write then um_put (lo_fileId op) op m
          else if lo_kind old = Write
               then um_put (lo_fileId op) (old\<lparr>lo_markDeletedAfterWrite := True\<rparr>) m
               else um_put (lo_fileId op) op m)"

definition new_words_of :: "u32 \<times> live_op \<Rightarrow> (u32, string) umap \<Rightarrow> (u32, string) umap" where
  "new_words_of e m =
     (if lo_kind (snd e) \<noteq> Write then m
      else fold (\<lambda>(wid, w). um_emplace wid w) (lo_newWords (snd e)) m)"

definition write_op :: "u32 \<times> live_op \<Rightarrow> index_db \<Rightarrow> index_db option" where
  "write_op e db =
     (let f = fst e; op = snd e
      in if lo_kind op = MarkDeleted then Some (mark_deleted f db)
         else (case upsert_doc f (lo_path op) (lo_mtimeTicks op) (lo_size op) db of
                 None \<Rightarrow> None
               | Some db' \<Rightarrow>
                   let db' = fold (ins_posting f) (lo_widCounts op) (del_postings f db')
                   in Some (if lo_markDeletedAfterWrite op then mark_deleted f db' else db')))"

definition writeBatch :: "live_op list \<Rightarrow> index_db \<Rightarrow> index_db option" where
  "writeBatch rawBatch db =
     (if rawBatch = [] then Some db
      else let coalesced = fold coalesce rawBatch [];
               allNewWords = fold new_words_of coalesced []
           in fold_opt write_op coalesced (fold ins_word allNewWords db))"

section \<open>Saving the whole index\<close>

text \<open>A plain \<open>INSERT\<close>: an existing key is a constraint error.\<close>

definition ins_new :: "'k \<Rightarrow> 'v \<Rightarrow> ('k, 'v) umap \<Rightarrow> ('k, 'v) umap option" where
  "ins_new k v m = (case um_find m k of None \<Rightarrow> Some (um_put k v m) | Some _ \<Rightarrow> None)"

definition save_words :: "word_ids \<Rightarrow> (int, string) umap option" where
  "save_words ids =
     fold_opt (\<lambda>wordId. ins_new (bind_int (of_nat wordId)) (c_str (wid_byId ids (of_nat wordId))))
       [0..<wid_size ids] []"

definition save_doc :: "document_record \<Rightarrow> index_db \<Rightarrow> index_db option" where
  "save_doc d db =
     (case path_text (dr_path d) of
        Inl _ \<Rightarrow> None
      | Inr p8 \<Rightarrow>
          if path_taken (bind_int (dr_id d)) p8 db then None
          else map_option (\<lambda>docs. db\<lparr>db_docs := docs\<rparr>)
            (ins_new (bind_int (dr_id d))
               \<lparr>dw_path = p8, dw_mtime = sint (dr_mtimeTicks d), dw_size = sint (dr_size d),
                dw_deleted = dr_deleted d\<rparr> (db_docs db)))"

definition writePostingList :: "nat \<times> posting_list \<Rightarrow> (int \<times> int, int) umap \<Rightarrow> (int \<times> int, int) umap option" where
  "writePostingList e m =
     fold_opt (\<lambda>p. ins_new (bind_int (of_nat (fst e)), bind_int (p_fileId p)) (uint (p_cnt p))) (snd e) m"

text \<open>The lists in the order the loops visit them, from the flat form or from the chunks.\<close>

definition save_lists :: "inverted_index \<Rightarrow> (nat \<times> posting_list) list" where
  "save_lists s =
     filter (\<lambda>e. snd e \<noteq> [])
       (if ii_dictionary s \<noteq> [] then zip [0..<length (ii_dictionary s)] (ii_dictionary s)
        else concat (map (\<lambda>(c, ch). case ch of
               None \<Rightarrow> []
             | Some b \<Rightarrow> map (\<lambda>(l, p). (c * CHUNK_SIZE + l, p)) (zip [0..<length b] b))
          (zip [0..<length (ii_chunks s)] (ii_chunks s))))"

definition save :: "inverted_index \<Rightarrow> document_record list \<Rightarrow> index_db \<Rightarrow> index_db option" where
  "save s rows old =
     (if \<not> initSchema old then None
      else (case save_words (ii_wordIds s) of
        None \<Rightarrow> None
      | Some ws \<Rightarrow>
          (case fold_opt save_doc rows (db_empty\<lparr>db_words := ws\<rparr>) of
             None \<Rightarrow> None
           | Some db \<Rightarrow> map_option (\<lambda>ps. db\<lparr>db_postings := ps\<rparr>)
               (fold_opt writePostingList (save_lists s) []))))"

section \<open>Loading\<close>

text \<open>\<open>id2word\<close> grows to the largest id seen; ids without a row stay empty strings.\<close>

definition load_word :: "int \<times> string \<Rightarrow> string list \<Rightarrow> string list option" where
  "load_word e l =
     (if fst e < 0 \<or> fst e > 4294967295 then None
      else let wid = nat (fst e); l = (if wid \<ge> length l then l @ replicate (wid + 1 - length l) [] else l)
           in Some (l[wid := snd e]))"

definition load_words :: "index_db \<Rightarrow> string list option" where
  "load_words db = fold_opt load_word (sort_key fst (db_words db)) []"

definition build_word2id :: "string list \<Rightarrow> (string, u32) umap" where
  "build_word2id l = fold (\<lambda>wid. um_emplace (l ! wid) (of_nat wid)) [0..<length l] []"

definition load_doc :: "int \<times> doc_row \<Rightarrow> raw_row list \<Rightarrow> raw_row list option" where
  "load_doc e rows =
     (if fst e < 0 \<or> fst e > 4294967295 then None
      else (case utf8_to_wstring (dw_path (snd e)) of
              Inl _ \<Rightarrow> None
            | Inr p \<Rightarrow> Some (rows @ [\<lparr>rr_id = of_int (fst e), rr_path = p,
                rr_mtimeTicks = of_int (dw_mtime (snd e)), rr_fsize = of_int (dw_size (snd e)),
                rr_deleted = dw_deleted (snd e)\<rparr>])))"

definition load_docs :: "index_db \<Rightarrow> raw_row list option" where
  "load_docs db = fold_opt load_doc (sort_key fst (db_docs db)) []"

type_synonym posting_row = "(int \<times> int) \<times> int"

definition posting_row_ok :: "nat \<Rightarrow> posting_row \<Rightarrow> bool" where
  "posting_row_ok n e \<longleftrightarrow> (case e of ((w, d), c) \<Rightarrow>
     \<not> (w < 0 \<or> int n \<le> w \<or> d < 0 \<or> d > 4294967295 \<or> c < 0 \<or> c > 65535))"

definition put_posting :: "posting_row \<Rightarrow> chunk_vector \<Rightarrow> chunk_vector" where
  "put_posting e cs =
     (case e of ((w, d), c) \<Rightarrow>
        let n = nat w; i = n div CHUNK_SIZE; l = n mod CHUNK_SIZE
        in cs[i := map_option (\<lambda>b. b[l := pl_appendSorted (b ! l) (of_int d) (of_int c)]) (cs ! i)])"

definition load_row ::
  "nat \<Rightarrow> bool \<Rightarrow> posting_row \<Rightarrow> chunk_vector \<times> (u32, u32 list) umap \<Rightarrow>
     (chunk_vector \<times> (u32, u32 list) umap) option" where
  "load_row n direct e s =
     (if \<not> posting_row_ok n e then None
      else let did = of_int (snd (fst e)); wid = of_int (fst (fst e))
           in Some (put_posting e (fst s),
                if direct then um_put did (refs_of (snd s) did @ [wid]) (snd s) else snd s))"

definition loadPostingRange ::
  "index_db \<Rightarrow> nat \<Rightarrow> nat \<Rightarrow> nat \<Rightarrow> bool \<Rightarrow> chunk_vector \<times> (u32, u32 list) umap \<Rightarrow>
     (chunk_vector \<times> (u32, u32 list) umap) option" where
  "loadPostingRange db n wordBegin wordEnd direct s =
     fold_opt (load_row n direct)
       (filter (\<lambda>e. int wordBegin \<le> fst (fst e) \<and> fst (fst e) < int wordEnd) (sort_key fst (db_postings db))) s"

text \<open>The readers own disjoint chunk ranges, so they are run one after the other here; the back
  references are then collected from the chunks, up to the last known word.\<close>

definition load_worker ::
  "index_db \<Rightarrow> nat \<Rightarrow> nat \<Rightarrow> nat \<Rightarrow> nat \<Rightarrow> chunk_vector \<times> (u32, u32 list) umap \<Rightarrow>
     (chunk_vector \<times> (u32, u32 list) umap) option" where
  "load_worker db n chunks threads worker =
     loadPostingRange db n (chunks * worker div threads * CHUNK_SIZE)
       (min n (chunks * (worker + 1) div threads * CHUNK_SIZE)) False"

definition collect_refs :: "nat \<Rightarrow> chunk_vector \<Rightarrow> (u32, u32 list) umap" where
  "collect_refs n cs =
     fold (\<lambda>wid. add_refs (of_nat wid) (chunk_entry cs wid)) [0..<min n (length cs * CHUNK_SIZE)] []"

definition load_postings ::
  "nat \<Rightarrow> index_db \<Rightarrow> nat \<Rightarrow> (chunk_vector \<times> (u32, u32 list) umap) option" where
  "load_postings loadThreads db n =
     (let chunks = (if n = 0 then 0 else (n + CHUNK_SIZE - 1) div CHUNK_SIZE);
          cs = replicate chunks (Some new_chunk);
          threads = (if chunks = 0 then 1 else min (max 1 (min 16 loadThreads)) chunks)
      in if n = 0 then Some (cs, [])
         else if threads = 1 then loadPostingRange db n 0 n True (cs, [])
         else (case fold_opt (load_worker db n chunks threads) [0..<threads] (cs, []) of
                 None \<Rightarrow> None
               | Some (cs, _) \<Rightarrow> Some (cs, collect_refs n cs)))"

text \<open>The optional \<open>COUNT(*)\<close> pass reserves memory and rejects rows of unknown words.\<close>

definition precount_ok :: "index_db \<Rightarrow> nat \<Rightarrow> bool" where
  "precount_ok db n = list_all (\<lambda>e. 0 \<le> fst (fst e) \<and> fst (fst e) < int n) (db_postings db)"

definition load :: "nat \<Rightarrow> bool \<Rightarrow> index_db \<Rightarrow> (inverted_index \<times> raw_row list) option" where
  "load loadThreads precountPostings db =
     (if \<not> initSchema db then None else case load_words db of
        None \<Rightarrow> None
      | Some words \<Rightarrow>
          (case load_docs db of
             None \<Rightarrow> None
           | Some docs \<Rightarrow>
               if precountPostings \<and> \<not> precount_ok db (length words) then None
               else (case load_postings loadThreads db (length words) of
                       None \<Rightarrow> None
                     | Some (cs, refs) \<Rightarrow>
                         Some (\<lparr>ii_wordIds = \<lparr>word2id = build_word2id words, id2word = words\<rparr>,
                                ii_chunks = cs, ii_dictionary = [], ii_wordRefs = refs\<rparr>, docs))))"

text \<open>The operations one after the other, each in a transaction of its own: what the batch is meant
  to be equivalent to.\<close>

definition apply_op :: "live_op \<Rightarrow> index_db \<Rightarrow> index_db option" where
  "apply_op op db =
     write_op (lo_fileId op, op)
       (if lo_kind op = Write then fold ins_word (lo_newWords op) db else db)"

section \<open>What an operation does to one file\<close>

lemma bind_int_inj [simp]: "bind_int a = bind_int b \<longleftrightarrow> a = b"
  by (auto simp: bind_int_def intro: signed_word_eqI)

text \<open>The document row and the postings of one file.\<close>

type_synonym file_view = "doc_row option \<times> (int \<Rightarrow> int option)"

definition file_view :: "index_db \<Rightarrow> u32 \<Rightarrow> file_view" where
  "file_view db f = (um_find (db_docs db) (bind_int f), \<lambda>w. um_find (db_postings db) (w, bind_int f))"

definition written_row :: "live_op \<Rightarrow> u8 list \<Rightarrow> doc_row" where
  "written_row op p8 = \<lparr>dw_path = p8, dw_mtime = sint (lo_mtimeTicks op), dw_size = sint (lo_size op),
     dw_deleted = lo_markDeletedAfterWrite op\<rparr>"

definition op_effect :: "live_op \<Rightarrow> file_view \<Rightarrow> file_view" where
  "op_effect op v =
     (if lo_kind op = MarkDeleted then (map_option (\<lambda>r. r\<lparr>dw_deleted := True\<rparr>) (fst v), snd v)
      else (case path_text (lo_path op) of Inl _ \<Rightarrow> v | Inr p8 \<Rightarrow>
        (Some (written_row op p8),
         map_of (rev (map (\<lambda>e. (bind_int (fst e), uint (snd e))) (lo_widCounts op))))))"

lemma view_ins_word [simp]: "file_view (fold ins_word ws db) f = file_view db f"
proof -
  have "db_docs (fold ins_word ws db) = db_docs db \<and> db_postings (fold ins_word ws db) = db_postings db"
    by (induction ws arbitrary: db) (simp_all add: ins_word_def)
  then show ?thesis by (simp add: file_view_def)
qed

lemma view_mark_deleted:
  "file_view (mark_deleted f db) g =
     (if g = f then (map_option (\<lambda>r. r\<lparr>dw_deleted := True\<rparr>) (fst (file_view db f)), snd (file_view db f))
      else file_view db g)"
  by (auto simp: mark_deleted_def file_view_def umap_simps split: option.splits)

lemma um_find_filter:
  "um_find (filter (\<lambda>e. P (fst e)) m) k = (if P k then um_find m k else None)"
  by (induction m) (auto simp: um_find_def)

lemma view_del_postings:
  "file_view (del_postings f db) g = (if g = f then (fst (file_view db f), \<lambda>_. None) else file_view db g)"
  using um_find_filter [of "\<lambda>k. snd k \<noteq> bind_int f" "db_postings db"]
  by (auto simp: del_postings_def file_view_def)

lemma view_ins_postings:
  "file_view (fold (ins_posting f) ps db) g =
     (if g = f then (fst (file_view db f),
        map_add (snd (file_view db f)) (map_of (rev (map (\<lambda>e. (bind_int (fst e), uint (snd e))) ps))))
      else file_view db g)"
proof (induction ps arbitrary: db)
  case Nil
  then show ?case by simp
next
  case (Cons e ps)
  have "file_view (ins_posting f e db) g =
      (if g = f then (fst (file_view db f), (snd (file_view db f))(bind_int (fst e) \<mapsto> uint (snd e)))
       else file_view db g)"
    by (auto simp: ins_posting_def file_view_def umap_simps)
  moreover have "file_view (ins_posting f e db) f =
      (fst (file_view db f), (snd (file_view db f))(bind_int (fst e) \<mapsto> uint (snd e)))"
    by (auto simp: ins_posting_def file_view_def umap_simps)
  ultimately show ?case by (auto simp: Cons map_add_def split: option.splits)
qed

lemma view_upsert:
  "upsert_doc f path m z db = Some db' \<Longrightarrow>
    \<exists>p8. path_text path = Inr p8 \<and>
      file_view db' g = (if g = f then (Some \<lparr>dw_path = p8, dw_mtime = sint m, dw_size = sint z,
        dw_deleted = False\<rparr>, snd (file_view db f)) else file_view db g)"
  by (auto simp: upsert_doc_def file_view_def umap_simps split: sum.splits if_splits)

lemma write_op_view:
  assumes "write_op (f, op) db = Some db'"
  shows "file_view db' g = (if g = f then op_effect op (file_view db f) else file_view db g)"
proof (cases "lo_kind op = MarkDeleted")
  case True
  with assms show ?thesis by (auto simp: write_op_def op_effect_def view_mark_deleted)
next
  case False
  with assms obtain d where d: "upsert_doc f (lo_path op) (lo_mtimeTicks op) (lo_size op) db = Some d"
    and db': "db' = (if lo_markDeletedAfterWrite op
      then mark_deleted f (fold (ins_posting f) (lo_widCounts op) (del_postings f d))
      else fold (ins_posting f) (lo_widCounts op) (del_postings f d))"
    by (auto simp: write_op_def Let_def split: option.splits)
  obtain p8 where p8: "path_text (lo_path op) = Inr p8" using view_upsert [OF d, of f] by auto
  then have v: "file_view d g = (if g = f then (Some \<lparr>dw_path = p8, dw_mtime = sint (lo_mtimeTicks op),
      dw_size = sint (lo_size op), dw_deleted = False\<rparr>, snd (file_view db f)) else file_view db g)" for g
    using view_upsert [OF d, of g] by auto
  have "map_add (\<lambda>_. None) m = m" for m :: "int \<Rightarrow> int option" by (simp add: map_add_def fun_eq_iff split: option.split)
  with False p8 show ?thesis
    by (simp add: db' op_effect_def written_row_def view_mark_deleted view_ins_postings view_del_postings v)
qed

text \<open>The effect of the coalesced operation of a file is the effect of its operations in order.\<close>

definition opt_effect :: "live_op option \<Rightarrow> file_view \<Rightarrow> file_view" where
  "opt_effect o' v = (case o' of None \<Rightarrow> v | Some op \<Rightarrow> op_effect op v)"

lemma coalesce_effect:
  assumes "lo_kind op = Write \<Longrightarrow> path_ok (lo_path op)"
    and "\<And>old. um_find m f = Some old \<Longrightarrow> lo_kind old = Write \<Longrightarrow> path_ok (lo_path old)"
  shows "opt_effect (um_find (coalesce op m) f) v =
    (if lo_fileId op = f then op_effect op (opt_effect (um_find m f) v) else opt_effect (um_find m f) v)"
proof -
  have enc: "\<exists>p8. path_text p = Inr p8" if "path_ok p" for p
    using path_text_ok [OF that] by blast
  have k: "lo_kind op = Write \<or> lo_kind op = MarkDeleted" for op by (cases "lo_kind op") auto
  show ?thesis
  proof (cases "lo_fileId op = f")
    case False
    then show ?thesis by (auto simp: coalesce_def umap_simps split: option.splits)
  next
    case True
    show ?thesis
    proof (cases "lo_kind op = Write")
      case w: True
      then obtain p8 where "path_text (lo_path op) = Inr p8" using enc assms(1) by blast
      with w True show ?thesis
        by (auto simp: coalesce_def opt_effect_def op_effect_def umap_simps split: option.splits)
    next
      case nw: False
      then have md: "lo_kind op = MarkDeleted" using k [of op] by blast
      show ?thesis
      proof (cases "um_find m f")
        case None
        with True md show ?thesis by (simp add: coalesce_def opt_effect_def umap_simps)
      next
        case (Some old)
        show ?thesis
        proof (cases "lo_kind old = Write")
          case ow: True
          with Some assms(2) obtain p8 where "path_text (lo_path old) = Inr p8" using enc by blast
          with Some ow True md show ?thesis
            by (simp add: coalesce_def opt_effect_def op_effect_def written_row_def umap_simps)
        next
          case False
          then have "lo_kind old = MarkDeleted" using k [of old] by blast
          with Some True md show ?thesis
            by (simp add: coalesce_def opt_effect_def op_effect_def umap_simps option.map_comp comp_def)
        qed
      qed
    qed
  qed
qed

text \<open>The map of coalesced operations during the loop.\<close>

definition co_ok :: "(u32, live_op) umap \<Rightarrow> bool" where
  "co_ok m \<longleftrightarrow> um_ok m \<and> (\<forall>e \<in> set m. lo_fileId (snd e) = fst e \<and>
     (lo_kind (snd e) = Write \<longrightarrow> path_ok (lo_path (snd e))))"

lemma co_okD:
  assumes "co_ok m" and "um_find m f = Some op"
  shows "lo_fileId op = f" and "lo_kind op = Write \<Longrightarrow> path_ok (lo_path op)"
  using assms by (auto simp: co_ok_def um_find_Some_iff)

lemma coalesce_ok:
  assumes "co_ok m" and "lo_kind op = Write \<Longrightarrow> path_ok (lo_path op)"
  shows "co_ok (coalesce op m)"
proof -
  have put: "co_ok (um_put (lo_fileId x) x m)" if "lo_kind x = Write \<Longrightarrow> path_ok (lo_path x)" for x
    using assms(1) that by (auto simp: co_ok_def dest!: um_put_set)
  show ?thesis
  proof (cases "um_find m (lo_fileId op)")
    case None
    with put [of op] assms(2) show ?thesis by (simp add: coalesce_def)
  next
    case (Some old)
    have "co_ok (um_put (lo_fileId op) (old\<lparr>lo_markDeletedAfterWrite := True\<rparr>) m)"
      using put [of "old\<lparr>lo_markDeletedAfterWrite := True\<rparr>"] co_okD [OF assms(1) Some] by simp
    with Some put [of op] assms(2) show ?thesis by (auto simp: coalesce_def)
  qed
qed

lemma fold_coalesce:
  assumes "co_ok m" and "\<forall>op \<in> set raw. lo_kind op = Write \<longrightarrow> path_ok (lo_path op)"
  shows "co_ok (fold coalesce raw m) \<and>
    opt_effect (um_find (fold coalesce raw m) f) v =
      fold op_effect (filter (\<lambda>op. lo_fileId op = f) raw) (opt_effect (um_find m f) v)"
  using assms
proof (induction raw arbitrary: m)
  case Nil
  then show ?case by simp
next
  case (Cons op raw)
  have ok: "co_ok (coalesce op m)" using coalesce_ok [OF Cons.prems(1)] Cons.prems(2) by simp
  have "opt_effect (um_find (coalesce op m) f) v =
      (if lo_fileId op = f then op_effect op (opt_effect (um_find m f) v) else opt_effect (um_find m f) v)"
    using coalesce_effect [of op m f v] co_okD [OF Cons.prems(1)] Cons.prems(2) by simp
  with Cons.IH [OF ok] Cons.prems(2) show ?case by simp
qed

section \<open>Writing cannot fail on consistent paths\<close>

text \<open>Every document row carries the path its id stands for; distinct ids have distinct paths.\<close>

definition docs_fit :: "(u32 \<Rightarrow> wstring) \<Rightarrow> index_db \<Rightarrow> bool" where
  "docs_fit pth db \<longleftrightarrow> (\<forall>(k, r) \<in> set (db_docs db). \<exists>f. k = bind_int f \<and> path_ok (pth f) \<and> path_text (pth f) = Inr (dw_path r))"

lemma docs_fit_put:
  assumes "docs_fit pth db" and "path_ok (pth f)" and "path_text (pth f) = Inr (dw_path r)"
  shows "docs_fit pth (db\<lparr>db_docs := um_put (bind_int f) r (db_docs db)\<rparr>)"
  using assms by (auto simp: docs_fit_def dest!: um_put_set)

lemma path_free:
  assumes "docs_fit pth db" and "inj pth" and "path_ok (pth f)" and "path_text (pth f) = Inr p8"
  shows "\<not> path_taken (bind_int f) p8 db"
proof
  assume "path_taken (bind_int f) p8 db"
  then obtain j r where "(j, r) \<in> set (db_docs db)" "j \<noteq> bind_int f" "dw_path r = p8"
    by (auto simp: path_taken_def list_ex_iff)
  with assms(1) obtain g where "j = bind_int g" "path_ok (pth g)" "path_text (pth g) = Inr p8" by (auto simp: docs_fit_def)
  then have "pth g = pth f" using path_text_inj assms(3,4) by metis
  with assms(2) \<open>j = bind_int g\<close> \<open>j \<noteq> bind_int f\<close> show False by (auto dest: injD)
qed

lemma docs_fit_words [simp]: "docs_fit pth (fold ins_word ws db) = docs_fit pth db"
proof -
  have "db_docs (fold ins_word ws db) = db_docs db"
    by (induction ws arbitrary: db) (simp_all add: ins_word_def)
  then show ?thesis by (simp add: docs_fit_def)
qed

lemma docs_fit_postings [simp]:
  "docs_fit pth (fold (ins_posting f) ps db) = docs_fit pth db" "docs_fit pth (del_postings f db) = docs_fit pth db"
proof -
  have "db_docs (fold (ins_posting f) ps db) = db_docs db"
    by (induction ps arbitrary: db) (simp_all add: ins_posting_def)
  then show "docs_fit pth (fold (ins_posting f) ps db) = docs_fit pth db"
    "docs_fit pth (del_postings f db) = docs_fit pth db"
    by (simp_all add: docs_fit_def del_postings_def)
qed

lemma docs_fit_mark:
  assumes "docs_fit pth db"
  shows "docs_fit pth (mark_deleted f db)"
proof (cases "um_find (db_docs db) (bind_int f)")
  case None
  with assms show ?thesis by (simp add: mark_deleted_def)
next
  case (Some r)
  then have "(bind_int f, r) \<in> set (db_docs db)" by (auto simp: um_find_def dest: map_of_SomeD)
  with assms obtain g where "bind_int f = bind_int g" "path_ok (pth g)" "path_text (pth g) = Inr (dw_path r)"
    unfolding docs_fit_def by blast
  then have "path_ok (pth f)" "path_text (pth f) = Inr (dw_path (r\<lparr>dw_deleted := True\<rparr>))" by simp_all
  with Some docs_fit_put [OF assms] show ?thesis by (simp add: mark_deleted_def)
qed

definition op_fits :: "(u32 \<Rightarrow> wstring) \<Rightarrow> live_op \<Rightarrow> bool" where
  "op_fits pth op \<longleftrightarrow> (lo_kind op = Write \<longrightarrow> lo_path op = pth (lo_fileId op) \<and> path_ok (lo_path op))"

lemma write_op_ok:
  assumes "docs_fit pth db" and "inj pth" and "op_fits pth op" and "f = lo_fileId op"
  shows "\<exists>db'. write_op (f, op) db = Some db' \<and> docs_fit pth db' \<and> db_words db' = db_words db"
proof (cases "lo_kind op = MarkDeleted")
  case True
  then show ?thesis using docs_fit_mark [OF assms(1)]
    by (auto simp: write_op_def mark_deleted_def split: option.splits)
next
  case False
  then have "lo_kind op = Write" by (cases "lo_kind op") auto
  then have p: "lo_path op = pth f" "path_ok (pth f)" using assms(3,4) by (auto simp: op_fits_def)
  then obtain p8 where p8: "path_text (pth f) = Inr p8" using path_text_ok by blast
  define r where "r = \<lparr>dw_path = p8, dw_mtime = sint (lo_mtimeTicks op), dw_size = sint (lo_size op), dw_deleted = False\<rparr>"
  define d where "d = db\<lparr>db_docs := um_put (bind_int f) r (db_docs db)\<rparr>"
  have up: "upsert_doc f (lo_path op) (lo_mtimeTicks op) (lo_size op) db = Some d"
    using path_free [OF assms(1,2) p(2) p8] p8 p(1) by (simp add: upsert_doc_def d_def r_def)
  have fit: "docs_fit pth d" unfolding d_def by (rule docs_fit_put [OF assms(1) p(2)]) (simp add: p8 r_def)
  have words: "db_words (fold (ins_posting f) ps x) = db_words x" for ps x
    by (induction ps arbitrary: x) (simp_all add: ins_posting_def)
  have "db_words (mark_deleted f x) = db_words x" for x by (simp add: mark_deleted_def split: option.split)
  moreover have "db_words (del_postings f x) = db_words x" for x by (simp add: del_postings_def)
  moreover have "db_words d = db_words db" by (simp add: d_def)
  ultimately show ?thesis using False up fit words by (auto simp: write_op_def Let_def docs_fit_mark)
qed

lemma fold_write_ops:
  assumes "docs_fit pth db" and "inj pth" and "um_ok co" and "\<forall>e \<in> set co. op_fits pth (snd e) \<and> lo_fileId (snd e) = fst e"
  shows "\<exists>db'. fold_opt write_op co db = Some db' \<and> docs_fit pth db' \<and> db_words db' = db_words db \<and>
    (\<forall>f. file_view db' f = opt_effect (um_find co f) (file_view db f))"
  using assms
proof (induction co arbitrary: db)
  case Nil
  then show ?case by (simp add: opt_effect_def)
next
  case (Cons e co)
  obtain f op where e: "e = (f, op)" by (cases e)
  have fits: "op_fits pth op" "f = lo_fileId op" using Cons.prems(4) e by auto
  obtain d where d: "write_op (f, op) db = Some d" "docs_fit pth d" "db_words d = db_words db"
    using write_op_ok [OF Cons.prems(1,2) fits] by blast
  have nf: "um_find co f = None" using Cons.prems(3) e by (auto simp: um_ok_def um_find_None_iff)
  obtain db' where db': "fold_opt write_op co d = Some db'" "docs_fit pth db'" "db_words db' = db_words d"
    "\<forall>g. file_view db' g = opt_effect (um_find co g) (file_view d g)"
    using Cons.IH [OF d(2) Cons.prems(2)] Cons.prems(3,4) by (auto simp: um_ok_def)
  have "file_view db' g = opt_effect (um_find (e # co) g) (file_view db g)" for g
    using db'(4) write_op_view [OF d(1), of g] nf
    by (auto simp: e um_find_def opt_effect_def split: option.splits)
  with db' d e show ?case by auto
qed

lemma apply_op_ok:
  assumes "docs_fit pth db" and "inj pth" and "op_fits pth op"
  shows "\<exists>db'. apply_op op db = Some db' \<and> docs_fit pth db' \<and>
    (\<forall>f. file_view db' f = (if f = lo_fileId op then op_effect op (file_view db f) else file_view db f)) \<and>
    db_words db' = db_words (if lo_kind op = Write then fold ins_word (lo_newWords op) db else db)"
proof -
  define d where "d = (if lo_kind op = Write then fold ins_word (lo_newWords op) db else db)"
  have "docs_fit pth d" using assms(1) by (simp add: d_def)
  then obtain db' where db': "write_op (lo_fileId op, op) d = Some db'" "docs_fit pth db'" "db_words db' = db_words d"
    using write_op_ok [OF _ assms(2,3) refl] by blast
  have "file_view d f = file_view db f" for f by (simp add: d_def)
  with db' write_op_view [OF db'(1)] show ?thesis by (auto simp: apply_op_def d_def)
qed

lemma apply_ops_ok:
  assumes "docs_fit pth db" and "inj pth" and "\<forall>op \<in> set raw. op_fits pth op"
  shows "\<exists>db'. fold_opt apply_op raw db = Some db' \<and> docs_fit pth db' \<and>
    (\<forall>f. file_view db' f = fold op_effect (filter (\<lambda>op. lo_fileId op = f) raw) (file_view db f)) \<and>
    db_words db' = db_words (fold ins_word (concat (map lo_newWords (filter (\<lambda>op. lo_kind op = Write) raw))) db)"
  using assms
proof (induction raw arbitrary: db)
  case (Cons op raw)
  obtain d where d: "apply_op op db = Some d" "docs_fit pth d"
    "\<forall>f. file_view d f = (if f = lo_fileId op then op_effect op (file_view db f) else file_view db f)"
    "db_words d = db_words (if lo_kind op = Write then fold ins_word (lo_newWords op) db else db)"
    using apply_op_ok [OF Cons.prems(1,2)] Cons.prems(3) by fastforce
  obtain db' where db': "fold_opt apply_op raw d = Some db'" "docs_fit pth db'"
    "\<forall>f. file_view db' f = fold op_effect (filter (\<lambda>op. lo_fileId op = f) raw) (file_view d f)"
    "db_words db' = db_words (fold ins_word (concat (map lo_newWords (filter (\<lambda>op. lo_kind op = Write) raw))) d)"
    using Cons.IH [OF d(2) Cons.prems(2)] Cons.prems(3) by auto
  have cong: "db_words (fold ins_word ws a) = db_words (fold ins_word ws b)" if "db_words a = db_words b" for ws a b
    using that by (induction ws arbitrary: a b) (simp_all add: ins_word_def)
  have "db_words db' = db_words (fold ins_word (concat (map lo_newWords (filter (\<lambda>op. lo_kind op = Write) (op # raw)))) db)"
    using db'(4) cong [OF d(4)] by simp
  with d db' show ?case by auto
qed simp

text \<open>The words: which ids have a row after a sequence of insertions that agree on the word of an id.\<close>

lemma find_ins_words:
  assumes "\<forall>e \<in> set ws. snd e = nm (fst e)"
  shows "um_find (db_words (fold ins_word ws db)) (bind_int wid) =
    (case um_find (db_words db) (bind_int wid) of Some x \<Rightarrow> Some x
     | None \<Rightarrow> if wid \<in> fst ` set ws then Some (c_str (nm wid)) else None)"
  using assms
proof (induction ws arbitrary: db)
  case (Cons e ws)
  then show ?case by (auto simp: ins_word_def umap_simps split: option.splits)
qed (simp split: option.split)

lemma set_emplaces:
  assumes "\<forall>e \<in> set ws. snd e = nm (fst e)" and "\<forall>e \<in> set m. snd e = nm (fst e)"
  shows "fst ` set (fold (\<lambda>(wid, w). um_emplace wid w) ws m) = fst ` set m \<union> fst ` set ws \<and>
    (\<forall>e \<in> set (fold (\<lambda>(wid, w). um_emplace wid w) ws m). snd e = nm (fst e))"
  using assms
proof (induction ws arbitrary: m)
  case (Cons e ws)
  obtain wid w where e: "e = (wid, w)" by (cases e)
  have keys: "fst ` set (um_emplace wid w m) = insert wid (fst ` set m)"
  proof (rule set_eqI)
    show "k \<in> fst ` set (um_emplace wid w m) \<longleftrightarrow> k \<in> insert wid (fst ` set m)" for k
      using um_find_None_iff [of "um_emplace wid w m" k] um_find_None_iff [of m k] um_find_None_iff [of m wid]
      by (auto simp: um_find_emplace split: if_splits)
  qed
  moreover have "\<forall>e \<in> set (um_emplace wid w m). snd e = nm (fst e)"
    using Cons.prems e by (auto simp: um_emplace_def dest!: um_put_set split: option.splits)
  ultimately show ?case using Cons.IH [of "um_emplace wid w m"] Cons.prems(1) e by simp
qed simp

lemma set_new_words:
  assumes "\<forall>e \<in> set co. \<forall>x \<in> set (lo_newWords (snd e)). snd x = nm (fst x)" and "\<forall>x \<in> set m. snd x = nm (fst x)"
  shows "fst ` set (fold new_words_of co m) =
      fst ` set m \<union> {wid. \<exists>e \<in> set co. lo_kind (snd e) = Write \<and> wid \<in> fst ` set (lo_newWords (snd e))} \<and>
    (\<forall>x \<in> set (fold new_words_of co m). snd x = nm (fst x))"
  using assms
proof (induction co arbitrary: m)
  case (Cons e co)
  have step: "fst ` set (new_words_of e m) = fst ` set m \<union>
      (if lo_kind (snd e) = Write then fst ` set (lo_newWords (snd e)) else {}) \<and>
    (\<forall>x \<in> set (new_words_of e m). snd x = nm (fst x))"
    using set_emplaces [of "lo_newWords (snd e)" nm m] Cons.prems by (auto simp: new_words_of_def)
  then show ?case using Cons.IH [of "new_words_of e m"] Cons.prems by auto
qed simp

text \<open>With at most one write per file every write survives the coalescing, up to the mark.\<close>

lemma coalesce_find:
  "um_find (coalesce op m) f =
    (if f = lo_fileId op then Some (case um_find m f of None \<Rightarrow> op | Some old \<Rightarrow>
        if lo_kind op = Write \<or> lo_kind old \<noteq> Write then op else old\<lparr>lo_markDeletedAfterWrite := True\<rparr>)
     else um_find m f)"
  by (auto simp: coalesce_def umap_simps split: option.splits)

definition write_words :: "(u32, live_op) umap \<Rightarrow> u32 \<Rightarrow> (u32 \<times> string) list" where
  "write_words m f = (case um_find m f of Some op \<Rightarrow> if lo_kind op = Write then lo_newWords op else [] | None \<Rightarrow> [])"

lemma fold_coalesce_words:
  assumes "distinct (map lo_fileId (filter (\<lambda>op. lo_kind op = Write) raw))"
    and "\<forall>op \<in> set raw. lo_kind op = Write \<longrightarrow> write_words m (lo_fileId op) = []"
  shows "set (write_words (fold coalesce raw m) f) =
    set (write_words m f) \<union>
    set (concat (map lo_newWords (filter (\<lambda>op. lo_kind op = Write \<and> lo_fileId op = f) raw)))"
  using assms
proof (induction raw arbitrary: m)
  case (Cons op raw)
  have step: "write_words (coalesce op m) g =
      (if g = lo_fileId op \<and> lo_kind op = Write then lo_newWords op else write_words m g)" for g
    by (auto simp: write_words_def coalesce_find split: option.splits)
  have "\<forall>op' \<in> set raw. lo_kind op' = Write \<longrightarrow> write_words (coalesce op m) (lo_fileId op') = []"
    using Cons.prems by (auto simp: step image_iff split: if_splits)
  from Cons.IH [OF _ this] Cons.prems show ?case by (auto simp: step split: if_splits)
qed simp

lemma batch_words:
  assumes "co_ok (fold coalesce raw [])"
    and "distinct (map lo_fileId (filter (\<lambda>op. lo_kind op = Write) raw))"
  shows "(\<exists>e \<in> set (fold coalesce raw []). lo_kind (snd e) = Write \<and> wid \<in> fst ` set (lo_newWords (snd e))) \<longleftrightarrow>
    wid \<in> fst ` set (concat (map lo_newWords (filter (\<lambda>op. lo_kind op = Write) raw)))"
proof -
  let ?co = "fold coalesce raw []"
  have "(\<exists>e \<in> set ?co. lo_kind (snd e) = Write \<and> wid \<in> fst ` set (lo_newWords (snd e))) \<longleftrightarrow>
      (\<exists>f. wid \<in> fst ` set (write_words ?co f))"
  proof
    assume "\<exists>e \<in> set ?co. lo_kind (snd e) = Write \<and> wid \<in> fst ` set (lo_newWords (snd e))"
    then obtain f op where "(f, op) \<in> set ?co" "lo_kind op = Write" "wid \<in> fst ` set (lo_newWords op)"
      by (metis prod.collapse)
    moreover have "um_find ?co f = Some op" using calculation(1) assms(1) by (simp add: co_ok_def um_find_Some_iff)
    ultimately show "\<exists>f. wid \<in> fst ` set (write_words ?co f)" by (intro exI [of _ f]) (simp add: write_words_def)
  next
    assume "\<exists>f. wid \<in> fst ` set (write_words ?co f)"
    then obtain f where f: "wid \<in> fst ` set (write_words ?co f)" by blast
    then obtain op where "um_find ?co f = Some op" by (cases "um_find ?co f") (auto simp: write_words_def)
    with f have "um_find ?co f = Some op" "lo_kind op = Write" "wid \<in> fst ` set (lo_newWords op)"
      by (auto simp: write_words_def split: if_splits)
    then show "\<exists>e \<in> set ?co. lo_kind (snd e) = Write \<and> wid \<in> fst ` set (lo_newWords (snd e))"
      by (intro bexI [of _ "(f, op)"]) (auto simp: um_find_def dest: map_of_SomeD)
  qed
  also have "\<dots> \<longleftrightarrow> wid \<in> fst ` set (concat (map lo_newWords (filter (\<lambda>op. lo_kind op = Write) raw)))"
    using fold_coalesce_words [OF assms(2), of "[]"] by (auto simp: write_words_def)
  finally show ?thesis .
qed

lemma coalesced_fits:
  assumes "\<forall>op \<in> set raw. op_fits pth op" and "\<forall>e \<in> set m. op_fits pth (snd e)" and "co_ok m"
  shows "\<forall>e \<in> set (fold coalesce raw m). op_fits pth (snd e)"
  using assms
proof (induction raw arbitrary: m)
  case (Cons op raw)
  have ok: "co_ok (coalesce op m)" by (rule coalesce_ok) (use Cons.prems in \<open>auto simp: op_fits_def\<close>)
  have "op_fits pth (snd e)" if "e \<in> set (coalesce op m)" for e
  proof -
    have old: "op_fits pth (old\<lparr>lo_markDeletedAfterWrite := True\<rparr>)" if "um_find m f = Some old" for old f
      using Cons.prems(2) that by (auto simp: um_find_def op_fits_def dest!: map_of_SomeD)
    show ?thesis using that Cons.prems(1,2) old
      by (auto simp: coalesce_def dest!: um_put_set split: option.splits if_splits)
  qed
  with Cons.IH [OF _ _ ok] Cons.prems show ?case by simp
qed simp

lemma coalesced_words:
  assumes "\<forall>op \<in> set raw. \<forall>x \<in> set (lo_newWords op). snd x = nm (fst x)"
    and "\<forall>e \<in> set m. \<forall>x \<in> set (lo_newWords (snd e)). snd x = nm (fst x)"
  shows "\<forall>e \<in> set (fold coalesce raw m). \<forall>x \<in> set (lo_newWords (snd e)). snd x = nm (fst x)"
  using assms
proof (induction raw arbitrary: m)
  case (Cons op raw)
  have "\<forall>e \<in> set (coalesce op m). \<forall>x \<in> set (lo_newWords (snd e)). snd x = nm (fst x)"
  proof -
    have "\<forall>x \<in> set (lo_newWords old). snd x = nm (fst x)" if "um_find m f = Some old" for old f
      using Cons.prems(2) map_of_SomeD [of m f old] that by (metis um_find_def snd_conv)
    then show ?thesis using Cons.prems
      by (auto simp: coalesce_def dest!: um_put_set split: option.splits if_splits) fastforce+
  qed
  then show ?case using Cons.IH Cons.prems(1) by simp
qed simp

lemma writeBatch_ok:
  assumes "docs_fit pth db" and "inj pth" and "\<forall>op \<in> set raw. op_fits pth op"
  shows "\<exists>db'. writeBatch raw db = Some db' \<and> docs_fit pth db' \<and>
    (\<forall>f. file_view db' f = fold op_effect (filter (\<lambda>op. lo_fileId op = f) raw) (file_view db f)) \<and>
    db_words db' = db_words (fold ins_word (fold new_words_of (fold coalesce raw []) []) db)"
proof (cases "raw = []")
  case True
  with assms(1) show ?thesis by (simp add: writeBatch_def)
next
  case False
  let ?co = "fold coalesce raw []" and ?d = "fold ins_word (fold new_words_of (fold coalesce raw []) []) db"
  have wf: "\<forall>op \<in> set raw. lo_kind op = Write \<longrightarrow> path_ok (lo_path op)"
    using assms(3) by (auto simp: op_fits_def)
  have ok0: "co_ok []" by (simp add: co_ok_def)
  note co = fold_coalesce [OF ok0 wf]
  have ok: "um_ok ?co" "\<forall>e \<in> set ?co. op_fits pth (snd e) \<and> lo_fileId (snd e) = fst e"
    using co coalesced_fits [OF assms(3) _ ok0] by (auto simp: co_ok_def)
  have "docs_fit pth ?d" using assms(1) by simp
  from fold_write_ops [OF this assms(2) ok] obtain db' where
    "fold_opt write_op ?co ?d = Some db'" "docs_fit pth db'" "db_words db' = db_words ?d"
    "\<forall>f. file_view db' f = opt_effect (um_find ?co f) (file_view ?d f)" by blast
  moreover have "opt_effect (um_find ?co f) (file_view ?d f) =
      fold op_effect (filter (\<lambda>op. lo_fileId op = f) raw) (file_view db f)" for f
    using co [of f] by (simp add: opt_effect_def [of None])
  ultimately show ?thesis using False by (simp add: writeBatch_def)
qed

section \<open>The words a load can know\<close>

lemma load_words_from:
  assumes "fold_opt load_word rows l = Some l'"
  shows "set l' \<subseteq> set l \<union> {[]} \<union> snd ` set rows"
  using assms
proof (induction rows arbitrary: l)
  case (Cons e rows)
  let ?g = "if nat (fst e) \<ge> length l then l @ replicate (nat (fst e) + 1 - length l) [] else l"
  have e: "load_word e l = Some (?g[nat (fst e) := snd e])" "fold_opt load_word rows (?g[nat (fst e) := snd e]) = Some l'"
  proof -
    show "load_word e l = Some (?g[nat (fst e) := snd e])"
      using Cons.prems by (cases "fst e < 0 \<or> fst e > 4294967295") (auto simp: load_word_def Let_def)
    then show "fold_opt load_word rows (?g[nat (fst e) := snd e]) = Some l'" using Cons.prems by simp
  qed
  have "set (?g[nat (fst e) := snd e]) \<subseteq> insert (snd e) (set ?g)" by (rule set_update_subset_insert)
  also have "set ?g \<subseteq> set l \<union> {[]}" by auto
  finally show ?case using Cons.IH [OF e(2)] by auto
qed auto

lemma build_word2id_known: "um_find (build_word2id l) w \<noteq> None \<Longrightarrow> w \<in> set l"
proof -
  have *: "um_find m w = None \<Longrightarrow> w \<notin> (!) l ` set ns \<Longrightarrow>
      um_find (fold (\<lambda>wid. um_emplace (l ! wid) (of_nat wid :: u32)) ns m) w = None" for ns m
    by (induction ns arbitrary: m) (auto simp: um_find_emplace)
  from * [of "[]" "[0..<length l]"]
  show "um_find (build_word2id l) w \<noteq> None \<Longrightarrow> w \<in> set l" by (force simp: build_word2id_def)
qed

lemma load_unknown_word:
  assumes "load threads precount db = Some (idx, docs)" and "w \<noteq> []" and "w \<notin> snd ` set (db_words db)"
  shows "getPostingCopyByWord idx w = None"
proof -
  from assms(1) obtain l where l: "load_words db = Some l" "word2id (ii_wordIds idx) = build_word2id l"
    by (auto simp: load_def split: option.splits if_splits)
  then have "w \<notin> set l" using load_words_from [of "sort_key fst (db_words db)" "[]" l] assms(2,3)
    by (auto simp: load_words_def)
  then have "wid_tryGet (ii_wordIds idx) w = None" using build_word2id_known [of l w] l(2) by (metis wid_tryGet_def)
  then show ?thesis by (simp add: getPostingCopyByWord_def)
qed

section \<open>Properties\<close>

text \<open>C32: writing a queue of live operations in one coalesced transaction succeeds and leaves every
  document row and every posting exactly as the operations one after the other would, in any
  mixture of writes and deletions; when no file is written twice in the queue the words are
  the same, too. The hypotheses say that an id always goes with the same path, as the
  document catalog guarantees, and that the operations agree on the word of an id.\<close>

theorem writeBatch_refines_sequence:
  assumes "docs_fit pth db" and "inj pth" and "\<forall>op \<in> set raw. op_fits pth op"
    and "\<forall>op \<in> set raw. \<forall>e \<in> set (lo_newWords op). snd e = nm (fst e)"
  shows "\<exists>db1 db2. writeBatch raw db = Some db1 \<and> fold_opt apply_op raw db = Some db2 \<and>
    (\<forall>f. file_view db1 f = file_view db2 f) \<and>
    (distinct (map lo_fileId (filter (\<lambda>op. lo_kind op = Write) raw)) \<longrightarrow>
      (\<forall>wid. um_find (db_words db1) (bind_int wid) = um_find (db_words db2) (bind_int wid)))"
proof -
  let ?co = "fold coalesce raw []"
  let ?ws = "concat (map lo_newWords (filter (\<lambda>op. lo_kind op = Write) raw))"
  obtain db1 where 1: "writeBatch raw db = Some db1"
    "\<forall>f. file_view db1 f = fold op_effect (filter (\<lambda>op. lo_fileId op = f) raw) (file_view db f)"
    "db_words db1 = db_words (fold ins_word (fold new_words_of ?co []) db)"
    using writeBatch_ok [OF assms(1-3)] by blast
  obtain db2 where 2: "fold_opt apply_op raw db = Some db2"
    "\<forall>f. file_view db2 f = fold op_effect (filter (\<lambda>op. lo_fileId op = f) raw) (file_view db f)"
    "db_words db2 = db_words (fold ins_word ?ws db)"
    using apply_ops_ok [OF assms(1-3)] by blast
  have "\<forall>op \<in> set raw. lo_kind op = Write \<longrightarrow> path_ok (lo_path op)"
    using assms(3) by (auto simp: op_fits_def)
  then have ok: "co_ok ?co" using fold_coalesce [of "[]" raw] by (simp add: co_ok_def [of "[]"])
  have nm: "\<forall>e \<in> set ?co. \<forall>x \<in> set (lo_newWords (snd e)). snd x = nm (fst x)"
    by (rule coalesced_words [OF assms(4)]) simp
  note nw = set_new_words [OF nm, of "[]", simplified]
  have "um_find (db_words db1) (bind_int wid) = um_find (db_words db2) (bind_int wid)"
    if "distinct (map lo_fileId (filter (\<lambda>op. lo_kind op = Write) raw))" for wid
  proof -
    have "wid \<in> fst ` set (fold new_words_of ?co []) \<longleftrightarrow> wid \<in> fst ` set ?ws"
      using batch_words [OF ok that] nw by simp
    moreover have "\<forall>e \<in> set ?ws. snd e = nm (fst e)" using assms(4) by auto
    ultimately show ?thesis unfolding 1(3) 2(3) using nw
      by (simp add: find_ins_words [where nm = nm] split: option.split)
  qed
  with 1 2 show ?thesis by auto
qed

text \<open>Two files of one letter each, the first one written and then marked deleted.\<close>

definition ex_op :: "op_kind \<Rightarrow> u32 \<Rightarrow> (u32 \<times> u16) list \<Rightarrow> (u32 \<times> string) list \<Rightarrow> live_op" where
  "ex_op k f ps ws = \<lparr>lo_kind = k, lo_fileId = f, lo_path = [ucast f + 1, ucast (drop_bit 16 f) + 1], lo_mtimeTicks = 5,
     lo_size = 7, lo_widCounts = ps, lo_newWords = ws, lo_markDeletedAfterWrite = False\<rparr>"

definition ex_path :: "u32 \<Rightarrow> wstring" where
  "ex_path f = [ucast f + 1, ucast (drop_bit 16 f) + 1]"

lemma ex_path_inj: "inj ex_path"
proof (rule injI)
  fix f g assume "ex_path f = ex_path g"
  then have *: "(ucast f :: u16) = ucast g" "(ucast (drop_bit 16 f) :: u16) = ucast (drop_bit 16 g)"
    by (simp_all add: ex_path_def)
  show "f = g"
  proof (rule bit_word_eqI)
    fix n assume n: "n < LENGTH(32)"
    show "bit f n = bit g n"
    proof (cases "n < 16")
      case True
      have "bit (ucast f :: u16) n = bit (ucast g :: u16) n" using *(1) by simp
      with True show ?thesis by (simp add: bit_simps)
    next
      case False
      have "bit (ucast (drop_bit 16 f) :: u16) (n - 16) = bit (ucast (drop_bit 16 g) :: u16) (n - 16)" using *(2) by simp
      moreover have "n - 16 < 16" using False n by simp
      ultimately show ?thesis using False by (simp add: bit_simps)
    qed
  qed
qed

lemma ex_op_fits: "f \<in> {1, 2} \<Longrightarrow> op_fits ex_path (ex_op k f ps ws)"
  by (auto simp: op_fits_def ex_op_def ex_path_def path_ok_def is_lead_surrogate_def is_trail_surrogate_def word_le_nat_alt)

lemma writeBatch_refines_sequence_witness:
  "\<exists>db1 db2. writeBatch [ex_op Write 1 [(0, 3)] [(0, ''A'')], ex_op Write 2 [(0, 1)] [], ex_op MarkDeleted 1 [] []]
       db_empty = Some db1 \<and>
     fold_opt apply_op [ex_op Write 1 [(0, 3)] [(0, ''A'')], ex_op Write 2 [(0, 1)] [], ex_op MarkDeleted 1 [] []]
       db_empty = Some db2 \<and> file_view db1 1 = file_view db2 1 \<and>
     um_find (db_words db1) 0 = um_find (db_words db2) 0"
proof -
  let ?raw = "[ex_op Write 1 [(0, 3)] [(0, ''A'')], ex_op Write 2 [(0, 1)] [], ex_op MarkDeleted 1 [] []]"
  have fits: "\<forall>op \<in> set ?raw. op_fits ex_path op" using ex_op_fits by simp
  have nm: "\<forall>op \<in> set ?raw. \<forall>e \<in> set (lo_newWords op). snd e = (\<lambda>_. ''A'') (fst e)" by (simp add: ex_op_def)
  have "docs_fit ex_path db_empty" by (simp add: docs_fit_def db_empty_def)
  from writeBatch_refines_sequence [OF this ex_path_inj fits nm]
  have "\<exists>db1 db2. writeBatch ?raw db_empty = Some db1 \<and> fold_opt apply_op ?raw db_empty = Some db2 \<and>
      (\<forall>f. file_view db1 f = file_view db2 f) \<and>
      (\<forall>wid. um_find (db_words db1) (bind_int wid) = um_find (db_words db2) (bind_int wid))"
    by (simp add: ex_op_def)
  then show ?thesis by (metis bind_int_def signed_0)
qed

text \<open>when a file is written twice before the queue is flushed, the words that were new with its
  first version are not stored: the coalescing keeps only the second operation, and its list of
  new words does not repeat words that are already numbered. The postings then refer to a
  word without a row, in whatever file it occurs, and after a restart the word is not found.\<close>

theorem coalesced_update_loses_words:
  assumes "docs_fit pth db" and "inj pth" and "op_fits pth a" and "op_fits pth b"
    and "lo_kind a = Write" and "lo_kind b = Write" and "lo_fileId a = lo_fileId b"
    and "(wid, w) \<in> set (lo_newWords a)" and "(wid, c) \<in> set (lo_widCounts b)"
    and "w \<noteq> []" and "w \<notin> snd ` set (db_words db)" and "w \<notin> c_str ` snd ` set (lo_newWords b)"
  shows "\<exists>db'. writeBatch [a, b] db = Some db' \<and>
    snd (file_view db' (lo_fileId b)) (bind_int wid) \<noteq> None \<and> w \<notin> snd ` set (db_words db') \<and>
    (\<forall>threads precount idx docs. load threads precount db' = Some (idx, docs) \<longrightarrow>
      getPostingCopyByWord idx w = None)"
proof -
  have fits: "\<forall>op \<in> set [a, b]. op_fits pth op" using assms(3,4) by simp
  obtain db' where db': "writeBatch [a, b] db = Some db'"
    "\<forall>f. file_view db' f = fold op_effect (filter (\<lambda>op. lo_fileId op = f) [a, b]) (file_view db f)"
    "db_words db' = db_words (fold ins_word (fold new_words_of (fold coalesce [a, b] []) []) db)"
    using writeBatch_ok [OF assms(1,2) fits] by blast
  have co: "fold coalesce [a, b] [] = [(lo_fileId b, b)]"
    using assms(5-7) by (simp add: coalesce_def um_put_def um_find_def)
  have new: "set (fold (\<lambda>(wid, w). um_emplace wid w) ws m) \<subseteq> set m \<union> set ws" for ws and m :: "(u32, string) umap"
  proof (induction ws arbitrary: m)
    case (Cons e ws)
    have "set (um_emplace (fst e) (snd e) m) \<subseteq> insert e (set m)"
      by (auto simp: um_emplace_def dest!: um_put_set split: option.splits)
    then show ?case using Cons [of "um_emplace (fst e) (snd e) m"] by (auto simp: case_prod_unfold)
  qed simp
  have ins: "snd ` set (db_words (fold ins_word ws d)) \<subseteq> snd ` set (db_words d) \<union> c_str ` snd ` set ws" for ws d
  proof (induction ws arbitrary: d)
    case (Cons e ws)
    have "snd ` set (db_words (ins_word e d)) \<subseteq> insert (c_str (snd e)) (snd ` set (db_words d))"
      by (auto simp: ins_word_def um_emplace_def dest!: um_put_set split: option.splits)
    then have "snd ` set (db_words (ins_word e d)) \<union> c_str ` snd ` set ws \<subseteq>
        snd ` set (db_words d) \<union> c_str ` snd ` set (e # ws)" by (auto simp del: image_eqI)
    with Cons [of "ins_word e d"] show ?case by (simp only: fold_simps)
  qed simp
  let ?nw = "fold new_words_of [(lo_fileId b, b)] []"
  have "?nw = fold (\<lambda>(wid, w). um_emplace wid w) (lo_newWords b) []" using assms(6) by (simp add: new_words_of_def)
  then have "set ?nw \<subseteq> set (lo_newWords b)" using new [of "lo_newWords b" "[]"] by simp
  then have sub: "c_str ` snd ` set ?nw \<subseteq> c_str ` snd ` set (lo_newWords b)" by (intro image_mono)
  have "snd ` set (db_words db') \<subseteq> snd ` set (db_words db) \<union> c_str ` snd ` set (lo_newWords b)"
    unfolding db'(3) co by (rule subset_trans [OF ins Un_mono [OF subset_refl sub]])
  then have w: "w \<notin> snd ` set (db_words db')" using assms(11,12) by blast
  obtain p8 where "path_text (lo_path b) = Inr p8"
    using assms(4,6) path_text_ok [of "lo_path b"] unfolding op_fits_def by blast
  moreover have "file_view db' (lo_fileId b) = op_effect b (op_effect a (file_view db (lo_fileId b)))"
    using db'(2) assms(7) by simp
  ultimately have view: "snd (file_view db' (lo_fileId b)) =
      map_of (rev (map (\<lambda>e. (bind_int (fst e), uint (snd e))) (lo_widCounts b)))"
    using assms(6) by (simp add: op_effect_def [of b])
  have "bind_int wid \<in> fst ` set (rev (map (\<lambda>e. (bind_int (fst e), uint (snd e))) (lo_widCounts b)))"
    using imageI [OF assms(9), of "\<lambda>e. bind_int (fst e)"] by (simp add: image_image)
  then have "snd (file_view db' (lo_fileId b)) (bind_int wid) \<noteq> None"
    unfolding view map_of_eq_None_iff by blast
  with db'(1) w load_unknown_word [OF _ assms(10) w] show ?thesis by blast
qed

lemma coalesced_update_loses_words_witness:
  "\<exists>db'. writeBatch [ex_op Write 1 [(0, 3)] [(0, ''A'')], ex_op Write 1 [(0, 4)] []] db_empty = Some db' \<and>
     snd (file_view db' 1) 0 \<noteq> None \<and> ''A'' \<notin> snd ` set (db_words db')"
proof -
  have "docs_fit ex_path db_empty" by (simp add: docs_fit_def db_empty_def)
  from coalesced_update_loses_words [OF this ex_path_inj ex_op_fits ex_op_fits,
      of 1 1 Write "[(0, 3)]" "[(0, ''A'')]" Write "[(0, 4)]" "[]" 0 "''A''" 4]
  show ?thesis by (fastforce simp: ex_op_def db_empty_def bind_int_def)
qed

end
