(* ===== verification/SQLitePersistence.thy ===== *)
theory SQLitePersistence
  imports SQLiteIndexDb
begin

text \<open>
  A saved index is the index that is loaded again: the lemmas follow \<open>save\<close> and \<open>load\<close> of
  \<open>SQLiteIndexDb\<close> table by table, for one reader as well as for several readers that share the
  chunks, up to the round trip of words, posting lists, back references and document rows.
\<close>

section \<open>Filling a table\<close>

lemma um_put_new: "um_find m k = None \<Longrightarrow> um_put k v m = m @ [(k, v)]"
proof (induction m)
  case Nil
  then show ?case by (simp add: um_put_def)
next
  case (Cons a m)
  then show ?case by (cases a) (auto simp: um_put_def um_find_def split: if_splits)
qed

lemma fold_ins_new:
  assumes "distinct (map K xs)" and "\<forall>x \<in> set xs. K x \<notin> fst ` set m"
  shows "fold_opt (\<lambda>x. ins_new (K x) (V x)) xs m = Some (m @ map (\<lambda>x. (K x, V x)) xs)"
  using assms
proof (induction xs arbitrary: m)
  case (Cons x xs)
  have "um_find m (K x) = None" using Cons.prems(2) by (simp add: um_find_None_iff)
  then have "ins_new (K x) (V x) m = Some (m @ [(K x, V x)])" by (simp add: ins_new_def um_put_new)
  moreover have "K y \<notin> fst ` set (m @ [(K x, V x)])" if "y \<in> set xs" for y
    using Cons.prems that by (auto simp: image_iff)
  ultimately show ?case using Cons.IH [of "m @ [(K x, V x)]"] Cons.prems(1) by simp
qed simp

lemma bind_int_nat: "n < 2 ^ 31 \<Longrightarrow> bind_int (of_nat n) = int n"
  by (simp add: bind_int_def signed_of_nat signed_take_bit_int_eq_self)

lemma bind_int_small: "unat f < 2 ^ 31 \<Longrightarrow> bind_int f = int (unat f)"
  using bind_int_nat [of "unat f"] by simp

lemma bind_int_back: "of_int (bind_int f) = f"
  by (simp add: bind_int_def)

section \<open>The words\<close>

lemma save_words_table:
  assumes "wid_size ids \<le> 2 ^ 31"
  shows "save_words ids = Some (map (\<lambda>n. (int n, c_str (wid_byId ids (of_nat n)))) [0..<wid_size ids])"
proof -
  have K: "map (\<lambda>n. bind_int (of_nat n)) [0..<wid_size ids] = map int [0..<wid_size ids]"
    using assms by (intro map_cong) (auto simp: bind_int_nat)
  have "distinct (map (\<lambda>n. bind_int (of_nat n)) [0..<wid_size ids])"
    unfolding K by (simp add: distinct_map)
  from fold_ins_new [OF this, of "[]" "\<lambda>n. c_str (wid_byId ids (of_nat n))"] have "save_words ids =
      Some (map (\<lambda>n. (bind_int (of_nat n), c_str (wid_byId ids (of_nat n)))) [0..<wid_size ids])"
    by (simp add: save_words_def)
  then show ?thesis using assms by (simp add: bind_int_nat cong: map_cong)
qed

lemma load_words_table:
  assumes "length ws \<le> 2 ^ 32" and "db_words db = map (\<lambda>n. (int n, ws ! n)) [0..<length ws]"
  shows "load_words db = Some ws"
proof -
  have "sorted (map fst (map (\<lambda>n. (int n, ws ! n)) [0..<length ws]))"
    by (simp add: sorted_iff_nth_mono)
  then have sort: "sort_key fst (db_words db) = map (\<lambda>n. (int n, ws ! n)) [0..<length ws]"
    using assms(2) by (metis sort_key_id_if_sorted)
  have "fold_opt load_word (map (\<lambda>n. (int n, ws ! n)) [0..<k]) [] = Some (take k ws)" if "k \<le> length ws" for k
    using that
  proof (induction k)
    case (Suc k)
    then have "k < 2 ^ 32" using assms(1) by simp
    then have "load_word (int k, ws ! k) (take k ws) = Some (take (Suc k) ws)"
      using Suc.prems by (simp add: load_word_def take_Suc_conv_app_nth list_update_append)
    with Suc show ?case by (simp add: fold_opt_append)
  qed simp
  from this [of "length ws"] show ?thesis by (simp add: load_words_def sort)
qed

lemma build_word2id_find:
  assumes "distinct l" and "length l \<le> 2 ^ 32"
  shows "um_find (build_word2id l) w = Some i \<longleftrightarrow> unat i < length l \<and> l ! unat i = w"
    and "um_ok (build_word2id l)"
proof -
  let ?b = "\<lambda>k. fold (\<lambda>wid. um_emplace (l ! wid) (of_nat wid :: u32)) [0..<k] []"
  have "um_find (?b k) w = Some i \<longleftrightarrow> unat i < k \<and> l ! unat i = w" if "k \<le> length l" for k w i
    using that
  proof (induction k arbitrary: w i)
    case (Suc k)
    have ih: "um_find (?b k) w = Some i \<longleftrightarrow> unat i < k \<and> l ! unat i = w" for w i
      using Suc by simp
    have "um_find (?b k) (l ! k) \<noteq> Some i" for i
      unfolding ih using Suc.prems assms(1) by (auto simp: nth_eq_iff_index_eq)
    then have "um_find (?b k) (l ! k) = None" by auto
    moreover have k: "unat (of_nat k :: u32) = k" using Suc.prems assms(2) by (intro unat_of_nat_u32) simp
    ultimately have step: "um_find (?b (Suc k)) w = (if w = l ! k then Some (of_nat k) else um_find (?b k) w)"
      by (simp add: um_find_emplace)
    show ?case
    proof (cases "w = l ! k")
      case True
      have "of_nat k = i \<longleftrightarrow> unat i = k" using k by (auto simp: word_unat_eq_iff)
      moreover have "unat i < Suc k \<and> l ! unat i = l ! k \<longleftrightarrow> unat i = k"
        using Suc.prems assms(1) by (auto simp: nth_eq_iff_index_eq)
      ultimately show ?thesis using True step by simp
    next
      case False
      with step ih show ?thesis by (auto simp: less_Suc_eq)
    qed
  qed simp
  then show "um_find (build_word2id l) w = Some i \<longleftrightarrow> unat i < length l \<and> l ! unat i = w"
    by (simp add: build_word2id_def)
  show "um_ok (build_word2id l)" unfolding build_word2id_def by (intro fold_refs_ok) simp_all
qed

section \<open>The posting lists in the order of the save\<close>

lemma save_lists_chunks:
  assumes "chunks_wf cs"
  shows "filter (\<lambda>e. snd e \<noteq> []) (concat (map (\<lambda>(c, ch). case ch of
       None \<Rightarrow> [] | Some b \<Rightarrow> map (\<lambda>(l, p). (c * CHUNK_SIZE + l, p)) (zip [0..<length b] b))
     (zip [0..<length cs] cs))) =
   filter (\<lambda>e. snd e \<noteq> []) (map (\<lambda>n. (n, chunk_entry cs n)) [0..<length cs * CHUNK_SIZE])"
  using assms
proof (induction cs rule: rev_induct)
  case (snoc ch cs)
  let ?k = "length cs * CHUNK_SIZE"
  have wf: "chunks_wf cs" "ch = Some b \<Longrightarrow> length b = CHUNK_SIZE" for b
    using snoc.prems by (auto simp: chunks_wf_def)
  have old: "chunk_entry (cs @ [ch]) n = chunk_entry cs n" if "n < ?k" for n
  proof -
    have "n div CHUNK_SIZE < length cs" using that by (simp add: div_less_iff_less_mult)
    then show ?thesis by (simp add: chunk_entry_def Let_def nth_append)
  qed
  have new: "chunk_entry (cs @ [ch]) (?k + l) = (case ch of None \<Rightarrow> [] | Some b \<Rightarrow> b ! l)" if "l < CHUNK_SIZE" for l
    using that by (simp add: chunk_entry_def Let_def split: option.split)
  have "[0..<length (cs @ [ch]) * CHUNK_SIZE] = [0..<?k] @ map (\<lambda>l. ?k + l) [0..<CHUNK_SIZE]"
    using upt_add_eq_append [of 0 ?k CHUNK_SIZE] map_add_upt [of ?k CHUNK_SIZE] by (simp add: add.commute)
  moreover have "filter (\<lambda>e. snd e \<noteq> []) (map (\<lambda>n. (n, chunk_entry (cs @ [ch]) n)) (map (\<lambda>l. ?k + l) [0..<CHUNK_SIZE])) =
      filter (\<lambda>e. snd e \<noteq> []) (case ch of None \<Rightarrow> []
        | Some b \<Rightarrow> map (\<lambda>(l, p). (length cs * CHUNK_SIZE + l, p)) (zip [0..<length b] b))"
  proof (cases ch)
    case None
    then show ?thesis using new by (simp add: filter_empty_conv)
  next
    case (Some b)
    then have "map (\<lambda>(l, p). (?k + l, p)) (zip [0..<length b] b) = map (\<lambda>l. (?k + l, b ! l)) [0..<CHUNK_SIZE]"
      using wf(2) [of b] by (intro nth_equalityI) simp_all
    moreover have "map (\<lambda>n. (n, chunk_entry (cs @ [ch]) n)) (map (\<lambda>l. ?k + l) [0..<CHUNK_SIZE]) =
        map (\<lambda>l. (?k + l, b ! l)) [0..<CHUNK_SIZE]"
      using new Some by simp
    ultimately show ?thesis using Some by (simp only: option.case)
  qed
  moreover have "map (\<lambda>n. (n, chunk_entry (cs @ [ch]) n)) [0..<?k] = map (\<lambda>n. (n, chunk_entry cs n)) [0..<?k]"
    using old by simp
  ultimately show ?case using snoc.IH [OF wf(1)] by (simp add: zip_upt_snoc del: length_append map_eq_conv)
qed simp

text \<open>Both forms of the index are saved as the non-empty lists in the order of the word numbers.\<close>

lemma save_lists_words:
  assumes "index_ok s"
  shows "\<exists>N. save_lists s = filter (\<lambda>e. snd e \<noteq> []) (map (\<lambda>n. (n, word_list s n)) [0..<N]) \<and>
    (\<forall>n. word_list s n \<noteq> [] \<longrightarrow> n < N)"
proof (cases "ii_dictionary s = []")
  case True
  then have wf: "chunks_wf (ii_chunks s)" using assms by (auto simp: index_ok_def ii_invar_def ii_base_def flat_invar_def)
  have "n < length (ii_chunks s) * CHUNK_SIZE" if "chunk_entry (ii_chunks s) n \<noteq> []" for n
  proof -
    have "n div CHUNK_SIZE < length (ii_chunks s)" using that chunk_entry_missing [of "ii_chunks s" n] by force
    then show ?thesis by (simp add: div_less_iff_less_mult)
  qed
  with True save_lists_chunks [OF wf] show ?thesis
    by (intro exI [of _ "length (ii_chunks s) * CHUNK_SIZE"]) (simp add: save_lists_def word_list_def)
next
  case False
  let ?d = "ii_dictionary s"
  have "zip [0..<length ?d] ?d = map (\<lambda>n. (n, word_list s n)) [0..<length ?d]"
    using False by (intro nth_equalityI) (simp_all add: word_list_def)
  with False show ?thesis
    by (intro exI [of _ "length ?d"]) (simp add: save_lists_def word_list_def split: if_splits)
qed

section \<open>The postings table\<close>

definition posting_rows :: "nat \<times> posting_list \<Rightarrow> posting_row list" where
  "posting_rows e = map (\<lambda>p. ((int (fst e), int (unat (p_fileId p))), uint (p_cnt p))) (snd e)"

lemma fold_opt_concat: "fold_opt (\<lambda>e. fold_opt f (g e)) xs s = fold_opt f (concat (map g xs)) s"
  by (induction xs arbitrary: s) (simp_all add: fold_opt_append split: option.split)

lemma fold_opt_map: "fold_opt f (map g xs) s = fold_opt (\<lambda>x. f (g x)) xs s"
  by (induction xs arbitrary: s) (simp_all split: option.split)

lemma fold_opt_cong:
  assumes "\<And>x s. x \<in> set xs \<Longrightarrow> f x s = g x s"
  shows "fold_opt f xs s = fold_opt g xs s"
  using assms by (induction xs arbitrary: s) (auto split: option.split)

definition list_small :: "nat \<times> posting_list \<Rightarrow> bool" where
  "list_small e \<longleftrightarrow> fst e < 2 ^ 31 \<and> pl_invar (snd e) \<and> (\<forall>p \<in> set (snd e). unat (p_fileId p) < 2 ^ 31)"

lemma writePostingList_rows:
  assumes "list_small e"
  shows "writePostingList e m = fold_opt (\<lambda>r. ins_new (fst r) (snd r)) (posting_rows e) m"
  unfolding writePostingList_def posting_rows_def fold_opt_map
  using assms by (intro fold_opt_cong) (simp add: list_small_def bind_int_nat bind_int_small)

lemma posting_rows_distinct:
  assumes "distinct (map fst ls)" and "\<forall>e \<in> set ls. list_small e"
  shows "um_ok (concat (map posting_rows ls))"
  using assms
proof (induction ls)
  case (Cons e ls)
  have "map fst (posting_rows e) = map (\<lambda>f. (int (fst e), int (unat f))) (map p_fileId (snd e))"
    by (simp add: posting_rows_def)
  then have "distinct (map fst (posting_rows e))"
    using Cons.prems(2) pl_invar_distinct [of "snd e"]
    by (simp only: list_small_def list.set_intros) (subst distinct_map, auto intro!: inj_onI word_uint_eq_iff [THEN iffD2])
  moreover have "fst ` set (posting_rows e) \<inter> fst ` set (concat (map posting_rows ls)) = {}"
  proof -
    have "fst ` fst ` set (posting_rows e) \<subseteq> {int (fst e)}" by (auto simp: posting_rows_def)
    moreover have "fst ` fst ` set (concat (map posting_rows ls)) \<subseteq> int ` fst ` set ls"
      by (force simp: posting_rows_def)
    moreover have "int (fst e) \<notin> int ` fst ` set ls" using Cons.prems(1) by (simp add: inj_image_mem_iff)
    ultimately have "fst k \<noteq> fst l" if "k \<in> fst ` set (posting_rows e)"
        "l \<in> fst ` set (concat (map posting_rows ls))" for k l
      using imageI [OF that(1), of fst] imageI [OF that(2), of fst] by (metis (no_types) singletonD subsetD)
    then show ?thesis by blast
  qed
  ultimately show ?case using Cons by (simp add: um_ok_def)
qed simp

lemma save_postings_table:
  assumes "distinct (map fst ls)" and "\<forall>e \<in> set ls. list_small e"
  shows "fold_opt writePostingList ls [] = Some (concat (map posting_rows ls))"
proof -
  have "fold_opt writePostingList ls [] =
      fold_opt (\<lambda>e. fold_opt (\<lambda>r. ins_new (fst r) (snd r)) (posting_rows e)) ls []"
    using assms(2) by (intro fold_opt_cong) (simp add: writePostingList_rows)
  also have "\<dots> = Some (concat (map posting_rows ls))"
    unfolding fold_opt_concat using fold_ins_new [of fst "concat (map posting_rows ls)" "[]" snd]
      posting_rows_distinct [OF assms] by (simp add: um_ok_def)
  finally show ?thesis .
qed

lemma save_lists_rows:
  assumes "index_ok s"
  shows "distinct (map fst (save_lists s))"
    and "set (concat (map posting_rows (save_lists s))) = (\<Union>n. set (posting_rows (n, word_list s n)))"
    and "e \<in> set (save_lists s) \<Longrightarrow> snd e = word_list s (fst e) \<and> fst e < wid_size (ii_wordIds s)"
proof -
  obtain N where N: "save_lists s = filter (\<lambda>e. snd e \<noteq> []) (map (\<lambda>n. (n, word_list s n)) [0..<N])"
    "\<And>n. word_list s n \<noteq> [] \<Longrightarrow> n < N"
    using save_lists_words [OF assms] by blast
  have "map fst (map (\<lambda>n. (n, word_list s n)) [0..<N]) = [0..<N]" by (simp add: comp_def)
  then show "distinct (map fst (save_lists s))" unfolding N(1) by (intro distinct_map_filter) (simp add: comp_def)
  show "set (concat (map posting_rows (save_lists s))) = (\<Union>n. set (posting_rows (n, word_list s n)))"
  proof (intro equalityI subsetI)
    fix r assume "r \<in> (\<Union>n. set (posting_rows (n, word_list s n)))"
    then obtain n where n: "r \<in> set (posting_rows (n, word_list s n))" by blast
    then have "word_list s n \<noteq> []" by (auto simp: posting_rows_def)
    then have "(n, word_list s n) \<in> set (save_lists s)" using N by auto
    with n show "r \<in> set (concat (map posting_rows (save_lists s)))" by auto
  qed (auto simp: N(1))
  assume "e \<in> set (save_lists s)"
  then have e: "snd e = word_list s (fst e)" "snd e \<noteq> []" by (auto simp: N(1))
  then show "snd e = word_list s (fst e) \<and> fst e < wid_size (ii_wordIds s)"
    using index_okD(4) [OF assms, of "fst e"] by force
qed

section \<open>Reading the postings back\<close>

definition row_post :: "posting_row \<Rightarrow> posting" where
  "row_post e = \<lparr>p_fileId = of_int (snd (fst e)), p_cnt = of_int (snd e)\<rparr>"

definition chunks_full :: "nat \<Rightarrow> chunk_vector \<Rightarrow> bool" where
  "chunks_full k cs \<longleftrightarrow> chunks_wf cs \<and> length cs = k \<and> None \<notin> set cs"

definition rows_of :: "nat \<Rightarrow> posting_row list \<Rightarrow> posting_list" where
  "rows_of n rows = map row_post (filter (\<lambda>e. fst (fst e) = int n) rows)"

lemma put_posting_on_entry:
  "put_posting e cs = on_entry (nat (fst (fst e))) (\<lambda>p. p @ [row_post e]) cs"
  by (simp add: put_posting_def on_entry_def pl_appendSorted_def row_post_def Let_def split: prod.split)

lemma posting_row_okD:
  "posting_row_ok N e \<Longrightarrow> 0 \<le> fst (fst e) \<and> fst (fst e) < int N \<and> 0 \<le> snd (fst e) \<and> snd (fst e) < 2 ^ 32"
  by (auto simp: posting_row_ok_def split: prod.splits)

lemma put_posting_entry:
  assumes "chunks_full k cs" and "posting_row_ok N e" and "N \<le> k * CHUNK_SIZE"
  shows "chunks_full k (put_posting e cs)"
    and "chunk_entry (put_posting e cs) n = chunk_entry cs n @ rows_of n [e]"
proof -
  let ?n = "nat (fst (fst e))"
  have w: "0 \<le> fst (fst e)" "?n < k * CHUNK_SIZE" using assms(2,3) by (auto simp: posting_row_ok_def split: prod.splits)
  then have c: "?n div CHUNK_SIZE < length cs" using assms(1) by (simp add: chunks_full_def div_less_iff_less_mult)
  then have "cs ! (?n div CHUNK_SIZE) \<in> set cs" by simp
  then have "cs ! (?n div CHUNK_SIZE) \<noteq> None" using assms(1) unfolding chunks_full_def by metis
  then obtain b where b: "cs ! (?n div CHUNK_SIZE) = Some b" by blast
  have "None \<notin> set (on_entry ?n (\<lambda>p. p @ [row_post e]) cs)"
    using assms(1) b set_update_subset_insert [of cs "?n div CHUNK_SIZE"] by (force simp: on_entry_def chunks_full_def)
  then show "chunks_full k (put_posting e cs)" using assms(1) by (simp add: put_posting_on_entry chunks_full_def)
  show "chunk_entry (put_posting e cs) n = chunk_entry cs n @ rows_of n [e]"
    using chunk_entry_on_entry [OF _ c b] assms(1) w(1)
    by (auto simp: put_posting_on_entry chunks_full_def rows_of_def)
qed

lemma Collect_Cons:
  "{g x | x. x \<in> set (e # xs) \<and> h x = f} = (if h e = f then {g e} else {}) \<union> {g x | x. x \<in> set xs \<and> h x = f}"
  by auto

lemma load_rows_ok:
  assumes "chunks_full k cs" and "\<forall>e \<in> set rows. posting_row_ok N e" and "N \<le> k * CHUNK_SIZE" and "um_ok refs"
  shows "\<exists>cs' refs'. fold_opt (load_row N direct) rows (cs, refs) = Some (cs', refs') \<and> chunks_full k cs' \<and>
    (\<forall>n. chunk_entry cs' n = chunk_entry cs n @ rows_of n rows) \<and> um_ok refs' \<and>
    (\<not> direct \<longrightarrow> refs' = refs) \<and>
    (direct \<longrightarrow> (\<forall>f. set (refs_of refs' f) = set (refs_of refs f) \<union>
       {of_int (fst (fst e)) | e. e \<in> set rows \<and> of_int (snd (fst e)) = f}))"
  using assms
proof (induction rows arbitrary: cs refs)
  case Nil
  then show ?case by (simp add: rows_of_def)
next
  case (Cons e rows)
  let ?cs = "put_posting e cs"
  let ?refs = "if direct then um_put (of_int (snd (fst e))) (refs_of refs (of_int (snd (fst e))) @ [of_int (fst (fst e))]) refs else refs"
  have ok: "posting_row_ok N e" using Cons.prems(2) by simp
  note p = put_posting_entry [OF Cons.prems(1) ok Cons.prems(3)]
  have step: "load_row N direct e (cs, refs) = Some (?cs, ?refs)" using ok by (simp add: load_row_def Let_def)
  have "um_ok ?refs" using Cons.prems(4) by simp
  from Cons.IH [OF p(1) _ Cons.prems(3) this] Cons.prems(2) obtain cs' refs' where r:
    "fold_opt (load_row N direct) rows (?cs, ?refs) = Some (cs', refs')" "chunks_full k cs'"
    "\<forall>n. chunk_entry cs' n = chunk_entry ?cs n @ rows_of n rows" "um_ok refs'" "\<not> direct \<longrightarrow> refs' = ?refs"
    "direct \<longrightarrow> (\<forall>f. set (refs_of refs' f) = set (refs_of ?refs f) \<union>
       {of_int (fst (fst e)) | e. e \<in> set rows \<and> of_int (snd (fst e)) = f})" by auto
  have "chunk_entry cs' n = chunk_entry cs n @ rows_of n (e # rows)" for n
    using r(3) p(2) by (simp add: rows_of_def)
  moreover have "set (refs_of refs' f) = set (refs_of refs f) \<union>
      {of_int (fst (fst x)) | x. x \<in> set (e # rows) \<and> of_int (snd (fst x)) = f}" if direct for f
  proof -
    have "set (refs_of ?refs f) = set (refs_of refs f) \<union>
        (if of_int (snd (fst e)) = f then {of_int (fst (fst e))} else {})"
      using that by (auto simp: refs_of_def um_find_put)
    moreover have "set (refs_of refs' f) = set (refs_of ?refs f) \<union>
        {of_int (fst (fst e)) | e. e \<in> set rows \<and> of_int (snd (fst e)) = f}" using r(6) that by (rule mp [THEN spec])
    ultimately show ?thesis
      unfolding Collect_Cons [of "\<lambda>x. of_int (fst (fst x))" e rows "\<lambda>x. of_int (snd (fst x))"] by (simp only: Un_assoc)
  qed
  ultimately show ?case using step r by simp
qed

section \<open>The readers\<close>

lemma filter_filter_rows: "rows_of n (filter P rows) = map row_post (filter (\<lambda>e. P e \<and> fst (fst e) = int n) rows)"
  by (simp add: rows_of_def conj_commute)

text \<open>The ranges of the readers follow each other, so after \<open>k\<close> readers exactly the words below
  the end of the \<open>k\<close>-th range have their lists.\<close>

lemma load_workers:
  fixes db threads chunks
  assumes "\<forall>e \<in> set (db_postings db). posting_row_ok N e" and "N \<le> chunks * CHUNK_SIZE" and "chunks_full chunks cs"
    and "\<And>n. chunk_entry cs n = []"
  defines "b \<equiv> \<lambda>k. chunks * k div threads * CHUNK_SIZE"
  shows "\<exists>cs'. fold_opt (load_worker db N chunks threads) [0..<k] (cs, []) = Some (cs', []) \<and> chunks_full chunks cs' \<and>
    (\<forall>n. chunk_entry cs' n = (if n < b k then rows_of n (sort_key fst (db_postings db)) else []))"
proof (induction k)
  case 0
  then show ?case using assms(3,4) by (simp add: b_def)
next
  case (Suc k)
  let ?rows = "sort_key fst (db_postings db)"
  let ?range = "filter (\<lambda>e. int (b k) \<le> fst (fst e) \<and> fst (fst e) < int (min N (b (Suc k)))) ?rows"
  from Suc obtain cs1 where cs1: "fold_opt (load_worker db N chunks threads) [0..<k] (cs, []) = Some (cs1, [])"
    "chunks_full chunks cs1" "\<And>n. chunk_entry cs1 n = (if n < b k then rows_of n ?rows else [])" by blast
  have "\<forall>e \<in> set ?range. posting_row_ok N e" using assms(1) by simp
  from load_rows_ok [OF cs1(2) this assms(2) um_ok_Nil, of False] obtain cs2 where cs2:
    "fold_opt (load_row N False) ?range (cs1, []) = Some (cs2, [])" "chunks_full chunks cs2"
    "\<And>n. chunk_entry cs2 n = chunk_entry cs1 n @ rows_of n ?range" by auto
  have step: "load_worker db N chunks threads k (cs1, []) = Some (cs2, [])"
    using cs2(1) by (simp add: load_worker_def loadPostingRange_def b_def)
  have mono: "b k \<le> b (Suc k)" unfolding b_def by (intro mult_right_mono div_le_mono) simp_all
  have bound: "fst (fst e) < int N" if "e \<in> set ?rows" for e
    using assms(1) that posting_row_okD by simp
  have "rows_of n ?range = (if b k \<le> n \<and> n < b (Suc k) then rows_of n ?rows else [])" for n
  proof -
    have "filter (\<lambda>e. (int (b k) \<le> fst (fst e) \<and> fst (fst e) < int (min N (b (Suc k)))) \<and> fst (fst e) = int n) ?rows =
        filter (\<lambda>e. (b k \<le> n \<and> n < b (Suc k)) \<and> fst (fst e) = int n) ?rows"
    proof (rule filter_cong [OF refl])
      fix e assume "e \<in> set ?rows"
      then have "fst (fst e) < int N" by (rule bound)
      then show "((int (b k) \<le> fst (fst e) \<and> fst (fst e) < int (min N (b (Suc k)))) \<and> fst (fst e) = int n) =
          ((b k \<le> n \<and> n < b (Suc k)) \<and> fst (fst e) = int n)" by auto
    qed
    then show ?thesis unfolding filter_filter_rows
      by (cases "b k \<le> n \<and> n < b (Suc k)") (simp_all only: rows_of_def if_True if_False simp_thms filter_False list.map ball_triv)
  qed
  then have "chunk_entry cs2 n = (if n < b (Suc k) then rows_of n ?rows else [])" for n
    using cs2(3) cs1(3) mono by auto
  with cs1(1) step cs2(2) show ?case by (simp add: fold_opt_append)
qed

lemma collect_refs_set:
  "set (refs_of (collect_refs N cs) f) =
     {of_nat n | n. n < min N (length cs * CHUNK_SIZE) \<and> f \<in> p_fileId ` set (chunk_entry cs n)}"
  "um_ok (collect_refs N cs)"
proof -
  have "set (refs_of (collect_refs N cs) f) = set (refs_of [] f) \<union>
      (\<Union>n \<in> set [0..<min N (length cs * CHUNK_SIZE)]. if f \<in> p_fileId ` set (chunk_entry cs n) then {of_nat n} else {})"
    unfolding collect_refs_def by (rule fold_refs_set) (rule add_refs_set)
  also have "\<dots> = {of_nat n | n. n < min N (length cs * CHUNK_SIZE) \<and> f \<in> p_fileId ` set (chunk_entry cs n)}"
    by (auto simp: refs_of_def split: if_splits)
  finally show "set (refs_of (collect_refs N cs) f) =
     {of_nat n | n. n < min N (length cs * CHUNK_SIZE) \<and> f \<in> p_fileId ` set (chunk_entry cs n)}" .
  show "um_ok (collect_refs N cs)" unfolding collect_refs_def by (intro fold_refs_ok add_refs_ok) simp_all
qed

lemma new_chunks_full: "chunks_full k (replicate k (Some new_chunk))"
  "chunk_entry (replicate k (Some new_chunk)) n = []"
  by (auto simp: chunks_full_def chunks_wf_def chunk_entry_def Let_def)

text \<open>One reader or several: every word gets the rows of the table that carry its number, and every
  file refers to the words of its rows.\<close>

lemma load_postings_ok:
  assumes rows: "\<forall>e \<in> set (db_postings db). posting_row_ok N e" and N: "N \<le> 2 ^ 32"
  shows "\<exists>cs refs. load_postings threads db N = Some (cs, refs) \<and> chunks_wf cs \<and> um_ok refs \<and>
    (\<forall>n. chunk_entry cs n = rows_of n (sort_key fst (db_postings db))) \<and>
    (\<forall>n f. f \<in> p_fileId ` set (chunk_entry cs n) \<longrightarrow> of_nat n \<in> set (refs_of refs f))"
proof (cases "N = 0")
  case True
  then have "db_postings db = []" using rows posting_row_okD by (cases "db_postings db") fastforce+
  with True show ?thesis by (simp add: load_postings_def rows_of_def chunk_entry_def)
next
  case False
  let ?rows = "sort_key fst (db_postings db)"
  define k where "k = (N + CHUNK_SIZE - 1) div CHUNK_SIZE"
  define t where "t = min (max 1 (min 16 threads)) k"
  have "N + 4095 = k * 4096 + (N + 4095) mod 4096" by (simp add: k_def CHUNK_SIZE_def add.commute [of 4095])
  moreover have "(N + 4095) mod 4096 < 4096" by simp
  ultimately have "N \<le> k * 4096" by linarith
  then have k: "N \<le> k * CHUNK_SIZE" "k > 0" using False by (auto simp: CHUNK_SIZE_def)
  note full = new_chunks_full [of k]
  have "load_postings threads db N =
      (if N = 0 then Some (replicate k (Some new_chunk), [])
       else if t = 1 then loadPostingRange db N 0 N True (replicate k (Some new_chunk), [])
       else case fold_opt (load_worker db N k t) [0..<t] (replicate k (Some new_chunk), []) of
         None \<Rightarrow> None | Some (cs, _) \<Rightarrow> Some (cs, collect_refs N cs))"
    unfolding load_postings_def Let_def if_not_P [OF False] k_def [symmetric] if_not_P [OF k(2) [THEN less_imp_neq, symmetric]] t_def [symmetric] ..
  then have unf: "load_postings threads db N =
      (if t = 1 then loadPostingRange db N 0 N True (replicate k (Some new_chunk), [])
       else case fold_opt (load_worker db N k t) [0..<t] (replicate k (Some new_chunk), []) of
         None \<Rightarrow> None | Some (cs, _) \<Rightarrow> Some (cs, collect_refs N cs))" using False by simp
  have ok: "\<forall>e \<in> set ?rows. posting_row_ok N e" using rows by simp
  show ?thesis
  proof (cases "t = 1")
    case True
    have "filter (\<lambda>e. int 0 \<le> fst (fst e) \<and> fst (fst e) < int N) ?rows = ?rows"
    proof (intro filter_True ballI)
      fix e assume "e \<in> set ?rows"
      then have "posting_row_ok N e" using ok by blast
      from posting_row_okD [OF this] show "int 0 \<le> fst (fst e) \<and> fst (fst e) < int N" by simp
    qed
    then have "loadPostingRange db N 0 N True (replicate k (Some new_chunk), []) =
        fold_opt (load_row N True) ?rows (replicate k (Some new_chunk), [])" by (simp add: loadPostingRange_def)
    moreover obtain cs refs where r: "fold_opt (load_row N True) ?rows (replicate k (Some new_chunk), []) = Some (cs, refs)"
      "chunks_full k cs" "\<And>n. chunk_entry cs n = rows_of n ?rows" "um_ok refs"
      "\<And>f. set (refs_of refs f) = {of_int (fst (fst e)) | e. e \<in> set ?rows \<and> of_int (snd (fst e)) = f}"
      using load_rows_ok [OF full(1) ok k(1) um_ok_Nil, of True] full(2) by (auto simp: refs_of_def)
    moreover have "of_nat n \<in> set (refs_of refs f)" if "f \<in> p_fileId ` set (chunk_entry cs n)" for n f
    proof -
      from that obtain e where "e \<in> set ?rows" "fst (fst e) = int n" "of_int (snd (fst e)) = f"
        by (auto simp: r(3) rows_of_def row_post_def)
      then show ?thesis unfolding r(5) by (intro CollectI exI [of _ e]) simp
    qed
    ultimately show ?thesis using True unf by (intro exI [of _ cs] exI [of _ refs]) (simp add: chunks_full_def)
  next
    case t: False
    have tpos: "t > 0" using k(2) by (simp add: t_def)
    obtain cs where r: "fold_opt (load_worker db N k t) [0..<t] (replicate k (Some new_chunk), []) = Some (cs, [])"
      "chunks_full k cs" "\<And>n. chunk_entry cs n = (if n < k * t div t * CHUNK_SIZE then rows_of n ?rows else [])"
      using load_workers [OF rows k(1) full(1,2), of t t] by blast
    have none: "rows_of n ?rows = []" if "\<not> n < k * CHUNK_SIZE" for n
    proof -
      have "fst (fst e) \<noteq> int n" if "e \<in> set ?rows" for e
        using ok posting_row_okD [of N e] that \<open>\<not> n < k * CHUNK_SIZE\<close> k(1) by auto
      then show ?thesis by (simp add: rows_of_def filter_empty_conv)
    qed
    have e: "chunk_entry cs n = rows_of n ?rows" for n using r(3) none tpos by auto
    have "of_nat n \<in> set (refs_of (collect_refs N cs) f)" if "f \<in> p_fileId ` set (chunk_entry cs n)" for n f
    proof -
      from that obtain x where "x \<in> set ?rows" "fst (fst x) = int n" by (auto simp: e rows_of_def)
      then have "n < N" using ok posting_row_okD [of N x] by auto
      with that k(1) r(2) show ?thesis unfolding collect_refs_set by (auto simp: chunks_full_def)
    qed
    then show ?thesis using t unf r(1,2) e collect_refs_set(2) [of N cs]
      by (intro exI [of _ cs] exI [of _ "collect_refs N cs"]) (simp add: chunks_full_def)
  qed
qed

section \<open>A sorted table gives the lists back\<close>

lemma sorted_wrt_unique:
  assumes "sorted_wrt R xs" and "sorted_wrt R ys" and "set xs = set ys" and "\<And>x y. R x y \<Longrightarrow> \<not> R y x"
  shows "xs = ys"
  using assms
proof (induction xs arbitrary: ys)
  case (Cons x xs)
  then obtain y ys' where ys: "ys = y # ys'" by (cases ys) auto
  have irr: "\<not> R z z" for z using Cons.prems(4) by blast
  have "x = y" using Cons.prems ys by (metis list.set_intros(1) set_ConsD sorted_wrt.simps(2))
  moreover have "set xs = set ys'"
    using Cons.prems(1-3) ys \<open>x = y\<close> irr by (metis insert_ident list.simps(15) sorted_wrt.simps(2))
  ultimately show ?case using Cons ys by auto
qed simp

lemma sort_key_strict: "distinct (map f xs) \<Longrightarrow> sorted_wrt (\<lambda>x y. f x < f y) (sort_key f xs)"
  using strict_sorted_iff [of "map f (sort_key f xs)"] sorted_sort_key [of f xs]
  by (simp add: sorted_wrt_map distinct_map)

lemma uint_bounds: "uint (x :: u32) < 2 ^ 32" "uint (c :: u16) < 2 ^ 16"
  using unsigned_less [of x, where 'a = int] unsigned_less [of c, where 'a = int] by simp_all

lemma rows_of_sorted:
  assumes "um_ok P" and "\<forall>e \<in> set P. posting_row_ok N e"
  shows "pl_invar (rows_of n (sort_key fst P))"
proof -
  let ?R = "\<lambda>p q. p_fileId p < p_fileId q"
  let ?rows = "filter (\<lambda>e. fst (fst e) = int n) (sort_key fst P)"
  have "sorted_wrt (\<lambda>d e. fst d < fst e) (sort_key fst P)"
    using assms(1) by (intro sort_key_strict) (simp add: um_ok_def)
  then have "sorted_wrt (\<lambda>d e. fst d < fst e) ?rows" by (rule sorted_wrt_filter)
  then have "sorted_wrt (\<lambda>d e. ?R (row_post d) (row_post e)) ?rows"
  proof (rule sorted_wrt_mono_rel [rotated])
    fix d e assume *: "d \<in> set ?rows" "e \<in> set ?rows" "fst d < fst e"
    then have "posting_row_ok N d" "posting_row_ok N e" "fst (fst d) = fst (fst e)" using assms(2) by auto
    with *(3) posting_row_okD [of N d] posting_row_okD [of N e] have "0 \<le> snd (fst d)" "snd (fst d) < snd (fst e)"
        "snd (fst e) < 2 ^ 32" by (auto simp: less_prod_def)
    then show "?R (row_post d) (row_post e)"
      by (simp add: row_post_def word_less_def unsigned_of_int take_bit_int_eq_self)
  qed
  then show ?thesis by (simp add: rows_of_def sorted_wrt_map pl_invar_def)
qed

lemma rows_of_words:
  assumes "um_ok P" and "\<forall>e \<in> set P. posting_row_ok N e" and "set P = (\<Union>n. set (posting_rows (n, L n)))"
    and "\<And>n. pl_invar (L n)"
  shows "rows_of n (sort_key fst P) = L n"
proof -
  let ?R = "\<lambda>p q. p_fileId p < p_fileId q"
  have post: "row_post ((int n, int (unat (p_fileId p))), uint (p_cnt p)) = p" for p
    by (simp add: row_post_def)
  have "sorted_wrt ?R (rows_of n (sort_key fst P))"
    using rows_of_sorted [OF assms(1,2), of n] by (simp add: pl_invar_def sorted_wrt_map)
  moreover have "sorted_wrt ?R (L n)" using assms(4) by (simp add: pl_invar_def sorted_wrt_map)
  moreover have "set (rows_of n (sort_key fst P)) = set (L n)"
  proof -
    have "{e \<in> set P. fst (fst e) = int n} = set (posting_rows (n, L n))"
      unfolding assms(3) by (auto simp: posting_rows_def)
    then show ?thesis using post by (simp add: rows_of_def) (simp add: posting_rows_def image_image)
  qed
  ultimately show ?thesis by (rule sorted_wrt_unique) auto
qed

section \<open>The documents\<close>

definition doc_entry :: "document_record \<Rightarrow> int \<times> doc_row" where
  "doc_entry d = (int (unat (dr_id d)),
     \<lparr>dw_path = (case path_text (dr_path d) of Inl _ \<Rightarrow> [] | Inr p8 \<Rightarrow> p8), dw_mtime = sint (dr_mtimeTicks d),
      dw_size = sint (dr_size d), dw_deleted = dr_deleted d\<rparr>)"

definition raw_of :: "document_record \<Rightarrow> raw_row" where
  "raw_of d = \<lparr>rr_id = dr_id d, rr_path = dr_path d, rr_mtimeTicks = dr_mtimeTicks d, rr_fsize = dr_size d,
     rr_deleted = dr_deleted d\<rparr>"

definition docs_small :: "document_record list \<Rightarrow> bool" where
  "docs_small rows \<longleftrightarrow> distinct (map dr_id rows) \<and> distinct (map dr_path rows) \<and>
     (\<forall>d \<in> set rows. unat (dr_id d) < 2 ^ 31 \<and> path_ok (dr_path d))"

lemma doc_entry_path:
  assumes "path_ok (dr_path d)"
  shows "path_text (dr_path d) = Inr (dw_path (snd (doc_entry d)))"
    and "utf8_to_wstring (dw_path (snd (doc_entry d))) = Inr (dr_path d)"
  using path_text_ok [OF assms] by (auto simp: doc_entry_def)

lemma doc_paths_distinct:
  assumes docs: "docs_small rows"
  shows "distinct (map (\<lambda>e. dw_path (snd e)) (map doc_entry rows))"
proof -
  have "inj_on (\<lambda>d. dw_path (snd (doc_entry d))) (set rows)"
  proof (rule inj_onI)
    fix x y assume *: "x \<in> set rows" "y \<in> set rows" "dw_path (snd (doc_entry x)) = dw_path (snd (doc_entry y))"
    then have "path_ok (dr_path x)" "path_ok (dr_path y)" using docs by (auto simp: docs_small_def)
    then have "dr_path x = dr_path y" using *(3) doc_entry_path(1) path_text_inj by metis
    then show "x = y" using *(1,2) docs by (auto simp: docs_small_def distinct_map dest: inj_onD)
  qed
  then show ?thesis using docs by (simp add: docs_small_def distinct_map comp_def)
qed

lemma save_docs_table:
  assumes "docs_small rows" and "db_docs db = []"
  shows "fold_opt save_doc rows db = Some (db\<lparr>db_docs := map doc_entry rows\<rparr>)"
  using assms(1)
proof (induction rows rule: rev_induct)
  case Nil
  then show ?case using assms(2) by simp
next
  case (snoc d rows)
  let ?db = "db\<lparr>db_docs := map doc_entry rows\<rparr>"
  have small: "docs_small rows" and d: "unat (dr_id d) < 2 ^ 31" "path_ok (dr_path d)"
    and new: "dr_id d \<notin> dr_id ` set rows" "dr_path d \<notin> dr_path ` set rows"
    using snoc.prems by (auto simp: docs_small_def)
  have "\<not> path_taken (bind_int (dr_id d)) (dw_path (snd (doc_entry d))) ?db"
  proof
    assume "path_taken (bind_int (dr_id d)) (dw_path (snd (doc_entry d))) ?db"
    then obtain x where x: "x \<in> set rows" "dw_path (snd (doc_entry x)) = dw_path (snd (doc_entry d))"
      by (auto simp: path_taken_def list_ex_iff)
    then have "path_ok (dr_path x)" using small by (simp add: docs_small_def)
    then have "dr_path x = dr_path d"
      using x(2) doc_entry_path(1) [of x] doc_entry_path(1) [OF d(2)] d(2) path_text_inj by metis
    with x(1) new(2) show False by (metis imageI)
  qed
  moreover have "um_find (map doc_entry rows) (int (unat (dr_id d))) = None"
    using new(1) by (auto simp: um_find_None_iff doc_entry_def image_iff word_uint_eq_iff)
  then have ins: "ins_new (int (unat (dr_id d))) r (map doc_entry rows) = Some (map doc_entry rows @ [(int (unat (dr_id d)), r)])" for r
    by (simp only: ins_new_def option.case um_put_new)
  ultimately have "save_doc d ?db = Some (db\<lparr>db_docs := map doc_entry rows @ [(int (unat (dr_id d)),
      \<lparr>dw_path = dw_path (snd (doc_entry d)), dw_mtime = sint (dr_mtimeTicks d), dw_size = sint (dr_size d), dw_deleted = dr_deleted d\<rparr>)]\<rparr>)"
    unfolding save_doc_def bind_int_small [OF d(1)] doc_entry_path(1) [OF d(2)] by (simp add: ins del: map_map)
  moreover have "(int (unat (dr_id d)), \<lparr>dw_path = dw_path (snd (doc_entry d)), dw_mtime = sint (dr_mtimeTicks d),
      dw_size = sint (dr_size d), dw_deleted = dr_deleted d\<rparr>) = doc_entry d" by (simp add: doc_entry_def)
  ultimately have "save_doc d ?db = Some (db\<lparr>db_docs := map doc_entry (rows @ [d])\<rparr>)" by simp
  with snoc.IH [OF small] show ?case by (simp add: fold_opt_append)
qed

lemma load_docs_table:
  assumes "docs_small rows" and "db_docs db = map doc_entry rows"
  shows "\<exists>docs. load_docs db = Some docs \<and> sorted_wrt (<) (map rr_id docs) \<and> set docs = raw_of ` set rows"
proof -
  let ?L = "sort_key fst (map doc_entry rows)"
  have "?L \<in> lists (doc_entry ` set rows)" by auto
  then obtain ds where ds: "?L = map doc_entry ds" "set ds \<subseteq> set rows"
    unfolding lists_image by auto
  have inj: "inj_on doc_entry (set rows)"
    using assms(1) by (auto simp: docs_small_def inj_on_def doc_entry_def distinct_map word_uint_eq_iff)
  have "doc_entry ` set ds = doc_entry ` set rows" using arg_cong [OF ds(1), of set] by simp
  then have sets: "set ds = set rows" using inj ds(2) by (simp add: inj_on_image_eq_iff)
  have "fold_opt load_doc (map doc_entry ds) rs = Some (rs @ map raw_of ds)" if "set ds \<subseteq> set rows" for ds rs
    using that
  proof (induction ds arbitrary: rs)
    case (Cons d ds)
    then have "unat (dr_id d) < 2 ^ 31" "path_ok (dr_path d)" using assms(1) by (auto simp: docs_small_def)
    then have "load_doc (doc_entry d) rs = Some (rs @ [raw_of d])"
      using doc_entry_path(2) [of d] uint_bounds(1) [of "dr_id d"] by (auto simp: load_doc_def raw_of_def doc_entry_def)
    with Cons show ?case by simp
  qed simp
  from this [OF ds(2), of "[]"] have load: "load_docs db = Some (map raw_of ds)"
    using assms(2) ds(1) by (simp add: load_docs_def)
  have "distinct (map fst (map doc_entry rows))"
    using assms(1) by (auto simp: docs_small_def doc_entry_def distinct_map inj_on_def word_uint_eq_iff)
  then have "sorted_wrt (<) (map fst ?L)" unfolding sorted_wrt_map by (rule sort_key_strict)
  then have "sorted_wrt (<) (map rr_id (map raw_of ds))"
    unfolding ds(1) by (simp add: sorted_wrt_map doc_entry_def raw_of_def word_less_def)
  with load sets show ?thesis by auto
qed

section \<open>The round trip\<close>

text \<open>What the tables can hold: at most \<open>2^31\<close> words without zero bytes, documents with distinct
  paths, and postings of documents that have a row.\<close>

definition persistable :: "inverted_index \<Rightarrow> document_record list \<Rightarrow> bool" where
  "persistable s rows \<longleftrightarrow> index_ok s \<and> wid_size (ii_wordIds s) \<le> 2 ^ 31 \<and> docs_small rows \<and>
     (\<forall>w \<in> set (id2word (ii_wordIds s)). CHR 0x00 \<notin> set w) \<and>
     (\<forall>n. p_fileId ` set (word_list s n) \<subseteq> dr_id ` set rows)"

definition saved_db :: "inverted_index \<Rightarrow> document_record list \<Rightarrow> index_db" where
  "saved_db s rows =
     \<lparr>db_words = map (\<lambda>n. (int n, id2word (ii_wordIds s) ! n)) [0..<wid_size (ii_wordIds s)],
      db_docs = map doc_entry rows, db_postings = concat (map posting_rows (save_lists s))\<rparr>"

lemma persistable_small:
  assumes "persistable s rows" and "e \<in> set (save_lists s)"
  shows "list_small e"
proof -
  have ok: "index_ok s" and docs: "docs_small rows" using assms(1) by (auto simp: persistable_def)
  note e = save_lists_rows(3) [OF ok assms(2)]
  have "unat (p_fileId p) < 2 ^ 31" if "p \<in> set (snd e)" for p
  proof -
    have "p_fileId p \<in> dr_id ` set rows" using assms(1) that e unfolding persistable_def by (metis image_subset_iff)
    then show ?thesis using docs by (auto simp: docs_small_def)
  qed
  then show ?thesis using e index_okD(3) [OF ok, of "fst e"] assms(1) by (simp add: list_small_def persistable_def)
qed

lemma save_persistable:
  assumes "persistable s rows" and "initSchema old"
  shows "save s rows old = Some (saved_db s rows)"
proof -
  have ok: "index_ok s" and docs: "docs_small rows" and sz: "wid_size (ii_wordIds s) \<le> 2 ^ 31"
    and nul: "\<And>w. w \<in> set (id2word (ii_wordIds s)) \<Longrightarrow> c_str w = w"
    using assms(1) by (auto simp: persistable_def c_str_def takeWhile_eq_all_conv)
  have "map (\<lambda>n. (int n, c_str (wid_byId (ii_wordIds s) (of_nat n)))) [0..<wid_size (ii_wordIds s)] = db_words (saved_db s rows)"
    using sz nul by (auto simp: saved_db_def wid_byId_def wid_size_def unat_of_nat_u32)
  then have "save_words (ii_wordIds s) = Some (db_words (saved_db s rows))" using save_words_table [OF sz] by simp
  moreover have "fold_opt writePostingList (save_lists s) [] = Some (db_postings (saved_db s rows))"
    using save_postings_table [OF save_lists_rows(1) [OF ok]] persistable_small [OF assms(1)] by (simp add: saved_db_def)
  ultimately show ?thesis
    using assms(2) save_docs_table [OF docs, of "db_empty\<lparr>db_words := ws\<rparr>" for ws]
    by (simp add: save_def db_empty_def) (simp add: saved_db_def)
qed

lemma saved_postings:
  assumes "persistable s rows"
  shows "um_ok (db_postings (saved_db s rows))"
    and "set (db_postings (saved_db s rows)) = (\<Union>n. set (posting_rows (n, word_list s n)))"
    and "\<forall>e \<in> set (db_postings (saved_db s rows)). posting_row_ok (wid_size (ii_wordIds s)) e"
    and "initSchema (saved_db s rows)"
proof -
  have ok: "index_ok s" and docs: "docs_small rows" using assms by (auto simp: persistable_def)
  show "um_ok (db_postings (saved_db s rows))"
    using posting_rows_distinct [OF save_lists_rows(1) [OF ok]] persistable_small [OF assms] by (simp add: saved_db_def)
  show sets: "set (db_postings (saved_db s rows)) = (\<Union>n. set (posting_rows (n, word_list s n)))"
    using save_lists_rows(2) [OF ok] by (simp add: saved_db_def)
  have row: "posting_row_ok (wid_size (ii_wordIds s)) e \<and> um_find (map doc_entry rows) (snd (fst e)) \<noteq> None"
    if "e \<in> set (db_postings (saved_db s rows))" for e
  proof -
    from that sets obtain n p where p: "p \<in> set (word_list s n)" "e = ((int n, int (unat (p_fileId p))), uint (p_cnt p))"
      by (auto simp: posting_rows_def)
    then have "n < wid_size (ii_wordIds s)" using index_okD(4) [OF ok, of n] by (cases "n < wid_size (ii_wordIds s)") auto
    moreover have "p_fileId p \<in> dr_id ` set rows" using p(1) assms unfolding persistable_def by (metis image_subset_iff)
    then have "snd (fst e) \<in> fst ` set (map doc_entry rows)" using p(2) by (auto simp: doc_entry_def image_iff)
    ultimately show ?thesis using p(2) uint_bounds(1) [of "p_fileId p"] uint_bounds(2) [of "p_cnt p"]
      by (simp add: posting_row_ok_def um_find_None_iff)
  qed
  then show "\<forall>e \<in> set (db_postings (saved_db s rows)). posting_row_ok (wid_size (ii_wordIds s)) e" by blast
  have "distinct (map (\<lambda>e. dw_path (snd e)) (map doc_entry rows))" by (rule doc_paths_distinct [OF docs])
  then show "initSchema (saved_db s rows)" using row by (simp add: initSchema_def list_all_iff saved_db_def)
qed

text \<open>Both numberings know the same words under the same numbers.\<close>

lemma tryGet_eq:
  assumes "wid_invar a" and "wid_invar b" and "id2word a = id2word b"
  shows "wid_tryGet a w = wid_tryGet b w"
proof (rule option.expand)
  have "um_find (word2id a) w = Some i \<longleftrightarrow> um_find (word2id b) w = Some i" for i
    using assms by (simp add: wid_invar_def)
  then have "um_find (word2id a) w = um_find (word2id b) w" by (metis not_None_eq)
  then show "(wid_tryGet a w = None) = (wid_tryGet b w = None)"
    "wid_tryGet a w \<noteq> None \<Longrightarrow> wid_tryGet b w \<noteq> None \<Longrightarrow> the (wid_tryGet a w) = the (wid_tryGet b w)"
    by (simp_all add: wid_tryGet_def)
qed

text \<open>What a load makes of three consistent tables.\<close>

lemma load_tables:
  assumes words: "db_words db = map (\<lambda>n. (int n, ws ! n)) [0..<length ws]" "distinct ws" "length ws \<le> 2 ^ 32"
    and docs: "db_docs db = map doc_entry rows" "docs_small rows"
    and posts: "um_ok (db_postings db)" "\<forall>e \<in> set (db_postings db). posting_row_ok (length ws) e"
    and schema: "initSchema db"
  shows "\<exists>idx docs. load threads precount db = Some (idx, docs) \<and> ii_invar idx \<and> id2word (ii_wordIds idx) = ws \<and>
    (\<forall>n. word_list idx n = rows_of n (sort_key fst (db_postings db))) \<and>
    sorted_wrt (<) (map rr_id docs) \<and> set docs = raw_of ` set rows"
proof -
  have lw: "load_words db = Some ws" by (rule load_words_table [OF words(3,1)])
  obtain ds where ds: "load_docs db = Some ds" "sorted_wrt (<) (map rr_id ds)" "set ds = raw_of ` set rows"
    using load_docs_table [OF docs(2,1)] by blast
  have pre: "precount_ok db (length ws)"
    unfolding precount_ok_def list_all_iff using posts(2) posting_row_okD by blast
  obtain cs refs where cs: "load_postings threads db (length ws) = Some (cs, refs)" "chunks_wf cs" "um_ok refs"
    "\<And>n. chunk_entry cs n = rows_of n (sort_key fst (db_postings db))"
    "\<And>n f. f \<in> p_fileId ` set (chunk_entry cs n) \<Longrightarrow> of_nat n \<in> set (refs_of refs f)"
    using load_postings_ok [OF posts(2) words(3), of threads] by blast
  let ?ids = "\<lparr>word2id = build_word2id ws, id2word = ws\<rparr>"
  let ?idx = "\<lparr>ii_wordIds = ?ids, ii_chunks = cs, ii_dictionary = [], ii_wordRefs = refs\<rparr>"
  have ids: "wid_invar ?ids" using build_word2id_find [OF words(2,3)] words(3) by (simp add: wid_invar_def)
  have "ii_invar ?idx"
  proof (rule ii_invarI)
    show "pl_invar (chunk_entry (ii_chunks ?idx) n)" for n using cs(4) rows_of_sorted [OF posts] by simp
    show "chunk_entry (ii_chunks ?idx) n = []" if "wid_size (ii_wordIds ?idx) \<le> n" for n
    proof -
      have "fst (fst e) \<noteq> int n" if "e \<in> set (db_postings db)" for e
        using posts(2) that posting_row_okD [of "length ws" e] \<open>wid_size (ii_wordIds ?idx) \<le> n\<close>
        by (auto simp: wid_size_def)
      then show ?thesis using cs(4) by (simp add: rows_of_def filter_empty_conv)
    qed
    show "of_nat n \<in> set (refs_of (ii_wordRefs ?idx) f)" if "pl_map (chunk_entry (ii_chunks ?idx) n) f \<noteq> None" for n f
      using cs(5) that by (simp add: pl_map_None)
  qed (use ids cs(2,3) in simp_all)
  moreover have "load threads precount db = Some (?idx, ds)"
    using schema lw ds(1) pre cs(1) by (simp add: load_def)
  ultimately show ?thesis using cs(4) ds(2,3) by (intro exI [of _ ?idx] exI [of _ ds]) (simp add: word_list_def)
qed

lemma load_saved:
  assumes "persistable s rows"
  shows "\<exists>idx docs. load threads precount (saved_db s rows) = Some (idx, docs) \<and> ii_invar idx \<and>
    (\<forall>w. getPostingCopyByWord idx w = getPostingCopyByWord s w) \<and>
    sorted_wrt (<) (map rr_id docs) \<and> set docs = raw_of ` set rows"
proof -
  let ?db = "saved_db s rows" and ?ws = "id2word (ii_wordIds s)"
  have ok: "index_ok s" and docs: "docs_small rows" and sz: "length ?ws \<le> 2 ^ 32"
    using assms by (auto simp: persistable_def wid_size_def)
  have inv: "wid_invar (ii_wordIds s)" by (rule index_okD(1) [OF ok])
  note post = saved_postings [OF assms, unfolded wid_size_def]
  obtain idx ds where r: "load threads precount ?db = Some (idx, ds)" "ii_invar idx" "id2word (ii_wordIds idx) = ?ws"
    "\<And>n. word_list idx n = rows_of n (sort_key fst (db_postings ?db))"
    "sorted_wrt (<) (map rr_id ds)" "set ds = raw_of ` set rows"
    using load_tables [OF _ wid_invar_distinct [OF inv] sz _ docs post(1,3,4), of threads precount]
    by (auto simp: saved_db_def wid_size_def)
  have entry: "word_list idx n = word_list s n" for n
    unfolding r(4) by (rule rows_of_words [OF post(1,3,2)]) (rule index_okD(3) [OF ok])
  have "wid_invar (ii_wordIds idx)" using r(2) by (simp add: ii_invar_def ii_base_def)
  then have "getPostingCopyByWord idx w = getPostingCopyByWord s w" for w
    using tryGet_eq [OF _ inv r(3), of w] entry
    by (simp add: getPosting_WordCount getWordCount_word_list split: option.split)
  then show ?thesis using r by blast
qed

text \<open>C18: an index that is saved is the index the next start loads, whatever the number of readers
  and whether postings are counted first: the same postings for every word, back references
  that cover every posting, and the document rows in the order of their ids. The conditions are
  those of the tables: ids below \<open>2^31\<close>, words without zero bytes, well-formed distinct paths, and a
  document row for every posting.\<close>

theorem save_load_roundtrip:
  assumes "persistable s rows" and "initSchema old"
  shows "\<exists>db. save s rows old = Some db \<and>
    (\<exists>idx docs. load threads precount db = Some (idx, docs) \<and> ii_invar idx \<and>
      (\<forall>w. getPostingCopyByWord idx w = getPostingCopyByWord s w) \<and>
      sorted_wrt (<) (map rr_id docs) \<and> set docs = raw_of ` set rows)"
  using save_persistable [OF assms] load_saved [OF assms(1)] by blast

definition ex_rows :: "document_record list" where
  "ex_rows = [\<lparr>dr_id = 7, dr_path = [67, 58, 97], dr_mtimeTicks = 11, dr_size = 2, dr_deleted = False\<rparr>,
     \<lparr>dr_id = 3, dr_path = [67, 58, 98], dr_mtimeTicks = 12, dr_size = 5, dr_deleted = True\<rparr>]"

definition ex_index :: inverted_index where
  "ex_index = \<lparr>ii_wordIds = \<lparr>word2id = [(''A'', 0)], id2word = [''A'']\<rparr>, ii_chunks = [],
     ii_dictionary = [[\<lparr>p_fileId = 7, p_cnt = 2\<rparr>]], ii_wordRefs = [(7, [0])]\<rparr>"

lemma ex_index_persistable: "persistable ex_index ex_rows"
proof -
  have "wid_invar (ii_wordIds ex_index)"
    by (auto simp: ex_index_def wid_invar_def um_ok_def um_find_def unsigned_eq_0_iff)
  then have "index_ok ex_index"
    by (auto simp: index_ok_def flat_invar_def ex_index_def wid_size_def um_ok_def pl_invar_def refs_of_def um_find_def
      pl_map_def split: if_splits)
  moreover have "docs_small ex_rows"
    by (auto simp: docs_small_def ex_rows_def path_ok_def is_lead_surrogate_def is_trail_surrogate_def word_le_nat_alt)
  ultimately show ?thesis
    by (auto simp: persistable_def ex_index_def ex_rows_def wid_size_def word_list_def)
qed

lemma save_load_roundtrip_witness:
  "\<exists>db idx docs. save ex_index ex_rows db_empty = Some db \<and> load 4 True db = Some (idx, docs) \<and>
     getPostingCopyByWord idx ''A'' = Some [\<lparr>p_fileId = 7, p_cnt = 2\<rparr>] \<and> set docs = raw_of ` set ex_rows"
proof -
  have "initSchema db_empty" by (simp add: initSchema_def db_empty_def)
  moreover have "getPostingCopyByWord ex_index ''A'' = Some [\<lparr>p_fileId = 7, p_cnt = 2\<rparr>]"
    by (simp add: getPostingCopyByWord_def ex_index_def wid_tryGet_def um_find_def)
  ultimately show ?thesis using save_load_roundtrip [OF ex_index_persistable, of db_empty 4 True] by metis
qed

end
