(* ===== verification/LiveMirror.thy ===== *)
theory LiveMirror
  imports SQLiteIndexDb "HOL-Library.Sublist"
begin

text \<open>
  The live mirror of the index (\<open>src/src/Index/SQLiteIndexSerializer.cpp\<close>: \<open>startWriter\<close>,
  \<open>stopWriter\<close>, \<open>writerLoop\<close>, \<open>enqueueOp\<close>, \<open>writeFile\<close>, \<open>markFileDeleted\<close>,
  \<open>flushPending\<close>, \<open>checkpoint\<close>): clients put operations into a queue, one writer thread takes
  the whole queue as a batch and writes it in one transaction.

  A step is one critical section of \<open>queueMutex_\<close> or one transaction, so every interleaving of
  the clients with the writer is a sequence of steps. The timed wait at the head of the loop may
  end at any time. A transaction or a checkpoint may fail for reasons of the storage; that is a
  choice of the step. Two ghost fields record what happened: the operations accepted from
  clients and the batches committed.
\<close>

section \<open>A store that is written in batches\<close>

text \<open>What the mirror needs of the transaction: on a good state a batch of good operations succeeds
  and changes every key by its operations in order. Then a sequence of batches does what all the
  operations do one after the other, however they were cut into batches.\<close>

locale batch_store =
  fixes commit :: "'op list \<Rightarrow> 'db \<Rightarrow> 'db option"
    and ok :: "'db \<Rightarrow> bool" and good :: "'op \<Rightarrow> bool"
    and view :: "'db \<Rightarrow> 'k \<Rightarrow> 'v" and effect :: "'op \<Rightarrow> 'v \<Rightarrow> 'v" and key :: "'op \<Rightarrow> 'k"
  assumes commit_good: "ok db \<Longrightarrow> (\<And>op. op \<in> set b \<Longrightarrow> good op) \<Longrightarrow>
    \<exists>db'. commit b db = Some db' \<and> ok db' \<and> (\<forall>k. view db' k = fold effect (filter (\<lambda>op. key op = k) b) (view db k))"
begin

lemma batches:
  assumes "ok db" and "\<And>op. op \<in> set (concat bs) \<Longrightarrow> good op"
  shows "\<exists>db'. fold_opt commit bs db = Some db' \<and> ok db' \<and>
    (\<forall>k. view db' k = fold effect (filter (\<lambda>op. key op = k) (concat bs)) (view db k))"
  using assms
proof (induction bs arbitrary: db)
  case (Cons b bs)
  obtain db1 where 1: "commit b db = Some db1" "ok db1"
    "\<And>k. view db1 k = fold effect (filter (\<lambda>op. key op = k) b) (view db k)"
    using commit_good [OF Cons.prems(1), of b] Cons.prems(2) by auto
  obtain db2 where "fold_opt commit bs db1 = Some db2" "ok db2"
    "\<And>k. view db2 k = fold effect (filter (\<lambda>op. key op = k) (concat bs)) (view db1 k)"
    using Cons.IH [OF 1(2)] Cons.prems(2) by auto
  with 1 show ?case by simp
qed simp

text \<open>The cut into batches does not matter.\<close>

lemma batching_irrelevant:
  assumes "ok db" and "\<And>op. op \<in> set (concat bs) \<Longrightarrow> good op" and "concat bs = concat cs"
  shows "\<exists>d e. fold_opt commit bs db = Some d \<and> fold_opt commit cs db = Some e \<and> view d = view e"
proof -
  obtain d where d: "fold_opt commit bs db = Some d"
    "\<And>k. view d k = fold effect (filter (\<lambda>op. key op = k) (concat bs)) (view db k)"
    using batches [OF assms(1,2)] by blast
  obtain e where e: "fold_opt commit cs db = Some e"
    "\<And>k. view e k = fold effect (filter (\<lambda>op. key op = k) (concat cs)) (view db k)"
    using batches [OF assms(1), of cs] assms(2,3) by auto
  have "view d = view e" using d(2) e(2) assms(3) by (simp add: fun_eq_iff)
  with d(1) e(1) show ?thesis by blast
qed

end

interpretation live: batch_store writeBatch "\<lambda>db. docs_fit pth db \<and> inj pth" "op_fits pth" file_view op_effect lo_fileId
  for pth
proof
  fix db b
  assume "docs_fit pth db \<and> inj pth" and "\<And>op. op \<in> set b \<Longrightarrow> op_fits pth op"
  then show "\<exists>db'. writeBatch b db = Some db' \<and> (docs_fit pth db' \<and> inj pth) \<and>
      (\<forall>k. file_view db' k = fold op_effect (filter (\<lambda>op. lo_fileId op = k) b) (file_view db k))"
    using writeBatch_ok [of pth db b] by blast
qed

section \<open>The state of the serializer\<close>

text \<open>Where the writer thread is: not created, before the first critical section of the loop, about to
  write its batch, about to run the checkpoint, before the last critical section, or ended.\<close>

datatype writer_pc =
  NotStarted
| LoopHead
| WriteBatch "live_op list" bool
| Checkpointing
| LoopTail
| Ended

record mirror =
  mr_queue :: "live_op list"
  mr_stop :: bool
  mr_flushNow :: bool
  mr_requestCheckpoint :: bool
  mr_writerActive :: bool
  mr_writerStarted :: bool
  mr_writerError :: bool
  mr_pc :: writer_pc
  mr_db :: index_db
  mr_accepted :: "live_op list"
  mr_committed :: "live_op list list"

definition mirror_init :: "index_db \<Rightarrow> mirror" where
  "mirror_init db = \<lparr>mr_queue = [], mr_stop = False, mr_flushNow = False, mr_requestCheckpoint = False,
     mr_writerActive = False, mr_writerStarted = False, mr_writerError = False, mr_pc = NotStarted,
     mr_db = db, mr_accepted = [], mr_committed = []\<rparr>"

section \<open>The client operations\<close>

text \<open>\<open>startWriter\<close> opens and checks the database before the thread exists; \<open>None\<close> is the exception.\<close>

definition startWriter :: "mirror \<Rightarrow> mirror option" where
  "startWriter s =
     (if mr_writerStarted s then Some s
      else if \<not> initSchema (mr_db s) then None
      else Some (s\<lparr>mr_writerStarted := True, mr_pc := LoopHead\<rparr>))"

definition enqueueOp :: "int \<Rightarrow> live_op \<Rightarrow> mirror \<Rightarrow> mirror option" where
  "enqueueOp maxPendingOps op s =
     (if mr_writerError s then None
      else let q = mr_queue s @ [op]
           in Some (s\<lparr>mr_queue := q,
                mr_flushNow := mr_flushNow s \<or> (maxPendingOps > 0 \<and> int (length q) \<ge> maxPendingOps),
                mr_accepted := mr_accepted s @ [op]\<rparr>))"

definition writeFile ::
  "u32 \<Rightarrow> wstring \<Rightarrow> ticks \<Rightarrow> u64 \<Rightarrow> (u32 \<times> u16) list \<Rightarrow> (u32 \<times> string) list \<Rightarrow> live_op" where
  "writeFile fileId path mtimeTicks fsize widCounts newWords =
     \<lparr>lo_kind = Write, lo_fileId = fileId, lo_path = path, lo_mtimeTicks = mtimeTicks, lo_size = fsize,
      lo_widCounts = widCounts, lo_newWords = newWords, lo_markDeletedAfterWrite = False\<rparr>"

definition markFileDeleted :: "u32 \<Rightarrow> live_op" where
  "markFileDeleted fileId =
     \<lparr>lo_kind = MarkDeleted, lo_fileId = fileId, lo_path = [], lo_mtimeTicks = 0, lo_size = 0,
      lo_widCounts = [], lo_newWords = [], lo_markDeletedAfterWrite = False\<rparr>"

text \<open>\<open>flushPending\<close> raises the flag, then waits until it may return; \<open>checkpoint\<close> likewise.\<close>

definition flush_request :: "mirror \<Rightarrow> mirror option" where
  "flush_request s = (if mr_writerError s then None else Some (s\<lparr>mr_flushNow := True\<rparr>))"

definition flush_may_return :: "mirror \<Rightarrow> bool" where
  "flush_may_return s \<longleftrightarrow> \<not> mr_writerError s \<and> mr_queue s = [] \<and> \<not> mr_writerActive s"

definition checkpoint_request :: "mirror \<Rightarrow> mirror option" where
  "checkpoint_request s = (if mr_writerError s then None else Some (s\<lparr>mr_requestCheckpoint := True\<rparr>))"

definition checkpoint_may_return :: "mirror \<Rightarrow> bool" where
  "checkpoint_may_return s \<longleftrightarrow> \<not> mr_writerError s \<and> \<not> mr_requestCheckpoint s \<and> \<not> mr_writerActive s"

text \<open>\<open>stopWriter\<close> before and after the join.\<close>

definition stop_request :: "mirror \<Rightarrow> mirror" where
  "stop_request s = s\<lparr>mr_stop := True, mr_flushNow := True\<rparr>"

definition stop_joined :: "mirror \<Rightarrow> mirror" where
  "stop_joined s = s\<lparr>mr_writerStarted := False, mr_stop := False, mr_pc := NotStarted\<rparr>"

section \<open>The writer thread\<close>

definition drained :: "mirror \<Rightarrow> bool" where
  "drained s \<longleftrightarrow> mr_stop s \<and> mr_queue s = [] \<and> \<not> mr_requestCheckpoint s"

definition writer_take :: "mirror \<Rightarrow> mirror" where
  "writer_take s =
     (if drained s then s\<lparr>mr_pc := Ended\<rparr>
      else let batch = mr_queue s; doCheckpoint = mr_requestCheckpoint s
           in s\<lparr>mr_queue := [], mr_flushNow := False,
                mr_writerActive := (batch \<noteq> [] \<or> doCheckpoint), mr_pc := WriteBatch batch doCheckpoint\<rparr>)"

definition write_failed :: "mirror \<Rightarrow> mirror" where
  "write_failed s = s\<lparr>mr_writerError := True, mr_queue := [], mr_writerActive := False,
     mr_requestCheckpoint := False, mr_stop := True, mr_pc := Ended\<rparr>"

definition writer_write :: "bool \<Rightarrow> live_op list \<Rightarrow> bool \<Rightarrow> mirror \<Rightarrow> mirror" where
  "writer_write storage_ok batch doCheckpoint s =
     (let next = (if doCheckpoint then Checkpointing else LoopTail)
      in if batch = [] then s\<lparr>mr_pc := next\<rparr>
         else if \<not> storage_ok then write_failed s
         else (case writeBatch batch (mr_db s) of
                 None \<Rightarrow> write_failed s
               | Some db \<Rightarrow> s\<lparr>mr_db := db, mr_writerActive := (if doCheckpoint then mr_writerActive s else False),
                   mr_pc := next, mr_committed := mr_committed s @ [batch]\<rparr>))"

definition writer_checkpoint :: "bool \<Rightarrow> mirror \<Rightarrow> mirror" where
  "writer_checkpoint storage_ok s =
     (if storage_ok
      then s\<lparr>mr_writerActive := False, mr_requestCheckpoint := False, mr_pc := LoopTail\<rparr>
      else s\<lparr>mr_writerError := True, mr_writerActive := False, mr_requestCheckpoint := False,
             mr_stop := True, mr_pc := Ended\<rparr>)"

definition writer_tail :: "mirror \<Rightarrow> mirror" where
  "writer_tail s = s\<lparr>mr_pc := (if drained s then Ended else LoopHead)\<rparr>"

text \<open>One round of the loop with a storage that does not fail.\<close>

definition writer_next :: "mirror \<Rightarrow> mirror" where
  "writer_next s =
     (case mr_pc s of
        NotStarted \<Rightarrow> s
      | LoopHead \<Rightarrow> writer_take s
      | WriteBatch batch doCheckpoint \<Rightarrow> writer_write True batch doCheckpoint s
      | Checkpointing \<Rightarrow> writer_checkpoint True s
      | LoopTail \<Rightarrow> writer_tail s
      | Ended \<Rightarrow> s)"

inductive mirror_step :: "int \<Rightarrow> mirror \<Rightarrow> mirror \<Rightarrow> bool" for maxPending where
  start: "startWriter s = Some s' \<Longrightarrow> mirror_step maxPending s s'"
| enqueue: "mr_writerStarted s \<Longrightarrow> enqueueOp maxPending op s = Some s' \<Longrightarrow> mirror_step maxPending s s'"
| flush: "mr_writerStarted s \<Longrightarrow> flush_request s = Some s' \<Longrightarrow> mirror_step maxPending s s'"
| checkpoint: "mr_writerStarted s \<Longrightarrow> checkpoint_request s = Some s' \<Longrightarrow> mirror_step maxPending s s'"
| stop: "mr_writerStarted s \<Longrightarrow> mirror_step maxPending s (stop_request s)"
| joined: "mr_pc s = Ended \<Longrightarrow> mr_stop s \<Longrightarrow> mirror_step maxPending s (stop_joined s)"
| take: "mr_pc s = LoopHead \<Longrightarrow> mirror_step maxPending s (writer_take s)"
| write_batch: "mr_pc s = WriteBatch b c \<Longrightarrow> mirror_step maxPending s (writer_write storage_ok b c s)"
| run_checkpoint: "mr_pc s = Checkpointing \<Longrightarrow> mirror_step maxPending s (writer_checkpoint storage_ok s)"
| tail: "mr_pc s = LoopTail \<Longrightarrow> mirror_step maxPending s (writer_tail s)"

inductive mirror_reach :: "int \<Rightarrow> index_db \<Rightarrow> mirror \<Rightarrow> bool" for maxPending db where
  init: "mirror_reach maxPending db (mirror_init db)"
| step: "mirror_reach maxPending db s \<Longrightarrow> mirror_step maxPending s s' \<Longrightarrow> mirror_reach maxPending db s'"

section \<open>The invariant\<close>

fun pc_batch :: "writer_pc \<Rightarrow> live_op list" where
  "pc_batch (WriteBatch b _) = b"
| "pc_batch _ = []"

fun pc_busy :: "writer_pc \<Rightarrow> bool" where
  "pc_busy (WriteBatch b c) \<longleftrightarrow> b \<noteq> [] \<or> c"
| "pc_busy Checkpointing \<longleftrightarrow> True"
| "pc_busy _ \<longleftrightarrow> False"

text \<open>No accepted operation is lost or reordered: what was accepted is what is committed, in the hands
  of the writer or queued. Only a failed transaction drops operations, and then the error is set,
  which is never cleared.\<close>

definition mirror_inv :: "index_db \<Rightarrow> mirror \<Rightarrow> bool" where
  "mirror_inv db s \<longleftrightarrow>
     (let rest = concat (mr_committed s) @ pc_batch (mr_pc s) @ mr_queue s
      in (if mr_writerError s then prefix rest (mr_accepted s) else mr_accepted s = rest)) \<and>
     fold_opt writeBatch (mr_committed s) db = Some (mr_db s) \<and>
     (mr_writerActive s \<longleftrightarrow> pc_busy (mr_pc s)) \<and>
     (mr_writerStarted s \<longleftrightarrow> mr_pc s \<noteq> NotStarted)"

lemmas mirror_defs = startWriter_def enqueueOp_def flush_request_def checkpoint_request_def stop_request_def
  stop_joined_def writer_take_def write_failed_def writer_write_def writer_checkpoint_def writer_tail_def Let_def

lemma mirror_inv_init: "mirror_inv db (mirror_init db)"
  by (simp add: mirror_inv_def mirror_init_def)

lemma mirror_step_inv:
  assumes "mirror_step maxPending s s'" and "mirror_inv db s"
  shows "mirror_inv db s'"
  using assms
proof cases
  case (write_batch b c storage_ok)
  have failed: "mirror_inv db (write_failed s)"
    using assms(2) write_batch by (auto simp: mirror_inv_def write_failed_def Let_def intro: prefixI split: if_splits dest: append_prefixD)
  show ?thesis
  proof (cases "b = [] \<or> \<not> storage_ok \<or> writeBatch b (mr_db s) = None")
    case True
    then show ?thesis using assms(2) write_batch failed
      by (auto simp: writer_write_def Let_def mirror_inv_def split: if_splits)
  next
    case False
    then show ?thesis using assms(2) write_batch
      by (auto simp: writer_write_def Let_def mirror_inv_def fold_opt_append)
  qed
qed (auto simp: mirror_inv_def mirror_defs split: if_splits)

lemma mirror_reach_inv: "mirror_reach maxPending db s \<Longrightarrow> mirror_inv db s"
  by (induction rule: mirror_reach.induct) (auto intro: mirror_inv_init mirror_step_inv)

text \<open>The writer thread does not fail on operations whose paths can be stored.\<close>

lemma committed_effect:
  assumes "mirror_inv db s" and "docs_fit pth db" and "inj pth" and "\<forall>op \<in> set (mr_accepted s). op_fits pth op"
  shows "docs_fit pth (mr_db s)"
    and "file_view (mr_db s) f =
      fold op_effect (filter (\<lambda>op. lo_fileId op = f) (concat (mr_committed s))) (file_view db f)"
proof -
  have "prefix (concat (mr_committed s) @ pc_batch (mr_pc s) @ mr_queue s) (mr_accepted s)"
    using assms(1) by (simp add: mirror_inv_def Let_def split: if_splits)
  then have "set (concat (mr_committed s)) \<subseteq> set (mr_accepted s)"
    by (metis set_mono_prefix append_prefixD)
  then have good: "\<And>op. op \<in> set (concat (mr_committed s)) \<Longrightarrow> op_fits pth op" using assms(4) by blast
  have fit: "docs_fit pth db \<and> inj pth" using assms(2,3) by blast
  have "fold_opt writeBatch (mr_committed s) db = Some (mr_db s)" using assms(1) by (simp add: mirror_inv_def)
  with live.batches [OF fit, of "mr_committed s"] good
  show "docs_fit pth (mr_db s)" "file_view (mr_db s) f =
      fold op_effect (filter (\<lambda>op. lo_fileId op = f) (concat (mr_committed s))) (file_view db f)"
    by auto
qed

lemma error_step:
  assumes "mirror_step maxPending s s'" and "mr_writerError s"
  shows "mr_writerError s' \<and> mr_accepted s' = mr_accepted s"
  using assms by cases (auto simp: mirror_defs split: if_splits option.splits)

text \<open>How many sections the writer still needs until a flush may return, when it runs alone.\<close>

fun pc_running :: "writer_pc \<Rightarrow> bool" where
  "pc_running NotStarted = False"
| "pc_running Ended = False"
| "pc_running _ = True"

definition flush_rank :: "mirror \<Rightarrow> nat" where
  "flush_rank s =
     (if flush_may_return s then 0
      else (case mr_pc s of
              LoopHead \<Rightarrow> 3 | LoopTail \<Rightarrow> 4
            | WriteBatch b c \<Rightarrow> (if mr_queue s = [] then 2 else 6)
            | Checkpointing \<Rightarrow> (if mr_queue s = [] then 1 else 5)
            | _ \<Rightarrow> 7))"

definition mirror_good :: "(u32 \<Rightarrow> wstring) \<Rightarrow> index_db \<Rightarrow> mirror \<Rightarrow> bool" where
  "mirror_good pth db s \<longleftrightarrow> mirror_inv db s \<and> \<not> mr_writerError s \<and> (\<forall>op \<in> set (mr_accepted s). op_fits pth op)"

lemma writer_next_step: "pc_running (mr_pc s) \<Longrightarrow> mirror_step maxPending s (writer_next s)"
  by (cases "mr_pc s") (auto simp: writer_next_def intro: mirror_step.intros)

lemma good_batch:
  assumes "mirror_good pth db s" and "docs_fit pth db" and "inj pth" and "mr_pc s = WriteBatch b c"
  shows "\<exists>db'. writeBatch b (mr_db s) = Some db'"
proof -
  have "\<forall>op \<in> set b. op_fits pth op" using assms(1,4) by (auto simp: mirror_good_def mirror_inv_def Let_def)
  moreover have "docs_fit pth (mr_db s)" using committed_effect(1) assms(1-3) by (auto simp: mirror_good_def)
  ultimately show ?thesis using live.commit_good [of pth "mr_db s" b] assms(3) by blast
qed

lemma writer_progress:
  assumes good: "mirror_good pth db s" and fit: "docs_fit pth db" "inj pth"
    and run: "pc_running (mr_pc s)" and wait: "\<not> flush_may_return s"
  shows "mirror_good pth db (writer_next s) \<and> flush_rank (writer_next s) < flush_rank s \<and>
    (pc_running (mr_pc (writer_next s)) \<or> flush_may_return (writer_next s))"
proof -
  have inv: "mirror_inv db (writer_next s)"
    using good mirror_step_inv [OF writer_next_step [OF run]] by (auto simp: mirror_good_def)
  have act: "mr_writerActive s \<longleftrightarrow> pc_busy (mr_pc s)" and err: "\<not> mr_writerError s"
    using good by (auto simp: mirror_good_def mirror_inv_def)
  show ?thesis
  proof (cases "mr_pc s")
    case (WriteBatch b c)
    obtain db' where "writeBatch b (mr_db s) = Some db'" using good_batch [OF good fit WriteBatch] by blast
    then show ?thesis using WriteBatch inv good act err wait
      by (auto simp: mirror_good_def writer_next_def writer_write_def flush_rank_def flush_may_return_def)
  qed (use inv good act err wait run in \<open>auto simp: mirror_good_def writer_next_def mirror_defs drained_def
      flush_rank_def flush_may_return_def\<close>)
qed

lemma writer_drains:
  assumes "docs_fit pth db" and "inj pth" and "mirror_good pth db s" and "pc_running (mr_pc s) \<or> flush_may_return s"
  shows "\<exists>n \<le> flush_rank s. flush_may_return ((writer_next ^^ n) s)"
  using assms(3,4)
proof (induction "flush_rank s" arbitrary: s rule: less_induct)
  case less
  show ?case
  proof (cases "flush_may_return s")
    case True
    then show ?thesis by (intro exI [of _ 0]) simp
  next
    case False
    with less.prems have run: "pc_running (mr_pc s)" by blast
    note p = writer_progress [OF less.prems(1) assms(1,2) run False]
    then obtain n where "n \<le> flush_rank (writer_next s)" "flush_may_return ((writer_next ^^ n) (writer_next s))"
      using less.hyps by blast
    then show ?thesis using p by (intro exI [of _ "Suc n"]) (simp add: funpow_swap1)
  qed
qed

text \<open>C19: \<open>flushPending\<close> returns only when every operation accepted so far is committed: for every file
  the tables then hold exactly what its operations do one after the other, in the order they were
  accepted, whatever the writer's batches were. Nothing is lost or reordered on the way, for every
  interleaving of clients, flushes, checkpoints and the writer.\<close>

theorem flush_makes_durable:
  assumes "mirror_reach maxPending db s" and "flush_may_return s"
    and "docs_fit pth db" and "inj pth" and "\<forall>op \<in> set (mr_accepted s). op_fits pth op"
  shows "concat (mr_committed s) = mr_accepted s \<and>
    (\<forall>f. file_view (mr_db s) f =
      fold op_effect (filter (\<lambda>op. lo_fileId op = f) (mr_accepted s)) (file_view db f))"
proof -
  note inv = mirror_reach_inv [OF assms(1)]
  have "pc_batch (mr_pc s) = []"
    using inv assms(2) by (cases "mr_pc s") (auto simp: mirror_inv_def flush_may_return_def)
  then have all: "concat (mr_committed s) = mr_accepted s"
    using inv assms(2) by (auto simp: mirror_inv_def flush_may_return_def)
  then show ?thesis using committed_effect(2) [OF inv assms(3-5)] by simp
qed

text \<open>A run with two operations and a flush.\<close>

definition ex_mirror :: mirror where
  "ex_mirror = (mirror_init db_empty)\<lparr>mr_writerStarted := True, mr_pc := LoopHead, mr_flushNow := True,
     mr_queue := [ex_op Write 1 [(0, 3)] [], ex_op MarkDeleted 1 [] []],
     mr_accepted := [ex_op Write 1 [(0, 3)] [], ex_op MarkDeleted 1 [] []]\<rparr>"

lemma ex_mirror_reach: "mirror_reach 500 db_empty ex_mirror"
proof -
  let ?i = "mirror_init db_empty"
  let ?s1 = "?i\<lparr>mr_writerStarted := True, mr_pc := LoopHead\<rparr>"
  let ?a = "ex_op Write 1 [(0, 3)] []" and ?b = "ex_op MarkDeleted 1 [] []"
  let ?s2 = "?s1\<lparr>mr_queue := [?a], mr_accepted := [?a]\<rparr>"
  let ?s3 = "?s1\<lparr>mr_queue := [?a, ?b], mr_accepted := [?a, ?b]\<rparr>"
  have 1: "mirror_step 500 ?i ?s1"
    by (rule mirror_step.start) (simp add: startWriter_def mirror_init_def initSchema_def db_empty_def)
  have 2: "mirror_step 500 ?s1 ?s2"
    by (rule mirror_step.enqueue [where op = ?a]) (simp_all add: enqueueOp_def mirror_init_def Let_def)
  have 3: "mirror_step 500 ?s2 ?s3"
    by (rule mirror_step.enqueue [where op = ?b]) (simp_all add: enqueueOp_def mirror_init_def Let_def)
  have 4: "mirror_step 500 ?s3 ex_mirror"
    by (rule mirror_step.flush) (simp_all add: flush_request_def mirror_init_def ex_mirror_def)
  note step = mirror_reach.step
  show ?thesis by (rule step [OF step [OF step [OF step [OF mirror_reach.init 1] 2] 3] 4])
qed

lemma ex_mirror_fits: "docs_fit ex_path db_empty" "\<forall>op \<in> set (mr_accepted ex_mirror). op_fits ex_path op"
  using ex_op_fits by (simp_all add: docs_fit_def db_empty_def ex_mirror_def)

lemma flush_makes_durable_witness:
  "\<exists>s. flush_may_return s \<and> concat (mr_committed s) = mr_accepted ex_mirror"
proof -
  have good: "mirror_good ex_path db_empty ex_mirror"
    using mirror_reach_inv [OF ex_mirror_reach] ex_mirror_fits(2) by (simp add: mirror_good_def) (simp add: ex_mirror_def mirror_init_def)
  let ?s1 = "writer_next ex_mirror" and ?s2 = "writer_next (writer_next ex_mirror)"
  have r1: "mirror_reach 500 db_empty ?s1"
    by (rule mirror_reach.step [OF ex_mirror_reach writer_next_step]) (simp add: ex_mirror_def)
  have pc: "mr_pc ?s1 = WriteBatch (mr_accepted ex_mirror) False" "mr_writerError ?s1 = False" "mr_queue ?s1 = []"
      "mr_accepted ?s1 = mr_accepted ex_mirror"
    by (simp_all add: ex_mirror_def mirror_init_def writer_next_def writer_take_def drained_def Let_def)
  have g1: "mirror_good ex_path db_empty ?s1"
    using mirror_reach_inv [OF r1] pc ex_mirror_fits(2) by (simp add: mirror_good_def)
  obtain db' where w: "writeBatch (mr_accepted ex_mirror) (mr_db ?s1) = Some db'"
    using good_batch [OF g1 ex_mirror_fits(1) ex_path_inj pc(1)] by blast
  have ne: "mr_accepted ex_mirror \<noteq> []" by (simp add: ex_mirror_def)
  have r2: "mirror_reach 500 db_empty ?s2" by (rule mirror_reach.step [OF r1 writer_next_step]) (simp add: pc)
  have fl: "flush_may_return ?s2" "mr_accepted ?s2 = mr_accepted ex_mirror"
    using w pc ne by (simp_all add: writer_next_def [of ?s1] writer_write_def flush_may_return_def)
  have "\<forall>op \<in> set (mr_accepted ?s2). op_fits ex_path op" using fl(2) ex_mirror_fits(2) by simp
  from flush_makes_durable [OF r2 fl(1) ex_mirror_fits(1) ex_path_inj this] fl show ?thesis by metis
qed

text \<open>a failure of the writer is final. Once the error is set no step clears it, no operation is
  accepted any more, and neither \<open>flushPending\<close> nor \<open>checkpoint\<close> reports success.\<close>

theorem writer_error_is_final:
  assumes "(mirror_step maxPending)\<^sup>*\<^sup>* s s'" and "mr_writerError s"
  shows "mr_writerError s' \<and> mr_accepted s' = mr_accepted s \<and> enqueueOp maxPending op s' = None \<and>
    flush_request s' = None \<and> checkpoint_request s' = None \<and> \<not> flush_may_return s' \<and> \<not> checkpoint_may_return s'"
proof -
  have "mr_writerError s' \<and> mr_accepted s' = mr_accepted s"
    using assms by (induction rule: rtranclp_induct) (auto dest: error_step)
  then show ?thesis
    by (simp add: enqueueOp_def flush_request_def checkpoint_request_def flush_may_return_def checkpoint_may_return_def)
qed

lemma writer_error_is_final_witness:
  "mr_writerError (stop_joined (write_failed (mirror_init db_empty))) \<and>
   enqueueOp 500 (markFileDeleted 3) (stop_joined (write_failed (mirror_init db_empty))) = None"
proof -
  let ?s = "write_failed (mirror_init db_empty)"
  have "mirror_step 500 ?s (stop_joined ?s)" by (rule mirror_step.joined) (simp_all add: write_failed_def)
  moreover have "mr_writerError ?s" by (simp add: write_failed_def)
  ultimately show ?thesis using writer_error_is_final [of 500 ?s "stop_joined ?s" "markFileDeleted 3"] by blast
qed

text \<open>\<open>flushPending\<close> does not wait for ever: whenever the writer thread is running and no error is set,
  at most six critical sections of the writer, with a storage that answers, lead to a state in
  which the flush may return, from every reachable state and for every contents of the queue.\<close>

theorem flush_terminates:
  assumes "mirror_reach maxPending db s" and "pc_running (mr_pc s)" and "\<not> mr_writerError s"
    and "docs_fit pth db" and "inj pth" and "\<forall>op \<in> set (mr_accepted s). op_fits pth op"
  shows "\<exists>n \<le> 6. flush_may_return ((writer_next ^^ n) s)"
proof -
  have "mirror_good pth db s" using mirror_reach_inv [OF assms(1)] assms(3,6) by (simp add: mirror_good_def)
  from writer_drains [OF assms(4,5) this] assms(2)
  obtain n where "n \<le> flush_rank s" "flush_may_return ((writer_next ^^ n) s)" by blast
  moreover have "flush_rank s \<le> 6" using assms(2) by (cases "mr_pc s") (auto simp: flush_rank_def)
  ultimately show ?thesis by (meson le_trans)
qed

lemma flush_terminates_witness: "\<exists>n. n \<le> 6 \<and> flush_may_return ((writer_next ^^ n) ex_mirror)"
proof -
  have "pc_running (mr_pc ex_mirror)" "\<not> mr_writerError ex_mirror" by (simp_all add: ex_mirror_def mirror_init_def)
  from flush_terminates [OF ex_mirror_reach this ex_mirror_fits(1) ex_path_inj ex_mirror_fits(2)] show ?thesis by blast
qed

section \<open>A path that cannot be stored\<close>

lemma fold_opt_None: "x \<in> set xs \<Longrightarrow> (\<And>s. f x s = None) \<Longrightarrow> fold_opt f xs s = None"
  by (induction xs arbitrary: s) (auto split: option.split)

lemma fold_coalesce_keeps_write:
  assumes "um_find m f = Some old" and "lo_kind old = Write"
    and "\<forall>y \<in> set ys. lo_fileId y = f \<longrightarrow> lo_kind y = MarkDeleted"
  shows "\<exists>x. um_find (fold coalesce ys m) f = Some x \<and> lo_kind x = Write \<and> lo_path x = lo_path old"
  using assms
proof (induction ys arbitrary: m old)
  case (Cons y ys)
  have "\<exists>x. um_find (coalesce y m) f = Some x \<and> lo_kind x = Write \<and> lo_path x = lo_path old"
    using Cons.prems by (auto simp: coalesce_def umap_simps split: option.splits)
  then obtain x where "um_find (coalesce y m) f = Some x" "lo_kind x = Write" "lo_path x = lo_path old" by blast
  with Cons.IH [of "coalesce y m" x] Cons.prems(3) show ?case by auto
qed simp

lemma coalesce_write: "lo_kind op = Write \<Longrightarrow> um_find (coalesce op m) (lo_fileId op) = Some op"
  by (simp add: coalesce_def umap_simps split: option.split)

lemma writeBatch_bad_path:
  assumes "lo_kind op = Write" and "\<not> well_formed16 (lo_path op)"
    and "\<forall>y \<in> set ys. lo_fileId y = lo_fileId op \<longrightarrow> lo_kind y = MarkDeleted"
  shows "writeBatch (xs @ op # ys) db = None"
proof -
  let ?co = "fold coalesce (xs @ op # ys) []"
  obtain x where x: "um_find ?co (lo_fileId op) = Some x" "lo_kind x = Write" "lo_path x = lo_path op"
    using fold_coalesce_keeps_write [OF coalesce_write [OF assms(1)] assms(1,3), of "fold coalesce xs []"] by auto
  have "wstring_to_utf8 (lo_path x) = Inl INVALID_UTF16"
    using utf16to8_total [of "lo_path op"] assms(2) x(3) by (simp add: wstring_to_utf8_def)
  then have "write_op (lo_fileId op, x) d = None" for d
    using x(2) by (simp add: write_op_def upsert_doc_def path_text_def)
  moreover have "(lo_fileId op, x) \<in> set ?co" using x(1) by (simp add: um_find_def map_of_SomeD)
  ultimately show ?thesis using fold_opt_None [of "(lo_fileId op, x)" ?co write_op] by (simp add: writeBatch_def Let_def)
qed

text \<open>one file whose name is not well-formed UTF-16, which NTFS allows, stops the mirror for good: the
  transaction of its batch throws on every storage, all operations of the batch and of the queue
  are dropped, also those of other files, and the error refuses every later operation.\<close>

theorem bad_path_stops_mirror:
  assumes "mr_pc s = WriteBatch (xs @ op # ys) c" and "lo_kind op = Write" and "\<not> well_formed16 (lo_path op)"
    and "\<forall>y \<in> set ys. lo_fileId y = lo_fileId op \<longrightarrow> lo_kind y = MarkDeleted"
  shows "writer_write storage_ok (xs @ op # ys) c s = write_failed s \<and>
    mr_queue (write_failed s) = [] \<and> mr_db (write_failed s) = mr_db s \<and>
    mr_committed (write_failed s) = mr_committed s \<and> enqueueOp maxPending op' (write_failed s) = None"
  using writeBatch_bad_path [OF assms(2-4), of xs "mr_db s"]
  by (simp add: writer_write_def Let_def write_failed_def enqueueOp_def)

lemma bad_path_stops_mirror_witness:
  "enqueueOp 500 (markFileDeleted 9) (writer_write True [writeFile 1 [67] 0 0 [] [], writeFile 2 [0xd800] 0 0 [] []] False
     (ex_mirror\<lparr>mr_pc := WriteBatch [writeFile 1 [67] 0 0 [] [], writeFile 2 [0xd800] 0 0 [] []] False\<rparr>)) = None"
proof -
  have "\<not> well_formed16 (lo_path (writeFile 2 [0xd800] 0 0 [] []))"
    by (simp add: writeFile_def is_lead_surrogate_def word_le_nat_alt)
  then show ?thesis
    using bad_path_stops_mirror [where s = "ex_mirror\<lparr>mr_pc := WriteBatch [writeFile 1 [67] 0 0 [] [], writeFile 2 [0xd800] 0 0 [] []] False\<rparr>"
        and xs = "[writeFile 1 [67] 0 0 [] []]" and op = "writeFile 2 [0xd800] 0 0 [] []" and ys = "[]" and c = False
        and storage_ok = True and maxPending = 500 and op' = "markFileDeleted 9"]
    by (simp add: writeFile_def)
qed

end
