(* ===== verification/MirrorConsistency.thy ===== *)
theory MirrorConsistency
  imports SQLitePersistence LiveMirror
begin

text \<open>
  The index in memory and its live mirror together: the update step of the server
  (\<open>src/src/SearchServer/SearchServer.cpp\<close>, \<open>updateStep\<close>) compacts the index in memory after every
  run and then calls \<open>saveIndex\<close>, which for a storage with live updates only flushes and
  checkpoints the mirror (\<open>src/src/Index/InvertedIndex.cpp\<close>). The theorems say what the next start
  reads back.
\<close>

section \<open>A file written to a saved index\<close>

text \<open>The tables after one new file with one known word.\<close>

lemma write_new_file:
  fixes m z
  assumes "persistable s rows" and "unat f < 2 ^ 31" and "f \<notin> dr_id ` set rows" and "path_ok p"
    and "p \<notin> dr_path ` set rows"
  defines "new \<equiv> \<lparr>dr_id = f, dr_path = p, dr_mtimeTicks = m, dr_size = z, dr_deleted = False\<rparr>"
  shows "writeBatch [writeFile f p m z [(j, c)] []] (saved_db s rows) =
      Some ((saved_db s rows)\<lparr>db_docs := map doc_entry (rows @ [new]),
        db_postings := um_put (bind_int j, bind_int f) (uint c) (db_postings (saved_db s rows))\<rparr>)"
    and "docs_small (rows @ [new])"
proof -
  let ?db = "saved_db s rows"
  have docs: "docs_small rows" using assms(1) by (simp add: persistable_def)
  then show small: "docs_small (rows @ [new])" using assms(2-5) by (auto simp: docs_small_def new_def)
  have "save_doc new ?db = Some (?db\<lparr>db_docs := map doc_entry (rows @ [new])\<rparr>)"
  proof -
    have "fold_opt save_doc (rows @ [new]) (?db\<lparr>db_docs := []\<rparr>) = Some (?db\<lparr>db_docs := map doc_entry (rows @ [new])\<rparr>)"
      using save_docs_table [OF small, of "?db\<lparr>db_docs := []\<rparr>"] by simp
    moreover have "fold_opt save_doc rows (?db\<lparr>db_docs := []\<rparr>) = Some ?db"
      using save_docs_table [OF docs, of "?db\<lparr>db_docs := []\<rparr>"] by (simp add: saved_db_def)
    ultimately show ?thesis by (simp add: fold_opt_append split: option.splits)
  qed
  then have up: "upsert_doc f p m z ?db = Some (?db\<lparr>db_docs := map doc_entry (rows @ [new])\<rparr>)"
    by (auto simp: save_doc_def upsert_doc_def ins_new_def new_def split: sum.splits if_splits option.splits)
  have "snd (fst e) \<noteq> bind_int f" if "e \<in> set (db_postings ?db)" for e
  proof -
    from that obtain n and q :: posting where q: "q \<in> set (word_list s n)" "snd (fst e) = int (unat (p_fileId q))"
      using saved_postings(2) [OF assms(1)] by (auto simp: posting_rows_def)
    then have "p_fileId q \<in> dr_id ` set rows" using assms(1) unfolding persistable_def by (metis image_subset_iff)
    then have "p_fileId q \<noteq> f" using assms(3) by metis
    then show ?thesis using q(2) bind_int_small [OF assms(2)] by (simp add: word_uint_eq_iff)
  qed
  then have "filter (\<lambda>e. snd (fst e) \<noteq> bind_int f) (db_postings ?db) = db_postings ?db" by (simp add: filter_id_conv)
  with up show "writeBatch [writeFile f p m z [(j, c)] []] ?db =
      Some (?db\<lparr>db_docs := map doc_entry (rows @ [new]),
        db_postings := um_put (bind_int j, bind_int f) (uint c) (db_postings ?db)\<rparr>)"
    by (simp add: writeBatch_def coalesce_def new_words_of_def um_put_def [of f] writeFile_def write_op_def Let_def
      del_postings_def ins_posting_def)
qed

lemma um_put_set_new: "set (um_put k v m) \<subseteq> insert (k, v) (set m)"
  using um_put_set by fastforce

text \<open>The word under which the next start finds the file is the one whose number the write carried.\<close>

lemma load_after_write:
  assumes "persistable s rows" and "unat f < 2 ^ 31" and "f \<notin> dr_id ` set rows" and "path_ok p"
    and "p \<notin> dr_path ` set rows" and "unat j < wid_size (ii_wordIds s)"
    and "wid_tryGet (ii_wordIds s) w = Some i" and "i \<noteq> j"
  shows "\<exists>db idx docs. writeBatch [writeFile f p m z [(j, c)] []] (saved_db s rows) = Some db \<and>
    load threads precount db = Some (idx, docs) \<and> count_of idx w f = None \<and>
    count_of idx (wid_byId (ii_wordIds s) j) f = Some c"
proof -
  let ?ids = "ii_wordIds s" and ?P = "db_postings (saved_db s rows)"
  define new where "new = \<lparr>dr_id = f, dr_path = p, dr_mtimeTicks = m, dr_size = z, dr_deleted = False\<rparr>"
  define db where "db = (saved_db s rows)\<lparr>db_docs := map doc_entry (rows @ [new]),
    db_postings := um_put (bind_int j, bind_int f) (uint c) ?P\<rparr>"
  note w = write_new_file(1) [OF assms(1-5), where m = m and z = z and j = j and c = c, folded new_def]
    write_new_file(2) [OF assms(1-5), where m = m and z = z, folded new_def]
  note post = saved_postings [OF assms(1), unfolded wid_size_def]
  have ok: "index_ok s" and sz: "length (id2word ?ids) \<le> 2 ^ 31"
    using assms(1) by (auto simp: persistable_def wid_size_def)
  have inv: "wid_invar ?ids" by (rule index_okD(1) [OF ok])
  have i: "unat i < length (id2word ?ids)" "id2word ?ids ! unat i = w"
    using assms(7) inv by (auto simp: wid_tryGet_def wid_invar_def)
  have j: "bind_int j = int (unat j)" using assms(6) sz by (intro bind_int_small) (simp add: wid_size_def)
  have f: "bind_int f = int (unat f)" by (rule bind_int_small [OF assms(2)])
  have find: "um_find (db_postings db) k = (if k = (int (unat j), int (unat f)) then Some (uint c) else um_find ?P k)" for k
    by (simp add: db_def j f um_find_put)
  have okP: "um_ok (db_postings db)" using post(1) by (simp add: db_def)
  have jN: "int (unat j) < int (length (id2word ?ids))" using assms(6) by (simp only: of_nat_less_iff wid_size_def)
  have rows: "posting_row_ok (length (id2word ?ids)) e" if "e \<in> set (db_postings db)" for e
  proof -
    have "e \<in> insert ((int (unat j), int (unat f)), uint c) (set ?P)"
      using that um_put_set_new [of "(bind_int j, bind_int f)" "uint c" ?P] by (auto simp: db_def j f)
    then show ?thesis using post(3) jN uint_bounds(1) [of f] uint_bounds(2) [of c]
      by (auto simp: posting_row_ok_def wid_size_def)
  qed
  have nof: "um_find ?P (k, int (unat f)) = None" for k
  proof (rule ccontr)
    assume "um_find ?P (k, int (unat f)) \<noteq> None"
    then have "(k, int (unat f)) \<in> fst ` set ?P" by (simp add: um_find_None_iff)
    then obtain n and q :: posting where q: "q \<in> set (word_list s n)" "uint f = uint (p_fileId q)"
      using post(2) by (auto simp: posting_rows_def)
    then have "p_fileId q \<in> dr_id ` set rows" using assms(1) unfolding persistable_def by (metis image_subset_iff)
    then show False using assms(3) q(2) by (metis word_uint_eq_iff)
  qed
  have schema: "initSchema db"
  proof -
    have "um_find (map doc_entry (rows @ [new])) (snd (fst e)) \<noteq> None" if "e \<in> set (db_postings db)" for e
    proof -
      have "e \<in> insert ((int (unat j), int (unat f)), uint c) (set ?P)"
        using that um_put_set_new [of "(bind_int j, bind_int f)" "uint c" ?P] by (auto simp: db_def j f)
      then show ?thesis using post(4)
        by (auto simp: initSchema_def list_all_iff saved_db_def um_find_def map_of_eq_None_iff new_def doc_entry_def split: option.splits)
    qed
    then show ?thesis using doc_paths_distinct [OF w(2)] by (simp add: initSchema_def list_all_iff) (simp add: db_def)
  qed
  obtain idx docs where r: "load threads precount db = Some (idx, docs)" "ii_invar idx" "id2word (ii_wordIds idx) = id2word ?ids"
    "\<And>n. word_list idx n = rows_of n (sort_key fst (db_postings db))"
    using load_tables [OF _ wid_invar_distinct [OF inv] _ _ w(2) okP _ schema, of threads precount] rows sz
    by (auto simp: db_def saved_db_def wid_size_def)
  have inv': "wid_invar (ii_wordIds idx)" using r(2) by (simp add: ii_invar_def ii_base_def)
  have list: "count_of idx x f = (if k = j then Some c else None)" if "wid_tryGet ?ids x = Some k" for x k
  proof -
    have "wid_tryGet (ii_wordIds idx) x = Some k" using tryGet_eq [OF inv' inv r(3)] that by simp
    then have cnt: "count_of idx x f = pl_map (word_list idx (unat k)) f"
      using count_of_base [of idx x f] r(2) by (simp add: ii_invar_def ii_base_def word_list_def)
    have pl: "pl_invar (word_list idx (unat k))" using index_okD(3) [of idx] r(2) by (simp add: index_ok_def)
    show ?thesis
    proof (cases "k = j")
      case True
      have "((int (unat j), int (unat f)), uint c) \<in> set (db_postings db)"
        using find [of "(int (unat j), int (unat f))"] um_find_Some_iff [OF okP, THEN iffD1] by (simp only: if_True simp_thms)
      then have "row_post ((int (unat j), int (unat f)), uint c) \<in> set (word_list idx (unat k))"
        unfolding r(4) using True by (simp add: rows_of_def image_iff) force
      then have "\<lparr>p_fileId = f, p_cnt = c\<rparr> \<in> set (word_list idx (unat k))" by (simp add: row_post_def)
      from pl_mem_map [OF pl this] cnt True show ?thesis by simp
    next
      case False
      have "f \<notin> p_fileId ` set (word_list idx (unat k))"
      proof
        assume "f \<in> p_fileId ` set (word_list idx (unat k))"
        then obtain d b where d: "((int (unat k), d), b) \<in> set (db_postings db)" "of_int d = f"
          unfolding r(4) by (auto simp: rows_of_def row_post_def)
        have "0 \<le> d \<and> d < 2 ^ 32" using posting_row_okD [OF rows [OF d(1)]] by simp
        then have "d = int (unat f)" using d(2) by (auto simp: unsigned_of_int take_bit_int_eq_self)
        then have "um_find (db_postings db) (int (unat k), int (unat f)) = Some b"
          using d(1) um_find_Some_iff [OF okP] by simp
        moreover have "int (unat k) \<noteq> int (unat j)" using False by (metis of_nat_eq_iff word_unat_eq_iff)
        ultimately show False using find nof by simp
      qed
      with cnt False show ?thesis by (simp add: pl_map_None)
    qed
  qed
  have "wid_tryGet ?ids (wid_byId ?ids j) = Some j"
    using inv assms(6) by (simp add: wid_tryGet_def wid_invar_def wid_byId_def wid_size_def)
  with list [of "wid_byId ?ids j" j] list [OF assms(7)] assms(8) r(1) w(1) show ?thesis unfolding db_def by auto
qed

section \<open>Compaction and the mirror\<close>

lemma compact_words_shrink:
  "length (cs_id2word (fold (compact_word ids) xs c)) \<le> length (cs_id2word c) + length xs"
proof (induction xs arbitrary: c)
  case (Cons x xs)
  have "length (cs_id2word (compact_word ids x c)) \<le> Suc (length (cs_id2word c))"
    by (simp add: compact_word_def Let_def)
  with Cons [of "compact_word ids x c"] show ?case by simp
qed simp

lemma compact_smaller:
  assumes "index_ok s"
  shows "wid_size (ii_wordIds (compact below s)) \<le> wid_size (ii_wordIds s)"
    and "compact below s \<noteq> s \<Longrightarrow> ii_dictionary (compact below s) = []"
proof -
  let ?s = "if ii_dictionary s = [] then rebuildDictionaryFromChunksLocked s else s"
  have len: "length (ii_dictionary ?s) = wid_size (ii_wordIds s)"
    using assms by (auto simp: rebuildDictionaryFromChunksLocked_def index_ok_def flat_invar_def ii_invar_def ii_base_def)
  have ids: "ii_wordIds ?s = ii_wordIds s" by (simp add: rebuildDictionaryFromChunksLocked_def)
  let ?c = "fold (compact_word (ii_wordIds ?s)) (zip [0..<length (ii_dictionary ?s)] (ii_dictionary ?s))
    \<lparr>cs_newDict = [], cs_remap = [], cs_word2id = [], cs_id2word = []\<rparr>"
  have "length (cs_id2word ?c) \<le> length (ii_dictionary ?s)"
    using compact_words_shrink [of "ii_wordIds ?s" "zip [0..<length (ii_dictionary ?s)] (ii_dictionary ?s)"
      "\<lparr>cs_newDict = [], cs_remap = [], cs_word2id = [], cs_id2word = []\<rparr>"] by simp
  moreover have "wid_size (ii_wordIds (compact_run ?s)) = length (cs_id2word ?c)"
    by (simp only: compact_run_def Let_def rebuildChunksFromDictionary_def wid_size_def wid_rebuild_def) simp
  ultimately have run: "wid_size (ii_wordIds (compact_run ?s)) \<le> wid_size (ii_wordIds s)" using len by simp
  have "compact below s = s \<or> compact below s = compact_run ?s" by (auto simp: compact_def Let_def)
  moreover have "ii_dictionary (compact_run ?s) = []" by (simp add: compact_run_def Let_def rebuildChunksFromDictionary_def)
  ultimately show "wid_size (ii_wordIds (compact below s)) \<le> wid_size (ii_wordIds s)"
    "compact below s \<noteq> s \<Longrightarrow> ii_dictionary (compact below s) = []" using run by auto
qed

text \<open>A file with one word the index already knows under the number \<open>j\<close>.\<close>

lemma process_known_word:
  assumes "wid_invar (ii_wordIds s)" and "wid_tryGet (ii_wordIds s) w = Some j"
  shows "snd (snd (processBatch \<lparr>pb_fileId = f, pb_list = [(w, n)]\<rparr> s)) = ([(j, mirror_count n)], [])"
proof -
  have "unat j < wid_size (ii_wordIds s)" using wid.try_get_bound [OF assms] by blast
  with assms(2) show ?thesis
    by (simp add: processBatch_def batch_word_def wid_getId_def wid_tryGet_def um_put_def Let_def)
qed

text \<open>the compaction after an update gives words new numbers in memory only; the tables of the mirror
  keep the old ones. When a word moved from number \<open>i\<close> to \<open>j\<close>, a new file that contains it is
  found in memory, its write to the mirror carries \<open>j\<close> and no new word, and after the next start the
  file is not found under the word but under the one that had number \<open>j\<close> before the compaction.\<close>

theorem compaction_diverges_from_mirror:
  assumes "persistable s rows" and "wid_tryGet (ii_wordIds s) w = Some i"
    and "wid_tryGet (ii_wordIds (compact below s)) w = Some j" and "i \<noteq> j"
    and "unat f < 2 ^ 31" and "f \<notin> dr_id ` set rows" and "path_ok p" and "p \<notin> dr_path ` set rows"
    and "processBatch \<lparr>pb_fileId = f, pb_list = [(w, n)]\<rparr> (compact below s) = (s', cm, counts, newWords)"
  shows "count_of (commit_batch \<lparr>pb_fileId = f, pb_list = [(w, n)]\<rparr> (compact below s)) w f \<noteq> None \<and>
    (\<exists>db idx docs. writeBatch [writeFile f p m z counts newWords] (saved_db s rows) = Some db \<and>
      load threads precount db = Some (idx, docs) \<and> count_of idx w f = None \<and>
      count_of idx (wid_byId (ii_wordIds s) j) f \<noteq> None)"
proof -
  let ?c = "compact below s"
  have ok: "index_ok s" and sz: "wid_size (ii_wordIds s) \<le> 2 ^ 31" using assms(1) by (auto simp: persistable_def)
  have okc: "index_ok ?c" by (rule compact_keeps(1) [OF ok]) (use sz in simp)
  have "?c \<noteq> s" using assms(2-4) by auto
  then have "ii_dictionary ?c = []" by (rule compact_smaller(2) [OF ok])
  then have base: "ii_base ?c" using okc by (auto simp: index_ok_def ii_invar_def flat_invar_def)
  have inv: "wid_invar (ii_wordIds ?c)" using base by (simp add: ii_base_def)
  have "unat j < wid_size (ii_wordIds ?c)" using wid.try_get_bound [OF inv assms(3)] by blast
  then have j: "unat j < wid_size (ii_wordIds s)" using compact_smaller(1) [OF ok, of below] by simp
  have cn: "counts = [(j, mirror_count n)]" "newWords = []"
    using process_known_word [OF inv assms(3), of f n] assms(9) by auto
  have "wid_size (ii_wordIds ?c) + 1 \<le> 2 ^ 32" using compact_smaller(1) [OF ok, of below] sz by simp
  with commit_batch_counts(2) [OF base, of "\<lparr>pb_fileId = f, pb_list = [(w, n)]\<rparr>" w f]
  have "count_of (commit_batch \<lparr>pb_fileId = f, pb_list = [(w, n)]\<rparr> ?c) w f \<noteq> None" by simp
  moreover from load_after_write [OF assms(1,5-8) j assms(2,4), of m z "mirror_count n" threads precount]
  have "\<exists>db idx docs. writeBatch [writeFile f p m z counts newWords] (saved_db s rows) = Some db \<and>
      load threads precount db = Some (idx, docs) \<and> count_of idx w f = None \<and>
      count_of idx (wid_byId (ii_wordIds s) j) f \<noteq> None" unfolding cn by fastforce
  ultimately show ?thesis ..
qed

text \<open>Two words, the first without postings: the compaction moves the second to number 0.\<close>

definition ex_holes :: inverted_index where
  "ex_holes = \<lparr>ii_wordIds = \<lparr>word2id = [(''A'', 0), (''B'', 1)], id2word = [''A'', ''B'']\<rparr>, ii_chunks = [],
     ii_dictionary = [[], [\<lparr>p_fileId = 7, p_cnt = 2\<rparr>]], ii_wordRefs = [(7, [1])]\<rparr>"

lemma ex_holes_persistable: "persistable ex_holes ex_rows"
proof -
  have i: "0 = i \<longleftrightarrow> unat i = 0" "1 = i \<longleftrightarrow> unat i = 1" for i :: u32 by (auto simp: word_unat_eq_iff)
  have "wid_invar (ii_wordIds ex_holes)"
    by (auto simp: ex_holes_def wid_invar_def um_ok_def um_find_def less_Suc_eq i nth_Cons')
  then have "index_ok ex_holes"
    by (auto simp: index_ok_def flat_invar_def ex_holes_def wid_size_def um_ok_def pl_invar_def refs_of_def um_find_def
      pl_map_def less_Suc_eq split: if_splits)
  moreover have "docs_small ex_rows" using ex_index_persistable by (simp add: persistable_def)
  ultimately show ?thesis
    by (auto simp: persistable_def ex_holes_def ex_rows_def wid_size_def word_list_def less_Suc_eq nth_Cons')
qed

lemma compaction_diverges_from_mirror_witness:
  "\<exists>db idx docs counts newWords. writeBatch [writeFile 8 [68] 1 1 counts newWords] (saved_db ex_holes ex_rows) = Some db \<and>
     load 4 False db = Some (idx, docs) \<and> count_of idx ''B'' 8 = None \<and>
     count_of idx (wid_byId (ii_wordIds ex_holes) 0) 8 \<noteq> None"
proof -
  let ?c = "compact (\<lambda>_ _. False) ex_holes"
  have 1: "wid_tryGet (ii_wordIds ex_holes) ''B'' = Some 1" by (simp add: ex_holes_def wid_tryGet_def um_find_def)
  have 2: "wid_tryGet (ii_wordIds ?c) ''B'' = Some 0"
    by (simp add: ex_holes_def compact_def dict_holes_def compact_run_def compact_word_def wid_size_def wid_byId_def
      rebuildChunksFromDictionary_def wid_rebuild_def wid_tryGet_def um_find_def um_put_def Let_def)
  have 3: "unat (8 :: u32) < 2 ^ 31" "(8 :: u32) \<notin> dr_id ` set ex_rows" "path_ok [68]" "[68] \<notin> dr_path ` set ex_rows"
    by (simp_all add: ex_rows_def path_ok_def is_lead_surrogate_def is_trail_surrogate_def word_le_nat_alt)
  obtain s' cm counts newWords where 4:
    "processBatch \<lparr>pb_fileId = 8, pb_list = [(''B'', 5)]\<rparr> ?c = (s', cm, counts, newWords)" by (cases "processBatch \<lparr>pb_fileId = 8, pb_list = [(''B'', 5)]\<rparr> ?c") auto
  from compaction_diverges_from_mirror [OF ex_holes_persistable 1 2 _ 3 4, of 1 1 4 False] show ?thesis by auto
qed

end
