(* ===== verification/QuerySearch.thy ===== *)
theory QuerySearch
  imports InvertedIndex DocumentCatalog Encoding "HOL-Library.Char_ord" "HOL-Library.List_Lexorder"
begin

text \<open>
  Queries (\<open>src/src/SearchServer/QueryWordMatch.h\<close>, \<open>QueryWordMatch.cpp\<close> and the search part of
  \<open>SearchServer.cpp\<close>): the words of a request, the files that match all or any of them, the
  absolute relevance of a file, and the ranked, bounded answer with the paths of the documents.

  A \<open>std::set\<close> is the strictly increasing list of its elements. The relevance is the pair of the
  file's sum and the maximal sum; the source divides the two as \<open>float\<close>.
\<close>

section \<open>Ordered sets\<close>

fun set_insert :: "'a :: linorder \<Rightarrow> 'a list \<Rightarrow> 'a list" where
  "set_insert x [] = [x]"
| "set_insert x (y # ys) =
     (if x < y then x # y # ys else if x = y then y # ys else y # set_insert x ys)"

text \<open>\<open>std::set_intersection\<close> on two increasing ranges.\<close>

fun set_intersection :: "'a :: linorder list \<Rightarrow> 'a list \<Rightarrow> 'a list" where
  "set_intersection [] ys = []"
| "set_intersection (x # xs) [] = []"
| "set_intersection (x # xs) (y # ys) =
     (if x < y then set_intersection xs (y # ys)
      else if y < x then set_intersection (x # xs) ys
      else x # set_intersection xs ys)"

lemma set_set_insert [simp]: "set (set_insert x s) = insert x (set s)"
  by (induction s) auto

lemma sorted_set_insert: "sorted_wrt (<) s \<Longrightarrow> sorted_wrt (<) (set_insert x s)"
  by (induction s) (auto simp: not_less)

lemma fold_set_insert:
  "set (fold set_insert xs s) = set xs \<union> set s"
  "sorted_wrt (<) s \<Longrightarrow> sorted_wrt (<) (fold set_insert xs s)"
  by (induction xs arbitrary: s) (auto simp: sorted_set_insert)

lemma set_set_intersection:
  "sorted_wrt (<) xs \<Longrightarrow> sorted_wrt (<) ys \<Longrightarrow> set (set_intersection xs ys) = set xs \<inter> set ys"
proof (induction xs ys rule: set_intersection.induct)
  case (3 x xs y ys)
  show ?case
  proof (cases x y rule: linorder_cases)
    case less
    then have "x \<notin> set (y # ys)" using "3.prems"(2) by auto
    with less "3.IH"(1) "3.prems" show ?thesis by auto
  next
    case greater
    then have "y \<notin> set (x # xs)" using "3.prems"(1) by auto
    with greater "3.IH"(2) "3.prems" show ?thesis by auto
  next
    case equal
    then have "x \<notin> set xs" "x \<notin> set ys" using "3.prems" by auto
    with equal "3.IH"(3) "3.prems" show ?thesis by auto
  qed
qed auto

lemma sorted_set_intersection:
  "sorted_wrt (<) xs \<Longrightarrow> sorted_wrt (<) ys \<Longrightarrow> sorted_wrt (<) (set_intersection xs ys)"
proof (induction xs ys rule: set_intersection.induct)
  case (3 x xs y ys)
  have "set (set_intersection xs ys) \<subseteq> set xs" using set_set_intersection [of xs ys] "3.prems" by auto
  with 3 show ?case by (auto split: if_splits)
qed auto

section \<open>Matching modes\<close>

datatype query_word_match = MatchAll | MatchAny

definition parseQueryWordMatch :: "string \<Rightarrow> query_word_match option" where
  "parseQueryWordMatch v = (if v = ''all'' then Some MatchAll else if v = ''any'' then Some MatchAny else None)"

definition matchToString :: "query_word_match \<Rightarrow> string" where
  "matchToString m = (case m of MatchAll \<Rightarrow> ''all'' | MatchAny \<Rightarrow> ''any'')"

lemma parse_matchToString [simp]: "parseQueryWordMatch (matchToString m) = Some m"
  by (cases m) (simp_all add: parseQueryWordMatch_def matchToString_def)

fun intersect_loop :: "nat list \<Rightarrow> nat list list \<Rightarrow> nat list" where
  "intersect_loop result [] = result"
| "intersect_loop result (p # ps) =
     (let i = set_intersection result p in if i = [] then i else intersect_loop i ps)"

definition combineQueryPostings :: "query_word_match \<Rightarrow> nat list option list \<Rightarrow> nat list" where
  "combineQueryPostings mode postings =
     (if postings = [] then []
      else case mode of
        MatchAny \<Rightarrow> fold (\<lambda>p r. case p of None \<Rightarrow> r | Some s \<Rightarrow> fold set_insert s r) postings []
      | MatchAll \<Rightarrow>
          if None \<in> set postings then []
          else let present = sort_key length (map the postings)
               in intersect_loop (hd present) (tl present))"

section \<open>The search\<close>

text \<open>\<open>std::isspace\<close> in the classic locale, and \<open>operator>>\<close> on a string stream until it fails.\<close>

definition is_space :: "char \<Rightarrow> bool" where
  "is_space c \<longleftrightarrow> c \<in> {CHR '' '', CHR 0x09, CHR 0x0a, CHR 0x0b, CHR 0x0c, CHR 0x0d}"

function stream_words :: "string \<Rightarrow> string list" where
  "stream_words inp =
     (let rest = dropWhile is_space inp
      in if rest = [] then []
         else takeWhile (\<lambda>c. \<not> is_space c) rest # stream_words (dropWhile (\<lambda>c. \<not> is_space c) rest))"
  by pat_completeness auto
termination
proof (relation "measure length", simp)
  fix inp rest
  assume r: "rest = dropWhile is_space inp" "rest \<noteq> []"
  then have "\<not> is_space (hd rest)" using hd_dropWhile by metis
  then have "length (dropWhile (\<lambda>c. \<not> is_space c) rest) < length rest"
    using r(2) by (cases rest) (auto intro: le_imp_less_Suc length_dropWhile_le)
  also have "\<dots> \<le> length inp" using r(1) length_dropWhile_le by metis
  finally show "(dropWhile (\<lambda>c. \<not> is_space c) rest, inp) \<in> measure length" by simp
qed

declare stream_words.simps [simp del]

definition getUniqWords :: "string \<Rightarrow> string list" where
  "getUniqWords inp = fold set_insert (stream_words inp) []"

definition posting_files :: "posting_list \<Rightarrow> nat list" where
  "posting_files post = fold (\<lambda>p. set_insert (unat (p_fileId p))) post []"

definition intersectionSetFiles :: "query_word_match \<Rightarrow> inverted_index \<Rightarrow> string list \<Rightarrow> nat list" where
  "intersectionSetFiles mode s request =
     (if request = [] then []
      else combineQueryPostings mode (map (\<lambda>w. map_option posting_files (getPostingCopyByWord s w)) request))"

text \<open>The sum of a \<open>RelativeIndex\<close>.\<close>

definition relative_sum :: "query_word_match \<Rightarrow> inverted_index \<Rightarrow> string list \<Rightarrow> nat \<Rightarrow> nat" where
  "relative_sum mode s request f =
     fold (\<lambda>w acc. if mode = MatchAll \<or> getPostingCopyByWord s w \<noteq> None
         then (case getPostingCopyByWord s w of
                 None \<Rightarrow> acc
               | Some post \<Rightarrow> (case pl_find post (of_nat f) of None \<Rightarrow> acc | Some c \<Rightarrow> acc + unat c))
         else acc) request 0"

record answer_item =
  ai_path :: "u8 list"
  ai_sum :: nat
  ai_max :: nat
  ai_deleted :: bool

datatype answer_error = StorageFailure | NoDocumentRow u32 | BadPath utf_error

fun build_answer :: "nat \<Rightarrow> ((nat \<times> nat) \<times> document_record option) list \<Rightarrow> answer_error + answer_item list" where
  "build_answer mx [] = Inr []"
| "build_answer mx (((f, acc), doc) # rest) =
     (case doc of
        None \<Rightarrow> Inl (NoDocumentRow (of_nat f))
      | Some d \<Rightarrow>
          (case wstring_to_utf8 (dr_path d) of
             Inl e \<Rightarrow> Inl (BadPath e)
           | Inr p \<Rightarrow>
               (case build_answer mx rest of
                  Inl e \<Rightarrow> Inl e
                | Inr items \<Rightarrow> Inr (\<lparr>ai_path = p, ai_sum = acc, ai_max = mx, ai_deleted = dr_deleted d\<rparr> # items))))"

definition getAnswer ::
  "query_word_match \<Rightarrow> int \<Rightarrow> bool \<Rightarrow> memory_catalog \<Rightarrow> inverted_index \<Rightarrow> string \<Rightarrow> answer_error + answer_item list" where
  "getAnswer mode maxResponse storage_failed c s inp =
     (let request = getUniqWords inp;
          results = map (\<lambda>f. (f, relative_sum mode s request f)) (intersectionSetFiles mode s request);
          mx = fold max (map snd results) 0;
          responseLimit = (if maxResponse > 0 then nat maxResponse else 0);
          selected = take responseLimit (sort_key (\<lambda>r. - int (snd r)) results)
      in if storage_failed then Inl StorageFailure
         else build_answer mx (zip selected (mc_findByIds c (map (\<lambda>r. of_nat (fst r)) selected))))"

section \<open>What a request means\<close>

definition matches :: "query_word_match \<Rightarrow> inverted_index \<Rightarrow> string set \<Rightarrow> u32 \<Rightarrow> bool" where
  "matches mode s ws f \<longleftrightarrow> ws \<noteq> {} \<and>
     (case mode of
        MatchAll \<Rightarrow> \<forall>w \<in> ws. count_of s w f \<noteq> None
      | MatchAny \<Rightarrow> \<exists>w \<in> ws. count_of s w f \<noteq> None)"

definition relevance :: "inverted_index \<Rightarrow> string set \<Rightarrow> u32 \<Rightarrow> nat" where
  "relevance s ws f = (\<Sum>w \<in> ws. case count_of s w f of None \<Rightarrow> 0 | Some c \<Rightarrow> unat c)"

lemma intersect_loop_spec:
  assumes "sorted_wrt (<) r" and "\<forall>p \<in> set ps. sorted_wrt (<) p"
  shows "set (intersect_loop r ps) = set r \<inter> \<Inter> (set ` set ps)" and "sorted_wrt (<) (intersect_loop r ps)"
proof -
  have "set (intersect_loop r ps) = set r \<inter> \<Inter> (set ` set ps) \<and> sorted_wrt (<) (intersect_loop r ps)"
    using assms
  proof (induction ps arbitrary: r)
    case (Cons p ps)
    have i: "set (set_intersection r p) = set r \<inter> set p" "sorted_wrt (<) (set_intersection r p)"
      using Cons.prems set_set_intersection sorted_set_intersection by auto
    show ?case
    proof (cases "set_intersection r p = []")
      case True
      then have "set r \<inter> set p = {}" using i(1) by simp
      with True show ?thesis by (auto simp: Let_def)
    next
      case False
      with Cons.IH [OF i(2)] Cons.prems(2) i(1) show ?thesis by (auto simp: Let_def)
    qed
  qed simp
  then show "set (intersect_loop r ps) = set r \<inter> \<Inter> (set ` set ps)" "sorted_wrt (<) (intersect_loop r ps)" by auto
qed

lemma combine_all:
  assumes "postings \<noteq> []" and "None \<notin> set postings" and "\<forall>p \<in> set postings. sorted_wrt (<) (the p)"
  shows "set (combineQueryPostings MatchAll postings) = \<Inter> ((\<lambda>p. set (the p)) ` set postings)"
    and "sorted_wrt (<) (combineQueryPostings MatchAll postings)"
proof -
  let ?pr = "sort_key length (map the postings)"
  have ne: "?pr \<noteq> []" using assms(1) by (metis length_greater_0_conv length_map length_sort)
  then have pr: "?pr = hd ?pr # tl ?pr" by simp
  have mem: "set ?pr = the ` set postings" by simp
  then have sorted: "\<forall>p \<in> set (hd ?pr # tl ?pr). sorted_wrt (<) p" using assms(3) pr by (metis imageE)
  have eq: "combineQueryPostings MatchAll postings = intersect_loop (hd ?pr) (tl ?pr)"
    using assms(1,2) by (simp add: combineQueryPostings_def Let_def)
  have "set (hd ?pr # tl ?pr) = the ` set postings" using mem pr by simp
  then have "set (hd ?pr) \<inter> \<Inter> (set ` set (tl ?pr)) = \<Inter> (set ` the ` set postings)" by (metis Inter_insert image_insert list.simps(15))
  with intersect_loop_spec [of "hd ?pr" "tl ?pr"] sorted eq
  show "set (combineQueryPostings MatchAll postings) = \<Inter> ((\<lambda>p. set (the p)) ` set postings)"
    "sorted_wrt (<) (combineQueryPostings MatchAll postings)" by (auto simp: image_image)
qed

lemma combine_any:
  "set (combineQueryPostings MatchAny postings) = (\<Union>p \<in> set postings. case p of None \<Rightarrow> {} | Some s \<Rightarrow> set s)"
  "sorted_wrt (<) (combineQueryPostings MatchAny postings)"
proof -
  have "set (fold (\<lambda>p r. case p of None \<Rightarrow> r | Some s \<Rightarrow> fold set_insert s r) ps r) =
      set r \<union> (\<Union>p \<in> set ps. case p of None \<Rightarrow> {} | Some s \<Rightarrow> set s)" for ps :: "nat list option list" and r
    by (induction ps arbitrary: r) (auto simp: fold_set_insert split: option.splits)
  then show "set (combineQueryPostings MatchAny postings) = (\<Union>p \<in> set postings. case p of None \<Rightarrow> {} | Some s \<Rightarrow> set s)"
    by (simp add: combineQueryPostings_def)
  have "sorted_wrt (<) r \<Longrightarrow> sorted_wrt (<) (fold (\<lambda>p r. case p of None \<Rightarrow> r | Some s \<Rightarrow> fold set_insert s r) ps r)"
    for ps :: "nat list option list" and r
    by (induction ps arbitrary: r) (auto simp: fold_set_insert split: option.splits)
  then show "sorted_wrt (<) (combineQueryPostings MatchAny postings)" by (simp add: combineQueryPostings_def)
qed

lemma posting_files_spec: "set (posting_files post) = unat ` p_fileId ` set post" "sorted_wrt (<) (posting_files post)"
proof -
  have "posting_files post = fold set_insert (map (\<lambda>p. unat (p_fileId p)) post) []"
    by (simp add: posting_files_def fold_map comp_def)
  then show "set (posting_files post) = unat ` p_fileId ` set post" "sorted_wrt (<) (posting_files post)"
    by (simp_all add: fold_set_insert image_image)
qed

lemma posting_count:
  assumes "index_ok s"
  shows "getPostingCopyByWord s w = Some post \<Longrightarrow> pl_find post f = count_of s w f"
    and "getPostingCopyByWord s w = None \<Longrightarrow> count_of s w f = None"
    and "getPostingCopyByWord s w = Some post \<Longrightarrow> f \<in> p_fileId ` set post \<longleftrightarrow> count_of s w f \<noteq> None"
proof -
  have "pl_invar (getWordCount s w)"
    using index_okD(3) [OF assms] by (simp add: getWordCount_word_list split: option.split)
  then have m: "pl_find (getWordCount s w) f = pl_map (getWordCount s w) f" by (rule pl_find_map)
  show "getPostingCopyByWord s w = Some post \<Longrightarrow> pl_find post f = count_of s w f"
    "getPostingCopyByWord s w = None \<Longrightarrow> count_of s w f = None"
    "getPostingCopyByWord s w = Some post \<Longrightarrow> f \<in> p_fileId ` set post \<longleftrightarrow> count_of s w f \<noteq> None"
    using m pl_map_None [of "getWordCount s w" f]
    by (auto simp: getPosting_WordCount count_of_def split: if_splits)
qed

lemma getUniqWords_spec: "set (getUniqWords inp) = set (stream_words inp)" "sorted_wrt (<) (getUniqWords inp)"
  by (simp_all add: getUniqWords_def fold_set_insert)

lemma intersectionSetFiles_spec:
  assumes "index_ok s"
  shows "set (intersectionSetFiles mode s request) = {unat f | f. matches mode s (set request) f}"
    and "sorted_wrt (<) (intersectionSetFiles mode s request)"
proof -
  let ?g = "\<lambda>w. map_option posting_files (getPostingCopyByWord s w)"
  have word: "n \<in> (case ?g w of None \<Rightarrow> {} | Some l \<Rightarrow> set l) \<longleftrightarrow> (\<exists>f. n = unat f \<and> count_of s w f \<noteq> None)" for w n
  proof (cases "getPostingCopyByWord s w")
    case None
    then show ?thesis using posting_count(2) [OF assms None] by simp
  next
    case (Some post)
    have "p_fileId ` set post = {f. count_of s w f \<noteq> None}" using posting_count(3) [OF assms Some] by blast
    then show ?thesis using Some by (auto simp: posting_files_spec)
  qed
  have sorted: "sorted_wrt (<) (the (?g w))" if "?g w \<noteq> None" for w using that by (auto simp: posting_files_spec)
  have "set (intersectionSetFiles mode s request) = {unat f | f. matches mode s (set request) f} \<and>
      sorted_wrt (<) (intersectionSetFiles mode s request)"
  proof (cases "request = []")
    case True
    then show ?thesis by (simp add: intersectionSetFiles_def matches_def)
  next
    case ne: False
    show ?thesis
    proof (cases mode)
      case MatchAny
      have "set (intersectionSetFiles MatchAny s request) = (\<Union>w \<in> set request. case ?g w of None \<Rightarrow> {} | Some l \<Rightarrow> set l)"
        using ne combine_any(1) [of "map ?g request"] by (simp add: intersectionSetFiles_def)
      also have "\<dots> = {unat f | f. \<exists>w \<in> set request. count_of s w f \<noteq> None}"
        by (intro set_eqI) (simp only: UN_iff word mem_Collect_eq, blast)
      finally show ?thesis using MatchAny ne combine_any(2) by (simp add: intersectionSetFiles_def matches_def)
    next
      case MatchAll
      show ?thesis
      proof (cases "\<exists>w \<in> set request. getPostingCopyByWord s w = None")
        case True
        then have "None \<in> set (map ?g request)" by force
        then have "intersectionSetFiles mode s request = []"
          using MatchAll ne by (simp add: intersectionSetFiles_def combineQueryPostings_def)
        moreover have "\<not> matches mode s (set request) f" for f
          using True posting_count(2) [OF assms] MatchAll by (auto simp: matches_def)
        ultimately show ?thesis by simp
      next
        case False
        have nn: "None \<notin> set (map ?g request)" using False by auto
        have so: "\<forall>p \<in> set (map ?g request). sorted_wrt (<) (the p)" using nn sorted by force
        have "set (intersectionSetFiles mode s request) = (\<Inter>w \<in> set request. set (the (?g w)))"
          using MatchAll ne combine_all(1) [OF _ nn so] by (simp add: intersectionSetFiles_def image_image)
        also have "\<dots> = {unat f | f. \<forall>w \<in> set request. count_of s w f \<noteq> None}"
        proof (intro equalityI subsetI)
          fix n assume n: "n \<in> (\<Inter>w \<in> set request. set (the (?g w)))"
          have "\<exists>f. n = unat f \<and> count_of s w f \<noteq> None" if "w \<in> set request" for w
          proof -
            obtain l where "?g w = Some l" using False \<open>w \<in> set request\<close> by auto
            then show ?thesis using n \<open>w \<in> set request\<close> word [of n w] by auto
          qed
          then have "count_of s w (of_nat n) \<noteq> None \<and> n = unat (of_nat n :: u32)" if "w \<in> set request" for w
            using that by fastforce
          moreover obtain w0 where "w0 \<in> set request" using ne by (cases request) auto
          ultimately show "n \<in> {unat f | f. \<forall>w \<in> set request. count_of s w f \<noteq> None}"
            by (intro CollectI exI [of _ "of_nat n"]) blast
        next
          fix n assume "n \<in> {unat f | f. \<forall>w \<in> set request. count_of s w f \<noteq> None}"
          then obtain f where f: "n = unat f" "\<And>w. w \<in> set request \<Longrightarrow> count_of s w f \<noteq> None" by blast
          show "n \<in> (\<Inter>w \<in> set request. set (the (?g w)))"
          proof
            fix w assume "w \<in> set request"
            moreover then obtain l where "?g w = Some l" using False by auto
            ultimately show "n \<in> set (the (?g w))" using f word [of n w] by auto
          qed
        qed
        finally show ?thesis using MatchAll ne combine_all(2) [OF _ nn so]
          by (simp add: intersectionSetFiles_def matches_def)
      qed
    qed
  qed
  then show "set (intersectionSetFiles mode s request) = {unat f | f. matches mode s (set request) f}"
    "sorted_wrt (<) (intersectionSetFiles mode s request)" by auto
qed

lemma relative_sum_spec:
  assumes "index_ok s" and "distinct request"
  shows "relative_sum mode s request (unat f) = relevance s (set request) f"
proof -
  let ?c = "\<lambda>w. case count_of s w f of None \<Rightarrow> 0 | Some c \<Rightarrow> unat c"
  have step: "(if mode = MatchAll \<or> getPostingCopyByWord s w \<noteq> None
         then (case getPostingCopyByWord s w of
                 None \<Rightarrow> acc
               | Some post \<Rightarrow> (case pl_find post (of_nat (unat f)) of None \<Rightarrow> acc | Some c \<Rightarrow> acc + unat c))
         else acc) = acc + ?c w" for w acc
    using posting_count [OF assms(1), of w] by (auto split: option.splits)
  have "fold (\<lambda>w acc. acc + ?c w) xs a = a + sum_list (map ?c xs)" for xs and a :: nat
    by (induction xs arbitrary: a) simp_all
  then have "relative_sum mode s request (unat f) = sum_list (map ?c request)"
    unfolding relative_sum_def step by simp
  then show ?thesis using assms(2) by (simp add: relevance_def sum_list_distinct_conv_sum_set)
qed

section \<open>The answer\<close>

text \<open>Every selected document is in the catalog and its path can be converted.\<close>

definition answerable :: "memory_catalog \<Rightarrow> u32 \<Rightarrow> bool" where
  "answerable c f \<longleftrightarrow> (\<exists>d. hd (mc_findByIds c [f]) = Some d \<and> well_formed16 (dr_path d))"

definition answer_of :: "memory_catalog \<Rightarrow> nat \<Rightarrow> nat \<Rightarrow> u32 \<Rightarrow> answer_item" where
  "answer_of c acc mx f =
     (case hd (mc_findByIds c [f]) of
        None \<Rightarrow> \<lparr>ai_path = [], ai_sum = acc, ai_max = mx, ai_deleted = False\<rparr>
      | Some d \<Rightarrow> \<lparr>ai_path = (case wstring_to_utf8 (dr_path d) of Inl _ \<Rightarrow> [] | Inr p \<Rightarrow> p),
                   ai_sum = acc, ai_max = mx, ai_deleted = dr_deleted d\<rparr>)"

lemma mc_findByIds_Cons: "mc_findByIds c (i # ids) = hd (mc_findByIds c [i]) # mc_findByIds c ids"
  by (simp add: mc_findByIds_def)

lemma build_answer_ok:
  assumes "\<forall>r \<in> set sel. answerable c (of_nat (fst r))"
  shows "build_answer mx (zip sel (mc_findByIds c (map (\<lambda>r. of_nat (fst r)) sel))) =
    Inr (map (\<lambda>r. answer_of c (snd r) mx (of_nat (fst r))) sel)"
  using assms
proof (induction sel)
  case (Cons r sel)
  obtain d where d: "hd (mc_findByIds c [of_nat (fst r)]) = Some d" "well_formed16 (dr_path d)"
    using Cons.prems by (auto simp: answerable_def)
  obtain p where "wstring_to_utf8 (dr_path d) = Inr p" using wstring_to_utf8_ok [OF d(2)] by blast
  with d Cons show ?case by (cases r) (simp add: answer_of_def mc_findByIds_Cons [of c _ "map _ sel"])
qed (simp add: mc_findByIds_def)

lemma fold_max_is_Max: "fold max xs (0 :: nat) = Max (insert 0 (set xs))"
  using Max.set_eq_fold [of 0 xs] by simp

lemma sort_key_of_map: "sort_key k (map g xs) = map g (sort_key (\<lambda>x. k (g x)) xs)"
proof -
  have "insort_key k (g x) (map g l) = map g (insort_key (\<lambda>x. k (g x)) x l)" for x l by (induction l) simp_all
  then show ?thesis by (induction xs) simp_all
qed

text \<open>C29: the files a query selects are exactly the files that contain, by the counters of the index, all
  its words or any of its words, in increasing order and without repetition.\<close>

theorem query_files_exact:
  assumes "index_ok s"
  shows "sorted_wrt (<) (intersectionSetFiles mode s request) \<and>
    (\<forall>n. n \<in> set (intersectionSetFiles mode s request) \<longleftrightarrow> (\<exists>f. n = unat f \<and> request \<noteq> [] \<and>
      (case mode of MatchAll \<Rightarrow> list_all (\<lambda>w. count_of s w f \<noteq> None) request
       | MatchAny \<Rightarrow> list_ex (\<lambda>w. count_of s w f \<noteq> None) request)))"
  using intersectionSetFiles_spec [OF assms, of mode request]
  by (cases mode) (auto simp: matches_def list_all_iff list_ex_iff)

text \<open>One word in one file.\<close>

definition ex_search :: inverted_index where
  "ex_search = \<lparr>ii_wordIds = \<lparr>word2id = [(''A'', 0)], id2word = [''A'']\<rparr>, ii_chunks = [],
     ii_dictionary = [[\<lparr>p_fileId = 0, p_cnt = 2\<rparr>]], ii_wordRefs = [(0, [0])]\<rparr>"

lemma ex_search_ok: "index_ok ex_search"
proof -
  have "wid_invar (ii_wordIds ex_search)"
    by (auto simp: ex_search_def wid_invar_def um_ok_def um_find_def unsigned_eq_0_iff)
  then show ?thesis
    by (auto simp: index_ok_def flat_invar_def ex_search_def wid_size_def um_ok_def pl_invar_def refs_of_def um_find_def
      pl_map_def split: if_splits)
qed

lemma ex_search_count: "count_of ex_search w f = (if w = ''A'' \<and> f = 0 then Some 2 else None)"
proof -
  have "getWordCount ex_search w = (if w = ''A'' then [\<lparr>p_fileId = 0, p_cnt = 2\<rparr>] else [])"
    by (simp add: ex_search_def getWordCount_flat wid_tryGet_def um_find_def)
  then show ?thesis by (simp add: count_of_def pl_find_map pl_invar_def pl_map_def)
qed

lemma query_files_exact_witness:
  "0 \<in> set (intersectionSetFiles MatchAny ex_search [''A'', ''B'']) \<and>
   intersectionSetFiles MatchAll ex_search [''A'', ''B''] = []"
  using query_files_exact [OF ex_search_ok, of MatchAny "[''A'', ''B'']"]
    query_files_exact [OF ex_search_ok, of MatchAll "[''A'', ''B'']"]
  by (simp add: ex_search_count)


definition ex_catalog :: memory_catalog where
  "ex_catalog = fst (mc_upsert [67] 5 6 mc_empty)"


end
