(* ===== verification/ServerLifecycle.thy ===== *)
theory ServerLifecycle
  imports SE_Prelude
begin

text \<open>
  Searches, background updates and shutdown of the server (\<open>src/src/SearchServer/SearchServer.cpp\<close>):
  the operation counter with \<open>OperationGuard\<close>, the gate between searches and an update, the update
  task that \<open>flushUpdateAndSaveDictionary\<close> posts to the pool, and \<open>requestStop\<close> and \<open>wait\<close>.

  A step is one critical section or one phase of a task; any number of searches and posted tasks
  may be under way, so every schedule of the threads is a sequence of steps. The fields \<open>sv_waiting\<close>,
  \<open>sv_running\<close>, \<open>sv_posted\<close>, \<open>sv_blocked_posted\<close>, \<open>sv_blocked_direct\<close> and \<open>sv_updater\<close> say where the threads are, \<open>sv_answered\<close> counts the
  searches that came back.
\<close>

section \<open>State\<close>

text \<open>The call of \<open>updateStep\<close> that holds \<open>updateM\<close>: scanning the directories, or past the gate with
  the exclusive search lock. The flag says whether it runs in the posted task, which holds an
  operation of its own, or was called directly, by the periodic task and at start-up.\<close>

datatype updater = NoUpdate | Scanning bool | Updating bool

record server =
  sv_activeOperations :: nat
  sv_stopping :: bool
  sv_update_is_running :: bool
  sv_must_start_update :: bool
  sv_waiting :: nat
  sv_running :: nat
  sv_posted :: nat
  sv_blocked_posted :: nat
  sv_blocked_direct :: nat
  sv_updater :: updater
  sv_answered :: nat

definition server_init :: server where
  "server_init = \<lparr>sv_activeOperations = 0, sv_stopping = False, sv_update_is_running = False,
     sv_must_start_update = False, sv_waiting = 0, sv_running = 0, sv_posted = 0,
     sv_blocked_posted = 0, sv_blocked_direct = 0, sv_updater = NoUpdate, sv_answered = 0\<rparr>"

section \<open>Operations\<close>

definition beginOperation :: "server \<Rightarrow> server option" where
  "beginOperation s =
     (if sv_stopping s then None else Some (s\<lparr>sv_activeOperations := sv_activeOperations s + 1\<rparr>))"

definition finishOperation :: "server \<Rightarrow> server" where
  "finishOperation s =
     (if sv_activeOperations s > 0 then s\<lparr>sv_activeOperations := sv_activeOperations s - 1\<rparr> else s)"

definition server_requestStop :: "server \<Rightarrow> server" where
  "server_requestStop s = s\<lparr>sv_stopping := True, sv_must_start_update := False\<rparr>"

text \<open>\<open>wait\<close> returns when no operation is active.\<close>

definition wait_may_return :: "server \<Rightarrow> bool" where
  "wait_may_return s \<longleftrightarrow> sv_activeOperations s = 0"

fun holds_gate :: "updater \<Rightarrow> bool" where
  "holds_gate (Updating _) = True"
| "holds_gate _ = False"

text \<open>\<open>getAnswer\<close>: the guard, the gate, the end of the search.\<close>

definition search_begin :: "server \<Rightarrow> server" where
  "search_begin s =
     (case beginOperation s of None \<Rightarrow> s | Some s' \<Rightarrow> s'\<lparr>sv_waiting := sv_waiting s' + 1\<rparr>)"

definition search_may_enter :: "server \<Rightarrow> bool" where
  "search_may_enter s \<longleftrightarrow> sv_waiting s > 0 \<and> \<not> sv_update_is_running s \<and> \<not> holds_gate (sv_updater s)"

definition search_enter :: "server \<Rightarrow> server" where
  "search_enter s = s\<lparr>sv_waiting := sv_waiting s - 1, sv_running := sv_running s + 1\<rparr>"

definition search_end :: "server \<Rightarrow> server" where
  "search_end s = finishOperation (s\<lparr>sv_running := sv_running s - 1, sv_answered := sv_answered s + 1\<rparr>)"

text \<open>The task of the pool: \<open>updateStep\<close> and what the lambda does after it.\<close>

definition flushUpdateAndSaveDictionary :: "server \<Rightarrow> server" where
  "flushUpdateAndSaveDictionary s =
     (if sv_stopping s \<or> sv_update_is_running s then s
      else if sv_must_start_update s then s
      else (case beginOperation (s\<lparr>sv_must_start_update := True\<rparr>) of
              None \<Rightarrow> s\<lparr>sv_must_start_update := False\<rparr>
            | Some s' \<Rightarrow> s'\<lparr>sv_posted := sv_posted s' + 1\<rparr>))"

definition task_end :: "server \<Rightarrow> server" where
  "task_end s = finishOperation (s\<lparr>sv_must_start_update := False\<rparr>)"

text \<open>What follows the return of \<open>updateStep\<close>, in the task or in a direct caller.\<close>

definition caller_end :: "bool \<Rightarrow> server \<Rightarrow> server" where
  "caller_end posted s = (if posted then task_end s else s)"

text \<open>\<open>updateStep\<close> takes its guard, then \<open>updateM\<close>; \<open>index_work\<close> is the index' own flag.\<close>

definition update_enter :: "bool \<Rightarrow> server \<Rightarrow> server" where
  "update_enter posted s =
     (let s = (if posted then s\<lparr>sv_posted := sv_posted s - 1\<rparr> else s)
      in case beginOperation s of
           None \<Rightarrow> caller_end posted (s\<lparr>sv_must_start_update := False\<rparr>)
         | Some s' \<Rightarrow>
             if posted then s'\<lparr>sv_blocked_posted := sv_blocked_posted s' + 1\<rparr>
             else s'\<lparr>sv_blocked_direct := sv_blocked_direct s' + 1\<rparr>)"

definition update_begin :: "bool \<Rightarrow> bool \<Rightarrow> server \<Rightarrow> server" where
  "update_begin posted index_work s =
     (let s = (if posted then s\<lparr>sv_blocked_posted := sv_blocked_posted s - 1\<rparr>
               else s\<lparr>sv_blocked_direct := sv_blocked_direct s - 1\<rparr>)
      in if sv_update_is_running s \<or> index_work then caller_end posted (finishOperation s)
         else s\<lparr>sv_updater := Scanning posted\<rparr>)"

text \<open>An exception of the scan leaves the function before any flag is set.\<close>

definition update_scan_failed :: "bool \<Rightarrow> server \<Rightarrow> server" where
  "update_scan_failed posted s = caller_end posted (finishOperation (s\<lparr>sv_updater := NoUpdate\<rparr>))"

definition update_start :: "bool \<Rightarrow> server \<Rightarrow> server" where
  "update_start posted s =
     s\<lparr>sv_update_is_running := True, sv_must_start_update := False, sv_updater := Updating posted\<rparr>"

text \<open>\<open>fut.get()\<close> throws: the flags are reset, then the exception goes on.\<close>

definition update_index_failed :: "bool \<Rightarrow> server \<Rightarrow> server" where
  "update_index_failed posted s =
     caller_end posted (finishOperation
       (s\<lparr>sv_update_is_running := False, sv_must_start_update := False, sv_updater := NoUpdate\<rparr>))"

text \<open>The end of \<open>updateStep\<close>: compaction, \<open>saveIndex\<close>, statistics. An exception of this part is not
  caught in \<open>updateStep\<close>.\<close>

definition update_finish :: "bool \<Rightarrow> bool \<Rightarrow> server \<Rightarrow> server" where
  "update_finish saved posted s =
     (if saved
      then caller_end posted (finishOperation
        (s\<lparr>sv_update_is_running := False, sv_must_start_update := False, sv_updater := NoUpdate\<rparr>))
      else caller_end posted (finishOperation (s\<lparr>sv_updater := NoUpdate\<rparr>)))"

section \<open>Schedules\<close>

inductive server_step :: "server \<Rightarrow> server \<Rightarrow> bool" where
  search_begins: "server_step s (search_begin s)"
| search_enters: "search_may_enter s \<Longrightarrow> server_step s (search_enter s)"
| search_ends: "sv_running s > 0 \<Longrightarrow> server_step s (search_end s)"
| flush: "server_step s (flushUpdateAndSaveDictionary s)"
| posted_enters: "sv_posted s > 0 \<Longrightarrow> server_step s (update_enter True s)"
| direct_enters: "server_step s (update_enter False s)"
| update_begins: "sv_updater s = NoUpdate \<Longrightarrow>
    (if posted then sv_blocked_posted s > 0 else sv_blocked_direct s > 0) \<Longrightarrow>
    server_step s (update_begin posted index_work s)"
| scan_fails: "sv_updater s = Scanning posted \<Longrightarrow> server_step s (update_scan_failed posted s)"
| update_starts: "sv_updater s = Scanning posted \<Longrightarrow> sv_running s = 0 \<Longrightarrow> server_step s (update_start posted s)"
| index_fails: "sv_updater s = Updating posted \<Longrightarrow> server_step s (update_index_failed posted s)"
| finishes: "sv_updater s = Updating posted \<Longrightarrow> server_step s (update_finish saved posted s)"
| stop: "server_step s (server_requestStop s)"

inductive server_reach :: "server \<Rightarrow> bool" where
  init: "server_reach server_init"
| step: "server_reach s \<Longrightarrow> server_step s s' \<Longrightarrow> server_reach s'"

lemmas server_defs = beginOperation_def finishOperation_def server_requestStop_def search_begin_def search_may_enter_def
  search_enter_def search_end_def flushUpdateAndSaveDictionary_def task_end_def caller_end_def update_enter_def
  update_begin_def update_scan_failed_def update_start_def update_index_failed_def update_finish_def Let_def

section \<open>The invariant\<close>

fun updater_ops :: "updater \<Rightarrow> nat" where
  "updater_ops NoUpdate = 0"
| "updater_ops (Scanning posted) = (if posted then 2 else 1)"
| "updater_ops (Updating posted) = (if posted then 2 else 1)"

text \<open>The counter counts the searches, the posted tasks, and a call of \<open>updateStep\<close> twice when it runs in
  the task: the guard of the task and the guard inside \<open>updateStep\<close>. During an update no search is
  inside the gate.\<close>

definition server_inv :: "server \<Rightarrow> bool" where
  "server_inv s \<longleftrightarrow>
     sv_activeOperations s = sv_waiting s + sv_running s + sv_posted s + 2 * sv_blocked_posted s +
       sv_blocked_direct s + updater_ops (sv_updater s) \<and>
     (holds_gate (sv_updater s) \<longrightarrow> sv_running s = 0 \<and> sv_update_is_running s)"

lemma server_step_inv: "server_step s s' \<Longrightarrow> server_inv s \<Longrightarrow> server_inv s'"
  by (induction rule: server_step.induct) (auto simp: server_inv_def server_defs split: if_splits option.splits)

lemma server_reach_inv: "server_reach s \<Longrightarrow> server_inv s"
proof (induction rule: server_reach.induct)
  case init
  then show ?case by (simp add: server_inv_def server_init_def)
qed (rule server_step_inv)

section \<open>Shutdown\<close>

lemma stopping_step:
  assumes "server_step s s'" and "sv_stopping s" and "sv_activeOperations s = 0" and "server_inv s"
  shows "sv_stopping s' \<and> sv_activeOperations s' = 0"
  using assms by (induction rule: server_step.induct)
    (auto simp: server_inv_def server_defs split: if_splits option.splits)

text \<open>C40: an update and a search never overlap inside the gate, and \<open>wait\<close> returns only when nothing is
  under way: no search, no posted task and no update; after a stop request it stays so for every
  further schedule, because no operation can begin.\<close>

theorem shutdown_is_complete:
  assumes "server_reach s" and "sv_stopping s" and "wait_may_return s" and "server_step\<^sup>*\<^sup>* s s'"
  shows "sv_activeOperations s' = 0 \<and> sv_waiting s' = 0 \<and> sv_running s' = 0 \<and> sv_posted s' = 0 \<and>
    sv_blocked_posted s' = 0 \<and> sv_blocked_direct s' = 0 \<and> sv_updater s' = NoUpdate"
proof -
  have "server_inv s' \<and> sv_stopping s' \<and> sv_activeOperations s' = 0"
    using assms(4)
  proof (induction rule: rtranclp_induct)
    case base
    then show ?case using server_reach_inv [OF assms(1)] assms(2,3) by (simp add: wait_may_return_def)
  next
    case (step y z)
    then show ?case using server_step_inv stopping_step by blast
  qed
  then show ?thesis by (cases "sv_updater s'") (auto simp: server_inv_def split: if_splits)
qed

lemma shutdown_is_complete_witness:
  "sv_waiting (search_begin (server_requestStop server_init)) = 0"
proof -
  let ?s = "server_requestStop server_init"
  have r: "server_reach ?s" by (rule server_reach.step [OF server_reach.init server_step.stop])
  have "sv_stopping ?s" "wait_may_return ?s" by (simp_all add: server_requestStop_def wait_may_return_def server_init_def)
  moreover have "server_step\<^sup>*\<^sup>* ?s (search_begin ?s)" by (rule r_into_rtranclp) (rule server_step.search_begins)
  ultimately show ?thesis using shutdown_is_complete [OF r] by blast
qed

section \<open>A failed save\<close>

text \<open>The state a failed save leaves: the flag is set, nobody is going to reset it.\<close>

definition stuck :: "server \<Rightarrow> bool" where
  "stuck s \<longleftrightarrow> sv_update_is_running s \<and> sv_running s = 0 \<and> sv_updater s = NoUpdate"

lemma stuck_step:
  assumes "server_step s s'" and "stuck s"
  shows "stuck s' \<and> sv_answered s' = sv_answered s \<and> sv_waiting s \<le> sv_waiting s'"
  using assms by (induction rule: server_step.induct)
    (auto simp: stuck_def server_defs split: if_splits option.splits)

lemma stuck_steps:
  assumes "server_step\<^sup>*\<^sup>* s s'" and "stuck s"
  shows "stuck s' \<and> sv_answered s' = sv_answered s \<and> sv_waiting s \<le> sv_waiting s'"
  using assms
proof (induction rule: rtranclp_induct)
  case (step y z)
  then show ?case using stuck_step [OF step(2)] by force
qed simp

text \<open>when the compaction or \<open>saveIndex\<close> at the end of an update throws, which the live mirror does
  after any writer error, \<open>update_is_running\<close> stays set: from then on no schedule answers another
  search or starts another update, and once a search is waiting, \<open>wait\<close> and with it \<open>stop\<close> never
  return.\<close>

theorem failed_save_blocks_server:
  assumes "server_reach s" and "sv_updater s = Updating posted" and "server_step\<^sup>*\<^sup>* (update_finish False posted s) s'"
  shows "sv_answered s' = sv_answered s \<and> \<not> search_may_enter s' \<and> flushUpdateAndSaveDictionary s' = s' \<and>
    (sv_waiting s' > 0 \<longrightarrow> (\<forall>s''. server_step\<^sup>*\<^sup>* s' s'' \<longrightarrow> \<not> wait_may_return s''))"
proof -
  let ?f = "update_finish False posted s"
  have reach: "server_reach ?f" using assms(1,2) by (auto intro: server_reach.step server_step.finishes)
  have "stuck ?f" using server_reach_inv [OF assms(1)] assms(2) by (auto simp: stuck_def server_inv_def server_defs)
  then have st: "stuck s'" "sv_answered s' = sv_answered ?f" using stuck_steps [OF assms(3)] by auto
  have reach': "server_reach s'" using assms(3) reach
    by (induction rule: rtranclp_induct) (auto intro: server_reach.step)
  have "\<not> wait_may_return s''" if "sv_waiting s' > 0" "server_step\<^sup>*\<^sup>* s' s''" for s''
  proof -
    have "server_reach s''" using that(2) reach' by (induction rule: rtranclp_induct) (auto intro: server_reach.step)
    moreover have "sv_waiting s'' > 0" using stuck_steps [OF that(2) st(1)] that(1) by simp
    ultimately show ?thesis using server_reach_inv [of s''] by (auto simp: server_inv_def wait_may_return_def)
  qed
  then show ?thesis using st
    by (auto simp: stuck_def search_may_enter_def flushUpdateAndSaveDictionary_def server_defs)
qed

definition ex_updating :: server where
  "ex_updating = update_start False (update_begin False False (update_enter False server_init))"

lemma failed_save_blocks_server_witness:
  "\<not> search_may_enter (search_begin (update_finish False False ex_updating))"
proof -
  have "server_reach (update_enter False server_init)" by (rule server_reach.step [OF server_reach.init server_step.direct_enters])
  then have "server_reach (update_begin False False (update_enter False server_init))"
    by (rule server_reach.step) (rule server_step.update_begins, simp_all add: server_init_def server_defs)
  then have "server_reach ex_updating" unfolding ex_updating_def
    by (rule server_reach.step) (rule server_step.update_starts, simp_all add: server_init_def server_defs)
  moreover have "sv_updater ex_updating = Updating False" by (simp add: ex_updating_def update_start_def)
  moreover have "server_step\<^sup>*\<^sup>* (update_finish False False ex_updating) (search_begin (update_finish False False ex_updating))"
    by (rule r_into_rtranclp) (rule server_step.search_begins)
  ultimately show ?thesis using failed_save_blocks_server by blast
qed

end
