(* ===== verification/SQLite_Varint.thy ===== *)
theory SQLite_Varint
  imports SE_Prelude
begin

unbundle bit_operations_syntax

text \<open>
  The variable-length integers of the SQLite file format (\<open>src/src/SQLite/sqlite3.c\<close>, the part
  \<open>util.c\<close>): \<open>putVarint64\<close>, \<open>sqlite3PutVarint\<close>, \<open>sqlite3GetVarint\<close>, \<open>sqlite3GetVarint32\<close>,
  \<open>sqlite3VarintLen\<close>, and the four-byte big-endian integers. Every record of the index
  database is made of them. A buffer is the list of its bytes; a writer returns the bytes it
  writes from the start of the buffer.
\<close>

section \<open>Writing\<close>

lemma drop_bit_7_less: "drop_bit 7 (v :: u64) \<noteq> 0 \<Longrightarrow> unat (drop_bit 7 v) < unat v"
proof -
  assume "drop_bit 7 v \<noteq> 0"
  then have "v \<noteq> 0" by auto
  then have "unat v div 2 ^ 7 < unat v" by (intro div_less_dividend) (simp_all add: unat_gt_0)
  moreover have "unat (drop_bit 7 v) = unat v div 2 ^ 7" unfolding unat_drop_bit_eq by (rule drop_bit_eq_div)
  ultimately show ?thesis by simp
qed

function varint_groups :: "u64 \<Rightarrow> u8 list" where
  "varint_groups v =
     (ucast (v AND 0x7f) OR 0x80) # (if drop_bit 7 v = 0 then [] else varint_groups (drop_bit 7 v))"
  by pat_completeness auto
termination by (relation "measure unat") (simp_all add: drop_bit_7_less)

declare varint_groups.simps [simp del]

definition putVarint64 :: "u64 \<Rightarrow> u8 list" where
  "putVarint64 v =
     (if v AND push_bit 32 0xff000000 \<noteq> 0 then
        map (\<lambda>i. ucast (drop_bit (7 * (7 - i)) (drop_bit 8 v) AND 0x7f) OR 0x80) [0..<8] @ [ucast v]
      else let buf = varint_groups v in rev (buf[0 := buf ! 0 AND 0x7f]))"

definition sqlite3PutVarint :: "u64 \<Rightarrow> u8 list" where
  "sqlite3PutVarint v =
     (if v \<le> 0x7f then [ucast (v AND 0x7f)]
      else if v \<le> 0x3fff then [ucast (drop_bit 7 v AND 0x7f OR 0x80), ucast (v AND 0x7f)]
      else putVarint64 v)"

function varint_len_from :: "u64 \<Rightarrow> nat \<Rightarrow> nat" where
  "varint_len_from v i = (if drop_bit 7 v = 0 then i else varint_len_from (drop_bit 7 v) (i + 1))"
  by pat_completeness auto
termination by (relation "measure (\<lambda>(v, i). unat v)") (simp_all add: drop_bit_7_less)

declare varint_len_from.simps [simp del]

definition sqlite3VarintLen :: "u64 \<Rightarrow> nat" where
  "sqlite3VarintLen v = varint_len_from v 1"

section \<open>Reading\<close>

definition SLOT_2_0 :: u32 where "SLOT_2_0 = 0x001fc07f"

definition SLOT_4_2_0 :: u32 where "SLOT_4_2_0 = 0xf01fc07f"

text \<open>The two 32-bit halves of the result, \<open>((u64)s)<<32 | a\<close>.\<close>

definition join64 :: "u32 \<Rightarrow> u32 \<Rightarrow> u64" where
  "join64 s a = push_bit 32 (ucast s) OR ucast a"

text \<open>\<open>sqlite3GetVarint\<close>, its assignments in the order of the code; the value and the length.\<close>

definition sqlite3GetVarint :: "u8 list \<Rightarrow> u64 \<times> nat" where
  "sqlite3GetVarint p =
    (if \<not> bit (p ! 0) 7 then (ucast (p ! 0), 1)
     else if \<not> bit (p ! 1) 7 then
       (ucast (push_bit 7 (ucast (p ! 0 AND 0x7f) :: u32) OR ucast (p ! 1)), 2)
     else
      let a = push_bit 14 (ucast (p ! 0)) :: u32; b = ucast (p ! 1) :: u32; a = a OR ucast (p ! 2)
      in if a AND 0x80 = 0 then
           let a = a AND SLOT_2_0; b = push_bit 7 (b AND 0x7f) in (ucast (a OR b), 3)
         else
      let a = a AND SLOT_2_0; b = push_bit 14 b OR ucast (p ! 3)
      in if b AND 0x80 = 0 then
           let b = b AND SLOT_2_0; a = push_bit 7 a in (ucast (a OR b), 4)
         else
      let b = b AND SLOT_2_0; s = a; a = push_bit 14 a OR ucast (p ! 4)
      in if a AND 0x80 = 0 then
           let b = push_bit 7 b; a = a OR b; s = drop_bit 18 s in (join64 s a, 5)
         else
      let s = push_bit 7 s OR b; b = push_bit 14 b OR ucast (p ! 5)
      in if b AND 0x80 = 0 then
           let a = push_bit 7 (a AND SLOT_2_0) OR b; s = drop_bit 18 s in (join64 s a, 6)
         else
      let a = push_bit 14 a OR ucast (p ! 6)
      in if a AND 0x80 = 0 then
           let a = a AND SLOT_4_2_0; b = push_bit 7 (b AND SLOT_2_0); a = a OR b; s = drop_bit 11 s
           in (join64 s a, 7)
         else
      let a = a AND SLOT_2_0; b = push_bit 14 b OR ucast (p ! 7)
      in if b AND 0x80 = 0 then
           let b = b AND SLOT_4_2_0; a = push_bit 7 a OR b; s = drop_bit 4 s in (join64 s a, 8)
         else
      let a = push_bit 15 a OR ucast (p ! 8); b = push_bit 8 (b AND SLOT_2_0); a = a OR b;
          s = push_bit 4 s; b = drop_bit 3 (ucast (p ! 4) AND 0x7f); s = s OR b
      in (join64 s a, 9))"

definition sqlite3GetVarint32 :: "u8 list \<Rightarrow> u32 \<times> nat" where
  "sqlite3GetVarint32 p =
    (let a = ucast (p ! 0) :: u32
     in if a AND 0x80 = 0 then (a, 1)
        else let b = ucast (p ! 1) :: u32
     in if b AND 0x80 = 0 then (push_bit 7 (a AND 0x7f) OR b, 2)
        else let a = push_bit 14 a OR ucast (p ! 2)
     in if a AND 0x80 = 0 then ((a AND (push_bit 14 0x7f OR 0x7f)) OR push_bit 7 (b AND 0x7f), 3)
        else let (v64, n) = sqlite3GetVarint p
     in if v64 AND 0xffffffff \<noteq> v64 then (0xffffffff, n) else (ucast v64, n))"

section \<open>Four-byte integers\<close>

definition sqlite3Get4byte :: "u8 list \<Rightarrow> u32" where
  "sqlite3Get4byte p =
     push_bit 24 (ucast (p ! 0)) OR push_bit 16 (ucast (p ! 1)) OR push_bit 8 (ucast (p ! 2)) OR ucast (p ! 3)"

definition sqlite3Put4byte :: "u32 \<Rightarrow> u8 list" where
  "sqlite3Put4byte v = [ucast (drop_bit 24 v), ucast (drop_bit 16 v), ucast (drop_bit 8 v), ucast v]"

section \<open>Bits\<close>

lemma test_bit_80: "w AND 0x80 = 0 \<longleftrightarrow> \<not> bit (w :: 'a :: len word) 7"
  using and_exp_eq_0_iff_not_bit [of w 7] by simp

lemma upt_64: "[0..<64] = [
    0, 1, 2, 3, 4, 5, 6, 7, 8, 9, 10, 11, 12, 13, 14, 15, 16, 17, 18, 19, 20, 21, 22, 23, 24,
    25, 26, 27, 28, 29, 30, 31, 32, 33, 34, 35, 36, 37, 38, 39, 40, 41, 42, 43, 44, 45, 46,
    47, 48, 49, 50, 51, 52, 53, 54, 55, 56, 57, 58, 59, 60, 61, 62, 63]"
  by code_simp

lemma word64_eqI: "(\<forall>k \<in> set [0..<64]. bit (x :: u64) k = bit y k) \<Longrightarrow> x = y"
  by (intro bit_word_eqI) simp

lemma get4byte_put4byte: "sqlite3Get4byte (sqlite3Put4byte v) = v"
  unfolding sqlite3Get4byte_def sqlite3Put4byte_def
  by (rule word32_eqI, unfold upt_32) (simp add: bit_simps)

section \<open>The bytes of a varint\<close>

text \<open>The group of seven bits that starts at bit \<open>7 * i\<close>.\<close>

definition grp :: "u64 \<Rightarrow> nat \<Rightarrow> u8" where
  "grp v i = ucast (drop_bit (7 * i) v AND 0x7f)"

lemma bit_grp: "bit (grp v i) k \<longleftrightarrow> k < 7 \<and> bit v (7 * i + k)"
proof -
  have "(0x7f :: u64) = mask 7" by (simp add: mask_eq_exp_minus_1)
  then show ?thesis unfolding grp_def by (auto simp only: bit_simps) (auto dest: bit_imp_le_length)
qed

lemma drop_bit_zero_bits: "drop_bit m (v :: u64) = 0 \<Longrightarrow> m \<le> k \<Longrightarrow> \<not> bit v k"
  using bit_drop_bit_eq [of m v] by (metis bit_0_eq bot_apply bot_bool_def le_add_diff_inverse comp_apply)

lemma drop_bit_zero_mono: "drop_bit m (v :: u64) = 0 \<Longrightarrow> m \<le> n \<Longrightarrow> drop_bit n v = 0"
  by (rule bit_word_eqI) (simp add: bit_drop_bit_eq drop_bit_zero_bits)

lemma varint_groups_unfold: "varint_groups (drop_bit (7 * i) v) =
    (grp v i OR 0x80) # (if drop_bit (7 * Suc i) v = 0 then [] else varint_groups (drop_bit (7 * Suc i) v))"
  by (subst varint_groups.simps) (simp add: grp_def drop_bit_drop_bit add.commute)

lemma varint_groups_map:
  assumes "drop_bit (7 * Suc n) v = 0" and "i \<le> n" and "i = n \<or> drop_bit (7 * n) v \<noteq> 0"
  shows "varint_groups (drop_bit (7 * i) v) = map (\<lambda>i. grp v i OR 0x80) [i..<Suc n]"
  using assms(2,3)
proof (induction "n - i" arbitrary: i)
  case 0
  then have "i = n" by simp
  with assms(1) show ?case by (subst varint_groups_unfold) simp
next
  case (Suc d)
  then have i: "i < n" "drop_bit (7 * n) v \<noteq> 0" by auto
  have "drop_bit (7 * Suc i) v \<noteq> 0" using drop_bit_zero_mono [of "7 * Suc i" v "7 * n"] i by auto
  moreover have "varint_groups (drop_bit (7 * Suc i) v) = map (\<lambda>i. grp v i OR 0x80) [Suc i..<Suc n]"
    using Suc i by (intro Suc.hyps) auto
  ultimately show ?case using i(1) by (subst varint_groups_unfold) (simp add: upt_conv_Cons)
qed

lemma varint_groups_exact:
  assumes "drop_bit (7 * Suc n) v = 0" and "n = 0 \<or> drop_bit (7 * n) v \<noteq> 0"
  shows "varint_groups v = map (\<lambda>i. grp v i OR 0x80) [0..<Suc n]"
  using varint_groups_map [OF assms(1), of 0] assms(2) by auto

lemma grp_clear: "(grp v i OR 0x80) AND 0x7f = grp v i"
proof (rule bit_word_eqI)
  fix k assume "k < LENGTH(8)"
  have "(0x7f :: u8) = mask 7" "(0x80 :: u8) = 2 ^ 7" by (simp_all add: mask_eq_exp_minus_1)
  then show "bit ((grp v i OR 0x80) AND 0x7f) k = bit (grp v i) k"
    by (simp only: bit_simps bit_grp) auto
qed

lemma high_byte: "v AND push_bit 32 0xff000000 \<noteq> 0 \<longleftrightarrow> drop_bit 56 (v :: u64) \<noteq> 0"
proof -
  have "v AND push_bit 32 0xff000000 = push_bit 56 (drop_bit 56 v)"
    by (rule word64_eqI, unfold upt_64) (simp add: bit_simps)
  moreover have "push_bit 56 (drop_bit 56 v) = 0 \<longleftrightarrow> drop_bit 56 v = 0"
  proof
    assume a: "push_bit 56 (drop_bit 56 v) = 0"
    show "drop_bit 56 v = 0"
    proof (rule bit_word_eqI)
      fix k assume "k < LENGTH(64)"
      have "\<not> bit (push_bit 56 (drop_bit 56 v)) (56 + k)" unfolding a by simp
      then show "bit (drop_bit 56 v) k = bit 0 k"
        by (auto simp: bit_push_bit_iff bit_drop_bit_eq dest: bit_imp_le_length)
    qed
  qed simp
  ultimately show ?thesis by simp
qed

lemma drop_bit_0_le: "drop_bit m (v :: u64) = 0 \<longleftrightarrow> unat v < 2 ^ m"
proof -
  have "unat (drop_bit m v) = unat v div 2 ^ m" unfolding unat_drop_bit_eq by (rule drop_bit_eq_div)
  moreover have "drop_bit m v = 0 \<longleftrightarrow> unat (drop_bit m v) = 0" by (simp add: unat_eq_0)
  ultimately show ?thesis by (simp add: div_eq_0_iff)
qed

lemma le_drop_bit: "v \<le> 0x7f \<longleftrightarrow> drop_bit 7 (v :: u64) = 0" "v \<le> 0x3fff \<longleftrightarrow> drop_bit 14 (v :: u64) = 0"
  by (auto simp: drop_bit_0_le word_le_nat_alt)

lemma bit_0x80: "bit (0x80 :: u8) k \<longleftrightarrow> k = 7"
proof -
  have "(0x80 :: u8) = 2 ^ 7" by simp
  then show ?thesis by (simp only: bit_exp_iff) auto
qed

lemma putVarint_form:
  assumes "drop_bit (7 * Suc n) v = 0" and "n = 0 \<or> drop_bit (7 * n) v \<noteq> 0" and "n \<le> 7"
  shows "sqlite3PutVarint v = map (\<lambda>i. grp v i OR 0x80) (rev [1..<Suc n]) @ [grp v 0]"
proof -
  consider "n = 0" | "n = 1" | "2 \<le> n" by linarith
  then show ?thesis
  proof cases
    case 1
    with assms show ?thesis by (simp add: sqlite3PutVarint_def le_drop_bit grp_def)
  next
    case 2
    have "ucast (drop_bit 7 v AND 0x7f OR 0x80) = grp v 1 OR 0x80"
      unfolding grp_def by (rule bit_word_eqI) (simp add: bit_simps)
    with 2 assms show ?thesis by (simp add: sqlite3PutVarint_def le_drop_bit grp_def)
  next
    case 3
    then have "drop_bit 14 v \<noteq> 0" using assms drop_bit_zero_mono [of 14 v "7 * n"] by auto
    moreover from this have "drop_bit 7 v \<noteq> 0" using drop_bit_zero_mono [of 7 v 14] by auto
    moreover have "drop_bit 56 v = 0" using drop_bit_zero_mono [OF assms(1), of 56] assms(3) by simp
    ultimately have "sqlite3PutVarint v = (let buf = varint_groups v in rev (buf[0 := buf ! 0 AND 0x7f]))"
      using high_byte [of v] by (simp add: sqlite3PutVarint_def le_drop_bit putVarint64_def)
    also have "varint_groups v = (grp v 0 OR 0x80) # map (\<lambda>i. grp v i OR 0x80) [1..<Suc n]"
      using varint_groups_exact [OF assms(1,2)] 3 by (simp add: upt_conv_Cons)
    finally show ?thesis by (simp add: grp_clear rev_map)
  qed
qed

lemmas varint_bits = bit_simps bit_grp bit_0x80 test_bit_80 SLOT_2_0_def SLOT_4_2_0_def join64_def

lemma getVarint_1: "drop_bit 7 v = 0 \<Longrightarrow>
   sqlite3GetVarint ([grp v 0] @ t) = (v, 1)"
  by (simp add: sqlite3GetVarint_def Let_def varint_bits, rule word64_eqI, unfold upt_64)
    (simp add: varint_bits drop_bit_zero_bits)

lemma getVarint_2: "drop_bit 14 v = 0 \<Longrightarrow>
   sqlite3GetVarint ([grp v 1 OR 0x80, grp v 0] @ t) = (v, 2)"
  by (simp add: sqlite3GetVarint_def Let_def varint_bits, rule word64_eqI, unfold upt_64)
    (simp add: varint_bits drop_bit_zero_bits)

lemma getVarint_3: "drop_bit 21 v = 0 \<Longrightarrow>
   sqlite3GetVarint ([grp v 2 OR 0x80, grp v 1 OR 0x80, grp v 0] @ t) = (v, 3)"
  by (simp add: sqlite3GetVarint_def Let_def varint_bits, rule word64_eqI, unfold upt_64)
    (simp add: varint_bits drop_bit_zero_bits)

lemma getVarint_4: "drop_bit 28 v = 0 \<Longrightarrow>
   sqlite3GetVarint ([grp v 3 OR 0x80, grp v 2 OR 0x80, grp v 1 OR 0x80, grp v 0] @ t) = (v, 4)"
  by (simp add: sqlite3GetVarint_def Let_def varint_bits, rule word64_eqI, unfold upt_64)
    (simp add: varint_bits drop_bit_zero_bits)

lemma getVarint_5: "drop_bit 35 v = 0 \<Longrightarrow>
   sqlite3GetVarint ([grp v 4 OR 0x80, grp v 3 OR 0x80,
     grp v 2 OR 0x80, grp v 1 OR 0x80, grp v 0] @ t) = (v, 5)"
  by (simp add: sqlite3GetVarint_def Let_def varint_bits, rule word64_eqI, unfold upt_64)
    (simp add: varint_bits drop_bit_zero_bits)

lemma getVarint_6: "drop_bit 42 v = 0 \<Longrightarrow>
   sqlite3GetVarint ([grp v 5 OR 0x80, grp v 4 OR 0x80, grp v 3 OR 0x80,
     grp v 2 OR 0x80, grp v 1 OR 0x80, grp v 0] @ t) = (v, 6)"
  by (simp add: sqlite3GetVarint_def Let_def varint_bits, rule word64_eqI, unfold upt_64)
    (simp add: varint_bits drop_bit_zero_bits)

lemma getVarint_7: "drop_bit 49 v = 0 \<Longrightarrow>
   sqlite3GetVarint ([grp v 6 OR 0x80, grp v 5 OR 0x80, grp v 4 OR 0x80, grp v 3 OR 0x80,
     grp v 2 OR 0x80, grp v 1 OR 0x80, grp v 0] @ t) = (v, 7)"
  by (simp add: sqlite3GetVarint_def Let_def varint_bits, rule word64_eqI, unfold upt_64)
    (simp add: varint_bits drop_bit_zero_bits)

lemma getVarint_8: "drop_bit 56 v = 0 \<Longrightarrow>
   sqlite3GetVarint ([grp v 7 OR 0x80, grp v 6 OR 0x80, grp v 5 OR 0x80, grp v 4 OR 0x80, grp v 3 OR 0x80,
     grp v 2 OR 0x80, grp v 1 OR 0x80, grp v 0] @ t) = (v, 8)"
  by (simp add: sqlite3GetVarint_def Let_def varint_bits, rule word64_eqI, unfold upt_64)
    (simp add: varint_bits drop_bit_zero_bits)

lemma bit_ucast_group: "bit (ucast (drop_bit m (v :: u64) AND 0x7f) :: u8) k \<longleftrightarrow> k < 7 \<and> bit v (m + k)"
proof -
  have "(0x7f :: u64) = mask 7" by (simp add: mask_eq_exp_minus_1)
  then show ?thesis by (auto simp only: bit_simps) (auto dest: bit_imp_le_length)
qed

definition nine_bytes :: "u64 \<Rightarrow> u8 list" where
  "nine_bytes v = [ucast (drop_bit 57 v AND 0x7f) OR 0x80, ucast (drop_bit 50 v AND 0x7f) OR 0x80,
     ucast (drop_bit 43 v AND 0x7f) OR 0x80, ucast (drop_bit 36 v AND 0x7f) OR 0x80,
     ucast (drop_bit 29 v AND 0x7f) OR 0x80, ucast (drop_bit 22 v AND 0x7f) OR 0x80,
     ucast (drop_bit 15 v AND 0x7f) OR 0x80, ucast (drop_bit 8 v AND 0x7f) OR 0x80, ucast v]"

lemma putVarint_nine: "drop_bit 56 v \<noteq> 0 \<Longrightarrow> sqlite3PutVarint v = nine_bytes v"
proof -
  assume a: "drop_bit 56 v \<noteq> 0"
  have "[0..<8] = [0, 1, 2, 3, 4, 5, 6, 7 :: nat]" by code_simp
  with a drop_bit_zero_mono [of 7 v 56] drop_bit_zero_mono [of 14 v 56] high_byte [of v] show ?thesis
    by (auto simp: sqlite3PutVarint_def le_drop_bit putVarint64_def nine_bytes_def drop_bit_drop_bit)
qed

lemma getVarint_9: "sqlite3GetVarint (nine_bytes v @ t) = (v, 9)"
  unfolding nine_bytes_def
  by (simp add: sqlite3GetVarint_def Let_def varint_bits bit_ucast_group, rule word64_eqI, unfold upt_64)
    (simp add: varint_bits bit_ucast_group)

text \<open>The number of bytes of a varint, from its size.\<close>

lemma varint_cases:
  obtains (small) n where "n \<le> 7" "drop_bit (7 * Suc n) v = 0" "n = 0 \<or> drop_bit (7 * n) v \<noteq> 0"
  | (big) "drop_bit 56 (v :: u64) \<noteq> 0"
proof (cases "drop_bit 56 v = 0")
  case True
  define n where "n = (LEAST n. drop_bit (7 * Suc n) v = 0)"
  have ex: "drop_bit (7 * Suc 7) v = 0" using True by simp
  have 1: "drop_bit (7 * Suc n) v = 0" unfolding n_def by (rule LeastI) (rule ex)
  have 2: "n \<le> 7" unfolding n_def by (rule Least_le) (rule ex)
  have 3: "n = 0 \<or> drop_bit (7 * n) v \<noteq> 0"
  proof (cases "n = 0")
    case n: False
    have "drop_bit (7 * n) v \<noteq> 0"
    proof
      assume "drop_bit (7 * n) v = 0"
      then have "drop_bit (7 * Suc (n - 1)) v = 0" using n by simp
      then have "n \<le> n - 1" unfolding n_def by (rule Least_le)
      with n show False by simp
    qed
    then show ?thesis ..
  qed simp
  show thesis by (rule small [OF 2 1 3])
qed (rule big)

lemma rev_upts: "rev [1..<Suc 2] = [2, 1]" "rev [1..<Suc 3] = [3, 2, 1]" "rev [1..<Suc 4] = [4, 3, 2, 1]"
    "rev [1..<Suc 5] = [5, 4, 3, 2, 1]" "rev [1..<Suc 6] = [6, 5, 4, 3, 2, 1]"
    "rev [1..<Suc 7] = [7, 6, 5, 4, 3, 2, 1]"
  by code_simp+

lemmas getVarint_small = getVarint_1 [simplified] getVarint_2 [simplified] getVarint_3 [simplified]
  getVarint_4 [simplified] getVarint_5 [simplified] getVarint_6 [simplified] getVarint_7 [simplified]
  getVarint_8 [simplified]

lemma getVarint_putVarint:
  "sqlite3GetVarint (sqlite3PutVarint v @ t) = (v, length (sqlite3PutVarint v)) \<and>
   length (sqlite3PutVarint v) \<in> {1..9}"
proof (cases v rule: varint_cases)
  case (small n)
  note f = putVarint_form [OF small(2,3,1)]
  from small(1) consider "n = 0" | "n = 1" | "n = 2" | "n = 3" | "n = 4" | "n = 5" | "n = 6" | "n = 7"
    by linarith
  then show ?thesis
    using small(2) f
    by cases (simp_all add: getVarint_small rev_upts [simplified])
next
  case big
  show ?thesis unfolding putVarint_nine [OF big] using getVarint_9 [of v t] by (simp add: nine_bytes_def)
qed

lemma varint_len_from_add: "varint_len_from v (i + j) = varint_len_from v i + j"
proof (induction v i rule: varint_len_from.induct)
  case (1 v i)
  then show ?case by (simp add: varint_len_from.simps [of v])
qed

lemma length_varint_groups: "length (varint_groups v) = sqlite3VarintLen v"
proof (induction v rule: varint_groups.induct)
  case (1 v)
  then show ?case
    using varint_len_from_add [of "drop_bit 7 v" 1 1]
    by (simp add: varint_groups.simps [of v] sqlite3VarintLen_def varint_len_from.simps [of v])
qed

lemma VarintLen_exact:
  assumes "drop_bit (7 * Suc n) v = 0" and "n = 0 \<or> drop_bit (7 * n) v \<noteq> 0"
  shows "sqlite3VarintLen v = Suc n"
  using varint_groups_exact [OF assms] length_varint_groups [of v] by simp

text \<open>The early exits of the 32-bit reader agree with the 64-bit reader.\<close>

lemma fits_u32: "(v :: u64) AND 0xffffffff = v \<longleftrightarrow> unat v < 2 ^ 32"
proof -
  have "(0xffffffff :: u64) = mask 32" by (simp add: mask_eq_exp_minus_1)
  then have "v AND 0xffffffff = take_bit 32 v" by (simp add: take_bit_eq_mask)
  moreover have "unat (take_bit 32 v) = unat v mod 2 ^ 32" unfolding unsigned_take_bit_eq by (rule take_bit_eq_mod)
  ultimately show ?thesis by (simp add: word_unat_eq_iff mod_eq_self_iff_div_eq_0 div_eq_0_iff)
qed

lemma u32_fits: "(ucast (x :: u32) :: u64) AND 0xffffffff = ucast x" "ucast (ucast (x :: u32) :: u64) = x"
proof -
  have "unat (ucast x :: u64) < 2 ^ 32"
    using unat_u32_bound [of x] by (simp add: unsigned_ucast_eq take_bit_nat_eq_self)
  then show "(ucast x :: u64) AND 0xffffffff = ucast x" by (simp add: fits_u32)
  show "ucast (ucast x :: u64) = x" by (rule bit_word_eqI) (simp add: bit_simps)
qed

lemma u8_u32_u64: "(ucast (x :: u8) :: u64) = ucast (ucast x :: u32)"
  by (rule bit_word_eqI) (auto simp: bit_simps dest: bit_imp_le_length)

lemma slot_3: "(push_bit 14 0x7f OR 0x7f :: u32) = SLOT_2_0"
  by (simp add: SLOT_2_0_def)

lemma and_7f_u32: "(ucast (x AND 0x7f :: u8) :: u32) = ucast x AND 0x7f"
proof -
  have m: "(0x7f :: u8) = mask 7" "(0x7f :: u32) = mask 7" by (simp_all add: mask_eq_exp_minus_1)
  show ?thesis unfolding m by (rule bit_word_eqI) (auto simp: bit_simps)
qed

lemma getVarint32_of_64:
  "sqlite3GetVarint32 p = (let (v, n) = sqlite3GetVarint p
     in (if v AND 0xffffffff = v then ucast v else 0xffffffff, n))"
proof -
  let ?a = "push_bit 14 (ucast (p ! 0)) OR ucast (p ! 2) :: u32"
  have b: "bit (ucast (x :: u8) :: u32) 7 \<longleftrightarrow> bit x 7" for x by (simp add: bit_simps)
  consider "\<not> bit (p ! 0) 7" | "bit (p ! 0) 7" "\<not> bit (p ! 1) 7"
    | "bit (p ! 0) 7" "bit (p ! 1) 7" "\<not> bit ?a 7" | "bit (p ! 0) 7" "bit (p ! 1) 7" "bit ?a 7" by blast
  then show ?thesis
  proof cases
    case 1
    then show ?thesis
      by (simp add: sqlite3GetVarint32_def sqlite3GetVarint_def test_bit_80 b u8_u32_u64 u32_fits)
  next
    case 2
    then show ?thesis
      by (simp add: sqlite3GetVarint32_def sqlite3GetVarint_def test_bit_80 b u32_fits and_7f_u32)
  next
    case 3
    then show ?thesis
      by (simp add: sqlite3GetVarint32_def sqlite3GetVarint_def test_bit_80 b u32_fits Let_def SLOT_2_0_def)
  next
    case 4
    then show ?thesis
      by (simp add: sqlite3GetVarint32_def test_bit_80 b Let_def split_def)
  qed
qed

section \<open>Properties\<close>

text \<open>every 64-bit integer survives the file format: reading back what \<open>sqlite3PutVarint\<close>
  wrote, whatever bytes follow, gives the integer and the number of bytes written, which is
  between 1 and 9.\<close>

theorem varint_roundtrip:
  "sqlite3GetVarint (sqlite3PutVarint v @ t) = (v, length (sqlite3PutVarint v)) \<and>
   1 \<le> length (sqlite3PutVarint v) \<and> length (sqlite3PutVarint v) \<le> 9"
  using getVarint_putVarint [of v t] by simp

text \<open>The 32-bit reader consumes the same bytes as the 64-bit one; it returns the value when
  it fits into 32 bits and \<open>0xffffffff\<close> otherwise.\<close>

theorem varint32_saturates:
  "sqlite3GetVarint32 (sqlite3PutVarint v @ t) =
     (if unat v < 2 ^ 32 then ucast v else 0xffffffff, length (sqlite3PutVarint v))"
  unfolding getVarint32_of_64 using getVarint_putVarint [of v t] by (simp add: fits_u32)

text \<open>\<open>sqlite3VarintLen\<close> gives the number of bytes \<open>sqlite3PutVarint\<close> writes for every integer
  below \<open>2^63\<close>; for the larger ones, which are the negative rowids, it says 10 although 9
  bytes are written.\<close>

theorem VarintLen_of_PutVarint:
  "sqlite3VarintLen v = (if unat v < 2 ^ 63 then length (sqlite3PutVarint v) else 10) \<and>
   length (sqlite3PutVarint v) = (if unat v < 2 ^ 63 then sqlite3VarintLen v else 9)"
proof (cases v rule: varint_cases)
  case (small n)
  have "unat v < 2 ^ 56"
    using drop_bit_zero_mono [OF small(2), of 56] small(1) by (simp add: drop_bit_0_le)
  moreover have "sqlite3VarintLen v = Suc n" by (rule VarintLen_exact [OF small(2,3)])
  moreover have "length (sqlite3PutVarint v) = Suc n" using putVarint_form [OF small(2,3,1)] by simp
  ultimately show ?thesis by simp
next
  case big
  have "length (sqlite3PutVarint v) = 9" by (simp add: putVarint_nine [OF big] nine_bytes_def)
  moreover have "sqlite3VarintLen v = 9" if "unat v < 2 ^ 63"
    using VarintLen_exact [of 8 v] big that by (simp add: drop_bit_0_le)
  moreover have "sqlite3VarintLen v = 10" if "\<not> unat v < 2 ^ 63"
  proof -
    have "unat v < 2 ^ 64" using unsigned_less [of v, where 'a = nat] by simp
    then have "unat v < 2 ^ 70" by simp
    then show ?thesis using VarintLen_exact [of 9 v] that by (simp add: drop_bit_0_le)
  qed
  ultimately show ?thesis by simp
qed

text \<open>Page numbers and other four-byte fields survive writing and reading.\<close>

theorem four_byte_roundtrip: "sqlite3Get4byte (sqlite3Put4byte v @ t) = v"
  using get4byte_put4byte [of v] by (simp add: sqlite3Get4byte_def sqlite3Put4byte_def)

end
