(* ===== verification/SQLite_Text.thy ===== *)
theory SQLite_Text
  imports SE_Prelude "HOL-Library.Signed_Division"
begin

text \<open>
  The character tables and the text and integer utilities of the SQLite amalgamation
  (global.c and util.c inside \<open>src/src/SQLite/sqlite3.c\<close>): case folding, dequoting, the
  conversion of decimal and hexadecimal text to 64-bit and 32-bit integers, and the overflow
  checked 64-bit arithmetic.

  A C string is the list of its bytes before the terminator; reading at or behind the end
  gives the terminator 0. A signed 64-bit or 32-bit integer is an \<open>int\<close>; the lemmas show
  that it stays in range.
\<close>

section \<open>Character tables\<close>

definition sqlite3UpperToLower :: "u8 list" where
  "sqlite3UpperToLower = [
    0, 1, 2, 3, 4, 5, 6, 7, 8, 9, 10, 11, 12, 13, 14, 15, 16, 17,
    18, 19, 20, 21, 22, 23, 24, 25, 26, 27, 28, 29, 30, 31, 32, 33, 34, 35,
    36, 37, 38, 39, 40, 41, 42, 43, 44, 45, 46, 47, 48, 49, 50, 51, 52, 53,
    54, 55, 56, 57, 58, 59, 60, 61, 62, 63, 64, 97, 98, 99, 100, 101, 102, 103,
    104, 105, 106, 107, 108, 109, 110, 111, 112, 113, 114, 115, 116, 117, 118, 119, 120, 121,
    122, 91, 92, 93, 94, 95, 96, 97, 98, 99, 100, 101, 102, 103, 104, 105, 106, 107,
    108, 109, 110, 111, 112, 113, 114, 115, 116, 117, 118, 119, 120, 121, 122, 123, 124, 125,
    126, 127, 128, 129, 130, 131, 132, 133, 134, 135, 136, 137, 138, 139, 140, 141, 142, 143,
    144, 145, 146, 147, 148, 149, 150, 151, 152, 153, 154, 155, 156, 157, 158, 159, 160, 161,
    162, 163, 164, 165, 166, 167, 168, 169, 170, 171, 172, 173, 174, 175, 176, 177, 178, 179,
    180, 181, 182, 183, 184, 185, 186, 187, 188, 189, 190, 191, 192, 193, 194, 195, 196, 197,
    198, 199, 200, 201, 202, 203, 204, 205, 206, 207, 208, 209, 210, 211, 212, 213, 214, 215,
    216, 217, 218, 219, 220, 221, 222, 223, 224, 225, 226, 227, 228, 229, 230, 231, 232, 233,
    234, 235, 236, 237, 238, 239, 240, 241, 242, 243, 244, 245, 246, 247, 248, 249, 250, 251,
    252, 253, 254, 255]"

definition sqlite3CtypeMap :: "u8 list" where
  "sqlite3CtypeMap = [
    0x00, 0x00, 0x00, 0x00, 0x00, 0x00, 0x00, 0x00,
    0x00, 0x01, 0x01, 0x01, 0x01, 0x01, 0x00, 0x00,
    0x00, 0x00, 0x00, 0x00, 0x00, 0x00, 0x00, 0x00,
    0x00, 0x00, 0x00, 0x00, 0x00, 0x00, 0x00, 0x00,
    0x01, 0x00, 0x80, 0x00, 0x40, 0x00, 0x00, 0x80,
    0x00, 0x00, 0x00, 0x00, 0x00, 0x00, 0x00, 0x00,
    0x0c, 0x0c, 0x0c, 0x0c, 0x0c, 0x0c, 0x0c, 0x0c,
    0x0c, 0x0c, 0x00, 0x00, 0x00, 0x00, 0x00, 0x00,
    0x00, 0x0a, 0x0a, 0x0a, 0x0a, 0x0a, 0x0a, 0x02,
    0x02, 0x02, 0x02, 0x02, 0x02, 0x02, 0x02, 0x02,
    0x02, 0x02, 0x02, 0x02, 0x02, 0x02, 0x02, 0x02,
    0x02, 0x02, 0x02, 0x80, 0x00, 0x00, 0x00, 0x40,
    0x80, 0x2a, 0x2a, 0x2a, 0x2a, 0x2a, 0x2a, 0x22,
    0x22, 0x22, 0x22, 0x22, 0x22, 0x22, 0x22, 0x22,
    0x22, 0x22, 0x22, 0x22, 0x22, 0x22, 0x22, 0x22,
    0x22, 0x22, 0x22, 0x00, 0x00, 0x00, 0x00, 0x00,
    0x40, 0x40, 0x40, 0x40, 0x40, 0x40, 0x40, 0x40,
    0x40, 0x40, 0x40, 0x40, 0x40, 0x40, 0x40, 0x40,
    0x40, 0x40, 0x40, 0x40, 0x40, 0x40, 0x40, 0x40,
    0x40, 0x40, 0x40, 0x40, 0x40, 0x40, 0x40, 0x40,
    0x40, 0x40, 0x40, 0x40, 0x40, 0x40, 0x40, 0x40,
    0x40, 0x40, 0x40, 0x40, 0x40, 0x40, 0x40, 0x40,
    0x40, 0x40, 0x40, 0x40, 0x40, 0x40, 0x40, 0x40,
    0x40, 0x40, 0x40, 0x40, 0x40, 0x40, 0x40, 0x40,
    0x40, 0x40, 0x40, 0x40, 0x40, 0x40, 0x40, 0x40,
    0x40, 0x40, 0x40, 0x40, 0x40, 0x40, 0x40, 0x40,
    0x40, 0x40, 0x40, 0x40, 0x40, 0x40, 0x40, 0x40,
    0x40, 0x40, 0x40, 0x40, 0x40, 0x40, 0x40, 0x40,
    0x40, 0x40, 0x40, 0x40, 0x40, 0x40, 0x40, 0x40,
    0x40, 0x40, 0x40, 0x40, 0x40, 0x40, 0x40, 0x40,
    0x40, 0x40, 0x40, 0x40, 0x40, 0x40, 0x40, 0x40,
    0x40, 0x40, 0x40, 0x40, 0x40, 0x40, 0x40, 0x40]"

definition UpperToLower :: "u8 \<Rightarrow> u8" where
  "UpperToLower c = sqlite3UpperToLower ! unat c"

definition ctype :: "u8 \<Rightarrow> u8" where
  "ctype c = sqlite3CtypeMap ! unat c"

definition sqlite3Toupper :: "u8 \<Rightarrow> u8" where
  "sqlite3Toupper x = x AND NOT (ctype x AND 0x20)"

definition sqlite3Isspace :: "u8 \<Rightarrow> bool" where
  "sqlite3Isspace x \<longleftrightarrow> ctype x AND 0x01 \<noteq> 0"

definition sqlite3Isalnum :: "u8 \<Rightarrow> bool" where
  "sqlite3Isalnum x \<longleftrightarrow> ctype x AND 0x06 \<noteq> 0"

definition sqlite3Isalpha :: "u8 \<Rightarrow> bool" where
  "sqlite3Isalpha x \<longleftrightarrow> ctype x AND 0x02 \<noteq> 0"

definition sqlite3Isdigit :: "u8 \<Rightarrow> bool" where
  "sqlite3Isdigit x \<longleftrightarrow> ctype x AND 0x04 \<noteq> 0"

definition sqlite3Isxdigit :: "u8 \<Rightarrow> bool" where
  "sqlite3Isxdigit x \<longleftrightarrow> ctype x AND 0x08 \<noteq> 0"

definition sqlite3Isquote :: "u8 \<Rightarrow> bool" where
  "sqlite3Isquote x \<longleftrightarrow> ctype x AND 0x80 \<noteq> 0"

definition IdChar :: "u8 \<Rightarrow> bool" where
  "IdChar x \<longleftrightarrow> ctype x AND 0x46 \<noteq> 0"

text \<open>The tables say what their comments promise, byte by byte.\<close>

definition ct_class :: "nat \<Rightarrow> u8" where
  "ct_class n =
     (if n = 32 \<or> 9 \<le> n \<and> n \<le> 13 then 0x01
      else if 48 \<le> n \<and> n \<le> 57 then 0x0c
      else if 65 \<le> n \<and> n \<le> 70 then 0x0a else if 71 \<le> n \<and> n \<le> 90 then 0x02
      else if 97 \<le> n \<and> n \<le> 102 then 0x2a else if 103 \<le> n \<and> n \<le> 122 then 0x22
      else if n = 34 \<or> n = 39 \<or> n = 91 \<or> n = 96 then 0x80
      else if n = 36 \<or> n = 95 \<or> 128 \<le> n then 0x40 else 0)"

lemma CtypeMap_classes: "sqlite3CtypeMap = map ct_class [0..<256]"
  by code_simp

lemma UpperToLower_table:
  "sqlite3UpperToLower = map (\<lambda>n. of_nat (if 65 \<le> n \<and> n \<le> 90 then n + 32 else n)) [0..<256]"
  by code_simp

lemma unat_u8: "unat (c :: u8) < 256"
  using unsigned_less [of c, where 'a = nat] by simp

lemma ctype_class: "ctype c = ct_class (unat c)"
  using unat_u8 [of c] by (simp add: ctype_def CtypeMap_classes del: upt_rec_numeral)

lemma UpperToLower_nat:
  "UpperToLower c = of_nat (if 65 \<le> unat c \<and> unat c \<le> 90 then unat c + 32 else unat c)"
  using unat_u8 [of c] by (simp add: UpperToLower_def UpperToLower_table del: upt_rec_numeral of_nat_add)

lemma UpperToLower_eq: "UpperToLower c = (if 65 \<le> c \<and> c \<le> 90 then c + 32 else c)"
  by (simp add: UpperToLower_nat word_le_nat_alt)

lemma Isspace_eq: "sqlite3Isspace c \<longleftrightarrow> unat c = 32 \<or> 9 \<le> unat c \<and> unat c \<le> 13"
  by (simp add: sqlite3Isspace_def ctype_class ct_class_def)

lemma Isdigit_eq: "sqlite3Isdigit c \<longleftrightarrow> 48 \<le> unat c \<and> unat c \<le> 57"
  by (simp add: sqlite3Isdigit_def ctype_class ct_class_def)

lemma Isxdigit_eq: "sqlite3Isxdigit c \<longleftrightarrow>
    48 \<le> unat c \<and> unat c \<le> 57 \<or> 65 \<le> unat c \<and> unat c \<le> 70 \<or> 97 \<le> unat c \<and> unat c \<le> 102"
  by (simp add: sqlite3Isxdigit_def ctype_class ct_class_def)

lemma Isquote_eq: "sqlite3Isquote c \<longleftrightarrow> unat c = 34 \<or> unat c = 39 \<or> unat c = 91 \<or> unat c = 96"
  by (simp add: sqlite3Isquote_def ctype_class ct_class_def)

lemma UpperToLower_zero [simp]: "UpperToLower c = 0 \<longleftrightarrow> c = 0" "UpperToLower 0 = 0"
proof -
  show "UpperToLower 0 = 0" by (simp add: UpperToLower_eq)
  have "c + 32 \<noteq> 0" if "65 \<le> c" "c \<le> 90"
  proof
    assume "c + 32 = 0"
    then have "unat (c + 32) = 0" by simp
    then show False using that by (simp add: word_le_nat_alt unat_word_ariths)
  qed
  then show "UpperToLower c = 0 \<longleftrightarrow> c = 0" by (auto simp: UpperToLower_eq)
qed

section \<open>Strings\<close>

type_synonym cstring = "u8 list"

text \<open>Reading a byte of a zero-terminated string.\<close>

definition cs_at :: "cstring \<Rightarrow> nat \<Rightarrow> u8" where
  "cs_at z i = (if i < length z then z ! i else 0)"

text \<open>
  \<open>sqlite3Dequote\<close>: the loop after the opening quote. Running into the terminator violates
  the assertion of the code, the result is then \<open>None\<close>.
\<close>

fun dequote_loop :: "u8 \<Rightarrow> cstring \<Rightarrow> cstring option" where
  "dequote_loop quote [] = None"
| "dequote_loop quote (c # z) =
     (if c = quote
      then (case z of
              d # z' \<Rightarrow> if d = quote then map_option ((#) quote) (dequote_loop quote z') else Some []
            | [] \<Rightarrow> Some [])
      else map_option ((#) c) (dequote_loop quote z))"

definition sqlite3Dequote :: "cstring \<Rightarrow> cstring option" where
  "sqlite3Dequote z =
     (let quote = cs_at z 0
      in if \<not> sqlite3Isquote quote then Some z
         else dequote_loop (if quote = 0x5b then 0x5d else quote) (drop 1 z))"

definition sqlite3DequoteToken :: "cstring \<Rightarrow> cstring" where
  "sqlite3DequoteToken p =
     (if length p < 2 then p
      else if \<not> sqlite3Isquote (p ! 0) then p
      else if list_ex sqlite3Isquote (take (length p - 2) (drop 1 p)) then p
      else take (length p - 2) (drop 1 p))"

text \<open>The comparison functions; a null pointer is \<open>None\<close>.\<close>

function sqlite3StrICmp :: "cstring \<Rightarrow> cstring \<Rightarrow> int" where
  "sqlite3StrICmp a b =
     (let c = cs_at a 0; x = cs_at b 0
      in if c = x then (if c = 0 then 0 else sqlite3StrICmp (drop 1 a) (drop 1 b))
         else let d = uint (UpperToLower c) - uint (UpperToLower x)
              in if d \<noteq> 0 then d else sqlite3StrICmp (drop 1 a) (drop 1 b))"
  by pat_completeness auto
termination
  by (relation "measure (\<lambda>(a, b). length a + length b)")
    (auto simp: cs_at_def word_uint_eq_iff [symmetric] neq_Nil_conv split: if_splits)

declare sqlite3StrICmp.simps [simp del]

definition sqlite3_stricmp :: "cstring option \<Rightarrow> cstring option \<Rightarrow> int" where
  "sqlite3_stricmp zLeft zRight =
     (case (zLeft, zRight) of
        (None, None) \<Rightarrow> 0 | (None, Some _) \<Rightarrow> -1 | (Some _, None) \<Rightarrow> 1
      | (Some a, Some b) \<Rightarrow> sqlite3StrICmp a b)"

fun strnicmp_loop :: "nat \<Rightarrow> cstring \<Rightarrow> cstring \<Rightarrow> int" where
  "strnicmp_loop 0 a b = 0"
| "strnicmp_loop (Suc n) a b =
     (if cs_at a 0 \<noteq> 0 \<and> UpperToLower (cs_at a 0) = UpperToLower (cs_at b 0)
      then strnicmp_loop n (drop 1 a) (drop 1 b)
      else uint (UpperToLower (cs_at a 0)) - uint (UpperToLower (cs_at b 0)))"

definition sqlite3_strnicmp :: "cstring option \<Rightarrow> cstring option \<Rightarrow> int \<Rightarrow> int" where
  "sqlite3_strnicmp zLeft zRight n =
     (case (zLeft, zRight) of
        (None, None) \<Rightarrow> 0 | (None, Some _) \<Rightarrow> -1 | (Some _, None) \<Rightarrow> 1
      | (Some a, Some b) \<Rightarrow> strnicmp_loop (nat n) a b)"

definition sqlite3StrIHash :: "cstring \<Rightarrow> u8" where
  "sqlite3StrIHash z = fold (\<lambda>c h. h + UpperToLower c) z 0"

lemma uint_lower_zero [simp]: "uint (UpperToLower c) = 0 \<longleftrightarrow> c = 0"
  by (simp add: unsigned_eq_0_iff)

lemma StrICmp_Cons:
  assumes "c \<noteq> 0" and "x \<noteq> 0"
  shows "sqlite3StrICmp (c # a) (x # b) =
    (if UpperToLower c = UpperToLower x then sqlite3StrICmp a b
     else uint (UpperToLower c) - uint (UpperToLower x))"
  using assms by (auto simp: sqlite3StrICmp.simps [of "c # a" "x # b"] cs_at_def Let_def
      word_uint_eq_iff [symmetric])

lemma StrICmp_ends:
  "sqlite3StrICmp [] [] = 0"
  "c \<noteq> 0 \<Longrightarrow> sqlite3StrICmp (c # a) [] = uint (UpperToLower c)"
  "c \<noteq> 0 \<Longrightarrow> sqlite3StrICmp [] (c # a) = - uint (UpperToLower c)"
  by (simp_all add: sqlite3StrICmp.simps [of "[]" "[]"] sqlite3StrICmp.simps [of "c # a" "[]"]
      sqlite3StrICmp.simps [of "[]" "c # a"] cs_at_def Let_def)

lemma StrICmp_eq_zero:
  assumes "0 \<notin> set a" and "0 \<notin> set b"
  shows "sqlite3StrICmp a b = 0 \<longleftrightarrow> map UpperToLower a = map UpperToLower b"
  using assms
proof (induction a arbitrary: b)
  case Nil
  then show ?case by (cases b) (auto simp: StrICmp_ends)
next
  case (Cons c a)
  then show ?case
    by (cases b) (auto simp: StrICmp_ends StrICmp_Cons word_uint_eq_iff [symmetric])
qed

lemma StrIHash_folds_case:
  assumes "map UpperToLower a = map UpperToLower b"
  shows "sqlite3StrIHash a = sqlite3StrIHash b"
proof -
  have "fold (\<lambda>c h. h + UpperToLower c) z h = fold (\<lambda>c h. h + c) (map UpperToLower z) h" for z h
    by (induction z arbitrary: h) auto
  then show ?thesis using assms by (simp add: sqlite3StrIHash_def)
qed

section \<open>Text to integer\<close>

definition LARGEST_INT64 :: int where "LARGEST_INT64 = 9223372036854775807"

definition SMALLEST_INT64 :: int where "SMALLEST_INT64 = -1 - LARGEST_INT64"

datatype sqlite_enc = SQLITE_UTF8 | SQLITE_UTF16LE | SQLITE_UTF16BE

definition pow63 :: cstring where
  "pow63 = [0x39, 0x32, 0x32, 0x33, 0x33, 0x37, 0x32, 0x30, 0x33, 0x36, 0x38, 0x35, 0x34, 0x37, 0x37, 0x35,
     0x38, 0x30]"

text \<open>The first 18 digits, then the last one; \<open>p\<close> is where \<open>zNum\<close> points.\<close>

fun cmp_digits :: "cstring \<Rightarrow> nat \<Rightarrow> nat \<Rightarrow> cstring \<Rightarrow> int" where
  "cmp_digits z p incr [] = 0"
| "cmp_digits z p incr (d # ds) =
     (let c = (uint (z ! p) - uint d) * 10 in if c \<noteq> 0 then c else cmp_digits z (p + incr) incr ds)"

definition compare2pow63 :: "cstring \<Rightarrow> nat \<Rightarrow> nat \<Rightarrow> int" where
  "compare2pow63 z p incr =
     (let c = cmp_digits z p incr pow63 in if c = 0 then uint (z ! (p + 18 * incr)) - 0x38 else c)"

text \<open>
  \<open>while( i<end \<and> P(z[i]) ) i += incr\<close>: the scanning loops of \<open>sqlite3Atoi64\<close>. The increment is
  written \<open>Suc d\<close>, so that the loop ends.
\<close>

function scan_while :: "(u8 \<Rightarrow> bool) \<Rightarrow> cstring \<Rightarrow> nat \<Rightarrow> nat \<Rightarrow> nat \<Rightarrow> nat" where
  "scan_while P z d end i = (if i < end \<and> P (z ! i) then scan_while P z d end (i + Suc d) else i)"
  by pat_completeness auto
termination
  by (relation "measure (\<lambda>(P, z, d, end, i). end - i)") auto

declare scan_while.simps [simp del]

text \<open>The digit loop; the accumulator is an unsigned 64-bit integer and wraps around.\<close>

function digit_loop :: "cstring \<Rightarrow> nat \<Rightarrow> nat \<Rightarrow> u64 \<Rightarrow> nat \<Rightarrow> u64 \<times> nat" where
  "digit_loop z d end u i =
     (if i < end \<and> 0x30 \<le> z ! i \<and> z ! i \<le> 0x39
      then digit_loop z d end (u * 10 + ucast (z ! i) - 0x30) (i + Suc d) else (u, i))"
  by pat_completeness auto
termination
  by (relation "measure (\<lambda>(z, d, end, u, i). end - i)") auto

declare digit_loop.simps [simp del]

text \<open>
  The result is the return code and the value stored through \<open>pNum\<close>. In the UTF-16 case the
  scan for a non-zero high byte decides where the text ends.
\<close>

definition sqlite3Atoi64 :: "cstring \<Rightarrow> nat \<Rightarrow> sqlite_enc \<Rightarrow> int \<times> int" where
  "sqlite3Atoi64 z len enc =
     (let (incr, zNum, zEnd, nonNum) =
            (case enc of
               SQLITE_UTF8 \<Rightarrow> (1, 0, len, False)
             | SQLITE_UTF16LE \<Rightarrow>
                 let len' = len - len mod 2; i = scan_while (\<lambda>c. c = 0) z 1 len' 1
                 in (2, 0, i - 1, i < len')
             | SQLITE_UTF16BE \<Rightarrow>
                 let len' = len - len mod 2; i = scan_while (\<lambda>c. c = 0) z 1 len' 0
                 in (2, 1, i + 1, i < len'));
          p = scan_while sqlite3Isspace z (incr - 1) zEnd zNum;
          neg = (p < zEnd \<and> z ! p = 0x2d);
          zStart = (if p < zEnd \<and> (z ! p = 0x2d \<or> z ! p = 0x2b) then p + incr else p);
          q = scan_while (\<lambda>c. c = 0x30) z (incr - 1) zEnd zStart;
          (u, e) = digit_loop z (incr - 1) zEnd 0 q;
          pNum = (if LARGEST_INT64 < uint u then (if neg then SMALLEST_INT64 else LARGEST_INT64)
                  else if neg then - uint u else uint u);
          rc = (if e = q \<and> zStart = q then -1
                else if nonNum then 1
                else if e < zEnd \<and> scan_while sqlite3Isspace z (incr - 1) zEnd e < zEnd then 1
                else 0)
      in if e - q < 19 * incr then (rc, pNum)
         else let c = (if 19 * incr < e - q then 1 else compare2pow63 z q incr)
              in if c < 0 then (rc, pNum)
                 else (if 0 < c then 2 else if neg then rc else 3,
                       if neg then SMALLEST_INT64 else LARGEST_INT64))"

definition sqlite3HexToInt :: "u8 \<Rightarrow> u8" where
  "sqlite3HexToInt h = (h + 9 * (1 AND drop_bit 6 h)) AND 0xf"

fun hex_fold :: "cstring \<Rightarrow> u64 \<Rightarrow> u64" where
  "hex_fold [] u = u"
| "hex_fold (c # z) u = hex_fold z (u * 16 + ucast (sqlite3HexToInt c))"

text \<open>The signed reading of the eight bytes of \<open>u\<close> is what \<open>memcpy\<close> stores.\<close>

definition sqlite3DecOrHexToI64 :: "cstring \<Rightarrow> int \<times> int" where
  "sqlite3DecOrHexToI64 z =
     (if cs_at z 0 = 0x30 \<and> (cs_at z 1 = 0x78 \<or> cs_at z 1 = 0x58)
      then let ds = dropWhile (\<lambda>c. c = 0x30) (drop 2 z);
               hs = takeWhile sqlite3Isxdigit ds;
               u = hex_fold hs 0
           in (if 16 < length hs then 2 else if length hs < length ds then 1 else 0, sint u)
      else sqlite3Atoi64 z (length z) SQLITE_UTF8)"

fun dec_fold :: "cstring \<Rightarrow> int \<Rightarrow> int" where
  "dec_fold [] v = v"
| "dec_fold (c # z) v = dec_fold z (v * 10 + (uint c - 0x30))"

definition is_dec :: "u8 \<Rightarrow> bool" where
  "is_dec c \<longleftrightarrow> 0x30 \<le> c \<and> c \<le> 0x39"

fun hex_fold32 :: "cstring \<Rightarrow> u32 \<Rightarrow> u32" where
  "hex_fold32 [] u = u"
| "hex_fold32 (c # z) u = hex_fold32 z (u * 16 + ucast (sqlite3HexToInt c))"

text \<open>\<open>None\<close> is the return value 0: the text is no 32-bit integer.\<close>

definition sqlite3GetInt32 :: "cstring \<Rightarrow> int option" where
  "sqlite3GetInt32 z =
     (let neg = (cs_at z 0 = 0x2d);
          zNum = (if neg \<or> cs_at z 0 = 0x2b then drop 1 z else z)
      in if \<not> neg \<and> cs_at z 0 \<noteq> 0x2b \<and> cs_at z 0 = 0x30 \<and>
            (cs_at z 1 = 0x78 \<or> cs_at z 1 = 0x58) \<and> sqlite3Isxdigit (cs_at z 2)
         then let hs = dropWhile (\<lambda>c. c = 0x30) (drop 2 z);
                  ds = takeWhile sqlite3Isxdigit (take 8 hs);
                  u = hex_fold32 ds 0
              in if u AND 0x80000000 = 0 \<and> \<not> sqlite3Isxdigit (cs_at hs (length ds)) then Some (uint u)
                 else None
         else if \<not> sqlite3Isdigit (cs_at zNum 0) then None
         else let ds = takeWhile is_dec (take 11 (dropWhile (\<lambda>c. c = 0x30) zNum));
                  v = dec_fold ds 0
              in if 10 < length ds then None
                 else if 2147483647 < v - of_bool neg then None
                 else Some (if neg then - v else v))"

definition sqlite3Atoi :: "cstring \<Rightarrow> int" where
  "sqlite3Atoi z = (case sqlite3GetInt32 z of None \<Rightarrow> 0 | Some v \<Rightarrow> v)"

fun uint32_loop :: "cstring \<Rightarrow> u64 \<Rightarrow> (u64 \<times> cstring) option" where
  "uint32_loop [] v = Some (v, [])"
| "uint32_loop (c # z) v =
     (if sqlite3Isdigit c
      then let v' = v * 10 + ucast c - 0x30 in if 4294967296 < v' then None else uint32_loop z v'
      else Some (v, c # z))"

text \<open>The return code and the value stored through \<open>pI\<close>.\<close>

definition sqlite3GetUInt32 :: "cstring \<Rightarrow> bool \<times> u32" where
  "sqlite3GetUInt32 z =
     (case uint32_loop z 0 of
        None \<Rightarrow> (False, 0)
      | Some (v, rest) \<Rightarrow>
          if length rest = length z \<or> rest \<noteq> [] then (False, 0) else (True, ucast v))"

text \<open>The text between the quotes of a blob literal, of length \<open>n - 1\<close>, to its bytes.\<close>

fun sqlite3HexToBlob :: "cstring \<Rightarrow> u8 list" where
  "sqlite3HexToBlob (a # b # z) =
     (push_bit 4 (sqlite3HexToInt a) OR sqlite3HexToInt b) # sqlite3HexToBlob z"
| "sqlite3HexToBlob _ = []"

section \<open>The scanning loops on UTF-8 text\<close>

lemma scan_while_utf8:
  "i \<le> length z \<Longrightarrow> scan_while P z 0 (length z) i = i + length (takeWhile P (drop i z))"
proof (induction P z "0 :: nat" "length z" i rule: scan_while.induct)
  case (1 P z i)
  show ?case
  proof (cases "i < length z")
    case True
    with 1 show ?thesis
      by (simp add: scan_while.simps [of P z 0 "length z" i] Cons_nth_drop_Suc [symmetric])
  next
    case False
    with 1(2) show ?thesis by (simp add: scan_while.simps [of P z 0 "length z" "length z"])
  qed
qed

lemma scan_while_over:
  assumes "drop i z = xs @ ys" and "list_all P xs" and "takeWhile P ys = []" and "i \<le> length z"
  shows "scan_while P z 0 (length z) i = i + length xs"
  using assms by (simp add: scan_while_utf8 takeWhile_append list_all_iff)

lemma dec_fold_start: "dec_fold ds v = v * 10 ^ length ds + dec_fold ds 0"
proof (induction ds arbitrary: v)
  case (Cons c ds)
  show ?case by (simp add: Cons [of "v * 10 + (uint c - 48)"] Cons [of "uint c - 48"] distrib_right)
qed simp

lemma is_dec_unat: "is_dec c \<longleftrightarrow> 48 \<le> unat c \<and> unat c \<le> 57"
  by (simp add: is_dec_def word_le_nat_alt)

lemma is_dec_uint: "is_dec c \<Longrightarrow> 48 \<le> uint c \<and> uint c \<le> 57"
  by (simp add: is_dec_def word_le_def)

lemma dec_fold_bound:
  "list_all is_dec ds \<Longrightarrow> 0 \<le> dec_fold ds 0 \<and> dec_fold ds 0 < 10 ^ length ds"
proof (induction ds)
  case (Cons c ds)
  have c: "0 \<le> uint c - 48" "uint c - 48 \<le> 9" using Cons.prems is_dec_uint [of c] by simp_all
  have "(uint c - 48) * 10 ^ length ds \<le> 9 * 10 ^ length ds" using c(2) by (intro mult_right_mono) simp_all
  moreover have "0 \<le> (uint c - 48) * 10 ^ length ds" using c(1) by simp
  moreover have "0 \<le> dec_fold ds 0 \<and> dec_fold ds 0 < 10 ^ length ds" using Cons by simp
  moreover have "dec_fold (c # ds) 0 = (uint c - 48) * 10 ^ length ds + dec_fold ds 0"
    by (simp add: dec_fold_start [of ds "uint c - 48"])
  ultimately show ?case by (simp only: length_Cons power_Suc) linarith
qed simp

lemma dec_fold_zeros: "list_all (\<lambda>c. c = 0x30) zs \<Longrightarrow> dec_fold (zs @ ds) 0 = dec_fold ds 0"
  by (induction zs) simp_all

lemma dec_fold_lower:
  assumes "list_all is_dec ds" and "ds \<noteq> []" and "hd ds \<noteq> 0x30"
  shows "10 ^ (length ds - 1) \<le> dec_fold ds 0"
proof (cases ds)
  case (Cons c ds')
  have "uint c \<noteq> uint (0x30 :: u8)" using assms(3) Cons by (simp only: word_uint_eq_iff list.sel) simp
  then have "1 \<le> uint c - 48" using assms(1) Cons is_dec_uint [of c] by simp
  then have "1 * 10 ^ length ds' \<le> (uint c - 48) * 10 ^ length ds'" by (intro mult_right_mono) simp_all
  moreover have "0 \<le> dec_fold ds' 0" using dec_fold_bound [of ds'] assms(1) Cons by simp
  moreover have "dec_fold ds 0 = (uint c - 48) * 10 ^ length ds' + dec_fold ds' 0"
    using Cons by (simp add: dec_fold_start [of ds' "uint c - 48"])
  ultimately have "1 * 10 ^ length ds' \<le> dec_fold ds 0" by linarith
  then show ?thesis using Cons by simp
qed (use assms in simp)

lemma digit_loop_utf8:
  "i \<le> length z \<Longrightarrow> digit_loop z 0 (length z) u i =
    (of_int (dec_fold (takeWhile is_dec (drop i z)) (uint u)), i + length (takeWhile is_dec (drop i z)))"
proof (induction z "0 :: nat" "length z" u i rule: digit_loop.induct)
  case (1 z u i)
  show ?case
  proof (cases "i < length z \<and> is_dec (z ! i)")
    case True
    let ?t = "takeWhile is_dec (drop (Suc i) z)"
    have "(of_int (uint (u * 10 + ucast (z ! i) - 48)) :: u64) = of_int (uint u * 10 + (uint (z ! i) - 48))"
      by (simp add: add_diff_eq)
    then have *: "of_int (dec_fold ?t (uint (u * 10 + ucast (z ! i) - 48))) =
        (of_int (dec_fold ?t (uint u * 10 + (uint (z ! i) - 48))) :: u64)"
      unfolding dec_fold_start [of ?t "uint (u * 10 + ucast (z ! i) - 48)"]
        dec_fold_start [of ?t "uint u * 10 + (uint (z ! i) - 48)"]
      by (simp only: of_int_add of_int_mult)
    from True show ?thesis
      using 1 * by (simp add: digit_loop.simps [of z 0 "length z" u i] is_dec_def Cons_nth_drop_Suc [symmetric])
  next
    case False
    then have "takeWhile is_dec (drop i z) = []"
      by (cases "i < length z") (auto simp: Cons_nth_drop_Suc [symmetric])
    with False show ?thesis by (auto simp: digit_loop.simps [of z 0 "length z" u i] is_dec_def)
  qed
qed

lemma sgn_dominant:
  fixes k r m :: int
  assumes "\<bar>r\<bar> < m" and "k \<noteq> 0"
  shows "sgn (k * m + r) = sgn k"
proof -
  have m: "0 \<le> m" using assms(1) by simp
  consider "1 \<le> k" | "k \<le> -1" using assms(2) by linarith
  then show ?thesis
  proof cases
    case 1
    then have "1 * m \<le> k * m" using m by (intro mult_right_mono)
    then have "0 < k * m + r" using assms(1) by linarith
    with 1 show ?thesis by simp
  next
    case 2
    then have "k * m \<le> -1 * m" using m by (intro mult_right_mono)
    then have "k * m + r < 0" using assms(1) by linarith
    with 2 show ?thesis by simp
  qed
qed

lemma cmp_digits_sign:
  "p + length ds \<le> length z \<Longrightarrow> list_all is_dec (take (length ds) (drop p z)) \<Longrightarrow> list_all is_dec ds \<Longrightarrow>
    sgn (cmp_digits z p 1 ds) = sgn (dec_fold (take (length ds) (drop p z)) 0 - dec_fold ds 0)"
proof (induction ds arbitrary: p)
  case (Cons d ds)
  let ?x = "take (length ds) (drop (Suc p) z)"
  have split: "take (length (d # ds)) (drop p z) = z ! p # ?x"
    using Cons.prems(1) by (simp add: Cons_nth_drop_Suc [symmetric])
  then have dec: "list_all is_dec ?x" "list_all is_dec ds" using Cons.prems by simp_all
  have len: "length ?x = length ds" using Cons.prems(1) by simp
  let ?k = "uint (z ! p) - uint d"
  have diff: "dec_fold (z ! p # ?x) 0 - dec_fold (d # ds) 0 =
      ?k * 10 ^ length ds + (dec_fold ?x 0 - dec_fold ds 0)"
    by (simp add: dec_fold_start [of _ "_ - _"] len algebra_simps del: length_take)
  have small: "\<bar>dec_fold ?x 0 - dec_fold ds 0\<bar> < 10 ^ length ds"
    using dec_fold_bound [OF dec(1)] dec_fold_bound [OF dec(2)] by (simp only: len abs_less_iff) linarith
  show ?case
  proof (cases "?k = 0")
    case True
    then show ?thesis using Cons.IH [of "Suc p"] Cons.prems(1) dec diff split by (simp add: Let_def)
  next
    case False
    have "sgn (?k * 10 ^ length ds + (dec_fold ?x 0 - dec_fold ds 0)) = sgn ?k"
      by (rule sgn_dominant [OF small False])
    moreover have "sgn (?k * 10) = sgn ?k" by (simp only: sgn_mult) simp
    ultimately show ?thesis using False split diff by (simp add: Let_def)
  qed
qed simp

lemma compare2pow63_sign:
  assumes "p + 19 \<le> length z" and "list_all is_dec (take 19 (drop p z))"
  shows "sgn (compare2pow63 z p 1) = sgn (dec_fold (take 19 (drop p z)) 0 - 2 ^ 63)"
proof -
  let ?a = "take 18 (drop p z)"
  have split: "take 19 (drop p z) = ?a @ [z ! (p + 18)]"
    using assms(1) take_Suc_conv_app_nth [of 18 "drop p z"] by (simp add: numeral_eq_Suc)
  have len: "length ?a = 18" "length pow63 = 18" using assms(1) by (simp_all add: pow63_def)
  have dec: "list_all is_dec ?a" "is_dec (z ! (p + 18))" using assms(2) split by simp_all
  have pow: "dec_fold pow63 0 = 922337203685477580" "list_all is_dec pow63"
    by (simp_all add: pow63_def is_dec_def)
  have snoc: "dec_fold (xs @ [c]) v = dec_fold xs v * 10 + (uint c - 48)" for xs c v
    by (induction xs arbitrary: v) simp_all
  have val: "dec_fold (take 19 (drop p z)) 0 - 2 ^ 63 =
      (dec_fold ?a 0 - dec_fold pow63 0) * 10 + (uint (z ! (p + 18)) - 56)"
    unfolding split snoc pow(1) by simp
  have sgn: "sgn (cmp_digits z p 1 pow63) = sgn (dec_fold ?a 0 - dec_fold pow63 0)"
    using cmp_digits_sign [of p pow63 z] assms(1) dec(1) pow(2) len by simp
  show ?thesis
  proof (cases "cmp_digits z p 1 pow63 = 0")
    case True
    with sgn have "dec_fold ?a 0 - dec_fold pow63 0 = 0" by (simp add: sgn_eq_0_iff)
    with True val show ?thesis by (simp add: compare2pow63_def Let_def)
  next
    case False
    with sgn have k: "dec_fold ?a 0 - dec_fold pow63 0 \<noteq> 0" by (metis sgn_0_0)
    have "\<bar>uint (z ! (p + 18)) - 56\<bar> < 10" using is_dec_uint [OF dec(2)] by (simp only: abs_less_iff) linarith
    from sgn_dominant [OF this k] False sgn show ?thesis
      by (simp only: compare2pow63_def Let_def if_False val)
  qed
qed

text \<open>\<open>sqlite3Atoi64\<close> on UTF-8 text, with the scanning loops as list operations.\<close>

lemma takeWhile_all_else: "length (takeWhile P xs) < length xs \<longleftrightarrow> \<not> list_all P xs"
  by (induction xs) auto

lemma Atoi64_utf8:
  assumes z: "z = sp @ sg @ zs @ ns @ ts" and sp: "list_all sqlite3Isspace sp"
    and sg: "sg \<in> {[], [0x2d], [0x2b]}" and zs: "list_all (\<lambda>c. c = 0x30) zs"
    and ns: "list_all is_dec ns" "ns \<noteq> [] \<Longrightarrow> hd ns \<noteq> 0x30"
    and ts: "ts \<noteq> [] \<Longrightarrow> \<not> is_dec (hd ts)" and digits: "zs @ ns \<noteq> []"
  defines "u \<equiv> of_int (dec_fold ns 0) :: u64" and "neg \<equiv> sg = [0x2d]"
    and "rc \<equiv> if list_all sqlite3Isspace ts then 0 else 1"
  shows "sqlite3Atoi64 z (length z) SQLITE_UTF8 =
    (if length ns < 19 \<or> length ns = 19 \<and> compare2pow63 z (length (sp @ sg @ zs)) 1 < 0
     then (rc, if LARGEST_INT64 < uint u then (if neg then SMALLEST_INT64 else LARGEST_INT64)
               else if neg then - uint u else uint u)
     else (if 19 < length ns \<or> 0 < compare2pow63 z (length (sp @ sg @ zs)) 1 then 2 else if neg then rc else 3,
           if neg then SMALLEST_INT64 else LARGEST_INT64))"
proof -
  have nsp: "\<not> sqlite3Isspace c" if "c = 0x2d \<or> c = 0x2b \<or> is_dec c" for c
    using that by (auto simp: Isspace_eq is_dec_unat)
  have d: "is_dec (hd (zs @ ns))"
    using zs ns digits by (cases zs) (auto simp: is_dec_def neq_Nil_conv)
  have p: "scan_while sqlite3Isspace z 0 (length z) 0 = length sp"
  proof -
    have "takeWhile sqlite3Isspace (sg @ (zs @ ns) @ ts) = []"
      using sg nsp d digits by (cases "zs @ ns") auto
    then show ?thesis using scan_while_over [of 0 z sp "sg @ (zs @ ns) @ ts" sqlite3Isspace] sp by (simp add: z)
  qed
  have q: "scan_while (\<lambda>c. c = 0x30) z 0 (length z) (length (sp @ sg)) = length (sp @ sg @ zs)"
  proof -
    have "takeWhile (\<lambda>c. c = 0x30) (ns @ ts) = []"
    proof (cases ns)
      case Nil
      then show ?thesis using ts by (cases ts) (auto simp: is_dec_def)
    qed (use ns in auto)
    then show ?thesis using scan_while_over [of "length (sp @ sg)" z zs "ns @ ts" "\<lambda>c. c = 0x30"] zs
      by (simp add: z)
  qed
  have e: "digit_loop z 0 (length z) 0 (length (sp @ sg @ zs)) = (u, length (sp @ sg @ zs) + length ns)"
  proof -
    have "takeWhile is_dec (ns @ ts) = ns"
      using ns(1) ts by (cases ts) (auto simp: takeWhile_append list_all_iff)
    moreover have "drop (length (sp @ sg @ zs)) z = ns @ ts" using z by simp
    moreover have "length (sp @ sg @ zs) \<le> length z" using z by simp
    ultimately show ?thesis using digit_loop_utf8 [of "length (sp @ sg @ zs)" z 0] by (simp add: u_def)
  qed
  have t: "scan_while sqlite3Isspace z 0 (length z) (length (sp @ sg @ zs) + length ns) < length z \<longleftrightarrow>
      \<not> list_all sqlite3Isspace ts"
  proof -
    have "drop (length (sp @ sg @ zs) + length ns) z = ts" using z by simp
    moreover have len: "length (sp @ sg @ zs) + length ns + length ts = length z" using z by simp
    ultimately have "scan_while sqlite3Isspace z 0 (length z) (length (sp @ sg @ zs) + length ns) =
        length (sp @ sg @ zs) + length ns + length (takeWhile sqlite3Isspace ts)"
      using scan_while_utf8 [of "length (sp @ sg @ zs) + length ns" z] by simp
    moreover have "length (sp @ sg @ zs) + length ns + k < length z \<longleftrightarrow> k < length ts" for k
      using len by linarith
    ultimately show ?thesis by (simp only: takeWhile_all_else)
  qed
  have "sg @ zs @ ns \<noteq> []" using digits by simp
  then have at: "length sp < length z" "z ! length sp = hd (sg @ zs @ ns)"
    unfolding z by (auto simp: nth_append hd_conv_nth)
  have start: "(if length sp < length z \<and> (z ! length sp = 0x2d \<or> z ! length sp = 0x2b)
      then length sp + 1 else length sp) = length (sp @ sg)"
    "(length sp < length z \<and> z ! length sp = 0x2d) = neg"
    using sg d by (auto simp: at neg_def is_dec_def)
  have rc: "(if length (sp @ sg @ zs) + length ns = length (sp @ sg @ zs) \<and>
        length (sp @ sg) = length (sp @ sg @ zs) then -1
      else if False then 1
      else if length (sp @ sg @ zs) + length ns < length z \<and>
        scan_while sqlite3Isspace z 0 (length z) (length (sp @ sg @ zs) + length ns) < length z then 1
      else 0) = (rc :: int)"
    using t digits z by (auto simp: rc_def)
  show ?thesis
    unfolding sqlite3Atoi64_def
    by (simp only: sqlite_enc.case Let_def prod.case diff_self_eq_0 p start q e rc) auto
qed

section \<open>Overflow checked arithmetic\<close>

definition in_i64 :: "int \<Rightarrow> bool" where
  "in_i64 x \<longleftrightarrow> SMALLEST_INT64 \<le> x \<and> x \<le> LARGEST_INT64"

text \<open>
  The portable bodies, which the Microsoft compiler uses. The result is the new value of
  \<open>*pA\<close> and the overflow flag; \<open>sdiv\<close> is the truncating division of C.
\<close>

definition sqlite3AddInt64 :: "int \<Rightarrow> int \<Rightarrow> int \<times> bool" where
  "sqlite3AddInt64 iA iB =
     (if 0 \<le> iB then (if 0 < iA \<and> LARGEST_INT64 - iA < iB then (iA, True) else (iA + iB, False))
      else (if iA < 0 \<and> iB + 1 < - (iA + LARGEST_INT64) then (iA, True) else (iA + iB, False)))"

definition sqlite3SubInt64 :: "int \<Rightarrow> int \<Rightarrow> int \<times> bool" where
  "sqlite3SubInt64 iA iB =
     (if iB = SMALLEST_INT64 then (if 0 \<le> iA then (iA, True) else (iA - iB, False))
      else sqlite3AddInt64 iA (- iB))"

definition sqlite3MulInt64 :: "int \<Rightarrow> int \<Rightarrow> int \<times> bool" where
  "sqlite3MulInt64 iA iB =
     (if 0 < iB \<and> (LARGEST_INT64 sdiv iB < iA \<or> iA < SMALLEST_INT64 sdiv iB) then (iA, True)
      else if iB < 0 \<and> 0 < iA \<and> iB < SMALLEST_INT64 sdiv iA then (iA, True)
      else if iB < 0 \<and> iA < 0 \<and>
        (iB = SMALLEST_INT64 \<or> iA = SMALLEST_INT64 \<or> LARGEST_INT64 sdiv (- iB) < - iA) then (iA, True)
      else (iA * iB, False))"

definition sqlite3AbsInt32 :: "int \<Rightarrow> int" where
  "sqlite3AbsInt32 x = (if 0 \<le> x then x else if x = -2147483648 then 2147483647 else - x)"

lemma sdiv_pos: "0 \<le> a \<Longrightarrow> 0 < b \<Longrightarrow> a sdiv b = a div (b :: int)"
  by (cases "a = 0") (simp_all add: signed_divide_int_def)

lemma sdiv_neg: "a < 0 \<Longrightarrow> 0 < b \<Longrightarrow> a sdiv b = - (- a div (b :: int))"
  by (simp add: signed_divide_int_def)

lemma le_div_iff: "0 < b \<Longrightarrow> c \<le> a div b \<longleftrightarrow> c * b \<le> (a :: int)"
proof
  assume b: "0 < b" and "c \<le> a div b"
  then have "c * b \<le> (a div b) * b" by (intro mult_right_mono) simp_all
  also have "(a div b) * b \<le> a" using pos_mod_sign [OF b, of a] div_mult_mod_eq [of a b] by linarith
  finally show "c * b \<le> a" .
next
  assume "0 < b" and "c * b \<le> a"
  then have "(c * b) div b \<le> a div b" by (intro zdiv_mono1)
  with \<open>0 < b\<close> show "c \<le> a div b" by simp
qed

lemma mul_overflow_pos:
  assumes "in_i64 a" and "in_i64 b" and "0 < b"
  shows "LARGEST_INT64 sdiv b < a \<longleftrightarrow> LARGEST_INT64 < a * b"
    and "a < SMALLEST_INT64 sdiv b \<longleftrightarrow> a * b < SMALLEST_INT64"
proof -
  have n: "0 \<le> LARGEST_INT64" "SMALLEST_INT64 < 0"
    by (simp_all add: LARGEST_INT64_def SMALLEST_INT64_def)
  show "LARGEST_INT64 sdiv b < a \<longleftrightarrow> LARGEST_INT64 < a * b"
    using le_div_iff [OF assms(3), of a LARGEST_INT64] sdiv_pos [OF n(1) assms(3)] by linarith
  have "- a \<le> - SMALLEST_INT64 div b \<longleftrightarrow> - a * b \<le> - SMALLEST_INT64"
    by (rule le_div_iff [OF assms(3)])
  then show "a < SMALLEST_INT64 sdiv b \<longleftrightarrow> a * b < SMALLEST_INT64"
    using sdiv_neg [OF n(2) assms(3)] by simp linarith
qed

lemma AddInt64_exact:
  assumes "in_i64 a" and "in_i64 b"
  shows "sqlite3AddInt64 a b = (if in_i64 (a + b) then (a + b, False) else (a, True))"
  using assms by (auto simp: sqlite3AddInt64_def in_i64_def LARGEST_INT64_def SMALLEST_INT64_def)

lemma SubInt64_exact:
  assumes "in_i64 a" and "in_i64 b"
  shows "sqlite3SubInt64 a b = (if in_i64 (a - b) then (a - b, False) else (a, True))"
proof (cases "b = SMALLEST_INT64")
  case True
  with assms show ?thesis
    by (auto simp: sqlite3SubInt64_def in_i64_def LARGEST_INT64_def SMALLEST_INT64_def)
next
  case False
  with assms have "in_i64 (- b)" by (auto simp: in_i64_def LARGEST_INT64_def SMALLEST_INT64_def)
  with False assms show ?thesis by (simp add: sqlite3SubInt64_def AddInt64_exact)
qed

lemma MulInt64_exact:
  assumes a: "in_i64 a" and b: "in_i64 b"
  shows "sqlite3MulInt64 a b = (if in_i64 (a * b) then (a * b, False) else (a, True))"
proof -
  have n: "0 \<le> LARGEST_INT64" "SMALLEST_INT64 < 0" "SMALLEST_INT64 = - LARGEST_INT64 - 1"
    by (simp_all add: LARGEST_INT64_def SMALLEST_INT64_def)
  consider "0 < b" | "b = 0" | "b < 0" "0 < a" | "b < 0" "a = 0" | "b < 0" "a < 0" by linarith
  then show ?thesis
  proof cases
    case 1
    then show ?thesis using mul_overflow_pos [OF a b 1] by (auto simp: sqlite3MulInt64_def in_i64_def)
  next
    case 3
    then have "a * b < 0" by (simp add: mult_pos_neg)
    then show ?thesis using mul_overflow_pos(2) [OF b a 3(2)] 3 n
      by (auto simp: sqlite3MulInt64_def in_i64_def mult.commute)
  next
    case 5
    then have pos: "0 < a * b" by (simp add: mult_neg_neg)
    show ?thesis
    proof (cases "a = SMALLEST_INT64 \<or> b = SMALLEST_INT64")
      case True
      have "LARGEST_INT64 < a * b"
      proof (cases "a = SMALLEST_INT64")
        case True
        have "1 * (- a) \<le> (- b) * (- a)" using 5 by (intro mult_right_mono) simp_all
        with True n show ?thesis by (simp add: mult.commute)
      next
        case False
        then have "b = SMALLEST_INT64" using \<open>a = SMALLEST_INT64 \<or> b = SMALLEST_INT64\<close> by simp
        moreover have "1 * (- b) \<le> (- a) * (- b)" using 5 by (intro mult_right_mono) simp_all
        ultimately show ?thesis using n by simp
      qed
      with True 5 show ?thesis by (auto simp: sqlite3MulInt64_def in_i64_def)
    next
      case False
      then have "in_i64 (- a)" "in_i64 (- b)" "0 < - b" using a b n 5 by (auto simp: in_i64_def)
      from mul_overflow_pos(1) [OF this] False 5 pos n show ?thesis
        by (auto simp: sqlite3MulInt64_def in_i64_def)
    qed
  qed (use n in \<open>auto simp: sqlite3MulInt64_def in_i64_def\<close>)
qed

section \<open>Properties\<close>

text \<open>Decimal text in UTF-8 becomes the integer it denotes. White space, an optional sign and
  at least one digit, in any number and with any leading zeros, give the exact value with
  code 0 when only white space follows and 1 otherwise; a value outside the range of 64 bits is
  cut off at the nearest bound with code 2, except that the magnitude \<open>2^63\<close> is accepted
  with a minus sign and reported as 3 without one.\<close>

theorem Atoi64_exact:
  assumes "list_all sqlite3Isspace sp" and "sg \<in> {[], [0x2d], [0x2b]}"
    and "list_all is_dec ds" and "ds \<noteq> []" and "ts \<noteq> [] \<Longrightarrow> \<not> is_dec (hd ts)"
  shows "sqlite3Atoi64 (sp @ sg @ ds @ ts) (length (sp @ sg @ ds @ ts)) SQLITE_UTF8 =
    (let v = dec_fold ds 0; neg = (sg = [0x2d]); rc = (if list_all sqlite3Isspace ts then 0 else 1)
     in if v < 2 ^ 63 then (rc, if neg then - v else v)
        else if v = 2 ^ 63 then (if neg then (rc, - (2 ^ 63)) else (3, 2 ^ 63 - 1))
        else (2, if neg then - (2 ^ 63) else 2 ^ 63 - 1))"
proof -
  define zs where "zs = takeWhile (\<lambda>c. c = 0x30) ds"
  define ns where "ns = dropWhile (\<lambda>c. c = 0x30) ds"
  have ds: "ds = zs @ ns" by (simp add: zs_def ns_def)
  have zs: "list_all (\<lambda>c. c = 0x30) zs" by (auto simp: zs_def list_all_iff dest: set_takeWhileD)
  have ns: "list_all is_dec ns" "ns \<noteq> [] \<Longrightarrow> hd ns \<noteq> 0x30"
    using assms(3) hd_dropWhile [of "\<lambda>c. c = 0x30" ds]
    by (auto simp: ns_def list_all_iff dest: set_dropWhileD)
  define v where "v = dec_fold ds 0"
  have v: "v = dec_fold ns 0" unfolding v_def ds by (rule dec_fold_zeros [OF zs])
  have vb: "0 \<le> v" "v < 10 ^ length ns" using dec_fold_bound [OF ns(1)] v by simp_all
  let ?z = "sp @ sg @ ds @ ts" and ?p = "length (sp @ sg @ zs)"
  note form = Atoi64_utf8 [of ?z sp sg zs ns ts, OF _ assms(1,2) zs ns assms(5)]
  have u: "uint (of_int v :: u64) = v" if "v < 2 ^ 63" using that vb(1) by (simp add: uint_word_of_int)
  consider "length ns < 19" | "length ns = 19" | "19 < length ns" by linarith
  then show ?thesis
  proof cases
    case 1
    have "(10 :: int) ^ length ns \<le> 10 ^ 18" using 1 by (intro power_increasing) simp_all
    then have "v < 2 ^ 63" using vb(2) by simp
    then show ?thesis using form 1 u assms(4)
      by (simp add: ds [symmetric] v [symmetric] v_def [symmetric] LARGEST_INT64_def Let_def)
  next
    case 2
    have seg: "take 19 (drop ?p ?z) = ns" using 2 by (simp add: ds)
    have "sgn (compare2pow63 ?z ?p 1) = sgn (v - 2 ^ 63)"
      using compare2pow63_sign [of ?p ?z] 2 seg ns(1) v by (simp add: ds)
    then have "compare2pow63 ?z ?p 1 < 0 \<longleftrightarrow> v < 2 ^ 63" "0 < compare2pow63 ?z ?p 1 \<longleftrightarrow> 2 ^ 63 < v"
      by (metis diff_less_0_iff_less sgn_less, metis diff_gt_0_iff_gt sgn_greater)
    then show ?thesis using form 2 u assms(4)
      by (simp add: ds [symmetric] v [symmetric] v_def [symmetric] LARGEST_INT64_def SMALLEST_INT64_def Let_def)
  next
    case 3
    then have "10 ^ (length ns - 1) \<le> v" using dec_fold_lower [OF ns(1)] ns(2) v by force
    moreover have "(10 :: int) ^ 19 \<le> 10 ^ (length ns - 1)" using 3 by (intro power_increasing) simp_all
    ultimately have "2 ^ 63 < v" by simp
    then show ?thesis using form 3 assms(4)
      by (simp add: ds [symmetric] v [symmetric] v_def [symmetric] LARGEST_INT64_def SMALLEST_INT64_def Let_def)
  qed
qed

theorem Atoi64_exact_witness:
  "sqlite3Atoi64 ([32] @ [0x2d] @ [0x30, 0x34, 0x32] @ [9])
     (length ([32] @ [0x2d] @ [0x30, 0x34, 0x32] @ [9 :: u8])) SQLITE_UTF8 = (0, -42)"
proof -
  have "list_all sqlite3Isspace [32]" "list_all sqlite3Isspace [9]"
    "list_all is_dec [0x30, 0x34, 0x32]" "\<not> is_dec 9"
    by (simp_all add: Isspace_eq is_dec_def)
  then show ?thesis by (subst Atoi64_exact) (simp_all add: Let_def)
qed

text \<open>Addition, subtraction and multiplication of 64-bit integers report an overflow exactly
  when the mathematical result leaves the range of 64 bits, leave the operand unchanged then,
  and otherwise store the exact result.\<close>

theorem Int64_arithmetic_exact:
  assumes "in_i64 a" and "in_i64 b"
  shows "sqlite3AddInt64 a b = (if in_i64 (a + b) then (a + b, False) else (a, True)) \<and>
    sqlite3SubInt64 a b = (if in_i64 (a - b) then (a - b, False) else (a, True)) \<and>
    sqlite3MulInt64 a b = (if in_i64 (a * b) then (a * b, False) else (a, True))"
  using AddInt64_exact [OF assms] SubInt64_exact [OF assms] MulInt64_exact [OF assms] by blast

theorem Int64_arithmetic_exact_witness:
  "sqlite3MulInt64 4294967296 (-2147483649) = (4294967296, True) \<and>
   sqlite3SubInt64 (-1) (- 9223372036854775808) = (9223372036854775807, False)"
  using Int64_arithmetic_exact [of 4294967296 "-2147483649"]
    Int64_arithmetic_exact [of "-1" "- 9223372036854775808"]
  by (simp add: in_i64_def LARGEST_INT64_def SMALLEST_INT64_def)

end
