(* ===== verification/PathFilter.thy ===== *)
theory PathFilter
  imports Encoding
begin

text \<open>
  The exclude patterns of a backup (\<open>src/src/Backup/BackupPathFilter.cpp\<close>): which patterns a
  configuration may name, how they are compiled, and how a relative path is matched. A path is
  the list of its components, as \<open>lexically_normal\<close> leaves it.

  \<open>std::towlower\<close> of the C library is an argument (\<open>lower\<close>). The loop of \<open>matchComponent\<close> moves
  backwards at a mismatch, so that its end is not evident: it is a partial function, with \<open>None\<close>
  for not returning.
\<close>

section \<open>Validation\<close>

text \<open>\<open>isspace\<close> of the C locale.\<close>

definition is_space_byte :: "u8 \<Rightarrow> bool" where
  "is_space_byte b \<longleftrightarrow> b = 32 \<or> 9 \<le> b \<and> b \<le> 13"

definition trimCopy :: "u8 list \<Rightarrow> u8 list" where
  "trimCopy value = rev (dropWhile is_space_byte (rev (dropWhile is_space_byte value)))"

definition replaceBackslashes :: "u8 list \<Rightarrow> u8 list" where
  "replaceBackslashes value = map (\<lambda>c. if c = 0x5C then 0x2F else c) value"

definition hasDriveOrScheme :: "u8 list \<Rightarrow> bool" where
  "hasDriveOrScheme pattern \<longleftrightarrow> 0x3A \<in> set pattern"

definition isUncPattern :: "u8 list \<Rightarrow> bool" where
  "isUncPattern pattern \<longleftrightarrow> length pattern \<ge> 2 \<and> pattern ! 0 = 0x2F \<and> pattern ! 1 = 0x2F"

fun splitUtf8Components :: "u8 list \<Rightarrow> (u8 list) list" where
  "splitUtf8Components [] = [[]]"
| "splitUtf8Components (c # cs) =
     (if c = 0x2F then [] # splitUtf8Components cs
      else case splitUtf8Components cs of [] \<Rightarrow> [[c]] | part # parts \<Rightarrow> (c # part) # parts)"

text \<open>The trailing separators mark a directory, a leading one the root; the error is its message.\<close>

definition validateExcludePattern :: "u8 list \<Rightarrow> string + u8 list" where
  "validateExcludePattern pattern =
     (let trimmed = trimCopy pattern
      in if trimmed = [] then Inl ''must not be empty''
         else if hd trimmed = 0x21 then Inl ''negative patterns (!pattern) are not supported''
         else if hasDriveOrScheme trimmed then Inl ''must be a relative pattern (absolute paths are not allowed)''
         else let normalized = replaceBackslashes trimmed
           in if isUncPattern normalized then Inl ''UNC paths are not allowed''
              else let directory_only = last normalized = 0x2F;
                       normalized = rev (dropWhile (\<lambda>c. c = 0x2F) (rev normalized));
                       rooted = normalized \<noteq> [] \<and> hd normalized = 0x2F;
                       normalized = dropWhile (\<lambda>c. c = 0x2F) normalized
                in if normalized = [] then Inl ''must not be empty''
                   else let components = splitUtf8Components normalized
                     in if [] \<in> set components then Inl ''must not contain empty path components''
                        else if [0x2E] \<in> set components \<or> [0x2E, 0x2E] \<in> set components
                        then Inl ''must not contain . or .. path components''
                        else Inr ((if rooted then [0x2F] else []) @ normalized @ (if directory_only then [0x2F] else [])))"

section \<open>Compilation\<close>

datatype segment = DoubleStar | Text wstring

record compiled_pattern =
  cp_directory_only :: bool
  cp_name_only :: bool
  cp_segments :: "segment list"

definition normalizeForMatch :: "(u16 \<Rightarrow> u16) \<Rightarrow> wstring \<Rightarrow> wstring" where
  "normalizeForMatch lower value = map lower value"

definition segment_of :: "wstring \<Rightarrow> segment" where
  "segment_of part = (if part = [0x2A, 0x2A] then DoubleStar else Text part)"

text \<open>The non-empty parts between separators.\<close>

fun split_parts :: "wstring \<Rightarrow> wstring \<Rightarrow> wstring list" where
  "split_parts current [] = (if current = [] then [] else [current])"
| "split_parts current (ch # chs) =
     (if ch = 0x2F then (if current = [] then [] else [current]) @ split_parts [] chs
      else split_parts (current @ [ch]) chs)"

definition splitPathComponents :: "wstring \<Rightarrow> wstring list" where
  "splitPathComponents path = split_parts [] path"

definition compileValidated :: "(u16 \<Rightarrow> u16) \<Rightarrow> u8 list \<Rightarrow> utf_error + compiled_pattern" where
  "compileValidated lower pattern =
     (let directory_only = pattern \<noteq> [] \<and> last pattern = 0x2F;
          body = (if directory_only then butlast pattern else pattern);
          rooted = body \<noteq> [] \<and> hd body = 0x2F;
          body = (if rooted then tl body else body)
      in case utf8_to_wstring body of
          Inl e \<Rightarrow> Inl e
        | Inr wide \<Rightarrow>
            (let segments = map segment_of (split_parts [] (normalizeForMatch lower wide))
             in Inr \<lparr>cp_directory_only = directory_only,
                  cp_name_only = (\<not> rooted \<and> length segments = 1 \<and> hd segments \<noteq> DoubleStar),
                  cp_segments = segments\<rparr>))"

section \<open>Matching\<close>

text \<open>The loop of \<open>matchComponent\<close>: \<open>pi\<close> and \<open>vi\<close> are the positions in pattern and value, \<open>star\<close> the
  last asterisk and the position it was tried at.\<close>

partial_function (option) match_loop :: "wstring \<Rightarrow> wstring \<Rightarrow> nat \<Rightarrow> nat \<Rightarrow> (nat \<times> nat) option \<Rightarrow> bool option" where
  "match_loop pat value pi vi star =
     (if vi < length value
      then if pi < length pat \<and> (pat ! pi = 0x3F \<or> pat ! pi = value ! vi)
           then match_loop pat value (pi + 1) (vi + 1) star
           else if pi < length pat \<and> pat ! pi = 0x2A
           then match_loop pat value (pi + 1) vi (Some (pi, vi))
           else case star of
               Some (star_pi, star_vi) \<Rightarrow> match_loop pat value (star_pi + 1) (star_vi + 1) (Some (star_pi, star_vi + 1))
             | None \<Rightarrow> Some False
      else Some (dropWhile (\<lambda>c. c = 0x2A) (drop pi pat) = []))"

definition matchComponent :: "wstring \<Rightarrow> wstring \<Rightarrow> bool" where
  "matchComponent pat value = (match_loop pat value 0 0 None = Some True)"

text \<open>The positions in pattern and path are the lists still to be matched.\<close>

fun matchSegments :: "segment list \<Rightarrow> wstring list \<Rightarrow> bool" where
  "matchSegments [] path = (path = [])"
| "matchSegments (DoubleStar # pattern) path =
     (pattern = [] \<or> list_ex (\<lambda>next. matchSegments pattern (drop next path)) [0..<length path + 1])"
| "matchSegments (Text t # pattern) path =
     (path \<noteq> [] \<and> matchComponent t (hd path) \<and> matchSegments pattern (tl path))"

definition pattern_matches :: "compiled_pattern \<Rightarrow> wstring list \<Rightarrow> bool \<Rightarrow> bool" where
  "pattern_matches pattern components is_directory =
     (if cp_directory_only pattern \<and> \<not> is_directory then False
      else if cp_name_only pattern
      then (case cp_segments pattern of [Text t] \<Rightarrow> matchComponent t (last components) | _ \<Rightarrow> False)
      else matchSegments (cp_segments pattern) components)"

text \<open>The path as it is matched: its components, each in lower case.\<close>

definition matches :: "(u16 \<Rightarrow> u16) \<Rightarrow> compiled_pattern list \<Rightarrow> wstring list \<Rightarrow> bool \<Rightarrow> bool" where
  "matches lower compiled relative_path is_directory =
     (let components = map (normalizeForMatch lower) relative_path
      in components \<noteq> [] \<and> list_ex (\<lambda>pattern. pattern_matches pattern components is_directory) compiled)"

definition isFileExcluded :: "(u16 \<Rightarrow> u16) \<Rightarrow> compiled_pattern list \<Rightarrow> wstring list \<Rightarrow> bool" where
  "isFileExcluded lower compiled relative_path = matches lower compiled relative_path False"

definition isDirectoryExcluded :: "(u16 \<Rightarrow> u16) \<Rightarrow> compiled_pattern list \<Rightarrow> wstring list \<Rightarrow> bool" where
  "isDirectoryExcluded lower compiled relative_path = matches lower compiled relative_path True"

section \<open>What a pattern means\<close>

text \<open>A wildcard: an asterisk stands for any characters, a question mark for one, and every other
  character for itself.\<close>

fun glob :: "wstring \<Rightarrow> wstring \<Rightarrow> bool" where
  "glob [] value \<longleftrightarrow> value = []"
| "glob (p # pat) value \<longleftrightarrow>
     (if p = 0x2A then \<exists>n \<le> length value. glob pat (drop n value)
      else value \<noteq> [] \<and> (p = 0x3F \<or> p = hd value) \<and> glob pat (tl value))"

lemma drop_Cons: "i < length xs \<Longrightarrow> drop i xs = xs ! i # drop (Suc i) xs"
  by (simp add: Cons_nth_drop_Suc)

lemma glob_star_back:
  assumes "glob (0x2A # pat) (drop k value)" and "j \<le> k" and "k \<le> length value"
  shows "glob (0x2A # pat) (drop j value)"
proof -
  from assms(1) obtain n where n: "n \<le> length value - k" "glob pat (drop (k + n) value)"
    by (auto simp: add.commute)
  then have "glob pat (drop (k - j + n) (drop j value))" "k - j + n \<le> length value - j" using assms(2,3) by (simp_all add: algebra_simps)
  then show ?thesis by auto
qed

text \<open>Characters without an asterisk take as many of the value.\<close>

lemma glob_consume:
  assumes "glob (drop a pat) w" and "a + k \<le> length pat" and "\<forall>i. a \<le> i \<longrightarrow> i < a + k \<longrightarrow> pat ! i \<noteq> 0x2A"
  shows "k \<le> length w \<and> glob (drop (a + k) pat) (drop k w)"
  using assms
proof (induction k)
  case (Suc k)
  then have IH: "k \<le> length w" "glob (drop (a + k) pat) (drop k w)" by auto
  have "drop (a + k) pat = pat ! (a + k) # drop (a + Suc k) pat" using Suc.prems(2) drop_Cons [of "a + k" pat] by simp
  with IH Suc.prems(3) have g: "drop k w \<noteq> []" "glob (drop (a + Suc k) pat) (tl (drop k w))" by auto
  then have "k < length w" by simp
  with g(2) show ?case by (simp add: drop_Suc tl_drop)
qed simp

text \<open>What the loop decides: the rest matches, or it does after the last asterisk took more.\<close>

definition loop_goal :: "wstring \<Rightarrow> wstring \<Rightarrow> nat \<Rightarrow> nat \<Rightarrow> (nat \<times> nat) option \<Rightarrow> bool" where
  "loop_goal pat value pi vi star \<longleftrightarrow> glob (drop pi pat) (drop vi value) \<or>
     (case star of None \<Rightarrow> False
      | Some (sp, sv) \<Rightarrow> \<exists>j. sv < j \<and> j \<le> length value \<and> glob (drop (Suc sp) pat) (drop j value))"

definition loop_inv :: "wstring \<Rightarrow> wstring \<Rightarrow> nat \<Rightarrow> nat \<Rightarrow> (nat \<times> nat) option \<Rightarrow> bool" where
  "loop_inv pat value pi vi star \<longleftrightarrow> vi \<le> length value \<and> pi \<le> length pat \<and>
     (case star of None \<Rightarrow> True
      | Some (sp, sv) \<Rightarrow> sv \<le> vi \<and> pi = Suc sp + (vi - sv) \<and> (\<forall>i. sp < i \<longrightarrow> i < pi \<longrightarrow> pat ! i \<noteq> 0x2A))"

lemma loop_end:
  assumes "loop_inv pat value pi vi star" and "\<not> vi < length value"
  shows "loop_goal pat value pi vi star \<longleftrightarrow> dropWhile (\<lambda>c. c = 0x2A) (drop pi pat) = []"
proof -
  have vi: "vi = length value" using assms by (simp add: loop_inv_def)
  have later: False if s: "star = Some (sp, sv)" and j: "sv < j" "j \<le> length value" "glob (drop (Suc sp) pat) (drop j value)" for sp sv j
  proof -
    have p: "sv \<le> vi" "pi = Suc sp + (vi - sv)" "pi \<le> length pat" "\<forall>i. sp < i \<longrightarrow> i < pi \<longrightarrow> pat ! i \<noteq> 0x2A"
      using assms(1) s by (auto simp: loop_inv_def)
    have "vi - sv \<le> length (drop j value)"
      using glob_consume [OF j(3), of "vi - sv"] p by auto
    with vi j p(1) show False by simp
  qed
  have empty: "glob q [] \<longleftrightarrow> dropWhile (\<lambda>c. c = 0x2A) q = []" for q
    by (induction q) auto
  show ?thesis using later empty [of "drop pi pat"] by (auto simp: loop_goal_def vi split: option.splits)
qed

lemma loop_literal:
  assumes "loop_inv pat value pi vi star" and "vi < length value" and "pi < length pat"
    and "pat ! pi \<noteq> 0x2A" and "pat ! pi = 0x3F \<or> pat ! pi = value ! vi"
  shows "loop_inv pat value (Suc pi) (Suc vi) star \<and> (loop_goal pat value pi vi star \<longleftrightarrow> loop_goal pat value (Suc pi) (Suc vi) star)"
proof -
  have "glob (drop pi pat) (drop vi value) = glob (drop (Suc pi) pat) (drop (Suc vi) value)"
    using assms(2-5) by (simp add: drop_Cons)
  moreover have "loop_inv pat value (Suc pi) (Suc vi) star"
    using assms by (auto simp: loop_inv_def less_Suc_eq split: option.splits)
  ultimately show ?thesis by (simp add: loop_goal_def)
qed

lemma loop_star:
  assumes "loop_inv pat value pi vi star" and "vi < length value" and "pi < length pat" and "pat ! pi = 0x2A"
  shows "loop_inv pat value (Suc pi) vi (Some (pi, vi)) \<and> (loop_goal pat value pi vi star \<longleftrightarrow> loop_goal pat value (Suc pi) vi (Some (pi, vi)))"
proof -
  have d: "drop pi pat = 0x2A # drop (Suc pi) pat" using assms(3,4) by (simp add: drop_Cons)
  have here: "loop_goal pat value (Suc pi) vi (Some (pi, vi)) \<longleftrightarrow> glob (drop pi pat) (drop vi value)"
  proof
    assume "loop_goal pat value (Suc pi) vi (Some (pi, vi))"
    then have "\<exists>j \<ge> vi. j \<le> length value \<and> glob (drop (Suc pi) pat) (drop j value)"
      using assms(2) by (auto simp: loop_goal_def intro: less_imp_le)
    then obtain j where j: "vi \<le> j" "j \<le> length value" "glob (drop (Suc pi) pat) (drop j value)" by blast
    then have "glob (drop (Suc pi) pat) (drop (j - vi) (drop vi value))" "j - vi \<le> length (drop vi value)" by simp_all
    then show "glob (drop pi pat) (drop vi value)" unfolding d by auto
  next
    assume "glob (drop pi pat) (drop vi value)"
    then obtain n where n: "n \<le> length value - vi" "glob (drop (Suc pi) pat) (drop (vi + n) value)"
      unfolding d by (auto simp: add.commute)
    then show "loop_goal pat value (Suc pi) vi (Some (pi, vi))"
      using assms(2) by (cases n) (auto simp: loop_goal_def intro!: exI [of _ "vi + n"])
  qed
  have old: "glob (drop pi pat) (drop vi value)"
    if s: "star = Some (sp, sv)" and j: "sv < j" "j \<le> length value" "glob (drop (Suc sp) pat) (drop j value)" for sp sv j
  proof -
    have p: "sv \<le> vi" "pi = Suc sp + (vi - sv)" "\<forall>i. sp < i \<longrightarrow> i < pi \<longrightarrow> pat ! i \<noteq> 0x2A"
      using assms(1) s by (auto simp: loop_inv_def)
    from glob_consume [OF j(3), of "vi - sv"] p assms(3)
    have c: "vi - sv \<le> length value - j" "glob (drop pi pat) (drop (vi - sv + j) value)" by (auto simp: add.commute)
    show ?thesis unfolding d
      by (rule glob_star_back [of _ "vi - sv + j"]) (use c j p(1) d in auto)
  qed
  have "loop_goal pat value pi vi star \<longleftrightarrow> glob (drop pi pat) (drop vi value)"
    using old by (auto simp: loop_goal_def split: option.splits)
  with here assms show ?thesis by (auto simp: loop_inv_def)
qed

lemma loop_mismatch:
  assumes "loop_inv pat value pi vi star" and "vi < length value"
    and "\<not> (pi < length pat \<and> (pat ! pi = 0x3F \<or> pat ! pi = value ! vi))" and "\<not> (pi < length pat \<and> pat ! pi = 0x2A)"
  shows "loop_goal pat value pi vi star \<longleftrightarrow> (case star of None \<Rightarrow> False
    | Some (sp, sv) \<Rightarrow> loop_goal pat value (Suc sp) (Suc sv) (Some (sp, Suc sv)))"
    and "star = Some (sp, sv) \<Longrightarrow> loop_inv pat value (Suc sp) (Suc sv) (Some (sp, Suc sv))"
proof -
  have no: "\<not> glob (drop pi pat) (drop vi value)"
  proof (cases "pi < length pat")
    case True
    with assms(2-4) show ?thesis by (simp add: drop_Cons)
  next
    case False
    with assms(2) show ?thesis by simp
  qed
  have "(\<exists>j. sv < j \<and> j \<le> length value \<and> P j) \<longleftrightarrow> P (Suc sv) \<or> (\<exists>j. Suc sv < j \<and> j \<le> length value \<and> P j)"
    if "sv < length value" for sv P
    using that by (metis Suc_leI Suc_lessD Suc_lessI lessI)
  moreover have "star = Some (sp, sv) \<Longrightarrow> sv < length value" for sp sv using assms(1,2) by (auto simp: loop_inv_def)
  ultimately show "loop_goal pat value pi vi star \<longleftrightarrow> (case star of None \<Rightarrow> False
    | Some (sp, sv) \<Rightarrow> loop_goal pat value (Suc sp) (Suc sv) (Some (sp, Suc sv)))"
    using no by (auto simp: loop_goal_def split: option.splits)
  show "star = Some (sp, sv) \<Longrightarrow> loop_inv pat value (Suc sp) (Suc sv) (Some (sp, Suc sv))"
    using assms(1,2) by (auto simp: loop_inv_def)
qed

lemma match_loop_goal:
  assumes "0x2A \<notin> set value" and "loop_inv pat value pi vi star"
  shows "match_loop pat value pi vi star = Some (loop_goal pat value pi vi star)"
  using assms(2)
proof (induction "(case star of None \<Rightarrow> Suc (length value) | Some (sp, sv) \<Rightarrow> length value - sv, length value - vi, length pat - pi)"
    arbitrary: pi vi star rule: wf_induct_rule [OF wf_lex_prod [OF wf_less_than wf_lex_prod [OF wf_less_than wf_less_than]]])
  case 1
  note IH = "1.hyps" and inv = "1.prems"
  show ?case
  proof (cases "vi < length value")
    case False
    with loop_end [OF inv] show ?thesis by (simp add: match_loop.simps)
  next
    case vi: True
    show ?thesis
    proof (cases "pi < length pat \<and> (pat ! pi = 0x3F \<or> pat ! pi = value ! vi)")
      case True
      with assms(1) vi have "pat ! pi \<noteq> 0x2A" by (auto dest: nth_mem)
      from loop_literal [OF inv vi _ this] True have l: "loop_inv pat value (Suc pi) (Suc vi) star"
        "loop_goal pat value pi vi star = loop_goal pat value (Suc pi) (Suc vi) star" by blast+
      have "((case star of None \<Rightarrow> Suc (length value) | Some (sp, sv) \<Rightarrow> length value - sv, length value - Suc vi, length pat - Suc pi),
        (case star of None \<Rightarrow> Suc (length value) | Some (sp, sv) \<Rightarrow> length value - sv, length value - vi, length pat - pi))
        \<in> less_than <*lex*> less_than <*lex*> less_than" using vi by (simp add: diff_less_mono2)
      from IH [OF this l(1)] vi True show ?thesis by (subst match_loop.simps) (simp add: l(2))
    next
      case mis: False
      show ?thesis
      proof (cases "pi < length pat \<and> pat ! pi = 0x2A")
        case True
        from loop_star [OF inv vi] True have l: "loop_inv pat value (Suc pi) vi (Some (pi, vi))"
          "loop_goal pat value pi vi star = loop_goal pat value (Suc pi) vi (Some (pi, vi))" by blast+
        have "((case Some (pi, vi) of None \<Rightarrow> Suc (length value) | Some (sp, sv) \<Rightarrow> length value - sv, length value - vi, length pat - Suc pi),
          (case star of None \<Rightarrow> Suc (length value) | Some (sp, sv) \<Rightarrow> length value - sv, length value - vi, length pat - pi))
          \<in> less_than <*lex*> less_than <*lex*> less_than"
          using inv True vi by (auto simp: loop_inv_def split: option.splits)
        from IH [OF this l(1)] vi True mis show ?thesis by (subst match_loop.simps) (simp add: l(2))
      next
        case no_star: False
        show ?thesis
        proof (cases star)
          case None
          with loop_mismatch(1) [OF inv vi mis no_star] vi mis no_star show ?thesis by (subst match_loop.simps) auto
        next
          case (Some s)
          obtain sp sv where s: "star = Some (sp, sv)" using Some by (cases s) auto
          note l = loop_mismatch [OF inv vi mis no_star]
          have "sv < length value" using inv vi s by (auto simp: loop_inv_def)
          then have "((case Some (sp, Suc sv) of None \<Rightarrow> Suc (length value) | Some (sp, sv) \<Rightarrow> length value - sv, length value - Suc sv, length pat - Suc sp),
            (case star of None \<Rightarrow> Suc (length value) | Some (sp, sv) \<Rightarrow> length value - sv, length value - vi, length pat - pi))
            \<in> less_than <*lex*> less_than <*lex*> less_than" by (simp add: s diff_less_mono2)
          from IH [OF this l(2) [OF s]] l(1) vi mis no_star show ?thesis by (subst match_loop.simps) (auto simp: s)
        qed
      qed
    qed
  qed
qed

lemma matchComponent_glob: "0x2A \<notin> set value \<Longrightarrow> matchComponent pat value = glob pat value"
  by (simp add: matchComponent_def match_loop_goal loop_inv_def loop_goal_def)

text \<open>A pattern of several parts: two asterisks stand for any number of components, every other part
  for one component that it matches as a wildcard.\<close>

definition part_matches :: "segment \<Rightarrow> wstring list \<Rightarrow> bool" where
  "part_matches seg part = (case seg of DoubleStar \<Rightarrow> True | Text t \<Rightarrow> \<exists>x. part = [x] \<and> glob t x)"

definition segments_match :: "segment list \<Rightarrow> wstring list \<Rightarrow> bool" where
  "segments_match pattern path \<longleftrightarrow> (\<exists>parts. concat parts = path \<and> list_all2 part_matches pattern parts)"

lemma segments_match_simps:
  "segments_match [] path \<longleftrightarrow> path = []"
  "segments_match (DoubleStar # pattern) path \<longleftrightarrow> (\<exists>n \<le> length path. segments_match pattern (drop n path))"
  "segments_match (Text t # pattern) path \<longleftrightarrow> path \<noteq> [] \<and> glob t (hd path) \<and> segments_match pattern (tl path)"
proof -
  show "segments_match [] path \<longleftrightarrow> path = []" by (auto simp: segments_match_def)
  show "segments_match (DoubleStar # pattern) path \<longleftrightarrow> (\<exists>n \<le> length path. segments_match pattern (drop n path))"
  proof
    assume "segments_match (DoubleStar # pattern) path"
    then obtain part parts where "part @ concat parts = path" "list_all2 part_matches pattern parts"
      by (auto simp: segments_match_def list_all2_Cons1)
    then show "\<exists>n \<le> length path. segments_match pattern (drop n path)"
      by (intro exI [of _ "length part"]) (auto simp: segments_match_def)
  next
    assume "\<exists>n \<le> length path. segments_match pattern (drop n path)"
    then obtain n parts where "concat parts = drop n path" "list_all2 part_matches pattern parts" by (auto simp: segments_match_def)
    then have "concat (take n path # parts) = path" "list_all2 part_matches (DoubleStar # pattern) (take n path # parts)"
      by (simp_all add: part_matches_def)
    then show "segments_match (DoubleStar # pattern) path" unfolding segments_match_def by blast
  qed
  show "segments_match (Text t # pattern) path \<longleftrightarrow> path \<noteq> [] \<and> glob t (hd path) \<and> segments_match pattern (tl path)"
  proof
    assume "segments_match (Text t # pattern) path"
    then show "path \<noteq> [] \<and> glob t (hd path) \<and> segments_match pattern (tl path)"
      by (auto simp: segments_match_def list_all2_Cons1 part_matches_def)
  next
    assume a: "path \<noteq> [] \<and> glob t (hd path) \<and> segments_match pattern (tl path)"
    then obtain parts where "concat parts = tl path" "list_all2 part_matches pattern parts" by (auto simp: segments_match_def)
    with a have "concat ([hd path] # parts) = path" "list_all2 part_matches (Text t # pattern) ([hd path] # parts)"
      by (simp_all add: part_matches_def)
    then show "segments_match (Text t # pattern) path" unfolding segments_match_def by blast
  qed
qed

lemma matchSegments_exact: "\<forall>x \<in> set path. 0x2A \<notin> set x \<Longrightarrow> matchSegments pattern path = segments_match pattern path"
proof (induction pattern path rule: matchSegments.induct)
  case (1 path)
  then show ?case by (simp add: segments_match_simps)
next
  case (2 pattern path)
  show ?case
  proof (cases "pattern = []")
    case True
    have "segments_match [DoubleStar] path" by (auto simp: segments_match_simps)
    with True show ?thesis by simp
  next
    case False
    have "\<forall>x \<in> set (drop n path). 0x2A \<notin> set x" for n using "2.prems" by (meson in_set_dropD)
    then have "matchSegments pattern (drop n path) = segments_match pattern (drop n path)" if "n \<le> length path" for n
      using "2.IH" [of n] that by (simp add: less_Suc_eq_le del: upt_Suc)
    then show ?thesis using False by (auto simp: segments_match_simps list_ex_iff less_Suc_eq_le simp del: upt_Suc)
  qed
next
  case (3 t pattern path)
  then show ?case by (cases path) (auto simp: segments_match_simps matchComponent_glob)
qed

lemma plain_name: "(case segs of [Text t] \<Rightarrow> P t | _ \<Rightarrow> False) \<longleftrightarrow> (\<exists>t. segs = [Text t] \<and> P t)"
  by (cases segs; cases "hd segs"; cases "tl segs") auto

lemma ex_le_steps: "(\<exists>n \<le> Suc k. P n) \<longleftrightarrow> P 0 \<or> (\<exists>n \<le> k. P (Suc n))" "(\<exists>n \<le> (0::nat). P n) \<longleftrightarrow> P 0"
  by (metis Suc_le_mono not0_implies_Suc zero_le) simp

text \<open>C31: The matcher does what the patterns say. A path is excluded exactly when one of the patterns
  covers it: a pattern for directories covers only directories; a plain name is compared with
  the last component, wherever that is; and any other pattern is compared with the whole path,
  two asterisks standing for any number of components and a wildcard for one. In particular
  the loop that tries an asterisk again always returns. (No component contains an asterisk,
  which Windows does not allow: one would be taken for itself.)\<close>

theorem excluded_exactly:
  assumes "\<forall>x \<in> set relative_path. 0x2A \<notin> set (normalizeForMatch lower x)"
  shows "matches lower compiled relative_path is_directory \<longleftrightarrow>
    (let components = map (normalizeForMatch lower) relative_path
     in components \<noteq> [] \<and> (\<exists>pattern \<in> set compiled. (cp_directory_only pattern \<longrightarrow> is_directory) \<and>
       (if cp_name_only pattern then \<exists>t. cp_segments pattern = [Text t] \<and> glob t (last components)
        else segments_match (cp_segments pattern) components)))"
proof -
  have c: "\<forall>x \<in> set (map (normalizeForMatch lower) relative_path). 0x2A \<notin> set x" using assms by simp
  have "pattern_matches pattern (map (normalizeForMatch lower) relative_path) is_directory \<longleftrightarrow>
      (cp_directory_only pattern \<longrightarrow> is_directory) \<and>
      (if cp_name_only pattern then \<exists>t. cp_segments pattern = [Text t] \<and> glob t (last (map (normalizeForMatch lower) relative_path))
       else segments_match (cp_segments pattern) (map (normalizeForMatch lower) relative_path))"
    if "relative_path \<noteq> []" for pattern
  proof -
    have "0x2A \<notin> set (last (map (normalizeForMatch lower) relative_path))" using c that by (meson last_in_set map_is_Nil_conv)
    then show ?thesis
      by (auto simp: pattern_matches_def matchSegments_exact [OF c] matchComponent_glob plain_name)
  qed
  then show ?thesis unfolding matches_def Let_def list_ex_iff by (cases "relative_path = []") (simp_all del: if_split)
qed

definition demo_patterns :: "compiled_pattern list" where
  "demo_patterns = map (\<lambda>p. case compileValidated id (map of_char p) of Inr c \<Rightarrow> c)
     [''*.tmp'', ''/cache/'', ''a/**/b?'']"

lemma excluded_exactly_witness:
  "matches id demo_patterns [map of_char ''x'', map of_char ''y.tmp''] False \<and>
   \<not> matches id demo_patterns [map of_char ''x'', map of_char ''cache''] True \<and>
   matches id demo_patterns [map of_char ''a'', map of_char ''p'', map of_char ''q'', map of_char ''b1''] False"
proof -
  have p: "demo_patterns = [\<lparr>cp_directory_only = False, cp_name_only = True, cp_segments = [Text (map of_char ''*.tmp'')]\<rparr>,
      \<lparr>cp_directory_only = True, cp_name_only = False, cp_segments = [Text (map of_char ''cache'')]\<rparr>,
      \<lparr>cp_directory_only = False, cp_name_only = False, cp_segments = [Text (map of_char ''a''), DoubleStar, Text (map of_char ''b?'')]\<rparr>]"
    by code_simp
  show ?thesis
    by (subst excluded_exactly, simp add: normalizeForMatch_def)+ (simp add: p normalizeForMatch_def segments_match_simps ex_le_steps)
qed

end
