(* ===== verification/MirrorHistory.thy ===== *)
theory MirrorHistory
  imports UploadSink PathFilter "HOL-Library.List_Lexorder"
begin

text \<open>
  The rolling backup (\<open>src/src/Backup/MirrorHistory.cpp\<close>): a run makes the current mirror equal
  to the source, moves every version it replaces into a store of objects under its path and its
  SHA-256, takes restore points as their tiers fall due, removes the oldest, and deletes the
  objects no point needs.

  A relative path is the list of its components; the UTF-8 form under which it stands in a
  manifest determines it (\<open>Utf8Decode\<close>), and only whether that form exists is represented. The
  volume finds a name by its folded form (\<open>be_fold\<close>) and keeps the spelling under which an entry
  was made. What the operating system may refuse is an argument (\<open>be_fails\<close>), SHA-256 is one
  (\<open>be_sha\<close>), and so are the SQLite-aware calls of the mode \<open>Auto\<close> and what a source file contains
  at each of the reads of a run. An enumeration that fails ends the iterator, which the loop
  cannot tell from the end of the tree: the tree is what the iterator yields. Moving and
  replacing a file are atomic, a failed copy leaves no file, and the staging directory holds
  nothing else. Sizes do not overflow.
\<close>

section \<open>The volume\<close>

datatype fs_op = CreateRoots | CreateDataDir | StatCurrent | StatArchive | StatSize | HashStaged | HashCurrent
  | CreateObjectDir | RemoveCurrent | ArchiveMove | PublishMove | CopyBack | WriteManifest | CreateTier | WritePoint
  | ReadPoint | RemovePoint | RemoveObject | RemoveDir

type_synonym fingerprint = "wstring \<times> bool"

record captured =
  cap_content :: "u8 list"
  cap_fingerprint :: wstring
  cap_reliable :: bool
  cap_method :: string

record backup_env =
  be_fold :: "wstring \<Rightarrow> wstring"
  be_lower :: "u16 \<Rightarrow> u16"
  be_sha :: "u8 list \<Rightarrow> wstring"
  be_fails :: "fs_op \<Rightarrow> path \<Rightarrow> bool"
  be_auto :: bool
  be_sidecar :: "path \<Rightarrow> bool"
  be_inspect :: "path \<Rightarrow> fingerprint option"
  be_capture :: "path \<Rightarrow> captured option"
  be_reads :: "path \<Rightarrow> nat \<Rightarrow> u8 list option"

text \<open>A directory tree finds a name whatever its case and keeps the first spelling.\<close>

type_synonym 'a tree = "(path \<times> 'a) list"

definition same_name :: "backup_env \<Rightarrow> path \<Rightarrow> path \<Rightarrow> bool" where
  "same_name env p q \<longleftrightarrow> map (be_fold env) p = map (be_fold env) q"

fun spell :: "backup_env \<Rightarrow> path list \<Rightarrow> path \<Rightarrow> path" where
  "spell env known [] = []"
| "spell env known (c # cs) =
     (let same = filter (\<lambda>q. q \<noteq> [] \<and> be_fold env (hd q) = be_fold env c) known
      in (case same of [] \<Rightarrow> c | q # _ \<Rightarrow> hd q) # spell env (map tl same) cs)"

definition dk_find :: "backup_env \<Rightarrow> 'a tree \<Rightarrow> path \<Rightarrow> 'a option" where
  "dk_find env m p = map_option snd (find (\<lambda>e. same_name env (fst e) p) m)"

definition dk_put :: "backup_env \<Rightarrow> path \<Rightarrow> 'a \<Rightarrow> 'a tree \<Rightarrow> 'a tree" where
  "dk_put env p v m =
     (if list_ex (\<lambda>e. same_name env (fst e) p) m
      then map (\<lambda>e. if same_name env (fst e) p then (fst e, v) else e) m
      else m @ [(spell env (map fst m) p, v)])"

definition dk_erase :: "backup_env \<Rightarrow> path \<Rightarrow> 'a tree \<Rightarrow> 'a tree" where
  "dk_erase env p m = filter (\<lambda>e. \<not> same_name env (fst e) p) m"

definition is_file :: "entry option \<Rightarrow> bool" where
  "is_file e = (case e of Some (RegularFile _) \<Rightarrow> True | _ \<Rightarrow> False)"

text \<open>\<open>fs::create_directories\<close>: it fails where a file is in the way.\<close>

definition create_dirs :: "backup_env \<Rightarrow> path \<Rightarrow> entry tree \<Rightarrow> entry tree option" where
  "create_dirs env p m =
     (let prefixes = map (\<lambda>n. take n p) [1..<length p + 1]
      in if list_ex (\<lambda>d. is_file (dk_find env m d)) prefixes then None
         else Some (fold (\<lambda>d m. if dk_find env m d = None then dk_put env d Directory m else m) prefixes m))"

section \<open>The state of a backup\<close>

record history_file =
  hf_size :: nat
  hf_sha256 :: wstring
  hf_fingerprint :: wstring
  hf_reliable :: bool
  hf_captured_at :: wstring
  hf_captured_seconds :: int
  hf_method :: string

record history_state =
  hs_complete :: bool
  hs_files :: "(path, history_file) umap"
  hs_directories :: "path list"
  hs_errors :: "(path \<times> string) list"

datatype manifest_file = NoManifest | UnreadableManifest | Manifest history_state

record restore_point =
  rp_created :: int
  rp_state :: history_state

record history_tier =
  ht_name :: wstring
  ht_period_sec :: int
  ht_max_points :: nat

text \<open>The points of a tier are in the order of their names.\<close>

type_synonym tier_points = "(wstring \<times> restore_point) list"

record mirror_store =
  ms_manifest :: manifest_file
  ms_data :: "entry tree"
  ms_objects :: "u8 list tree"
  ms_points :: "(wstring, tier_points) umap"

section \<open>The source\<close>

datatype source_node = SourceFile | SourceDirectory "(wstring \<times> source_node) list" | SourceLink | SourceOther

datatype entry_kind = KDirectory | KFile

text \<open>\<open>None\<close> is an entry of an unsupported kind.\<close>

fun collect_node :: "backup_env \<Rightarrow> compiled_pattern list \<Rightarrow> path \<Rightarrow> source_node \<Rightarrow> (path \<times> entry_kind) list option"
  and collect_list :: "backup_env \<Rightarrow> compiled_pattern list \<Rightarrow> path \<Rightarrow> (wstring \<times> source_node) list \<Rightarrow> (path \<times> entry_kind) list option" where
  "collect_node env excluded rel node =
     (if node = SourceLink then Some []
      else if be_auto env \<and> be_sidecar env rel then Some []
      else case node of
          SourceDirectory nodes \<Rightarrow>
            if isDirectoryExcluded (be_lower env) excluded rel then Some []
            else map_option (\<lambda>entries. (rel, KDirectory) # entries) (collect_list env excluded rel nodes)
        | SourceFile \<Rightarrow> if isFileExcluded (be_lower env) excluded rel then Some [] else Some [(rel, KFile)]
        | _ \<Rightarrow> None)"
| "collect_list env excluded rel [] = Some []"
| "collect_list env excluded rel ((name, node) # nodes) =
     (case collect_node env excluded (rel @ [name]) node of
        None \<Rightarrow> None
      | Some entries \<Rightarrow> map_option (\<lambda>rest. entries @ rest) (collect_list env excluded rel nodes))"

text \<open>What is backed up: one file, or what is enumerated of a directory.\<close>

datatype source = SingleFile wstring | SourceTree "compiled_pattern list" "(wstring \<times> source_node) list"

text \<open>The entries in the order of the map.\<close>

definition collectSourceEntries :: "backup_env \<Rightarrow> source \<Rightarrow> (path, entry_kind) umap option" where
  "collectSourceEntries env src =
     (case src of
        SingleFile name \<Rightarrow> Some [([name], KFile)]
      | SourceTree excluded nodes \<Rightarrow>
          map_option (\<lambda>entries. sort_key fst (fold (\<lambda>(p, kind). um_emplace p kind) entries [])) (collect_list env excluded [] nodes))"

text \<open>The key of a path: \<open>None\<close> is the exception for a name without a UTF-8 form.\<close>

definition relativeKey :: "path \<Rightarrow> path option" where
  "relativeKey p = (if list_all (\<lambda>c. case wstring_to_utf8 c of Inl _ \<Rightarrow> False | Inr _ \<Rightarrow> True) p then Some p else None)"

section \<open>Capturing a source file\<close>

definition sha256_v1 :: "backup_env \<Rightarrow> u8 list \<Rightarrow> wstring" where
  "sha256_v1 env content = wide ''sha256-v1:'' @ be_sha env content"

text \<open>Two reads that must agree; \<open>k\<close> counts the reads of the file.\<close>

definition inspectFilesystemSource :: "backup_env \<Rightarrow> path \<Rightarrow> nat \<Rightarrow> fingerprint option" where
  "inspectFilesystemSource env p k =
     (case (be_reads env p k, be_reads env p (k + 1)) of
        (Some first, Some second) \<Rightarrow>
          if length first = length second \<and> be_sha env first = be_sha env second then Some (sha256_v1 env second, True) else None
      | _ \<Rightarrow> None)"

fun materializeFilesystem :: "backup_env \<Rightarrow> path \<Rightarrow> nat \<Rightarrow> nat \<Rightarrow> captured option" where
  "materializeFilesystem env p k 0 = None"
| "materializeFilesystem env p k (Suc attempts) =
     (case inspectFilesystemSource env p k of
        None \<Rightarrow> None
      | Some (before, _) \<Rightarrow>
          (case be_reads env p (k + 2) of
             None \<Rightarrow> None
           | Some copied \<Rightarrow>
               (case inspectFilesystemSource env p (k + 3) of
                  Some (after, _) \<Rightarrow>
                    if before = after \<and> before = sha256_v1 env copied
                    then Some \<lparr>cap_content = copied, cap_fingerprint = after, cap_reliable = True, cap_method = ''stable-file''\<rparr>
                    else materializeFilesystem env p (k + 5) attempts
                | None \<Rightarrow> materializeFilesystem env p (k + 5) attempts)))"

definition inspect_source :: "backup_env \<Rightarrow> path \<Rightarrow> fingerprint option" where
  "inspect_source env p = (if be_auto env then be_inspect env p else inspectFilesystemSource env p 0)"

definition capture_source :: "backup_env \<Rightarrow> path \<Rightarrow> captured option" where
  "capture_source env p = (if be_auto env then be_capture env p else materializeFilesystem env p 2 3)"

section \<open>Archiving and publishing\<close>

type_synonym copies = "entry tree \<times> u8 list tree"

definition objectPath :: "path \<Rightarrow> wstring \<Rightarrow> path" where
  "objectPath relative sha256 = relative @ [sha256]"

definition object_dir_fails :: "backup_env \<Rightarrow> path \<Rightarrow> u8 list tree \<Rightarrow> bool" where
  "object_dir_fails env p objects \<longleftrightarrow> be_fails env CreateObjectDir p \<or>
     list_ex (\<lambda>n. dk_find env objects (take n p) \<noteq> None) [1..<length p + 1]"

text \<open>Whether it succeeded, the object, and the copies afterwards.\<close>

definition archiveCurrentFile :: "backup_env \<Rightarrow> path \<Rightarrow> copies \<Rightarrow> bool \<times> path option \<times> copies" where
  "archiveCurrentFile env p = (\<lambda>(data, objects).
     if be_fails env StatArchive p then (False, None, (data, objects))
     else case dk_find env data p of
         None \<Rightarrow> (True, None, (data, objects))
       | Some (RegularFile c) \<Rightarrow>
           if be_fails env HashCurrent p then (False, None, (data, objects))
           else let object = objectPath p (be_sha env c)
             in if object_dir_fails env p objects then (False, Some object, (data, objects))
                else if dk_find env objects object \<noteq> None
                then (if be_fails env RemoveCurrent p then (False, Some object, (data, objects))
                      else (True, Some object, (dk_erase env p data, objects)))
                else if be_fails env ArchiveMove p then (False, Some object, (data, objects))
                else (True, Some object, (dk_erase env p data, dk_put env object c objects))
       | Some _ \<Rightarrow> (False, None, (data, objects)))"

definition publishCurrentFile :: "backup_env \<Rightarrow> path \<Rightarrow> u8 list \<Rightarrow> copies \<Rightarrow> bool \<times> copies" where
  "publishCurrentFile env p staged = (\<lambda>(data, objects).
     case (if be_fails env CreateDataDir p then None else create_dirs env (butlast p) data) of
       None \<Rightarrow> (False, (data, objects))
     | Some data \<Rightarrow>
         (case archiveCurrentFile env p (data, objects) of
            (False, _, copies) \<Rightarrow> (False, copies)
          | (True, archived, (data, objects)) \<Rightarrow>
              if \<not> be_fails env PublishMove p then (True, (dk_put env p (RegularFile staged) data, objects))
              else (False,
                (case (dk_find env data p, Option.bind archived (dk_find env objects)) of
                   (None, Some c) \<Rightarrow> if be_fails env CopyBack p then data else dk_put env p (RegularFile c) data
                 | _ \<Rightarrow> data), objects)))"

section \<open>One run\<close>

record run_state =
  rn_copies :: copies
  rn_files :: "(path, history_file) umap"
  rn_errors :: "(path \<times> string) list"
  rn_data_changed :: bool
  rn_metadata_changed :: bool

definition add_error :: "path \<Rightarrow> string \<Rightarrow> run_state \<Rightarrow> run_state" where
  "add_error p message r = r\<lparr>rn_errors := rn_errors r @ [(p, message)]\<rparr>"

text \<open>The file is known to be unchanged without a capture.\<close>

definition known_unchanged :: "history_file option \<Rightarrow> entry option \<Rightarrow> fingerprint \<Rightarrow> bool" where
  "known_unchanged previous current = (\<lambda>(fp, reliable).
     case previous of
       None \<Rightarrow> False
     | Some old \<Rightarrow> current \<noteq> None \<and> reliable \<and> hf_reliable old \<and> fp = hf_fingerprint old)"

definition same_content :: "backup_env \<Rightarrow> path \<Rightarrow> history_file option \<Rightarrow> entry option \<Rightarrow> u8 list \<Rightarrow> bool" where
  "same_content env p previous current staged =
     (case (previous, current) of
        (Some old, Some (RegularFile c)) \<Rightarrow>
          hf_sha256 old = be_sha env staged \<and> \<not> be_fails env StatSize p \<and> length c = length staged
      | _ \<Rightarrow> False)"

definition captured_file :: "backup_env \<Rightarrow> wstring \<Rightarrow> int \<Rightarrow> captured \<Rightarrow> history_file" where
  "captured_file env time_string seconds cap =
     \<lparr>hf_size = length (cap_content cap), hf_sha256 = be_sha env (cap_content cap), hf_fingerprint = cap_fingerprint cap,
      hf_reliable = cap_reliable cap, hf_captured_at = time_string, hf_captured_seconds = seconds, hf_method = cap_method cap\<rparr>"

definition refresh_file :: "path \<Rightarrow> history_file \<Rightarrow> history_file \<Rightarrow> run_state \<Rightarrow> run_state" where
  "refresh_file p old new r =
     (if hf_fingerprint old \<noteq> hf_fingerprint new \<or> hf_reliable old \<noteq> hf_reliable new \<or> hf_method old \<noteq> hf_method new
      then r\<lparr>rn_files := um_put p (old\<lparr>hf_fingerprint := hf_fingerprint new, hf_reliable := hf_reliable new,
          hf_method := hf_method new\<rparr>) (rn_files r), rn_metadata_changed := True\<rparr>
      else r)"

definition process_file :: "backup_env \<Rightarrow> wstring \<Rightarrow> int \<Rightarrow> path \<Rightarrow> run_state \<Rightarrow> run_state" where
  "process_file env time_string seconds p r =
     (case inspect_source env p of
        None \<Rightarrow> add_error p ''cannot inspect source'' r
      | Some fp \<Rightarrow>
          if be_fails env StatCurrent p then add_error p ''cannot inspect current copy'' r
          else let previous = um_find (rn_files r) p; current = dk_find env (fst (rn_copies r)) p
            in if current \<noteq> None \<and> \<not> is_file current then add_error p ''current copy is not a regular file'' r
               else if known_unchanged previous current fp then r
               else case capture_source env p of
                   None \<Rightarrow> add_error p ''cannot capture source'' r
                 | Some cap \<Rightarrow>
                     if be_fails env HashStaged p then add_error p ''cannot hash captured file'' r
                     else if same_content env p previous current (cap_content cap)
                     then refresh_file p (the previous) (captured_file env time_string seconds cap) r
                     else case publishCurrentFile env p (cap_content cap) (rn_copies r) of
                         (False, copies) \<Rightarrow> add_error p ''cannot publish current copy'' (r\<lparr>rn_copies := copies\<rparr>)
                       | (True, copies) \<Rightarrow>
                           r\<lparr>rn_copies := copies, rn_files := um_put p (captured_file env time_string seconds cap) (rn_files r),
                             rn_data_changed := True, rn_metadata_changed := True\<rparr>)"

definition process_directory :: "backup_env \<Rightarrow> path \<Rightarrow> run_state \<Rightarrow> run_state" where
  "process_directory env p r =
     (case (if be_fails env CreateDataDir p then None else create_dirs env p (fst (rn_copies r))) of
        None \<Rightarrow> add_error p ''cannot create current directory'' r
      | Some data \<Rightarrow> r\<lparr>rn_copies := (data, snd (rn_copies r))\<rparr>)"

text \<open>\<open>Inl\<close>: an exception ends the run.\<close>

fun process_entries :: "backup_env \<Rightarrow> wstring \<Rightarrow> int \<Rightarrow> (path \<times> entry_kind) list \<Rightarrow> run_state \<Rightarrow> run_state + run_state" where
  "process_entries env time_string seconds [] r = Inr r"
| "process_entries env time_string seconds ((p, kind) # entries) r =
     (case relativeKey p of
        None \<Rightarrow> Inl r
      | Some rel \<Rightarrow> process_entries env time_string seconds entries
          (if kind = KDirectory then process_directory env rel r else process_file env time_string seconds rel r))"

definition remove_deleted :: "backup_env \<Rightarrow> path \<Rightarrow> run_state \<Rightarrow> run_state" where
  "remove_deleted env p r =
     (case archiveCurrentFile env p (rn_copies r) of
        (False, _, copies) \<Rightarrow> add_error p ''cannot archive deleted file'' (r\<lparr>rn_copies := copies\<rparr>)
      | (True, _, copies) \<Rightarrow>
          r\<lparr>rn_copies := copies, rn_files := um_erase p (rn_files r), rn_data_changed := True, rn_metadata_changed := True\<rparr>)"

definition deletion_pass :: "backup_env \<Rightarrow> path list \<Rightarrow> run_state \<Rightarrow> run_state" where
  "deletion_pass env source_files r =
     fold (\<lambda>p r. if p \<in> set source_files then r else remove_deleted env p r) (sort (um_keys (rn_files r))) r"

definition verify_source :: "backup_env \<Rightarrow> (path, entry_kind) umap \<Rightarrow> source \<Rightarrow> run_state \<Rightarrow> run_state" where
  "verify_source env entries src r =
     (case collectSourceEntries env src of
        None \<Rightarrow> add_error [] ''cannot verify source tree'' r
      | Some entries_after \<Rightarrow>
          if entries_after \<noteq> entries then add_error [] ''source directory entries changed during the backup run'' r else r)"

section \<open>Restore points\<close>

definition tierIsDue :: "backup_env \<Rightarrow> history_tier \<Rightarrow> int \<Rightarrow> tier_points \<Rightarrow> bool" where
  "tierIsDue env tier timestamp points =
     (if points = [] then True
      else let (label, point) = last points
        in if be_fails env ReadPoint [ht_name tier, label] then True
           else timestamp < rp_created point \<or> timestamp - rp_created point \<ge> ht_period_sec tier)"

definition point_label :: "wstring \<Rightarrow> nat \<Rightarrow> wstring" where
  "point_label time_string n = (if n = 0 then time_string else time_string @ wide ''_'' @ decimal_digits n)"

text \<open>The points of one tier after the attempt; \<open>None\<close> is a failure, the flag a new point.\<close>

definition createRestorePoint ::
  "backup_env \<Rightarrow> history_tier \<Rightarrow> wstring \<Rightarrow> int \<Rightarrow> history_state \<Rightarrow> tier_points \<Rightarrow> (bool \<times> tier_points) option" where
  "createRestorePoint env tier time_string timestamp current points =
     (if \<not> tierIsDue env tier timestamp points then Some (False, points)
      else if be_fails env CreateTier [ht_name tier] then None
      else case find (\<lambda>label. label \<notin> fst ` set points) (map (point_label time_string) [0..<length points + 1]) of
          None \<Rightarrow> None
        | Some label \<Rightarrow>
            if be_fails env WritePoint [ht_name tier, label] then None
            else Some (True, insort_key fst (label, \<lparr>rp_created = timestamp, rp_state = current\<rparr>) points))"

definition points_of :: "(wstring, tier_points) umap \<Rightarrow> wstring \<Rightarrow> tier_points" where
  "points_of points name = (case um_find points name of None \<Rightarrow> [] | Some ps \<Rightarrow> ps)"

fun create_points ::
  "backup_env \<Rightarrow> history_tier list \<Rightarrow> wstring \<Rightarrow> int \<Rightarrow> history_state \<Rightarrow> (wstring, tier_points) umap \<Rightarrow>
   bool \<times> bool \<times> (wstring, tier_points) umap" where
  "create_points env [] time_string timestamp current points = (True, False, points)"
| "create_points env (tier # tiers) time_string timestamp current points =
     (case createRestorePoint env tier time_string timestamp current (points_of points (ht_name tier)) of
        None \<Rightarrow> (False, False, points)
      | Some (created, ps) \<Rightarrow>
          (let (ok, more, points) = create_points env tiers time_string timestamp current
             (if created then um_put (ht_name tier) ps points else points)
           in (ok, created \<or> more, points)))"

fun remove_oldest :: "backup_env \<Rightarrow> history_tier \<Rightarrow> tier_points \<Rightarrow> tier_points" where
  "remove_oldest env tier [] = []"
| "remove_oldest env tier ((label, point) # points) =
     (if length points + 1 > ht_max_points tier \<and> \<not> be_fails env RemovePoint [ht_name tier, label]
      then remove_oldest env tier points else (label, point) # points)"

definition rotateRestorePoints :: "backup_env \<Rightarrow> history_tier list \<Rightarrow> (wstring, tier_points) umap \<Rightarrow> (wstring, tier_points) umap" where
  "rotateRestorePoints env tiers points =
     fold (\<lambda>tier points. um_put (ht_name tier) (remove_oldest env tier (points_of points (ht_name tier))) points) tiers points"

section \<open>Garbage collection\<close>

text \<open>A point whose manifest cannot be read contributes nothing.\<close>

definition collectPointReferences :: "backup_env \<Rightarrow> (wstring, tier_points) umap \<Rightarrow> (path \<times> wstring) list" where
  "collectPointReferences env points =
     concat (map (\<lambda>(name, ps). concat (map (\<lambda>(label, point).
       if be_fails env ReadPoint [name, label] then []
       else map (\<lambda>(p, f). (p, hf_sha256 f)) (hs_files (rp_state point))) ps)) points)"

definition is_current :: "(path, history_file) umap \<Rightarrow> path \<Rightarrow> wstring \<Rightarrow> bool" where
  "is_current files p h = (case um_find files p of None \<Rightarrow> False | Some f \<Rightarrow> hf_sha256 f = h)"

definition collectGarbageObjects ::
  "backup_env \<Rightarrow> (path, history_file) umap \<Rightarrow> (wstring, tier_points) umap \<Rightarrow> u8 list tree \<Rightarrow> u8 list tree" where
  "collectGarbageObjects env files points objects =
     filter (\<lambda>(object, c). be_fails env RemoveObject object \<or>
       \<not> (is_current files (butlast object) (last object) \<or>
          (butlast object, last object) \<notin> set (collectPointReferences env points))) objects"

definition below :: "path \<Rightarrow> path \<Rightarrow> bool" where
  "below d p \<longleftrightarrow> length d < length p \<and> take (length d) p = d"

text \<open>The deepest first; a directory that is not empty stays.\<close>

definition removeEmptyCurrentDirectories :: "backup_env \<Rightarrow> path list \<Rightarrow> entry tree \<Rightarrow> entry tree" where
  "removeEmptyCurrentDirectories env keep data =
     fold (\<lambda>d data. if d \<in> set keep \<or> be_fails env RemoveDir d \<or> list_ex (\<lambda>e. below d (fst e)) data then data
         else filter (\<lambda>e. fst e \<noteq> d) data)
       (rev (sort_key length (map fst (filter (\<lambda>e. snd e = Directory) data)))) data"

section \<open>The run\<close>

datatype mirror_result = MirrorFailed | MirrorThrew | MirrorUnchanged | MirrorUpdated

definition no_state :: history_state where
  "no_state = \<lparr>hs_complete = False, hs_files = [], hs_directories = [], hs_errors = []\<rparr>"

definition start_run :: "bool \<Rightarrow> history_state \<Rightarrow> mirror_store \<Rightarrow> run_state" where
  "start_run existed previous st =
     \<lparr>rn_copies = (ms_data st, ms_objects st), rn_files = hs_files previous, rn_errors = [], rn_data_changed = False,
      rn_metadata_changed = (\<not> existed \<or> \<not> hs_complete previous \<or> hs_errors previous \<noteq> [])\<rparr>"

definition kind_paths :: "entry_kind \<Rightarrow> (path, entry_kind) umap \<Rightarrow> path list" where
  "kind_paths kind entries = map fst (filter (\<lambda>e. snd e = kind) entries)"

text \<open>After the mirror is complete: the points, the rotation, the objects, the directories.\<close>

definition finish_run ::
  "backup_env \<Rightarrow> history_tier list \<Rightarrow> wstring \<Rightarrow> int \<Rightarrow> history_state \<Rightarrow> bool \<Rightarrow> mirror_store \<Rightarrow> mirror_result \<times> mirror_store" where
  "finish_run env tiers time_string seconds current changed st =
     (case create_points env tiers time_string seconds current (ms_points st) of
        (False, _, points) \<Rightarrow> (MirrorFailed, st\<lparr>ms_points := points\<rparr>)
      | (True, created, points) \<Rightarrow>
          (let points = rotateRestorePoints env tiers points
           in (if changed \<or> created then MirrorUpdated else MirrorUnchanged,
               st\<lparr>ms_points := points, ms_objects := collectGarbageObjects env (hs_files current) points (ms_objects st),
                 ms_data := removeEmptyCurrentDirectories env (hs_directories current) (ms_data st)\<rparr>)))"

definition close_run ::
  "backup_env \<Rightarrow> history_tier list \<Rightarrow> wstring \<Rightarrow> int \<Rightarrow> bool \<Rightarrow> history_state \<Rightarrow> path list \<Rightarrow> run_state \<Rightarrow> mirror_store \<Rightarrow>
   mirror_result \<times> mirror_store" where
  "close_run env tiers time_string seconds existed previous directories r st =
     (let complete = (rn_errors r = []);
          metadata_changed = (rn_metadata_changed r \<or> hs_directories previous \<noteq> directories \<or> complete \<noteq> hs_complete previous);
          current = \<lparr>hs_complete = complete, hs_files = rn_files r, hs_directories = directories, hs_errors = rn_errors r\<rparr>;
          st = st\<lparr>ms_data := fst (rn_copies r), ms_objects := snd (rn_copies r)\<rparr>;
          write = (metadata_changed \<or> \<not> complete \<or> \<not> existed)
      in if write \<and> be_fails env WriteManifest [] then (MirrorFailed, st)
         else let st = (if write then st\<lparr>ms_manifest := Manifest current\<rparr> else st)
           in if \<not> complete
              then (MirrorFailed, st\<lparr>ms_data := removeEmptyCurrentDirectories env directories (ms_data st)\<rparr>)
              else finish_run env tiers time_string seconds current (rn_data_changed r \<or> metadata_changed) st)"

text \<open>\<open>src\<close> and \<open>src_after\<close> are the source as it is enumerated at the beginning and at the end.\<close>

definition updateMirrorHistory ::
  "backup_env \<Rightarrow> history_tier list \<Rightarrow> wstring \<Rightarrow> int \<Rightarrow> source \<Rightarrow> source \<Rightarrow> mirror_store \<Rightarrow> mirror_result \<times> mirror_store" where
  "updateMirrorHistory env tiers time_string seconds src src_after st =
     (if be_fails env CreateRoots [] \<or> ms_manifest st = UnreadableManifest then (MirrorFailed, st)
      else let (existed, previous) = (case ms_manifest st of Manifest s \<Rightarrow> (True, s) | _ \<Rightarrow> (False, no_state))
        in case collectSourceEntries env src of
             None \<Rightarrow> (MirrorFailed, st)
           | Some entries \<Rightarrow>
               (case process_entries env time_string seconds entries (start_run existed previous st) of
                  Inl r \<Rightarrow> (MirrorThrew, st\<lparr>ms_data := fst (rn_copies r), ms_objects := snd (rn_copies r)\<rparr>)
                | Inr r \<Rightarrow>
                    close_run env tiers time_string seconds existed previous (sort (kind_paths KDirectory entries))
                      (verify_source env entries src_after (deletion_pass env (kind_paths KFile entries) r)) st))"

end
