(* ===== verification/MirrorProofs.thy ===== *)
theory MirrorProofs
  imports MirrorHistory
begin

text \<open>
  What the operations of the rolling backup on its copies keep: lookups in a directory tree, the
  creation and removal of directories, and that archiving and publishing lose no version of a file.
\<close>

section \<open>Trees\<close>

lemma same_name_refl [simp]: "same_name env p p"
  by (simp add: same_name_def)

lemma same_name_sym: "same_name env p q = same_name env q p"
  by (auto simp: same_name_def)

lemma same_name_trans: "same_name env p q \<Longrightarrow> same_name env q r \<Longrightarrow> same_name env p r"
  by (simp add: same_name_def)

lemma spell_Cons:
  obtains h where "spell env known (c # cs) = h # spell env (map tl (filter (\<lambda>q. q \<noteq> [] \<and> be_fold env (hd q) = be_fold env c) known)) cs"
    and "h = c \<or> (\<exists>q \<in> set known. q \<noteq> [] \<and> be_fold env (hd q) = be_fold env c \<and> h = hd q)"
proof (cases "filter (\<lambda>q. q \<noteq> [] \<and> be_fold env (hd q) = be_fold env c) known")
  case Nil
  then show ?thesis by (intro that [of c]) simp_all
next
  case (Cons q qs)
  have "q \<in> set (filter (\<lambda>q. q \<noteq> [] \<and> be_fold env (hd q) = be_fold env c) known)" unfolding Cons by simp
  then have q: "q \<in> set known" "q \<noteq> []" "be_fold env (hd q) = be_fold env c" by simp_all
  show ?thesis by (rule that [of "hd q"]) (use q in \<open>auto simp: Cons\<close>)
qed

lemma spell_same [simp]: "same_name env (spell env known p) p"
proof (induction p arbitrary: known)
  case (Cons c cs)
  obtain h where h: "spell env known (c # cs) = h # spell env (map tl (filter (\<lambda>q. q \<noteq> [] \<and> be_fold env (hd q) = be_fold env c) known)) cs"
    "h = c \<or> (\<exists>q \<in> set known. q \<noteq> [] \<and> be_fold env (hd q) = be_fold env c \<and> h = hd q)"
    by (rule spell_Cons)
  from h(2) have "be_fold env h = be_fold env c" by auto
  with Cons [of "map tl (filter (\<lambda>q. q \<noteq> [] \<and> be_fold env (hd q) = be_fold env c) known)"]
  show ?case unfolding h(1) same_name_def by simp
qed (simp add: same_name_def)

lemma dk_find_Nil [simp]: "dk_find env [] p = None"
  by (simp add: dk_find_def)

lemma dk_find_Cons: "dk_find env (e # m) p = (if same_name env (fst e) p then Some (snd e) else dk_find env m p)"
  by (simp add: dk_find_def)

lemma dk_find_append: "dk_find env (m @ m') p = (case dk_find env m p of None \<Rightarrow> dk_find env m' p | Some v \<Rightarrow> Some v)"
  by (induction m) (auto simp: dk_find_Cons)

lemma dk_find_None: "dk_find env m p = None \<longleftrightarrow> \<not> list_ex (\<lambda>e. same_name env (fst e) p) m"
  by (induction m) (auto simp: dk_find_Cons)

lemma dk_find_overwrite:
  "dk_find env (map (\<lambda>e. if same_name env (fst e) p then (fst e, v) else e) m) q =
     (if same_name env p q \<and> dk_find env m q \<noteq> None then Some v else dk_find env m q)"
  by (induction m) (auto simp: dk_find_Cons dest: same_name_trans same_name_sym [THEN iffD1])

lemma dk_find_same: "same_name env p q \<Longrightarrow> dk_find env m p = dk_find env m q"
  by (induction m) (auto simp: dk_find_Cons same_name_def)

lemma dk_find_put: "dk_find env (dk_put env p v m) q = (if same_name env p q then Some v else dk_find env m q)"
proof (cases "dk_find env m p = None")
  case True
  then have new: "dk_put env p v m = m @ [(spell env (map fst m) p, v)]" by (simp add: dk_put_def dk_find_None)
  have s: "same_name env (spell env (map fst m) p) q = same_name env p q"
    using spell_same [of env "map fst m" p] by (auto simp: same_name_def)
  show ?thesis
  proof (cases "same_name env p q")
    case True
    with dk_find_same [OF this, of m] \<open>dk_find env m p = None\<close> have "dk_find env m q = None" by simp
    with True show ?thesis by (simp add: new dk_find_append dk_find_Cons s)
  next
    case False
    then show ?thesis by (simp add: new dk_find_append dk_find_Cons s split: option.splits)
  qed
next
  case False
  then have "dk_put env p v m = map (\<lambda>e. if same_name env (fst e) p then (fst e, v) else e) m"
    by (simp add: dk_put_def dk_find_None)
  with False dk_find_same [of env p q m] show ?thesis by (auto simp: dk_find_overwrite)
qed

lemma dk_find_erase: "dk_find env (dk_erase env p m) q = (if same_name env p q then None else dk_find env m q)"
  by (induction m) (auto simp: dk_erase_def dk_find_Cons dest: same_name_trans same_name_sym [THEN iffD1])

lemma dk_find_mem: "dk_find env m p = Some v \<Longrightarrow> \<exists>q. (q, v) \<in> set m \<and> same_name env q p"
  by (induction m) (auto simp: dk_find_Cons split: if_splits)

text \<open>The components that occur differ in more than their case.\<close>

definition told_apart :: "backup_env \<Rightarrow> wstring set \<Rightarrow> bool" where
  "told_apart env C \<longleftrightarrow> inj_on (be_fold env) C"

lemma same_name_eq: "told_apart env C \<Longrightarrow> set p \<subseteq> C \<Longrightarrow> set q \<subseteq> C \<Longrightarrow> same_name env p q \<longleftrightarrow> p = q"
  unfolding told_apart_def same_name_def by (meson inj_on_map_eq_map inj_on_subset le_sup_iff)

lemma spell_known: "told_apart env C \<Longrightarrow> \<forall>q \<in> set known. set q \<subseteq> C \<Longrightarrow> set p \<subseteq> C \<Longrightarrow> spell env known p = p"
proof (induction p arbitrary: known)
  case (Cons c cs)
  let ?tails = "map tl (filter (\<lambda>q. q \<noteq> [] \<and> be_fold env (hd q) = be_fold env c) known)"
  obtain h where h: "spell env known (c # cs) = h # spell env ?tails cs"
    "h = c \<or> (\<exists>q \<in> set known. q \<noteq> [] \<and> be_fold env (hd q) = be_fold env c \<and> h = hd q)"
    by (rule spell_Cons)
  have "\<forall>q \<in> set ?tails. set q \<subseteq> C" using Cons.prems(2) by (auto dest: list.set_sel(2))
  then have "spell env ?tails cs = cs" using Cons.IH Cons.prems by simp
  moreover have "h = c" using h(2)
  proof
    assume "\<exists>q \<in> set known. q \<noteq> [] \<and> be_fold env (hd q) = be_fold env c \<and> h = hd q"
    then obtain q where q: "q \<in> set known" "q \<noteq> []" "be_fold env (hd q) = be_fold env c" "h = hd q" by blast
    then have "hd q \<in> set q" "set q \<subseteq> C" using Cons.prems(2) by simp_all
    then have "hd q \<in> C" "c \<in> C" using Cons.prems(3) by auto
    with q(3,4) Cons.prems(1) show "h = c" by (auto simp: told_apart_def dest: inj_onD)
  qed
  ultimately show ?case using h(1) by (simp only:)
qed simp

definition names_in :: "wstring set \<Rightarrow> 'a tree \<Rightarrow> bool" where
  "names_in C m \<longleftrightarrow> (\<forall>e \<in> set m. set (fst e) \<subseteq> C)"

lemma names_in_put: "told_apart env C \<Longrightarrow> names_in C m \<Longrightarrow> set p \<subseteq> C \<Longrightarrow> names_in C (dk_put env p v m)"
  using spell_known [of env C "map fst m" p] by (fastforce simp: names_in_def dk_put_def)

lemma names_in_erase: "names_in C m \<Longrightarrow> names_in C (dk_erase env p m)"
  by (auto simp: names_in_def dk_erase_def)

definition unique_names :: "backup_env \<Rightarrow> 'a tree \<Rightarrow> bool" where
  "unique_names env m \<longleftrightarrow> distinct (map (\<lambda>e. map (be_fold env) (fst e)) m)"

lemma unique_names_Nil [simp]: "unique_names env []"
  by (simp add: unique_names_def)

lemma unique_names_put: "unique_names env m \<Longrightarrow> unique_names env (dk_put env p v m)"
proof (cases "dk_find env m p = None")
  case True
  assume u: "unique_names env m"
  have "map (be_fold env) (spell env (map fst m) p) = map (be_fold env) p" using spell_same by (simp add: same_name_def)
  moreover from True have "\<forall>e \<in> set m. map (be_fold env) (fst e) \<noteq> map (be_fold env) p"
    by (auto simp: dk_find_None list_ex_iff same_name_def)
  ultimately show ?thesis using u True by (auto simp: unique_names_def dk_put_def dk_find_None)
next
  case False
  assume u: "unique_names env m"
  have "map (\<lambda>e. map (be_fold env) (fst e)) (map (\<lambda>e. if same_name env (fst e) p then (fst e, v) else e) m) =
    map (\<lambda>e. map (be_fold env) (fst e)) m" by simp
  with u False show ?thesis by (simp add: unique_names_def dk_put_def dk_find_None del: map_map)
qed

lemma unique_names_filter: "unique_names env m \<Longrightarrow> unique_names env (filter P m)"
  by (simp add: unique_names_def distinct_map_filter)

lemma unique_names_erase: "unique_names env m \<Longrightarrow> unique_names env (dk_erase env p m)"
  by (simp add: dk_erase_def unique_names_filter)

lemma dk_find_unique:
  assumes "unique_names env m"
  shows "dk_find env m p = Some v \<longleftrightarrow> (\<exists>q. (q, v) \<in> set m \<and> same_name env q p)"
  using assms
proof (induction m)
  case (Cons e m)
  have "same_name env (fst e) p \<Longrightarrow> \<forall>q w. (q, w) \<in> set m \<longrightarrow> \<not> same_name env q p"
    using Cons.prems by (force simp: unique_names_def same_name_def)
  with Cons show ?case by (cases e) (auto simp: dk_find_Cons unique_names_def)
qed simp

section \<open>Directories\<close>

definition make_dir :: "backup_env \<Rightarrow> path \<Rightarrow> entry tree \<Rightarrow> entry tree" where
  "make_dir env d m = (if dk_find env m d = None then dk_put env d Directory m else m)"

lemma make_dir_keeps:
  "dk_find env (make_dir env d m) p = (if dk_find env m p = None \<and> same_name env d p then Some Directory else dk_find env m p)"
  using dk_find_same [of env d p m] by (auto simp: make_dir_def dk_find_put)

lemma make_dirs_keep:
  "dk_find env m p \<noteq> None \<Longrightarrow> dk_find env (fold (make_dir env) ds m) p = dk_find env m p"
  "dk_find env m p = None \<Longrightarrow> dk_find env (fold (make_dir env) ds m) p \<in> {None, Some Directory}"
proof (induction ds arbitrary: m)
  case (Cons d ds)
  {
    case 1
    with Cons.IH(1) [of "make_dir env d m"] show ?case by (simp add: make_dir_keeps)
  next
    case 2
    with Cons.IH [of "make_dir env d m"] show ?case by (cases "same_name env d p") (auto simp: make_dir_keeps)
  }
qed simp_all

lemma create_dirs_fold: "create_dirs env d m = Some m' \<Longrightarrow> \<exists>ds. m' = fold (make_dir env) ds m \<and> (\<forall>e \<in> set ds. set e \<subseteq> set d)"
  by (auto simp: create_dirs_def Let_def make_dir_def [abs_def] split: if_splits intro!: exI [of _ "map (\<lambda>n. take n d) [1..<Suc (length d)]"]
      dest: in_set_takeD)

lemma create_dirs_keeps:
  assumes "create_dirs env d m = Some m'"
  shows "dk_find env m' p = Some (RegularFile c) \<longleftrightarrow> dk_find env m p = Some (RegularFile c)"
    and "unique_names env m \<Longrightarrow> unique_names env m'"
proof -
  from create_dirs_fold [OF assms] obtain ds where ds: "m' = fold (make_dir env) ds m" by blast
  show "dk_find env m' p = Some (RegularFile c) \<longleftrightarrow> dk_find env m p = Some (RegularFile c)"
    using make_dirs_keep [where env = env and ds = ds and m = m and p = p] by (cases "dk_find env m p") (auto simp: ds)
  have "unique_names env m \<Longrightarrow> unique_names env (fold (make_dir env) ds m)" for m ds
    by (induction ds arbitrary: m) (auto simp: make_dir_def unique_names_put)
  then show "unique_names env m \<Longrightarrow> unique_names env m'" by (simp add: ds)
qed

text \<open>Only entries of directories disappear.\<close>

lemma remove_empty_steps:
  assumes "unique_names env m" and "\<forall>d \<in> set ds. (d, Directory) \<in> set m \<or> d \<notin> fst ` set m"
  shows "let m' = fold (\<lambda>d data. if d \<in> set keep \<or> be_fails env RemoveDir d \<or> list_ex (\<lambda>e. below d (fst e)) data then data
         else filter (\<lambda>e. fst e \<noteq> d) data) ds m
    in unique_names env m' \<and> set m' \<subseteq> set m \<and> (\<forall>q c. (q, RegularFile c) \<in> set m \<longrightarrow> (q, RegularFile c) \<in> set m')"
  using assms
proof (induction ds arbitrary: m)
  case (Cons d ds)
  let ?f = "\<lambda>d data. if d \<in> set keep \<or> be_fails env RemoveDir d \<or> list_ex (\<lambda>e. below d (fst e)) data then data
         else filter (\<lambda>e. fst e \<noteq> d) data"
  let ?m = "if d \<in> set keep \<or> be_fails env RemoveDir d \<or> list_ex (\<lambda>e. below d (fst e)) m then m else filter (\<lambda>e. fst e \<noteq> d) m"
  have one: "e = e'" if "e \<in> set m" "e' \<in> set m" "fst e = fst e'" for e e'
    using Cons.prems(1) that by (metis (no_types, lifting) dk_find_unique option.inject prod.collapse same_name_refl)
  have u: "unique_names env ?m" using Cons.prems(1) by (simp add: unique_names_filter)
  have no: False if "(d, RegularFile c) \<in> set m" for c
    using Cons.prems(2) one [OF that, of "(d, Directory)"] that by (auto simp: image_iff)
  have files: "(q, RegularFile c) \<in> set ?m" if q: "(q, RegularFile c) \<in> set m" for q c
  proof (cases "q = d")
    case True
    with q no show ?thesis by blast
  next
    case False
    with q show ?thesis by simp
  qed
  have "(d', Directory) \<in> set ?m \<or> d' \<notin> fst ` set ?m" if "d' \<in> set ds" for d'
    using Cons.prems(2) that by (cases "d' = d") auto
  then have "\<forall>d' \<in> set ds. (d', Directory) \<in> set ?m \<or> d' \<notin> fst ` set ?m" by blast
  from Cons.IH [OF u this] have r: "unique_names env (fold ?f ds ?m)" "set (fold ?f ds ?m) \<subseteq> set ?m"
    "\<forall>q c. (q, RegularFile c) \<in> set ?m \<longrightarrow> (q, RegularFile c) \<in> set (fold ?f ds ?m)"
    unfolding Let_def by blast+
  have "set ?m \<subseteq> set m" by auto
  with r files show ?case unfolding Let_def fold_Cons o_apply by blast
qed simp

lemma remove_empty_keeps:
  assumes "unique_names env m"
  shows "unique_names env (removeEmptyCurrentDirectories env keep m)"
    and "dk_find env (removeEmptyCurrentDirectories env keep m) p = Some (RegularFile c) \<longleftrightarrow> dk_find env m p = Some (RegularFile c)"
proof -
  have "\<forall>d \<in> set (rev (sort_key length (map fst (filter (\<lambda>e. snd e = Directory) m)))). (d, Directory) \<in> set m \<or> d \<notin> fst ` set m"
    by auto
  from remove_empty_steps [OF assms this, of keep] show "unique_names env (removeEmptyCurrentDirectories env keep m)"
    and "dk_find env (removeEmptyCurrentDirectories env keep m) p = Some (RegularFile c) \<longleftrightarrow> dk_find env m p = Some (RegularFile c)"
    using assms by (auto simp: removeEmptyCurrentDirectories_def Let_def dk_find_unique)
qed

section \<open>Archiving and publishing\<close>

text \<open>A version of a file is kept: as an object, or as the current copy.\<close>

definition kept :: "backup_env \<Rightarrow> copies \<Rightarrow> path \<Rightarrow> wstring \<Rightarrow> bool" where
  "kept env = (\<lambda>(data, objects) p h. dk_find env objects (objectPath p h) \<noteq> None \<or>
     (\<exists>c. dk_find env data p = Some (RegularFile c) \<and> be_sha env c = h))"

text \<open>The names that occur can be told apart, and so can contents by their hash.\<close>

definition sound_volume :: "backup_env \<Rightarrow> wstring set \<Rightarrow> bool" where
  "sound_volume env C \<longleftrightarrow> told_apart env C \<and> inj (be_sha env) \<and> range (be_sha env) \<subseteq> C"

definition copies_ok :: "backup_env \<Rightarrow> wstring set \<Rightarrow> copies \<Rightarrow> bool" where
  "copies_ok env C = (\<lambda>(data, objects). unique_names env data \<and> unique_names env objects \<and> names_in C objects \<and>
     (\<forall>e \<in> set objects. fst e \<noteq> [] \<and> last (fst e) = be_sha env (snd e)))"

lemma objectPath_simps [simp]:
  "objectPath p h \<noteq> []" "last (objectPath p h) = h" "butlast (objectPath p h) = p" "set (objectPath p h) = insert h (set p)"
  "same_name env (objectPath p h) (objectPath q h) = same_name env p q"
  by (auto simp: objectPath_def same_name_def)

lemma object_content:
  assumes "sound_volume env C" and "copies_ok env C (data, objects)" and "set p \<subseteq> C" and "dk_find env objects (objectPath p (be_sha env c)) = Some c'"
  shows "c' = c"
proof -
  from dk_find_mem [OF assms(4)] obtain q where q: "(q, c') \<in> set objects" "same_name env q (objectPath p (be_sha env c))" by blast
  have "set q \<subseteq> C" using assms(2) q(1) by (fastforce simp: copies_ok_def names_in_def)
  moreover have "set (objectPath p (be_sha env c)) \<subseteq> C" using assms(1,3) by (auto simp: sound_volume_def)
  ultimately have "q = objectPath p (be_sha env c)" using q(2) same_name_eq assms(1) by (auto simp: sound_volume_def)
  with q(1) assms(2) have "be_sha env c' = be_sha env c" by (auto simp: copies_ok_def)
  with assms(1) show ?thesis by (auto simp: sound_volume_def dest: injD)
qed

lemma copies_ok_put:
  assumes "sound_volume env C" and "copies_ok env C (data, objects)" and "set p \<subseteq> C" and "unique_names env data'"
    and "dk_find env objects (objectPath p (be_sha env c)) = None"
  shows "copies_ok env C (data', dk_put env (objectPath p (be_sha env c)) c objects)"
proof -
  let ?o = "objectPath p (be_sha env c)"
  have o: "set ?o \<subseteq> C" using assms(1,3) by (auto simp: sound_volume_def)
  have "dk_put env ?o c objects = objects @ [(?o, c)]"
    using assms(1,2,5) o spell_known [of env C "map fst objects" ?o]
    by (auto simp: dk_put_def dk_find_None copies_ok_def names_in_def sound_volume_def)
  with assms o names_in_put [of env C objects ?o c] unique_names_put [of env objects ?o c] show ?thesis
    by (auto simp: copies_ok_def sound_volume_def)
qed

text \<open>What archiving does.\<close>

lemma archive_cases:
  assumes "archiveCurrentFile env p (data, objects) = (ok, archived, data', objects')"
  obtains (same) "data' = data" "objects' = objects" "ok \<Longrightarrow> dk_find env data p = None \<and> archived = None"
  | (duplicate) c where "ok" "dk_find env data p = Some (RegularFile c)" "archived = Some (objectPath p (be_sha env c))"
      "data' = dk_erase env p data" "objects' = objects" "dk_find env objects (objectPath p (be_sha env c)) \<noteq> None"
  | (moved) c where "ok" "dk_find env data p = Some (RegularFile c)" "archived = Some (objectPath p (be_sha env c))"
      "data' = dk_erase env p data" "objects' = dk_put env (objectPath p (be_sha env c)) c objects"
      "dk_find env objects (objectPath p (be_sha env c)) = None"
proof (cases "dk_find env data p")
  case None
  with assms same show ?thesis by (auto simp: archiveCurrentFile_def split: if_splits)
next
  case (Some e)
  show ?thesis
  proof (cases e)
    case (RegularFile c)
    with assms Some show ?thesis
      by (auto simp: archiveCurrentFile_def Let_def split: if_splits intro: same duplicate moved)
  next
    case Directory
    with assms Some same show ?thesis by (auto simp: archiveCurrentFile_def split: if_splits)
  next
    case (ReparsePoint b)
    with assms Some same show ?thesis by (auto simp: archiveCurrentFile_def split: if_splits)
  qed
qed

lemma archive_effect:
  assumes v: "sound_volume env C" and k: "copies_ok env C (data, objects)" and p: "set p \<subseteq> C"
    and a: "archiveCurrentFile env p (data, objects) = (ok, archived, data', objects')"
  shows "copies_ok env C (data', objects')"
    and "kept env (data, objects) q h \<Longrightarrow> kept env (data', objects') q h"
    and "\<not> same_name env p q \<Longrightarrow> dk_find env data' q = dk_find env data q"
    and "ok \<Longrightarrow> dk_find env data' p = None"
    and "ok \<Longrightarrow> archived = Some object \<Longrightarrow> \<exists>c. dk_find env data p = Some (RegularFile c) \<and> dk_find env objects' object = Some c"
    and "dk_find env data' p = Some e \<Longrightarrow> dk_find env data p = Some e"
proof -
  have u: "unique_names env (dk_erase env p data)" using k by (simp add: copies_ok_def unique_names_erase)
  have content: "dk_find env objects (objectPath p (be_sha env c)) = Some y \<Longrightarrow> y = c" for c y
    using object_content [OF v k p] by auto
  from a show "copies_ok env C (data', objects')"
  proof (cases rule: archive_cases)
    case (duplicate c)
    with k u show ?thesis by (simp add: copies_ok_def)
  next
    case (moved c)
    then show ?thesis using copies_ok_put [OF v k p u] by simp
  qed (use k in simp)
  from a show "kept env (data, objects) q h \<Longrightarrow> kept env (data', objects') q h"
  proof (cases rule: archive_cases)
    case (duplicate c)
    assume old: "kept env (data, objects) q h"
    show ?thesis
    proof (cases "same_name env p q \<and> be_sha env c = h")
      case True
      with duplicate dk_find_same [of env "objectPath p h" "objectPath q h" objects] show ?thesis by (simp add: kept_def)
    next
      case False
      with old duplicate dk_find_same [of env p q data] show ?thesis by (auto simp: kept_def dk_find_erase)
    qed
  next
    case (moved c)
    assume old: "kept env (data, objects) q h"
    show ?thesis
    proof (cases "same_name env p q \<and> be_sha env c = h")
      case True
      with moved show ?thesis by (auto simp: kept_def dk_find_put)
    next
      case False
      with old moved dk_find_same [of env p q data] show ?thesis by (auto simp: kept_def dk_find_erase dk_find_put)
    qed
  qed simp
  from a show "\<not> same_name env p q \<Longrightarrow> dk_find env data' q = dk_find env data q"
    by (cases rule: archive_cases) (simp_all add: dk_find_erase)
  from a show "ok \<Longrightarrow> dk_find env data' p = None"
    by (cases rule: archive_cases) (simp_all add: dk_find_erase)
  from a show "ok \<Longrightarrow> archived = Some object \<Longrightarrow> \<exists>c. dk_find env data p = Some (RegularFile c) \<and> dk_find env objects' object = Some c"
    by (cases rule: archive_cases) (auto simp: dk_find_put dest: content)
  from a show "dk_find env data' p = Some e \<Longrightarrow> dk_find env data p = Some e"
    by (cases rule: archive_cases) (simp_all add: dk_find_erase)
qed

text \<open>What publishing does; when it fails the old copy may be gone, but is kept as an object.\<close>

lemma publish_effect:
  assumes v: "sound_volume env C" and k: "copies_ok env C (data, objects)" and p: "set p \<subseteq> C"
    and a: "publishCurrentFile env p staged (data, objects) = (ok, data', objects')"
  shows "copies_ok env C (data', objects')"
    and "kept env (data, objects) q h \<Longrightarrow> kept env (data', objects') q h"
    and "\<not> same_name env p q \<Longrightarrow> dk_find env data' q = Some (RegularFile c) \<longleftrightarrow> dk_find env data q = Some (RegularFile c)"
    and "ok \<Longrightarrow> dk_find env data' p = Some (RegularFile staged)"
    and "\<not> ok \<Longrightarrow> dk_find env data' p = Some (RegularFile c) \<Longrightarrow> dk_find env data p = Some (RegularFile c)"
proof -
  consider (blocked) "ok = False" "data' = data" "objects' = objects"
    | (made) data1 where "create_dirs env (butlast p) data = Some data1" "\<not> be_fails env CreateDataDir p"
    using a by (cases "if be_fails env CreateDataDir p then None else create_dirs env (butlast p) data")
      (auto simp: publishCurrentFile_def split: if_splits)
  then have "copies_ok env C (data', objects') \<and> (kept env (data, objects) q h \<longrightarrow> kept env (data', objects') q h) \<and>
    (\<not> same_name env p q \<longrightarrow> (dk_find env data' q = Some (RegularFile c) \<longleftrightarrow> dk_find env data q = Some (RegularFile c))) \<and>
    (ok \<longrightarrow> dk_find env data' p = Some (RegularFile staged)) \<and>
    (\<not> ok \<longrightarrow> dk_find env data' p = Some (RegularFile c) \<longrightarrow> dk_find env data p = Some (RegularFile c))"
  proof cases
    case blocked
    with k show ?thesis by simp
  next
    case (made data1)
    note d1 = create_dirs_keeps [OF made(1)]
    have k1: "copies_ok env C (data1, objects)" using k d1(2) by (simp add: copies_ok_def)
    have kept1: "kept env (data, objects) q h \<Longrightarrow> kept env (data1, objects) q h" by (simp add: kept_def d1(1))
    obtain ok2 archived data2 objects2 where ar: "archiveCurrentFile env p (data1, objects) = (ok2, archived, data2, objects2)"
      by (metis prod.exhaust)
    note e = archive_effect [OF v k1 p ar]
    have base: "copies_ok env C (data2, objects2)" "kept env (data, objects) q h \<longrightarrow> kept env (data2, objects2) q h" using e(1,2) kept1 by blast+
    have other: "\<not> same_name env p q \<Longrightarrow> dk_find env data2 q = Some (RegularFile c) \<longleftrightarrow> dk_find env data q = Some (RegularFile c)"
      using e(3) d1(1) by simp
    show ?thesis
    proof (cases "ok2 \<and> \<not> be_fails env PublishMove p")
      case True
      with a made ar have r: "ok" "data' = dk_put env p (RegularFile staged) data2" "objects' = objects2"
        by (auto simp: publishCurrentFile_def split: if_splits)
      have u: "copies_ok env C (data', objects')" using base(1) r by (simp add: copies_ok_def unique_names_put)
      have "kept env (data', objects') q h" if "kept env (data, objects) q h"
      proof -
        have k2: "kept env (data2, objects2) q h" using base(2) that by blast
        have "same_name env p q \<Longrightarrow> dk_find env data2 q = None" using e(4) True dk_find_same by metis
        with k2 r show ?thesis by (auto simp: kept_def dk_find_put)
      qed
      with u r other show ?thesis by (simp add: dk_find_put)
    next
      case False
      show ?thesis
      proof (cases "ok2 \<and> \<not> be_fails env CopyBack p \<and> (\<exists>c'. dk_find env data2 p = None \<and> Option.bind archived (dk_find env objects2) = Some c')")
        case True
        then obtain object c' where o: "archived = Some object" "dk_find env objects2 object = Some c'" "ok2" "dk_find env data2 p = None"
          by (auto simp: bind_eq_Some_conv)
        from e(5) [OF o(3,1)] o(2) have undone: "dk_find env data1 p = Some (RegularFile c')" by simp
        have r: "\<not> ok" "data' = dk_put env p (RegularFile c') data2" "objects' = objects2"
          using a made ar True False o by (auto simp: publishCurrentFile_def split: if_splits option.splits)
        have u: "copies_ok env C (data', objects')" using base(1) r by (simp add: copies_ok_def unique_names_put)
        have "kept env (data', objects') q h" if "kept env (data, objects) q h"
        proof -
          have k2: "kept env (data2, objects2) q h" using base(2) that by blast
          have "same_name env p q \<Longrightarrow> dk_find env data2 q = None" using o(4) dk_find_same by metis
          with k2 r show ?thesis by (auto simp: kept_def dk_find_put)
        qed
        with u r other undone d1(1) show ?thesis by (auto simp: dk_find_put)
      next
        case rest: False
        have r: "\<not> ok" "data' = data2" "objects' = objects2"
          using a made ar rest False by (auto simp: publishCurrentFile_def split: if_splits option.splits prod.splits bool.splits)
        have "dk_find env data2 p = Some (RegularFile c) \<Longrightarrow> dk_find env data p = Some (RegularFile c)" using e(6) d1(1) by blast
        with r base other show ?thesis by auto
      qed
    qed
  qed
  then show "copies_ok env C (data', objects')"
    and "kept env (data, objects) q h \<Longrightarrow> kept env (data', objects') q h"
    and "\<not> same_name env p q \<Longrightarrow> dk_find env data' q = Some (RegularFile c) \<longleftrightarrow> dk_find env data q = Some (RegularFile c)"
    and "ok \<Longrightarrow> dk_find env data' p = Some (RegularFile staged)"
    and "\<not> ok \<Longrightarrow> dk_find env data' p = Some (RegularFile c) \<Longrightarrow> dk_find env data p = Some (RegularFile c)"
    by blast+
qed

end
