(* ===== verification/MirrorRun.thy ===== *)
theory MirrorRun
  imports MirrorProofs
begin

text \<open>
  A whole run of the rolling backup. What a run relies on when it reads the source is an
  interface (\<open>faithful_capture\<close>): a reliable fingerprint identifies the content, and a capture
  yields what the source held. The mode that copies plain files provides it.
\<close>

section \<open>The interface to the source\<close>

locale faithful_capture =
  fixes env :: backup_env
    and has :: "path \<Rightarrow> u8 list \<Rightarrow> bool"
    and valid :: "wstring \<Rightarrow> u8 list \<Rightarrow> bool"
  assumes inspect_law: "inspect_source env p = Some (fp, True) \<Longrightarrow> valid fp c \<Longrightarrow> has p c"
    and capture_law: "capture_source env p = Some cap \<Longrightarrow> has p (cap_content cap) \<and>
      (cap_reliable cap \<longrightarrow> valid (cap_fingerprint cap) (cap_content cap))"

text \<open>The manifest agrees with the current copies.\<close>

definition agrees :: "backup_env \<Rightarrow> (wstring \<Rightarrow> u8 list \<Rightarrow> bool) \<Rightarrow> (path, history_file) umap \<Rightarrow> entry tree \<Rightarrow> bool" where
  "agrees env valid files data \<longleftrightarrow> (\<forall>p f c. um_find files p = Some f \<longrightarrow> dk_find env data p = Some (RegularFile c) \<longrightarrow>
     hf_sha256 f = be_sha env c \<and> hf_size f = length c \<and> (hf_reliable f \<longrightarrow> valid (hf_fingerprint f) c))"

definition files_in :: "wstring set \<Rightarrow> (path, history_file) umap \<Rightarrow> bool" where
  "files_in C files \<longleftrightarrow> um_ok files \<and> (\<forall>p f. um_find files p = Some f \<longrightarrow> set p \<subseteq> C \<and> hf_sha256 f \<in> C)"

definition run_ok :: "backup_env \<Rightarrow> wstring set \<Rightarrow> (wstring \<Rightarrow> u8 list \<Rightarrow> bool) \<Rightarrow> run_state \<Rightarrow> bool" where
  "run_ok env C valid r \<longleftrightarrow> copies_ok env C (rn_copies r) \<and> files_in C (rn_files r) \<and> agrees env valid (rn_files r) (fst (rn_copies r))"

definition mirrored :: "backup_env \<Rightarrow> (path \<Rightarrow> u8 list \<Rightarrow> bool) \<Rightarrow> run_state \<Rightarrow> path \<Rightarrow> bool" where
  "mirrored env has r p \<longleftrightarrow> (\<exists>f c. um_find (rn_files r) p = Some f \<and> dk_find env (fst (rn_copies r)) p = Some (RegularFile c) \<and> has p c)"

text \<open>What every step of a run keeps.\<close>

definition advances :: "backup_env \<Rightarrow> wstring set \<Rightarrow> (wstring \<Rightarrow> u8 list \<Rightarrow> bool) \<Rightarrow> run_state \<Rightarrow> run_state \<Rightarrow> bool" where
  "advances env C valid r r' \<longleftrightarrow> run_ok env C valid r' \<and> (\<forall>q h. kept env (rn_copies r) q h \<longrightarrow> kept env (rn_copies r') q h) \<and>
     (rn_errors r' = [] \<longrightarrow> rn_errors r = []) \<and>
     (\<not> rn_metadata_changed r' \<longrightarrow> \<not> rn_metadata_changed r \<and> rn_files r' = rn_files r)"

lemma advances_refl: "run_ok env C valid r \<Longrightarrow> advances env C valid r r"
  by (simp add: advances_def)

lemma advances_trans: "advances env C valid r r' \<Longrightarrow> advances env C valid r' r'' \<Longrightarrow> advances env C valid r r''"
  by (auto simp: advances_def)

lemma advances_error: "run_ok env C valid r \<Longrightarrow> advances env C valid r (add_error p message r)"
  by (simp add: advances_def run_ok_def add_error_def)

lemma add_error_some: "rn_errors (add_error p message r) \<noteq> []"
  by (simp add: add_error_def)

lemma files_in_put: "files_in C files \<Longrightarrow> set p \<subseteq> C \<Longrightarrow> hf_sha256 f \<in> C \<Longrightarrow> files_in C (um_put p f files)"
  by (auto simp: files_in_def um_find_put)

lemma files_in_erase: "files_in C files \<Longrightarrow> files_in C (um_erase p files)"
  by (auto simp: files_in_def um_find_erase)

section \<open>One file\<close>

lemma agrees_other:
  assumes v: "sound_volume env C" and f: "files_in C files" and p: "set p \<subseteq> C" and a: "agrees env valid files data"
    and other: "\<And>q c. \<not> same_name env p q \<Longrightarrow> dk_find env data' q = Some (RegularFile c) \<longleftrightarrow> dk_find env data q = Some (RegularFile c)"
    and q: "q \<noteq> p" "um_find files q = Some g" "dk_find env data' q = Some (RegularFile c)"
  shows "hf_sha256 g = be_sha env c \<and> hf_size g = length c \<and> (hf_reliable g \<longrightarrow> valid (hf_fingerprint g) c)"
proof -
  have "set q \<subseteq> C" using f q(2) by (auto simp: files_in_def)
  then have "\<not> same_name env p q" using same_name_eq [of env C p q] v p q(1) by (auto simp: sound_volume_def)
  with other q(3) have "dk_find env data q = Some (RegularFile c)" by simp
  with a q(2) show ?thesis by (auto simp: agrees_def)
qed

lemma mirrored_other:
  assumes v: "sound_volume env C" and p: "set p \<subseteq> C" and q: "set q \<subseteq> C" "q \<noteq> p" and m: "mirrored env has r q"
    and other: "\<And>q c. \<not> same_name env p q \<Longrightarrow> dk_find env (fst (rn_copies r')) q = Some (RegularFile c) \<longleftrightarrow>
      dk_find env (fst (rn_copies r)) q = Some (RegularFile c)"
    and files: "um_find (rn_files r') q = um_find (rn_files r) q"
  shows "mirrored env has r' q"
proof -
  have "\<not> same_name env p q" using same_name_eq [of env C p q] v p q by (auto simp: sound_volume_def)
  with m other files show ?thesis by (auto simp: mirrored_def)
qed

context faithful_capture
begin

lemma publish_file:
  assumes v: "sound_volume env C" and r: "run_ok env C valid r" and p: "set p \<subseteq> C"
    and cap: "capture_source env p = Some cap"
    and pub: "publishCurrentFile env p (cap_content cap) (rn_copies r) = (ok, copies)"
    and r': "r' = (if ok then r\<lparr>rn_copies := copies, rn_files := um_put p (captured_file env t s cap) (rn_files r),
        rn_data_changed := True, rn_metadata_changed := True\<rparr> else add_error p message (r\<lparr>rn_copies := copies\<rparr>))"
  shows "advances env C valid r r' \<and> (rn_errors r' = [] \<longrightarrow> mirrored env has r' p) \<and>
    (\<forall>q. set q \<subseteq> C \<longrightarrow> q \<noteq> p \<longrightarrow> mirrored env has r q \<longrightarrow> mirrored env has r' q)"
proof -
  obtain data objects where co: "rn_copies r = (data, objects)" by (rule prod.exhaust)
  obtain data' objects' where cs: "copies = (data', objects')" by (rule prod.exhaust)
  have k: "copies_ok env C (data, objects)" and f: "files_in C (rn_files r)" and a: "agrees env valid (rn_files r) data"
    using r by (simp_all add: run_ok_def co)
  note e = publish_effect [OF v k p pub [unfolded co cs]]
  have law: "has p (cap_content cap)" "cap_reliable cap \<longrightarrow> valid (cap_fingerprint cap) (cap_content cap)"
    using capture_law [OF cap] by simp_all
  have "hf_sha256 (captured_file env t s cap) \<in> C" using v by (auto simp: captured_file_def sound_volume_def)
  then have files: "files_in C (rn_files r')" using f p by (simp add: r' files_in_put add_error_def)
  have agree: "agrees env valid (rn_files r') data'"
    unfolding agrees_def
  proof (intro allI impI)
    fix q g c
    assume g: "um_find (rn_files r') q = Some g" and c: "dk_find env data' q = Some (RegularFile c)"
    show "hf_sha256 g = be_sha env c \<and> hf_size g = length c \<and> (hf_reliable g \<longrightarrow> valid (hf_fingerprint g) c)"
    proof (cases "q = p")
      case False
      with g have g': "um_find (rn_files r) q = Some g" by (simp add: r' um_find_put add_error_def split: if_splits)
      show ?thesis by (rule agrees_other [OF v f p a _ False g' c]) (rule e(3))
    next
      case True
      show ?thesis
      proof (cases ok)
        case ok: True
        with True g c e(4) have "g = captured_file env t s cap" "c = cap_content cap" by (simp_all add: r' um_find_put)
        with law(2) show ?thesis by (simp add: captured_file_def)
      next
        case False
        with True g e(5) c a show ?thesis by (simp add: r' add_error_def agrees_def)
      qed
    qed
  qed
  have copies': "rn_copies r' = (data', objects')" by (simp add: r' cs add_error_def)
  have adv: "advances env C valid r r'"
    using e(1,2) files agree by (auto simp: advances_def run_ok_def copies' co) (auto simp: r' add_error_def split: if_splits)
  have done_p: "rn_errors r' = [] \<longrightarrow> mirrored env has r' p"
    using e(4) law(1) by (auto simp: mirrored_def cs um_find_put r' add_error_def)
  have "mirrored env has r' q" if "set q \<subseteq> C" "q \<noteq> p" "mirrored env has r q" for q
    by (rule mirrored_other [OF v p that(1,2,3)]) (use e(3) that(2) in \<open>simp_all add: cs co r' um_find_put add_error_def\<close>)
  with adv done_p show ?thesis by blast
qed

lemma process_file_effect:
  assumes v: "sound_volume env C" and r: "run_ok env C valid r" and p: "set p \<subseteq> C" and r': "r' = process_file env t s p r"
  shows "advances env C valid r r' \<and> (rn_errors r' = [] \<longrightarrow> mirrored env has r' p) \<and>
    (\<forall>q. set q \<subseteq> C \<longrightarrow> q \<noteq> p \<longrightarrow> mirrored env has r q \<longrightarrow> mirrored env has r' q)"
proof -
  obtain data objects where co: "rn_copies r = (data, objects)" by (rule prod.exhaust)
  have a: "agrees env valid (rn_files r) data" using r by (simp add: run_ok_def co)
  have err: ?thesis if "r' = add_error p m r" for m
    using that r advances_error add_error_some by (auto simp: mirrored_def add_error_def)
  show ?thesis
  proof (cases "inspect_source env p")
    case None
    with r' err show ?thesis by (simp add: process_file_def)
  next
    case (Some fp)
    let ?previous = "um_find (rn_files r) p" and ?current = "dk_find env data p"
    show ?thesis
    proof (cases "be_fails env StatCurrent p \<or> (?current \<noteq> None \<and> \<not> is_file ?current)")
      case True
      with r' err Some show ?thesis by (auto simp: process_file_def co Let_def)
    next
      case stat: False
      show ?thesis
      proof (cases "known_unchanged ?previous ?current fp")
        case True
        then obtain old fp' where k: "?previous = Some old" "?current \<noteq> None" "fp = (fp', True)" "hf_reliable old" "fp' = hf_fingerprint old"
          by (cases fp) (auto simp: known_unchanged_def split: option.splits)
        with stat obtain c where c: "?current = Some (RegularFile c)" by (auto simp: is_file_def split: option.splits entry.splits)
        with a k have "valid fp' c" by (auto simp: agrees_def)
        with inspect_law Some k(3) have "has p c" by simp
        with k(1) c have "mirrored env has r p" by (simp add: mirrored_def co)
        moreover have "r' = r" using r' Some stat True by (auto simp: process_file_def co Let_def)
        ultimately show ?thesis using r advances_refl by simp
      next
        case new: False
        show ?thesis
        proof (cases "capture_source env p = None \<or> be_fails env HashStaged p")
          case True
          then have "r' = add_error p (if capture_source env p = None then ''cannot capture source'' else ''cannot hash captured file'') r"
            using r' Some stat new by (cases "capture_source env p") (auto simp: process_file_def co Let_def is_file_def)
          then show ?thesis by (rule err)
        next
          case False
          then obtain cap where cap: "capture_source env p = Some cap" "\<not> be_fails env HashStaged p" by auto
          show ?thesis
          proof (cases "same_content env p ?previous ?current (cap_content cap)")
            case True
            then obtain old c where o: "?previous = Some old" "?current = Some (RegularFile c)" "hf_sha256 old = be_sha env (cap_content cap)"
              by (auto simp: same_content_def split: option.splits entry.splits)
            with a have "be_sha env c = be_sha env (cap_content cap)" and oldf: "hf_size old = length c" by (auto simp: agrees_def)
            with v have c: "c = cap_content cap" by (auto simp: sound_volume_def dest: injD)
            let ?new = "captured_file env t s cap"
            have r'': "r' = refresh_file p old ?new r" using r' Some stat new cap True o by (auto simp: process_file_def co Let_def is_file_def)
            have law: "has p c" "cap_reliable cap \<longrightarrow> valid (cap_fingerprint cap) c" using capture_law [OF cap(1)] by (simp_all add: c)
            have "mirrored env has r p" using o law(1) by (simp add: mirrored_def co)
            show ?thesis
            proof (cases "r' = r")
              case True
              with \<open>mirrored env has r p\<close> r advances_refl show ?thesis by simp
            next
              case False
              with r'' have u: "r' = r\<lparr>rn_files := um_put p (old\<lparr>hf_fingerprint := hf_fingerprint ?new, hf_reliable := hf_reliable ?new,
                  hf_method := hf_method ?new\<rparr>) (rn_files r), rn_metadata_changed := True\<rparr>"
                by (simp add: refresh_file_def split: if_splits)
              have "agrees env valid (rn_files r') data"
                using a o oldf law(2) c by (auto simp: agrees_def u um_find_put captured_file_def)
              moreover have "hf_sha256 old \<in> C" using r o(1) by (auto simp: run_ok_def files_in_def)
              ultimately have "run_ok env C valid r'" using r p by (simp add: run_ok_def co u files_in_put)
              then have "advances env C valid r r'" by (simp add: advances_def u)
              with o(2) law(1) show ?thesis by (auto simp: mirrored_def u um_find_put co)
            qed
          next
            case diff: False
            obtain ok copies where pub: "publishCurrentFile env p (cap_content cap) (rn_copies r) = (ok, copies)" by (rule prod.exhaust)
            have "r' = (if ok then r\<lparr>rn_copies := copies, rn_files := um_put p (captured_file env t s cap) (rn_files r),
                rn_data_changed := True, rn_metadata_changed := True\<rparr>
              else add_error p ''cannot publish current copy'' (r\<lparr>rn_copies := copies\<rparr>))"
              using r' Some stat new cap diff pub by (cases ok) (auto simp: process_file_def co Let_def)
            from publish_file [OF v r p cap(1) pub this] show ?thesis .
          qed
        qed
      qed
    qed
  qed
qed

lemma process_directory_effect:
  assumes r: "run_ok env C valid r" and r': "r' = process_directory env p r"
  shows "advances env C valid r r' \<and> (\<forall>q. mirrored env has r q \<longrightarrow> mirrored env has r' q)"
proof (cases "if be_fails env CreateDataDir p then None else create_dirs env p (fst (rn_copies r))")
  case None
  then have "r' = add_error p ''cannot create current directory'' r" by (simp add: r' process_directory_def)
  with r advances_error show ?thesis by (auto simp: mirrored_def add_error_def)
next
  case (Some data')
  then have c: "create_dirs env p (fst (rn_copies r)) = Some data'" by (simp split: if_splits)
  have u: "r' = r\<lparr>rn_copies := (data', snd (rn_copies r))\<rparr>" using Some by (simp add: r' process_directory_def)
  note k = create_dirs_keeps [OF c]
  obtain data objects where co: "rn_copies r = (data, objects)" by (rule prod.exhaust)
  have "run_ok env C valid r'" using r k by (auto simp: u run_ok_def co copies_ok_def agrees_def)
  then show ?thesis using k by (auto simp: advances_def u co kept_def mirrored_def)
qed

text \<open>After the entries every file of the source is mirrored, unless there was an error.\<close>

lemma process_entries_effect:
  assumes v: "sound_volume env C"
  shows "run_ok env C valid r \<Longrightarrow> \<forall>e \<in> set entries. set (fst e) \<subseteq> C \<Longrightarrow> distinct (map fst entries) \<Longrightarrow>
    case process_entries env t s entries r of
      Inl r' \<Rightarrow> run_ok env C valid r' \<and> (\<forall>q h. kept env (rn_copies r) q h \<longrightarrow> kept env (rn_copies r') q h)
    | Inr r' \<Rightarrow> advances env C valid r r' \<and>
        (rn_errors r' = [] \<longrightarrow> (\<forall>q. set q \<subseteq> C \<longrightarrow> mirrored env has r q \<or> (q, KFile) \<in> set entries \<longrightarrow> (q, KDirectory) \<in> set entries \<or> mirrored env has r' q))"
proof (induction entries arbitrary: r)
  case Nil
  then show ?case using advances_refl by simp
next
  case (Cons e entries)
  obtain p kind where e: "e = (p, kind)" by (rule prod.exhaust)
  show ?case
  proof (cases "relativeKey p")
    case None
    with Cons.prems show ?thesis by (simp add: e)
  next
    case (Some rel)
    then have rel: "rel = p" by (simp add: relativeKey_def split: if_splits)
    let ?r = "if kind = KDirectory then process_directory env p r else process_file env t s p r"
    have p: "set p \<subseteq> C" using Cons.prems(2) by (simp add: e)
    have step: "advances env C valid r ?r \<and> (kind = KFile \<longrightarrow> rn_errors ?r = [] \<longrightarrow> mirrored env has ?r p) \<and>
      (\<forall>q. set q \<subseteq> C \<longrightarrow> (kind = KFile \<longrightarrow> q \<noteq> p) \<longrightarrow> mirrored env has r q \<longrightarrow> mirrored env has ?r q)"
      using process_file_effect [OF v Cons.prems(1) p refl] process_directory_effect [OF Cons.prems(1) refl, of p]
      by (cases kind) auto
    then have ok: "run_ok env C valid ?r" by (simp add: advances_def)
    have run: "process_entries env t s (e # entries) r = process_entries env t s entries ?r"
      by (simp add: e Some rel)
    from Cons.prems have rest: "\<forall>e \<in> set entries. set (fst e) \<subseteq> C" "distinct (map fst entries)" "p \<notin> fst ` set entries" by (auto simp: e)
    note IH = Cons.IH [OF ok rest(1,2)]
    show ?thesis
    proof (cases "process_entries env t s entries ?r")
      case (Inl r')
      with IH step show ?thesis by (auto simp: run advances_def)
    next
      case (Inr r')
      with IH have adv: "advances env C valid ?r r'" and m: "rn_errors r' = [] \<Longrightarrow> set q \<subseteq> C \<Longrightarrow>
          mirrored env has ?r q \<or> (q, KFile) \<in> set entries \<Longrightarrow> (q, KDirectory) \<in> set entries \<or> mirrored env has r' q" for q
        by auto
      have no_errors: "rn_errors r' = [] \<Longrightarrow> rn_errors ?r = []" using adv by (simp add: advances_def)
      have "(q, KDirectory) \<in> set (e # entries) \<or> mirrored env has r' q"
        if q: "rn_errors r' = []" "set q \<subseteq> C" "mirrored env has r q \<or> (q, KFile) \<in> set (e # entries)" for q
      proof (cases "q = p")
        case True
        show ?thesis
        proof (cases kind)
          case KDirectory
          with True show ?thesis by (simp add: e)
        next
          case KFile
          with step no_errors q(1) True have "mirrored env has ?r q" by simp
          from m [OF q(1,2)] this show ?thesis by auto
        qed
      next
        case False
        with q(3) step q(2) have "mirrored env has ?r q \<or> (q, KFile) \<in> set entries" by (auto simp: e)
        from m [OF q(1,2) this] show ?thesis by auto
      qed
      with adv step advances_trans show ?thesis unfolding run Inr by (simp only: sum.case) blast
    qed
  qed
qed

lemma remove_deleted_effect:
  assumes v: "sound_volume env C" and r: "run_ok env C valid r" and p: "set p \<subseteq> C" and r': "r' = remove_deleted env p r"
  shows "advances env C valid r r' \<and> (rn_errors r' = [] \<longrightarrow> um_find (rn_files r') p = None) \<and>
    (\<forall>q. q \<noteq> p \<longrightarrow> um_find (rn_files r') q = um_find (rn_files r) q) \<and>
    (\<forall>q. set q \<subseteq> C \<longrightarrow> q \<noteq> p \<longrightarrow> mirrored env has r q \<longrightarrow> mirrored env has r' q)"
proof -
  obtain data objects where co: "rn_copies r = (data, objects)" by (rule prod.exhaust)
  obtain ok archived data' objects' where ar: "archiveCurrentFile env p (data, objects) = (ok, archived, data', objects')"
    by (metis prod.exhaust)
  have k: "copies_ok env C (data, objects)" and f: "files_in C (rn_files r)" and a: "agrees env valid (rn_files r) data"
    using r by (simp_all add: run_ok_def co)
  note e = archive_effect [OF v k p ar]
  have u: "r' = (if ok then r\<lparr>rn_copies := (data', objects'), rn_files := um_erase p (rn_files r), rn_data_changed := True, rn_metadata_changed := True\<rparr>
      else add_error p ''cannot archive deleted file'' (r\<lparr>rn_copies := (data', objects')\<rparr>))"
    using ar by (cases ok) (simp_all add: r' remove_deleted_def co)
  have copies': "rn_copies r' = (data', objects')" by (simp add: u add_error_def)
  have files: "files_in C (rn_files r')" using f by (simp add: u files_in_erase add_error_def)
  have sub: "um_find (rn_files r') q = Some g \<Longrightarrow> um_find (rn_files r) q = Some g" for q g
    by (simp add: u add_error_def um_find_erase split: if_splits)
  have keep: "dk_find env data q = Some x" if "dk_find env data' q = Some x" for q x
    using e(3) [of q] e(6) [of x] that dk_find_same [of env p q data] dk_find_same [of env p q data']
    by (cases "same_name env p q") simp_all
  have agree: "agrees env valid (rn_files r') data'"
    using a sub keep unfolding agrees_def by blast
  have adv: "advances env C valid r r'"
    using e(1,2) files agree by (auto simp: advances_def run_ok_def copies' co) (auto simp: u add_error_def split: if_splits)
  have find: "um_find (rn_files r') q = um_find (rn_files r) q" if "q \<noteq> p" for q using that by (simp add: u add_error_def um_find_erase)
  have "mirrored env has r' q" if "set q \<subseteq> C" "q \<noteq> p" "mirrored env has r q" for q
    by (rule mirrored_other [OF v p that]) (use e(3) find that in \<open>simp_all add: copies' co\<close>)
  with adv find show ?thesis by (auto simp: u add_error_def um_find_erase)
qed

lemma deletion_steps:
  assumes v: "sound_volume env C"
  shows "run_ok env C valid r \<Longrightarrow> \<forall>p \<in> set ps. set p \<subseteq> C \<Longrightarrow>
    r' = fold (\<lambda>p r. if p \<in> set keep then r else remove_deleted env p r) ps r \<Longrightarrow>
    advances env C valid r r' \<and>
    (rn_errors r' = [] \<longrightarrow> (\<forall>q. um_find (rn_files r') q = (if q \<in> set ps \<and> q \<notin> set keep then None else um_find (rn_files r) q))) \<and>
    (\<forall>q. set q \<subseteq> C \<longrightarrow> q \<in> set keep \<longrightarrow> mirrored env has r q \<longrightarrow> mirrored env has r' q)"
proof (induction ps arbitrary: r)
  case Nil
  then show ?case using advances_refl by simp
next
  case (Cons p ps)
  let ?r = "if p \<in> set keep then r else remove_deleted env p r"
  have p: "set p \<subseteq> C" using Cons.prems(2) by simp
  have step: "advances env C valid r ?r \<and> (rn_errors ?r = [] \<longrightarrow> p \<notin> set keep \<longrightarrow> um_find (rn_files ?r) p = None) \<and>
    (\<forall>q. (p \<in> set keep \<or> q \<noteq> p) \<longrightarrow> um_find (rn_files ?r) q = um_find (rn_files r) q) \<and>
    (\<forall>q. set q \<subseteq> C \<longrightarrow> q \<in> set keep \<longrightarrow> mirrored env has r q \<longrightarrow> mirrored env has ?r q)"
    using remove_deleted_effect [OF v Cons.prems(1) p refl] advances_refl [OF Cons.prems(1)] by auto
  then have ok: "run_ok env C valid ?r" by (simp add: advances_def)
  have r': "r' = fold (\<lambda>p r. if p \<in> set keep then r else remove_deleted env p r) ps ?r" using Cons.prems(3) by simp
  note IH = Cons.IH [OF ok _ r']
  have adv: "advances env C valid ?r r'" using IH Cons.prems(2) by simp
  have "um_find (rn_files r') q = (if q \<in> set (p # ps) \<and> q \<notin> set keep then None else um_find (rn_files r) q)"
    if "rn_errors r' = []" for q
  proof -
    have e: "rn_errors ?r = []" using adv that by (simp add: advances_def)
    have "um_find (rn_files r') q = (if q \<in> set ps \<and> q \<notin> set keep then None else um_find (rn_files ?r) q)"
      using IH Cons.prems(2) that by simp
    with step e show ?thesis by (cases "q = p") auto
  qed
  moreover have "mirrored env has r' q" if "set q \<subseteq> C" "q \<in> set keep" "mirrored env has r q" for q
    using IH step Cons.prems(2) that by simp
  ultimately show ?case using step adv advances_trans by blast
qed

lemma verify_source_effect:
  assumes "run_ok env C valid r"
  shows "advances env C valid r (verify_source env entries src r) \<and>
    rn_copies (verify_source env entries src r) = rn_copies r \<and> rn_files (verify_source env entries src r) = rn_files r"
  using assms advances_error advances_refl by (auto simp: verify_source_def add_error_def split: option.splits)

text \<open>A run before the manifest is written, from a state that is in order.\<close>

lemma mirror_source:
  assumes v: "sound_volume env C" and r: "run_ok env C valid r" and e: "um_ok entries" "\<forall>e \<in> set entries. set (fst e) \<subseteq> C"
    and p: "process_entries env t s entries r = Inr r1"
    and r': "r' = verify_source env entries src (deletion_pass env (kind_paths KFile entries) r1)"
  shows "advances env C valid r r' \<and> (rn_errors r' = [] \<longrightarrow>
    (\<forall>q. um_find (rn_files r') q \<noteq> None \<longleftrightarrow> (q, KFile) \<in> set entries) \<and> (\<forall>q. (q, KFile) \<in> set entries \<longrightarrow> mirrored env has r' q))"
proof -
  let ?files = "kind_paths KFile entries" and ?r2 = "deletion_pass env (kind_paths KFile entries) r1"
  have d: "distinct (map fst entries)" using e(1) by (simp add: um_ok_def)
  have mem: "q \<in> set ?files \<longleftrightarrow> (q, KFile) \<in> set entries" for q by (force simp: kind_paths_def image_iff)
  have not_dir: "(q, KFile) \<in> set entries \<Longrightarrow> (q, KDirectory) \<notin> set entries" for q
    using d by (metis distinct_map entry_kind.distinct(1) fst_conv inj_onD prod.inject)
  have a1: "advances env C valid r r1" and m1: "rn_errors r1 = [] \<Longrightarrow> set q \<subseteq> C \<Longrightarrow> (q, KFile) \<in> set entries \<Longrightarrow> mirrored env has r1 q" for q
    using process_entries_effect [OF v r e(2) d, of t s] not_dir [of q] unfolding p by auto
  have ok1: "run_ok env C valid r1" using a1 by (simp add: advances_def)
  have keys: "set (sort (um_keys (rn_files r1))) = {q. um_find (rn_files r1) q \<noteq> None}"
    by (auto simp: um_keys_def um_find_None_iff)
  have "\<forall>q \<in> set (sort (um_keys (rn_files r1))). set q \<subseteq> C"
    using ok1 unfolding keys by (auto simp: run_ok_def files_in_def)
  from deletion_steps [OF v ok1 this, of ?r2 ?files] have a2: "advances env C valid r1 ?r2"
    and f2: "rn_errors ?r2 = [] \<Longrightarrow> um_find (rn_files ?r2) q = (if q \<in> set (sort (um_keys (rn_files r1))) \<and> q \<notin> set ?files then None else um_find (rn_files r1) q)"
    and m2: "set q \<subseteq> C \<Longrightarrow> q \<in> set ?files \<Longrightarrow> mirrored env has r1 q \<Longrightarrow> mirrored env has ?r2 q" for q
    by (simp_all add: deletion_pass_def)
  have ok2: "run_ok env C valid ?r2" using a2 by (simp add: advances_def)
  note a3 = verify_source_effect [OF ok2, of entries src, folded r']
  have adv: "advances env C valid r r'" using a1 a2 a3 advances_trans by blast
  have "(\<forall>q. um_find (rn_files r') q \<noteq> None \<longleftrightarrow> (q, KFile) \<in> set entries) \<and> (\<forall>q. (q, KFile) \<in> set entries \<longrightarrow> mirrored env has r' q)"
    if none: "rn_errors r' = []"
  proof -
    have n2: "rn_errors ?r2 = []" using a3 none by (simp add: advances_def)
    then have n1: "rn_errors r1 = []" using a2 by (simp add: advances_def)
    have m: "mirrored env has r' q" if "(q, KFile) \<in> set entries" for q
    proof -
      have "set q \<subseteq> C" using e(2) that by force
      with m1 [OF n1 this that] m2 mem that have "mirrored env has ?r2 q" by simp
      with a3 show ?thesis by (simp add: mirrored_def)
    qed
    moreover have "um_find (rn_files r') q \<noteq> None \<longleftrightarrow> (q, KFile) \<in> set entries" for q
      using m [of q] f2 [OF n2, of q] a3 mem [of q] unfolding keys by (auto simp: mirrored_def)
    ultimately show ?thesis by blast
  qed
  with adv show ?thesis by blast
qed

end

section \<open>Restore points\<close>

definition all_points :: "(wstring, tier_points) umap \<Rightarrow> (wstring \<times> wstring \<times> restore_point) set" where
  "all_points points = {(name, label, point). (label, point) \<in> set (points_of points name)}"

lemma points_of_put: "points_of (um_put n ps points) m = (if m = n then ps else points_of points m)"
  by (simp add: points_of_def um_find_put)

lemma createRestorePoint_points:
  "createRestorePoint env tier t s current ps = Some (created, ps') \<Longrightarrow>
     set ps \<subseteq> set ps' \<and> (\<forall>x \<in> set ps'. x \<in> set ps \<or> rp_state (snd x) = current)"
  by (auto simp: createRestorePoint_def set_insort_key split: if_splits option.splits)

lemma create_points_effect:
  "create_points env tiers t s current points = (ok, created, points') \<Longrightarrow> um_ok points \<Longrightarrow>
     um_ok points' \<and> all_points points \<subseteq> all_points points' \<and> (\<forall>x \<in> all_points points'. x \<in> all_points points \<or> rp_state (snd (snd x)) = current)"
proof (induction tiers arbitrary: points ok created points')
  case Nil
  then show ?case by simp
next
  case (Cons tier tiers)
  show ?case
  proof (cases "createRestorePoint env tier t s current (points_of points (ht_name tier))")
    case None
    with Cons.prems show ?thesis by auto
  next
    case (Some c)
    obtain made ps where c: "c = (made, ps)" by (rule prod.exhaust)
    let ?points = "if made then um_put (ht_name tier) ps points else points"
    obtain ok2 more points2 where rest: "create_points env tiers t s current ?points = (ok2, more, points2)" by (metis prod.exhaust)
    with Cons.prems(1) have p: "points' = points2" by (simp add: Some c)
    have u: "um_ok ?points" using Cons.prems(2) by simp
    have one: "all_points points \<subseteq> all_points ?points" "\<forall>x \<in> all_points ?points. x \<in> all_points points \<or> rp_state (snd (snd x)) = current"
      using createRestorePoint_points [OF Some [unfolded c]] by (auto simp: all_points_def points_of_put split: if_splits)
    from Cons.IH [OF rest u] one show ?thesis unfolding p by blast
  qed
qed

lemma remove_oldest_effect:
  "\<exists>k. remove_oldest env tier ps = drop k ps \<and> (k > 0 \<longrightarrow> ht_max_points tier \<le> length (drop k ps))"
proof (induction ps)
  case Nil
  show ?case by (intro exI [of _ 0]) simp
next
  case (Cons x ps)
  obtain label point where x: "x = (label, point)" by (rule prod.exhaust)
  show ?case
  proof (cases "length ps + 1 > ht_max_points tier \<and> \<not> be_fails env RemovePoint [ht_name tier, label]")
    case True
    obtain k where k: "remove_oldest env tier ps = drop k ps" "k > 0 \<longrightarrow> ht_max_points tier \<le> length (drop k ps)" using Cons.IH by blast
    show ?thesis by (rule exI [of _ "Suc k"]) (use True k in \<open>cases k; auto simp: x\<close>)
  next
    case False
    then show ?thesis by (intro exI [of _ 0]) (auto simp: x)
  qed
qed

text \<open>A point that disappears is one of a tier that has as many as it may have.\<close>

definition rotated :: "history_tier list \<Rightarrow> (wstring, tier_points) umap \<Rightarrow> (wstring, tier_points) umap \<Rightarrow> bool" where
  "rotated tiers points points' \<longleftrightarrow> all_points points' \<subseteq> all_points points \<and>
     (\<forall>n. points_of points' n \<noteq> points_of points n \<longrightarrow>
       (\<exists>tier \<in> set tiers. ht_name tier = n \<and> ht_max_points tier \<le> length (points_of points' n)))"

lemma rotate_effect:
  "um_ok points \<Longrightarrow> um_ok (rotateRestorePoints env tiers points) \<and> rotated tiers points (rotateRestorePoints env tiers points)"
proof (induction tiers rule: rev_induct)
  case Nil
  then show ?case by (simp add: rotateRestorePoints_def rotated_def)
next
  case (snoc tier tiers)
  let ?p1 = "rotateRestorePoints env tiers points"
  let ?ps = "points_of ?p1 (ht_name tier)"
  have e: "rotateRestorePoints env (tiers @ [tier]) points = um_put (ht_name tier) (remove_oldest env tier ?ps) ?p1"
    by (simp add: rotateRestorePoints_def)
  obtain k where k: "remove_oldest env tier ?ps = drop k ?ps" "k > 0 \<longrightarrow> ht_max_points tier \<le> length (drop k ?ps)"
    using remove_oldest_effect by blast
  have IH: "um_ok ?p1" "all_points ?p1 \<subseteq> all_points points"
    "points_of ?p1 n \<noteq> points_of points n \<Longrightarrow> \<exists>tier \<in> set tiers. ht_name tier = n \<and> ht_max_points tier \<le> length (points_of ?p1 n)" for n
    using snoc by (auto simp: rotated_def)
  have "all_points (um_put (ht_name tier) (drop k ?ps) ?p1) \<subseteq> all_points ?p1"
    by (auto simp: all_points_def points_of_put split: if_splits dest: in_set_dropD)
  moreover have "\<exists>t \<in> set (tiers @ [tier]). ht_name t = n \<and> ht_max_points t \<le> length (points_of (um_put (ht_name tier) (drop k ?ps) ?p1) n)"
    if d: "points_of (um_put (ht_name tier) (drop k ?ps) ?p1) n \<noteq> points_of points n" for n
  proof (cases "n = ht_name tier \<and> k > 0")
    case True
    with k(2) show ?thesis by (auto simp: points_of_put)
  next
    case False
    then have "points_of (um_put (ht_name tier) (drop k ?ps) ?p1) n = points_of ?p1 n" by (auto simp: points_of_put)
    with d IH(3) [of n] show ?thesis by auto
  qed
  ultimately show ?case using IH(1,2) unfolding e k(1) rotated_def by auto
qed

text \<open>Every file of every point is kept.\<close>

definition points_kept :: "backup_env \<Rightarrow> wstring set \<Rightarrow> (wstring, tier_points) umap \<Rightarrow> copies \<Rightarrow> bool" where
  "points_kept env C points copies \<longleftrightarrow> (\<forall>(name, label, point) \<in> all_points points. files_in C (hs_files (rp_state point)) \<and>
     (\<forall>p f. um_find (hs_files (rp_state point)) p = Some f \<longrightarrow> kept env copies p (hf_sha256 f)))"

lemma references:
  assumes "um_ok points" and "(name, label, point) \<in> all_points points" and "\<not> be_fails env ReadPoint [name, label]"
    and "um_find (hs_files (rp_state point)) p = Some f"
  shows "(p, hf_sha256 f) \<in> set (collectPointReferences env points)"
proof -
  from assms(2) obtain ps where ps: "um_find points name = Some ps" "(label, point) \<in> set ps"
    by (cases "um_find points name") (auto simp: all_points_def points_of_def)
  then have "(name, ps) \<in> set points" using assms(1) by (simp add: um_find_Some_iff)
  moreover have "(p, f) \<in> set (hs_files (rp_state point))" using assms(4) by (simp add: um_find_def map_of_SomeD)
  moreover have "(p, hf_sha256 f) \<in> set (map (\<lambda>(p, f). (p, hf_sha256 f)) (hs_files (rp_state point)))"
    using \<open>(p, f) \<in> set (hs_files (rp_state point))\<close> by force
  then have "(p, hf_sha256 f) \<in> set (concat (map (\<lambda>(label, point). if be_fails env ReadPoint [name, label] then []
      else map (\<lambda>(p, f). (p, hf_sha256 f)) (hs_files (rp_state point))) ps))"
    unfolding set_concat set_map image_image using ps(2) assms(3) by (intro UN_I [of "(label, point)"]) simp_all
  ultimately show ?thesis unfolding collectPointReferences_def set_concat set_map image_image
    by (intro UN_I [of "(name, ps)"]) simp_all
qed

lemma collect_keeps:
  assumes v: "sound_volume env C" and k: "copies_ok env C (data, objects)" and p: "set p \<subseteq> C" "h \<in> C"
    and ref: "(p, h) \<in> set (collectPointReferences env points)"
    and cur: "is_current files p h \<Longrightarrow> \<exists>c. dk_find env data p = Some (RegularFile c) \<and> be_sha env c = h"
    and kept: "kept env (data, objects) p h"
  shows "kept env (data, collectGarbageObjects env files points objects) p h"
proof (cases "is_current files p h")
  case True
  with cur show ?thesis by (simp add: kept_def)
next
  case False
  show ?thesis
  proof (cases "dk_find env objects (objectPath p h)")
    case None
    with kept show ?thesis by (simp add: kept_def)
  next
    case (Some c)
    from dk_find_mem [OF Some] obtain q where q: "(q, c) \<in> set objects" "same_name env q (objectPath p h)" by blast
    have "set q \<subseteq> C" using k q(1) by (fastforce simp: copies_ok_def names_in_def)
    moreover have "set (objectPath p h) \<subseteq> C" using p by simp
    ultimately have "q = objectPath p h" using q(2) same_name_eq v by (auto simp: sound_volume_def)
    with q(1) False ref have "(objectPath p h, c) \<in> set (collectGarbageObjects env files points objects)"
      by (simp add: collectGarbageObjects_def)
    moreover have "unique_names env (collectGarbageObjects env files points objects)"
      using k by (simp add: copies_ok_def collectGarbageObjects_def unique_names_filter)
    ultimately have "dk_find env (collectGarbageObjects env files points objects) (objectPath p h) = Some c"
      by (auto simp: dk_find_unique)
    then show ?thesis by (simp add: kept_def)
  qed
qed

lemma collect_ok: "copies_ok env C (data, objects) \<Longrightarrow> copies_ok env C (data, collectGarbageObjects env files points objects)"
  by (auto simp: copies_ok_def collectGarbageObjects_def unique_names_filter names_in_def)

section \<open>The end of a run\<close>

text \<open>A backup in order: its copies, its manifest, and every point recoverable.\<close>

definition store_ok :: "backup_env \<Rightarrow> wstring set \<Rightarrow> (wstring \<Rightarrow> u8 list \<Rightarrow> bool) \<Rightarrow> mirror_store \<Rightarrow> bool" where
  "store_ok env C valid st \<longleftrightarrow> copies_ok env C (ms_data st, ms_objects st) \<and> um_ok (ms_points st) \<and>
     points_kept env C (ms_points st) (ms_data st, ms_objects st) \<and>
     (\<forall>s. ms_manifest st = Manifest s \<longrightarrow> files_in C (hs_files s) \<and> agrees env valid (hs_files s) (ms_data st))"

definition points_recoverable :: "backup_env \<Rightarrow> wstring set \<Rightarrow> mirror_store \<Rightarrow> bool" where
  "points_recoverable env C st \<longleftrightarrow> points_kept env C (ms_points st) (ms_data st, ms_objects st)"

text \<open>The mirror is what was enumerated: the manifest lists these files, and each copy is what the source had.\<close>

definition mirror_exact :: "backup_env \<Rightarrow> (path \<Rightarrow> u8 list \<Rightarrow> bool) \<Rightarrow> (path, entry_kind) umap \<Rightarrow> mirror_store \<Rightarrow> bool" where
  "mirror_exact env has entries st \<longleftrightarrow> (\<exists>s. ms_manifest st = Manifest s \<and> hs_complete s \<and>
     (\<forall>p. um_find (hs_files s) p \<noteq> None \<longleftrightarrow> (p, KFile) \<in> set entries) \<and>
     (\<forall>p f. um_find (hs_files s) p = Some f \<longrightarrow> (\<exists>c. dk_find env (ms_data st) p = Some (RegularFile c) \<and> has p c \<and>
        hf_sha256 f = be_sha env c \<and> hf_size f = length c)))"

text \<open>New points hold the state of the mirror.\<close>

definition points_advance :: "history_tier list \<Rightarrow> mirror_store \<Rightarrow> mirror_store \<Rightarrow> bool" where
  "points_advance tiers st st' \<longleftrightarrow> (\<exists>points. rotated tiers points (ms_points st') \<and> all_points (ms_points st) \<subseteq> all_points points \<and>
     (\<forall>(n, label, point) \<in> all_points points. (n, label, point) \<in> all_points (ms_points st) \<or> ms_manifest st' = Manifest (rp_state point)))"

lemma points_kept_mono:
  "points_kept env C points copies \<Longrightarrow> (\<And>p h. kept env copies p h \<Longrightarrow> kept env copies' p h) \<Longrightarrow> points_kept env C points copies'"
  unfolding points_kept_def by blast

lemma kept_remove_empty:
  "unique_names env data \<Longrightarrow> kept env (removeEmptyCurrentDirectories env keep data, objects) p h = kept env (data, objects) p h"
  by (simp add: kept_def remove_empty_keeps(2))

lemma copies_ok_remove_empty:
  "copies_ok env C (data, objects) \<Longrightarrow> copies_ok env C (removeEmptyCurrentDirectories env keep data, objects)"
  by (simp add: copies_ok_def remove_empty_keeps(1))

lemma agrees_remove_empty:
  "unique_names env data \<Longrightarrow> agrees env valid files (removeEmptyCurrentDirectories env keep data) = agrees env valid files data"
  by (simp add: agrees_def remove_empty_keeps(2))

lemma finish_run_effect:
  assumes v: "sound_volume env C" and reads: "\<And>x. \<not> be_fails env ReadPoint x"
    and ok: "store_ok env C valid st" and m: "ms_manifest st = Manifest current"
    and cur: "\<And>p f. um_find (hs_files current) p = Some f \<Longrightarrow> \<exists>c. dk_find env (ms_data st) p = Some (RegularFile c) \<and> be_sha env c = hf_sha256 f"
    and f: "finish_run env tiers t s current changed st = (res, st')"
  shows "store_ok env C valid st' \<and> points_advance tiers st st' \<and> ms_manifest st' = ms_manifest st \<and>
    (\<forall>p c. dk_find env (ms_data st') p = Some (RegularFile c) \<longleftrightarrow> dk_find env (ms_data st) p = Some (RegularFile c)) \<and> res \<noteq> MirrorThrew"
proof -
  obtain ok1 created points where c: "create_points env tiers t s current (ms_points st) = (ok1, created, points)" by (metis prod.exhaust)
  have u: "um_ok (ms_points st)" and cop: "copies_ok env C (ms_data st, ms_objects st)" and fin: "files_in C (hs_files current)"
    using ok m by (simp_all add: store_ok_def)
  note ce = create_points_effect [OF c u]
  have pk: "points_kept env C points (ms_data st, ms_objects st)"
    unfolding points_kept_def
  proof (intro ballI, clarify)
    fix n label point
    assume x: "(n, label, point) \<in> all_points points"
    show "files_in C (hs_files (rp_state point)) \<and> (\<forall>p f. um_find (hs_files (rp_state point)) p = Some f \<longrightarrow> kept env (ms_data st, ms_objects st) p (hf_sha256 f))"
    proof (cases "(n, label, point) \<in> all_points (ms_points st)")
      case True
      with ok show ?thesis by (auto simp: store_ok_def points_kept_def)
    next
      case False
      with ce x have "rp_state point = current" by fastforce
      with fin cur show ?thesis by (auto simp: kept_def)
    qed
  qed
  have new: "\<forall>(n, label, point) \<in> all_points points. (n, label, point) \<in> all_points (ms_points st) \<or> current = rp_state point"
    using ce by fastforce
  show ?thesis
  proof (cases ok1)
    case False
    with f c have st': "st' = st\<lparr>ms_points := points\<rparr>" "res = MirrorFailed" by (auto simp: finish_run_def)
    have "rotated tiers points points" by (simp add: rotated_def)
    with ok pk ce new m show ?thesis by (auto simp: st' store_ok_def points_advance_def)
  next
    case True
    let ?points = "rotateRestorePoints env tiers points"
    let ?objects = "collectGarbageObjects env (hs_files current) ?points (ms_objects st)"
    let ?data = "removeEmptyCurrentDirectories env (hs_directories current) (ms_data st)"
    from f c True have st': "st' = st\<lparr>ms_points := ?points, ms_objects := ?objects, ms_data := ?data\<rparr>" "res \<noteq> MirrorThrew"
      by (auto simp: finish_run_def Let_def split: if_splits)
    have rot: "um_ok ?points" "rotated tiers points ?points" using rotate_effect [of points env tiers] ce by simp_all
    have ud: "unique_names env (ms_data st)" using cop by (simp add: copies_ok_def)
    have "points_kept env C ?points (?data, ?objects)"
      unfolding points_kept_def
    proof (intro ballI, clarify)
      fix n label point
      assume x: "(n, label, point) \<in> all_points ?points"
      then have "(n, label, point) \<in> all_points points" using rot(2) by (auto simp: rotated_def)
      with pk have q: "files_in C (hs_files (rp_state point))"
        "\<And>p f. um_find (hs_files (rp_state point)) p = Some f \<Longrightarrow> kept env (ms_data st, ms_objects st) p (hf_sha256 f)"
        by (auto simp: points_kept_def)
      have "kept env (?data, ?objects) p (hf_sha256 f)" if g: "um_find (hs_files (rp_state point)) p = Some f" for p f
      proof -
        have names: "set p \<subseteq> C" "hf_sha256 f \<in> C" using q(1) g by (auto simp: files_in_def)
        have "is_current (hs_files current) p (hf_sha256 f) \<Longrightarrow> \<exists>c. dk_find env (ms_data st) p = Some (RegularFile c) \<and> be_sha env c = hf_sha256 f"
          using cur [of p] by (cases "um_find (hs_files current) p") (auto simp: is_current_def)
        from collect_keeps [OF v cop names references [OF rot(1) x reads g] this q(2) [OF g]]
        show ?thesis by (simp add: kept_remove_empty [OF ud])
      qed
      with q(1) show "files_in C (hs_files (rp_state point)) \<and>
        (\<forall>p f. um_find (hs_files (rp_state point)) p = Some f \<longrightarrow> kept env (?data, ?objects) p (hf_sha256 f))" by blast
    qed
    moreover have "copies_ok env C (?data, ?objects)" using cop by (intro copies_ok_remove_empty collect_ok)
    ultimately have "store_ok env C valid st'" using ok rot(1) m by (simp add: st' store_ok_def agrees_remove_empty [OF ud])
    moreover have "points_advance tiers st st'" using rot(2) ce new m by (auto simp: points_advance_def st')
    ultimately show ?thesis using st'(2) by (simp add: st'(1) remove_empty_keeps(2) [OF ud])
  qed
qed

lemma source_entries_ok:
  assumes "collectSourceEntries env src = Some entries"
  shows "um_ok entries"
proof (cases src)
  case (SingleFile name)
  with assms show ?thesis by (auto simp: collectSourceEntries_def um_ok_def)
next
  case (SourceTree excluded nodes)
  have "um_ok m \<Longrightarrow> um_ok (fold (\<lambda>(p, kind). um_emplace p kind) es m)" for es :: "(path \<times> entry_kind) list" and m
    by (induction es arbitrary: m) auto
  from this [of "[]"] have "um_ok (fold (\<lambda>(p, kind). um_emplace p kind) es [])" for es :: "(path \<times> entry_kind) list"
    by (simp add: um_ok_def)
  with SourceTree assms show ?thesis by (auto simp: collectSourceEntries_def um_ok_def distinct_map)
qed

context faithful_capture
begin

lemma close_run_effect:
  assumes v: "sound_volume env C" and reads: "\<And>x. \<not> be_fails env ReadPoint x" and ok: "store_ok env C valid st"
    and previous: "previous = (case ms_manifest st of Manifest s \<Rightarrow> s | _ \<Rightarrow> no_state)" "existed \<longleftrightarrow> (\<exists>s. ms_manifest st = Manifest s)"
    and adv: "advances env C valid (start_run existed previous st) r"
    and exact: "rn_errors r = [] \<longrightarrow> (\<forall>q. um_find (rn_files r) q \<noteq> None \<longleftrightarrow> (q, KFile) \<in> set entries) \<and>
      (\<forall>q. (q, KFile) \<in> set entries \<longrightarrow> mirrored env has r q)"
    and c: "close_run env tiers t s existed previous directories r st = (res, st')"
  shows "points_recoverable env C st' \<and> points_advance tiers st st' \<and> res \<noteq> MirrorThrew \<and>
    (\<not> be_fails env WriteManifest [] \<longrightarrow> store_ok env C valid st') \<and>
    (res \<in> {MirrorUnchanged, MirrorUpdated} \<longrightarrow> mirror_exact env has entries st')"
proof -
  let ?complete = "rn_errors r = []"
  let ?changed = "rn_metadata_changed r \<or> hs_directories previous \<noteq> directories \<or> ?complete \<noteq> hs_complete previous"
  let ?current = "\<lparr>hs_complete = ?complete, hs_files = rn_files r, hs_directories = directories, hs_errors = rn_errors r\<rparr>"
  let ?must = "?changed \<or> \<not> ?complete \<or> \<not> existed"
  obtain data objects where co: "rn_copies r = (data, objects)" by (rule prod.exhaust)
  let ?st1 = "st\<lparr>ms_data := data, ms_objects := objects\<rparr>"
  let ?st2 = "if ?must then ?st1\<lparr>ms_manifest := Manifest ?current\<rparr> else ?st1"
  have run: "run_ok env C valid r" and kept: "\<And>q h. kept env (ms_data st, ms_objects st) q h \<Longrightarrow> kept env (data, objects) q h"
    and files: "\<not> rn_metadata_changed r \<Longrightarrow> \<not> rn_metadata_changed (start_run existed previous st) \<and> rn_files r = hs_files previous"
    using adv by (simp_all add: advances_def start_run_def co)
  have pk: "points_kept env C (ms_points st) (data, objects)"
    using ok kept by (auto simp: store_ok_def intro: points_kept_mono)
  have adv1: "points_advance tiers st st''" if "ms_points st'' = ms_points st" for st''
    by (auto simp: points_advance_def rotated_def that)
  have cop: "copies_ok env C (data, objects)" and ud: "unique_names env data" using run by (simp_all add: run_ok_def co copies_ok_def)
  show ?thesis
  proof (cases "?must \<and> be_fails env WriteManifest []")
    case True
    with c have "st' = ?st1" "res = MirrorFailed" by (auto simp: close_run_def co Let_def)
    with True pk adv1 show ?thesis by (simp add: points_recoverable_def)
  next
    case False
    have man: "\<exists>cur. ms_manifest ?st2 = Manifest cur \<and> (?complete \<longrightarrow> cur = ?current) \<and> hs_files cur = rn_files r"
    proof (cases ?must)
      case nw: False
      then obtain sp where sp: "ms_manifest st = Manifest sp" "previous = sp" using previous by (auto split: manifest_file.splits)
      from nw files have "rn_files r = hs_files previous" "hs_errors previous = []" "hs_complete previous" "hs_directories previous = directories" ?complete
        by (auto simp: start_run_def)
      then have "previous = ?current" by (cases previous) simp
      with sp nw show ?thesis by auto
    qed auto
    have ok2: "store_ok env C valid ?st2"
      using ok pk run man cop by (auto simp: store_ok_def run_ok_def co)
    show ?thesis
    proof (cases ?complete)
      case inc: False
      with c False have st': "st' = ?st2\<lparr>ms_data := removeEmptyCurrentDirectories env directories data\<rparr>" "res = MirrorFailed"
        by (auto simp: close_run_def co Let_def)
      have "store_ok env C valid st'"
        using ok2 pk copies_ok_remove_empty [OF cop, of directories]
        by (auto simp: st'(1) store_ok_def points_kept_def kept_remove_empty [OF ud] agrees_remove_empty [OF ud] inc)
      with adv1 [of st'] show ?thesis by (simp add: st' points_recoverable_def store_ok_def inc)
    next
      case full: True
      have m2: "ms_manifest ?st2 = Manifest ?current" using man full by auto
      have "finish_run env tiers t s ?current (rn_data_changed r \<or> ?changed) ?st2 = (res, st')"
        using c False full by (auto simp: close_run_def co Let_def split: if_splits)
      with ok2 m2 obtain st2 where st2: "store_ok env C valid st2" "ms_manifest st2 = Manifest ?current"
          "finish_run env tiers t s ?current (rn_data_changed r \<or> ?changed) st2 = (res, st')"
          "ms_points st2 = ms_points st" "ms_data st2 = data"
        by (rule that [of ?st2]) simp_all
      have mir: "\<exists>c. dk_find env data p = Some (RegularFile c) \<and> has p c \<and> hf_sha256 g = be_sha env c \<and> hf_size g = length c"
        if g: "um_find (rn_files r) p = Some g" for p g
      proof -
        from exact full g have "mirrored env has r p" by auto
        then obtain c where c: "dk_find env data p = Some (RegularFile c)" "has p c" by (auto simp: mirrored_def co)
        with run g show ?thesis by (auto simp: run_ok_def agrees_def co)
      qed
      have cur: "\<exists>c. dk_find env (ms_data st2) p = Some (RegularFile c) \<and> be_sha env c = hf_sha256 g"
        if "um_find (hs_files ?current) p = Some g" for p g
        using mir [of p g] that by (auto simp: st2(5))
      note fin = finish_run_effect [OF v reads st2(1,2) cur st2(3)]
      have man': "ms_manifest st' = Manifest ?current" using fin st2(2) by simp
      have "mirror_exact env has entries st'"
        unfolding mirror_exact_def
      proof (intro exI [of _ ?current] conjI)
        show "\<forall>p. um_find (hs_files ?current) p \<noteq> None \<longleftrightarrow> (p, KFile) \<in> set entries" using exact full by simp
        show "\<forall>p f. um_find (hs_files ?current) p = Some f \<longrightarrow> (\<exists>c. dk_find env (ms_data st') p = Some (RegularFile c) \<and> has p c \<and>
            hf_sha256 f = be_sha env c \<and> hf_size f = length c)"
          using mir fin by (fastforce simp: st2(5))
      qed (use man' full in simp_all)
      moreover have "points_advance tiers st2 st'" using fin by simp
      then have "points_advance tiers st st'" unfolding points_advance_def st2(4) .
      ultimately show ?thesis using fin by (simp add: points_recoverable_def store_ok_def)
    qed
  qed
qed

lemma update_effect:
  assumes v: "sound_volume env C" and reads: "\<And>x. \<not> be_fails env ReadPoint x" and ok: "store_ok env C valid st"
    and names: "\<forall>entries. collectSourceEntries env src = Some entries \<longrightarrow> (\<forall>e \<in> set entries. set (fst e) \<subseteq> C)"
    and u: "updateMirrorHistory env tiers t s src src_after st = (res, st')"
  shows "points_recoverable env C st' \<and> points_advance tiers st st' \<and>
    (res \<noteq> MirrorThrew \<longrightarrow> \<not> be_fails env WriteManifest [] \<longrightarrow> store_ok env C valid st') \<and>
    (res \<in> {MirrorUnchanged, MirrorUpdated} \<longrightarrow> (\<exists>entries. collectSourceEntries env src = Some entries \<and> mirror_exact env has entries st'))"
proof -
  have same: "points_recoverable env C st" "points_advance tiers st st''" if "ms_points st'' = ms_points st" for st''
    using ok that by (auto simp: points_recoverable_def store_ok_def points_advance_def rotated_def)
  let ?existed = "\<exists>s. ms_manifest st = Manifest s" and ?previous = "case ms_manifest st of Manifest s \<Rightarrow> s | _ \<Rightarrow> no_state"
  show ?thesis
  proof (cases "be_fails env CreateRoots [] \<or> ms_manifest st = UnreadableManifest \<or> collectSourceEntries env src = None")
    case True
    with u have "st' = st \<and> res = MirrorFailed" by (cases "ms_manifest st") (auto simp: updateMirrorHistory_def Let_def split: if_splits)
    with same ok show ?thesis by simp
  next
    case False
    then obtain entries where e: "collectSourceEntries env src = Some entries" by auto
    have en: "um_ok entries" "\<forall>e \<in> set entries. set (fst e) \<subseteq> C" using source_entries_ok [OF e] names e by simp_all
    let ?r0 = "start_run ?existed ?previous st"
    have u': "(case process_entries env t s entries ?r0 of
        Inl r \<Rightarrow> (MirrorThrew, st\<lparr>ms_data := fst (rn_copies r), ms_objects := snd (rn_copies r)\<rparr>)
      | Inr r \<Rightarrow> close_run env tiers t s ?existed ?previous (sort (kind_paths KDirectory entries))
          (verify_source env entries src_after (deletion_pass env (kind_paths KFile entries) r)) st) = (res, st')"
      using u False e by (cases "ms_manifest st") (auto simp: updateMirrorHistory_def Let_def cong: sum.case_cong)
    have r0: "run_ok env C valid ?r0"
      using ok by (auto simp: run_ok_def start_run_def store_ok_def files_in_def agrees_def no_state_def um_ok_def split: manifest_file.splits)
    have d: "distinct (map fst entries)" using en(1) by (simp add: um_ok_def)
    show ?thesis
    proof (cases "process_entries env t s entries ?r0")
      case (Inl r)
      with process_entries_effect [OF v r0 en(2) d, of t s] have k: "\<And>q h. kept env (ms_data st, ms_objects st) q h \<Longrightarrow> kept env (rn_copies r) q h"
        by (simp add: start_run_def)
      from u' have st': "st' = st\<lparr>ms_data := fst (rn_copies r), ms_objects := snd (rn_copies r)\<rparr>" "res = MirrorThrew" by (simp_all add: Inl)
      have "points_kept env C (ms_points st) (rn_copies r)" using ok k by (auto simp: store_ok_def intro: points_kept_mono)
      with same(2) [of st'] show ?thesis by (simp add: st' points_recoverable_def)
    next
      case (Inr r)
      note m = mirror_source [OF v r0 en Inr refl, of src_after]
      from u' have c: "close_run env tiers t s ?existed ?previous (sort (kind_paths KDirectory entries))
          (verify_source env entries src_after (deletion_pass env (kind_paths KFile entries) r)) st = (res, st')" by (simp add: Inr)
      have "points_recoverable env C st' \<and> points_advance tiers st st' \<and> res \<noteq> MirrorThrew \<and>
        (\<not> be_fails env WriteManifest [] \<longrightarrow> store_ok env C valid st') \<and>
        (res \<in> {MirrorUnchanged, MirrorUpdated} \<longrightarrow> mirror_exact env has entries st')"
        by (rule close_run_effect [OF v reads ok refl refl _ _ c]) (use m in blast)+
      with e show ?thesis by blast
    qed
  qed
qed

end

end
