(* ===== verification/MirrorRestore.thy ===== *)
theory MirrorRestore
  imports MirrorRun
begin

text \<open>
  Restoring a point of the rolling backup (\<open>src/src/Backup/Restore\<close>): each file of its manifest is
  looked up among the objects and then in the mirror, all are copied to a staging directory, checked
  there against the manifest, and the directory takes the place of the destination, which is moved
  aside.

  The JSON form of a manifest is an argument (\<open>None\<close> is a file that cannot be opened or parsed) and
  so is what the copy of a file leaves on the disk: \<open>copyFileBinary\<close> does not look at the stream
  after its last buffer, and the check in the staging directory has to notice. Removing a staging
  directory that is given up is left out, and \<open>fs::exists\<close> does not fail.
\<close>

section \<open>Manifests\<close>

definition has_drive :: "wstring \<Rightarrow> bool" where
  "has_drive c = (case c of l # k # _ \<Rightarrow> k = 58 \<and> (65 \<le> l \<and> l \<le> 90 \<or> 97 \<le> l \<and> l \<le> 122) | _ \<Rightarrow> False)"

definition isSafeRelativeUtf8Path :: "path \<Rightarrow> bool" where
  "isSafeRelativeUtf8Path p =
     (p \<noteq> [] \<and> \<not> has_drive (hd p) \<and> list_all (\<lambda>c. c \<noteq> [] \<and> c \<noteq> wide ''.'' \<and> c \<noteq> wide ''..'') p)"

definition is_sha256_text :: "wstring \<Rightarrow> bool" where
  "is_sha256_text h = (length h = 64 \<and>
     list_all (\<lambda>x. 48 \<le> x \<and> x \<le> 57 \<or> 65 \<le> x \<and> x \<le> 70 \<or> 97 \<le> x \<and> x \<le> 102) h)"

definition readMirrorManifest :: "history_state option \<Rightarrow> history_state option" where
  "readMirrorManifest json =
     (case json of
        None \<Rightarrow> None
      | Some m \<Rightarrow>
          if \<not> list_all isSafeRelativeUtf8Path (hs_directories m) then None
          else if \<not> list_all (\<lambda>(p, f). isSafeRelativeUtf8Path p \<and> is_sha256_text (hf_sha256 f)) (hs_files m) then None
          else Some m)"

section \<open>The plan\<close>

datatype plan_source = CurrentData | ObjectStore | MissingData

record plan_entry =
  pe_path :: path
  pe_size :: nat
  pe_sha256 :: wstring
  pe_source :: plan_source

definition resolveManifestFile :: "backup_env \<Rightarrow> copies \<Rightarrow> path \<Rightarrow> wstring \<Rightarrow> plan_source" where
  "resolveManifestFile vol = (\<lambda>(data, objects) p h.
     if dk_find vol objects (objectPath p h) \<noteq> None then ObjectStore
     else if is_file (dk_find vol data p) then CurrentData
     else MissingData)"

definition pathAllowed :: "path list \<Rightarrow> path \<Rightarrow> bool" where
  "pathAllowed path_filter p = (path_filter = [] \<or> p \<in> set path_filter)"

definition plan :: "backup_env \<Rightarrow> copies \<Rightarrow> history_state \<Rightarrow> path list \<Rightarrow> plan_entry list" where
  "plan vol copies m path_filter =
     map (\<lambda>(p, f). \<lparr>pe_path = p, pe_size = hf_size f, pe_sha256 = hf_sha256 f, pe_source = resolveManifestFile vol copies p (hf_sha256 f)\<rparr>)
       (filter (\<lambda>(p, f). pathAllowed path_filter p) (hs_files m))"

text \<open>What the file of an entry holds.\<close>

definition planned_content :: "backup_env \<Rightarrow> copies \<Rightarrow> plan_entry \<Rightarrow> u8 list option" where
  "planned_content vol = (\<lambda>(data, objects) e.
     case pe_source e of
       ObjectStore \<Rightarrow> dk_find vol objects (objectPath (pe_path e) (pe_sha256 e))
     | CurrentData \<Rightarrow> (case dk_find vol data (pe_path e) of Some (RegularFile c) \<Rightarrow> Some c | _ \<Rightarrow> None)
     | MissingData \<Rightarrow> None)"

section \<open>Verifying and restoring\<close>

datatype restore_op = HashFile | CreateParent | CreateStaging | CreateStagingDir | OpenSource | CreateOutput | CopyBytes
  | RetireDestination | PublishDestination

datatype restore_phase = VerifyPhase | CopyPhase | StagingPhase

record restore_env =
  re_volume :: backup_env
  re_fails :: "restore_op \<Rightarrow> path \<Rightarrow> bool"
  re_cancelled :: "restore_phase \<Rightarrow> nat \<Rightarrow> bool"
  re_written :: "path \<Rightarrow> u8 list \<Rightarrow> u8 list"

datatype restore_error = DestinationRequired | DestinationExists | BadManifest | NothingToRestore | NoData path
  | NoParent | NoStaging | Cancelled | CopyFailed path | HashFailed path | HashMismatch path | CannotRetire | CannotPublish

definition check_hash :: "restore_env \<Rightarrow> plan_entry \<Rightarrow> u8 list option \<Rightarrow> restore_error option" where
  "check_hash env e content =
     (case content of
        None \<Rightarrow> Some (HashFailed (pe_path e))
      | Some c \<Rightarrow>
          if re_fails env HashFile (pe_path e) then Some (HashFailed (pe_path e))
          else if length c \<noteq> pe_size e \<or> be_sha (re_volume env) c \<noteq> pe_sha256 e then Some (HashMismatch (pe_path e))
          else None)"

fun verify_entries :: "restore_env \<Rightarrow> copies \<Rightarrow> nat \<Rightarrow> plan_entry list \<Rightarrow> restore_error option" where
  "verify_entries env copies k [] = None"
| "verify_entries env copies k (e # entries) =
     (if re_cancelled env VerifyPhase k then Some Cancelled
      else if pe_source e = MissingData then Some (NoData (pe_path e))
      else case check_hash env e (planned_content (re_volume env) copies e) of
          Some err \<Rightarrow> Some err
        | None \<Rightarrow> verify_entries env copies (Suc k) entries)"

definition verify :: "restore_env \<Rightarrow> copies \<Rightarrow> history_state option \<Rightarrow> path list \<Rightarrow> restore_error option" where
  "verify env copies json path_filter =
     (case readMirrorManifest json of
        None \<Rightarrow> Some BadManifest
      | Some m \<Rightarrow> verify_entries env copies 0 (plan (re_volume env) copies m path_filter))"

definition copyFileBinary :: "restore_env \<Rightarrow> u8 list option \<Rightarrow> path \<Rightarrow> entry tree \<Rightarrow> entry tree option" where
  "copyFileBinary env content p staging =
     (case (if re_fails env CreateStagingDir p then None else create_dirs (re_volume env) (butlast p) staging) of
        None \<Rightarrow> None
      | Some staging \<Rightarrow>
          (case content of
             None \<Rightarrow> None
           | Some c \<Rightarrow>
               if re_fails env OpenSource p then None
               else if re_fails env CreateOutput p \<or> dk_find (re_volume env) staging p = Some Directory then None
               else if re_fails env CopyBytes p then None
               else Some (dk_put (re_volume env) p (RegularFile (re_written env p c)) staging)))"

fun copy_entries :: "restore_env \<Rightarrow> copies \<Rightarrow> nat \<Rightarrow> plan_entry list \<Rightarrow> entry tree \<Rightarrow> restore_error + entry tree" where
  "copy_entries env copies k [] staging = Inr staging"
| "copy_entries env copies k (e # entries) staging =
     (if re_cancelled env CopyPhase k then Inl Cancelled
      else case copyFileBinary env (planned_content (re_volume env) copies e) (pe_path e) staging of
          None \<Rightarrow> Inl (CopyFailed (pe_path e))
        | Some staging \<Rightarrow> copy_entries env copies (Suc k) entries staging)"

text \<open>The empty directories; a failure is not looked at.\<close>

definition restore_directories :: "restore_env \<Rightarrow> history_state option \<Rightarrow> path list \<Rightarrow> entry tree \<Rightarrow> entry tree" where
  "restore_directories env json path_filter staging =
     (case readMirrorManifest json of
        None \<Rightarrow> staging
      | Some m \<Rightarrow>
          fold (\<lambda>d staging.
              if path_filter \<noteq> [] \<or> re_fails env CreateStagingDir d then staging
              else case create_dirs (re_volume env) d staging of None \<Rightarrow> staging | Some s \<Rightarrow> s)
            (hs_directories m) staging)"

fun verify_staging :: "restore_env \<Rightarrow> nat \<Rightarrow> plan_entry list \<Rightarrow> entry tree \<Rightarrow> restore_error option" where
  "verify_staging env k [] staging = None"
| "verify_staging env k (e # entries) staging =
     (if re_cancelled env StagingPhase k then Some Cancelled
      else case check_hash env e (case dk_find (re_volume env) staging (pe_path e) of Some (RegularFile c) \<Rightarrow> Some c | _ \<Rightarrow> None) of
          Some err \<Rightarrow> Some err
        | None \<Rightarrow> verify_staging env (Suc k) entries staging)"

text \<open>The destination and what has been moved aside, the latest first.\<close>

record destination =
  ds_tree :: "entry tree option"
  ds_retired :: "entry tree list"

definition publish_restored :: "restore_env \<Rightarrow> entry tree \<Rightarrow> destination \<Rightarrow> restore_error option \<times> destination" where
  "publish_restored env staging ds =
     (case ds_tree ds of
        Some old \<Rightarrow>
          if re_fails env RetireDestination [] then (Some CannotRetire, ds)
          else let ds = \<lparr>ds_tree = None, ds_retired = old # ds_retired ds\<rparr>
            in if re_fails env PublishDestination [] then (Some CannotPublish, ds) else (None, ds\<lparr>ds_tree := Some staging\<rparr>)
      | None \<Rightarrow> if re_fails env PublishDestination [] then (Some CannotPublish, ds) else (None, ds\<lparr>ds_tree := Some staging\<rparr>))"

record restore_request =
  rq_destination :: wstring
  rq_overwrite :: bool
  rq_path_filter :: "path list"

definition stage_files :: "restore_env \<Rightarrow> copies \<Rightarrow> history_state option \<Rightarrow> path list \<Rightarrow> plan_entry list \<Rightarrow> restore_error + entry tree" where
  "stage_files env copies json_again path_filter entries =
     (case copy_entries env copies 0 entries [] of
        Inl err \<Rightarrow> Inl err
      | Inr staging \<Rightarrow>
          let staging = restore_directories env json_again path_filter staging
          in case verify_staging env 0 entries staging of Some err \<Rightarrow> Inl err | None \<Rightarrow> Inr staging)"

text \<open>The manifest is read for the plan and again for the directories.\<close>

definition restore ::
  "restore_env \<Rightarrow> copies \<Rightarrow> history_state option \<Rightarrow> history_state option \<Rightarrow> restore_request \<Rightarrow> destination \<Rightarrow>
   restore_error option \<times> destination" where
  "restore env copies json json_again rq ds =
     (if rq_destination rq = [] then (Some DestinationRequired, ds)
      else if ds_tree ds \<noteq> None \<and> \<not> rq_overwrite rq then (Some DestinationExists, ds)
      else case readMirrorManifest json of
          None \<Rightarrow> (Some BadManifest, ds)
        | Some m \<Rightarrow>
            let entries = plan (re_volume env) copies m (rq_path_filter rq)
            in if entries = [] then (Some NothingToRestore, ds)
               else case find (\<lambda>e. pe_source e = MissingData) entries of
                   Some e \<Rightarrow> (Some (NoData (pe_path e)), ds)
                 | None \<Rightarrow>
                     if re_fails env CreateParent [] then (Some NoParent, ds)
                     else if re_fails env CreateStaging [] then (Some NoStaging, ds)
                     else case stage_files env copies json_again (rq_path_filter rq) entries of
                         Inl err \<Rightarrow> (Some err, ds)
                       | Inr staging \<Rightarrow> publish_restored env staging ds)"

section \<open>What a restore leaves\<close>

lemma copyFileBinary_effect:
  assumes "copyFileBinary env content p staging = Some staging'"
  shows "dk_find (re_volume env) staging' q = Some (RegularFile c) \<Longrightarrow>
    same_name (re_volume env) p q \<or> dk_find (re_volume env) staging q = Some (RegularFile c)"
  using assms by (auto simp: copyFileBinary_def dk_find_put create_dirs_keeps(1) split: option.splits if_splits)

lemma copy_entries_effect:
  "copy_entries env copies k entries staging = Inr staging' \<Longrightarrow> dk_find (re_volume env) staging' q = Some (RegularFile c) \<Longrightarrow>
     (\<exists>e \<in> set entries. same_name (re_volume env) (pe_path e) q) \<or> dk_find (re_volume env) staging q = Some (RegularFile c)"
proof (induction entries arbitrary: k staging)
  case (Cons e entries)
  from Cons.prems(1) obtain s where s: "copyFileBinary env (planned_content (re_volume env) copies e) (pe_path e) staging = Some s"
    "copy_entries env copies (Suc k) entries s = Inr staging'"
    by (auto split: if_splits option.splits)
  from Cons.IH [OF s(2) Cons.prems(2)] copyFileBinary_effect [OF s(1)] show ?case by auto
qed simp

lemma restore_directories_keeps:
  "dk_find (re_volume env) (restore_directories env json path_filter staging) p = Some (RegularFile c) \<longleftrightarrow>
     dk_find (re_volume env) staging p = Some (RegularFile c)"
proof -
  have "dk_find (re_volume env) (fold (\<lambda>d staging. if path_filter \<noteq> [] \<or> re_fails env CreateStagingDir d then staging
      else case create_dirs (re_volume env) d staging of None \<Rightarrow> staging | Some s \<Rightarrow> s) ds staging) p = Some (RegularFile c) \<longleftrightarrow>
    dk_find (re_volume env) staging p = Some (RegularFile c)" for ds
    by (induction ds arbitrary: staging) (auto simp: create_dirs_keeps(1) split: option.splits)
  then show ?thesis by (simp add: restore_directories_def split: option.splits)
qed

lemma verify_staging_effect:
  "verify_staging env k entries staging = None \<Longrightarrow> e \<in> set entries \<Longrightarrow>
     \<exists>c. dk_find (re_volume env) staging (pe_path e) = Some (RegularFile c) \<and> length c = pe_size e \<and> be_sha (re_volume env) c = pe_sha256 e"
  by (induction env k entries staging rule: verify_staging.induct)
    (auto simp: check_hash_def split: if_splits option.splits entry.splits)

text \<open>The files of a plan are those of the manifest, with what it says of them.\<close>

lemma plan_mem:
  "e \<in> set (plan vol copies m path_filter) \<longleftrightarrow> (\<exists>p f. (p, f) \<in> set (hs_files m) \<and> pathAllowed path_filter p \<and>
     e = \<lparr>pe_path = p, pe_size = hf_size f, pe_sha256 = hf_sha256 f, pe_source = resolveManifestFile vol copies p (hf_sha256 f)\<rparr>)"
  by (auto simp: plan_def image_iff)

lemma stage_files_effect:
  assumes "stage_files env copies json_again path_filter entries = Inr staging"
  shows "e \<in> set entries \<Longrightarrow> \<exists>c. dk_find (re_volume env) staging (pe_path e) = Some (RegularFile c) \<and>
      length c = pe_size e \<and> be_sha (re_volume env) c = pe_sha256 e"
    and "dk_find (re_volume env) staging q = Some (RegularFile c) \<Longrightarrow> \<exists>e \<in> set entries. same_name (re_volume env) (pe_path e) q"
proof -
  from assms obtain s where s: "copy_entries env copies 0 entries [] = Inr s"
    "staging = restore_directories env json_again path_filter s" "verify_staging env 0 entries staging = None"
    by (auto simp: stage_files_def Let_def split: sum.splits option.splits)
  show "e \<in> set entries \<Longrightarrow> \<exists>c. dk_find (re_volume env) staging (pe_path e) = Some (RegularFile c) \<and>
      length c = pe_size e \<and> be_sha (re_volume env) c = pe_sha256 e"
    by (rule verify_staging_effect [OF s(3)])
  show "dk_find (re_volume env) staging q = Some (RegularFile c) \<Longrightarrow> \<exists>e \<in> set entries. same_name (re_volume env) (pe_path e) q"
    using copy_entries_effect [OF s(1), of q c] by (simp add: s(2) restore_directories_keeps)
qed

lemma restore_cases:
  assumes "restore env copies json json_again rq ds = (err, ds')"
  obtains (refused) "ds' = ds" "err \<noteq> None"
  | (staged) m staging where "readMirrorManifest json = Some m"
      "stage_files env copies json_again (rq_path_filter rq) (plan (re_volume env) copies m (rq_path_filter rq)) = Inr staging"
      "publish_restored env staging ds = (err, ds')"
  using assms by (auto simp: restore_def Let_def split: if_splits option.splits sum.splits)

text \<open>The destination is the point: these files, each with the size and hash the manifest has.\<close>

definition restored_exactly :: "backup_env \<Rightarrow> history_state \<Rightarrow> path list \<Rightarrow> entry tree \<Rightarrow> bool" where
  "restored_exactly vol m path_filter tree \<longleftrightarrow>
     (\<forall>(p, f) \<in> set (hs_files m). pathAllowed path_filter p \<longrightarrow>
        (\<exists>c. dk_find vol tree p = Some (RegularFile c) \<and> length c = hf_size f \<and> be_sha vol c = hf_sha256 f)) \<and>
     (\<forall>q c. dk_find vol tree q = Some (RegularFile c) \<longrightarrow>
        (\<exists>(p, f) \<in> set (hs_files m). pathAllowed path_filter p \<and> same_name vol p q))"

lemma staged_exactly:
  assumes "stage_files env copies json_again path_filter (plan (re_volume env) copies m path_filter) = Inr staging"
  shows "restored_exactly (re_volume env) m path_filter staging"
  unfolding restored_exactly_def
proof (intro conjI allI impI ballI, clarify)
  fix p f
  assume "(p, f) \<in> set (hs_files m)" "pathAllowed path_filter p"
  then have "\<lparr>pe_path = p, pe_size = hf_size f, pe_sha256 = hf_sha256 f,
      pe_source = resolveManifestFile (re_volume env) copies p (hf_sha256 f)\<rparr> \<in> set (plan (re_volume env) copies m path_filter)"
    unfolding plan_mem by blast
  from stage_files_effect(1) [OF assms this]
  show "\<exists>c. dk_find (re_volume env) staging p = Some (RegularFile c) \<and> length c = hf_size f \<and> be_sha (re_volume env) c = hf_sha256 f" by simp
next
  fix q c
  assume "dk_find (re_volume env) staging q = Some (RegularFile c)"
  from stage_files_effect(2) [OF assms this]
  show "\<exists>(p, f) \<in> set (hs_files m). pathAllowed path_filter p \<and> same_name (re_volume env) p q"
    by (fastforce simp: plan_mem)
qed

text \<open>What stood at the destination is there, or has been moved aside.\<close>

definition nothing_lost :: "destination \<Rightarrow> destination \<Rightarrow> bool" where
  "nothing_lost ds ds' \<longleftrightarrow> ds' = ds \<or> ds_retired ds' = (case ds_tree ds of None \<Rightarrow> [] | Some old \<Rightarrow> [old]) @ ds_retired ds"

lemma publish_restored_effect:
  "publish_restored env staging ds = (err, ds') \<Longrightarrow> nothing_lost ds ds' \<and>
     (err = None \<longrightarrow> ds_tree ds' = Some staging) \<and> (err \<noteq> None \<longrightarrow> ds' = ds \<or> err = Some CannotPublish \<and> ds_tree ds' = None)"
  by (auto simp: publish_restored_def nothing_lost_def Let_def split: option.splits if_splits)

section \<open>A restore of a backup in order\<close>

text \<open>No file is in the way of another.\<close>

definition tree_shaped :: "history_state \<Rightarrow> bool" where
  "tree_shaped m \<longleftrightarrow> (\<forall>(p, f) \<in> set (hs_files m). \<forall>(q, g) \<in> set (hs_files m). \<forall>n < length q. take n q \<noteq> p)"

text \<open>Nothing fails, nobody cancels, and the disk holds what was written.\<close>

definition undisturbed :: "restore_env \<Rightarrow> bool" where
  "undisturbed env \<longleftrightarrow> (\<forall>op p. \<not> re_fails env op p) \<and> (\<forall>ph k. \<not> re_cancelled env ph k) \<and> (\<forall>p c. re_written env p c = c)"

text \<open>The staging directory with the files copied so far.\<close>

definition staging_ok :: "backup_env \<Rightarrow> copies \<Rightarrow> plan_entry list \<Rightarrow> entry tree \<Rightarrow> bool" where
  "staging_ok vol copies copied staging \<longleftrightarrow>
     (\<forall>q c. dk_find vol staging q = Some (RegularFile c) \<longrightarrow> (\<exists>e \<in> set copied. same_name vol (pe_path e) q)) \<and>
     (\<forall>e \<in> set copied. \<exists>c. planned_content vol copies e = Some c \<and> dk_find vol staging (pe_path e) = Some (RegularFile c)) \<and>
     (\<forall>q. dk_find vol staging q = Some Directory \<longrightarrow> (\<exists>e \<in> set copied. \<exists>n < length (pe_path e). same_name vol (take n (pe_path e)) q))"

text \<open>What the entries of such a plan are like.\<close>

definition entries_ok :: "backup_env \<Rightarrow> wstring set \<Rightarrow> copies \<Rightarrow> plan_entry list \<Rightarrow> bool" where
  "entries_ok vol C copies entries \<longleftrightarrow> told_apart vol C \<and> distinct (map pe_path entries) \<and>
     (\<forall>e \<in> set entries. pe_path e \<noteq> [] \<and> set (pe_path e) \<subseteq> C \<and> planned_content vol copies e \<noteq> None) \<and>
     (\<forall>e \<in> set entries. \<forall>e' \<in> set entries. \<forall>n < length (pe_path e'). take n (pe_path e') \<noteq> pe_path e)"

lemma make_dirs_new:
  "dk_find vol (fold (make_dir vol) ds m) q = Some Directory \<Longrightarrow> dk_find vol m q = Some Directory \<or> (\<exists>d \<in> set ds. same_name vol d q)"
  by (induction ds arbitrary: m) (fastforce simp: make_dir_keeps split: if_splits)+

lemma create_dirs_new:
  assumes "create_dirs vol d m = Some m'" and "dk_find vol m' q = Some Directory"
  shows "dk_find vol m q = Some Directory \<or> (\<exists>n \<in> {1..length d}. same_name vol (take n d) q)"
proof -
  from assms(1) have "m' = fold (make_dir vol) (map (\<lambda>n. take n d) [1..<length d + 1]) m"
    by (auto simp: create_dirs_def Let_def make_dir_def [abs_def] split: if_splits)
  with make_dirs_new [of vol "map (\<lambda>n. take n d) [1..<length d + 1]" m q] assms(2) show ?thesis by fastforce
qed

lemma create_dirs_succeeds:
  "(\<And>n c. 1 \<le> n \<Longrightarrow> n \<le> length d \<Longrightarrow> dk_find vol m (take n d) \<noteq> Some (RegularFile c)) \<Longrightarrow> \<exists>m'. create_dirs vol d m = Some m'"
  by (fastforce simp: create_dirs_def Let_def list_ex_iff is_file_def split: option.splits entry.splits)

lemma copy_step:
  assumes u: "undisturbed env" and e: "entries_ok (re_volume env) C copies (copied @ e # rest)"
    and s: "staging_ok (re_volume env) copies copied staging"
  shows "\<exists>s. copyFileBinary env (planned_content (re_volume env) copies e) (pe_path e) staging = Some s \<and>
    staging_ok (re_volume env) copies (copied @ [e]) s"
proof -
  let ?vol = "re_volume env" and ?p = "pe_path e"
  have same: "same_name ?vol (take n (pe_path x)) (take k (pe_path y)) \<longleftrightarrow> take n (pe_path x) = take k (pe_path y)"
    if "x \<in> set (copied @ e # rest)" "y \<in> set (copied @ e # rest)" for x y n k
  proof (rule same_name_eq)
    show "told_apart ?vol C" using e by (simp add: entries_ok_def)
    have C: "set (pe_path z) \<subseteq> C" if "z \<in> set (copied @ e # rest)" for z using e that unfolding entries_ok_def by blast
    show "set (take n (pe_path x)) \<subseteq> C" "set (take k (pe_path y)) \<subseteq> C"
      using C [OF that(1)] C [OF that(2)] by (meson order_trans set_take_subset)+
  qed
  have free: "take n (pe_path y) \<noteq> pe_path x" if "x \<in> set (copied @ e # rest)" "y \<in> set (copied @ e # rest)" "n < length (pe_path y)" for x y n
    using e that unfolding entries_ok_def by blast
  have "?p \<notin> pe_path ` set copied" using e by (simp add: entries_ok_def)
  then have other: "pe_path x \<noteq> ?p" if "x \<in> set copied" for x using that by (metis imageI)
  obtain c where c: "planned_content ?vol copies e = Some c" using e by (auto simp: entries_ok_def)
  have p: "?p \<noteq> []" using e by (simp add: entries_ok_def)
  have "dk_find ?vol staging (take n (butlast ?p)) \<noteq> Some (RegularFile c)" if n: "1 \<le> n" "n \<le> length (butlast ?p)" for n c
  proof
    assume "dk_find ?vol staging (take n (butlast ?p)) = Some (RegularFile c)"
    then obtain x where x: "x \<in> set copied" "same_name ?vol (pe_path x) (take n (butlast ?p))" using s by (auto simp: staging_ok_def)
    have "take n (butlast ?p) = take n ?p" "n < length ?p" using n(2) p by (simp_all add: butlast_conv_take) (cases ?p; simp)
    with x same [of x e "length (pe_path x)" n] free [of x e n] n p show False by simp
  qed
  from create_dirs_succeeds [OF this] obtain s1 where s1: "create_dirs ?vol (butlast ?p) staging = Some s1" by blast
  have dir: "dk_find ?vol s1 q = Some Directory \<Longrightarrow>
      \<exists>x \<in> set (copied @ [e]). \<exists>n < length (pe_path x). same_name ?vol (take n (pe_path x)) q" for q
  proof -
    assume "dk_find ?vol s1 q = Some Directory"
    from create_dirs_new [OF s1 this] consider "dk_find ?vol staging q = Some Directory"
      | n where "1 \<le> n" "n \<le> length (butlast ?p)" "same_name ?vol (take n (butlast ?p)) q" by fastforce
    then show ?thesis
    proof cases
      case 1
      with s show ?thesis by (auto simp: staging_ok_def)
    next
      case 2
      then have "take n (butlast ?p) = take n ?p" "n < length ?p" using p by (simp_all add: butlast_conv_take)
      with 2(3) show ?thesis by auto
    qed
  qed
  have nd: "dk_find ?vol s1 ?p \<noteq> Some Directory"
  proof
    assume "dk_find ?vol s1 ?p = Some Directory"
    from dir [OF this] obtain x n where x: "x \<in> set (copied @ [e])" "n < length (pe_path x)" "same_name ?vol (take n (pe_path x)) ?p" by blast
    then have "x \<in> set (copied @ e # rest)" by auto
    with x same [of x e n "length ?p"] free [of e x n] show False by simp
  qed
  let ?s = "dk_put ?vol ?p (RegularFile c) s1"
  have "copyFileBinary env (planned_content ?vol copies e) ?p staging = Some ?s"
    using u nd by (simp add: copyFileBinary_def undisturbed_def s1 c)
  moreover have "staging_ok ?vol copies (copied @ [e]) ?s"
    unfolding staging_ok_def
  proof (intro conjI allI impI ballI)
    fix q c'
    assume "dk_find ?vol ?s q = Some (RegularFile c')"
    then show "\<exists>x \<in> set (copied @ [e]). same_name ?vol (pe_path x) q"
      using s by (auto simp: dk_find_put create_dirs_keeps(1) [OF s1] staging_ok_def split: if_splits)
  next
    fix x
    assume x: "x \<in> set (copied @ [e])"
    show "\<exists>c. planned_content ?vol copies x = Some c \<and> dk_find ?vol ?s (pe_path x) = Some (RegularFile c)"
    proof (cases "x = e")
      case True
      then show ?thesis by (simp add: c dk_find_put same_name_refl)
    next
      case False
      with x have "x \<in> set copied" by simp
      moreover from this have "\<not> same_name ?vol ?p (pe_path x)"
        using same [of e x "length ?p" "length (pe_path x)"] other [of x] by auto
      ultimately show ?thesis using s by (simp add: staging_ok_def dk_find_put create_dirs_keeps(1) [OF s1])
    qed
  next
    fix q
    assume "dk_find ?vol ?s q = Some Directory"
    then have "dk_find ?vol s1 q = Some Directory" by (auto simp: dk_find_put split: if_splits)
    then show "\<exists>x \<in> set (copied @ [e]). \<exists>n < length (pe_path x). same_name ?vol (take n (pe_path x)) q" by (rule dir)
  qed
  ultimately show ?thesis by blast
qed

lemma copy_all:
  "undisturbed env \<Longrightarrow> entries_ok (re_volume env) C copies (copied @ entries) \<Longrightarrow> staging_ok (re_volume env) copies copied staging \<Longrightarrow>
     \<exists>s. copy_entries env copies k entries staging = Inr s \<and> staging_ok (re_volume env) copies (copied @ entries) s"
proof (induction entries arbitrary: copied staging k)
  case Nil
  then show ?case by simp
next
  case (Cons e entries)
  from copy_step [OF Cons.prems] obtain s where s: "copyFileBinary env (planned_content (re_volume env) copies e) (pe_path e) staging = Some s"
    "staging_ok (re_volume env) copies (copied @ [e]) s" by blast
  have "entries_ok (re_volume env) C copies ((copied @ [e]) @ entries)" using Cons.prems(2) by simp
  from Cons.IH [OF Cons.prems(1) this s(2), of "Suc k"] s(1) Cons.prems(1) show ?case by (simp add: undisturbed_def)
qed

lemma verify_staging_ok:
  "undisturbed env \<Longrightarrow> \<forall>e \<in> set entries. \<exists>c. dk_find (re_volume env) staging (pe_path e) = Some (RegularFile c) \<and>
      length c = pe_size e \<and> be_sha (re_volume env) c = pe_sha256 e \<Longrightarrow> verify_staging env k entries staging = None"
  by (induction env k entries staging rule: verify_staging.induct) (auto simp: check_hash_def undisturbed_def)

lemma verify_entries_ok:
  "undisturbed env \<Longrightarrow> \<forall>e \<in> set entries. pe_source e \<noteq> MissingData \<and> (\<exists>c. planned_content (re_volume env) copies e = Some c \<and>
      length c = pe_size e \<and> be_sha (re_volume env) c = pe_sha256 e) \<Longrightarrow> verify_entries env copies k entries = None"
  by (induction env copies k entries rule: verify_entries.induct) (auto simp: check_hash_def undisturbed_def)

text \<open>A kept version is found, with its hash.\<close>

lemma planned_kept:
  assumes v: "sound_volume vol C" and k: "copies_ok vol C copies" and p: "set p \<subseteq> C" "h \<in> C" and kept: "kept vol copies p h"
  shows "resolveManifestFile vol copies p h \<noteq> MissingData"
    and "\<exists>c. planned_content vol copies \<lparr>pe_path = p, pe_size = n, pe_sha256 = h, pe_source = resolveManifestFile vol copies p h\<rparr> = Some c \<and> be_sha vol c = h"
proof -
  obtain data objects where co: "copies = (data, objects)" by (rule prod.exhaust)
  have object: "be_sha vol c = h" if o: "dk_find vol objects (objectPath p h) = Some c" for c
  proof -
    from dk_find_mem [OF o] obtain q where q: "(q, c) \<in> set objects" "same_name vol q (objectPath p h)" by blast
    have "set q \<subseteq> C" using k q(1) by (fastforce simp: copies_ok_def names_in_def co)
    moreover have "set (objectPath p h) \<subseteq> C" using p by simp
    ultimately have "q = objectPath p h" using q(2) same_name_eq v by (auto simp: sound_volume_def)
    with k q(1) show ?thesis by (auto simp: copies_ok_def co)
  qed
  from kept consider c where "dk_find vol objects (objectPath p h) = Some c"
    | c where "dk_find vol objects (objectPath p h) = None" "dk_find vol data p = Some (RegularFile c)" "be_sha vol c = h"
    by (auto simp: kept_def co)
  note found = this
  show "resolveManifestFile vol copies p h \<noteq> MissingData"
    by (rule found) (simp_all add: resolveManifestFile_def co is_file_def)
  show "\<exists>c. planned_content vol copies \<lparr>pe_path = p, pe_size = n, pe_sha256 = h, pe_source = resolveManifestFile vol copies p h\<rparr> = Some c \<and> be_sha vol c = h"
    by (rule found) (simp_all add: planned_content_def resolveManifestFile_def co is_file_def object)
qed

text \<open>A manifest all of whose files are there.\<close>

definition point_intact :: "backup_env \<Rightarrow> wstring set \<Rightarrow> copies \<Rightarrow> history_state \<Rightarrow> bool" where
  "point_intact vol C copies m \<longleftrightarrow> sound_volume vol C \<and> copies_ok vol C copies \<and> files_in C (hs_files m) \<and> tree_shaped m \<and>
     readMirrorManifest (Some m) = Some m \<and>
     (\<forall>(p, f) \<in> set (hs_files m). kept vol copies p (hf_sha256 f) \<and> (\<forall>c. be_sha vol c = hf_sha256 f \<longrightarrow> length c = hf_size f))"

lemma plan_ok:
  assumes "point_intact vol C copies m"
  shows "entries_ok vol C copies (plan vol copies m path_filter)"
    and "e \<in> set (plan vol copies m path_filter) \<Longrightarrow> pe_source e \<noteq> MissingData \<and>
      (\<exists>c. planned_content vol copies e = Some c \<and> length c = pe_size e \<and> be_sha vol c = pe_sha256 e)"
proof -
  have um: "um_ok (hs_files m)" and paths: "\<And>p f. (p, f) \<in> set (hs_files m) \<Longrightarrow> set p \<subseteq> C \<and> hf_sha256 f \<in> C"
    using assms by (auto simp: point_intact_def files_in_def um_find_Some_iff)
  have ne: "p \<noteq> []" if "(p, f) \<in> set (hs_files m)" for p f
    using assms that by (auto simp: point_intact_def readMirrorManifest_def list_all_iff isSafeRelativeUtf8Path_def split: if_splits)
  show right: "pe_source e \<noteq> MissingData \<and> (\<exists>c. planned_content vol copies e = Some c \<and> length c = pe_size e \<and> be_sha vol c = pe_sha256 e)"
    if "e \<in> set (plan vol copies m path_filter)" for e
  proof -
    from that obtain p f where e: "(p, f) \<in> set (hs_files m)" and pe: "e = \<lparr>pe_path = p, pe_size = hf_size f, pe_sha256 = hf_sha256 f,
        pe_source = resolveManifestFile vol copies p (hf_sha256 f)\<rparr>" unfolding plan_mem by blast
    have k: "sound_volume vol C" "copies_ok vol C copies" "kept vol copies p (hf_sha256 f)" "\<And>c. be_sha vol c = hf_sha256 f \<Longrightarrow> length c = hf_size f"
      using assms e by (auto simp: point_intact_def)
    from planned_kept [OF k(1,2) conjunct1 [OF paths [OF e]] conjunct2 [OF paths [OF e]] k(3)] k(4)
    show ?thesis unfolding pe by auto
  qed
  have "distinct (map fst (filter (\<lambda>(p, f). pathAllowed path_filter p) (hs_files m)))"
    using um by (simp add: um_ok_def distinct_map_filter)
  then have "distinct (map pe_path (plan vol copies m path_filter))"
    by (simp add: plan_def comp_def case_prod_beta)
  moreover have "told_apart vol C" using assms by (simp add: point_intact_def sound_volume_def)
  moreover have "take n (pe_path e') \<noteq> pe_path e" if x: "e \<in> set (plan vol copies m path_filter)" "e' \<in> set (plan vol copies m path_filter)"
      "n < length (pe_path e')" for e e' n
  proof -
    from x(1,2) obtain p f q g where "(p, f) \<in> set (hs_files m)" "(q, g) \<in> set (hs_files m)" "pe_path e = p" "pe_path e' = q"
      unfolding plan_mem by auto
    moreover have "tree_shaped m" using assms by (simp add: point_intact_def)
    ultimately show ?thesis using x(3) unfolding tree_shaped_def by fastforce
  qed
  moreover have "pe_path e \<noteq> [] \<and> set (pe_path e) \<subseteq> C \<and> planned_content vol copies e \<noteq> None"
    if x: "e \<in> set (plan vol copies m path_filter)" for e
  proof -
    from x obtain p f where "(p, f) \<in> set (hs_files m)" "pe_path e = p" unfolding plan_mem by auto
    with ne paths right [OF x] show ?thesis by auto
  qed
  ultimately show "entries_ok vol C copies (plan vol copies m path_filter)" unfolding entries_ok_def by blast
qed

lemma stage_intact:
  assumes u: "undisturbed env" and m: "point_intact (re_volume env) C copies m"
  shows "\<exists>staging. stage_files env copies again path_filter (plan (re_volume env) copies m path_filter) = Inr staging"
proof -
  let ?vol = "re_volume env" and ?entries = "plan (re_volume env) copies m path_filter"
  have "staging_ok ?vol copies [] []" by (simp add: staging_ok_def)
  from copy_all [OF u _ this] plan_ok(1) [OF m] obtain s where s: "copy_entries env copies 0 ?entries [] = Inr s" "staging_ok ?vol copies ?entries s"
    by fastforce
  have "verify_staging env 0 ?entries (restore_directories env again path_filter s) = None"
  proof (rule verify_staging_ok [OF u], rule ballI)
    fix e
    assume "e \<in> set ?entries"
    with plan_ok(2) [OF m this] s(2) show "\<exists>c. dk_find ?vol (restore_directories env again path_filter s) (pe_path e) = Some (RegularFile c) \<and>
        length c = pe_size e \<and> be_sha ?vol c = pe_sha256 e"
      by (fastforce simp: staging_ok_def restore_directories_keeps)
  qed
  with s(1) show ?thesis by (simp add: stage_files_def Let_def)
qed

end
