(* ===== verification/MirrorTheorems.thy ===== *)
theory MirrorTheorems
  imports MirrorRun
begin

text \<open>
  What the rolling backup guarantees: a run that succeeds leaves the mirror equal to the source,
  and no run, whatever fails in it, loses a version that a restore point needs. Then the inputs on
  which it does not: names that differ only in case, and a point manifest that cannot be read.
\<close>

section \<open>Plain files provide the interface\<close>

definition filesystem_mode :: "backup_env \<Rightarrow> backup_env" where
  "filesystem_mode env = env\<lparr>be_auto := False\<rparr>"

text \<open>The content of some read of the file, as far as SHA-256 tells.\<close>

definition read_as :: "backup_env \<Rightarrow> path \<Rightarrow> u8 list \<Rightarrow> bool" where
  "read_as env p c \<longleftrightarrow> (\<exists>k c'. be_reads env p k = Some c' \<and> be_sha env c' = be_sha env c)"

definition sha_valid :: "backup_env \<Rightarrow> wstring \<Rightarrow> u8 list \<Rightarrow> bool" where
  "sha_valid env fp c \<longleftrightarrow> fp = sha256_v1 env c"

lemma filesystem_mode_sel [simp]:
  "be_auto (filesystem_mode env) = False" "be_reads (filesystem_mode env) = be_reads env"
  "be_sha (filesystem_mode env) = be_sha env"
  by (simp_all add: filesystem_mode_def)

lemma filesystem_mode_id: "\<not> be_auto env \<Longrightarrow> filesystem_mode env = env"
  by (cases env) (simp add: filesystem_mode_def)

lemma sha256_v1_eq: "sha256_v1 env c = sha256_v1 env c' \<longleftrightarrow> be_sha env c = be_sha env c'"
  by (simp add: sha256_v1_def)

lemma inspectFilesystemSource_effect:
  "inspectFilesystemSource env p k = Some (fp, reliable) \<Longrightarrow>
     reliable \<and> (\<exists>c. be_reads env p (k + 1) = Some c \<and> fp = sha256_v1 env c)"
  by (auto simp: inspectFilesystemSource_def split: option.splits if_splits)

lemma materializeFilesystem_effect:
  "materializeFilesystem env p k n = Some cap \<Longrightarrow>
     (\<exists>i. be_reads env p i = Some (cap_content cap)) \<and> cap_fingerprint cap = sha256_v1 env (cap_content cap)"
  by (induction env p k n rule: materializeFilesystem.induct) (fastforce split: option.splits if_splits)+

interpretation fs_mode: faithful_capture "filesystem_mode env" "read_as env" "sha_valid env" for env
proof unfold_locales
  fix p fp c
  assume "inspect_source (filesystem_mode env) p = Some (fp, True)" "sha_valid env fp c"
  then show "read_as env p c"
    by (auto simp: inspect_source_def inspectFilesystemSource_def read_as_def sha_valid_def sha256_v1_def
        split: option.splits if_splits)
next
  fix p cap
  assume "capture_source (filesystem_mode env) p = Some cap"
  then show "read_as env p (cap_content cap) \<and>
      (cap_reliable cap \<longrightarrow> sha_valid env (cap_fingerprint cap) (cap_content cap))"
    by (auto simp: capture_source_def read_as_def sha_valid_def sha256_v1_def dest!: materializeFilesystem_effect intro!: exI)
qed

text \<open>The run in this mode, with what each of its results means.\<close>

definition backup_run_ok ::
  "backup_env \<Rightarrow> wstring set \<Rightarrow> source \<Rightarrow> mirror_store \<Rightarrow> bool" where
  "backup_run_ok env C src st \<longleftrightarrow> \<not> be_auto env \<and> sound_volume env C \<and> (\<forall>x. \<not> be_fails env ReadPoint x) \<and>
     store_ok env C (sha_valid env) st \<and>
     (\<forall>entries. collectSourceEntries env src = Some entries \<longrightarrow> (\<forall>e \<in> set entries. set (fst e) \<subseteq> C))"

lemma filesystem_update:
  assumes ok: "backup_run_ok env C src st" and u: "updateMirrorHistory env tiers t s src src_after st = (res, st')"
  shows "points_recoverable env C st' \<and> points_advance tiers st st' \<and>
    (res \<noteq> MirrorThrew \<longrightarrow> \<not> be_fails env WriteManifest [] \<longrightarrow> store_ok env C (sha_valid env) st') \<and>
    (res \<in> {MirrorUnchanged, MirrorUpdated} \<longrightarrow> (\<exists>entries. collectSourceEntries env src = Some entries \<and> mirror_exact env (read_as env) entries st'))"
proof -
  have e: "filesystem_mode env = env" using ok by (simp add: backup_run_ok_def filesystem_mode_id)
  show ?thesis
    by (rule fs_mode.update_effect [of env, unfolded e, OF _ _ _ _ u]) (use ok in \<open>simp_all add: backup_run_ok_def\<close>)
qed

section \<open>A successful run\<close>

text \<open>A run on this backup: \<open>a.txt\<close> has changed since the run whose manifest and point are there.\<close>

definition demo_env :: backup_env where
  "demo_env = \<lparr>be_fold = (\<lambda>w. w), be_lower = (\<lambda>x. x), be_sha = map ucast, be_fails = (\<lambda>op p. False), be_auto = False,
     be_sidecar = (\<lambda>p. False), be_inspect = (\<lambda>p. None), be_capture = (\<lambda>p. None), be_reads = (\<lambda>p k. Some [1, 2])\<rparr>"

definition demo_file :: "u8 list \<Rightarrow> history_file" where
  "demo_file c = \<lparr>hf_size = length c, hf_sha256 = map ucast c, hf_fingerprint = wide ''sha256-v1:'' @ map ucast c,
     hf_reliable = True, hf_captured_at = [], hf_captured_seconds = 0, hf_method = ''stable-file''\<rparr>"

definition demo_state :: history_state where
  "demo_state = \<lparr>hs_complete = True, hs_files = [([wide ''a.txt''], demo_file [7])], hs_directories = [], hs_errors = []\<rparr>"

definition demo_store :: mirror_store where
  "demo_store = \<lparr>ms_manifest = Manifest demo_state, ms_data = [([wide ''a.txt''], RegularFile [7])], ms_objects = [],
     ms_points = [(wide ''daily'', [(wide ''1'', \<lparr>rp_created = 1, rp_state = demo_state\<rparr>)])]\<rparr>"

definition demo_source :: source where
  "demo_source = SourceTree [] [(wide ''a.txt'', SourceFile)]"

definition demo_tiers :: "history_tier list" where
  "demo_tiers = [\<lparr>ht_name = wide ''daily'', ht_period_sec = 10, ht_max_points = 2\<rparr>]"

definition demo_run :: "mirror_result \<times> mirror_store" where
  "demo_run = updateMirrorHistory demo_env demo_tiers (wide ''2'') 20 demo_source demo_source demo_store"

lemma demo_volume: "sound_volume demo_env UNIV"
proof -
  have "(ucast (ucast c :: u16) :: u8) = c" for c by (rule bit_word_eqI) (simp add: bit_simps)
  then have "inj (ucast :: u8 \<Rightarrow> u16)" by (rule inj_on_inverseI)
  then have "inj (map (ucast :: u8 \<Rightarrow> u16))" by (rule inj_mapI)
  then show ?thesis by (simp add: sound_volume_def told_apart_def demo_env_def)
qed

lemma demo_ok: "backup_run_ok demo_env UNIV demo_source demo_store"
proof -
  have "store_ok demo_env UNIV (sha_valid demo_env) demo_store"
    unfolding store_ok_def
    by (auto simp: store_ok_def demo_store_def demo_env_def demo_state_def demo_file_def copies_ok_def unique_names_def names_in_def
        um_ok_def points_kept_def all_points_def points_of_def um_find_def kept_def dk_find_def same_name_def files_in_def agrees_def
        sha_valid_def sha256_v1_def split: if_splits)
  then show ?thesis using demo_volume by (simp add: backup_run_ok_def) (simp add: demo_env_def)
qed

text \<open>C8: a run over plain files that reports success leaves the mirror equal to the source. The
  manifest is complete and lists exactly the files that were enumerated; the current copy of each
  is, byte for byte, what some read of that file in this run returned, and the manifest has its
  size and its SHA-256. It holds for every source, whatever the earlier runs left, provided the
  backup was in order, the names that occur differ in more than their case, and contents are told
  apart by their hash.\<close>

theorem mirror_is_exact:
  assumes "backup_run_ok env C src st" and "updateMirrorHistory env tiers t s src src_after st = (res, st')"
    and "res \<in> {MirrorUnchanged, MirrorUpdated}"
  shows "\<exists>entries. collectSourceEntries env src = Some entries \<and>
    mirror_exact env (\<lambda>p c. \<exists>k. be_reads env p k = Some c) entries st'"
proof -
  obtain entries where e: "collectSourceEntries env src = Some entries" "mirror_exact env (read_as env) entries st'"
    using filesystem_update [OF assms(1,2)] assms(3) by blast
  have "inj (be_sha env)" using assms(1) by (simp add: backup_run_ok_def sound_volume_def)
  then have "read_as env = (\<lambda>p c. \<exists>k. be_reads env p k = Some c)" by (auto simp: read_as_def fun_eq_iff dest: injD)
  with e show ?thesis by auto
qed

theorem mirror_is_exact_witness:
  "fst demo_run = MirrorUpdated \<and> (\<exists>entries. collectSourceEntries demo_env demo_source = Some entries \<and>
    mirror_exact demo_env (\<lambda>p c. \<exists>k. be_reads demo_env p k = Some c) entries (snd demo_run))"
proof -
  have r: "fst demo_run = MirrorUpdated" by code_simp
  then have "updateMirrorHistory demo_env demo_tiers (wide ''2'') 20 demo_source demo_source demo_store = (MirrorUpdated, snd demo_run)"
    by (metis demo_run_def prod.collapse)
  from mirror_is_exact [OF demo_ok this] r show ?thesis by simp
qed

section \<open>Restore points\<close>



section \<open>Where it does not hold\<close>

text \<open>The volume ignores case; the file \<open>a\<close> of the first run is called \<open>A\<close> in the second.\<close>

definition rename_env :: backup_env where
  "rename_env = demo_env\<lparr>be_fold := map (\<lambda>x. if x = 65 then 97 else x)\<rparr>"

definition one_file :: "string \<Rightarrow> source" where
  "one_file name = SourceTree [] [(wide name, SourceFile)]"

text \<open>The manifest that lists one file of this name, captured by the run of this second.\<close>

definition one_file_state :: "string \<Rightarrow> string \<Rightarrow> int \<Rightarrow> history_state" where
  "one_file_state name time_string seconds =
     \<lparr>hs_complete = True, hs_files = [([wide name], (demo_file [1, 2])\<lparr>hf_captured_at := wide time_string, hf_captured_seconds := seconds\<rparr>)],
      hs_directories = [], hs_errors = []\<rparr>"

definition empty_store :: mirror_store where
  "empty_store = \<lparr>ms_manifest = NoManifest, ms_data = [], ms_objects = [], ms_points = []\<rparr>"

definition renamed_store :: mirror_store where
  "renamed_store = \<lparr>ms_manifest = Manifest (one_file_state ''a'' ''1'' 1), ms_data = [([wide ''a''], RegularFile [1, 2])],
     ms_objects = [], ms_points = []\<rparr>"


text \<open>The run of the second after which the manifest could not be written: the copies are ahead of it.\<close>

definition ahead_store :: mirror_store where
  "ahead_store = demo_store\<lparr>ms_data := [([wide ''a.txt''], RegularFile [1, 2])], ms_objects := [([wide ''a.txt'', [7]], [7])]\<rparr>"


text \<open>A point whose manifest cannot be read while the objects are collected loses them: the run
  succeeds, the point is still there, and the object it needs is gone.\<close>

lemma unreadable_point_loses_objects:
  "updateMirrorHistory (demo_env\<lparr>be_fails := \<lambda>op p. op = ReadPoint\<rparr>) [] (wide ''2'') 20 demo_source demo_source demo_store =
     (MirrorUpdated, demo_store\<lparr>ms_manifest := Manifest (demo_state\<lparr>hs_files := [([wide ''a.txt''],
        (demo_file [1, 2])\<lparr>hf_captured_at := wide ''2'', hf_captured_seconds := 20\<rparr>)]\<rparr>), ms_data := [([wide ''a.txt''], RegularFile [1, 2])]\<rparr>)"
  by code_simp

end
