(* ===== verification/RestoreTheorems.thy ===== *)
theory RestoreTheorems
  imports MirrorRestore MirrorTheorems
begin

text \<open>
  What restoring a point guarantees: a success is the point, exactly; a failure loses nothing of the
  destination; and every point of a backup in order can be restored.
\<close>

section \<open>A restore\<close>

text \<open>The restore of a point with one file into a destination that exists.\<close>

definition zeros :: "u8 list" where
  "zeros = replicate 64 48"

definition zeros_file :: history_file where
  "zeros_file = demo_file zeros"

definition zeros_state :: history_state where
  "zeros_state = demo_state\<lparr>hs_files := [([wide ''d'', wide ''a.txt''], zeros_file)], hs_directories := [[wide ''d'']]\<rparr>"

definition zeros_store :: mirror_store where
  "zeros_store = demo_store\<lparr>ms_manifest := NoManifest, ms_data := [], ms_objects := [([wide ''d'', wide ''a.txt'', map ucast zeros], zeros)],
     ms_points := [(wide ''daily'', [(wide ''1'', \<lparr>rp_created = 1, rp_state = zeros_state\<rparr>)])]\<rparr>"

definition quiet :: restore_env where
  "quiet = \<lparr>re_volume = demo_env, re_fails = \<lambda>op p. False, re_cancelled = \<lambda>ph k. False, re_written = \<lambda>p c. c\<rparr>"

definition replace_it :: restore_request where
  "replace_it = \<lparr>rq_destination = wide ''D'', rq_overwrite = True, rq_path_filter = []\<rparr>"

definition taken :: destination where
  "taken = \<lparr>ds_tree = Some [([wide ''old''], RegularFile [9])], ds_retired = []\<rparr>"

definition zeros_tree :: "entry tree" where
  "zeros_tree = [([wide ''d''], Directory), ([wide ''d'', wide ''a.txt''], RegularFile zeros)]"

lemma zeros_restore:
  "restore quiet (ms_data zeros_store, ms_objects zeros_store) (Some zeros_state) (Some zeros_state) replace_it taken =
     (None, \<lparr>ds_tree = Some zeros_tree, ds_retired = [[([wide ''old''], RegularFile [9])]]\<rparr>)"
  by code_simp

text \<open>C17: a restore that reports success leaves at the destination exactly the point: each file the
  manifest lists and the filter lets through, with its size and its SHA-256, and no other file. It
  does not matter what the copying left on the disk, which may differ from what was written, nor
  whether the backup was in order.\<close>

theorem restore_is_the_point:
  assumes "restore env copies json json_again rq ds = (None, ds')"
  shows "\<exists>m tree. readMirrorManifest json = Some m \<and> ds_tree ds' = Some tree \<and>
    restored_exactly (re_volume env) m (rq_path_filter rq) tree"
  using assms
proof (cases rule: restore_cases)
  case (staged m staging)
  with publish_restored_effect [OF staged(3)] staged_exactly [OF staged(2)] show ?thesis by blast
qed simp

theorem restore_is_the_point_witness:
  "restored_exactly demo_env zeros_state [] zeros_tree"
proof -
  from restore_is_the_point [OF zeros_restore] have "restored_exactly (re_volume quiet) zeros_state (rq_path_filter replace_it) zeros_tree"
    by (auto simp: readMirrorManifest_def split: if_splits)
  then show ?thesis by (simp add: quiet_def replace_it_def)
qed

text \<open>C21: a restore never destroys what stood at its destination. Unless it succeeds, the destination
  is as it was, whatever failed and whenever it was cancelled; the one exception is a staging
  directory that cannot be moved into place, where the old directory has been moved aside already
  and stays there. After a success it has been moved aside as well.\<close>

theorem restore_loses_nothing:
  "restore env copies json json_again rq ds = (err, ds') \<Longrightarrow>
     nothing_lost ds ds' \<and> (err = None \<or> ds' = ds \<or> err = Some CannotPublish \<and> ds_tree ds' = None)"
  by (erule restore_cases) (auto simp: nothing_lost_def dest: publish_restored_effect)

theorem restore_loses_nothing_witness:
  "nothing_lost taken \<lparr>ds_tree = Some zeros_tree, ds_retired = [[([wide ''old''], RegularFile [9])]]\<rparr>"
  using restore_loses_nothing [OF zeros_restore] by simp

section \<open>A backup in order\<close>

text \<open>The point of a backup in order: its names form a tree, and its sizes are those of its contents.\<close>

definition point_ok :: "backup_env \<Rightarrow> history_state \<Rightarrow> bool" where
  "point_ok vol m \<longleftrightarrow> tree_shaped m \<and> readMirrorManifest (Some m) = Some m \<and>
     (\<forall>(p, f) \<in> set (hs_files m). \<forall>c. be_sha vol c = hf_sha256 f \<longrightarrow> length c = hf_size f)"

lemma point_intact_of_store:
  assumes "store_ok vol C valid st" and "sound_volume vol C" and "(name, label, point) \<in> all_points (ms_points st)"
    and "point_ok vol (rp_state point)"
  shows "point_intact vol C (ms_data st, ms_objects st) (rp_state point)"
proof -
  have "files_in C (hs_files (rp_state point)) \<and> (\<forall>p f. um_find (hs_files (rp_state point)) p = Some f \<longrightarrow>
      kept vol (ms_data st, ms_objects st) p (hf_sha256 f))" and "copies_ok vol C (ms_data st, ms_objects st)"
    using assms(1,3) by (auto simp: store_ok_def points_kept_def)
  with assms(2,4) show ?thesis by (auto simp: point_intact_def point_ok_def files_in_def um_find_Some_iff)
qed

text \<open>C11: every point of a backup in order can be verified and restored. Where nothing fails and
  nobody cancels, verifying it finds nothing wrong, and a restore of it into a destination that is
  free or may be replaced succeeds and leaves exactly its files, whichever of them are objects and
  which are current copies. With the invariant that the runs keep, a version that was in a point is
  there when it is asked for.\<close>

theorem points_can_be_restored:
  assumes "store_ok (re_volume env) C valid st" and "sound_volume (re_volume env) C" and "undisturbed env"
    and "(name, label, point) \<in> all_points (ms_points st)" and "point_ok (re_volume env) (rp_state point)"
    and "rq_destination rq \<noteq> []" and "rq_overwrite rq \<or> ds_tree ds = None"
    and "list_ex (\<lambda>(p, f). pathAllowed (rq_path_filter rq) p) (hs_files (rp_state point))"
  shows "verify env (ms_data st, ms_objects st) (Some (rp_state point)) (rq_path_filter rq) = None \<and>
    (\<exists>ds' tree. restore env (ms_data st, ms_objects st) (Some (rp_state point)) again rq ds = (None, ds') \<and>
       ds_tree ds' = Some tree \<and> restored_exactly (re_volume env) (rp_state point) (rq_path_filter rq) tree)"
proof -
  let ?copies = "(ms_data st, ms_objects st)" and ?m = "rp_state point"
  let ?plan = "plan (re_volume env) ?copies ?m (rq_path_filter rq)"
  have m: "point_intact (re_volume env) C ?copies ?m" by (rule point_intact_of_store [OF assms(1,2,4,5)])
  have read: "readMirrorManifest (Some ?m) = Some ?m" using m by (simp add: point_intact_def)
  note ok = plan_ok(2) [OF m, of _ "rq_path_filter rq"]
  have "verify env ?copies (Some ?m) (rq_path_filter rq) = None"
    using verify_entries_ok [OF assms(3), of ?plan ?copies 0] ok by (simp add: verify_def read)
  moreover obtain staging where s: "stage_files env ?copies again (rq_path_filter rq) ?plan = Inr staging"
    using stage_intact [OF assms(3) m] by blast
  have ne: "?plan \<noteq> []" using assms(8) by (auto simp: plan_def filter_empty_conv list_ex_iff)
  have there: "find (\<lambda>e. pe_source e = MissingData) ?plan = None" using ok by (auto simp: find_None_iff)
  have "restore env ?copies (Some ?m) again rq ds = publish_restored env staging ds"
    using assms(3,6,7) by (auto simp: restore_def read Let_def ne there s undisturbed_def)
  moreover have "fst (publish_restored env staging ds) = None"
    using assms(3) by (auto simp: publish_restored_def undisturbed_def Let_def split: option.splits)
  ultimately show ?thesis
    using publish_restored_effect [of env staging ds "fst (publish_restored env staging ds)" "snd (publish_restored env staging ds)"]
      staged_exactly [OF s] by (cases "publish_restored env staging ds") auto
qed

lemma zeros_ok:
  "store_ok demo_env UNIV (sha_valid demo_env) zeros_store" "point_ok demo_env zeros_state"
proof -
  show "store_ok demo_env UNIV (sha_valid demo_env) zeros_store"
    by (auto simp: store_ok_def zeros_store_def demo_store_def demo_env_def zeros_state_def zeros_file_def demo_state_def demo_file_def
        copies_ok_def unique_names_def names_in_def um_ok_def points_kept_def all_points_def points_of_def um_find_def kept_def
        dk_find_def same_name_def files_in_def objectPath_def split: if_splits)
  have "readMirrorManifest (Some zeros_state) = Some zeros_state" by code_simp
  then show "point_ok demo_env zeros_state"
    by (auto simp: point_ok_def tree_shaped_def zeros_state_def zeros_file_def demo_state_def demo_file_def demo_env_def
        less_Suc_eq dest: map_eq_imp_length_eq)
qed

theorem points_can_be_restored_witness:
  "verify quiet (ms_data zeros_store, ms_objects zeros_store) (Some zeros_state) [] = None \<and>
    (\<exists>ds' tree. restore quiet (ms_data zeros_store, ms_objects zeros_store) (Some zeros_state) None replace_it taken = (None, ds') \<and>
       ds_tree ds' = Some tree \<and> restored_exactly demo_env zeros_state [] tree)"
proof -
  have v: "re_volume quiet = demo_env" "rq_path_filter replace_it = []" by (simp_all add: quiet_def replace_it_def)
  have p: "(wide ''daily'', wide ''1'', \<lparr>rp_created = 1, rp_state = zeros_state\<rparr>) \<in> all_points (ms_points zeros_store)"
    by (simp add: all_points_def points_of_def um_find_def zeros_store_def demo_store_def)
  have u: "undisturbed quiet" by (simp add: undisturbed_def quiet_def)
  from points_can_be_restored [of quiet UNIV "sha_valid demo_env" zeros_store _ _ _ replace_it taken, unfolded v,
      OF zeros_ok(1) demo_volume u p] zeros_ok(2)
  show ?thesis by (simp add: replace_it_def pathAllowed_def zeros_state_def wide_def)
qed

end
