(* ===== verification/FileSelection.thy ===== *)
theory FileSelection
  imports UploadSink "HOL-Library.Sublist"
begin

text \<open>
  Which files are indexed: the excluded subtrees (\<open>src/src/MyUtils/PathExclusion.cpp\<close>), the selection
  of extensions (\<open>FileExtensionContract.cpp\<close>), the scan of the roots (\<open>FileScanner.cpp\<close>) and the
  filter of the events that the watchers deliver (\<open>src/src/FileWatcher/FileEventFilter.h\<close>).

  Paths are the strings Windows has, and the operations of \<open>std::filesystem\<close> on them are written out.
  The case tables of Windows, its UTF-8 decoder and \<open>iswspace\<close> are arguments. The excluded subtrees
  are given as paths. An enumeration error ends the iterator: the tree is what it yields.
\<close>

record selection_env =
  sl_lower :: "u16 \<Rightarrow> u16"
  sl_upper :: "u16 \<Rightarrow> u16"
  sl_wide :: "u8 list \<Rightarrow> wstring option"
  sl_space :: "u16 \<Rightarrow> bool"

section \<open>Paths in normal form\<close>

fun pieces :: "(u16 \<Rightarrow> bool) \<Rightarrow> wstring \<Rightarrow> wstring list" where
  "pieces sep [] = [[]]"
| "pieces sep (c # cs) = (if sep c then [] # pieces sep cs else (c # hd (pieces sep cs)) # tl (pieces sep cs))"

fun join_path :: "wstring list \<Rightarrow> wstring" where
  "join_path [] = []"
| "join_path [p] = p"
| "join_path (p # ps) = p @ 0x2F # join_path ps"

definition normal_step :: "bool \<Rightarrow> wstring \<Rightarrow> wstring list \<Rightarrow> wstring list" where
  "normal_step rooted part acc =
     (if part = wide ''.'' then acc
      else if part = wide ''..''
      then (if acc \<noteq> [] \<and> last acc \<noteq> wide ''..'' then butlast acc else if rooted then acc else acc @ [part])
      else acc @ [part])"

text \<open>\<open>lexically_normal().generic_wstring()\<close>.\<close>

definition normal_generic :: "wstring \<Rightarrow> wstring" where
  "normal_generic w =
     (if w = [] then []
      else let rel = drop (length (root_name w)) w;
               rooted = has_root_directory w;
               parts = filter (\<lambda>p. p \<noteq> []) (pieces is_separator rel);
               names = fold (normal_step rooted) parts [];
               slash = (names \<noteq> [] \<and> last names \<noteq> wide ''..'' \<and> (is_separator (last rel) \<or> last parts \<in> {wide ''.'', wide ''..''}));
               normal = map (\<lambda>c. if is_separator c then 0x2F else c) (root_name w) @ (if rooted then [0x2F] else []) @
                 join_path names @ (if slash then [0x2F] else [])
             in if normal = [] then wide ''.'' else normal)"

section \<open>Excluded subtrees\<close>

fun trim_separators :: "wstring \<Rightarrow> wstring" where
  "trim_separators w = (if length w > 1 \<and> is_separator (last w) then trim_separators (butlast w) else w)"

declare trim_separators.simps [simp del]

definition toComparableWstring :: "selection_env \<Rightarrow> wstring \<Rightarrow> wstring" where
  "toComparableWstring env path = trim_separators (map (sl_lower env) (normal_generic path))"

definition isPathInsideExcludedSubtree :: "selection_env \<Rightarrow> wstring \<Rightarrow> wstring \<Rightarrow> bool" where
  "isPathInsideExcludedSubtree env candidate excludedRoot =
     (let c = toComparableWstring env candidate; e = toComparableWstring env excludedRoot
      in if c = [] \<or> e = [] then False
         else if c = e then True
         else if length c \<le> length e then False
         else if \<not> list_all2 (\<lambda>a b. sl_lower env a = sl_lower env b) e (take (length e) c) then False
         else c ! length e = 0x2F)"

definition isPathExcluded :: "selection_env \<Rightarrow> wstring \<Rightarrow> wstring list \<Rightarrow> bool" where
  "isPathExcluded env candidate excludedSubtrees =
     list_ex (\<lambda>e. e \<noteq> [] \<and> isPathInsideExcludedSubtree env candidate e) excludedSubtrees"

section \<open>Extensions\<close>

record selection =
  se_indexedExtensions :: "(u8 list) list"
  se_includeExtensionlessFiles :: bool

definition equalOrdinalIgnoreCase :: "selection_env \<Rightarrow> wstring \<Rightarrow> wstring \<Rightarrow> bool" where
  "equalOrdinalIgnoreCase env left right = (map (sl_upper env) left = map (sl_upper env) right)"

text \<open>The message, or none.\<close>

definition validateCanonicalToken :: "selection_env \<Rightarrow> u8 list \<Rightarrow> string option" where
  "validateCanonicalToken env token =
     (if token = [] then Some ''must not contain empty strings''
      else case sl_wide env token of
          None \<Rightarrow> Some ''must contain valid UTF-8 strings''
        | Some w \<Rightarrow>
            if w = [] then Some ''must not contain empty strings''
            else if sl_space env (hd w) \<or> sl_space env (last w) then Some ''must not contain leading or trailing whitespace''
            else if list_ex (\<lambda>c. c \<in> set (wide ''./'' @ [0x5C] @ wide ''*?'')) w
            then Some ''must not contain dots, wildcards, or path separators''
            else None)"

text \<open>One token: the messages so far and the extensions seen.\<close>

definition check_token :: "selection_env \<Rightarrow> u8 list \<Rightarrow> string list \<times> wstring list \<Rightarrow> string list \<times> wstring list" where
  "check_token env token = (\<lambda>(errors, seen).
     case validateCanonicalToken env token of
       Some error \<Rightarrow> (errors @ [error], seen)
     | None \<Rightarrow>
         let w = the (sl_wide env token)
         in if list_ex (\<lambda>x. equalOrdinalIgnoreCase env x w) seen
            then (errors @ [''must not contain case-insensitive duplicate extensions''], seen)
            else (errors, seen @ [w]))"

definition validateCanonicalSelection :: "selection_env \<Rightarrow> selection \<Rightarrow> string list" where
  "validateCanonicalSelection env sel =
     fst (fold (check_token env) (se_indexedExtensions sel) ([], [])) @
     (if se_indexedExtensions sel = [] \<and> \<not> se_includeExtensionlessFiles sel
      then [''must select at least one extension or extensionless files''] else [])"

text \<open>One legacy token: whether the empty extension was seen, the extensions, and their names.\<close>

fun legacy_tokens :: "selection_env \<Rightarrow> (u8 list) list \<Rightarrow> bool \<Rightarrow> wstring list \<Rightarrow> (u8 list) list \<Rightarrow> string + bool \<times> (u8 list) list" where
  "legacy_tokens env [] extensionless seen result = Inr (extensionless, result)"
| "legacy_tokens env (token # tokens) extensionless seen result =
     (if token = [] then legacy_tokens env tokens True seen result
      else let token = (if hd token = 0x2E then tl token else token)
        in if token = [] then legacy_tokens env tokens True seen result
           else case validateCanonicalToken env token of
               Some error \<Rightarrow> Inl (''legacy config.extensions '' @ error)
             | None \<Rightarrow>
                 let w = the (sl_wide env token)
                 in if list_ex (\<lambda>x. equalOrdinalIgnoreCase env x w) seen then legacy_tokens env tokens extensionless seen result
                    else legacy_tokens env tokens extensionless (seen @ [w]) (result @ [token]))"

definition canonicalizeLegacySelection :: "selection_env \<Rightarrow> (u8 list) list \<Rightarrow> bool option \<Rightarrow> string + selection" where
  "canonicalizeLegacySelection env legacyExtensions explicitIncludeExtensionless =
     (case legacy_tokens env legacyExtensions False [] [] of
        Inl error \<Rightarrow> Inl error
      | Inr (extensionless, tokens) \<Rightarrow>
          let result = \<lparr>se_indexedExtensions = tokens,
                se_includeExtensionlessFiles = (case explicitIncludeExtensionless of Some b \<Rightarrow> b | None \<Rightarrow> extensionless)\<rparr>
          in case validateCanonicalSelection env result of
              [] \<Rightarrow> Inr result
            | error # _ \<Rightarrow> Inl (''legacy config.extensions '' @ error))"

text \<open>The part of a file name from its last dot, which may be the last character but not the first;
  a colon starts the name of a stream.\<close>

definition extension_of :: "wstring \<Rightarrow> wstring" where
  "extension_of name = snd (stem_extension (takeWhile (\<lambda>c. c \<noteq> 0x3A) name))"

definition finalExtension :: "wstring \<Rightarrow> wstring" where
  "finalExtension path =
     (let extension = extension_of (path_filename path)
      in if extension = wide ''.'' then [] else if extension \<noteq> [] \<and> hd extension = 0x2E then tl extension else extension)"

fun some_extension :: "selection_env \<Rightarrow> wstring \<Rightarrow> (u8 list) list \<Rightarrow> bool" where
  "some_extension env extension [] = False"
| "some_extension env extension (configured # rest) =
     (case sl_wide env configured of
        None \<Rightarrow> False
      | Some w \<Rightarrow> equalOrdinalIgnoreCase env extension w \<or> some_extension env extension rest)"

definition matchesPath :: "selection_env \<Rightarrow> wstring \<Rightarrow> selection \<Rightarrow> bool" where
  "matchesPath env path sel =
     (if se_indexedExtensions sel = [] \<and> \<not> se_includeExtensionlessFiles sel then False
      else let extension = finalExtension path
        in if extension = [] then se_includeExtensionlessFiles sel else some_extension env extension (se_indexedExtensions sel))"

section \<open>The scan\<close>

text \<open>A regular file has a size, unless the system does not tell it.\<close>

datatype scan_entry = ScanFile "nat option" | ScanDirectory "(wstring \<times> scan_entry) list" | ScanOther

text \<open>\<open>operator/\<close> with a file name.\<close>

definition append_name :: "wstring \<Rightarrow> wstring \<Rightarrow> wstring" where
  "append_name p name =
     (if p = [] \<or> is_separator (last p) \<or> length p = 2 \<and> root_name p = p then p @ name else p @ 0x5C # name)"

fun scan_one :: "selection_env \<Rightarrow> selection \<Rightarrow> wstring list \<Rightarrow> wstring \<Rightarrow> scan_entry \<Rightarrow> wstring list" where
  "scan_one env sel excluded p (ScanDirectory entries) =
     (if isPathExcluded env p excluded then []
      else concat (map (\<lambda>(name, e). scan_one env sel excluded (append_name p name) e) entries))"
| "scan_one env sel excluded p (ScanFile bytes) =
     (if isPathExcluded env p excluded then []
      else case bytes of
          None \<Rightarrow> []
        | Some n \<Rightarrow> if n < 10 then [] else if matchesPath env p sel then [p] else [])"
| "scan_one env sel excluded p ScanOther = []"

text \<open>The root itself is not looked at; \<open>None\<close> is a root that cannot be opened.\<close>

definition scanDirectory :: "selection_env \<Rightarrow> selection \<Rightarrow> wstring list \<Rightarrow> wstring \<times> (wstring \<times> scan_entry) list option \<Rightarrow> wstring list" where
  "scanDirectory env sel excluded = (\<lambda>(root, entries).
     case entries of
       None \<Rightarrow> []
     | Some entries \<Rightarrow> concat (map (\<lambda>(name, e). scan_one env sel excluded (append_name root name) e) entries))"

definition scanDirectories ::
  "selection_env \<Rightarrow> selection \<Rightarrow> wstring list \<Rightarrow> (wstring \<times> (wstring \<times> scan_entry) list option) list \<Rightarrow> wstring list" where
  "scanDirectories env sel excluded roots = concat (map (scanDirectory env sel excluded) roots)"

section \<open>The filter of events\<close>

datatype file_event = Added | Removed | Modified | RenamedOld | RenamedNew

definition shouldAcceptFileEvent :: "selection_env \<Rightarrow> selection \<Rightarrow> wstring list \<Rightarrow> file_event \<Rightarrow> wstring \<Rightarrow> bool" where
  "shouldAcceptFileEvent env sel excluded evt path =
     (if \<not> matchesPath env path sel then False
      else if evt \<noteq> Removed \<and> evt \<noteq> RenamedOld \<and> isPathExcluded env path excluded then False
      else True)"

section \<open>What lies under a directory\<close>

lemma pieces_ne [simp]: "pieces sep w \<noteq> []"
  by (cases w) auto

lemma pieces_snoc: "sep c \<Longrightarrow> pieces sep (a @ c # b) = pieces sep a @ pieces sep b"
  by (induction a) auto

lemma pieces_plain: "\<forall>c \<in> set w. \<not> sep c \<Longrightarrow> pieces sep w = [w]"
  by (induction w) auto

lemma pieces_members: "\<forall>p \<in> set (pieces sep w). \<forall>c \<in> set p. \<not> sep c"
proof (induction w)
  case (Cons c cs)
  have "hd (pieces sep cs) \<in> set (pieces sep cs)" "set (tl (pieces sep cs)) \<subseteq> set (pieces sep cs)"
    by (simp_all add: list.set_sel(2) subsetI)
  with Cons.IH have "\<forall>c \<in> set (hd (pieces sep cs)). \<not> sep c" "\<forall>p \<in> set (tl (pieces sep cs)). \<forall>c \<in> set p. \<not> sep c" by blast+
  with Cons.IH show ?case by (cases "sep c") simp_all
qed simp

text \<open>Being inside is a matter of whole components.\<close>

lemma pieces_prefix: "prefix (pieces (\<lambda>x. x = s) e) (pieces (\<lambda>x. x = s) c) \<longleftrightarrow> c = e \<or> (\<exists>r. c = e @ s # r)"
proof
  assume "c = e \<or> (\<exists>r. c = e @ s # r)"
  then show "prefix (pieces (\<lambda>x. x = s) e) (pieces (\<lambda>x. x = s) c)" by (auto simp: pieces_snoc)
next
  show "prefix (pieces (\<lambda>x. x = s) e) (pieces (\<lambda>x. x = s) c) \<Longrightarrow> c = e \<or> (\<exists>r. c = e @ s # r)"
  proof (induction e arbitrary: c)
    case Nil
    show ?case
    proof (cases c)
      case (Cons y c')
      with Nil have "y = s" by (cases "y = s") simp_all
      with Cons show ?thesis by simp
    qed simp
  next
    case (Cons x e)
    show ?case
    proof (cases c)
      case Nil
      with Cons.prems show ?thesis by (cases "x = s") (simp_all add: prefix_def)
    next
      case c: (Cons y c')
      have split: "pieces (\<lambda>x. x = s) w = hd (pieces (\<lambda>x. x = s) w) # tl (pieces (\<lambda>x. x = s) w)" for w by simp
      have "x = y"
        using Cons.prems unfolding c by (cases "x = s"; cases "y = s") simp_all
      moreover have "prefix (pieces (\<lambda>x. x = s) e) (pieces (\<lambda>x. x = s) c')"
      proof (cases "y = s")
        case True
        with Cons.prems \<open>x = y\<close> show ?thesis unfolding c by simp
      next
        case False
        with Cons.prems \<open>x = y\<close> have "hd (pieces (\<lambda>x. x = s) e) = hd (pieces (\<lambda>x. x = s) c')"
          "prefix (tl (pieces (\<lambda>x. x = s) e)) (tl (pieces (\<lambda>x. x = s) c'))" unfolding c by simp_all
        then show ?thesis by (subst (1 2) split) (simp only: Cons_prefix_Cons)
      qed
      ultimately show ?thesis using Cons.IH [of c'] c by auto
    qed
  qed
qed

text \<open>The case table does its work once, and leaves the separators alone.\<close>

definition lower_ok :: "selection_env \<Rightarrow> bool" where
  "lower_ok env \<longleftrightarrow> (\<forall>x. sl_lower env (sl_lower env x) = sl_lower env x) \<and> sl_lower env 0x2F = 0x2F \<and> (\<forall>x. is_separator (sl_lower env x) \<longleftrightarrow> is_separator x)"

lemma trim_members: "set (trim_separators w) \<subseteq> set w"
  by (induction w rule: trim_separators.induct) (subst trim_separators.simps, auto dest: in_set_butlastD)

lemma comparable_lowered: "lower_ok env \<Longrightarrow> c \<in> set (toComparableWstring env p) \<Longrightarrow> sl_lower env c = c"
  using trim_members [of "map (sl_lower env) (normal_generic p)"]
  by (auto simp: toComparableWstring_def lower_ok_def)

lemma inside_iff:
  assumes "lower_ok env"
  shows "isPathInsideExcludedSubtree env candidate excl \<longleftrightarrow>
    toComparableWstring env candidate \<noteq> [] \<and> toComparableWstring env excl \<noteq> [] \<and>
    prefix (pieces (\<lambda>x. x = 0x2F) (toComparableWstring env excl)) (pieces (\<lambda>x. x = 0x2F) (toComparableWstring env candidate))"
proof -
  let ?c = "toComparableWstring env candidate" and ?e = "toComparableWstring env excl"
  have same: "list_all2 (\<lambda>a b. sl_lower env a = sl_lower env b) ?e (take (length ?e) ?c) \<longleftrightarrow> ?e = take (length ?e) ?c"
    if "length ?e < length ?c"
  proof -
    have "sl_lower env (?e ! i) = sl_lower env (?c ! i) \<longleftrightarrow> ?e ! i = ?c ! i" if "i < length ?e" for i
    proof -
      from that \<open>length ?e < length ?c\<close> have "?e ! i \<in> set ?e" "?c ! i \<in> set ?c" by simp_all
      then show ?thesis by (simp only: comparable_lowered [OF assms])
    qed
    then show ?thesis using that by (simp add: list_all2_conv_all_nth list_eq_iff_nth_eq)
  qed
  have "?e = take (length ?e) ?c \<and> ?c ! length ?e = 0x2F \<longleftrightarrow> (\<exists>r. ?c = ?e @ 0x2F # r)" if "length ?e < length ?c"
    using that by (metis append_take_drop_id append_eq_conv_conj id_take_nth_drop nth_append_length)
  with same show ?thesis unfolding isPathInsideExcludedSubtree_def pieces_prefix Let_def
    by (cases "length ?e < length ?c") auto
qed

text \<open>A name of a directory entry, and a directory with a drive or a server.\<close>

definition plain_name :: "wstring \<Rightarrow> bool" where
  "plain_name name \<longleftrightarrow> name \<noteq> [] \<and> list_all (\<lambda>c. \<not> is_separator c) name \<and> name \<noteq> wide ''.'' \<and> name \<noteq> wide ''..''"

definition rooted :: "wstring \<Rightarrow> bool" where
  "rooted p \<longleftrightarrow> root_name p \<noteq> [] \<and> has_root_directory p"

lemma root_name_append:
  assumes "rooted p"
  shows "root_name (p @ x) = root_name p"
proof -
  obtain a b r where p: "p = a # b # r" using assms by (auto simp: rooted_def root_name_def split: list.splits)
  show ?thesis
  proof (cases "is_drive_letter a \<and> b = 0x3A")
    case True
    then show ?thesis by (simp add: p root_name_def)
  next
    case False
    with assms have s: "is_separator a" "is_separator b" "r \<noteq> []" "\<not> is_separator (hd r)"
      by (auto simp: rooted_def root_name_def p split: if_splits)
    let ?t = "takeWhile (\<lambda>c. \<not> is_separator c) r"
    have "root_name p = a # b # ?t" using s False by (auto simp: p root_name_def)
    with assms have "drop (length ?t) r \<noteq> []" by (simp add: rooted_def has_root_directory_def p)
    then have "?t \<noteq> r" by force
    then obtain c where "c \<in> set r" "is_separator c" by (metis takeWhile_eq_all_conv)
    then have "takeWhile (\<lambda>c. \<not> is_separator c) (r @ x) = ?t" by (simp add: takeWhile_append1)
    then show ?thesis using s False by (auto simp: p root_name_def)
  qed
qed

lemma root_name_prefix: "\<exists>rel. p = root_name p @ rel"
proof (cases "root_name p = []")
  case False
  then obtain a b r where p: "p = a # b # r" by (auto simp: root_name_def split: list.splits)
  have "\<exists>rel. r = takeWhile (\<lambda>c. \<not> is_separator c) r @ rel" by (metis takeWhile_dropWhile_id)
  with False show ?thesis unfolding p root_name_def by (auto split: if_splits)
qed simp

text \<open>What the normal form of a rooted path consists of.\<close>

definition normal_names :: "wstring \<Rightarrow> wstring list" where
  "normal_names p = fold (normal_step True) (filter (\<lambda>q. q \<noteq> []) (pieces is_separator (drop (length (root_name p)) p))) []"

lemma normal_step_members: "q \<in> set (normal_step b part acc) \<Longrightarrow> q \<in> set acc \<or> q = part"
  by (auto simp: normal_step_def split: if_splits dest: in_set_butlastD)

lemma fold_normal_members: "q \<in> set (fold (normal_step b) parts acc) \<Longrightarrow> q \<in> set acc \<or> q \<in> set parts"
proof (induction parts arbitrary: acc)
  case (Cons part parts)
  from Cons.IH [of "normal_step b part acc"] Cons.prems normal_step_members [of q b part acc] show ?case by auto
qed simp

lemma normal_names_plain: "q \<in> set (normal_names p) \<Longrightarrow> q \<noteq> [] \<and> (\<forall>c \<in> set q. \<not> is_separator c)"
  using fold_normal_members [of q True _ "[]"] pieces_members [of is_separator] by (fastforce simp: normal_names_def)

lemma normal_names_append:
  assumes "rooted p" and "plain_name name"
  shows "normal_names (append_name p name) = normal_names p @ [name]"
proof -
  let ?rel = "drop (length (root_name p)) p"
  have plain: "pieces is_separator name = [name]" using assms(2) by (intro pieces_plain) (simp add: plain_name_def list_all_iff)
  have ne: "length (root_name p) < length p" "?rel \<noteq> []" "last ?rel = last p"
    using assms(1) by (auto simp: rooted_def has_root_directory_def Let_def)
  have new: "normal_step True name acc = acc @ [name]" for acc using assms(2) by (simp add: normal_step_def plain_name_def)
  have "root_name p \<noteq> p" using ne by (metis drop_all order_refl)
  then have two: "append_name p name = (if is_separator (last p) then p @ name else p @ 0x5C # name)"
    using ne by (auto simp: append_name_def)
  show ?thesis
  proof (cases "is_separator (last p)")
    case True
    obtain rel s where r: "?rel = rel @ [s]" "is_separator s" using ne True by (metis append_butlast_last_id)
    have "drop (length (root_name p)) (p @ name) = rel @ s # name" using r(1) ne by simp
    moreover have "pieces is_separator (rel @ s # name) = pieces is_separator rel @ [name]" using r(2) by (simp add: pieces_snoc plain)
    moreover have "pieces is_separator (rel @ [s]) = pieces is_separator rel @ [[]]" using r(2) by (simp add: pieces_snoc)
    ultimately show ?thesis using True assms(2)
      by (simp add: two normal_names_def root_name_append [OF assms(1)] r(1) new plain_name_def)
  next
    case False
    have "drop (length (root_name p)) (p @ 0x5C # name) = ?rel @ 0x5C # name" using ne by simp
    moreover have "pieces is_separator (?rel @ 0x5C # name) = pieces is_separator ?rel @ [name]"
      by (simp add: pieces_snoc plain is_separator_def)
    ultimately show ?thesis using False assms(2)
      by (simp add: two normal_names_def root_name_append [OF assms(1)] new plain_name_def)
  qed
qed

lemma root_last: "root_name p \<noteq> [] \<Longrightarrow> \<not> is_separator (last (root_name p))"
proof -
  assume ne: "root_name p \<noteq> []"
  then obtain a b r where p: "p = a # b # r" by (auto simp: root_name_def split: list.splits)
  have "takeWhile (\<lambda>c. \<not> is_separator c) r \<noteq> [] \<and> \<not> is_separator (last (takeWhile (\<lambda>c. \<not> is_separator c) r))"
    if "r \<noteq> []" "\<not> is_separator (hd r)"
  proof -
    from that have ne: "takeWhile (\<lambda>c. \<not> is_separator c) r \<noteq> []" by (cases r) simp_all
    from set_takeWhileD [OF last_in_set [OF ne]] ne show ?thesis by simp
  qed
  moreover have "\<not> is_separator 0x3A" by (simp add: is_separator_def)
  ultimately show ?thesis using ne unfolding p root_name_def by (auto split: if_splits)
qed

lemma trim_plain: "\<not> is_separator (last w) \<Longrightarrow> trim_separators w = w"
  by (subst trim_separators.simps) simp

lemma slash_separates: "is_separator 0x2F"
  by (simp add: is_separator_def)

lemma trim_slash: "w \<noteq> [] \<Longrightarrow> \<not> is_separator (last w) \<Longrightarrow> trim_separators (w @ [0x2F]) = w"
  by (subst trim_separators.simps) (simp add: slash_separates trim_plain)

lemma join_slashes: "ns \<noteq> [] \<Longrightarrow> 0x2F # join_path ns = concat (map (\<lambda>n. 0x2F # n) ns)"
  by (induction ns rule: join_path.induct) simp_all

lemma concat_last: "ns \<noteq> [] \<Longrightarrow> last ns \<noteq> [] \<Longrightarrow> last (concat (map (\<lambda>n. 0x2F # n) ns)) = last (last ns)"
  by (induction ns rule: rev_induct) simp_all

lemma comparable_rooted:
  assumes env: "lower_ok env" and p: "rooted p"
  shows "toComparableWstring env p = map (sl_lower env) (map (\<lambda>c. if is_separator c then 0x2F else c) (root_name p) @
    concat (map (\<lambda>n. 0x2F # n) (normal_names p)))"
proof -
  let ?R = "map (\<lambda>c. if is_separator c then 0x2F else c) (root_name p)" and ?ns = "normal_names p"
  have R: "?R \<noteq> []" "\<not> is_separator (last ?R)" using p root_last [of p] by (simp_all add: rooted_def last_map)
  have ne: "p \<noteq> []" using p by (auto simp: rooted_def root_name_def)
  obtain slash where n: "normal_generic p = ?R @ [0x2F] @ join_path ?ns @ (if slash then [0x2F] else [])" "slash \<Longrightarrow> ?ns \<noteq> []"
    using that p R(1) ne unfolding normal_generic_def normal_names_def rooted_def Let_def by (simp split: if_splits)
  have low: "is_separator (sl_lower env x) \<longleftrightarrow> is_separator x" "sl_lower env 0x2F = 0x2F" for x using env by (simp_all add: lower_ok_def)
  show ?thesis
  proof (cases "?ns = []")
    case True
    with n have "normal_generic p = ?R @ [0x2F]" by auto
    with trim_slash [of "map (sl_lower env) ?R"] R low show ?thesis by (simp add: toComparableWstring_def last_map True)
  next
    case False
    let ?w = "?R @ concat (map (\<lambda>n. 0x2F # n) ?ns)"
    have g: "normal_generic p = ?w @ (if slash then [0x2F] else [])" using n(1) join_slashes [OF False] by simp
    have "last ?ns \<noteq> []" "\<not> is_separator (last (last ?ns))" using normal_names_plain [of "last ?ns" p] False by simp_all
    then have "\<not> is_separator (last ?w)" using False concat_last [of ?ns] by simp
    then have "\<not> is_separator (last (map (sl_lower env) ?w))" using low R(1) by (simp only: last_map append_is_Nil_conv simp_thms)
    moreover have "map (sl_lower env) ?w \<noteq> []" using R(1) by simp
    ultimately have "trim_separators (map (sl_lower env) ?w) = map (sl_lower env) ?w"
      "trim_separators (map (sl_lower env) ?w @ [0x2F]) = map (sl_lower env) ?w" by (simp_all only: trim_plain trim_slash not_False_eq_True)
    moreover have "map (sl_lower env) (normal_generic p) = map (sl_lower env) ?w @ (if slash then [0x2F] else [])"
      using low by (simp add: g)
    ultimately show ?thesis unfolding toComparableWstring_def by (cases slash) (simp_all only: if_True if_False append_Nil2)
  qed
qed

lemma rooted_append: "rooted p \<Longrightarrow> rooted (append_name p name)"
proof -
  assume p: "rooted p"
  then have "length (root_name p) < length p" by (auto simp: rooted_def has_root_directory_def Let_def)
  then have "rooted (p @ x)" for x
    using p by (simp add: rooted_def has_root_directory_def root_name_append [OF p])
  then show ?thesis using p by (simp add: append_name_def)
qed

lemma comparable_append:
  assumes "lower_ok env" and "rooted p" and "plain_name name"
  shows "toComparableWstring env (append_name p name) = toComparableWstring env p @ 0x2F # map (sl_lower env) name"
proof -
  obtain x where x: "append_name p name = p @ x"
    by (cases "p = [] \<or> is_separator (last p) \<or> length p = 2 \<and> root_name p = p") (simp_all add: append_name_def)
  have "root_name (append_name p name) = root_name p" unfolding x by (rule root_name_append [OF assms(2)])
  then show ?thesis
    using assms(1) by (simp add: comparable_rooted [OF assms(1) rooted_append [OF assms(2)]] comparable_rooted [OF assms(1,2)]
        normal_names_append [OF assms(2,3)] lower_ok_def)
qed

lemma excluded_below:
  assumes "lower_ok env" and "rooted p" and "plain_name name" and "isPathExcluded env p excluded"
  shows "isPathExcluded env (append_name p name) excluded"
proof -
  have "isPathInsideExcludedSubtree env (append_name p name) e" if "isPathInsideExcludedSubtree env p e" for e
    using that by (auto simp: inside_iff [OF assms(1)] comparable_append [OF assms(1,2,3)] pieces_snoc intro: prefix_order.trans)
  with assms(4) show ?thesis by (auto simp: isPathExcluded_def list_ex_iff)
qed

section \<open>The scan is a filter\<close>

text \<open>The regular files of a tree, with their sizes, in the order of the iterator.\<close>

fun all_files :: "wstring \<Rightarrow> scan_entry \<Rightarrow> (wstring \<times> nat option) list" where
  "all_files p (ScanDirectory entries) = concat (map (\<lambda>(name, e). all_files (append_name p name) e) entries)"
| "all_files p (ScanFile bytes) = [(p, bytes)]"
| "all_files p ScanOther = []"

fun plain_tree :: "scan_entry \<Rightarrow> bool" where
  "plain_tree (ScanDirectory entries) = list_all (\<lambda>(name, e). plain_name name \<and> plain_tree e) entries"
| "plain_tree _ = True"

definition indexable :: "selection_env \<Rightarrow> selection \<Rightarrow> wstring list \<Rightarrow> wstring \<times> nat option \<Rightarrow> bool" where
  "indexable env sel excluded = (\<lambda>(p, bytes).
     \<not> isPathExcluded env p excluded \<and> matchesPath env p sel \<and> (case bytes of None \<Rightarrow> False | Some n \<Rightarrow> 10 \<le> n))"

lemma all_excluded:
  "lower_ok env \<Longrightarrow> rooted p \<Longrightarrow> plain_tree e \<Longrightarrow> isPathExcluded env p excluded \<Longrightarrow> (q, n) \<in> set (all_files p e) \<Longrightarrow>
     isPathExcluded env q excluded"
proof (induction p e rule: all_files.induct)
  case (1 p entries)
  from "1.prems"(5) obtain name e where e: "(name, e) \<in> set entries" "(q, n) \<in> set (all_files (append_name p name) e)" by auto
  with "1.prems"(3) have "plain_name name" "plain_tree e" by (auto simp: list_all_iff)
  then have "isPathExcluded env (append_name p name) excluded" "rooted (append_name p name)"
    using "1.prems" by (simp_all add: excluded_below rooted_append)
  from "1.IH" [OF e(1) refl \<open>lower_ok env\<close> this(2) \<open>plain_tree e\<close> this(1) e(2)] show ?case .
qed simp_all

lemma scan_one_filter:
  "lower_ok env \<Longrightarrow> rooted p \<Longrightarrow> plain_tree e \<Longrightarrow>
     scan_one env sel excluded p e = map fst (filter (indexable env sel excluded) (all_files p e))"
proof (induction p e rule: all_files.induct)
  case (1 p entries)
  show ?case
  proof (cases "isPathExcluded env p excluded")
    case True
    have "filter (indexable env sel excluded) (all_files p (ScanDirectory entries)) = []"
      unfolding filter_empty_conv
    proof (clarify)
      fix q n
      assume "(q, n) \<in> set (all_files p (ScanDirectory entries))" "indexable env sel excluded (q, n)"
      with all_excluded [OF 1(2-4) True] show False by (auto simp: indexable_def simp del: all_files.simps)
    qed
    with True show ?thesis by (simp only: scan_one.simps if_True list.map)
  next
    case False
    have "scan_one env sel excluded (append_name p name) e =
        map fst (filter (indexable env sel excluded) (all_files (append_name p name) e))" if "(name, e) \<in> set entries" for name e
    proof -
      from 1(4) that have "plain_tree e" by (auto simp: list_all_iff)
      from "1.IH" [OF that refl 1(2) rooted_append [OF 1(3)] this] show ?thesis .
    qed
    then show ?thesis using False by (auto simp: map_concat filter_concat comp_def intro!: arg_cong [of _ _ concat])
  qed
qed (auto simp: indexable_def split: option.splits)

text \<open>What the roots hold.\<close>

definition files_of_roots :: "(wstring \<times> (wstring \<times> scan_entry) list option) list \<Rightarrow> (wstring \<times> nat option) list" where
  "files_of_roots roots =
     concat (map (\<lambda>(dir, entries). case entries of None \<Rightarrow> [] | Some es \<Rightarrow> all_files dir (ScanDirectory es)) roots)"

definition roots_ok :: "(wstring \<times> (wstring \<times> scan_entry) list option) list \<Rightarrow> bool" where
  "roots_ok roots = list_all (\<lambda>(dir, entries). rooted dir \<and> (case entries of None \<Rightarrow> True | Some es \<Rightarrow> plain_tree (ScanDirectory es))) roots"

lemma scanDirectory_filter:
  assumes "lower_ok env" and "rooted dir" and "plain_tree (ScanDirectory es)"
  shows "scanDirectory env sel excluded (dir, Some es) = map fst (filter (indexable env sel excluded) (all_files dir (ScanDirectory es)))"
proof -
  have "scan_one env sel excluded (append_name dir name) e =
      map fst (filter (indexable env sel excluded) (all_files (append_name dir name) e))" if "(name, e) \<in> set es" for name e
    using assms(3) that by (intro scan_one_filter [OF assms(1) rooted_append [OF assms(2)]]) (auto simp: list_all_iff)
  then show ?thesis by (auto simp: scanDirectory_def map_concat filter_concat comp_def intro!: arg_cong [of _ _ concat])
qed

text \<open>A root with an excluded directory, a file of the wrong kind, one that is too small, and one to index.\<close>

definition demo_selection_env :: selection_env where
  "demo_selection_env = \<lparr>sl_lower = \<lambda>x. if x = 0x53 then 0x73 else x, sl_upper = \<lambda>x. if x = 0x74 then 0x54 else x,
     sl_wide = \<lambda>w. Some (map ucast w), sl_space = \<lambda>x. x = 0x20\<rparr>"

definition demo_selection :: selection where
  "demo_selection = \<lparr>se_indexedExtensions = [[0x74, 0x78, 0x74]], se_includeExtensionlessFiles = False\<rparr>"

definition demo_roots :: "(wstring \<times> (wstring \<times> scan_entry) list option) list" where
  "demo_roots = [(wide ''D:/r'', Some
     [(wide ''Sk'', ScanDirectory [(wide ''a.txt'', ScanFile (Some 99))]),
      (wide ''d'', ScanDirectory [(wide ''b.TxT'', ScanFile (Some 20)), (wide ''c.txt'', ScanFile (Some 5)), (wide ''d.b'', ScanFile (Some 50))])]),
     (wide ''E:/'', None)]"

definition demo_wanted :: wstring where
  "demo_wanted = wide ''D:/r'' @ [0x5C] @ wide ''d'' @ [0x5C] @ wide ''b.TxT''"

text \<open>C23: the scan of the roots is a filter of their files, in order, and it is the filter that the
  events go through, but for the size. Although it does not enter an excluded directory it finds
  every file that the events would accept as added and that has ten bytes or more, and no other:
  exclusion is by whole components whatever the case, \<open>.\<close>, \<open>..\<close> and the separators in the
  configuration, so nothing below an excluded directory could have been wanted.\<close>

theorem scan_and_events_agree:
  assumes "lower_ok env" and "roots_ok roots"
  shows "scanDirectories env sel excluded roots =
    map fst (filter (\<lambda>(p, bytes). shouldAcceptFileEvent env sel excluded Added p \<and> (case bytes of None \<Rightarrow> False | Some n \<Rightarrow> 10 \<le> n))
      (files_of_roots roots))"
proof -
  have i: "(\<lambda>(p, bytes). shouldAcceptFileEvent env sel excluded Added p \<and> (case bytes of None \<Rightarrow> False | Some n \<Rightarrow> 10 \<le> n)) =
      indexable env sel excluded"
    by (auto simp: fun_eq_iff shouldAcceptFileEvent_def indexable_def)
  have "scanDirectory env sel excluded (dir, es) = map fst (filter (indexable env sel excluded)
      (case es of None \<Rightarrow> [] | Some es \<Rightarrow> all_files dir (ScanDirectory es)))" if "(dir, es) \<in> set roots" for dir es
  proof (cases es)
    case None
    then show ?thesis by (simp add: scanDirectory_def)
  next
    case (Some entries)
    with assms(2) that have "rooted dir" "plain_tree (ScanDirectory entries)" by (auto simp: roots_ok_def list_all_iff simp del: plain_tree.simps)
    with Some show ?thesis by (simp add: scanDirectory_filter [OF assms(1)] del: all_files.simps)
  qed
  then show ?thesis unfolding i
    by (auto simp: scanDirectories_def files_of_roots_def map_concat filter_concat comp_def simp del: all_files.simps
        intro!: arg_cong [of _ _ concat])
qed

theorem scan_and_events_agree_witness:
  "scanDirectories demo_selection_env demo_selection [wide ''D:/r/./sk/''] demo_roots = [demo_wanted]"
proof -
  have env: "lower_ok demo_selection_env" by (auto simp: lower_ok_def demo_selection_env_def is_separator_def)
  have roots: "roots_ok demo_roots" by code_simp
  show ?thesis unfolding scan_and_events_agree [OF env roots] by code_simp
qed

end
