(* ===== verification/EventDispatcher.thy ===== *)
theory EventDispatcher
  imports FileSelection
begin

text \<open>
  From the events of the watchers to the commands of the index
  (\<open>src/src/FileWatcher/FileEventDispatcher.cpp\<close>): an event that the filter accepts is merged with the
  one that waits for the same path, and a periodic flush turns what waits into one command per path.

  The steps are the critical sections of \<open>mtx_\<close>; a flush begins when the one before it has ended. The
  hash of a path is an argument. Both commands are registered.
\<close>

section \<open>Merging\<close>

definition merge2 :: "file_event \<Rightarrow> file_event \<Rightarrow> file_event" where
  "merge2 old neu =
     (if neu = Removed \<or> neu = RenamedOld then neu
      else let neu = (if neu = RenamedNew then Added else neu)
        in if old = Removed then old
           else if old = Added \<and> neu = Modified then old
           else neu)"

section \<open>The dispatcher\<close>

record event_state =
  es_evt :: file_event
  es_path :: wstring
  es_queued :: bool

record dispatcher =
  ed_evtMap :: "(nat, event_state) umap"
  ed_pendingQ :: "nat list"
  ed_local :: "nat list"
  ed_stopping :: bool

definition new_dispatcher :: dispatcher where
  "new_dispatcher = \<lparr>ed_evtMap = [], ed_pendingQ = [], ed_local = [], ed_stopping = False\<rparr>"

text \<open>For an event that was accepted.\<close>

definition pushFileEvent :: "(wstring \<Rightarrow> nat) \<Rightarrow> file_event \<Rightarrow> wstring \<Rightarrow> dispatcher \<Rightarrow> dispatcher" where
  "pushFileEvent hash evt path d =
     (if ed_stopping d then d
      else let h = hash path;
               old = um_find (ed_evtMap d) h;
               queued = (case old of None \<Rightarrow> False | Some st \<Rightarrow> es_queued st);
               merged = (case old of None \<Rightarrow> evt | Some st \<Rightarrow> if es_queued st then merge2 (es_evt st) evt else evt)
        in d\<lparr>ed_evtMap := um_put h \<lparr>es_evt = merged, es_path = path, es_queued = True\<rparr> (ed_evtMap d),
             ed_pendingQ := (if queued then ed_pendingQ d else ed_pendingQ d @ [h])\<rparr>)"

definition is_removal :: "file_event \<Rightarrow> bool" where
  "is_removal evt \<longleftrightarrow> evt = Removed \<or> evt = RenamedOld"

definition flush_begin :: "dispatcher \<Rightarrow> dispatcher" where
  "flush_begin d = (if ed_stopping d then d else d\<lparr>ed_local := ed_pendingQ d, ed_pendingQ := []\<rparr>)"

text \<open>One round of the loop: whether the command it runs removes the path, and the path.\<close>

definition flush_item :: "dispatcher \<Rightarrow> (bool \<times> wstring) option \<times> dispatcher" where
  "flush_item d =
     (case ed_local d of
        [] \<Rightarrow> (None, d)
      | h # rest \<Rightarrow>
          if ed_stopping d then (None, d\<lparr>ed_local := []\<rparr>)
          else case um_find (ed_evtMap d) h of
              None \<Rightarrow> (None, d\<lparr>ed_local := rest\<rparr>)
            | Some st \<Rightarrow> (Some (is_removal (es_evt st), es_path st), d\<lparr>ed_local := rest, ed_evtMap := um_erase h (ed_evtMap d)\<rparr>))"

text \<open>The loop, \<open>n\<close> rounds of it, when nothing comes between.\<close>

fun flush_loop :: "nat \<Rightarrow> dispatcher \<Rightarrow> (bool \<times> wstring) list \<times> dispatcher" where
  "flush_loop 0 d = ([], d)"
| "flush_loop (Suc n) d =
     (let (cmd, d) = flush_item d; (cmds, d) = flush_loop n d
      in ((case cmd of None \<Rightarrow> [] | Some c \<Rightarrow> [c]) @ cmds, d))"

definition flushPending :: "dispatcher \<Rightarrow> (bool \<times> wstring) list \<times> dispatcher" where
  "flushPending d = (let d = flush_begin d in flush_loop (length (ed_local d)) d)"

definition stopAll :: "dispatcher \<Rightarrow> dispatcher" where
  "stopAll d = (if ed_stopping d then d else d\<lparr>ed_stopping := True, ed_evtMap := [], ed_pendingQ := []\<rparr>)"

section \<open>Interleavings\<close>

datatype dispatch_label = EventPushed file_event wstring | CommandRun bool wstring | Silent

inductive dispatch_step ::
  "(wstring \<Rightarrow> nat) \<Rightarrow> (file_event \<Rightarrow> wstring \<Rightarrow> bool) \<Rightarrow> dispatcher \<Rightarrow> dispatch_label \<Rightarrow> dispatcher \<Rightarrow> bool"
  for hash accepts where
  step_push: "accepts evt path \<Longrightarrow> dispatch_step hash accepts d (EventPushed evt path) (pushFileEvent hash evt path d)"
| step_refuse: "\<not> accepts evt path \<Longrightarrow> dispatch_step hash accepts d Silent d"
| step_begin: "ed_local d = [] \<Longrightarrow> dispatch_step hash accepts d Silent (flush_begin d)"
| step_command: "flush_item d = (Some (removal, path), d') \<Longrightarrow> dispatch_step hash accepts d (CommandRun removal path) d'"
| step_skip: "flush_item d = (None, d') \<Longrightarrow> dispatch_step hash accepts d Silent d'"
| step_stop: "dispatch_step hash accepts d Silent (stopAll d)"

inductive_cases dispatch_stepE: "dispatch_step hash accepts d l d'"

inductive dispatch_run :: "(wstring \<Rightarrow> nat) \<Rightarrow> (file_event \<Rightarrow> wstring \<Rightarrow> bool) \<Rightarrow> dispatch_label list \<Rightarrow> dispatcher \<Rightarrow> bool"
  for hash accepts where
  run_start: "dispatch_run hash accepts [] new_dispatcher"
| run_more: "dispatch_run hash accepts tr d \<Longrightarrow> dispatch_step hash accepts d l d' \<Longrightarrow> dispatch_run hash accepts (tr @ [l]) d'"

section \<open>What a path is waiting for\<close>

text \<open>The specification: the events of a path since its last command, merged.\<close>

definition wait_step :: "wstring \<Rightarrow> dispatch_label \<Rightarrow> file_event option \<Rightarrow> file_event option" where
  "wait_step p l waiting =
     (case l of
        EventPushed evt path \<Rightarrow>
          if path \<noteq> p then waiting else Some (case waiting of None \<Rightarrow> evt | Some old \<Rightarrow> merge2 old evt)
      | CommandRun removal path \<Rightarrow> if path = p then None else waiting
      | Silent \<Rightarrow> waiting)"

definition waiting_for :: "dispatch_label list \<Rightarrow> wstring \<Rightarrow> file_event option" where
  "waiting_for tr p = fold (wait_step p) tr None"

lemma waiting_snoc: "waiting_for (tr @ [l]) p = wait_step p l (waiting_for tr p)"
  by (simp add: waiting_for_def)

text \<open>The state of the dispatcher is that.\<close>

definition dispatch_inv :: "(wstring \<Rightarrow> nat) \<Rightarrow> dispatch_label list \<Rightarrow> dispatcher \<Rightarrow> bool" where
  "dispatch_inv hash tr d \<longleftrightarrow> um_ok (ed_evtMap d) \<and> distinct (ed_local d @ ed_pendingQ d) \<and>
     set (ed_local d @ ed_pendingQ d) = {h. um_find (ed_evtMap d) h \<noteq> None} \<and>
     (\<forall>p. um_find (ed_evtMap d) (hash p) = map_option (\<lambda>e. \<lparr>es_evt = e, es_path = p, es_queued = True\<rparr>) (waiting_for tr p)) \<and>
     (\<forall>h st. um_find (ed_evtMap d) h = Some st \<longrightarrow> h = hash (es_path st))"

lemma inv_push:
  assumes "inj hash" and i: "dispatch_inv hash tr d" and "\<not> ed_stopping d"
  shows "dispatch_inv hash (tr @ [EventPushed evt path]) (pushFileEvent hash evt path d)"
proof -
  have w: "um_find (ed_evtMap d) (hash p) = map_option (\<lambda>e. \<lparr>es_evt = e, es_path = p, es_queued = True\<rparr>) (waiting_for tr p)" for p
    using i by (simp add: dispatch_inv_def)
  have eq: "hash p = hash q \<longleftrightarrow> p = q" for p q using assms(1) by (simp add: inj_eq)
  let ?merged = "case waiting_for tr path of None \<Rightarrow> evt | Some old \<Rightarrow> merge2 old evt"
  have p: "pushFileEvent hash evt path d = d\<lparr>ed_evtMap := um_put (hash path) \<lparr>es_evt = ?merged, es_path = path, es_queued = True\<rparr> (ed_evtMap d),
      ed_pendingQ := (if waiting_for tr path \<noteq> None then ed_pendingQ d else ed_pendingQ d @ [hash path])\<rparr>"
    using assms(3) by (simp add: pushFileEvent_def w Let_def split: option.splits)
  have new: "waiting_for tr path = None \<Longrightarrow> hash path \<notin> set (ed_local d @ ed_pendingQ d)"
    using i w [of path] by (simp add: dispatch_inv_def)
  have old: "waiting_for tr path \<noteq> None \<Longrightarrow> hash path \<in> set (ed_local d @ ed_pendingQ d)"
    using i w [of path] by (auto simp: dispatch_inv_def)
  show ?thesis
    unfolding dispatch_inv_def
  proof (intro conjI)
    show "set (ed_local (pushFileEvent hash evt path d) @ ed_pendingQ (pushFileEvent hash evt path d)) =
        {h. um_find (ed_evtMap (pushFileEvent hash evt path d)) h \<noteq> None}"
      using i old by (auto simp: p um_find_put dispatch_inv_def split: if_splits)
    show "distinct (ed_local (pushFileEvent hash evt path d) @ ed_pendingQ (pushFileEvent hash evt path d))"
    proof (cases "waiting_for tr path = None")
      case True
      from i have "distinct (ed_local d @ ed_pendingQ d)" by (simp add: dispatch_inv_def)
      with new [OF True] show ?thesis by (simp add: p True)
    next
      case False
      with i show ?thesis by (auto simp: p dispatch_inv_def)
    qed
  qed (use i in \<open>auto simp: p um_find_put dispatch_inv_def waiting_snoc wait_step_def eq split: option.splits\<close>)
qed

lemma inv_item:
  assumes "inj hash" and i: "dispatch_inv hash tr d" and "\<not> ed_stopping d" and f: "flush_item d = (cmd, d')"
  shows "(cmd = None \<longrightarrow> d' = d \<and> ed_local d = []) \<and>
    (\<forall>b p. cmd = Some (b, p) \<longrightarrow> (\<exists>e. waiting_for tr p = Some e \<and> b = is_removal e) \<and> ed_local d = hash p # ed_local d' \<and>
       ed_pendingQ d' = ed_pendingQ d \<and> \<not> ed_stopping d' \<and> dispatch_inv hash (tr @ [CommandRun b p]) d')"
proof (cases "ed_local d")
  case Nil
  with f show ?thesis by (auto simp: flush_item_def)
next
  case (Cons h rest)
  have "h \<in> set (ed_local d @ ed_pendingQ d)" by (simp add: Cons)
  with i obtain st where st: "um_find (ed_evtMap d) h = Some st" by (auto simp: dispatch_inv_def)
  with i have h: "h = hash (es_path st)" by (simp add: dispatch_inv_def)
  have "map_option (\<lambda>e. \<lparr>es_evt = e, es_path = es_path st, es_queued = True\<rparr>) (waiting_for tr (es_path st)) = Some st"
    using i st h by (simp add: dispatch_inv_def)
  then have w: "waiting_for tr (es_path st) = Some (es_evt st)" by (cases "waiting_for tr (es_path st)"; cases st) simp_all
  have eq: "hash p = hash q \<longleftrightarrow> p = q" for p q using assms(1) by (simp add: inj_eq)
  from f have r: "cmd = Some (is_removal (es_evt st), es_path st)" "d' = d\<lparr>ed_local := rest, ed_evtMap := um_erase h (ed_evtMap d)\<rparr>"
    by (simp_all add: flush_item_def Cons st assms(3))
  have "dispatch_inv hash (tr @ [CommandRun (is_removal (es_evt st)) (es_path st)]) d'"
    unfolding dispatch_inv_def
  proof (intro conjI)
    show "set (ed_local d' @ ed_pendingQ d') = {k. um_find (ed_evtMap d') k \<noteq> None}"
      using i by (auto simp: r dispatch_inv_def Cons um_find_erase)
  qed (use i in \<open>auto simp: r dispatch_inv_def Cons um_find_erase waiting_snoc wait_step_def h eq\<close>)
  with w r h assms(3) Cons show ?thesis by auto
qed

lemma inv_begin:
  "dispatch_inv hash tr d \<Longrightarrow> ed_local d = [] \<Longrightarrow> dispatch_inv hash tr (flush_begin d)"
  by (auto simp: dispatch_inv_def flush_begin_def)

lemma waiting_silent: "waiting_for (tr @ [Silent]) p = waiting_for tr p"
  by (simp add: waiting_snoc wait_step_def)

lemma inv_silent: "dispatch_inv hash (tr @ [Silent]) d = dispatch_inv hash tr d"
  by (simp add: dispatch_inv_def waiting_silent)

text \<open>Every command was waited for, and the invariant holds until the dispatcher is stopped.\<close>

definition commands_awaited :: "dispatch_label list \<Rightarrow> bool" where
  "commands_awaited tr \<longleftrightarrow> (\<forall>n < length tr. \<forall>b p. tr ! n = CommandRun b p \<longrightarrow> (\<exists>e. waiting_for (take n tr) p = Some e \<and> b = is_removal e))"

lemma awaited_snoc:
  "commands_awaited (tr @ [l]) \<longleftrightarrow> commands_awaited tr \<and> (\<forall>b p. l = CommandRun b p \<longrightarrow> (\<exists>e. waiting_for tr p = Some e \<and> b = is_removal e))"
  by (auto simp: commands_awaited_def nth_append less_Suc_eq)

lemma stopped_item: "ed_stopping d \<Longrightarrow> flush_item d = (cmd, d') \<Longrightarrow> cmd = None \<and> ed_stopping d'"
  by (auto simp: flush_item_def split: list.splits)

lemma run_inv:
  assumes "inj hash"
  shows "dispatch_run hash accepts tr d \<Longrightarrow> commands_awaited tr \<and> (ed_stopping d \<or> dispatch_inv hash tr d)"
proof (induction rule: dispatch_run.induct)
  case run_start
  then show ?case by (simp add: commands_awaited_def dispatch_inv_def new_dispatcher_def waiting_for_def)
next
  case (run_more tr d l d')
  show ?case
  proof (cases "ed_stopping d")
    case True
    with run_more.hyps(2) have "(\<forall>b p. l \<noteq> CommandRun b p) \<and> ed_stopping d'"
      by (auto elim!: dispatch_stepE simp: pushFileEvent_def flush_begin_def stopAll_def dest: stopped_item)
    with run_more.IH show ?thesis by (auto simp: awaited_snoc)
  next
    case False
    with run_more.IH have i: "dispatch_inv hash tr d" and a: "commands_awaited tr" by simp_all
    from run_more.hyps(2) show ?thesis
    proof (cases rule: dispatch_step.cases)
      case (step_push evt path)
      with inv_push [OF assms i False] a show ?thesis by (simp add: awaited_snoc)
    next
      case step_refuse
      with i a show ?thesis by (simp add: awaited_snoc inv_silent)
    next
      case step_begin
      with inv_begin [OF i] a show ?thesis by (simp add: awaited_snoc inv_silent)
    next
      case (step_command removal path)
      with inv_item [OF assms i False, of "Some (removal, path)" d'] a show ?thesis by (simp add: awaited_snoc)
    next
      case step_skip
      with inv_item [OF assms i False, of None d'] i a show ?thesis by (simp add: awaited_snoc inv_silent)
    next
      case step_stop
      with False a show ?thesis by (simp add: awaited_snoc stopAll_def)
    qed
  qed
qed

lemma flush_loop_exact:
  assumes "inj hash"
  shows "dispatch_inv hash tr d \<Longrightarrow> \<not> ed_stopping d \<Longrightarrow> flush_loop (length (ed_local d)) d = (cmds, d') \<Longrightarrow>
    map (hash \<circ> snd) cmds = ed_local d \<and> (\<forall>(b, p) \<in> set cmds. \<exists>e. waiting_for tr p = Some e \<and> b = is_removal e) \<and>
    ed_local d' = [] \<and> ed_pendingQ d' = ed_pendingQ d \<and> dispatch_inv hash (tr @ map (\<lambda>(b, p). CommandRun b p) cmds) d'"
proof (induction "length (ed_local d)" arbitrary: tr d cmds d')
  case 0
  then show ?case by auto
next
  case (Suc n)
  obtain cmd d1 where f: "flush_item d = (cmd, d1)" by (rule prod.exhaust)
  obtain cmds1 d2 where l: "flush_loop n d1 = (cmds1, d2)" by (rule prod.exhaust)
  from inv_item [OF assms Suc.prems(1,2) f] Suc.hyps(2) obtain b p where c: "cmd = Some (b, p)" by (cases cmd) auto
  with inv_item [OF assms Suc.prems(1,2) f] obtain e where s: "waiting_for tr p = Some e" "b = is_removal e"
    "ed_local d = hash p # ed_local d1" "ed_pendingQ d1 = ed_pendingQ d" "\<not> ed_stopping d1"
    "dispatch_inv hash (tr @ [CommandRun b p]) d1" by blast
  have n: "n = length (ed_local d1)" using Suc.hyps(2) s(3) by simp
  have r: "cmds = (b, p) # cmds1" "d' = d2" using Suc.prems(3) by (simp_all add: Suc.hyps(2) [symmetric] f l c)
  note IH = Suc.hyps(1) [OF n s(6,5) l [unfolded n]]
  have "q \<noteq> p" if "(b', q) \<in> set cmds1" for b' q
  proof
    assume "q = p"
    with that have "hash p \<in> set (map (hash \<circ> snd) cmds1)" by force
    with IH have "hash p \<in> set (ed_local d1)" by simp
    with Suc.prems(1) s(3) show False by (simp add: dispatch_inv_def)
  qed
  then have "\<forall>(b', q) \<in> set cmds1. \<exists>e. waiting_for tr q = Some e \<and> b' = is_removal e"
    using IH by (fastforce simp: waiting_snoc wait_step_def)
  with IH s show ?case by (auto simp: r)
qed

section \<open>What is dispatched\<close>

text \<open>A hash without collisions, and a run with it: an update is dispatched while an event waits again.\<close>

fun demo_hash :: "wstring \<Rightarrow> nat" where
  "demo_hash [] = 0"
| "demo_hash (c # cs) = unat c + 65536 * demo_hash cs + 1"

lemma demo_hash_inj: "inj demo_hash"
proof (rule injI)
  have split: "(unat (c :: u16) + 65536 * n) mod 65536 = unat c \<and> (unat c + 65536 * n) div 65536 = n" for c and n :: nat
    using unsigned_less [of c, where 'a = nat] by simp
  show "demo_hash p = demo_hash q \<Longrightarrow> p = q" for p q
  proof (induction p arbitrary: q)
    case Nil
    then show ?case by (cases q) simp_all
  next
    case (Cons c cs)
    then obtain c' cs' where q: "q = c' # cs'" by (cases q) simp_all
    with Cons.prems have "unat c + 65536 * demo_hash cs = unat c' + 65536 * demo_hash cs'" by simp
    with split [of c "demo_hash cs"] split [of c' "demo_hash cs'"] have "unat c = unat c'" "demo_hash cs = demo_hash cs'" by metis+
    with Cons.IH [of cs'] show ?case by (simp add: q word_eq_iff_unsigned [where 'a = nat])
  qed
qed

definition demo_labels :: "dispatch_label list" where
  "demo_labels = [EventPushed Added [97], EventPushed RenamedOld [98], Silent, CommandRun False [97], EventPushed Modified [97], CommandRun True [98]]"

definition demo_dispatcher :: dispatcher where
  "demo_dispatcher = snd (flush_item (pushFileEvent demo_hash Modified [97] (snd (flush_item (flush_begin
     (pushFileEvent demo_hash RenamedOld [98] (pushFileEvent demo_hash Added [97] new_dispatcher)))))))"

lemmas dispatch_simps = pushFileEvent_def new_dispatcher_def Let_def um_find_put um_find_erase flush_begin_def flush_item_def
  flushPending_def merge2_def is_removal_def

lemma demo_dispatch: "dispatch_run demo_hash (\<lambda>evt path. True) demo_labels demo_dispatcher"
proof -
  let ?acc = "\<lambda>(evt :: file_event) (path :: wstring). True"
  let ?d1 = "pushFileEvent demo_hash Added [97] new_dispatcher"
  let ?d2 = "pushFileEvent demo_hash RenamedOld [98] ?d1"
  let ?d3 = "flush_begin ?d2"
  let ?d4 = "snd (flush_item ?d3)"
  let ?d5 = "pushFileEvent demo_hash Modified [97] ?d4"
  have "dispatch_run demo_hash ?acc ([] @ [EventPushed Added [97]]) ?d1" by (intro run_more [OF run_start] step_push TrueI)
  then have "dispatch_run demo_hash ?acc (([] @ [EventPushed Added [97]]) @ [EventPushed RenamedOld [98]]) ?d2"
    by (rule run_more) (intro step_push TrueI)
  then have "dispatch_run demo_hash ?acc ((([] @ [EventPushed Added [97]]) @ [EventPushed RenamedOld [98]]) @ [Silent]) ?d3"
    by (rule run_more) (rule step_begin, simp add: dispatch_simps)
  then have "dispatch_run demo_hash ?acc (((([] @ [EventPushed Added [97]]) @ [EventPushed RenamedOld [98]]) @ [Silent]) @ [CommandRun False [97]]) ?d4"
    by (rule run_more) (rule step_command, simp add: dispatch_simps)
  then have "dispatch_run demo_hash ?acc ((((([] @ [EventPushed Added [97]]) @ [EventPushed RenamedOld [98]]) @ [Silent]) @
      [CommandRun False [97]]) @ [EventPushed Modified [97]]) ?d5"
    by (rule run_more) (intro step_push TrueI)
  then have "dispatch_run demo_hash ?acc (((((([] @ [EventPushed Added [97]]) @ [EventPushed RenamedOld [98]]) @ [Silent]) @
      [CommandRun False [97]]) @ [EventPushed Modified [97]]) @ [CommandRun True [98]]) demo_dispatcher"
    unfolding demo_dispatcher_def by (rule run_more) (rule step_command, simp add: dispatch_simps)
  then show ?thesis by (simp add: demo_labels_def)
qed





text \<open>C28: a file that is deleted and made again between two flushes is taken out of the index. The
  merged event of \<open>Removed\<close> and \<open>Added\<close> is \<open>Removed\<close>, whatever modifications follow, so the one
  command that runs is the removal although the file is there.\<close>

theorem recreated_file_is_removed:
  assumes "accepts Removed p" and "accepts Added p" and "accepts Modified p"
  shows "\<exists>d. dispatch_run hash accepts [EventPushed Removed p, EventPushed Added p, EventPushed Modified p] d \<and>
    fst (flushPending d) = [(True, p)]"
proof -
  let ?d1 = "pushFileEvent hash Removed p new_dispatcher"
  let ?d2 = "pushFileEvent hash Added p ?d1"
  let ?d3 = "pushFileEvent hash Modified p ?d2"
  have "dispatch_run hash accepts ([] @ [EventPushed Removed p]) ?d1" by (intro run_more [OF run_start] step_push assms)
  then have "dispatch_run hash accepts (([] @ [EventPushed Removed p]) @ [EventPushed Added p]) ?d2" by (rule run_more) (intro step_push assms)
  then have "dispatch_run hash accepts ((([] @ [EventPushed Removed p]) @ [EventPushed Added p]) @ [EventPushed Modified p]) ?d3"
    by (rule run_more) (intro step_push assms)
  then have "dispatch_run hash accepts [EventPushed Removed p, EventPushed Added p, EventPushed Modified p] ?d3" by simp
  moreover have "fst (flushPending ?d3) = [(True, p)]"
    by (simp add: dispatch_simps)
  ultimately show ?thesis by blast
qed

theorem recreated_file_is_removed_witness:
  "\<exists>d. dispatch_run demo_hash (shouldAcceptFileEvent demo_selection_env demo_selection []) [EventPushed Removed demo_wanted,
      EventPushed Added demo_wanted, EventPushed Modified demo_wanted] d \<and> fst (flushPending d) = [(True, demo_wanted)]"
  by (rule recreated_file_is_removed) code_simp+

end
