(* ===== verification/Spec2Isabelle.thy ===== *)
theory Spec2Isabelle
  imports BatchIndex SessionAnswers PostingList WordID Tokenizer DocPaths DocumentCatalog InvertedIndex IndexUpdate Encoding
    SQLiteIndexDb SQLitePersistence LiveMirror MirrorConsistency QuerySearch ServerLifecycle SQLite_Varint SQLite_Text
    RestoreTheorems EventDispatcher
begin

text \<open>
  This is the verification of the search engine server: a program for Windows that keeps an inverted
  index of the words of OEM-866 text files, answers queries over an own binary protocol, receives
  files, and is accompanied by a backup of directories. The paths below are relative to the
  repository.

  \<^bold>\<open>The parts and how they interact.\<close> A scan of the roots and the watchers of directories say which
  files are to be indexed (\<open>src/src/MyUtils\<close>, \<open>src/src/FileWatcher\<close>). A document table gives each path
  a number and tells new, changed and removed files apart; the tokenizer turns the bytes of a file
  into words; a dictionary numbers the words; and the index keeps, for each word, the files that have
  it with the counts (\<open>src/src/Index\<close>). The index is changed by point updates of one file, by batches of
  an update, and by a full rebuild with many threads; a writer thread carries every change to tables
  in SQLite, from which the index is loaded after a restart. The server runs searches, updates and the
  shutdown side by side (\<open>src/src/SearchServer\<close>). A connection has a loop that reads requests and a
  loop that writes answers (\<open>src/src/AsioServer\<close>); before a request is executed a gate asks whether the
  session has been authenticated by a signed token (\<open>src/src/Auth\<close>, \<open>src/src/Commands/Auth\<close>), and uploads
  go through a sink that publishes a file as a whole (\<open>src/src/Commands/StreamingUpload\<close>). The rolling
  backup mirrors a source, keeps what it replaces as objects, takes restore points, and can restore
  them (\<open>src/src/Backup\<close>).

  \<^bold>\<open>Theories and sources.\<close> State is a record with the members of the class, an operation is a function
  that returns the new state, an error is a value, and what threads do is a step relation whose steps
  are the critical sections of the code. Machine integers have their width.

  \<^item> \<open>SE_Prelude\<close>: the integer types, unordered maps (\<open>um_find\<close> and so on), \<open>std::lower_bound\<close>, and the
    lemmas about them.
  \<^item> \<open>FileSelection\<close>: \<open>PathExclusion.cpp\<close>, \<open>FileExtensionContract.cpp\<close>, \<open>FileScanner.cpp\<close> and
    \<open>FileEventFilter.h\<close>. \<open>EventDispatcher\<close>: \<open>FileEventDispatcher.cpp\<close>, with the specification \<open>waiting_for\<close>,
    the merged events of a path since its last command.
  \<^item> \<open>PostingList\<close>, \<open>WordID\<close>, \<open>Tokenizer\<close>, \<open>DocPaths\<close>: \<open>PostingList.h\<close>, \<open>WordID.cpp\<close>, \<open>simd_tokenizer.cpp\<close> with
    \<open>OEMFastTokenizer.cpp\<close>, and \<open>DocPaths.cpp\<close>. The interfaces \<open>counting_map\<close> and \<open>interner\<close> are what
    their clients rely on.
  \<^item> \<open>DocumentCatalog\<close>: both catalogs of \<open>DocumentCatalog.cpp\<close>, under the interface \<open>document_catalog\<close>.
  \<^item> \<open>InvertedIndex\<close>, \<open>IndexUpdate\<close>: \<open>InvertedIndex.cpp\<close>, first the dictionary in chunks with the batch
    commit, erasure and compaction, then the point updates as tasks on a strand and a pool.
  \<^item> \<open>BatchQueue\<close>, \<open>BatchPipeline\<close>, \<open>BatchRun\<close>, \<open>BatchTermination\<close>, \<open>BatchIndex\<close>: the full rebuild
    (\<open>Batch/BoundedByteQueue.h\<close>, \<open>Batch/BatchIndexBuilder.cpp\<close>): the bounded queue under the interface
    \<open>lane\<close>, the threads, their invariants, their termination, and the merge with the exchange of the index.
  \<^item> \<open>SQLiteIndexDb\<close>, \<open>SQLitePersistence\<close>, \<open>LiveMirror\<close>, \<open>MirrorConsistency\<close>: \<open>SQLiteIndexSerializer.cpp\<close>: the
    tables and the writing of a batch, saving and loading, the writer thread under the interface
    \<open>batch_store\<close>, and the index and its mirror together.
  \<^item> \<open>Encoding\<close>, \<open>Utf8Decode\<close>: the conversions of paths in \<open>MyUtils/Encoding.cpp\<close> over the vendored utf8cpp.
  \<^item> \<open>QuerySearch\<close>, \<open>ServerLifecycle\<close>: \<open>QueryWordMatch.cpp\<close> and \<open>SearchServer.cpp\<close>: matching and ranking; the
    interleaving of searches, updates and shutdown.
  \<^item> \<open>CommandResult\<close>, \<open>Base64\<close>, \<open>Auth\<close>: error codes, the codecs and the documents of a token, the table of
    clients, and the command that authenticates a session.
  \<^item> \<open>Protocol\<close>, \<open>ServerActivity\<close>, \<open>Session\<close>, \<open>SessionProofs\<close>, \<open>SessionAnswers\<close>: \<open>AsioServer.h\<close> and
    \<open>AsioServer.cpp\<close>: header and gate, the counters of the shutdown, and a connection over the bytes of its
    socket. \<open>UploadSink\<close>, \<open>UploadProofs\<close>: \<open>StreamingUpload.cpp\<close>.
  \<^item> \<open>PathFilter\<close>: \<open>Backup/BackupPathFilter.cpp\<close>. \<open>MirrorHistory\<close>: \<open>Backup/MirrorHistory.cpp\<close>, with its
    lemmas in \<open>MirrorProofs\<close> and \<open>MirrorRun\<close> and its theorems in \<open>MirrorTheorems\<close>; what a run relies on when
    it reads the source is the interface \<open>faithful_capture\<close>. \<open>MirrorRestore\<close>, \<open>RestoreTheorems\<close>:
    \<open>Backup/Restore\<close>.
  \<^item> \<open>SQLite_Varint\<close>, \<open>SQLite_Text\<close>: the integer and text utilities of \<open>SQLite/sqlite3.c\<close>.
\<close>

text \<open>
  \<^bold>\<open>What the theorems show.\<close>

  \<^item> Input: the scan and the event filter choose the same files but for the size; the dispatcher runs
    exactly the commands that the events ask for; a rescan classifies every path.
  \<^item> Index: a batch commit adds what it says, updating a file replaces its counts, compaction keeps the
    postings, the vector tokenizer is the scalar one, and the full rebuild and the incremental path
    agree up to the width of the counters.
  \<^item> The full rebuild: its threads end under every schedule, never mix up blocks, and commit every
    readable file once; the exchange of the index is all or nothing.
  \<^item> Persistence: what is saved is what is loaded, a coalesced batch has the effect of the sequence, and a
    flush returns only when what was queued is in the tables.
  \<^item> Queries: the files that match and their order; the life cycle of the server.
  \<^item> Connections: nothing but the commands of the bootstrap is executed before authentication; requests
    keep their frames; every request has one answer, whole and in order. Authentication accepts exactly
    the tokens issued for an enabled client. An upload is published as a whole and under its root.
  \<^item> Backup: the matcher of patterns is the pattern language; a run that succeeds leaves the mirror equal to the
    source; no run loses a version that a restore point needs; every point of a backup in order is
    restored exactly.
  \<^item> Where the code does not do what it means to, theorems or lemmas give the runs: among them files whose
    last word is dropped (\<open>Tokenizer\<close>), the wrapping counters (\<open>BatchIndex\<close>), the mirror after a compaction
    (\<open>MirrorConsistency\<close>), the coalesced words (\<open>SQLiteIndexDb\<close>), the blocked server (\<open>ServerLifecycle\<close>),
    requests behind a closing answer (\<open>SessionAnswers\<close>), a file made again (\<open>EventDispatcher\<close>), and the lost
    copies of \<open>MirrorTheorems\<close>.

  \<^bold>\<open>Specifications.\<close> The threads of the rebuild are compared with the words of each file
  (\<open>BatchRun\<close>), a coalesced batch with the single operations (\<open>SQLiteIndexDb\<close>), the flush with
  \<open>waiting_for\<close>, the matcher with \<open>glob\<close> and \<open>part_matches\<close>, the backup with \<open>mirror_exact\<close>,
  \<open>points_recoverable\<close> and \<open>restored_exactly\<close>, and the catalogs, queues and dictionaries with the laws of
  their interfaces.

  \<^bold>\<open>Bounds and fuel.\<close> Loops that end are recursive functions. The matcher of patterns is a partial
  function that is shown to return. The capture of a file has three attempts, as in the code. The
  candidates for the name of an upload, and for the label of a point, are one more than the names that are
  taken, so one of them is free. Numbers of files and words are 32 bits wide and counts 16, and a theorem
  that needs room has it as a hypothesis.

  \<^bold>\<open>What is an argument.\<close> Signing, SHA-256, the case tables of Windows, its decoder of UTF-8, the text form
  of JSON, the answers of handlers that query other data bases, and every refusal of the operating
  system. That names differ in more than their case, that contents are told apart by their hash, and that
  the hashes of the paths that wait differ, are hypotheses of the theorems that need them.

  \<^bold>\<open>Not modelled\<close>, and why: start-up, wiring and the Windows service (\<open>Application\<close>); the watchers
  themselves, which read change notifications; the commands that query the data base of telegrams; the
  snapshot mode of the backup, its cache, the calls of the SQLite backup interface and of the system's
  hash functions, and its configuration; settings and JSON through a vendored library; logging and
  scheduling; SQLite beyond its utilities and the other vendored libraries; and the tools, which are
  programs of their own, except for the signing and installing of tokens. The log lines and the texts of
  errors are left out throughout.
\<close>

end
